(* ===== verification/Prelude.thy ===== *)
theory Prelude
  imports Main "HOL-Library.Word" "HOL-Library.Monad_Syntax"
begin

text \<open>
  Shared vocabulary of the development.  The kernel is compiled for i686, so addresses and
  \<^verbatim>\<open>size_t\<close> are 32-bit words and address 0 is \<^verbatim>\<open>NULL\<close>.  A step of the code that has no
  defined result (a read or write through a pointer that designates no live object, a failed
  \<^verbatim>\<open>ASSERT\<close>) has the value \<^term>\<open>None\<close>; the \<^theory_text>\<open>do\<close> notation of the option type threads
  such steps.  The generic facts below about words, options and lists are shared by the
  component theories.
\<close>

unbundle bit_operations_syntax

type_synonym u8 = "8 word"
type_synonym u16 = "16 word"
type_synonym u32 = "32 word"
type_synonym ptr = "32 word"

abbreviation NULL :: ptr where
  "NULL \<equiv> 0"

named_theorems heap_ops \<open>definitions of the primitive reads and writes of the object heap\<close>
named_theorems frame_rules \<open>facts that an operation leaves a part of the state alone\<close>

subsection \<open>Option\<close>

lemma bind_SomeI [intro?]:
  "m = Some x \<Longrightarrow> f x = Some y \<Longrightarrow> Option.bind m f = Some y"
  by simp

lemma bind_eq_Some_iff:
  "(Option.bind m f = Some y) \<longleftrightarrow> (\<exists>x. m = Some x \<and> f x = Some y)"
  by (cases m) auto

subsection \<open>Words used as lengths and addresses\<close>

lemma distinct_words_length:
  assumes "distinct (xs :: 'a::len word list)" and "x \<notin> set xs"
  shows "length xs < 2 ^ LENGTH('a)"
proof -
  have "length xs = card (set xs)"
    using assms(1) by (simp add: distinct_card)
  also have "\<dots> < card (UNIV :: 'a word set)"
    using assms(2) by (intro psubset_card_mono) auto
  finally show ?thesis
    by (simp add: card_word)
qed

lemma of_nat_eq_0_iff_small:
  assumes "n < 2 ^ LENGTH('a)"
  shows "(of_nat n :: 'a::len word) = 0 \<longleftrightarrow> n = 0"
  using assms by (auto simp: word_of_nat_eq_0_iff dest: dvd_imp_le)

lemma unat_of_nat_small:
  "n < 2 ^ LENGTH('a) \<Longrightarrow> unat (of_nat n :: 'a::len word) = n"
  by (simp add: unat_of_nat take_bit_nat_eq_self)

lemma word_Suc_minus_1 [simp]:
  "(of_nat (Suc n) :: 'a::len word) - 1 = of_nat n"
  by simp

lemma unat_bound: "unat (w :: 'a::len word) < 2 ^ LENGTH('a)"
  by (rule unsigned_less)

lemma uint_eq_uint [simp]: "uint (a :: 'a::len word) = uint b \<longleftrightarrow> a = b"
  by (simp add: word_uint_eq_iff)

lemma uint_eq_0 [simp]: "uint (a :: 'a::len word) = 0 \<longleftrightarrow> a = 0"
  by (rule uint_0_iff)

lemma unat_Suc_below:
  assumes "(w :: 'a::len word) < s"
  shows "unat (w + 1) = Suc (unat w)"
proof -
  have "unat w < unat s"
    using assms by (simp add: word_less_nat_alt)
  with unat_bound [of s] have "Suc (unat w) < 2 ^ LENGTH('a)"
    by linarith
  then show ?thesis
    by (simp add: unat_word_ariths)
qed

subsection \<open>Lists\<close>

lemma distinct_split_unique:
  assumes "distinct (xs @ n # ys)" and "xs @ n # ys = xs' @ n # ys'"
  shows "xs = xs' \<and> ys = ys'"
proof -
  have "n \<notin> set xs" "n \<notin> set ys" using assms(1) by auto
  moreover have "n \<notin> set xs'" "n \<notin> set ys'"
    using assms by (metis distinct.simps(2) distinct_append not_distinct_conv_prefix
        Un_iff set_append distinct_append disjoint_iff list.set_intros(1))+
  ultimately show ?thesis
    using assms(2) by (metis append_Cons_eq_iff)
qed

lemma takeWhile_trivial [simp]:
  "takeWhile (\<lambda>x. False) xs = []" "takeWhile (\<lambda>x. True) xs = xs"
  by (cases xs) (simp_all add: takeWhile_eq_all_conv)

lemma take_length_dropWhile: "take (length xs - length (dropWhile P xs)) xs = takeWhile P xs"
  by (metis add_diff_cancel_right' append_eq_conv_conj length_append takeWhile_dropWhile_id)

lemma remove1_split:
  "n \<notin> set xs \<Longrightarrow> remove1 n (xs @ n # ys) = xs @ ys"
  by (simp add: remove1_append)

end
