(* ===== verification/Linked_List.thy ===== *)
theory Linked_List
  imports Prelude
begin

text \<open>
  The doubly linked list of \<^verbatim>\<open>src/src/libc/data_struct/list.h\<close> and \<^verbatim>\<open>src/src/libc/data_struct/list.cpp\<close>.
  Nodes and list headers live in an object heap; every function of the C file is one
  definition over that heap, in the order of the file.  A pointer returned by
  \<^verbatim>\<open>malloc\<close> is an argument of the operation that allocates.  \<open>dll h l ns\<close> says that the
  header \<open>l\<close> represents the node sequence \<open>ns\<close>; the lemmas show that every operation
  acts on that sequence as it should, and touches no other list.
\<close>

section \<open>The heap\<close>

record node =
  node_next :: ptr
  node_prev :: ptr
  node_value :: ptr
  node_owner :: ptr

record list_obj =
  list_head :: ptr
  list_tail :: ptr
  list_length :: u32

record heap =
  nodes :: "ptr \<Rightarrow> node option"
  lists :: "ptr \<Rightarrow> list_obj option"

text \<open>Reads and writes through a pointer; \<^term>\<open>None\<close> when it designates no live object.\<close>

definition rd_node :: "heap \<Rightarrow> ptr \<Rightarrow> node option" where
  "rd_node h p = (if p = NULL then None else nodes h p)"

definition rd_list :: "heap \<Rightarrow> ptr \<Rightarrow> list_obj option" where
  "rd_list h l = (if l = NULL then None else lists h l)"

definition wr_node :: "ptr \<Rightarrow> (node \<Rightarrow> node) \<Rightarrow> heap \<Rightarrow> heap option" where
  "wr_node p f h = do {
     n \<leftarrow> rd_node h p;
     Some (h\<lparr>nodes := (nodes h)(p := Some (f n))\<rparr>)
   }"

definition wr_list :: "ptr \<Rightarrow> (list_obj \<Rightarrow> list_obj) \<Rightarrow> heap \<Rightarrow> heap option" where
  "wr_list l f h = do {
     L \<leftarrow> rd_list h l;
     Some (h\<lparr>lists := (lists h)(l := Some (f L))\<rparr>)
   }"

definition free_node :: "ptr \<Rightarrow> heap \<Rightarrow> heap" where
  "free_node p h = h\<lparr>nodes := (nodes h)(p := None)\<rparr>"

definition free_list_obj :: "ptr \<Rightarrow> heap \<Rightarrow> heap" where
  "free_list_obj l h = h\<lparr>lists := (lists h)(l := None)\<rparr>"

lemmas [heap_ops] = rd_node_def rd_list_def wr_node_def wr_list_def

section \<open>The operations\<close>

definition list_append :: "ptr \<Rightarrow> ptr \<Rightarrow> heap \<Rightarrow> heap option" where
  "list_append l n h = do {
     h \<leftarrow> wr_node n (\<lambda>nd. nd\<lparr>node_next := NULL\<rparr>) h;
     h \<leftarrow> wr_node n (\<lambda>nd. nd\<lparr>node_owner := l\<rparr>) h;
     L \<leftarrow> rd_list h l;
     if list_length L = 0 then do {
       h \<leftarrow> wr_list l (\<lambda>L. L\<lparr>list_head := n, list_tail := n\<rparr>) h;
       h \<leftarrow> wr_node n (\<lambda>nd. nd\<lparr>node_prev := NULL, node_next := NULL\<rparr>) h;
       wr_list l (\<lambda>L. L\<lparr>list_length := list_length L + 1\<rparr>) h
     } else do {
       h \<leftarrow> wr_node (list_tail L) (\<lambda>nd. nd\<lparr>node_next := n\<rparr>) h;
       h \<leftarrow> wr_node n (\<lambda>nd. nd\<lparr>node_prev := list_tail L\<rparr>) h;
       wr_list l (\<lambda>L. L\<lparr>list_tail := n, list_length := list_length L + 1\<rparr>) h
     }
   }"

text \<open>\<open>new_node n v\<close>: the \<^verbatim>\<open>malloc\<close> of a node, which returned \<open>n\<close>, and its initialisation.\<close>

definition new_node :: "ptr \<Rightarrow> ptr \<Rightarrow> heap \<Rightarrow> heap" where
  "new_node n v h = h\<lparr>nodes := (nodes h)(n := Some \<lparr>node_next = NULL, node_prev = NULL,
     node_value = v, node_owner = NULL\<rparr>)\<rparr>"

definition list_insert :: "ptr \<Rightarrow> ptr \<Rightarrow> ptr \<Rightarrow> heap \<Rightarrow> (ptr \<times> heap) option" where
  "list_insert n l item h = do {
     h \<leftarrow> list_append l n (new_node n item h);
     Some (n, h)
   }"

definition list_append_after :: "ptr \<Rightarrow> ptr \<Rightarrow> ptr \<Rightarrow> heap \<Rightarrow> heap option" where
  "list_append_after l before n h = do {
     h \<leftarrow> wr_node n (\<lambda>nd. nd\<lparr>node_owner := l\<rparr>) h;
     L \<leftarrow> rd_list h l;
     if list_length L = 0 then list_append l n h
     else if before = NULL then do {
       h \<leftarrow> wr_node n (\<lambda>nd. nd\<lparr>node_next := list_head L, node_prev := NULL\<rparr>) h;
       h \<leftarrow> wr_node (list_head L) (\<lambda>nd. nd\<lparr>node_prev := n\<rparr>) h;
       wr_list l (\<lambda>L. L\<lparr>list_head := n, list_length := list_length L + 1\<rparr>) h
     } else do {
       h \<leftarrow> (if before = list_tail L then wr_list l (\<lambda>L. L\<lparr>list_tail := n\<rparr>) h
             else do {
               b \<leftarrow> rd_node h before;
               h \<leftarrow> wr_node (node_next b) (\<lambda>nd. nd\<lparr>node_prev := n\<rparr>) h;
               b \<leftarrow> rd_node h before;
               wr_node n (\<lambda>nd. nd\<lparr>node_next := node_next b\<rparr>) h
             });
       h \<leftarrow> wr_node n (\<lambda>nd. nd\<lparr>node_prev := before\<rparr>) h;
       h \<leftarrow> wr_node before (\<lambda>nd. nd\<lparr>node_next := n\<rparr>) h;
       wr_list l (\<lambda>L. L\<lparr>list_length := list_length L + 1\<rparr>) h
     }
   }"

definition list_insert_after :: "ptr \<Rightarrow> ptr \<Rightarrow> ptr \<Rightarrow> ptr \<Rightarrow> heap \<Rightarrow> (ptr \<times> heap) option" where
  "list_insert_after n l before item h = do {
     h \<leftarrow> list_append_after l before n (new_node n item h);
     Some (n, h)
   }"

text \<open>The \<^verbatim>\<open>ASSERT\<close> at the head of \<^verbatim>\<open>list_append_before\<close> panics: no result.\<close>

definition list_append_before :: "ptr \<Rightarrow> ptr \<Rightarrow> ptr \<Rightarrow> heap \<Rightarrow> heap option" where
  "list_append_before l after n h = do {
     nd \<leftarrow> rd_node h n;
     if node_next nd \<noteq> NULL \<or> node_prev nd \<noteq> NULL then None else do {
     h \<leftarrow> wr_node n (\<lambda>nd. nd\<lparr>node_owner := l\<rparr>) h;
     L \<leftarrow> rd_list h l;
     if list_length L = 0 then list_append l n h
     else if after = NULL then do {
       h \<leftarrow> wr_node n (\<lambda>nd. nd\<lparr>node_next := NULL, node_prev := list_tail L\<rparr>) h;
       h \<leftarrow> wr_node (list_tail L) (\<lambda>nd. nd\<lparr>node_next := n\<rparr>) h;
       wr_list l (\<lambda>L. L\<lparr>list_tail := n, list_length := list_length L + 1\<rparr>) h
     } else do {
       h \<leftarrow> (if after = list_head L then wr_list l (\<lambda>L. L\<lparr>list_head := n\<rparr>) h
             else do {
               a \<leftarrow> rd_node h after;
               h \<leftarrow> wr_node (node_prev a) (\<lambda>nd. nd\<lparr>node_next := n\<rparr>) h;
               a \<leftarrow> rd_node h after;
               wr_node n (\<lambda>nd. nd\<lparr>node_prev := node_prev a\<rparr>) h
             });
       h \<leftarrow> wr_node n (\<lambda>nd. nd\<lparr>node_next := after\<rparr>) h;
       h \<leftarrow> wr_node after (\<lambda>nd. nd\<lparr>node_prev := n\<rparr>) h;
       wr_list l (\<lambda>L. L\<lparr>list_length := list_length L + 1\<rparr>) h
     } }
   }"

definition list_insert_before :: "ptr \<Rightarrow> ptr \<Rightarrow> ptr \<Rightarrow> ptr \<Rightarrow> heap \<Rightarrow> (ptr \<times> heap) option" where
  "list_insert_before n l after item h = do {
     h \<leftarrow> list_append_before l after n (new_node n item h);
     Some (n, h)
   }"

definition list_create :: "ptr \<Rightarrow> heap \<Rightarrow> heap" where
  "list_create l h = h\<lparr>lists := (lists h)(l := Some \<lparr>list_head = NULL, list_tail = NULL,
     list_length = 0\<rparr>)\<rparr>"

text \<open>\<^verbatim>\<open>foreach\<close> loops follow \<^verbatim>\<open>next\<close> from a node until \<^verbatim>\<open>NULL\<close>; on a cyclic list they do
  not return, which is the value \<^term>\<open>None\<close> of the partial functions.\<close>

partial_function (option) find_from :: "heap \<Rightarrow> ptr \<Rightarrow> ptr \<Rightarrow> ptr option" where
  "find_from h i v = (if i = NULL then Some NULL else do {
     nd \<leftarrow> rd_node h i;
     if node_value nd = v then Some i else find_from h (node_next nd) v })"

definition list_find :: "ptr \<Rightarrow> ptr \<Rightarrow> heap \<Rightarrow> ptr option" where
  "list_find l v h = do { L \<leftarrow> rd_list h l; find_from h (list_head L) v }"

partial_function (option) index_from :: "heap \<Rightarrow> ptr \<Rightarrow> ptr \<Rightarrow> int \<Rightarrow> int option" where
  "index_from h p v i = (if p = NULL then Some (- 1) else do {
     nd \<leftarrow> rd_node h p;
     if node_value nd = v then Some i else index_from h (node_next nd) v (i + 1) })"

definition list_index_of :: "ptr \<Rightarrow> ptr \<Rightarrow> heap \<Rightarrow> int option" where
  "list_index_of l v h = do { L \<leftarrow> rd_list h l; index_from h (list_head L) v 0 }"

text \<open>The \<^verbatim>\<open>ASSERT\<close> of \<^verbatim>\<open>list_delete\<close> panics when the node belongs to another list.\<close>

definition list_delete :: "ptr \<Rightarrow> ptr \<Rightarrow> heap \<Rightarrow> heap option" where
  "list_delete l n h = do {
     nd \<leftarrow> rd_node h n;
     if node_owner nd \<noteq> l then None else do {
     L \<leftarrow> rd_list h l;
     h \<leftarrow> (if n = list_head L then wr_list l (\<lambda>L. L\<lparr>list_head := node_next nd\<rparr>) h else Some h);
     h \<leftarrow> (if n = list_tail L then wr_list l (\<lambda>L. L\<lparr>list_tail := node_prev nd\<rparr>) h else Some h);
     h \<leftarrow> (if node_prev nd \<noteq> NULL
           then wr_node (node_prev nd) (\<lambda>p. p\<lparr>node_next := node_next nd\<rparr>) h else Some h);
     nd \<leftarrow> rd_node h n;
     h \<leftarrow> (if node_next nd \<noteq> NULL
           then wr_node (node_next nd) (\<lambda>p. p\<lparr>node_prev := node_prev nd\<rparr>) h else Some h);
     h \<leftarrow> wr_node n (\<lambda>nd. nd\<lparr>node_prev := NULL, node_next := NULL, node_owner := NULL\<rparr>) h;
     wr_list l (\<lambda>L. L\<lparr>list_length := list_length L - 1\<rparr>) h }
   }"

fun walk :: "heap \<Rightarrow> nat \<Rightarrow> ptr \<Rightarrow> ptr option" where
  "walk h 0 p = Some p"
| "walk h (Suc k) p = do { nd \<leftarrow> rd_node h p; walk h k (node_next nd) }"

definition list_remove :: "ptr \<Rightarrow> u32 \<Rightarrow> heap \<Rightarrow> heap option" where
  "list_remove l index h = do {
     L \<leftarrow> rd_list h l;
     if index > list_length L then Some h else do {
     n \<leftarrow> walk h (unat index) (list_head L);
     list_delete l n h }
   }"

definition list_pop :: "ptr \<Rightarrow> heap \<Rightarrow> (ptr \<times> heap) option" where
  "list_pop l h = do {
     L \<leftarrow> rd_list h l;
     if list_tail L = NULL then Some (NULL, h) else do {
     h \<leftarrow> list_delete l (list_tail L) h;
     Some (list_tail L, h) }
   }"

definition list_dequeue :: "ptr \<Rightarrow> heap \<Rightarrow> (ptr \<times> heap) option" where
  "list_dequeue l h = do {
     L \<leftarrow> rd_list h l;
     if list_head L = NULL then Some (NULL, h) else do {
     h \<leftarrow> list_delete l (list_head L) h;
     Some (list_head L, h) }
   }"

text \<open>
  The loop of \<^verbatim>\<open>list_copy\<close>: its body inserts the value of \<open>node\<close> into the copy but never
  moves \<open>node\<close>.  \<open>ms\<close> are the pointers the successive calls of \<^verbatim>\<open>malloc\<close> return; the
  loop has run out of them, without having left the loop, when the result is \<open>Inl\<close> of
  the state reached.
\<close>

fun list_copy_loop :: "ptr list \<Rightarrow> ptr \<Rightarrow> ptr \<Rightarrow> heap \<Rightarrow> (heap + heap) option" where
  "list_copy_loop ms out p h =
     (if p = NULL then Some (Inr h)
      else case ms of
        [] \<Rightarrow> Some (Inl h)
      | m # ms' \<Rightarrow> do {
          nd \<leftarrow> rd_node h p;
          (_, h) \<leftarrow> list_insert m out (node_value nd) h;
          list_copy_loop ms' out p h })"

definition list_copy :: "ptr \<Rightarrow> ptr list \<Rightarrow> ptr \<Rightarrow> heap \<Rightarrow> (heap + heap) option" where
  "list_copy out ms original h = do {
     let h = list_create out h;
     L \<leftarrow> rd_list h original;
     list_copy_loop ms out (list_head L) h
   }"

partial_function (option) set_owners :: "ptr \<Rightarrow> ptr \<Rightarrow> heap \<Rightarrow> heap option" where
  "set_owners target p h = (if p = NULL then Some h else do {
     h \<leftarrow> wr_node p (\<lambda>nd. nd\<lparr>node_owner := target\<rparr>) h;
     nd \<leftarrow> rd_node h p;
     set_owners target (node_next nd) h })"

definition list_merge :: "ptr \<Rightarrow> ptr \<Rightarrow> heap \<Rightarrow> heap option" where
  "list_merge target source h = do {
     S \<leftarrow> rd_list h source;
     h \<leftarrow> set_owners target (list_head S) h;
     T \<leftarrow> rd_list h target;
     h \<leftarrow> (if list_head S \<noteq> NULL
           then wr_node (list_head S) (\<lambda>nd. nd\<lparr>node_prev := list_tail T\<rparr>) h else Some h);
     h \<leftarrow> (if list_tail T \<noteq> NULL
           then wr_node (list_tail T) (\<lambda>nd. nd\<lparr>node_next := list_head S\<rparr>) h
           else wr_list target (\<lambda>T. T\<lparr>list_head := list_head S\<rparr>) h);
     h \<leftarrow> (if list_tail S \<noteq> NULL
           then wr_list target (\<lambda>T. T\<lparr>list_tail := list_tail S\<rparr>) h else Some h);
     h \<leftarrow> wr_list target (\<lambda>T. T\<lparr>list_length := list_length T + list_length S\<rparr>) h;
     Some (free_list_obj source h)
   }"

partial_function (option) size_from :: "heap \<Rightarrow> ptr \<Rightarrow> int \<Rightarrow> int option" where
  "size_from h p k = (if p = NULL then Some k else do {
     nd \<leftarrow> rd_node h p; size_from h (node_next nd) (k + 1) })"

definition list_size :: "ptr \<Rightarrow> heap \<Rightarrow> int option" where
  "list_size l h = do { L \<leftarrow> rd_list h l; size_from h (list_head L) 0 }"

partial_function (option) get_from :: "heap \<Rightarrow> ptr \<Rightarrow> int \<Rightarrow> ptr option" where
  "get_from h p index = (if p = NULL then Some NULL
     else if index = 0 then Some p
     else do { nd \<leftarrow> rd_node h p; get_from h (node_next nd) (index - 1) })"

definition list_get :: "ptr \<Rightarrow> int \<Rightarrow> heap \<Rightarrow> ptr option" where
  "list_get l index h = do { L \<leftarrow> rd_list h l; get_from h (list_head L) index }"

partial_function (option) last_from :: "heap \<Rightarrow> ptr \<Rightarrow> ptr \<Rightarrow> ptr option" where
  "last_from h p i = (if p = NULL then Some i
     else do { nd \<leftarrow> rd_node h p; last_from h (node_next nd) p })"

definition list_get_last :: "ptr \<Rightarrow> heap \<Rightarrow> ptr option" where
  "list_get_last l h = do { L \<leftarrow> rd_list h l; last_from h (list_head L) NULL }"

definition list_get_first :: "ptr \<Rightarrow> heap \<Rightarrow> ptr option" where
  "list_get_first l h = do { L \<leftarrow> rd_list h l; Some (list_head L) }"

partial_function (option) node_index_from :: "heap \<Rightarrow> ptr \<Rightarrow> ptr \<Rightarrow> int \<Rightarrow> int option" where
  "node_index_from h p n i = (if p = NULL then Some (- 1)
     else if p = n then Some i
     else do { nd \<leftarrow> rd_node h p; node_index_from h (node_next nd) n (i + 1) })"

definition list_index_of_node :: "ptr \<Rightarrow> ptr \<Rightarrow> heap \<Rightarrow> int option" where
  "list_index_of_node l n h = do { L \<leftarrow> rd_list h l; node_index_from h (list_head L) n 0 }"

fun nth_forward :: "heap \<Rightarrow> nat \<Rightarrow> ptr \<Rightarrow> ptr option" where
  "nth_forward h 0 p = Some p"
| "nth_forward h (Suc k) p = (if p = NULL then Some NULL
     else do { nd \<leftarrow> rd_node h p; nth_forward h k (node_next nd) })"

fun nth_backward :: "heap \<Rightarrow> nat \<Rightarrow> ptr \<Rightarrow> ptr option" where
  "nth_backward h 0 p = Some p"
| "nth_backward h (Suc k) p = (if p = NULL then Some NULL
     else do { nd \<leftarrow> rd_node h p; nth_backward h k (node_prev nd) })"

definition list_get_next_nth :: "ptr \<Rightarrow> int \<Rightarrow> heap \<Rightarrow> ptr option" where
  "list_get_next_nth p increments h =
     (if increments < 0 then nth_backward h (nat (- increments)) p
      else nth_forward h (nat increments) p)"

partial_function (option) list_clear :: "ptr \<Rightarrow> heap \<Rightarrow> heap option" where
  "list_clear l h = do {
     p \<leftarrow> list_get l 0 h;
     if p = NULL then Some h
     else do { h \<leftarrow> list_remove l 0 h; list_clear l h } }"

text \<open>\<^verbatim>\<open>list_destroy\<close> passes every value to \<^verbatim>\<open>free\<close>, in order: the model returns these
  pointers.  \<^verbatim>\<open>list_free\<close> frees the nodes, reading \<^verbatim>\<open>next\<close> first.\<close>

partial_function (option) destroy_from :: "heap \<Rightarrow> ptr \<Rightarrow> ptr list \<Rightarrow> ptr list option" where
  "destroy_from h p freed = (if p = NULL then Some freed
     else do { nd \<leftarrow> rd_node h p; destroy_from h (node_next nd) (freed @ [node_value nd]) })"

definition list_destroy :: "ptr \<Rightarrow> heap \<Rightarrow> ptr list option" where
  "list_destroy l h = do { L \<leftarrow> rd_list h l; destroy_from h (list_head L) [] }"

partial_function (option) free_from :: "ptr \<Rightarrow> heap \<Rightarrow> heap option" where
  "free_from p h = (if p = NULL then Some h
     else do { nd \<leftarrow> rd_node h p; free_from (node_next nd) (free_node p h) })"

definition list_free :: "ptr \<Rightarrow> heap \<Rightarrow> heap option" where
  "list_free l h = do { L \<leftarrow> rd_list h l; free_from (list_head L) h }"

declare list_copy_loop.simps [simp del]

section \<open>Representation of a sequence of nodes\<close>

text \<open>
  \<open>seg m l p x ns y q\<close>: from \<open>x\<close>, whose predecessor is \<open>p\<close>, the \<^verbatim>\<open>next\<close> links run through
  \<open>ns\<close> and then to \<open>y\<close>; \<open>q\<close> is the last node (\<open>p\<close> when there is none), every
  \<^verbatim>\<open>prev\<close> link is the inverse of a \<^verbatim>\<open>next\<close> link, and every node is owned by \<open>l\<close>.
\<close>

fun seg :: "(ptr \<Rightarrow> node option) \<Rightarrow> ptr \<Rightarrow> ptr \<Rightarrow> ptr \<Rightarrow> ptr list \<Rightarrow> ptr \<Rightarrow> ptr \<Rightarrow> bool" where
  "seg m l p x [] y q \<longleftrightarrow> x = y \<and> q = p"
| "seg m l p x (n # ns) y q \<longleftrightarrow> x = n \<and> n \<noteq> NULL \<and>
     (\<exists>nd. m n = Some nd \<and> node_owner nd = l \<and> node_prev nd = p \<and> seg m l n (node_next nd) ns y q)"

definition dll :: "heap \<Rightarrow> ptr \<Rightarrow> ptr list \<Rightarrow> bool" where
  "dll h l ns \<longleftrightarrow> l \<noteq> NULL \<and> distinct ns \<and>
     (\<exists>L. lists h l = Some L \<and> seg (nodes h) l NULL (list_head L) ns NULL (list_tail L) \<and>
        list_length L = of_nat (length ns))"

lemma seg_append [simp]:
  "seg m l p x (xs @ ys) y q \<longleftrightarrow> (\<exists>z r. seg m l p x xs z r \<and> seg m l r z ys y q)"
  by (induction xs arbitrary: p x) auto

lemma seg_upd [simp]:
  "n \<notin> set ns \<Longrightarrow> seg (m(n := v)) l p x ns y q = seg m l p x ns y q"
  by (induction ns arbitrary: p x) auto

lemma seg_cong:
  "(\<And>n. n \<in> set ns \<Longrightarrow> m n = m' n) \<Longrightarrow> seg m l p x ns y q = seg m' l p x ns y q"
  by (induction ns arbitrary: p x) auto

lemma seg_not_NULL: "seg m l p x ns y q \<Longrightarrow> NULL \<notin> set ns"
  by (induction ns arbitrary: p x) auto

lemma seg_in: "seg m l p x ns y q \<Longrightarrow> n \<in> set ns \<Longrightarrow> \<exists>nd. m n = Some nd \<and> node_owner nd = l"
  by (induction ns arbitrary: p x) auto

lemma seg_last: "seg m l p x ns y q \<Longrightarrow> q = (if ns = [] then p else last ns)"
  by (induction ns arbitrary: p x) auto

lemma seg_first: "seg m l p x ns y q \<Longrightarrow> x = (if ns = [] then y else hd ns)"
  by (cases ns) auto

lemma dll_not_NULL: "dll h l ns \<Longrightarrow> NULL \<notin> set ns"
  by (auto simp: dll_def dest: seg_not_NULL)

lemma dll_length_bound: "dll h l ns \<Longrightarrow> length ns < 2 ^ 32"
  using distinct_words_length [of ns NULL] dll_not_NULL by (auto simp: dll_def)

lemma dll_node: "dll h l ns \<Longrightarrow> n \<in> set ns \<Longrightarrow> \<exists>nd. nodes h n = Some nd \<and> node_owner nd = l"
  by (auto simp: dll_def dest: seg_in)

lemma dll_disjoint: "dll h l ns \<Longrightarrow> dll h k ms \<Longrightarrow> l \<noteq> k \<Longrightarrow> set ns \<inter> set ms = {}"
  by (fastforce dest: dll_node)

lemma dll_empty_iff:
  assumes "dll h l ns" and "lists h l = Some L"
  shows "list_length L = 0 \<longleftrightarrow> ns = []"
  using assms dll_length_bound [OF assms(1)]
  by (auto simp: dll_def of_nat_eq_0_iff_small)

text \<open>What an operation on the list \<open>l\<close> leaves alone: all nodes outside \<open>N\<close>, all other
  headers, and the value stored in every node.\<close>

definition only_touches :: "ptr \<Rightarrow> ptr set \<Rightarrow> heap \<Rightarrow> heap \<Rightarrow> bool" where
  "only_touches l N h h' \<longleftrightarrow>
     (\<forall>p. p \<notin> N \<longrightarrow> nodes h' p = nodes h p) \<and>
     (\<forall>k. k \<noteq> l \<longrightarrow> lists h' k = lists h k) \<and>
     (\<forall>p. map_option node_value (nodes h' p) = map_option node_value (nodes h p))"

lemma only_touches_refl [simp]: "only_touches l N h h"
  by (simp add: only_touches_def)

lemma only_touches_trans:
  "only_touches l M h h' \<Longrightarrow> only_touches l N h' h'' \<Longrightarrow> only_touches l (M \<union> N) h h''"
  by (simp add: only_touches_def)

lemma dll_frame [frame_rules]:
  assumes "only_touches l N h h'" and "dll h k ms" and "k \<noteq> l" and "set ms \<inter> N = {}"
  shows "dll h' k ms"
proof -
  have "nodes h' p = nodes h p" if "p \<in> set ms" for p
    using assms(1,4) that by (auto simp: only_touches_def)
  moreover have "lists h' k = lists h k"
    using assms(1,3) by (simp add: only_touches_def)
  ultimately show ?thesis
    using assms(2) seg_cong [of ms "nodes h'" "nodes h"] by (auto simp: dll_def)
qed

subsection \<open>Appending\<close>

lemma list_append_dll:
  assumes "dll h l ns" and "n \<notin> set ns" and "n \<noteq> NULL" and "nodes h n = Some nd"
  shows "\<exists>h'. list_append l n h = Some h' \<and> dll h' l (ns @ [n]) \<and>
     only_touches l (insert n (set ns)) h h'"
proof (cases ns rule: rev_cases)
  case Nil
  with assms show ?thesis
    by (auto simp: list_append_def heap_ops dll_def only_touches_def)
next
  case (snoc xs t)
  from assms snoc obtain L z where L: "lists h l = Some L" "list_tail L = t" "l \<noteq> NULL"
    and len: "list_length L = of_nat (length ns)" "list_length L \<noteq> 0"
    and seg: "seg (nodes h) l NULL (list_head L) xs t z" "t \<noteq> NULL" "t \<notin> set xs" "distinct xs"
    and td: "\<exists>td. nodes h t = Some td \<and> node_owner td = l \<and> node_prev td = z \<and> node_next td = NULL"
    using dll_empty_iff [OF assms(1)] by (auto simp: dll_def)
  from assms(2) snoc have "n \<noteq> t" "n \<notin> set xs" by auto
  with L len seg td assms(3,4) snoc show ?thesis
    by (auto simp: list_append_def heap_ops dll_def only_touches_def)
qed

lemma list_insert_dll:
  assumes "dll h l ns" and "nodes h n = None" and "n \<noteq> NULL"
  shows "\<exists>h'. list_insert n l item h = Some (n, h') \<and> dll h' l (ns @ [n]) \<and>
     map_option node_value (nodes h' n) = Some item \<and>
     only_touches l (insert n (set ns)) (new_node n item h) h'"
proof -
  have n: "n \<notin> set ns" using assms(1,2) dll_node by fastforce
  have "dll (new_node n item h) l ns"
    using assms(1) n by (simp add: dll_def new_node_def)
  from list_append_dll [OF this n assms(3)] obtain h'
    where h': "list_append l n (new_node n item h) = Some h'" "dll h' l (ns @ [n])"
      "only_touches l (insert n (set ns)) (new_node n item h) h'"
    by (auto simp: new_node_def)
  then have "map_option node_value (nodes h' n) = map_option node_value (nodes (new_node n item h) n)"
    by (simp add: only_touches_def)
  with h' show ?thesis
    by (simp add: list_insert_def new_node_def)
qed

subsection \<open>Deleting\<close>

lemma list_delete_dll:
  assumes "dll h l (xs @ n # ys)"
  shows "\<exists>h'. list_delete l n h = Some h' \<and> dll h' l (xs @ ys) \<and>
     only_touches l (set (xs @ n # ys)) h h' \<and>
     map_option node_owner (nodes h' n) = Some NULL"
proof -
  from assms obtain L z nd where L: "lists h l = Some L" "l \<noteq> NULL"
    and len: "list_length L = of_nat (Suc (length xs + length ys))"
    and pre: "seg (nodes h) l NULL (list_head L) xs n z"
    and nd: "nodes h n = Some nd" "n \<noteq> NULL" "node_owner nd = l" "node_prev nd = z"
    and suf: "seg (nodes h) l n (node_next nd) ys NULL (list_tail L)"
    and dist: "n \<notin> set xs" "n \<notin> set ys" "distinct xs" "distinct ys" "set xs \<inter> set ys = {}"
    by (auto simp: dll_def)
  from pre have hd: "list_head L = (if xs = [] then n else hd xs)" by (rule seg_first)
  from suf have tl: "list_tail L = (if ys = [] then n else last ys)" by (rule seg_last)
  show ?thesis
  proof (cases xs rule: rev_cases)
    case Nil
    show ?thesis
    proof (cases ys)
      case Nil
      with \<open>xs = []\<close> L len pre nd suf dist show ?thesis
        by (auto simp: list_delete_def heap_ops dll_def only_touches_def)
    next
      case (Cons b bs)
      with tl dist have "list_tail L \<noteq> n" by (metis last_in_set list.distinct(1))
      with Cons \<open>xs = []\<close> L len pre nd suf dist show ?thesis
        by (auto simp: list_delete_def heap_ops dll_def only_touches_def)
    qed
  next
    case (snoc as a)
    with hd dist have hd: "list_head L \<noteq> n" by (metis hd_in_set snoc_eq_iff_butlast)
    show ?thesis
    proof (cases ys)
      case Nil
      with hd snoc L len pre nd suf dist show ?thesis
        by (auto simp: list_delete_def heap_ops dll_def only_touches_def)
    next
      case (Cons b bs)
      with tl dist have "list_tail L \<noteq> n" by (metis last_in_set list.distinct(1))
      with hd Cons snoc L len pre nd suf dist show ?thesis
        by (auto simp: list_delete_def heap_ops dll_def only_touches_def)
    qed
  qed
qed

lemma list_delete_remove1:
  assumes "dll h l ns" and "n \<in> set ns"
  shows "\<exists>h'. list_delete l n h = Some h' \<and> dll h' l (remove1 n ns) \<and>
     only_touches l (set ns) h h' \<and> map_option node_owner (nodes h' n) = Some NULL"
proof -
  obtain xs ys where ns: "ns = xs @ n # ys" "n \<notin> set xs"
    using assms(2) by (meson split_list_first)
  with list_delete_dll [of h l xs n ys] assms(1) show ?thesis
    by (auto simp: remove1_split)
qed

lemma dll_ends:
  assumes "dll h l ns" and "lists h l = Some L"
  shows "list_head L = (if ns = [] then NULL else hd ns)"
    and "list_tail L = (if ns = [] then NULL else last ns)"
  using assms by (auto simp: dll_def dest: seg_first seg_last)

lemma list_pop_dll:
  assumes "dll h l ns"
  shows "\<exists>h'. list_pop l h = Some (if ns = [] then NULL else last ns, h') \<and>
     dll h' l (butlast ns) \<and> only_touches l (set ns) h h' \<and>
     (ns \<noteq> [] \<longrightarrow> map_option node_owner (nodes h' (last ns)) = Some NULL)"
proof (cases ns rule: rev_cases)
  case Nil
  with assms dll_ends [OF assms] show ?thesis
    by (auto simp: list_pop_def rd_list_def dll_def)
next
  case (snoc xs n)
  from assms obtain L where L: "rd_list h l = Some L" "lists h l = Some L"
    by (auto simp: dll_def rd_list_def)
  have "n \<noteq> NULL" using assms snoc by (auto dest: dll_not_NULL)
  with snoc L dll_ends [OF assms L(2)] list_delete_dll [of h l xs n "[]"] assms show ?thesis
    by (auto simp: list_pop_def)
qed

lemma list_dequeue_dll:
  assumes "dll h l ns"
  shows "\<exists>h'. list_dequeue l h = Some (if ns = [] then NULL else hd ns, h') \<and>
     dll h' l (tl ns) \<and> only_touches l (set ns) h h' \<and>
     (ns \<noteq> [] \<longrightarrow> map_option node_owner (nodes h' (hd ns)) = Some NULL)"
proof (cases ns)
  case Nil
  with assms dll_ends [OF assms] show ?thesis
    by (auto simp: list_dequeue_def rd_list_def dll_def)
next
  case (Cons n xs)
  from assms obtain L where L: "rd_list h l = Some L" "lists h l = Some L"
    by (auto simp: dll_def rd_list_def)
  have "n \<noteq> NULL" using assms Cons by (auto dest: dll_not_NULL)
  with Cons L dll_ends [OF assms L(2)] list_delete_dll [of h l "[]" n xs] assms show ?thesis
    by (auto simp: list_dequeue_def)
qed

subsection \<open>Searching\<close>

text \<open>The value of a node, as the loops read it.\<close>

definition value_of :: "heap \<Rightarrow> ptr \<Rightarrow> ptr" where
  "value_of h n = (case nodes h n of None \<Rightarrow> NULL | Some nd \<Rightarrow> node_value nd)"

lemma only_touches_value: "only_touches l N h h' \<Longrightarrow> value_of h' p = value_of h p"
proof -
  assume "only_touches l N h h'"
  then have "map_option node_value (nodes h' p) = map_option node_value (nodes h p)"
    by (simp add: only_touches_def)
  then show ?thesis
    by (cases "nodes h' p"; cases "nodes h p") (auto simp: value_of_def)
qed

text \<open>Index of the first element that satisfies a predicate, as \<^verbatim>\<open>int\<close>; -1 when none does.\<close>

fun first_index :: "('a \<Rightarrow> bool) \<Rightarrow> 'a list \<Rightarrow> int \<Rightarrow> int" where
  "first_index P [] i = - 1"
| "first_index P (x # xs) i = (if P x then i else first_index P xs (i + 1))"

lemma first_index_found:
  "0 \<le> i \<Longrightarrow> x \<in> set xs \<Longrightarrow> P x \<Longrightarrow>
     \<exists>k < length xs. first_index P xs i = i + int k \<and> P (xs ! k) \<and> (\<forall>j < k. \<not> P (xs ! j))"
proof (induction xs arbitrary: i)
  case (Cons y ys)
  show ?case
  proof (cases "P y")
    case True
    then show ?thesis by (intro exI [of _ 0]) auto
  next
    case False
    with Cons.prems Cons.IH [of "i + 1"] obtain k where
      "k < length ys" "first_index P ys (i + 1) = i + 1 + int k" "P (ys ! k)"
      "\<forall>j < k. \<not> P (ys ! j)" by auto
    with False show ?thesis
      by (intro exI [of _ "Suc k"]) (auto simp: less_Suc_eq_0_disj nth_Cons')
  qed
qed simp

lemma find_from_seg:
  "seg (nodes h) l p x ns NULL q \<Longrightarrow>
     find_from h x v = Some (case find (\<lambda>n. value_of h n = v) ns of None \<Rightarrow> NULL | Some n \<Rightarrow> n)"
  by (induction ns arbitrary: p x)
    (subst find_from.simps; auto simp: rd_node_def value_of_def)+

lemma index_from_seg:
  "seg (nodes h) l p x ns NULL q \<Longrightarrow>
     index_from h x v i = Some (first_index (\<lambda>n. value_of h n = v) ns i)"
  by (induction ns arbitrary: p x i)
    (subst index_from.simps; auto simp: rd_node_def value_of_def)+

lemma size_from_seg:
  "seg (nodes h) l p x ns NULL q \<Longrightarrow> size_from h x k = Some (k + int (length ns))"
  by (induction ns arbitrary: p x k)
    (subst size_from.simps; auto simp: rd_node_def)+

lemma get_from_seg:
  "seg (nodes h) l p x ns NULL q \<Longrightarrow>
     get_from h x i = Some (if 0 \<le> i \<and> nat i < length ns then ns ! nat i else NULL)"
proof (induction ns arbitrary: p x i)
  case Nil
  then show ?case by (subst get_from.simps) simp
next
  case (Cons n ns)
  then show ?case
    by (subst get_from.simps) (auto simp: rd_node_def nth_Cons' nat_diff_distrib')
qed

lemma last_from_seg:
  "seg (nodes h) l p x ns NULL q \<Longrightarrow> last_from h x i = Some (if ns = [] then i else last ns)"
  by (induction ns arbitrary: p x i)
    (subst last_from.simps; auto simp: rd_node_def)+

lemma node_index_from_seg:
  "seg (nodes h) l p x ns NULL q \<Longrightarrow>
     node_index_from h x n i = Some (first_index (\<lambda>m. m = n) ns i)"
  by (induction ns arbitrary: p x i)
    (subst node_index_from.simps; auto simp: rd_node_def)+

lemma destroy_from_seg:
  "seg (nodes h) l p x ns NULL q \<Longrightarrow> destroy_from h x vs = Some (vs @ map (value_of h) ns)"
  by (induction ns arbitrary: p x vs)
    (subst destroy_from.simps; auto simp: rd_node_def value_of_def)+

lemma dllE:
  assumes "dll h l ns"
  obtains L where "rd_list h l = Some L" "seg (nodes h) l NULL (list_head L) ns NULL (list_tail L)"
  using assms by (auto simp: dll_def rd_list_def)

lemma list_find_dll:
  "dll h l ns \<Longrightarrow> list_find l v h =
     Some (case find (\<lambda>n. value_of h n = v) ns of None \<Rightarrow> NULL | Some n \<Rightarrow> n)"
  by (erule dllE) (simp add: list_find_def find_from_seg)

lemma list_index_of_dll:
  "dll h l ns \<Longrightarrow> list_index_of l v h = Some (first_index (\<lambda>n. value_of h n = v) ns 0)"
  by (erule dllE) (simp add: list_index_of_def index_from_seg)

lemma list_size_dll: "dll h l ns \<Longrightarrow> list_size l h = Some (int (length ns))"
  by (erule dllE) (simp add: list_size_def size_from_seg)

lemma list_get_dll:
  "dll h l ns \<Longrightarrow>
     list_get l i h = Some (if 0 \<le> i \<and> nat i < length ns then ns ! nat i else NULL)"
  by (erule dllE) (simp add: list_get_def get_from_seg)

lemma list_get_last_dll:
  "dll h l ns \<Longrightarrow> list_get_last l h = Some (if ns = [] then NULL else last ns)"
  by (erule dllE) (simp add: list_get_last_def last_from_seg)

lemma list_get_first_dll:
  "dll h l ns \<Longrightarrow> list_get_first l h = Some (if ns = [] then NULL else hd ns)"
  by (erule dllE) (auto simp: list_get_first_def dest: seg_first)

lemma list_index_of_node_dll:
  "dll h l ns \<Longrightarrow> list_index_of_node l n h = Some (first_index (\<lambda>m. m = n) ns 0)"
  by (erule dllE) (simp add: list_index_of_node_def node_index_from_seg)

lemma list_destroy_dll: "dll h l ns \<Longrightarrow> list_destroy l h = Some (map (value_of h) ns)"
  by (erule dllE) (simp add: list_destroy_def destroy_from_seg)

subsection \<open>Inserting next to a node\<close>

lemma list_append_after_dll:
  assumes "dll h l (xs @ b # ys)" and "n \<notin> set (xs @ b # ys)" and "n \<noteq> NULL"
    and "nodes h n = Some nd" and "node_next nd = NULL"
  shows "\<exists>h'. list_append_after l b n h = Some h' \<and> dll h' l (xs @ b # n # ys) \<and>
     only_touches l (insert n (set (xs @ b # ys))) h h'"
proof -
  from assms(1) obtain L z bd where L: "lists h l = Some L" "l \<noteq> NULL"
    and len: "list_length L = of_nat (Suc (length xs + length ys))" "list_length L \<noteq> 0"
    and pre: "seg (nodes h) l NULL (list_head L) xs b z"
    and bd: "nodes h b = Some bd" "b \<noteq> NULL" "node_owner bd = l" "node_prev bd = z"
    and suf: "seg (nodes h) l b (node_next bd) ys NULL (list_tail L)"
    and dist: "b \<notin> set xs" "b \<notin> set ys" "distinct xs" "distinct ys" "set xs \<inter> set ys = {}"
    using dll_empty_iff [OF assms(1)] by (auto simp: dll_def)
  from suf have tl: "list_tail L = (if ys = [] then b else last ys)" by (rule seg_last)
  from assms(2) have n: "n \<noteq> b" "n \<notin> set xs" "n \<notin> set ys" by auto
  show ?thesis
  proof (cases ys)
    case Nil
    with L len pre bd suf dist n tl assms(3-5) show ?thesis
      by (auto simp: list_append_after_def heap_ops dll_def only_touches_def)
  next
    case (Cons c cs)
    with tl dist have "list_tail L \<noteq> b" by (metis last_in_set list.distinct(1))
    with Cons L len pre bd suf dist n assms(3,4) show ?thesis
      by (auto simp: list_append_after_def heap_ops dll_def only_touches_def)
  qed
qed

lemma list_append_front_dll:
  assumes "dll h l (x # ns)" and "n \<notin> set (x # ns)" and "n \<noteq> NULL" and "nodes h n = Some nd"
  shows "\<exists>h'. list_append_after l NULL n h = Some h' \<and> dll h' l (n # x # ns) \<and>
     only_touches l (insert n (set (x # ns))) h h'"
  using assms dll_empty_iff [OF assms(1)]
  by (auto simp: list_append_after_def heap_ops dll_def only_touches_def)

lemma list_append_before_dll:
  assumes "dll h l (xs @ a # ys)" and "n \<notin> set (xs @ a # ys)" and "n \<noteq> NULL"
    and "nodes h n = Some nd" and "node_next nd = NULL" and "node_prev nd = NULL"
  shows "\<exists>h'. list_append_before l a n h = Some h' \<and> dll h' l (xs @ n # a # ys) \<and>
     only_touches l (insert n (set (xs @ a # ys))) h h'"
proof -
  from assms(1) obtain L z ad where L: "lists h l = Some L" "l \<noteq> NULL"
    and len: "list_length L = of_nat (Suc (length xs + length ys))" "list_length L \<noteq> 0"
    and pre: "seg (nodes h) l NULL (list_head L) xs a z"
    and ad: "nodes h a = Some ad" "a \<noteq> NULL" "node_owner ad = l" "node_prev ad = z"
    and suf: "seg (nodes h) l a (node_next ad) ys NULL (list_tail L)"
    and dist: "a \<notin> set xs" "a \<notin> set ys" "distinct xs" "distinct ys" "set xs \<inter> set ys = {}"
    using dll_empty_iff [OF assms(1)] by (auto simp: dll_def)
  from pre have hd: "list_head L = (if xs = [] then a else hd xs)" by (rule seg_first)
  from assms(2) have n: "n \<noteq> a" "n \<notin> set xs" "n \<notin> set ys" by auto
  show ?thesis
  proof (cases xs rule: rev_cases)
    case Nil
    with L len pre ad suf dist n hd assms(3-6) show ?thesis
      by (auto simp: list_append_before_def heap_ops dll_def only_touches_def)
  next
    case (snoc cs c)
    with hd dist have "list_head L \<noteq> a" by (metis hd_in_set snoc_eq_iff_butlast)
    with snoc L len pre ad suf dist n assms(3-6) show ?thesis
      by (auto simp: list_append_before_def heap_ops dll_def only_touches_def)
  qed
qed

lemma list_append_before_panics:
  "rd_node h n = Some nd \<Longrightarrow> node_next nd \<noteq> NULL \<or> node_prev nd \<noteq> NULL \<Longrightarrow>
     list_append_before l a n h = None"
  by (auto simp: list_append_before_def)

lemma list_delete_panics:
  "rd_node h n = Some nd \<Longrightarrow> node_owner nd \<noteq> l \<Longrightarrow> list_delete l n h = None"
  by (simp add: list_delete_def)

subsection \<open>Removing by index, clearing\<close>

lemma walk_seg:
  "seg (nodes h) l p x ns y q \<Longrightarrow> k \<le> length ns \<Longrightarrow>
     walk h k x = Some (if k < length ns then ns ! k else y)"
proof (induction ns arbitrary: p x k)
  case (Cons n ns)
  then show ?case
    by (cases k) (auto simp: rd_node_def)
qed simp

lemma list_remove_dll:
  assumes "dll h l ns" and "unat k < length ns"
  shows "\<exists>h'. list_remove l k h = Some h' \<and>
     dll h' l (take (unat k) ns @ drop (Suc (unat k)) ns) \<and> only_touches l (set ns) h h'"
proof -
  let ?k = "unat k"
  from assms obtain L where L: "rd_list h l = Some L" "list_length L = of_nat (length ns)"
    and seg: "seg (nodes h) l NULL (list_head L) ns NULL (list_tail L)"
    by (auto simp: dll_def rd_list_def)
  from assms(1) have "length ns < 2 ^ 32" by (rule dll_length_bound)
  with L(2) assms(2) have "\<not> k > list_length L"
    by (simp add: word_less_nat_alt unat_of_nat_small)
  moreover have "walk h ?k (list_head L) = Some (ns ! ?k)"
    using walk_seg [OF seg, of ?k] assms(2) by simp
  moreover have ns: "ns = take ?k ns @ ns ! ?k # drop (Suc ?k) ns"
    using assms(2) by (rule id_take_nth_drop)
  ultimately show ?thesis
    using list_delete_dll [of h l "take ?k ns" "ns ! ?k" "drop (Suc ?k) ns"] assms(1) L(1)
    by (auto simp: list_remove_def)
qed

lemma list_remove_beyond:
  assumes "dll h l ns" and "length ns < unat k"
  shows "list_remove l k h = Some h"
proof -
  from assms obtain L where "rd_list h l = Some L" "list_length L = of_nat (length ns)"
    by (auto simp: dll_def rd_list_def)
  with assms(2) dll_length_bound [OF assms(1)] show ?thesis
    by (simp add: list_remove_def word_less_nat_alt unat_of_nat_small)
qed

text \<open>The guard of \<^verbatim>\<open>list_remove\<close> lets the index equal to the length through: the walk then
  ends at \<^verbatim>\<open>NULL\<close>, which \<^verbatim>\<open>list_delete\<close> dereferences.\<close>

lemma list_remove_at_length:
  assumes "dll h l ns" and "unat k = length ns"
  shows "list_remove l k h = None"
proof -
  from assms obtain L where L: "rd_list h l = Some L" "list_length L = of_nat (length ns)"
    and seg: "seg (nodes h) l NULL (list_head L) ns NULL (list_tail L)"
    by (auto simp: dll_def rd_list_def)
  have "walk h (length ns) (list_head L) = Some NULL"
    using walk_seg [OF seg, of "length ns"] by simp
  with L assms dll_length_bound [OF assms(1)] show ?thesis
    by (simp add: list_remove_def word_less_nat_alt unat_of_nat_small list_delete_def rd_node_def)
qed

lemma list_clear_dll:
  "dll h l ns \<Longrightarrow> \<exists>h'. list_clear l h = Some h' \<and> dll h' l [] \<and> only_touches l (set ns) h h'"
proof (induction ns arbitrary: h)
  case Nil
  then show ?case
    by (subst list_clear.simps) (simp add: list_get_dll)
next
  case (Cons n ns)
  have n: "n \<noteq> NULL" using Cons.prems by (auto dest: dll_not_NULL)
  from list_remove_dll [OF Cons.prems, of 0] obtain h1
    where h1: "list_remove l 0 h = Some h1" "dll h1 l ns" "only_touches l (set (n # ns)) h h1"
    by auto
  from Cons.IH [OF h1(2)] obtain h2
    where h2: "list_clear l h1 = Some h2" "dll h2 l []" "only_touches l (set ns) h1 h2" by auto
  have "only_touches l (set (n # ns) \<union> set ns) h h2"
    using h1(3) h2(3) by (rule only_touches_trans)
  moreover have "set (n # ns) \<union> set ns = set (n # ns)" by auto
  moreover have "list_clear l h = Some h2"
    using list_get_dll [OF Cons.prems, of 0] n h1(1) h2(1) by (subst list_clear.simps) simp
  ultimately show ?case
    using h2(2) by auto
qed

subsection \<open>Merging, copying, freeing\<close>

lemma set_owners_seg:
  "seg (nodes h) l p x ns NULL q \<Longrightarrow> distinct ns \<Longrightarrow>
     \<exists>h'. set_owners t x h = Some h' \<and> seg (nodes h') t p x ns NULL q \<and>
       only_touches t (set ns) h h' \<and> lists h' = lists h"
proof (induction ns arbitrary: p x h)
  case Nil
  then show ?case by (subst set_owners.simps) simp
next
  case (Cons n ns)
  then obtain nd where nd: "x = n" "n \<noteq> NULL" "nodes h n = Some nd" "node_owner nd = l"
    "node_prev nd = p" "seg (nodes h) l n (node_next nd) ns NULL q" by auto
  define h1 where "h1 = h\<lparr>nodes := (nodes h)(n := Some (nd\<lparr>node_owner := t\<rparr>))\<rparr>"
  from Cons.prems nd have "seg (nodes h1) l n (node_next nd) ns NULL q"
    by (simp add: h1_def)
  with Cons obtain h2 where h2: "set_owners t (node_next nd) h1 = Some h2"
    "seg (nodes h2) t n (node_next nd) ns NULL q" "only_touches t (set ns) h1 h2"
    "lists h2 = lists h1" by fastforce
  from h2(3) Cons.prems have n2: "nodes h2 n = Some (nd\<lparr>node_owner := t\<rparr>)"
    by (simp add: only_touches_def h1_def)
  have "set_owners t x h = Some h2"
    using nd h2(1) by (subst set_owners.simps) (simp add: heap_ops h1_def)
  moreover have "only_touches t (set (n # ns)) h h2"
    using h2(3) nd(3) by (auto simp: only_touches_def h1_def)
  ultimately show ?case
    using h2(2,4) nd n2 by (auto simp: h1_def)
qed

lemma seg_snocD:
  "seg m l p x (ns @ [n]) y q \<Longrightarrow> q = n \<and> n \<noteq> NULL \<and>
     (\<exists>r nd. seg m l p x ns n r \<and> m n = Some nd \<and> node_owner nd = l \<and> node_prev nd = r \<and> node_next nd = y)"
  by auto

lemma list_merge_dll:
  assumes t: "dll h t ts" and s: "dll h s ss" and "t \<noteq> s"
  shows "\<exists>h'. list_merge t s h = Some h' \<and> dll h' t (ts @ ss) \<and> lists h' s = None"
proof -
  from t obtain T where T: "lists h t = Some T" "t \<noteq> NULL" "distinct ts"
    "seg (nodes h) t NULL (list_head T) ts NULL (list_tail T)" "list_length T = of_nat (length ts)"
    by (auto simp: dll_def)
  from s obtain S where S: "lists h s = Some S" "s \<noteq> NULL" "distinct ss"
    "seg (nodes h) s NULL (list_head S) ss NULL (list_tail S)" "list_length S = of_nat (length ss)"
    by (auto simp: dll_def)
  have disj: "set ts \<inter> set ss = {}" using dll_disjoint [OF t s \<open>t \<noteq> s\<close>] .
  obtain h1 where h1: "set_owners t (list_head S) h = Some h1"
    "seg (nodes h1) t NULL (list_head S) ss NULL (list_tail S)" "only_touches t (set ss) h h1"
    "lists h1 = lists h"
    using set_owners_seg [OF S(4,3)] by blast
  have T1: "seg (nodes h1) t NULL (list_head T) ts NULL (list_tail T)"
  proof -
    have "nodes h k = nodes h1 k" if "k \<in> set ts" for k
      using that h1(3) disj by (auto simp: only_touches_def)
    with T(4) show ?thesis
      using seg_cong [of ts "nodes h" "nodes h1"] by simp
  qed
  note ends = seg_first [OF T1] seg_last [OF T1] seg_first [OF h1(2)] seg_last [OF h1(2)]
  show ?thesis
  proof (cases ss)
    case Nil
    show ?thesis
    proof (cases ts rule: rev_cases)
      case Nil
      with \<open>ss = []\<close> ends T S h1 T1 assms(3) show ?thesis
        by (auto simp: list_merge_def heap_ops dll_def free_list_obj_def)
    next
      case (snoc as a)
      with \<open>ss = []\<close> ends T S h1 T1 assms(3) show ?thesis
        by (auto simp: list_merge_def heap_ops dll_def free_list_obj_def)
    qed
  next
    case (Cons b bs)
    have b: "list_tail S \<noteq> NULL" using Cons ends(4) h1(2)
      by (metis last_in_set list.distinct(1) seg_not_NULL)
    show ?thesis
    proof (cases ts rule: rev_cases)
      case Nil
      with Cons b ends T S h1 T1 assms(3) show ?thesis
        by (auto simp: list_merge_def heap_ops dll_def free_list_obj_def)
    next
      case (snoc as a)
      from snoc Cons disj T(3) S(3) have "a \<noteq> b" "a \<notin> set as" "b \<notin> set as" "a \<notin> set bs" "b \<notin> set bs"
        by auto
      with snoc Cons b ends T S h1 T1 assms(3) disj show ?thesis
        by (auto simp: list_merge_def heap_ops dll_def free_list_obj_def)
    qed
  qed
qed

lemma list_copy_loop_dll:
  assumes "dll h out cs" and "seg (nodes h) l p x (n # ns) NULL q" and "out \<noteq> l"
    and "distinct ms" and "NULL \<notin> set ms" and "\<forall>m \<in> set ms. nodes h m = None"
  shows "\<exists>h'. list_copy_loop ms out x h = Some (Inl h') \<and> dll h' out (cs @ ms) \<and>
     (\<forall>m \<in> set ms. value_of h' m = value_of h n) \<and> (\<forall>k \<in> set cs. value_of h' k = value_of h k)"
  using assms
proof (induction ms arbitrary: h cs)
  case Nil
  then show ?case by (subst list_copy_loop.simps) auto
next
  case (Cons m ms)
  from Cons.prems(2) obtain nd where nd: "x = n" "n \<noteq> NULL" "nodes h n = Some nd"
    "node_owner nd = l" by auto
  from list_insert_dll [OF Cons.prems(1), of m "node_value nd"] Cons.prems(5,6)
  obtain h1 where h1: "list_insert m out (node_value nd) h = Some (m, h1)" "dll h1 out (cs @ [m])"
    "map_option node_value (nodes h1 m) = Some (node_value nd)"
    "only_touches out (insert m (set cs)) (new_node m (node_value nd) h) h1" by auto
  have m: "m \<notin> set (n # ns)"
    using Cons.prems(2,6) by (auto dest: seg_in)
  have same: "nodes h1 k = nodes h k" if "k \<in> set (n # ns)" for k
  proof -
    have "k \<noteq> m" using that m by auto
    moreover have "k \<notin> set cs"
    proof
      assume "k \<in> set cs"
      with Cons.prems(1) obtain kd where "nodes h k = Some kd" "node_owner kd = out"
        by (auto dest: dll_node)
      moreover from Cons.prems(2) that obtain kd' where "nodes h k = Some kd'" "node_owner kd' = l"
        by (metis seg_in)
      ultimately show False using Cons.prems(3) by simp
    qed
    ultimately show ?thesis
      using h1(4) by (simp add: only_touches_def new_node_def)
  qed
  then have seg1: "seg (nodes h1) l p x (n # ns) NULL q"
    using Cons.prems(2) seg_cong [of "n # ns" "nodes h1" "nodes h"] by blast
  have fresh: "\<forall>k \<in> set ms. nodes h1 k = None"
  proof
    fix k assume k: "k \<in> set ms"
    with Cons.prems have "k \<noteq> m" "nodes h k = None" by auto
    moreover from this Cons.prems(1) have "k \<notin> set cs" by (fastforce dest: dll_node)
    ultimately show "nodes h1 k = None"
      using h1(4) by (simp add: only_touches_def new_node_def)
  qed
  from Cons.IH [OF h1(2) seg1 Cons.prems(3)] Cons.prems(4,5) fresh
  obtain h2 where h2: "list_copy_loop ms out x h1 = Some (Inl h2)" "dll h2 out ((cs @ [m]) @ ms)"
    "\<forall>k \<in> set ms. value_of h2 k = value_of h1 n" "\<forall>k \<in> set (cs @ [m]). value_of h2 k = value_of h1 k"
    by auto
  have "value_of h2 m = node_value nd"
    using h1(3) h2(4) by (auto simp: value_of_def split: option.splits)
  moreover have "value_of h2 k = value_of h k" if "k \<in> set cs" for k
  proof -
    have "k \<noteq> m" using that Cons.prems(1,6) by (fastforce dest: dll_node)
    then have "value_of (new_node m (node_value nd) h) k = value_of h k"
      by (simp add: value_of_def new_node_def)
    with that h1(4) h2(4) show ?thesis by (simp add: only_touches_value)
  qed
  moreover have "list_copy_loop (m # ms) out x h = Some (Inl h2)"
    using nd h1(1) h2(1) by (subst list_copy_loop.simps) (simp add: rd_node_def)
  ultimately show ?case
    using h2 nd same [of n] by (auto simp: value_of_def)
qed

lemma free_from_seg:
  "seg (nodes h) l p x ns NULL q \<Longrightarrow> distinct ns \<Longrightarrow>
     \<exists>h'. free_from x h = Some h' \<and> lists h' = lists h \<and>
       (\<forall>k. nodes h' k = (if k \<in> set ns then None else nodes h k))"
proof (induction ns arbitrary: p x h)
  case Nil
  then show ?case by (subst free_from.simps) simp
next
  case (Cons n ns)
  then obtain nd where nd: "x = n" "n \<noteq> NULL" "nodes h n = Some nd"
    "seg (nodes h) l n (node_next nd) ns NULL q" by auto
  with Cons.prems have "seg (nodes (free_node n h)) l n (node_next nd) ns NULL q"
    by (simp add: free_node_def)
  with Cons obtain h' where "free_from (node_next nd) (free_node n h) = Some h'"
    "lists h' = lists (free_node n h)"
    "\<forall>k. nodes h' k = (if k \<in> set ns then None else nodes (free_node n h) k)" by fastforce
  with nd show ?case
    by (subst free_from.simps) (auto simp: rd_node_def free_node_def)
qed

lemma list_free_dll:
  "dll h l ns \<Longrightarrow> \<exists>h'. list_free l h = Some h' \<and> lists h' = lists h \<and>
     (\<forall>k. nodes h' k = (if k \<in> set ns then None else nodes h k))"
  by (auto simp: dll_def list_free_def rd_list_def dest: free_from_seg)

end
