(* ===== verification/Dict.thy ===== *)
theory Dict
  imports Prelude
begin

text \<open>
  What the clients of a dictionary rely on.  Values are pointers that may be \<^verbatim>\<open>NULL\<close>, the
  value \<^term>\<open>None\<close> of \<open>'v option\<close>; the calls return \<^verbatim>\<open>NULL\<close> for an absent key as well, so a
  stored \<^verbatim>\<open>NULL\<close> can be told from an absent key by \<open>has\<close> only.
\<close>

abbreviation null_join :: "'v option option \<Rightarrow> 'v option" where
  "null_join r \<equiv> (case r of None \<Rightarrow> None | Some v \<Rightarrow> v)"

text \<open>A sequence of \<open>put\<close> calls whose results are ignored.\<close>

fun run_puts :: "('s \<Rightarrow> 'k \<Rightarrow> 'v \<Rightarrow> ('r \<times> 's) option) \<Rightarrow> ('k \<times> 'v) list \<Rightarrow> 's \<Rightarrow> 's option" where
  "run_puts put [] m = Some m"
| "run_puts put ((k, v) # kvs) m = do { (_, m) \<leftarrow> put m k v; run_puts put kvs m }"

locale dict =
  fixes keys :: "'k set"
    and inv :: "'s \<Rightarrow> bool"
    and abs :: "'s \<Rightarrow> 'k \<Rightarrow> 'v option option"
    and put :: "'s \<Rightarrow> 'k \<Rightarrow> 'v option \<Rightarrow> ('v option \<times> 's) option"
    and get :: "'s \<Rightarrow> 'k \<Rightarrow> 'v option option"
    and has :: "'s \<Rightarrow> 'k \<Rightarrow> bool option"
  assumes put_law: "inv m \<Longrightarrow> k \<in> keys \<Longrightarrow> \<exists>m'. put m k v = Some (null_join (abs m k), m') \<and> inv m' \<and> abs m' = (abs m)(k \<mapsto> v)"
    and get_law: "inv m \<Longrightarrow> k \<in> keys \<Longrightarrow> get m k = Some (null_join (abs m k))"
    and has_law: "inv m \<Longrightarrow> k \<in> keys \<Longrightarrow> has m k = Some (k \<in> dom (abs m))"
begin

lemma run_puts_correct:
  "inv m \<Longrightarrow> fst ` set kvs \<subseteq> keys \<Longrightarrow> \<exists>m'. run_puts put kvs m = Some m' \<and> inv m' \<and> abs m' = abs m ++ map_of (rev kvs)"
proof (induction kvs arbitrary: m)
  case (Cons kv kvs)
  obtain k v where kv: "kv = (k, v)" by (cases kv)
  obtain m1 where m1: "put m k v = Some (null_join (abs m k), m1)" "inv m1" "abs m1 = (abs m)(k \<mapsto> v)"
    using put_law [OF Cons.prems(1), of k v] Cons.prems(2) kv by auto
  have "fst ` set kvs \<subseteq> keys" using Cons.prems(2) by simp
  from Cons.IH [OF m1(2) this] obtain m2 where m2: "run_puts put kvs m1 = Some m2" "inv m2"
    "abs m2 = abs m1 ++ map_of (rev kvs)" by blast
  have "abs m2 = abs m ++ map_of (rev (kv # kvs))"
    by (simp add: m2(3) m1(3) kv)
  with m1 m2 kv show ?case by simp
qed simp

lemma get_put:
  assumes "inv m" and "k \<in> keys" and "put m k v = Some (r, m')"
  shows "r = null_join (abs m k)" and "get m' k = Some v" and "has m' k = Some True"
    and "k' \<in> keys \<Longrightarrow> k' \<noteq> k \<Longrightarrow> get m' k' = get m k'" and "k' \<in> keys \<Longrightarrow> k' \<noteq> k \<Longrightarrow> has m' k' = has m k'"
proof -
  obtain m1 where m1: "put m k v = Some (null_join (abs m k), m1)" "inv m1" "abs m1 = (abs m)(k \<mapsto> v)"
    using put_law [OF assms(1,2)] by blast
  with assms(3) have m': "r = null_join (abs m k)" "inv m'" "abs m' = (abs m)(k \<mapsto> v)" by simp_all
  show "r = null_join (abs m k)" by (rule m'(1))
  show "get m' k = Some v" "has m' k = Some True"
    using get_law [OF m'(2) assms(2)] has_law [OF m'(2) assms(2)] by (simp_all add: m'(3))
  show "get m' k' = get m k'" "has m' k' = has m k'" if "k' \<in> keys" "k' \<noteq> k"
    using that get_law [OF m'(2), of k'] has_law [OF m'(2), of k'] get_law [OF assms(1), of k']
      has_law [OF assms(1), of k'] by (simp_all add: m'(3) domIff)
qed

end

end
