(* ===== verification/C_String.thy ===== *)
theory C_String
  imports Prelude
begin

text \<open>
  String functions of \<^verbatim>\<open>src/src/libc.h\<close>, \<^verbatim>\<open>src/src/libc/libc.cpp\<close> and \<^verbatim>\<open>src/src/libc/string.cpp\<close> at
  the level of string values: a \<open>cstring\<close> is the bytes before the terminating NUL, and the
  value of a pointer into a string is the rest of the string from there.  \<^verbatim>\<open>C_Memory\<close> has the functions
  that read or write memory by words, \<^verbatim>\<open>C_Search\<close> the searches for a string, \<^verbatim>\<open>trim\<close> and \<^verbatim>\<open>split\<close>.
\<close>

type_synonym cstring = "u8 list"

definition nul_free :: "cstring \<Rightarrow> bool" where
  "nul_free s \<longleftrightarrow> 0 \<notin> set s"

text \<open>The byte a pointer designates: the first byte, or the terminator.\<close>

definition at :: "cstring \<Rightarrow> u8" where
  "at s = (case s of [] \<Rightarrow> 0 | c # _ \<Rightarrow> c)"

section \<open>Characters\<close>

text \<open>The arguments are \<^verbatim>\<open>int\<close>s, read as unsigned where the code casts.\<close>

definition isdigit :: "u32 \<Rightarrow> bool" where
  "isdigit ch \<longleftrightarrow> ch - 48 < 10"

definition isxdigit :: "u32 \<Rightarrow> bool" where
  "isxdigit ch \<longleftrightarrow> (48 \<le>s ch \<and> ch \<le>s 57) \<or> (65 \<le>s ch \<and> ch \<le>s 70) \<or> (97 \<le>s ch \<and> ch \<le>s 102)"

definition isspace :: "u32 \<Rightarrow> bool" where
  "isspace ch \<longleftrightarrow> ch = 32 \<or> ch - 9 < 5"

definition tolower :: "u32 \<Rightarrow> u32" where
  "tolower c = (if 65 \<le>s c \<and> c \<le>s 90 then c + 32 else c)"

definition toupper :: "u32 \<Rightarrow> u32" where
  "toupper c = (if 97 \<le>s c \<and> c \<le>s 122 then c - 32 else c)"

text \<open>A plain \<^verbatim>\<open>char\<close> is signed: passing it as \<^verbatim>\<open>int\<close> extends its sign.\<close>

abbreviation char_int :: "u8 \<Rightarrow> u32" where
  "char_int c \<equiv> scast c"

section \<open>Comparison\<close>

fun strcmp :: "cstring \<Rightarrow> cstring \<Rightarrow> int" where
  "strcmp (a # l) (b # r) = (if a = b \<and> a \<noteq> 0 then strcmp l r else uint a - uint b)"
| "strcmp l r = uint (at l) - uint (at r)"

section \<open>Byte sets\<close>

text \<open>\<^verbatim>\<open>size_t byteset[32 / sizeof(size_t)]\<close>: eight words of 32 bits, indexed by \<^verbatim>\<open>BITOP\<close>.\<close>

definition bitop_set :: "u32 list \<Rightarrow> u8 \<Rightarrow> u32 list" where
  "bitop_set bs c = (let i = unat c div 32 in bs[i := bs ! i OR push_bit (unat c mod 32) 1])"

definition bitop_test :: "u32 list \<Rightarrow> u8 \<Rightarrow> bool" where
  "bitop_test bs c \<longleftrightarrow> bs ! (unat c div 32) AND push_bit (unat c mod 32) 1 \<noteq> 0"

fun byteset_of :: "u32 list \<Rightarrow> cstring \<Rightarrow> u32 list" where
  "byteset_of bs [] = bs"
| "byteset_of bs (c # cs) = byteset_of (bitop_set bs c) cs"

fun span_length :: "(u8 \<Rightarrow> bool) \<Rightarrow> cstring \<Rightarrow> nat" where
  "span_length P [] = 0"
| "span_length P (c # s) = (if P c then Suc (span_length P s) else 0)"

definition strspn :: "cstring \<Rightarrow> cstring \<Rightarrow> nat" where
  "strspn s c = (if c = [] then 0
     else if tl c = [] then span_length (\<lambda>x. x = hd c) s
     else span_length (bitop_test (byteset_of (replicate 8 0) c)) s)"

text \<open>\<^verbatim>\<open>strchrnul\<close> at the level of values: the rest of the string from the first \<open>c\<close>.\<close>

definition strchrnul :: "cstring \<Rightarrow> u8 \<Rightarrow> cstring" where
  "strchrnul s c = (if c = 0 then [] else drop (span_length (\<lambda>x. x \<noteq> c) s) s)"

definition strchr :: "cstring \<Rightarrow> u8 \<Rightarrow> cstring option" where
  "strchr s c = (let r = strchrnul s c in if at r = c then Some r else None)"

definition strcspn :: "cstring \<Rightarrow> cstring \<Rightarrow> nat" where
  "strcspn s c = (if c \<noteq> [] \<and> tl c \<noteq> []
     then span_length (\<lambda>x. \<not> bitop_test (byteset_of (replicate 8 0) c) x) s
     else length s - length (strchrnul s (at c)))"

definition strpbrk :: "cstring \<Rightarrow> cstring \<Rightarrow> cstring option" where
  "strpbrk s b = (let s = drop (strcspn s b) s in if s = [] then None else Some s)"

text \<open>
  \<^verbatim>\<open>strtok_r\<close> from the pointer it starts at: the token it cuts out (by writing a NUL over
  the delimiter) and the new \<^verbatim>\<open>*saveptr\<close>.
\<close>

definition strtok_r :: "cstring \<Rightarrow> cstring \<Rightarrow> cstring option \<times> cstring" where
  "strtok_r str delim =
     (let str = drop (strspn str delim) str in
      if str = [] then (None, str)
      else case strpbrk str delim of
        None \<Rightarrow> (Some str, [])
      | Some r \<Rightarrow> (Some (take (length str - length r) str), tl r))"

lemma span_length_eq: "span_length P s = length (takeWhile P s)"
  by (induction s) auto

lemma drop_span: "drop (span_length P s) s = dropWhile P s"
  by (simp add: span_length_eq dropWhile_eq_drop)

lemma take_span: "take (span_length P s) s = takeWhile P s"
  by (simp add: span_length_eq takeWhile_eq_take [symmetric])

lemma bitop_test_bit: "bitop_test bs x \<longleftrightarrow> bit (bs ! (unat x div 32)) (unat x mod 32)"
  unfolding bitop_test_def by (rule bit_iff_and_push_bit_not_eq_0 [symmetric])

lemma bitop_test_set:
  assumes "length bs = 8"
  shows "bitop_test (bitop_set bs c) x \<longleftrightarrow> x = c \<or> bitop_test bs x"
proof -
  have c: "unat c < 256" and x: "unat x < 256"
    using unat_bound [of c] unat_bound [of x] by simp_all
  then have i: "unat c div 32 < 8" "unat x div 32 < 8" by auto
  have or1: "bit (w OR push_bit n 1) m \<longleftrightarrow> bit w m \<or> m = n" if "n < 32" for w :: u32 and n m
    using that by (auto simp: bit_simps)
  have eq: "x = c \<longleftrightarrow> unat x div 32 = unat c div 32 \<and> unat x mod 32 = unat c mod 32"
    by (metis div_mult_mod_eq word_unat_eq_iff)
  show ?thesis
    unfolding bitop_test_bit bitop_set_def Let_def eq
    using i assms by (cases "unat x div 32 = unat c div 32") (simp_all add: or1 del: push_bit_of_1, blast)
qed

lemma length_bitop_set [simp]: "length (bitop_set bs c) = length bs"
  by (simp add: bitop_set_def Let_def)

lemma bitop_test_byteset:
  "length bs = 8 \<Longrightarrow> bitop_test (byteset_of bs cs) x \<longleftrightarrow> x \<in> set cs \<or> bitop_test bs x"
  by (induction cs arbitrary: bs) (auto simp: bitop_test_set)

lemma bitop_test_delim [simp]: "bitop_test (byteset_of (replicate 8 0) cs) x \<longleftrightarrow> x \<in> set cs"
proof -
  have "unat x div 32 < 8" using unat_bound [of x] by auto
  then have "\<not> bitop_test (replicate 8 0) x" by (simp add: bitop_test_def)
  then show ?thesis by (simp add: bitop_test_byteset)
qed

lemma bitop_test_delim_fun [simp]: "bitop_test (byteset_of (replicate 8 0) cs) = (\<lambda>x. x \<in> set cs)"
  by (rule ext) (rule bitop_test_delim)

lemma strspn_eq: "nul_free c \<Longrightarrow> strspn s c = length (takeWhile (\<lambda>x. x \<in> set c) s)"
  by (cases c rule: remdups_adj.cases)
    (simp_all add: strspn_def span_length_eq del: byteset_of.simps)

lemma strcspn_eq:
  assumes "nul_free c"
  shows "strcspn s c = length (takeWhile (\<lambda>x. x \<notin> set c) s)"
proof (cases c rule: remdups_adj.cases)
  case (2 x)
  have "length s - length (dropWhile (\<lambda>y. y \<noteq> x) s) = length (takeWhile (\<lambda>y. y \<noteq> x) s)"
    by (metis add_diff_cancel_right' length_append takeWhile_dropWhile_id)
  with 2 assms show ?thesis
    by (simp add: strcspn_def strchrnul_def at_def drop_span nul_free_def)
qed (simp_all add: strcspn_def strchrnul_def at_def span_length_eq del: byteset_of.simps)

lemma strpbrk_eq:
  "nul_free c \<Longrightarrow> strpbrk s c =
     (let r = dropWhile (\<lambda>x. x \<notin> set c) s in if r = [] then None else Some r)"
  by (simp add: strpbrk_def strcspn_eq dropWhile_eq_drop)

lemma strchr_eq:
  assumes "nul_free s"
  shows "strchr s c = (if c = 0 then Some [] else
     let r = dropWhile (\<lambda>x. x \<noteq> c) s in if r = [] then None else Some r)"
proof (cases "c = 0")
  case False
  show ?thesis
  proof (cases "dropWhile (\<lambda>x. x \<noteq> c) s")
    case Nil
    with False show ?thesis
      by (simp add: strchr_def strchrnul_def drop_span at_def del: dropWhile_eq_Nil_conv)
  next
    case (Cons d r)
    then have "d = c" using hd_dropWhile [of "\<lambda>x. x \<noteq> c" s] by simp
    with Cons False show ?thesis
      by (simp add: strchr_def strchrnul_def drop_span at_def del: dropWhile_eq_Nil_conv)
  qed
qed (simp add: strchr_def strchrnul_def at_def)

lemma strcmp_eq_0:
  "nul_free l \<Longrightarrow> nul_free r \<Longrightarrow> strcmp l r = 0 \<longleftrightarrow> l = r"
  by (induction l r rule: strcmp.induct) (auto simp: nul_free_def at_def split: list.splits)

section \<open>Tokens\<close>

lemma strtok_r_eq:
  assumes "nul_free d"
  shows "strtok_r s d = (let s = dropWhile (\<lambda>x. x \<in> set d) s in
     if s = [] then (None, [])
     else (Some (takeWhile (\<lambda>x. x \<notin> set d) s), tl (dropWhile (\<lambda>x. x \<notin> set d) s)))"
proof -
  let ?t = "dropWhile (\<lambda>x. x \<in> set d) s" and ?r = "dropWhile (\<lambda>x. x \<notin> set d)"
  have t: "drop (strspn s d) s = ?t"
    by (simp add: strspn_eq [OF assms] dropWhile_eq_drop)
  have all: "takeWhile (\<lambda>x. x \<notin> set d) ?t = ?t" if "?r ?t = []"
    using that by (metis append.right_neutral takeWhile_dropWhile_id)
  have pb: "strpbrk ?t d = (if ?r ?t = [] then None else Some (?r ?t))"
    unfolding strpbrk_eq [OF assms] Let_def ..
  consider "?t = []" | "?t \<noteq> []" "?r ?t = []" | "?t \<noteq> []" "?r ?t \<noteq> []" by blast
  then show ?thesis
  proof cases
    case 1
    show ?thesis unfolding strtok_r_def Let_def t if_P [OF 1] by (simp only: 1)
  next
    case 2
    show ?thesis
      unfolding strtok_r_def Let_def t if_not_P [OF 2(1)] pb if_P [OF 2(2)] option.case 2(2)
      by (simp only: refl if_True option.case all [OF 2(2)] list.sel)
  next
    case 3
    show ?thesis
      unfolding strtok_r_def Let_def t if_not_P [OF 3(1)] pb if_not_P [OF 3(2)] option.case
        take_length_dropWhile ..
  qed
qed

lemma strtok_r_shorter:
  assumes "strtok_r s d = (Some t, r)"
  shows "length r < length s"
proof -
  let ?s = "drop (strspn s d) s"
  have ne: "?s \<noteq> []" "length ?s \<le> length s"
    using assms by (auto simp: strtok_r_def Let_def split: if_splits)
  show ?thesis
  proof (cases "strpbrk ?s d")
    case None
    with assms ne show ?thesis by (auto simp: strtok_r_def Let_def split: if_splits)
  next
    case (Some q)
    then have "length q \<le> length ?s" "q \<noteq> []"
      by (auto simp: strpbrk_def Let_def split: if_splits)
    moreover have "r = tl q"
      using assms Some by (auto simp: strtok_r_def Let_def split: if_splits)
    ultimately show ?thesis using ne(2) by (cases q) auto
  qed
qed

text \<open>\<^verbatim>\<open>tokenize\<close>: the pointers stored in \<^verbatim>\<open>buf\<close>; \<^verbatim>\<open>argc\<close> is their number.\<close>

function tokenize :: "cstring \<Rightarrow> cstring \<Rightarrow> cstring list" where
  "tokenize str sep = (case strtok_r str sep of
     (None, save) \<Rightarrow> []
   | (Some t, save) \<Rightarrow> t # tokenize save sep)"
  by pat_completeness auto
termination
  by (relation "measure (\<lambda>(s, d). length s)") (auto dest: strtok_r_shorter [OF sym])

declare tokenize.simps [simp del]

text \<open>The specification: the maximal runs of bytes that are no delimiters, in order.\<close>

function word_runs :: "(u8 \<Rightarrow> bool) \<Rightarrow> cstring \<Rightarrow> cstring list" where
  "word_runs P s = (case dropWhile P s of [] \<Rightarrow> []
     | c # s' \<Rightarrow> (c # takeWhile (\<lambda>x. \<not> P x) s') # word_runs P (dropWhile (\<lambda>x. \<not> P x) s'))"
  by pat_completeness auto
termination
proof (relation "measure (\<lambda>(P, s). length s)", goal_cases)
  case (2 P s c s')
  then have "length (c # s') \<le> length s" by (metis length_dropWhile_le)
  moreover have "length (dropWhile (\<lambda>x. \<not> P x) s') \<le> length s'" by (rule length_dropWhile_le)
  ultimately show ?case by simp
qed simp

declare word_runs.simps [simp del]

lemma word_runs_skip: "P c \<Longrightarrow> word_runs P (c # s) = word_runs P s"
  by (simp add: word_runs.simps [of P "c # s"] word_runs.simps [of P s])

lemma word_runs_tl_dropWhile: "word_runs P (tl (dropWhile (\<lambda>x. \<not> P x) s)) = word_runs P (dropWhile (\<lambda>x. \<not> P x) s)"
proof (cases "dropWhile (\<lambda>x. \<not> P x) s")
  case (Cons c t)
  then have "P c" using hd_dropWhile [of "\<lambda>x. \<not> P x" s] by simp
  with Cons show ?thesis by (simp add: word_runs_skip)
qed (metis list.sel(2))

lemma tokenize_word_runs:
  "nul_free d \<Longrightarrow> tokenize s d = word_runs (\<lambda>x. x \<in> set d) s"
proof (induction s d rule: tokenize.induct)
  case (1 s d)
  let ?P = "\<lambda>x. x \<in> set d"
  show ?case
  proof (cases "dropWhile ?P s")
    case Nil
    with "1.prems" show ?thesis
      by (simp add: tokenize.simps [of s] word_runs.simps [of _ s] strtok_r_eq del: dropWhile_eq_Nil_conv)
  next
    case (Cons c t)
    then have "\<not> ?P c" using hd_dropWhile [of ?P s] by simp
    with Cons "1.prems" have tok: "strtok_r s d =
        (Some (c # takeWhile (\<lambda>x. \<not> ?P x) t), tl (dropWhile (\<lambda>x. \<not> ?P x) t))"
      by (simp add: strtok_r_eq)
    with "1.IH" [OF tok [symmetric] refl "1.prems"] Cons show ?thesis
      using word_runs_tl_dropWhile [of ?P t]
      by (simp add: tokenize.simps [of s] word_runs.simps [of _ s])
  qed
qed

lemma word_runs_nonempty: "t \<in> set (word_runs P s) \<Longrightarrow> t \<noteq> [] \<and> (\<forall>x \<in> set t. \<not> P x)"
proof (induction P s rule: word_runs.induct)
  case (1 P s)
  show ?case
  proof (cases "dropWhile P s")
    case Nil
    have "word_runs P s = []" unfolding word_runs.simps [of P s] Nil by (simp only: list.case)
    with "1.prems" show ?thesis by (simp only: list.set empty_iff)
  next
    case (Cons c s')
    then have "\<not> P c" using hd_dropWhile [of P s] by simp
    moreover have "word_runs P s = (c # takeWhile (\<lambda>x. \<not> P x) s') # word_runs P (dropWhile (\<lambda>x. \<not> P x) s')"
      unfolding word_runs.simps [of P s] Cons by (simp only: list.case)
    ultimately have "t = c # takeWhile (\<lambda>x. \<not> P x) s' \<or> t \<in> set (word_runs P (dropWhile (\<lambda>x. \<not> P x) s'))"
      using "1.prems" by (metis set_ConsD)
    then show ?thesis
    proof
      assume "t = c # takeWhile (\<lambda>x. \<not> P x) s'"
      then have "t \<noteq> []" "\<forall>x \<in> set t. \<not> P x"
        using \<open>\<not> P c\<close> by (auto dest: set_takeWhileD)
      then show ?thesis ..
    qed (rule "1.IH" [OF Cons])
  qed
qed

lemma word_runs_subset: "t \<in> set (word_runs P s) \<Longrightarrow> set t \<subseteq> set s"
proof (induction P s rule: word_runs.induct)
  case (1 P s)
  show ?case
  proof (cases "dropWhile P s")
    case Nil
    have "word_runs P s = []" unfolding word_runs.simps [of P s] Nil by (simp only: list.case)
    with "1.prems" show ?thesis by (simp only: list.set empty_iff)
  next
    case (Cons c s')
    then have sub: "set (c # s') \<subseteq> set s" by (metis set_dropWhileD subsetI)
    have "word_runs P s = (c # takeWhile (\<lambda>x. \<not> P x) s') # word_runs P (dropWhile (\<lambda>x. \<not> P x) s')"
      unfolding word_runs.simps [of P s] Cons by (simp only: list.case)
    then have "t = c # takeWhile (\<lambda>x. \<not> P x) s' \<or> t \<in> set (word_runs P (dropWhile (\<lambda>x. \<not> P x) s'))"
      using "1.prems" by (metis set_ConsD)
    then show ?thesis
    proof
      assume "t = c # takeWhile (\<lambda>x. \<not> P x) s'"
      then have "set t \<subseteq> set (c # s')" by (auto dest: set_takeWhileD)
      with sub show ?thesis by blast
    next
      assume "t \<in> set (word_runs P (dropWhile (\<lambda>x. \<not> P x) s'))"
      then have "set t \<subseteq> set (dropWhile (\<lambda>x. \<not> P x) s')" by (rule "1.IH" [OF Cons])
      also have "\<dots> \<subseteq> set (c # s')" by (auto dest: set_dropWhileD)
      finally show ?thesis using sub by blast
    qed
  qed
qed

end
