(* ===== verification/Hashmap.thy ===== *)
theory Hashmap
  imports Dict C_String
begin

text \<open>
  The hash map of \<^verbatim>\<open>src/src/libc/hashmap.h\<close> and \<^verbatim>\<open>src/src/libc/data_struct/hashmap.cpp\<close>: an
  array of chains.  A chain is the list of its entries; keys and values are HOL values, with
  the hash and the comparison as fields of the map, as in the structure of the code.
  The functions that only copy and free keys are not represented.
\<close>

type_synonym ('k, 'v) entry = "'k \<times> 'v option"

record ('k, 'v) hashmap =
  hm_hash_func :: "'k \<Rightarrow> u32"
  hm_hash_comp :: "'k \<Rightarrow> 'k \<Rightarrow> bool"
  hm_size :: u32
  hm_entries :: "('k, 'v) entry list list"

section \<open>Keys\<close>

fun sdbm :: "u32 \<Rightarrow> cstring \<Rightarrow> u32" where
  "sdbm h [] = h"
| "sdbm h (c # s) = (if c = 0 then h
     else sdbm (char_int c + push_bit 6 h + push_bit 16 h - h) s)"

definition hashmap_string_hash :: "cstring \<Rightarrow> u32" where
  "hashmap_string_hash key = sdbm 0 key"

definition hashmap_string_comp :: "cstring \<Rightarrow> cstring \<Rightarrow> bool" where
  "hashmap_string_comp a b \<longleftrightarrow> strcmp a b = 0"

definition hashmap_int_hash :: "u32 \<Rightarrow> u32" where
  "hashmap_int_hash key = key"

definition hashmap_int_comp :: "u32 \<Rightarrow> u32 \<Rightarrow> bool" where
  "hashmap_int_comp a b \<longleftrightarrow> a = b"

section \<open>Operations\<close>

text \<open>The array is as long as the pointers that fit into \<^verbatim>\<open>sizeof(hashmap_entry_t *) * size\<close>
  bytes; the product wraps.\<close>

definition hashmap_create :: "u32 \<Rightarrow> (cstring, 'v) hashmap" where
  "hashmap_create sz = \<lparr>hm_hash_func = hashmap_string_hash, hm_hash_comp = hashmap_string_comp,
     hm_size = sz, hm_entries = replicate (unat (4 * sz) div 4) []\<rparr>"

definition hashmap_create_int :: "u32 \<Rightarrow> (u32, 'v) hashmap" where
  "hashmap_create_int sz = \<lparr>hm_hash_func = hashmap_int_hash, hm_hash_comp = hashmap_int_comp,
     hm_size = sz, hm_entries = replicate (unat (4 * sz) div 4) []\<rparr>"

text \<open>The slot of a key; the division by a size of 0 and an access outside the array have no
  result.\<close>

definition hm_bucket :: "('k, 'v) hashmap \<Rightarrow> 'k \<Rightarrow> nat option" where
  "hm_bucket m k = (if hm_size m = 0 then None else
     let i = unat (hm_hash_func m k mod hm_size m) in
     if i < length (hm_entries m) then Some i else None)"

fun chain_set :: "('k \<Rightarrow> 'k \<Rightarrow> bool) \<Rightarrow> 'k \<Rightarrow> 'v option \<Rightarrow> ('k, 'v) entry list \<Rightarrow>
    'v option \<times> ('k, 'v) entry list" where
  "chain_set cmp k v [] = (None, [(k, v)])"
| "chain_set cmp k v ((k', v') # es) = (if cmp k' k then (v', (k', v) # es)
     else case chain_set cmp k v es of (r, es) \<Rightarrow> (r, (k', v') # es))"

definition hashmap_set :: "('k, 'v) hashmap \<Rightarrow> 'k \<Rightarrow> 'v option \<Rightarrow>
    ('v option \<times> ('k, 'v) hashmap) option" where
  "hashmap_set m k v = do {
     i \<leftarrow> hm_bucket m k;
     let (r, es) = chain_set (hm_hash_comp m) k v (hm_entries m ! i);
     Some (r, m\<lparr>hm_entries := (hm_entries m)[i := es]\<rparr>)
   }"

fun chain_get :: "('k \<Rightarrow> 'k \<Rightarrow> bool) \<Rightarrow> 'k \<Rightarrow> ('k, 'v) entry list \<Rightarrow> 'v option" where
  "chain_get cmp k [] = None"
| "chain_get cmp k ((k', v') # es) = (if cmp k' k then v' else chain_get cmp k es)"

definition hashmap_get :: "('k, 'v) hashmap \<Rightarrow> 'k \<Rightarrow> 'v option option" where
  "hashmap_get m k = do {
     i \<leftarrow> hm_bucket m k;
     Some (chain_get (hm_hash_comp m) k (hm_entries m ! i))
   }"

text \<open>\<^verbatim>\<open>hashmap_get_i\<close>: the entry at position \<open>idx\<close> of the chain in slot \<open>idx\<close>.\<close>

definition hashmap_get_i :: "('k, 'v) hashmap \<Rightarrow> int \<Rightarrow> 'v option option" where
  "hashmap_get_i m idx = (if 0 \<le> idx \<and> nat idx < length (hm_entries m) then
     (let es = hm_entries m ! nat idx in
      Some (if nat idx < length es then snd (es ! nat idx) else None)) else None)"

text \<open>
  The second loop of \<^verbatim>\<open>hashmap_remove\<close> looks at an entry before it tests whether there is one:
  \<open>es\<close> are the entries after \<open>p\<close>.
\<close>

fun chain_remove_after :: "('k \<Rightarrow> 'k \<Rightarrow> bool) \<Rightarrow> 'k \<Rightarrow> ('k, 'v) entry list \<Rightarrow>
    ('v option \<times> ('k, 'v) entry list) option" where
  "chain_remove_after cmp k [] = None"
| "chain_remove_after cmp k ((k', v') # es) = (if cmp k' k then Some (v', es)
     else if es = [] then Some (None, [(k', v')])
     else do { (r, es) \<leftarrow> chain_remove_after cmp k es; Some (r, (k', v') # es) })"

fun chain_remove :: "('k \<Rightarrow> 'k \<Rightarrow> bool) \<Rightarrow> 'k \<Rightarrow> ('k, 'v) entry list \<Rightarrow>
    ('v option \<times> ('k, 'v) entry list) option" where
  "chain_remove cmp k [] = Some (None, [])"
| "chain_remove cmp k ((k', v') # es) = (if cmp k' k then Some (v', es)
     else do { (r, es) \<leftarrow> chain_remove_after cmp k es; Some (r, (k', v') # es) })"

definition hashmap_remove :: "('k, 'v) hashmap \<Rightarrow> 'k \<Rightarrow> ('v option \<times> ('k, 'v) hashmap) option" where
  "hashmap_remove m k = do {
     i \<leftarrow> hm_bucket m k;
     (r, es) \<leftarrow> chain_remove (hm_hash_comp m) k (hm_entries m ! i);
     Some (r, m\<lparr>hm_entries := (hm_entries m)[i := es]\<rparr>)
   }"

definition hashmap_has :: "('k, 'v) hashmap \<Rightarrow> 'k \<Rightarrow> bool option" where
  "hashmap_has m k = do {
     i \<leftarrow> hm_bucket m k;
     Some (\<exists>e \<in> set (hm_entries m ! i). hm_hash_comp m (fst e) k)
   }"

text \<open>The walks over all slots, \<^verbatim>\<open>for (i = 0; i < map->size; ++i)\<close>.\<close>

definition hm_slots :: "('k, 'v) hashmap \<Rightarrow> ('k, 'v) entry list list option" where
  "hm_slots m = (if unat (hm_size m) \<le> length (hm_entries m)
     then Some (take (unat (hm_size m)) (hm_entries m)) else None)"

definition hashmap_keys :: "('k, 'v) hashmap \<Rightarrow> 'k list option" where
  "hashmap_keys m = do { ess \<leftarrow> hm_slots m; Some (map fst (concat ess)) }"

definition hashmap_values :: "('k, 'v) hashmap \<Rightarrow> 'v option list option" where
  "hashmap_values m = do { ess \<leftarrow> hm_slots m; Some (map snd (concat ess)) }"

definition hashmap_size :: "('k, 'v) hashmap \<Rightarrow> int option" where
  "hashmap_size m = do { ess \<leftarrow> hm_slots m; Some (foldl (\<lambda>n es. n + int (length es)) 0 ess) }"

section \<open>Representation\<close>

text \<open>A map whose comparison is equality on the keys in \<open>D\<close>, with every entry in the slot of its
  key and at most one entry for a key.\<close>

definition hm_ok :: "'k set \<Rightarrow> ('k, 'v) hashmap \<Rightarrow> bool" where
  "hm_ok D m \<longleftrightarrow> hm_size m \<noteq> 0 \<and> length (hm_entries m) = unat (hm_size m) \<and>
     (\<forall>a \<in> D. \<forall>b \<in> D. hm_hash_comp m a b \<longleftrightarrow> a = b) \<and>
     (\<forall>i < length (hm_entries m). distinct (map fst (hm_entries m ! i)) \<and>
        (\<forall>k \<in> fst ` set (hm_entries m ! i). k \<in> D \<and> unat (hm_hash_func m k mod hm_size m) = i))"

definition hm_slot :: "('k, 'v) hashmap \<Rightarrow> 'k \<Rightarrow> nat" where
  "hm_slot m k = unat (hm_hash_func m k mod hm_size m)"

definition hm_abs :: "('k, 'v) hashmap \<Rightarrow> 'k \<Rightarrow> 'v option option" where
  "hm_abs m k = map_of (hm_entries m ! hm_slot m k) k"

lemma hm_slot_bound: "hm_ok D m \<Longrightarrow> hm_slot m k < length (hm_entries m)"
proof -
  assume "hm_ok D m"
  then have "hm_size m \<noteq> 0" "length (hm_entries m) = unat (hm_size m)" by (auto simp: hm_ok_def)
  moreover from this have "hm_hash_func m k mod hm_size m < hm_size m"
    by (simp add: word_mod_less_divisor word_greater_zero_iff)
  ultimately show ?thesis by (simp add: hm_slot_def word_less_nat_alt)
qed

lemma hm_bucket_eq: "hm_ok D m \<Longrightarrow> hm_bucket m k = Some (hm_slot m k)"
  using hm_slot_bound [of D m k] by (auto simp: hm_bucket_def hm_ok_def hm_slot_def Let_def)

text \<open>The chains of a well-formed map.\<close>

definition chain_ok :: "'k set \<Rightarrow> ('k \<Rightarrow> 'k \<Rightarrow> bool) \<Rightarrow> ('k \<Rightarrow> bool) \<Rightarrow> ('k, 'v) entry list \<Rightarrow> bool" where
  "chain_ok D cmp P es \<longleftrightarrow> (\<forall>a \<in> D. \<forall>b \<in> D. cmp a b \<longleftrightarrow> a = b) \<and> distinct (map fst es) \<and>
     (\<forall>k \<in> fst ` set es. k \<in> D \<and> P k)"

lemma hm_ok_chain:
  "hm_ok D m \<Longrightarrow> i < length (hm_entries m) \<Longrightarrow>
     chain_ok D (hm_hash_comp m) (\<lambda>k. hm_slot m k = i) (hm_entries m ! i)"
  by (auto simp: hm_ok_def chain_ok_def hm_slot_def)

lemma hm_ok_update:
  assumes "hm_ok D m" and "i < length (hm_entries m)"
    and "chain_ok D (hm_hash_comp m) (\<lambda>k. hm_slot m k = i) es"
  shows "hm_ok D (m\<lparr>hm_entries := (hm_entries m)[i := es]\<rparr>)"
  using assms by (auto simp: hm_ok_def chain_ok_def hm_slot_def nth_list_update)

lemma chain_set_map:
  "chain_ok D cmp P es \<Longrightarrow> k \<in> D \<Longrightarrow> P k \<Longrightarrow> chain_set cmp k v es = (r, es') \<Longrightarrow>
     r = null_join (map_of es k) \<and> map_of es' = (map_of es)(k \<mapsto> v) \<and> chain_ok D cmp P es' \<and>
     fst ` set es' = insert k (fst ` set es)"
proof (induction es arbitrary: es' r)
  case (Cons e es)
  obtain k' v' where e: "e = (k', v')" by (cases e)
  from Cons.prems e have kk: "cmp k' k \<longleftrightarrow> k' = k" and ok: "chain_ok D cmp P es"
    by (auto simp: chain_ok_def)
  show ?case
  proof (cases "k' = k")
    case True
    with Cons.prems e kk show ?thesis by (auto simp: chain_ok_def)
  next
    case False
    obtain r0 es0 where es0: "chain_set cmp k v es = (r0, es0)" by (cases "chain_set cmp k v es")
    note IH = Cons.IH [OF ok Cons.prems(2,3) es0]
    have es': "r = r0" "es' = (k', v') # es0" using Cons.prems(4) e kk False es0 by auto
    from IH have keys: "fst ` set es' = insert k (fst ` set (e # es))"
      by (simp add: es' e insert_commute)
    from Cons.prems(1-3) IH False have "chain_ok D cmp P es'"
      by (auto simp: chain_ok_def es' e)
    with IH keys False Cons.prems(2,3) show ?thesis by (auto simp: es' e fun_eq_iff)
  qed
qed (auto simp: chain_ok_def)

lemma chain_get_map:
  "chain_ok D cmp P es \<Longrightarrow> k \<in> D \<Longrightarrow> chain_get cmp k es = null_join (map_of es k)"
  by (induction es) (auto simp: chain_ok_def)

lemma chain_has_map:
  "chain_ok D cmp P es \<Longrightarrow> k \<in> D \<Longrightarrow> (\<exists>e \<in> set es. cmp (fst e) k) \<longleftrightarrow> k \<in> dom (map_of es)"
  by (fastforce simp: chain_ok_def dom_map_of_conv_image_fst)

lemma chain_remove_after_map:
  "chain_ok D cmp P es \<Longrightarrow> k \<in> D \<Longrightarrow> es \<noteq> [] \<Longrightarrow>
     \<exists>es'. chain_remove_after cmp k es = Some (null_join (map_of es k), es') \<and>
       map_of es' = (map_of es)(k := None) \<and> chain_ok D cmp P es' \<and> fst ` set es' \<subseteq> fst ` set es"
proof (induction es)
  case (Cons e es)
  obtain k' v' where e: "e = (k', v')" by (cases e)
  from Cons.prems e have kk: "cmp k' k \<longleftrightarrow> k' = k" and ok: "chain_ok D cmp P es"
    and nin: "k' \<notin> fst ` set es" "k' \<in> D" "P k'"
    by (auto simp: chain_ok_def)
  show ?case
  proof (cases "k' = k")
    case True
    with nin have "map_of es k = None" by (simp add: map_of_eq_None_iff)
    moreover have "chain_remove_after cmp k (e # es) = Some (null_join (map_of (e # es) k), es)"
      using True kk by (simp add: e)
    ultimately show ?thesis using True ok by (intro exI [of _ es]) (auto simp: e fun_eq_iff)
  next
    case False
    show ?thesis
    proof (cases "es = []")
      case True
      with False Cons.prems e kk show ?thesis by auto
    next
      case ne: False
      from Cons.IH [OF ok Cons.prems(2) this] obtain es' where es':
        "chain_remove_after cmp k es = Some (null_join (map_of es k), es')"
        "map_of es' = (map_of es)(k := None)" "chain_ok D cmp P es'" "fst ` set es' \<subseteq> fst ` set es"
        by blast
      have "chain_ok D cmp P (e # es')"
        using es'(3,4) nin e by (auto simp: chain_ok_def)
      moreover have "chain_remove_after cmp k (e # es) = Some (null_join (map_of es k), e # es')"
        using es'(1) e kk False ne by simp
      moreover have "map_of (e # es') = (map_of (e # es))(k := None)"
        using es'(2) e False by (simp add: fun_upd_twist)
      moreover have "fst ` set (e # es') \<subseteq> fst ` set (e # es)" using es'(4) by auto
      ultimately show ?thesis using False by (intro exI [of _ "e # es'"]) (auto simp: e fun_eq_iff)
    qed
  qed
qed simp

lemma chain_remove_map:
  assumes "chain_ok D cmp P es" and "k \<in> D" and "length es \<noteq> 1 \<or> k \<in> dom (map_of es)"
  shows "\<exists>es'. chain_remove cmp k es = Some (null_join (map_of es k), es') \<and>
       map_of es' = (map_of es)(k := None) \<and> chain_ok D cmp P es'"
proof (cases es)
  case Nil
  with assms show ?thesis by simp
next
  case (Cons e es2)
  obtain k' v' where e: "e = (k', v')" by (cases e)
  from assms Cons e have kk: "cmp k' k \<longleftrightarrow> k' = k" and ok: "chain_ok D cmp P es2"
    and nin: "k' \<notin> fst ` set es2" "k' \<in> D" "P k'"
    by (auto simp: chain_ok_def)
  show ?thesis
  proof (cases "k' = k")
    case True
    with nin have "(map_of es2)(k := None) = map_of es2"
      by (simp add: map_of_eq_None_iff fun_upd_idem)
    with True kk ok show ?thesis by (simp add: Cons e)
  next
    case False
    with assms(3) Cons e have "es2 \<noteq> []" by auto
    from chain_remove_after_map [OF ok assms(2) this] obtain es' where es':
      "chain_remove_after cmp k es2 = Some (null_join (map_of es2 k), es')"
      "map_of es' = (map_of es2)(k := None)" "chain_ok D cmp P es'" "fst ` set es' \<subseteq> fst ` set es2"
      by blast
    have "chain_ok D cmp P (e # es')"
      using es'(3,4) nin e by (auto simp: chain_ok_def)
    moreover have "map_of (e # es') = (map_of (e # es2))(k := None)"
      using es'(2) e False by (simp add: fun_upd_twist)
    ultimately show ?thesis using es'(1) kk False
      by (intro exI [of _ "e # es'"]) (simp add: Cons e)
  qed
qed

lemma chain_remove_single:
  "chain_ok D cmp P [e] \<Longrightarrow> k \<in> D \<Longrightarrow> fst e \<noteq> k \<Longrightarrow> chain_remove cmp k [e] = None"
  by (cases e) (auto simp: chain_ok_def)

section \<open>The operations on the abstract map\<close>

lemma hm_put_law:
  assumes "hm_ok D m" and "k \<in> D"
  shows "\<exists>m'. hashmap_set m k v = Some (null_join (hm_abs m k), m') \<and> hm_ok D m' \<and>
     hm_abs m' = (hm_abs m)(k \<mapsto> v)"
proof -
  let ?i = "hm_slot m k"
  obtain r es where es: "chain_set (hm_hash_comp m) k v (hm_entries m ! ?i) = (r, es)"
    by (cases "chain_set (hm_hash_comp m) k v (hm_entries m ! ?i)")
  note i = hm_slot_bound [OF assms(1), of k]
  note ch = chain_set_map [OF hm_ok_chain [OF assms(1) i] assms(2) refl es]
  let ?m = "m\<lparr>hm_entries := (hm_entries m)[?i := es]\<rparr>"
  have "hm_ok D ?m" using hm_ok_update [OF assms(1) i] ch by blast
  moreover have "hm_abs ?m = (hm_abs m)(k \<mapsto> v)"
  proof
    fix k' show "hm_abs ?m k' = ((hm_abs m)(k \<mapsto> v)) k'"
      using ch i hm_slot_bound [OF assms(1), of k']
      by (cases "hm_slot m k' = ?i") (auto simp: hm_abs_def hm_slot_def)
  qed
  ultimately show ?thesis
    using es ch by (simp add: hashmap_set_def hm_bucket_eq [OF assms(1)] hm_abs_def)
qed

lemma hm_get_law: "hm_ok D m \<Longrightarrow> k \<in> D \<Longrightarrow> hashmap_get m k = Some (null_join (hm_abs m k))"
  using chain_get_map [OF hm_ok_chain [OF _ hm_slot_bound [of D m k]]]
  by (simp add: hashmap_get_def hm_bucket_eq hm_abs_def)

lemma hm_has_law: "hm_ok D m \<Longrightarrow> k \<in> D \<Longrightarrow> hashmap_has m k = Some (k \<in> dom (hm_abs m))"
proof -
  assume ok: "hm_ok D m" and k: "k \<in> D"
  have "(\<exists>e \<in> set (hm_entries m ! hm_slot m k). hm_hash_comp m (fst e) k) \<longleftrightarrow>
      k \<in> dom (map_of (hm_entries m ! hm_slot m k))"
    by (rule chain_has_map [OF hm_ok_chain [OF ok hm_slot_bound [OF ok]] k])
  then show ?thesis
    by (simp add: hashmap_has_def hm_bucket_eq [OF ok] hm_abs_def domIff)
qed

lemma hashmap_remove_law:
  assumes "hm_ok D m" and "k \<in> D"
    and "length (hm_entries m ! hm_slot m k) \<noteq> 1 \<or> k \<in> dom (hm_abs m)"
  shows "\<exists>m'. hashmap_remove m k = Some (null_join (hm_abs m k), m') \<and> hm_ok D m' \<and>
     hm_abs m' = (hm_abs m)(k := None)"
proof -
  let ?i = "hm_slot m k"
  note i = hm_slot_bound [OF assms(1), of k]
  have "length (hm_entries m ! ?i) \<noteq> 1 \<or> k \<in> dom (map_of (hm_entries m ! ?i))"
    using assms(3) by (auto simp: hm_abs_def)
  from chain_remove_map [OF hm_ok_chain [OF assms(1) i] assms(2) this] obtain es where es:
    "chain_remove (hm_hash_comp m) k (hm_entries m ! ?i) = Some (null_join (hm_abs m k), es)"
    "map_of es = (map_of (hm_entries m ! ?i))(k := None)"
    "chain_ok D (hm_hash_comp m) (\<lambda>k. hm_slot m k = ?i) es"
    by (auto simp: hm_abs_def)
  let ?m = "m\<lparr>hm_entries := (hm_entries m)[?i := es]\<rparr>"
  have "hm_ok D ?m" by (rule hm_ok_update [OF assms(1) i es(3)])
  moreover have "hm_abs ?m = (hm_abs m)(k := None)"
  proof
    fix k' show "hm_abs ?m k' = ((hm_abs m)(k := None)) k'"
      using es(2) i hm_slot_bound [OF assms(1), of k']
      by (cases "hm_slot m k' = ?i") (auto simp: hm_abs_def hm_slot_def)
  qed
  ultimately show ?thesis
    using es(1) by (simp add: hashmap_remove_def hm_bucket_eq [OF assms(1)])
qed

text \<open>A chain of one entry that is not the one looked for: the loop runs off its end.\<close>

lemma hashmap_remove_single:
  assumes "hm_ok D m" and "k \<in> D" and "length (hm_entries m ! hm_slot m k) = 1"
    and "k \<notin> dom (hm_abs m)"
  shows "hashmap_remove m k = None"
proof -
  obtain e where e: "hm_entries m ! hm_slot m k = [e]"
    using assms(3) by (auto simp: length_Suc_conv)
  with assms(4) have "fst e \<noteq> k" by (cases e) (auto simp: hm_abs_def)
  with chain_remove_single [OF _ assms(2) this] hm_ok_chain [OF assms(1) hm_slot_bound [OF assms(1), of k]] e
  show ?thesis by (auto simp: hashmap_remove_def hm_bucket_eq [OF assms(1)])
qed

subsection \<open>Maps with string keys and with integer keys\<close>

lemma hm_abs_empty:
  assumes "hm_ok D m" and "\<forall>es \<in> set (hm_entries m). es = []"
  shows "hm_abs m = (\<lambda>_. None)"
proof
  fix k
  have "hm_entries m ! hm_slot m k = []"
    using assms(2) nth_mem [OF hm_slot_bound [OF assms(1)]] by blast
  then show "hm_abs m k = None" by (simp add: hm_abs_def)
qed

lemma create_ok:
  assumes "0 < sz" and "sz < 0x40000000"
  shows "hm_ok {k. nul_free k} (hashmap_create sz)" and "hm_abs (hashmap_create sz) = (\<lambda>_. None)"
    and "hm_ok UNIV (hashmap_create_int sz)" and "hm_abs (hashmap_create_int sz) = (\<lambda>_. None)"
proof -
  note defs = hm_ok_def hashmap_create_def hashmap_create_int_def hashmap_string_comp_def
    hashmap_int_comp_def strcmp_eq_0
  have n: "unat (4 * sz) div 4 = unat sz" "sz \<noteq> 0"
    using assms by (auto simp: unat_word_ariths word_less_nat_alt)
  then show "hm_ok {k. nul_free k} (hashmap_create sz)" "hm_ok UNIV (hashmap_create_int sz)"
    by (simp_all add: defs)
  from hm_abs_empty [OF this(1)] hm_abs_empty [OF this(2)]
  show "hm_abs (hashmap_create sz) = (\<lambda>_. None)" "hm_abs (hashmap_create_int sz) = (\<lambda>_. None)"
    by (simp_all add: hashmap_create_def hashmap_create_int_def)
qed

text \<open>The hash is the polynomial in 65599 over the sign-extended characters.\<close>

lemma sdbm_foldl:
  "nul_free s \<Longrightarrow> sdbm h s = foldl (\<lambda>h c. 65599 * h + char_int c) h s"
proof (induction s arbitrary: h)
  case (Cons c s)
  have "push_bit 6 h = 64 * h" "push_bit 16 h = 65536 * h"
    by (simp_all add: push_bit_eq_mult mult.commute)
  then have "char_int c + push_bit 6 h + push_bit 16 h - h = 65599 * h + char_int c"
    by (simp only: diff_conv_add_uminus) (simp add: algebra_simps)
  moreover have "c \<noteq> 0" "nul_free s" using Cons.prems by (auto simp: nul_free_def)
  ultimately show ?case by (simp only: sdbm.simps if_False foldl_Cons Cons.IH)
qed simp

interpretation hm: dict D "hm_ok D" hm_abs hashmap_set hashmap_get hashmap_has
  for D :: "'k set"
  by unfold_locales (simp_all add: hm_put_law hm_get_law hm_has_law)

text \<open>The walks over all entries.\<close>

lemma hm_slots_ok: "hm_ok D m \<Longrightarrow> hm_slots m = Some (hm_entries m)"
  by (simp add: hm_slots_def hm_ok_def)

lemma hm_take_slots:
  assumes "hm_ok D m" and "n \<le> length (hm_entries m)"
  shows "distinct (map fst (concat (take n (hm_entries m)))) \<and>
     fst ` set (concat (take n (hm_entries m))) = {k \<in> dom (hm_abs m). hm_slot m k < n}"
  using assms(2)
proof (induction n)
  case (Suc n)
  let ?e = "hm_entries m ! n"
  from Suc.prems have n: "n < length (hm_entries m)" by simp
  have ch: "distinct (map fst ?e)" "\<forall>k \<in> fst ` set ?e. hm_slot m k = n"
    using hm_ok_chain [OF assms(1) n] by (auto simp: chain_ok_def)
  have keys: "fst ` set ?e = {k \<in> dom (hm_abs m). hm_slot m k = n}"
    using ch(2) by (auto simp: hm_abs_def domIff map_of_eq_None_iff)
  from Suc have IH: "distinct (map fst (concat (take n (hm_entries m))))"
    "fst ` set (concat (take n (hm_entries m))) = {k \<in> dom (hm_abs m). hm_slot m k < n}" by simp_all
  have step: "concat (take (Suc n) (hm_entries m)) = concat (take n (hm_entries m)) @ ?e"
    using n by (simp add: take_Suc_conv_app_nth)
  have "fst ` set (concat (take n (hm_entries m))) \<inter> fst ` set ?e = {}"
    unfolding IH(2) keys by auto
  with IH(1) ch(1) have "distinct (map fst (concat (take (Suc n) (hm_entries m))))"
    unfolding step by simp
  moreover have "fst ` set (concat (take (Suc n) (hm_entries m))) = {k \<in> dom (hm_abs m). hm_slot m k < Suc n}"
    unfolding step set_append image_Un IH(2) keys by auto
  ultimately show ?case ..
qed simp

lemma hm_all_slots:
  assumes "hm_ok D m"
  shows "distinct (map fst (concat (hm_entries m)))" and "fst ` set (concat (hm_entries m)) = dom (hm_abs m)"
proof -
  have "{k \<in> dom (hm_abs m). hm_slot m k < length (hm_entries m)} = dom (hm_abs m)"
    using hm_slot_bound [OF assms] by auto
  with hm_take_slots [OF assms order_refl] show "distinct (map fst (concat (hm_entries m)))"
    "fst ` set (concat (hm_entries m)) = dom (hm_abs m)" by (simp_all only: take_all order_refl)
qed

lemma foldl_add_lengths: "foldl (\<lambda>n es. n + int (length es)) i ess = i + int (length (concat ess))"
  by (induction ess arbitrary: i) simp_all

lemma hashmap_keys_law:
  assumes "hm_ok D m"
  shows "\<exists>ks. hashmap_keys m = Some ks \<and> distinct ks \<and> set ks = dom (hm_abs m) \<and>
     hashmap_size m = Some (int (length ks))"
  using hm_all_slots [OF assms]
  by (simp add: hashmap_keys_def hashmap_size_def hm_slots_ok [OF assms] foldl_add_lengths)

end
