(* ===== verification/Args.thy ===== *)
theory Args
  imports Hashmap
begin

text \<open>
  Kernel arguments, \<^verbatim>\<open>src/src/args.cpp\<close>: the command line is cut into words at spaces and every
  word into a name and a value at its first \<^verbatim>\<open>=\<close>; the global map \<^verbatim>\<open>kernel_args_map\<close>, absent
  until the first call, is the state.
\<close>

type_synonym arg_map = "(cstring, cstring) hashmap option"

definition args_present :: "arg_map \<Rightarrow> cstring \<Rightarrow> bool option" where
  "args_present st karg = (case st of None \<Rightarrow> Some False | Some m \<Rightarrow> hashmap_has m karg)"

definition args_value :: "arg_map \<Rightarrow> cstring \<Rightarrow> cstring option option" where
  "args_value st karg = (case st of None \<Rightarrow> Some None | Some m \<Rightarrow> hashmap_get m karg)"

text \<open>The loop over the characters of a word: \<^verbatim>\<open>=\<close>, which is 61, becomes the end of the name.\<close>

fun split_arg :: "cstring \<Rightarrow> cstring \<times> cstring option" where
  "split_arg [] = ([], None)"
| "split_arg (c # v) = (if c = 61 then ([], Some v)
     else case split_arg v of (name, val) \<Rightarrow> (c # name, val))"

text \<open>\<^verbatim>\<open>tokenize\<close> stores the words and a terminating \<^verbatim>\<open>NULL\<close> in \<^verbatim>\<open>argv[1024]\<close>; more words
  than fit are written past its end.\<close>

definition args_parse :: "arg_map \<Rightarrow> cstring option \<Rightarrow> arg_map option" where
  "args_parse st arg = (case arg of None \<Rightarrow> Some st
   | Some arg \<Rightarrow>
      (let argv = tokenize arg [32] in
       if length argv \<ge> 1024 then None
       else do {
         let m = (case st of None \<Rightarrow> hashmap_create 10 | Some m \<Rightarrow> m);
         m \<leftarrow> run_puts hashmap_set (map split_arg argv) m;
         Some (Some m)
       }))"

section \<open>What the map holds after a call\<close>

definition args_ok :: "arg_map \<Rightarrow> bool" where
  "args_ok st \<longleftrightarrow> (case st of None \<Rightarrow> True | Some m \<Rightarrow> hm_ok {k. nul_free k} m)"

definition args_abs :: "arg_map \<Rightarrow> cstring \<Rightarrow> cstring option option" where
  "args_abs st = (case st of None \<Rightarrow> (\<lambda>_. None) | Some m \<Rightarrow> hm_abs m)"

definition words :: "cstring \<Rightarrow> cstring list" where
  "words s = word_runs (\<lambda>x. x = 32) s"

lemma split_arg_eq:
  "split_arg w = (takeWhile (\<lambda>c. c \<noteq> 61) w, if 61 \<in> set w then Some (tl (dropWhile (\<lambda>c. c \<noteq> 61) w)) else None)"
  by (induction w) auto

lemma args_present_abs:
  "args_ok st \<Longrightarrow> nul_free k \<Longrightarrow> args_present st k = Some (k \<in> dom (args_abs st))"
  by (cases st) (simp_all add: args_ok_def args_present_def args_abs_def hm.has_law [of "{k. nul_free k}"])

lemma args_value_abs:
  "args_ok st \<Longrightarrow> nul_free k \<Longrightarrow> args_value st k = Some (null_join (args_abs st k))"
  by (cases st) (simp_all add: args_ok_def args_value_def args_abs_def hm.get_law [of "{k. nul_free k}"])

lemma args_parse_abs:
  assumes "args_ok st" and "nul_free line" and "length (words line) < 1024"
  shows "\<exists>st'. args_parse st (Some line) = Some st' \<and> args_ok st' \<and>
     args_abs st' = args_abs st ++ map_of (rev (map split_arg (words line)))"
proof -
  let ?K = "{k. nul_free k}"
  define m where "m = (case st of None \<Rightarrow> hashmap_create 10 | Some m \<Rightarrow> m)"
  have m: "hm_ok ?K m" "hm_abs m = args_abs st"
    using assms(1) create_ok [of 10] by (cases st; simp add: m_def args_ok_def args_abs_def)+
  have toks: "tokenize line [32] = words line"
    by (simp add: tokenize_word_runs nul_free_def words_def)
  have "nul_free (fst (split_arg w))" if "w \<in> set (words line)" for w
  proof -
    have "set w \<subseteq> set line" using that word_runs_subset by (auto simp: words_def)
    with assms(2) show ?thesis by (auto simp: split_arg_eq nul_free_def dest: set_takeWhileD)
  qed
  then have "fst ` set (map split_arg (words line)) \<subseteq> ?K" by auto
  from hm.run_puts_correct [OF m(1) this] obtain m' where m':
    "run_puts hashmap_set (map split_arg (words line)) m = Some m'" "hm_ok ?K m'"
    "hm_abs m' = hm_abs m ++ map_of (rev (map split_arg (words line)))" by blast
  then show ?thesis
    using assms(3) m(2)
    by (intro exI [of _ "Some m'"]) (simp add: args_parse_def toks args_ok_def args_abs_def flip: m_def)
qed

end
