(* ===== verification/Tree.thy ===== *)
theory Tree
  imports Prelude
begin

text \<open>
  The n-ary tree of \<^verbatim>\<open>src/src/libc/tree.h\<close> and \<^verbatim>\<open>src/src/libc/data_struct/tree.cpp\<close>, which holds
  the mount points and the processes.  Tree nodes live in a heap; the list of children of a
  node is represented by the sequence of the values stored in it, on which \<^verbatim>\<open>list_insert\<close>
  appends, \<^verbatim>\<open>list_find\<close> with \<^verbatim>\<open>list_delete\<close> removes the first occurrence and \<^verbatim>\<open>list_merge\<close>
  concatenates, as the theory of linked lists shows.  \<open>tree_ok\<close> is the well-formedness of a tree
  on a set of nodes, with the node counter equal to its cardinality.
\<close>

record 'v tnode =
  tn_value :: 'v
  tn_children :: "ptr list"
  tn_parent :: ptr

record 'v tree =
  tree_nodes :: u32
  tree_root :: ptr
  tree_heap :: "ptr \<Rightarrow> 'v tnode option"

definition rd_tnode :: "'v tree \<Rightarrow> ptr \<Rightarrow> 'v tnode option" where
  "rd_tnode T p = (if p = NULL then None else tree_heap T p)"

definition wr_tnode :: "ptr \<Rightarrow> ('v tnode \<Rightarrow> 'v tnode) \<Rightarrow> 'v tree \<Rightarrow> 'v tree option" where
  "wr_tnode p f T = do {
     nd \<leftarrow> rd_tnode T p;
     Some (T\<lparr>tree_heap := (tree_heap T)(p := Some (f nd))\<rparr>)
   }"

section \<open>The operations\<close>

definition tree_create :: "(ptr \<Rightarrow> 'v tnode option) \<Rightarrow> 'v tree" where
  "tree_create h = \<lparr>tree_nodes = 0, tree_root = NULL, tree_heap = h\<rparr>"

text \<open>\<open>n\<close> is the node \<^verbatim>\<open>malloc\<close> returned.\<close>

definition tree_node_create :: "ptr \<Rightarrow> 'v \<Rightarrow> 'v tree \<Rightarrow> 'v tree" where
  "tree_node_create n v T = T\<lparr>tree_heap := (tree_heap T)(n := Some
     \<lparr>tn_value = v, tn_children = [], tn_parent = NULL\<rparr>)\<rparr>"

definition tree_set_root :: "ptr \<Rightarrow> 'v \<Rightarrow> 'v tree \<Rightarrow> 'v tree" where
  "tree_set_root n v T = (tree_node_create n v T)\<lparr>tree_root := n, tree_nodes := 1\<rparr>"

text \<open>\<^verbatim>\<open>list_delete(l, list_find(l, v))\<close>: when the value is not found, \<^verbatim>\<open>list_delete\<close> dereferences
  \<^verbatim>\<open>NULL\<close>.\<close>

definition children_delete :: "ptr \<Rightarrow> ptr \<Rightarrow> 'v tree \<Rightarrow> 'v tree option" where
  "children_delete p n T = do {
     nd \<leftarrow> rd_tnode T p;
     if n \<in> set (tn_children nd)
     then wr_tnode p (\<lambda>nd. nd\<lparr>tn_children := remove1 n (tn_children nd)\<rparr>) T else None
   }"

definition tree_node_insert_child_node :: "ptr \<Rightarrow> ptr \<Rightarrow> 'v tree \<Rightarrow> 'v tree option" where
  "tree_node_insert_child_node p n T = do {
     T \<leftarrow> wr_tnode p (\<lambda>nd. nd\<lparr>tn_children := tn_children nd @ [n]\<rparr>) T;
     T \<leftarrow> wr_tnode n (\<lambda>nd. nd\<lparr>tn_parent := p\<rparr>) T;
     Some (T\<lparr>tree_nodes := tree_nodes T + 1\<rparr>)
   }"

definition tree_node_insert_child :: "ptr \<Rightarrow> ptr \<Rightarrow> 'v \<Rightarrow> 'v tree \<Rightarrow> (ptr \<times> 'v tree) option" where
  "tree_node_insert_child n p v T = do {
     T \<leftarrow> tree_node_insert_child_node p n (tree_node_create n v T);
     Some (n, T)
   }"

text \<open>
  The recursive functions visit the children in order; their first argument is the rest of
  the list a \<^verbatim>\<open>foreach\<close> has to visit.  They do not return on a cyclic structure.
\<close>

partial_function (option) destroy_values :: "'v tree \<Rightarrow> ptr list \<Rightarrow> 'v list option" where
  "destroy_values T ps = (case ps of [] \<Rightarrow> Some []
   | p # ps \<Rightarrow> do {
       nd \<leftarrow> rd_tnode T p;
       vs \<leftarrow> destroy_values T (tn_children nd);
       ws \<leftarrow> destroy_values T ps;
       Some (vs @ tn_value nd # ws) })"

definition tree_node_destroy :: "ptr \<Rightarrow> 'v tree \<Rightarrow> 'v list option" where
  "tree_node_destroy p T = destroy_values T [p]"

definition tree_destroy :: "'v tree \<Rightarrow> 'v list option" where
  "tree_destroy T = (if tree_root T \<noteq> NULL then tree_node_destroy (tree_root T) T else Some [])"

partial_function (option) free_nodes :: "ptr list \<Rightarrow> 'v tree \<Rightarrow> 'v tree option" where
  "free_nodes ps T = (case ps of [] \<Rightarrow> Some T
   | p # ps \<Rightarrow> if p = NULL then free_nodes ps T else do {
       nd \<leftarrow> rd_tnode T p;
       T \<leftarrow> free_nodes (tn_children nd) T;
       free_nodes ps (T\<lparr>tree_heap := (tree_heap T)(p := None)\<rparr>) })"

definition tree_node_free :: "ptr \<Rightarrow> 'v tree \<Rightarrow> 'v tree option" where
  "tree_node_free p T = free_nodes [p] T"

definition tree_free :: "'v tree \<Rightarrow> 'v tree option" where
  "tree_free T = tree_node_free (tree_root T) T"

partial_function (option) find_parent_in :: "'v tree \<Rightarrow> ptr \<Rightarrow> ptr list \<Rightarrow> ptr \<Rightarrow> ptr option" where
  "find_parent_in T haystack ps needle = (case ps of [] \<Rightarrow> Some NULL
   | p # ps \<Rightarrow> if p = needle then Some haystack else do {
       nd \<leftarrow> rd_tnode T p;
       found \<leftarrow> find_parent_in T p (tn_children nd) needle;
       if found \<noteq> NULL then Some found else find_parent_in T haystack ps needle })"

definition tree_node_find_parent :: "ptr \<Rightarrow> ptr \<Rightarrow> 'v tree \<Rightarrow> ptr option" where
  "tree_node_find_parent haystack needle T = do {
     nd \<leftarrow> rd_tnode T haystack;
     find_parent_in T haystack (tn_children nd) needle
   }"

definition tree_find_parent :: "ptr \<Rightarrow> 'v tree \<Rightarrow> ptr option" where
  "tree_find_parent n T = (if tree_root T = NULL then Some NULL
     else tree_node_find_parent (tree_root T) n T)"

partial_function (option) count_children :: "'v tree \<Rightarrow> ptr list \<Rightarrow> u32 option" where
  "count_children T ps = (case ps of [] \<Rightarrow> Some 0
   | p # ps \<Rightarrow> if p = NULL then count_children T ps else do {
       nd \<leftarrow> rd_tnode T p;
       below \<leftarrow> count_children T (tn_children nd);
       rest \<leftarrow> count_children T ps;
       Some (of_nat (length (tn_children nd)) + below + rest) })"

definition tree_count_children :: "ptr \<Rightarrow> 'v tree \<Rightarrow> u32 option" where
  "tree_count_children p T = count_children T [p]"

definition tree_node_parent_remove :: "ptr \<Rightarrow> ptr \<Rightarrow> 'v tree \<Rightarrow> 'v tree option" where
  "tree_node_parent_remove p n T = do {
     c \<leftarrow> tree_count_children n T;
     let T = T\<lparr>tree_nodes := tree_nodes T - (c + 1)\<rparr>;
     T \<leftarrow> children_delete p n T;
     tree_node_free n T
   }"

definition tree_node_remove :: "ptr \<Rightarrow> 'v tree \<Rightarrow> 'v tree option" where
  "tree_node_remove n T = do {
     nd \<leftarrow> rd_tnode T n;
     T \<leftarrow> (if tn_parent nd = NULL \<and> n = tree_root T
           then tree_node_free n (T\<lparr>tree_nodes := 0, tree_root := NULL\<rparr>) else Some T);
     tree_node_parent_remove (tn_parent nd) n T
   }"

fun set_parents :: "ptr \<Rightarrow> ptr list \<Rightarrow> 'v tree \<Rightarrow> 'v tree option" where
  "set_parents q [] T = Some T"
| "set_parents q (c # cs) T = do { T \<leftarrow> wr_tnode c (\<lambda>nd. nd\<lparr>tn_parent := q\<rparr>) T; set_parents q cs T }"

text \<open>The common part of \<^verbatim>\<open>tree_remove\<close> and \<^verbatim>\<open>tree_remove_reparent_root\<close>: the children of \<open>n\<close> go to
  \<open>q\<close>, which is the parent or the root.\<close>

definition remove_reparent :: "ptr \<Rightarrow> ptr \<Rightarrow> ptr \<Rightarrow> 'v tree \<Rightarrow> 'v tree option" where
  "remove_reparent q p n T = do {
     let T = T\<lparr>tree_nodes := tree_nodes T - 1\<rparr>;
     T \<leftarrow> children_delete p n T;
     nd \<leftarrow> rd_tnode T n;
     T \<leftarrow> set_parents q (tn_children nd) T;
     T \<leftarrow> wr_tnode q (\<lambda>qd. qd\<lparr>tn_children := tn_children qd @ tn_children nd\<rparr>) T;
     Some (T\<lparr>tree_heap := (tree_heap T)(n := None)\<rparr>)
   }"

definition tree_remove :: "ptr \<Rightarrow> 'v tree \<Rightarrow> 'v tree option" where
  "tree_remove n T = do {
     nd \<leftarrow> rd_tnode T n;
     if tn_parent nd = NULL then Some T else remove_reparent (tn_parent nd) (tn_parent nd) n T
   }"

definition tree_remove_reparent_root :: "ptr \<Rightarrow> 'v tree \<Rightarrow> 'v tree option" where
  "tree_remove_reparent_root n T = do {
     nd \<leftarrow> rd_tnode T n;
     if tn_parent nd = NULL then Some T else remove_reparent (tree_root T) (tn_parent nd) n T
   }"

definition tree_break_off :: "ptr \<Rightarrow> 'v tree \<Rightarrow> 'v tree option" where
  "tree_break_off n T = do {
     nd \<leftarrow> rd_tnode T n;
     if tn_parent nd = NULL then Some T else children_delete (tn_parent nd) n T
   }"

partial_function (option) find_in :: "'v tree \<Rightarrow> ('v \<Rightarrow> bool) \<Rightarrow> ptr list \<Rightarrow> ptr option" where
  "find_in T comparator ps = (case ps of [] \<Rightarrow> Some NULL
   | p # ps \<Rightarrow> do {
       nd \<leftarrow> rd_tnode T p;
       if comparator (tn_value nd) then Some p else do {
         found \<leftarrow> find_in T comparator (tn_children nd);
         if found \<noteq> NULL then Some found else find_in T comparator ps } })"

definition tree_find :: "('v \<Rightarrow> bool) \<Rightarrow> 'v tree \<Rightarrow> ptr option" where
  "tree_find comparator T = find_in T comparator [tree_root T]"

section \<open>Well-formed trees\<close>

text \<open>Of a node of the tree: its value, its children and its parent.\<close>

definition kids :: "'v tree \<Rightarrow> ptr \<Rightarrow> ptr list" where
  "kids T n = (case tree_heap T n of None \<Rightarrow> [] | Some nd \<Rightarrow> tn_children nd)"

definition parent_of :: "'v tree \<Rightarrow> ptr \<Rightarrow> ptr" where
  "parent_of T n = (case tree_heap T n of None \<Rightarrow> NULL | Some nd \<Rightarrow> tn_parent nd)"

text \<open>\<open>rank\<close> decreases from a node to its parent: there is no cycle and every node leads to the
  root.\<close>

definition tree_shape :: "'v tree \<Rightarrow> ptr set \<Rightarrow> (ptr \<Rightarrow> nat) \<Rightarrow> bool" where
  "tree_shape T N rank \<longleftrightarrow> NULL \<notin> N \<and> tree_root T \<in> N \<and> parent_of T (tree_root T) = NULL \<and>
     (\<forall>n \<in> N. tree_heap T n \<noteq> None \<and> distinct (kids T n) \<and>
        (\<forall>c \<in> set (kids T n). c \<in> N \<and> parent_of T c = n) \<and>
        (n \<noteq> tree_root T \<longrightarrow> parent_of T n \<in> N \<and> n \<in> set (kids T (parent_of T n)) \<and>
           rank (parent_of T n) < rank n))"

definition tree_ok :: "'v tree \<Rightarrow> ptr set \<Rightarrow> bool" where
  "tree_ok T N \<longleftrightarrow> tree_nodes T = of_nat (card N) \<and> (\<exists>rank. tree_shape T N rank)"

lemma finite_ptrs [simp]: "finite (N :: ptr set)"
  by simp

lemma tree_shape_rd: "tree_shape T N rank \<Longrightarrow> n \<in> N \<Longrightarrow>
    \<exists>nd. rd_tnode T n = Some nd \<and> tn_children nd = kids T n \<and> tn_parent nd = parent_of T n"
  by (auto simp: tree_shape_def rd_tnode_def kids_def parent_of_def)

lemma tree_shape_root_rank:
  assumes "tree_shape T N rank" and "n \<in> N" and "n \<noteq> tree_root T"
  shows "rank (tree_root T) < rank n"
  using assms(2,3)
proof (induction "rank n" arbitrary: n rule: less_induct)
  case less
  then have p: "parent_of T n \<in> N" "rank (parent_of T n) < rank n"
    using assms(1) by (auto simp: tree_shape_def)
  with less.hyps [of "parent_of T n"] show ?case by (cases "parent_of T n = tree_root T") auto
qed

lemma tree_set_root_ok:
  "n \<noteq> NULL \<Longrightarrow> tree_ok (tree_set_root n v T) {n}"
  by (auto simp: tree_ok_def tree_shape_def tree_set_root_def tree_node_create_def kids_def parent_of_def)

lemma tree_insert_ok:
  assumes "tree_ok T N" and "p \<in> N" and "n \<notin> N" and "n \<noteq> NULL"
  shows "\<exists>T'. tree_node_insert_child n p v T = Some (n, T') \<and> tree_ok T' (insert n N) \<and>
     kids T' p = kids T p @ [n] \<and> parent_of T' n = p \<and> kids T' n = [] \<and>
     (\<forall>m. m \<noteq> p \<longrightarrow> m \<noteq> n \<longrightarrow> tree_heap T' m = tree_heap T m)"
proof -
  from assms(1) obtain rank where s: "tree_shape T N rank" and c: "tree_nodes T = of_nat (card N)"
    by (auto simp: tree_ok_def)
  obtain pd where pd: "tree_heap T p = Some pd" "p \<noteq> NULL"
    using s assms(2) by (auto simp: tree_shape_def)
  have np: "n \<noteq> p" using assms(2,3) by auto
  define T' where "T' = T\<lparr>tree_nodes := tree_nodes T + 1, tree_heap := (tree_heap T)
    (n := Some \<lparr>tn_value = v, tn_children = [], tn_parent = p\<rparr>, p := Some (pd\<lparr>tn_children := tn_children pd @ [n]\<rparr>))\<rparr>"
  have run: "tree_node_insert_child n p v T = Some (n, T')"
    using pd np assms(4) unfolding T'_def
    by (auto simp: tree_node_insert_child_def tree_node_insert_child_node_def tree_node_create_def
        wr_tnode_def rd_tnode_def fun_upd_twist)
  have k: "kids T' m = (if m = p then kids T p @ [n] else if m = n then [] else kids T m)"
    and q: "parent_of T' m = (if m = n then p else parent_of T m)"
    and ne: "tree_heap T' m \<noteq> None \<longleftrightarrow> m = n \<or> m = p \<or> tree_heap T m \<noteq> None" for m
    using pd np by (auto simp: kids_def parent_of_def T'_def)
  have root: "tree_root T' = tree_root T" and nodes: "tree_nodes T' = tree_nodes T + 1"
    and same: "m \<noteq> p \<Longrightarrow> m \<noteq> n \<Longrightarrow> tree_heap T' m = tree_heap T m" for m
    by (simp_all add: T'_def)
  have fresh: "n \<notin> set (kids T m)" if "m \<in> N" for m
    using s that assms(3) by (auto simp: tree_shape_def)
  have r: "tree_root T \<in> N" "tree_root T \<noteq> n" using s assms(3) by (auto simp: tree_shape_def)
  have "tree_shape T' (insert n N) (rank(n := Suc (rank p)))"
    unfolding tree_shape_def root ne
  proof (intro conjI ballI)
    fix m assume m: "m \<in> insert n N"
    show "distinct (kids T' m)"
      using s m np fresh [of m] fresh [OF assms(2)] by (auto simp: k tree_shape_def)
    show "m = n \<or> m = p \<or> tree_heap T m \<noteq> None" using s m by (auto simp: tree_shape_def)
    show "c \<in> insert n N" "parent_of T' c = m" if "c \<in> set (kids T' m)" for c
      using s m that fresh [of m] assms(2) by (auto simp: k q tree_shape_def split: if_splits)
    show "m \<noteq> tree_root T \<longrightarrow> parent_of T' m \<in> insert n N \<and> m \<in> set (kids T' (parent_of T' m)) \<and>
        (rank(n := Suc (rank p))) (parent_of T' m) < (rank(n := Suc (rank p))) m"
    proof
      assume "m \<noteq> tree_root T"
      show "parent_of T' m \<in> insert n N \<and> m \<in> set (kids T' (parent_of T' m)) \<and>
        (rank(n := Suc (rank p))) (parent_of T' m) < (rank(n := Suc (rank p))) m"
      proof (cases "m = n")
        case True
        with np assms(2) show ?thesis by (simp add: k q)
      next
        case False
        with m \<open>m \<noteq> tree_root T\<close> s have "parent_of T m \<in> N" "m \<in> set (kids T (parent_of T m))"
          "rank (parent_of T m) < rank m" by (auto simp: tree_shape_def)
        moreover from this(1) assms(3) have "parent_of T m \<noteq> n" by auto
        ultimately show ?thesis using False by (auto simp: k q)
      qed
    qed
  qed (use s r assms(4) in \<open>auto simp: q tree_shape_def\<close>)
  moreover have "tree_nodes T' = of_nat (card (insert n N))"
    using c nodes assms(3) by simp
  ultimately show ?thesis
    using run np same by (auto simp: tree_ok_def k q)
qed

lemma set_parents_eq:
  "(\<forall>c \<in> set cs. c \<noteq> NULL \<and> tree_heap T c \<noteq> None) \<Longrightarrow> set_parents q cs T = Some (T\<lparr>tree_heap := (\<lambda>m.
     if m \<in> set cs then map_option (\<lambda>nd. nd\<lparr>tn_parent := q\<rparr>) (tree_heap T m) else tree_heap T m)\<rparr>)"
proof (induction cs arbitrary: T)
  case (Cons c cs)
  then obtain nd where nd: "tree_heap T c = Some nd" "c \<noteq> NULL" by auto
  let ?T = "T\<lparr>tree_heap := (tree_heap T)(c := Some (nd\<lparr>tn_parent := q\<rparr>))\<rparr>"
  have "set_parents q cs ?T = Some (?T\<lparr>tree_heap := (\<lambda>m.
     if m \<in> set cs then map_option (\<lambda>nd. nd\<lparr>tn_parent := q\<rparr>) (tree_heap ?T m) else tree_heap ?T m)\<rparr>)"
    using Cons.prems nd by (intro Cons.IH) auto
  with nd show ?case
    by (auto simp: wr_tnode_def rd_tnode_def intro!: tree.equality)
qed simp

lemma children_delete_eq:
  assumes "tree_heap T p = Some pd" and "p \<noteq> NULL" and "n \<in> set (tn_children pd)"
  shows "children_delete p n T = Some (T\<lparr>tree_heap := (tree_heap T)(p := Some
     (pd\<lparr>tn_children := remove1 n (tn_children pd)\<rparr>))\<rparr>)"
  using assms by (simp add: children_delete_def wr_tnode_def rd_tnode_def)

lemma remove_reparent_run:
  assumes s: "tree_shape T N rank" and n: "n \<in> N" "n \<noteq> tree_root T" and p: "p = parent_of T n"
    and q: "q = p \<or> q = tree_root T"
  shows "\<exists>T'. remove_reparent q p n T = Some T' \<and> tree_nodes T' = tree_nodes T - 1 \<and>
     tree_root T' = tree_root T \<and> (\<forall>m. tree_heap T' m \<noteq> None \<longleftrightarrow> m \<noteq> n \<and> tree_heap T m \<noteq> None) \<and>
     (\<forall>m. kids T' m = (if m = n then [] else
        (if m = p then remove1 n (kids T p) else kids T m) @ (if m = q then kids T n else []))) \<and>
     (\<forall>m. parent_of T' m = (if m = n then NULL else if m \<in> set (kids T n) then q else parent_of T m))"
proof -
  from s n p have pN: "p \<in> N" "n \<in> set (kids T p)" "rank p < rank n" "tree_heap T n \<noteq> None"
    by (auto simp: tree_shape_def)
  moreover from this(1) s have "tree_heap T p \<noteq> None" by (auto simp: tree_shape_def)
  ultimately obtain pd nd where pd: "tree_heap T p = Some pd" "p \<in> N" "n \<in> set (tn_children pd)"
    and nd: "tree_heap T n = Some nd" and rk: "rank p < rank n"
    by (auto simp: kids_def)
  have N: "p \<noteq> NULL" "n \<noteq> NULL" using s pd(2) n by (auto simp: tree_shape_def)
  have np: "n \<noteq> p" using rk by auto
  have qN: "q \<in> N" "q \<noteq> n" "q \<noteq> NULL" using q s n pd(2) np N by (auto simp: tree_shape_def)
  obtain qd where qd: "tree_heap T q = Some qd" using qN s by (auto simp: tree_shape_def)
  have ch: "\<forall>c \<in> set (kids T n). c \<in> N \<and> parent_of T c = n" using s n by (auto simp: tree_shape_def)
  have notch: "p \<notin> set (kids T n)" "n \<notin> set (kids T n)" "q \<notin> set (kids T n)"
  proof -
    have "rank n < rank c" if "c \<in> set (kids T n)" for c
    proof -
      have "c \<noteq> tree_root T" using ch that s N by (auto simp: tree_shape_def)
      with that ch s show ?thesis by (fastforce simp: tree_shape_def)
    qed
    moreover have "rank q < rank n" using q rk tree_shape_root_rank [OF s n] by auto
    ultimately show "p \<notin> set (kids T n)" "n \<notin> set (kids T n)" "q \<notin> set (kids T n)"
      using rk by (meson less_asym less_irrefl)+
  qed
  define T1 where "T1 = T\<lparr>tree_nodes := tree_nodes T - 1, tree_heap := (tree_heap T)(p := Some
     (pd\<lparr>tn_children := remove1 n (tn_children pd)\<rparr>))\<rparr>"
  have cd: "children_delete p n (T\<lparr>tree_nodes := tree_nodes T - 1\<rparr>) = Some T1"
    using pd N by (simp add: children_delete_eq [of _ p pd n] T1_def)
  have kn: "tn_children nd = kids T n" using nd by (simp add: kids_def)
  define T2 where "T2 = T1\<lparr>tree_heap := (\<lambda>m. if m \<in> set (kids T n)
     then map_option (\<lambda>nd. nd\<lparr>tn_parent := q\<rparr>) (tree_heap T1 m) else tree_heap T1 m)\<rparr>"
  have "\<forall>c \<in> set (kids T n). c \<noteq> NULL \<and> tree_heap T1 c \<noteq> None"
    using ch s notch by (auto simp: T1_def tree_shape_def)
  then have sp: "set_parents q (kids T n) T1 = Some T2"
    by (simp add: set_parents_eq T2_def)
  have k1: "kids T1 m = (if m = p then remove1 n (kids T p) else kids T m)"
    and p1: "parent_of T1 m = parent_of T m"
    and n1: "tree_heap T1 m = None \<longleftrightarrow> tree_heap T m = None" for m
    using pd(1) by (simp_all add: T1_def kids_def parent_of_def)
  have k2: "kids T2 m = kids T1 m"
    and n2: "tree_heap T2 m = None \<longleftrightarrow> tree_heap T1 m = None" for m
    by (cases "tree_heap T1 m"; simp add: T2_def kids_def)+
  have p2: "parent_of T2 m = (if m \<in> set (kids T n) then q else parent_of T m)" for m
  proof (cases "m \<in> set (kids T n)")
    case True
    then have "tree_heap T m \<noteq> None" using ch s by (auto simp: tree_shape_def)
    then obtain md where "tree_heap T1 m = Some md" using n1 [of m] by (cases "tree_heap T1 m") auto
    with True show ?thesis by (simp add: T2_def parent_of_def)
  next
    case False
    then have "tree_heap T2 m = tree_heap T1 m" by (simp add: T2_def)
    with False p1 [of m] show ?thesis by (simp add: parent_of_def)
  qed
  have "tree_heap T2 q \<noteq> None" using n2 n1 qd by simp
  then obtain qd2 where qd2: "tree_heap T2 q = Some qd2" by blast
  then have qk: "tn_children qd2 = kids T2 q" "tn_parent qd2 = parent_of T2 q"
    by (simp_all add: kids_def parent_of_def)
  define T3 where "T3 = T2\<lparr>tree_heap := (tree_heap T2)(q := Some (qd2\<lparr>tn_children := tn_children qd2 @ kids T n\<rparr>), n := None)\<rparr>"
  have rd: "rd_tnode T1 n = Some nd" using nd np N by (simp add: rd_tnode_def T1_def)
  have wr: "wr_tnode q (\<lambda>qd. qd\<lparr>tn_children := tn_children qd @ kids T n\<rparr>) T2 =
      Some (T2\<lparr>tree_heap := (tree_heap T2)(q \<mapsto> qd2\<lparr>tn_children := tn_children qd2 @ kids T n\<rparr>)\<rparr>)"
    using qd2 qN by (simp add: wr_tnode_def rd_tnode_def)
  have "remove_reparent q p n T = Some T3"
    by (simp add: remove_reparent_def cd rd kn sp wr T3_def)
  moreover have "tree_nodes T3 = tree_nodes T - 1" "tree_root T3 = tree_root T"
    by (simp_all add: T3_def T2_def T1_def)
  moreover have "tree_heap T3 m \<noteq> None \<longleftrightarrow> m \<noteq> n \<and> tree_heap T m \<noteq> None" for m
    using qd2 n2 [of m] n1 [of m] n1 [of q] qd by (simp add: T3_def del: not_None_eq)
  moreover have "kids T3 m = (if m = n then [] else kids T2 m @ (if m = q then kids T n else []))"
    and "parent_of T3 m = (if m = n then NULL else parent_of T2 m)" for m
    using qk by (simp_all add: T3_def kids_def parent_of_def)
  ultimately show ?thesis
    unfolding k2 k1 p2 by blast
qed

lemma remove_reparent_ok:
  assumes "tree_ok T N" and n: "n \<in> N" "n \<noteq> tree_root T" and p: "p = parent_of T n"
    and q: "q = p \<or> q = tree_root T"
  shows "\<exists>T'. remove_reparent q p n T = Some T' \<and> tree_ok T' (N - {n}) \<and>
     kids T' q = (if q = p then remove1 n (kids T q) else kids T q) @ kids T n \<and> tree_heap T' n = None"
proof -
  from assms(1) obtain rank where s: "tree_shape T N rank" and c: "tree_nodes T = of_nat (card N)"
    by (auto simp: tree_ok_def)
  from remove_reparent_run [OF s n p q] obtain T' where run: "remove_reparent q p n T = Some T'"
    and nodes: "tree_nodes T' = tree_nodes T - 1" and root: "tree_root T' = tree_root T"
    and ne: "\<And>m. tree_heap T' m \<noteq> None \<longleftrightarrow> m \<noteq> n \<and> tree_heap T m \<noteq> None"
    and k: "\<And>m. kids T' m = (if m = n then [] else
        (if m = p then remove1 n (kids T p) else kids T m) @ (if m = q then kids T n else []))"
    and pa: "\<And>m. parent_of T' m = (if m = n then NULL else if m \<in> set (kids T n) then q else parent_of T m)"
    by blast
  have N: "NULL \<notin> N" "tree_root T \<in> N" "parent_of T (tree_root T) = NULL"
    and kd: "\<And>m. m \<in> N \<Longrightarrow> distinct (kids T m)"
    and kc: "\<And>m c. m \<in> N \<Longrightarrow> c \<in> set (kids T m) \<Longrightarrow> c \<in> N \<and> parent_of T c = m"
    and up: "\<And>m. m \<in> N \<Longrightarrow> m \<noteq> tree_root T \<Longrightarrow> parent_of T m \<in> N \<and> m \<in> set (kids T (parent_of T m)) \<and>
       rank (parent_of T m) < rank m"
    and he: "\<And>m. m \<in> N \<Longrightarrow> tree_heap T m \<noteq> None"
    using s unfolding tree_shape_def by blast+
  have qn: "q \<in> N" "q \<noteq> n" "rank q < rank n"
    using q p n N(2) up [OF n] tree_shape_root_rank [OF s n] by (metis less_irrefl)+
  have sub: "set (kids T n) \<inter> set (kids T m) = {}" if "m \<in> N" "m \<noteq> n" for m
    using kc [OF n(1)] kc [OF that(1)] that(2) by auto
  have nn: "n \<notin> set (kids T m)" if "m \<in> N" "m \<noteq> p" for m
    using kc [OF that(1)] that(2) p by auto
  have nk: "n \<notin> set (kids T n)" using kc [OF n(1), of n] up [OF n] by auto
  have rootk: "tree_root T \<notin> set (kids T n)" using kc [OF n(1)] N n by auto
  have dp: "n \<notin> set (remove1 n (kids T p))" "distinct (remove1 n (kids T p))"
    using kd up [OF n] p by (simp_all add: set_remove1_eq)
  have "tree_shape T' (N - {n}) rank"
    unfolding tree_shape_def root ne
  proof (intro conjI ballI impI)
    fix m assume m: "m \<in> N - {n}"
    then have m': "m \<in> N" "m \<noteq> n" by auto
    show "m \<noteq> n" "tree_heap T m \<noteq> None" using he m' by auto
    let ?b = "if m = p then remove1 n (kids T p) else kids T m"
    have sets: "set ?b \<subseteq> set (kids T m) - {n}" and db: "distinct ?b"
      using dp nn [OF m'(1)] set_remove1_subset [of n "kids T p"] kd [OF m'(1)] by auto
    have km: "kids T' m = ?b @ (if m = q then kids T n else [])"
      using m'(2) by (simp only: k if_False)
    have "set ?b \<inter> set (kids T n) = {}" using sets sub [OF m'] by blast
    then show "distinct (kids T' m)"
      unfolding km distinct_append using db kd [OF n(1)] by (cases "m = q") (simp_all only: if_True if_False list.set distinct.simps Int_empty_right simp_thms)
    show "c \<in> N - {n}" "parent_of T' c = m" if "c \<in> set (kids T' m)" for c
    proof -
      have "c \<in> set (kids T m) - {n} \<or> m = q \<and> c \<in> set (kids T n)"
        using that sets unfolding km set_append by (cases "m = q") auto
      then have "c \<in> N - {n} \<and> parent_of T' c = m"
      proof (elim disjE)
        assume c: "c \<in> set (kids T m) - {n}"
        then have "c \<notin> set (kids T n)" using sub [OF m'] by blast
        with c kc [OF m'(1), of c] show ?thesis by (simp add: pa)
      next
        assume c: "m = q \<and> c \<in> set (kids T n)"
        then have "c \<noteq> n" using nk by blast
        with c kc [OF n(1), of c] show ?thesis by (simp add: pa)
      qed
      then show "c \<in> N - {n}" "parent_of T' c = m" by blast+
    qed
    assume mr: "m \<noteq> tree_root T"
    note u = up [OF m'(1) mr]
    have pn: "parent_of T m = n \<longleftrightarrow> m \<in> set (kids T n)" using u kc [OF n(1)] by auto
    have r1: "m \<in> set (remove1 n (kids T p))" if "m \<in> set (kids T p)"
      using that m' by simp
    show "parent_of T' m \<in> N - {n}" "rank (parent_of T' m) < rank m"
      "m \<in> set (kids T' (parent_of T' m))"
    proof -
      consider "m \<in> set (kids T n)" "parent_of T m = n" "parent_of T' m = q"
        | "m \<notin> set (kids T n)" "parent_of T m \<noteq> n" "parent_of T' m = parent_of T m"
        using pn m'(2) pa [of m] by (cases "m \<in> set (kids T n)") simp_all
      then have "parent_of T' m \<in> N - {n} \<and> rank (parent_of T' m) < rank m \<and>
          m \<in> set (kids T' (parent_of T' m))"
      proof cases
        case 1
        with qn(2) have "m \<in> set (kids T' q)" by (simp add: k)
        with 1 qn u show ?thesis by simp
      next
        case 2
        have "m \<in> set (kids T' (parent_of T m))"
          using 2 u r1 by (cases "parent_of T m = p") (simp_all add: k)
        with 2 u show ?thesis by simp
      qed
      then show "parent_of T' m \<in> N - {n}" "rank (parent_of T' m) < rank m"
        "m \<in> set (kids T' (parent_of T' m))" by blast+
    qed
  qed (use N n rootk in \<open>auto simp: pa\<close>)
  moreover have "tree_nodes T' = of_nat (card (N - {n}))"
  proof -
    have "card N = Suc (card (N - {n}))" by (rule card.remove [OF finite_ptrs n(1)])
    then show ?thesis by (simp add: nodes c)
  qed
  ultimately have "tree_ok T' (N - {n})" unfolding tree_ok_def by blast
  moreover have "kids T' q = (if q = p then remove1 n (kids T q) else kids T q) @ kids T n"
    using qn(2) by (simp only: k if_False if_True simp_thms) (simp split: if_splits)
  moreover have "tree_heap T' n = None" using ne [of n] by simp
  ultimately show ?thesis using run by blast
qed

lemma tree_ok_rd:
  assumes "tree_ok T N" and "n \<in> N"
  obtains nd where "rd_tnode T n = Some nd" "tn_parent nd = parent_of T n" "tn_children nd = kids T n"
  using assms tree_shape_rd by (metis tree_ok_def)

lemma tree_ok_parent:
  "tree_ok T N \<Longrightarrow> n \<in> N \<Longrightarrow> parent_of T n = NULL \<longleftrightarrow> n = tree_root T"
  by (auto simp: tree_ok_def tree_shape_def)

lemma tree_remove_ok:
  assumes "tree_ok T N" and "n \<in> N" and "n \<noteq> tree_root T"
  shows "\<exists>T'. tree_remove n T = Some T' \<and> tree_ok T' (N - {n}) \<and> tree_heap T' n = None \<and>
     kids T' (parent_of T n) = remove1 n (kids T (parent_of T n)) @ kids T n"
proof -
  obtain nd where nd: "rd_tnode T n = Some nd" "tn_parent nd = parent_of T n"
    using tree_ok_rd [OF assms(1,2)] by blast
  have ne: "parent_of T n \<noteq> NULL" using tree_ok_parent [OF assms(1,2)] assms(3) by simp
  obtain T' where "remove_reparent (parent_of T n) (parent_of T n) n T = Some T'" "tree_ok T' (N - {n})"
    "kids T' (parent_of T n) = remove1 n (kids T (parent_of T n)) @ kids T n" "tree_heap T' n = None"
    using remove_reparent_ok [OF assms refl, of "parent_of T n"] by auto
  with nd ne show ?thesis by (simp add: tree_remove_def)
qed

lemma tree_remove_reparent_root_ok:
  assumes "tree_ok T N" and "n \<in> N" and "n \<noteq> tree_root T"
  shows "\<exists>T'. tree_remove_reparent_root n T = Some T' \<and> tree_ok T' (N - {n}) \<and> tree_heap T' n = None \<and>
     set (kids T' (tree_root T)) = set (kids T (tree_root T)) - {n} \<union> set (kids T n)"
proof -
  obtain nd where nd: "rd_tnode T n = Some nd" "tn_parent nd = parent_of T n"
    using tree_ok_rd [OF assms(1,2)] by blast
  have ne: "parent_of T n \<noteq> NULL" using tree_ok_parent [OF assms(1,2)] assms(3) by simp
  obtain T' where T': "remove_reparent (tree_root T) (parent_of T n) n T = Some T'" "tree_ok T' (N - {n})"
    "kids T' (tree_root T) = (if tree_root T = parent_of T n then remove1 n (kids T (tree_root T))
       else kids T (tree_root T)) @ kids T n" "tree_heap T' n = None"
    using remove_reparent_ok [OF assms refl, of "tree_root T"] by auto
  have "distinct (kids T (tree_root T))" "n \<in> set (kids T (tree_root T)) \<longleftrightarrow> tree_root T = parent_of T n"
    using assms by (auto simp: tree_ok_def tree_shape_def)
  with T' nd ne show ?thesis
    by (auto simp: tree_remove_reparent_root_def set_remove1_eq)
qed

text \<open>
  \<^verbatim>\<open>tree_node_remove\<close> on a node without a parent goes on after freeing it: the nodes are counted
  through the freed node, and its parent is \<^verbatim>\<open>NULL\<close>.
\<close>

lemma free_single:
  "tree_node_free n T = Some T' \<Longrightarrow> n \<noteq> NULL \<Longrightarrow> tree_heap T' n = None"
  by (auto simp: tree_node_free_def free_nodes.simps [of "[n]"] free_nodes.simps [of "[]"]
      bind_eq_Some_iff)

lemma tree_node_remove_root:
  assumes "tree_ok T N" and "n = tree_root T"
  shows "tree_node_remove n T = None"
proof -
  have n: "n \<in> N" "n \<noteq> NULL" using assms by (auto simp: tree_ok_def tree_shape_def)
  obtain nd where nd: "rd_tnode T n = Some nd" "tn_parent nd = NULL"
    using tree_ok_rd [OF assms(1) n(1)] tree_ok_parent [OF assms(1) n(1)] assms(2) by metis
  have "tree_node_parent_remove NULL n T' = None" if "tree_heap T' n = None" for T'
    using that n(2) by (simp add: tree_node_parent_remove_def tree_count_children_def
        count_children.simps [of _ "[n]"] rd_tnode_def)
  then show ?thesis
    using nd assms(2) n(2) free_single [of n "T\<lparr>tree_nodes := 0, tree_root := NULL\<rparr>"]
    by (cases "tree_node_free n (T\<lparr>tree_nodes := 0, tree_root := NULL\<rparr>)")
      (auto simp: tree_node_remove_def)
qed

lemma tree_remove_root:
  assumes "tree_ok T N" and "n = tree_root T"
  shows "tree_remove n T = Some T"
proof -
  have n: "n \<in> N" "n \<noteq> NULL" using assms by (auto simp: tree_ok_def tree_shape_def)
  then obtain nd where "rd_tnode T n = Some nd" "tn_parent nd = NULL"
    using tree_ok_rd [OF assms(1) n(1)] tree_ok_parent [OF assms(1) n(1)] assms(2) by metis
  then show ?thesis by (simp add: tree_remove_def)
qed

lemma tree_break_off_keeps_count:
  "tree_break_off n T = Some T' \<Longrightarrow> tree_nodes T' = tree_nodes T"
  by (auto simp: tree_break_off_def children_delete_def wr_tnode_def bind_eq_Some_iff split: if_splits)

end
