(* ===== verification/Path.thy ===== *)
theory Path
  imports C_String
begin

text \<open>
  Path names of \<^verbatim>\<open>src/src/vfs.cpp\<close>: \<^verbatim>\<open>canonicalize_path\<close> with its stack of path elements, and
  the string part of \<^verbatim>\<open>get_parent\<close>.  46 is the dot and 47 the path separator.
\<close>

section \<open>The code\<close>

text \<open>One turn of the loop over the elements of the new path; the list \<^verbatim>\<open>out\<close> is used as a
  stack, and \<^verbatim>\<open>list_pop\<close> on the empty list has no effect.\<close>

definition push_element :: "cstring list \<Rightarrow> cstring \<Rightarrow> cstring list" where
  "push_element out pch =
     (if strcmp pch [46, 46] = 0 then butlast out
      else if strcmp pch [46] = 0 then out
      else out @ [pch])"

definition path_size :: "cstring list \<Rightarrow> nat" where
  "path_size out = foldl (\<lambda>n s. n + length s + 1) 0 out"

definition join_path :: "cstring list \<Rightarrow> cstring" where
  "join_path out = concat (map (\<lambda>s. 47 # s) out)"

definition canonicalize_path :: "cstring \<Rightarrow> cstring \<Rightarrow> cstring" where
  "canonicalize_path cwd input =
     (let out = (if input \<noteq> [] \<and> at input \<noteq> 47 then tokenize cwd [47] else []);
          out = foldl push_element out (tokenize input [47])
      in if path_size out = 0 then [47] else join_path out)"

text \<open>
  \<^verbatim>\<open>get_parent\<close>: the path handed to \<^verbatim>\<open>kopen\<close>, and the position of the last element, found by a
  scan from the last character back to the first one.
\<close>

fun scan_back :: "cstring \<Rightarrow> nat \<Rightarrow> nat" where
  "scan_back path 0 = 0"
| "scan_back path (Suc i) = (if path ! Suc i = 47 then Suc (Suc i) else scan_back path i)"

definition last_element :: "cstring \<Rightarrow> cstring option" where
  "last_element path = (if path = [] then None else
     (let f = drop (scan_back path (length path - 1)) path in
      Some (if at f = 47 then tl f else f)))"

definition parent_path :: "cstring \<Rightarrow> cstring" where
  "parent_path path = path @ [47, 46, 46]"

section \<open>Elements\<close>

lemma word_runs_app:
  "P d \<Longrightarrow> word_runs P (a @ d # b) = word_runs P a @ word_runs P b"
proof (induction P a rule: word_runs.induct)
  case (1 P a)
  show ?case
  proof (cases "dropWhile P a")
    case Nil
    then have all: "\<forall>x \<in> set a. P x" by (simp only: dropWhile_eq_Nil_conv)
    then have "dropWhile P (a @ d # b) = dropWhile P b" using "1.prems" by simp
    then have "word_runs P (a @ d # b) = word_runs P b"
      unfolding word_runs.simps [of P "a @ d # b"] word_runs.simps [of P b] by (simp only:)
    moreover have "word_runs P a = []" unfolding word_runs.simps [of P a] Nil by (simp only: list.case)
    ultimately show ?thesis by (simp only: append_Nil)
  next
    case (Cons c s')
    have ex: "\<exists>x \<in> set a. \<not> P x"
      using Cons by (metis dropWhile_eq_Nil_conv list.distinct(1))
    then have a: "dropWhile P (a @ d # b) = c # (s' @ d # b)"
      using Cons by (metis append_Cons dropWhile_append1)
    let ?n = "\<lambda>x. \<not> P x"
    have t: "takeWhile ?n (s' @ d # b) = takeWhile ?n s'"
      using "1.prems" by (induction s') auto
    have dr: "word_runs P (dropWhile ?n (s' @ d # b)) = word_runs P (dropWhile ?n s') @ word_runs P b"
    proof (cases "dropWhile ?n s' = []")
      case True
      then have all: "\<forall>x \<in> set s'. ?n x" by (simp only: dropWhile_eq_Nil_conv)
      then have "dropWhile ?n (s' @ d # b) = d # b" using "1.prems" by (induction s') auto
      with "1.prems" True show ?thesis
        by (simp only: word_runs_skip) (simp add: word_runs.simps [of P "[]"])
    next
      case False
      then have "\<exists>x \<in> set s'. \<not> ?n x" using dropWhile_eq_Nil_conv [of ?n s'] by blast
      then have "dropWhile ?n (s' @ d # b) = dropWhile ?n s' @ d # b"
        by (metis dropWhile_append1)
      then show ?thesis using "1.IH" [OF Cons "1.prems"] by (simp only:)
    qed
    have "word_runs P (a @ d # b) = (c # takeWhile ?n s') # word_runs P (dropWhile ?n (s' @ d # b))"
      unfolding word_runs.simps [of P "a @ d # b"] a list.case t ..
    moreover have "word_runs P a = (c # takeWhile ?n s') # word_runs P (dropWhile ?n s')"
      unfolding word_runs.simps [of P a] Cons by (simp only: list.case)
    ultimately show ?thesis unfolding dr by (simp only: append_Cons)
  qed
qed

lemma word_runs_Nil [simp]: "word_runs P [] = []"
  by (simp add: word_runs.simps)

lemma word_runs_single: "s \<noteq> [] \<Longrightarrow> \<forall>x \<in> set s. \<not> P x \<Longrightarrow> word_runs P s = [s]"
proof -
  assume "s \<noteq> []" and all: "\<forall>x \<in> set s. \<not> P x"
  then obtain c t where s: "s = c # t" by (cases s) auto
  with all have d: "dropWhile P s = c # t" and t: "takeWhile (\<lambda>x. \<not> P x) t = t"
    and r: "dropWhile (\<lambda>x. \<not> P x) t = []"
    by (auto simp: takeWhile_eq_all_conv)
  have "word_runs P s = [c # t]"
    unfolding word_runs.simps [of P s] d list.case t r word_runs_Nil ..
  with s show ?thesis by simp
qed

text \<open>The elements of a path, and what a path element may look like.\<close>

definition elements :: "cstring \<Rightarrow> cstring list" where
  "elements s = word_runs (\<lambda>x. x = 47) s"

definition plain_element :: "cstring \<Rightarrow> bool" where
  "plain_element s \<longleftrightarrow> s \<noteq> [] \<and> 47 \<notin> set s \<and> nul_free s"

definition canonical_element :: "cstring \<Rightarrow> bool" where
  "canonical_element s \<longleftrightarrow> plain_element s \<and> s \<noteq> [46] \<and> s \<noteq> [46, 46]"

lemma tokenize_elements: "tokenize s [47] = elements s"
  by (simp add: tokenize_word_runs nul_free_def elements_def)

lemma elements_app: "elements (a @ 47 # b) = elements a @ elements b"
  by (simp add: elements_def word_runs_app)

lemma elements_plain: "nul_free s \<Longrightarrow> t \<in> set (elements s) \<Longrightarrow> plain_element t"
  using word_runs_nonempty [of t "\<lambda>x. x = 47" s] word_runs_subset [of t "\<lambda>x. x = 47" s]
  by (auto simp: elements_def plain_element_def nul_free_def)

lemma elements_Nil [simp]: "elements [] = []"
  by (simp add: elements_def)

lemma elements_slash: "elements (47 # s) = elements s"
  using elements_app [of "[]" s] by simp

lemma elements_single: "plain_element t \<Longrightarrow> elements t = [t]"
  by (auto simp: elements_def plain_element_def intro!: word_runs_single)

lemma elements_join: "\<forall>t \<in> set ts. plain_element t \<Longrightarrow> elements (join_path ts) = ts"
proof (induction ts)
  case (Cons t ts)
  have "elements (t @ join_path ts) = t # elements (join_path ts)"
  proof (cases ts)
    case Nil
    with Cons.prems show ?thesis by (simp add: join_path_def elements_single)
  next
    fix u us assume "ts = u # us"
    then have j: "join_path ts = 47 # (u @ join_path us)" by (simp add: join_path_def)
    show ?thesis
      unfolding j elements_app elements_slash using Cons.prems by (simp add: elements_single)
  qed
  with Cons show ?case by (simp add: join_path_def elements_slash)
qed (simp add: join_path_def)

section \<open>What canonicalize_path computes\<close>

text \<open>The walk of a path from a directory, both as lists of elements.\<close>

fun walk_path :: "cstring list \<Rightarrow> cstring list \<Rightarrow> cstring list" where
  "walk_path ds [] = ds"
| "walk_path ds (e # es) = walk_path
     (if e = [46, 46] then butlast ds else if e = [46] then ds else ds @ [e]) es"

lemma walk_path_app: "walk_path ds (es @ fs) = walk_path (walk_path ds es) fs"
  by (induction es arbitrary: ds) auto

lemma walk_path_fold:
  "\<forall>e \<in> set es. nul_free e \<Longrightarrow> foldl push_element ds es = walk_path ds es"
  by (induction es arbitrary: ds) (auto simp: push_element_def strcmp_eq_0 nul_free_def)

lemma walk_path_plain:
  "\<forall>e \<in> set ds. canonical_element e \<Longrightarrow> \<forall>e \<in> set es. plain_element e \<Longrightarrow>
     \<forall>e \<in> set (walk_path ds es). canonical_element e"
proof (induction es arbitrary: ds)
  case (Cons e es)
  have "\<forall>x \<in> set (if e = [46, 46] then butlast ds else if e = [46] then ds else ds @ [e]). canonical_element x"
    using Cons.prems by (auto simp: canonical_element_def dest: in_set_butlastD)
  from Cons.IH [OF this] Cons.prems(2) show ?case by simp
qed simp

lemma walk_path_canonical:
  "\<forall>e \<in> set es. canonical_element e \<Longrightarrow> walk_path ds es = ds @ es"
  by (induction es arbitrary: ds) (auto simp: canonical_element_def)

lemma path_size_0: "path_size out = 0 \<longleftrightarrow> out = []"
proof -
  have "foldl (\<lambda>n s. n + length s + 1) n ss = n + sum_list (map (\<lambda>s. Suc (length s)) ss)"
    for n and ss :: "cstring list"
    by (induction ss arbitrary: n) simp_all
  then show ?thesis by (cases out) (simp_all add: path_size_def)
qed

text \<open>An absolute path given by its elements; the root is \<^verbatim>\<open>/\<close>.\<close>

definition abs_path :: "cstring list \<Rightarrow> cstring" where
  "abs_path ts = (if ts = [] then [47] else join_path ts)"

lemma elements_abs_path: "\<forall>t \<in> set ts. plain_element t \<Longrightarrow> elements (abs_path ts) = ts"
  by (auto simp: abs_path_def elements_join elements_slash [of "[]", simplified])

lemma at_abs_path: "at (abs_path ts) = 47" "abs_path ts \<noteq> []"
  by (cases ts; simp add: abs_path_def join_path_def at_def)+

lemma canonicalize_walk:
  assumes "nul_free input"
  shows "canonicalize_path cwd input =
     abs_path (walk_path (if input \<noteq> [] \<and> at input \<noteq> 47 then elements cwd else []) (elements input))"
proof -
  have "\<forall>e \<in> set (elements input). nul_free e"
    using elements_plain [OF assms] by (auto simp: plain_element_def)
  then show ?thesis
    by (simp add: canonicalize_path_def tokenize_elements walk_path_fold path_size_0 abs_path_def Let_def)
qed

text \<open>A directory as the tasks keep it in \<^verbatim>\<open>work_dirpath\<close>.\<close>

definition canonical_path :: "cstring \<Rightarrow> bool" where
  "canonical_path s \<longleftrightarrow> (\<exists>ts. (\<forall>t \<in> set ts. canonical_element t) \<and> s = abs_path ts)"

lemma canonical_plain: "\<forall>t \<in> set ts. canonical_element t \<Longrightarrow> \<forall>t \<in> set ts. plain_element t"
  by (auto simp: canonical_element_def)

lemma canonicalize_elements:
  assumes "\<forall>t \<in> set ds. canonical_element t" and "nul_free input"
  shows "canonicalize_path (abs_path ds) input =
     abs_path (walk_path (if input \<noteq> [] \<and> at input \<noteq> 47 then ds else []) (elements input))"
  using canonicalize_walk [OF assms(2), of "abs_path ds"] elements_abs_path [OF canonical_plain [OF assms(1)]]
  by simp

lemma canonicalize_canonical:
  assumes "canonical_path cwd" and "nul_free input"
  shows "canonical_path (canonicalize_path cwd input)"
proof -
  obtain ds where ds: "\<forall>t \<in> set ds. canonical_element t" "cwd = abs_path ds"
    using assms(1) by (auto simp: canonical_path_def)
  have "\<forall>t \<in> set (walk_path (if input \<noteq> [] \<and> at input \<noteq> 47 then ds else []) (elements input)). canonical_element t"
    using ds(1) elements_plain [OF assms(2)] by (intro walk_path_plain) auto
  then show ?thesis
    unfolding ds(2) canonicalize_elements [OF ds(1) assms(2)] canonical_path_def by blast
qed

lemma nul_free_abs_path: "\<forall>t \<in> set ts. plain_element t \<Longrightarrow> nul_free (abs_path ts)"
  by (auto simp: abs_path_def join_path_def nul_free_def plain_element_def)

lemma canonicalize_absolute:
  assumes "\<forall>t \<in> set ts. canonical_element t"
  shows "canonicalize_path cwd (abs_path ts) = abs_path ts"
proof -
  have "walk_path [] ts = ts" using walk_path_canonical [OF assms, of "[]"] by simp
  then show ?thesis
    using canonicalize_walk [OF nul_free_abs_path [OF canonical_plain [OF assms]], of cwd]
      elements_abs_path [OF canonical_plain [OF assms]] at_abs_path by simp
qed

text \<open>Going to \<open>a\<close> and then to the relative path \<open>b\<close> is going to \<open>a/b\<close>.\<close>

lemma canonicalize_compose:
  assumes "canonical_path cwd" and "nul_free a" and "nul_free b" and "a \<noteq> []" and "b \<noteq> []" and "at b \<noteq> 47"
  shows "canonicalize_path (canonicalize_path cwd a) b = canonicalize_path cwd (a @ 47 # b)"
proof -
  obtain ds where ds: "\<forall>t \<in> set ds. canonical_element t" "cwd = abs_path ds"
    using assms(1) by (auto simp: canonical_path_def)
  let ?d = "if at a \<noteq> 47 then ds else []"
  have ab: "nul_free (a @ 47 # b)" "at (a @ 47 # b) = at a"
    using assms(2-4) by (auto simp: nul_free_def at_def split: list.splits)
  have w: "\<forall>t \<in> set (walk_path ?d (elements a)). canonical_element t"
    using ds(1) elements_plain [OF assms(2)] by (intro walk_path_plain) auto
  have "canonicalize_path cwd a = abs_path (walk_path ?d (elements a))"
    using canonicalize_elements [OF ds(1) assms(2)] assms(4) ds(2) by simp
  then have "canonicalize_path (canonicalize_path cwd a) b = abs_path (walk_path (walk_path ?d (elements a)) (elements b))"
    using canonicalize_elements [OF w assms(3)] assms(5,6) by simp
  also have "\<dots> = canonicalize_path cwd (a @ 47 # b)"
    using canonicalize_elements [OF ds(1) ab(1)] ab(2) ds(2) by (simp add: elements_app walk_path_app)
  finally show ?thesis .
qed

section \<open>Parent and last element\<close>

lemma scan_back_app:
  assumes "47 \<notin> set t" and "k < length t"
  shows "scan_back (p @ 47 # t) (Suc (length p + k)) = (if p = [] then 0 else Suc (length p))"
  using assms(2)
proof (induction k)
  case 0
  then have "t ! 0 \<noteq> 47" using assms(1) by (metis nth_mem)
  then show ?case
    by (cases "length p") (auto simp: nth_append)
next
  case (Suc k)
  then have "t ! Suc k \<noteq> 47" using assms(1) by (metis nth_mem)
  with Suc show ?case by (simp add: nth_append)
qed

lemma last_element_app:
  assumes "47 \<notin> set t" and "t \<noteq> []"
  shows "last_element (p @ 47 # t) = Some t"
proof -
  have "length (p @ 47 # t) - 1 = Suc (length p + (length t - 1))" using assms(2) by (cases t) auto
  moreover have "length t - 1 < length t" using assms(2) by simp
  ultimately have sb: "scan_back (p @ 47 # t) (length (p @ 47 # t) - 1) = (if p = [] then 0 else Suc (length p))"
    using scan_back_app [OF assms(1)] by (simp only:)
  have "at t \<noteq> 47" using assms by (cases t) (auto simp: at_def)
  moreover have "at (47 # t) = 47" by (simp add: at_def)
  moreover have "drop (Suc (length p)) (p @ 47 # t) = t" by simp
  ultimately show ?thesis
    unfolding last_element_def sb Let_def by simp
qed

lemma join_path_snoc: "join_path (ts @ [t]) = join_path ts @ 47 # t"
  by (simp add: join_path_def)

lemma get_parent_strings:
  assumes "\<forall>e \<in> set (ts @ [t]). canonical_element e"
  shows "last_element (abs_path (ts @ [t])) = Some t" and
    "canonicalize_path cwd (parent_path (abs_path (ts @ [t]))) = abs_path ts"
proof -
  have t: "47 \<notin> set t" "t \<noteq> []" using assms by (auto simp: canonical_element_def plain_element_def)
  then show "last_element (abs_path (ts @ [t])) = Some t"
    by (simp add: abs_path_def join_path_snoc last_element_app)
  let ?p = "abs_path (ts @ [t])"
  have p: "nul_free ?p" "elements ?p = ts @ [t]"
    using nul_free_abs_path [OF canonical_plain [OF assms]] elements_abs_path [OF canonical_plain [OF assms]] .
  have "plain_element [46, 46]" by (simp add: plain_element_def nul_free_def)
  then have "elements (?p @ 47 # [46, 46]) = (ts @ [t]) @ [[46, 46]]"
    unfolding elements_app p(2) by (simp add: elements_single)
  moreover have "walk_path [] ((ts @ [t]) @ [[46, 46]]) = ts"
    using walk_path_canonical [OF assms, of "[]"] by (simp only: walk_path_app) simp
  moreover have "at (?p @ 47 # [46, 46]) = 47"
    using at_abs_path [of "ts @ [t]"] by (auto simp: at_def split: list.splits)
  moreover have "nul_free (?p @ 47 # [46, 46])" using p(1) by (simp add: nul_free_def)
  ultimately show "canonicalize_path cwd (parent_path ?p) = abs_path ts"
    by (simp add: parent_path_def canonicalize_walk)
qed

end
