(* ===== verification/Vfs.thy ===== *)
theory Vfs
  imports Tree Path Hashmap
begin

text \<open>
  The virtual file system of \<^verbatim>\<open>src/src/vfs.cpp\<close>: file nodes with their reference counts, the
  tree of mount points, and \<^verbatim>\<open>kopen\<close> with its symbolic links.  The callbacks of a file node are
  functions of the node: what \<^verbatim>\<open>finddir\<close> and \<^verbatim>\<open>readlink\<close> of its driver answer.
\<close>

section \<open>File nodes\<close>

text \<open>
  The fields of \<^verbatim>\<open>FILE\<close> the VFS uses.  \<^verbatim>\<open>open\<close>, \<^verbatim>\<open>finddir\<close> and \<^verbatim>\<open>readlink\<close> are \<open>None\<close> when the
  pointer is \<^verbatim>\<open>NULL\<close>; of \<^verbatim>\<open>close\<close> only its presence matters.  \<open>vn_readlink n\<close> is the result for a
  buffer of \<open>n\<close> bytes and what the buffer then holds.
\<close>

datatype vnode = Vnode (vn_flags: u32) (vn_refcount: u32) (vn_device: ptr) (vn_close: bool)
  (vn_open: "(u32 \<Rightarrow> u32) option") (vn_finddir: "(cstring \<Rightarrow> vnode option) option")
  (vn_readlink: "(nat \<Rightarrow> int \<times> u8 list) option")

fun set_refcount :: "u32 \<Rightarrow> vnode \<Rightarrow> vnode" where
  "set_refcount r (Vnode fl _ d c op fi rl) = Vnode fl r d c op fi rl"

fun set_device :: "ptr \<Rightarrow> vnode \<Rightarrow> vnode" where
  "set_device d (Vnode fl r _ c op fi rl) = Vnode fl r d c op fi rl"

type_synonym files = "ptr \<Rightarrow> vnode option"

definition FS_DIR :: u32 where "FS_DIR = 0x02"
definition FS_SYMLINK :: u32 where "FS_SYMLINK = 0x20"
definition O_NOFOLLOW :: u32 where "O_NOFOLLOW = 0x1000"
definition O_PATH :: u32 where "O_PATH = 0x2000"

definition fs_is_dir :: "vnode \<Rightarrow> bool" where
  "fs_is_dir v \<longleftrightarrow> vn_flags v AND 7 = FS_DIR"

text \<open>A call through a callback that may be absent, on a node that may be \<^verbatim>\<open>NULL\<close>: the shape of
  \<^verbatim>\<open>fread\<close>, \<^verbatim>\<open>fwrite\<close>, \<^verbatim>\<open>fs_ioctl\<close>, \<^verbatim>\<open>fs_chmod\<close> and \<^verbatim>\<open>fs_readlink\<close>.\<close>

definition fs_dispatch :: "('n \<Rightarrow> ('n \<Rightarrow> 'r) option) \<Rightarrow> 'r \<Rightarrow> 'n option \<Rightarrow> 'r" where
  "fs_dispatch callback minus_one node = (case node of None \<Rightarrow> minus_one
     | Some v \<Rightarrow> (case callback v of None \<Rightarrow> minus_one | Some f \<Rightarrow> f v))"

definition fs_finddir :: "vnode \<Rightarrow> cstring \<Rightarrow> vnode option" where
  "fs_finddir v name = (if fs_is_dir v then
     (case vn_finddir v of None \<Rightarrow> None | Some f \<Rightarrow> f name) else None)"

text \<open>The result of \<^verbatim>\<open>fopen\<close> on a node, and the node after it; \<^verbatim>\<open>refcount\<close> is a signed integer.\<close>

definition fopen_node :: "u32 \<Rightarrow> vnode \<Rightarrow> vnode" where
  "fopen_node flags v = (if 0 \<le>s vn_refcount v then set_refcount (vn_refcount v + 1) v else v)"

definition fopen :: "ptr \<Rightarrow> u32 \<Rightarrow> files \<Rightarrow> (u32 \<times> files) option" where
  "fopen p flags F = (if p = NULL then Some (- 1, F) else do {
     v \<leftarrow> F p;
     let v = fopen_node flags v;
     Some (case vn_open v of Some f \<Rightarrow> f flags | None \<Rightarrow> - 1, F(p := Some v))
   })"

text \<open>\<^verbatim>\<open>fclose\<close>: the result, whether the \<^verbatim>\<open>close\<close> callback ran, and the files; the node is freed
  when its count becomes 0.\<close>

definition fclose :: "ptr \<Rightarrow> files \<Rightarrow> (u32 \<times> bool \<times> files) option" where
  "fclose p F = (if p = NULL then Some (- 1, False, F) else do {
     v \<leftarrow> F p;
     if vn_refcount v = - 1 then Some (- 1, False, F)
     else let r = vn_refcount v - 1 in
       if r = 0 then Some (0, vn_close v, F(p := None))
       else Some (0, False, F(p := Some (set_refcount r v)))
   })"

definition fs_clone :: "ptr \<Rightarrow> files \<Rightarrow> (ptr \<times> files) option" where
  "fs_clone p F = (if p = NULL then Some (NULL, F) else do {
     v \<leftarrow> F p;
     Some (p, if 0 \<le>s vn_refcount v then F(p := Some (set_refcount (vn_refcount v + 1) v)) else F)
   })"

definition vfs_lock :: "ptr \<Rightarrow> files \<Rightarrow> files option" where
  "vfs_lock p F = do { v \<leftarrow> F p; Some (F(p := Some (set_refcount (- 1) v))) }"

section \<open>Mount points\<close>

record ventry =
  ve_name :: cstring
  ve_file :: ptr

record vfs =
  fs_tree :: "ventry tree option"
  fs_root :: ptr
  fs_files :: files

text \<open>\<^verbatim>\<open>vfs_install\<close>; \<open>n\<close> is the fresh root node, \<open>[root]\<close> its name.\<close>

definition vfs_install :: "ptr \<Rightarrow> (ptr \<Rightarrow> ventry tnode option) \<Rightarrow> vfs \<Rightarrow> vfs" where
  "vfs_install n h s = s\<lparr>fs_tree := Some (tree_set_root n
     \<lparr>ve_name = [91, 114, 111, 111, 116, 93], ve_file = NULL\<rparr> (tree_create h))\<rparr>"

text \<open>The elements of a path whose separators have been overwritten with NUL: from one string
  to the next until the end, an empty one included.\<close>

function chop :: "cstring \<Rightarrow> cstring list" where
  "chop [] = []"
| "chop (c # s) = takeWhile (\<lambda>x. x \<noteq> 47) (c # s) # chop (tl (dropWhile (\<lambda>x. x \<noteq> 47) (c # s)))"
  by pat_completeness auto
termination
proof (relation "measure length", goal_cases)
  case (2 c s)
  have "length (dropWhile (\<lambda>x. x \<noteq> 47) (c # s)) \<le> length (c # s)" by (rule length_dropWhile_le)
  then show ?case by (simp add: less_Suc_eq_le)
qed simp

declare chop.simps(2) [simp del]

fun find_child :: "ventry tree \<Rightarrow> ptr list \<Rightarrow> cstring \<Rightarrow> ptr option option" where
  "find_child T [] name = Some None"
| "find_child T (c # cs) name = do {
     nd \<leftarrow> rd_tnode T c;
     if strcmp (ve_name (tn_value nd)) name = 0 then Some (Some c) else find_child T cs name
   }"

text \<open>The loop of \<^verbatim>\<open>vfs_mount\<close> that finds or makes the directories of the path; \<open>ms\<close> are the nodes
  \<^verbatim>\<open>malloc\<close> returns.\<close>

fun mount_walk :: "cstring list \<Rightarrow> ptr \<Rightarrow> ptr list \<Rightarrow> ventry tree \<Rightarrow> (ptr \<times> ventry tree) option" where
  "mount_walk [] node ms T = Some (node, T)"
| "mount_walk (c # cs) node ms T = do {
     nd \<leftarrow> rd_tnode T node;
     r \<leftarrow> find_child T (tn_children nd) c;
     (case r of
       Some child \<Rightarrow> mount_walk cs child ms T
     | None \<Rightarrow> (case ms of [] \<Rightarrow> None
       | m # ms' \<Rightarrow> do {
           (n, T) \<leftarrow> tree_node_insert_child m node \<lparr>ve_name = c, ve_file = NULL\<rparr> T;
           mount_walk cs n ms' T })) }"

definition set_file :: "ptr \<Rightarrow> ptr \<Rightarrow> ventry tree \<Rightarrow> ventry tree option" where
  "set_file n f T = wr_tnode n (\<lambda>nd. nd\<lparr>tn_value := (tn_value nd)\<lparr>ve_file := f\<rparr>\<rparr>) T"

text \<open>\<^verbatim>\<open>vfs_mount\<close> returns \<^verbatim>\<open>NULL\<close> in every case.\<close>

definition vfs_mount :: "cstring option \<Rightarrow> ptr \<Rightarrow> ptr list \<Rightarrow> vfs \<Rightarrow> (ptr \<times> vfs) option" where
  "vfs_mount path f ms s = (
     if f = NULL then Some (NULL, s)
     else case fs_tree s of None \<Rightarrow> Some (NULL, s)
     | Some T \<Rightarrow> (case path of None \<Rightarrow> Some (NULL, s)
       | Some p \<Rightarrow> if at p \<noteq> 47 then Some (NULL, s) else do {
           F \<leftarrow> vfs_lock f (fs_files s);
           if at (tl p) = 0 \<or> at (tl p) = 47 then do {
             T \<leftarrow> set_file (tree_root T) f T;
             Some (NULL, s\<lparr>fs_tree := Some T, fs_root := f, fs_files := F\<rparr>)
           } else do {
             (n, T) \<leftarrow> mount_walk (chop (tl p)) (tree_root T) ms T;
             T \<leftarrow> set_file n f T;
             Some (NULL, s\<lparr>fs_tree := Some T, fs_files := F\<rparr>) } }))"

text \<open>\<^verbatim>\<open>map_vfs_directory\<close>: \<open>f\<close> is the node \<^verbatim>\<open>vfs_mapper\<close> allocated; its device is what
  \<^verbatim>\<open>vfs_mount\<close> returned, or the root of the tree.\<close>

definition vfs_mapper :: vnode where
  "vfs_mapper = Vnode FS_DIR 0 NULL False None None None"

definition map_vfs_directory :: "cstring \<Rightarrow> ptr \<Rightarrow> ptr list \<Rightarrow> vfs \<Rightarrow> vfs option" where
  "map_vfs_directory c f ms s = do {
     (e, s) \<leftarrow> vfs_mount (Some c) f ms (s\<lparr>fs_files := (fs_files s)(f := Some vfs_mapper)\<rparr>);
     v \<leftarrow> fs_files s f;
     d \<leftarrow> (if strcmp c [47] = 0 then map_option tree_root (fs_tree s) else Some e);
     Some (s\<lparr>fs_files := (fs_files s)(f := Some (set_device d v))\<rparr>)
   }"

text \<open>\<^verbatim>\<open>readdir_mapper\<close>: name and number of the entry at an index, or \<^verbatim>\<open>NULL\<close>.  The name is copied
  into 128 bytes, up to 256 of them.\<close>

definition readdir_mapper :: "vfs \<Rightarrow> vnode \<Rightarrow> u32 \<Rightarrow> (cstring \<times> u32) option option" where
  "readdir_mapper s v index = (if vn_device v = NULL then Some None
     else if index = 0 then Some (Some ([46], 0))
     else if index = 1 then Some (Some ([46, 46], 1))
     else do {
       T \<leftarrow> fs_tree s;
       d \<leftarrow> rd_tnode T (vn_device v);
       let i = index - 2;
       if unat i < length (tn_children d) then do {
         c \<leftarrow> rd_tnode T (tn_children d ! unat i);
         let name = ve_name (tn_value c);
         if min 256 (length name + 1) > 128 then None else Some (Some (name, i))
       } else Some None
     })"

text \<open>\<^verbatim>\<open>vfs_register\<close> and the lookup of \<^verbatim>\<open>vfs_mount_type\<close>, on the map \<^verbatim>\<open>fs_types\<close>.\<close>

definition vfs_register :: "(cstring, 'c) hashmap \<Rightarrow> cstring \<Rightarrow> 'c \<Rightarrow> (int \<times> (cstring, 'c) hashmap) option" where
  "vfs_register types name cback = do {
     r \<leftarrow> hashmap_get types name;
     if r \<noteq> None then Some (1, types) else do {
       (_, types) \<leftarrow> hashmap_set types name (Some cback);
       Some (0, types) } }"

text \<open>\<open>cback\<close> of the type makes a new file node, or fails; 19 and 22 are \<^verbatim>\<open>ENODEV\<close> and
  \<^verbatim>\<open>EINVAL\<close>.\<close>

definition vfs_mount_type :: "(cstring, cstring \<Rightarrow> cstring \<Rightarrow> vfs \<Rightarrow> ptr \<times> vfs) hashmap \<Rightarrow> cstring \<Rightarrow>
    cstring \<Rightarrow> cstring \<Rightarrow> ptr list \<Rightarrow> vfs \<Rightarrow> (int \<times> vfs) option" where
  "vfs_mount_type types type arg mountpoint ms s = do {
     r \<leftarrow> hashmap_get types type;
     (case r of None \<Rightarrow> Some (- 19, s)
      | Some cback \<Rightarrow> (case cback arg mountpoint s of (n, s) \<Rightarrow>
          if n = NULL then Some (- 22, s)
          else do { (_, s) \<leftarrow> vfs_mount (Some mountpoint) n ms s; Some (0, s) })) }"

section \<open>Opening a file\<close>

text \<open>The loop of \<^verbatim>\<open>get_mount_point\<close>: the file mounted deepest so far, the elements after it and
  their depth.\<close>

fun mount_point_walk :: "ventry tree \<Rightarrow> ptr \<Rightarrow> cstring list \<Rightarrow> nat \<Rightarrow> ptr \<times> cstring list \<times> nat \<Rightarrow>
    (ptr \<times> cstring list \<times> nat) option" where
  "mount_point_walk T node [] depth best = Some best"
| "mount_point_walk T node (c # cs) depth best = do {
     nd \<leftarrow> rd_tnode T node;
     r \<leftarrow> find_child T (tn_children nd) c;
     (case r of None \<Rightarrow> Some best
      | Some child \<Rightarrow> do {
          e \<leftarrow> rd_tnode T child;
          mount_point_walk T child cs (Suc depth)
            (if ve_file (tn_value e) \<noteq> NULL then (ve_file (tn_value e), cs, depth) else best) }) }"

text \<open>The result is a copy of the node found.\<close>

definition get_mount_point :: "vfs \<Rightarrow> cstring list \<Rightarrow> (vnode option \<times> cstring list \<times> nat) option" where
  "get_mount_point s cs = do {
     T \<leftarrow> fs_tree s;
     (last, rest, depth) \<leftarrow> mount_point_walk T (tree_root T) cs 1 (fs_root s, cs, 0);
     if last = NULL then Some (None, rest, depth)
     else do { v \<leftarrow> fs_files s last; Some (Some v, rest, depth) }
   }"

text \<open>What \<^verbatim>\<open>kopen\<close> returns: \<^verbatim>\<open>NULL\<close>, one of the pointers \<^verbatim>\<open>(FILE*)-1\<close> to \<^verbatim>\<open>(FILE*)-5\<close>, or a node.\<close>

datatype kopen_result = Null | Error nat | Opened vnode

definition c_string :: "u8 list \<Rightarrow> cstring" where
  "c_string buf = takeWhile (\<lambda>c. c \<noteq> 0) buf"

text \<open>
  \<open>kopen_loop\<close> is the search from the mount point; \<open>done\<close> are the elements before \<open>cs\<close>.  An
  error pointer that comes back from the recursive call is not \<^verbatim>\<open>NULL\<close>, and the use of it as
  a node has no result.
\<close>

function kopen_recur :: "vfs \<Rightarrow> cstring \<Rightarrow> u32 \<Rightarrow> nat \<Rightarrow> cstring \<Rightarrow> kopen_result option"
  and kopen_loop :: "vfs \<Rightarrow> u32 \<Rightarrow> nat \<Rightarrow> cstring list \<Rightarrow> vnode \<Rightarrow> cstring list \<Rightarrow> kopen_result option" where
  "kopen_recur s filename flags symlink_depth relative_to =
     (let path = canonicalize_path relative_to filename in
      if length path = 1 then
        (if fs_root s = NULL then None
         else do { v \<leftarrow> fs_files s (fs_root s); Some (Opened (fopen_node flags v)) })
      else do {
        (node, rest, depth) \<leftarrow> get_mount_point s (chop (tl path));
        (case node of None \<Rightarrow> Some Null
         | Some v \<Rightarrow> if rest = [] then Some (Opened (fopen_node flags v))
             else kopen_loop s flags symlink_depth (take depth (chop (tl path))) v rest) })"
| "kopen_loop s flags symlink_depth done v cs =
     (case cs of [] \<Rightarrow> Some Null
      | c # cs' \<Rightarrow> (case fs_finddir v c of None \<Rightarrow> Some Null
        | Some v' \<Rightarrow>
           if vn_flags v' AND FS_SYMLINK \<noteq> 0 \<and>
              \<not> (flags AND O_NOFOLLOW \<noteq> 0 \<and> flags AND O_PATH \<noteq> 0 \<and> cs' = [])
           then (if flags AND O_NOFOLLOW \<noteq> 0 \<and> cs' = [] then Some (Error 1)
             else if symlink_depth \<ge> 8 then Some (Error 2)
             else (case vn_readlink v' of None \<Rightarrow> None
               | Some rl \<Rightarrow> (case rl 4096 of (len, buf) \<Rightarrow>
                  if len < 0 then Some (Error 3)
                  else if nat len \<ge> length buf then None
                  else if buf ! nat len \<noteq> 0 then Some (Error 4)
                  else (case kopen_recur s (c_string buf) 0 (Suc symlink_depth) (join_path done) of
                      None \<Rightarrow> None
                    | Some Null \<Rightarrow> Some (Error 5)
                    | Some (Error _) \<Rightarrow> None
                    | Some (Opened w) \<Rightarrow> if cs' = [] then Some (Opened (fopen_node flags w))
                        else kopen_loop s flags symlink_depth (done @ [c]) w cs'))))
           else if cs' = [] then Some (Opened (fopen_node flags v'))
           else kopen_loop s flags symlink_depth (done @ [c]) v' cs'))"
  by pat_completeness auto
termination
  by (relation "measures [\<lambda>x. case x of Inl (s, f, fl, d, r) \<Rightarrow> 9 - d | Inr (s, fl, d, dn, v, cs) \<Rightarrow> 9 - d,
      \<lambda>x. case x of Inl _ \<Rightarrow> 1 | Inr _ \<Rightarrow> 0,
      \<lambda>x. case x of Inl _ \<Rightarrow> 0 | Inr (s, fl, d, dn, v, cs) \<Rightarrow> length cs]") auto

definition kopen :: "vfs \<Rightarrow> cstring \<Rightarrow> cstring \<Rightarrow> u32 \<Rightarrow> kopen_result option" where
  "kopen s cwd filename flags = kopen_recur s filename flags 0 cwd"

declare kopen_recur.simps [simp del] kopen_loop.simps [simp del]

section \<open>The reference count\<close>

lemma refcount_set [simp]:
  "vn_refcount (set_refcount r v) = r" "vn_flags (set_refcount r v) = vn_flags v"
  "vn_close (set_refcount r v) = vn_close v" "set_refcount r (set_refcount r' v) = set_refcount r v"
  "vn_open (set_refcount r v) = vn_open v" "set_refcount (vn_refcount v) v = v"
  "vn_finddir (set_refcount r v) = vn_finddir v" "vn_readlink (set_refcount r v) = vn_readlink v"
  by (cases v; simp)+

fun fopens :: "nat \<Rightarrow> ptr \<Rightarrow> u32 \<Rightarrow> files \<Rightarrow> files option" where
  "fopens 0 p flags F = Some F"
| "fopens (Suc k) p flags F = do { (_, F) \<leftarrow> fopen p flags F; fopens k p flags F }"

lemma sle_0_iff: "0 \<le>s (w :: u32) \<longleftrightarrow> unat w < 2 ^ 31"
proof -
  have "0 \<le>s w \<longleftrightarrow> \<not> bit w 31"
    by (simp add: word_sle_eq sint_uint signed_take_bit_nonnegative_iff bit_uint_iff)
  also have "bit w 31 \<longleftrightarrow> bit (unat w) 31" by (simp add: bit_unsigned_iff)
  also have "\<dots> \<longleftrightarrow> odd (unat w div 2 ^ 31)" by (rule bit_iff_odd)
  also have "unat w div 2 ^ 31 = (if unat w < 2 ^ 31 then 0 else 1)"
    using unat_bound [of w] by auto
  finally show ?thesis by simp
qed

lemma fopens_count:
  assumes "F p = Some v" and "p \<noteq> NULL" and "unat (vn_refcount v) + k < 2 ^ 31"
  shows "fopens k p flags F = Some (F(p := Some (set_refcount (vn_refcount v + of_nat k) v)))"
  using assms
proof (induction k arbitrary: F v)
  case 0
  then show ?case by (simp add: fun_upd_idem)
next
  case (Suc k)
  let ?v = "set_refcount (vn_refcount v + 1) v"
  have u: "unat (vn_refcount v + 1) = Suc (unat (vn_refcount v))"
    using Suc.prems(3) by (simp add: unat_word_ariths)
  have "fopens k p flags (F(p := Some ?v)) =
      Some ((F(p := Some ?v))(p := Some (set_refcount (vn_refcount ?v + of_nat k) ?v)))"
    using Suc.prems(2,3) u by (intro Suc.IH) simp_all
  moreover have "0 \<le>s vn_refcount v" using Suc.prems(3) by (simp add: sle_0_iff)
  ultimately show ?case
    using Suc.prems(1,2) by (auto simp: fopen_def fopen_node_def add.assoc fun_eq_iff)
qed

fun fcloses :: "nat \<Rightarrow> ptr \<Rightarrow> files \<Rightarrow> (bool list \<times> files) option" where
  "fcloses 0 p F = Some ([], F)"
| "fcloses (Suc k) p F = do {
     (_, closed, F) \<leftarrow> fclose p F;
     (cs, F) \<leftarrow> fcloses k p F;
     Some (closed # cs, F)
   }"

lemma fcloses_count:
  assumes "F p = Some v" and "p \<noteq> NULL" and "vn_refcount v = of_nat (Suc n)" and "Suc n < 2 ^ 31"
    and "k \<le> n"
  shows "fcloses k p F = Some (replicate k False, F(p := Some (set_refcount (of_nat (Suc n - k)) v)))"
  using assms
proof (induction k arbitrary: F v n)
  case 0
  have "set_refcount (of_nat (Suc n)) v = v" by (metis 0(3) refcount_set(6))
  with 0(1) show ?case by (simp add: fun_upd_idem del: of_nat_Suc)
next
  case (Suc k)
  from Suc.prems(5) obtain m where n: "n = Suc m" "k \<le> m" by (cases n) auto
  have r: "vn_refcount v - 1 = of_nat (Suc m)" using Suc.prems(3) n by simp
  have ne: "(of_nat (Suc m) :: u32) \<noteq> 0" "vn_refcount v \<noteq> - 1"
  proof -
    show "(of_nat (Suc m) :: u32) \<noteq> 0" using Suc.prems(4) n by (subst of_nat_eq_0_iff_small) auto
    have "unat (vn_refcount v) = Suc n"
      unfolding Suc.prems(3) using Suc.prems(4) by (intro unat_of_nat_small) simp
    moreover have "unat (- 1 :: u32) = 2 ^ 32 - 1" by (simp add: unsigned_minus_1_eq_mask mask_eq_exp_minus_1)
    ultimately show "vn_refcount v \<noteq> - 1" using Suc.prems(4) by auto
  qed
  let ?v = "set_refcount (of_nat (Suc m)) v"
  have "fcloses k p (F(p := Some ?v)) =
      Some (replicate k False, (F(p := Some ?v))(p := Some (set_refcount (of_nat (Suc m - k)) ?v)))"
    using Suc.prems n by (intro Suc.IH) simp_all
  then show ?case
    using Suc.prems(1,2) ne r n by (auto simp: fclose_def Let_def fun_eq_iff)
qed

text \<open>A node opened \<open>n + 1\<close> times survives \<open>n\<close> closes; the last one runs \<^verbatim>\<open>close\<close> and frees it.\<close>

lemma fopen_fclose_lifetime:
  assumes "F p = Some v" and "p \<noteq> NULL" and "vn_refcount v = 0" and "Suc n < 2 ^ 31"
  shows "\<exists>F1 F2. fopens (Suc n) p flags F = Some F1 \<and> fcloses n p F1 = Some (replicate n False, F2) \<and>
     map_option vn_refcount (F2 p) = Some 1 \<and> fclose p F2 = Some (0, vn_close v, F2(p := None))"
proof -
  let ?F1 = "F(p := Some (set_refcount (of_nat (Suc n)) v))"
  let ?F2 = "F(p := Some (set_refcount (of_nat (Suc n - n)) v))"
  have "fopens (Suc n) p flags F = Some (F(p := Some (set_refcount (vn_refcount v + of_nat (Suc n)) v)))"
    using assms by (intro fopens_count) simp_all
  then have "fopens (Suc n) p flags F = Some ?F1" using assms(3) by simp
  moreover have "fcloses n p ?F1 = Some (replicate n False, ?F2)"
    using fcloses_count [of ?F1 p "set_refcount (of_nat (Suc n)) v" n n] assms(2,4) by simp
  moreover have "fclose p ?F2 = Some (0, vn_close v, ?F2(p := None))"
    using assms(2) by (simp add: fclose_def)
  ultimately show ?thesis by (intro exI [of _ ?F1] exI [of _ ?F2]) simp
qed

text \<open>A node that was looked up but never opened, as \<^verbatim>\<open>kopen\<close> closes the directories on its way:
  the count becomes -1 and the node is not freed, now or ever.\<close>

lemma fclose_unopened:
  assumes "F p = Some v" and "p \<noteq> NULL" and "vn_refcount v = 0"
  shows "\<exists>F'. fclose p F = Some (0, False, F') \<and> F' p = Some (set_refcount (- 1) v) \<and>
     fclose p F' = Some (- 1, False, F')"
  using assms by (simp add: fclose_def Let_def)

section \<open>Mounting and finding the mount point\<close>

text \<open>The child a name selects, the node a list of names leads to, and the file mounted there.\<close>

definition name_of :: "ventry tree \<Rightarrow> ptr \<Rightarrow> cstring" where
  "name_of T n = (case tree_heap T n of None \<Rightarrow> [] | Some nd \<Rightarrow> ve_name (tn_value nd))"

definition file_of :: "ventry tree \<Rightarrow> ptr \<Rightarrow> ptr" where
  "file_of T n = (case tree_heap T n of None \<Rightarrow> NULL | Some nd \<Rightarrow> ve_file (tn_value nd))"

definition child_named :: "ventry tree \<Rightarrow> ptr \<Rightarrow> cstring \<Rightarrow> ptr option" where
  "child_named T n c = find (\<lambda>k. strcmp (name_of T k) c = 0) (kids T n)"

fun resolve :: "ventry tree \<Rightarrow> ptr \<Rightarrow> cstring list \<Rightarrow> ptr option" where
  "resolve T n [] = Some n"
| "resolve T n (c # cs) = (case child_named T n c of None \<Rightarrow> None | Some k \<Rightarrow> resolve T k cs)"

lemma strcmp_refl [simp]: "strcmp c c = 0"
  by (induction c) auto

lemma find_append_Some: "find P xs = Some x \<Longrightarrow> find P (xs @ ys) = Some x"
  by (induction xs) (auto split: if_splits)

lemma find_append_None: "find P xs = None \<Longrightarrow> find P (xs @ ys) = find P ys"
  by (induction xs) (auto split: if_splits)

lemma find_cong_set: "(\<And>x. x \<in> set xs \<Longrightarrow> P x = Q x) \<Longrightarrow> find P xs = find Q xs"
  by (induction xs) auto

lemma find_child_eq:
  "tree_ok T N \<Longrightarrow> set cs \<subseteq> N \<Longrightarrow>
     find_child T cs c = Some (find (\<lambda>k. strcmp (name_of T k) c = 0) cs)"
proof (induction cs)
  case (Cons k cs)
  then obtain nd where "rd_tnode T k = Some nd" using tree_ok_rd [of T N k] by auto
  moreover from this have "name_of T k = ve_name (tn_value nd)"
    by (auto simp: name_of_def rd_tnode_def split: if_splits)
  ultimately show ?case using Cons by simp
qed simp

lemma kids_sub: "tree_ok T N \<Longrightarrow> n \<in> N \<Longrightarrow> set (kids T n) \<subseteq> N"
  by (auto simp: tree_ok_def tree_shape_def)

lemma child_named_in: "tree_ok T N \<Longrightarrow> n \<in> N \<Longrightarrow> child_named T n c = Some k \<Longrightarrow> k \<in> N"
  using kids_sub [of T N n] by (auto simp: child_named_def find_Some_iff)

lemma resolve_in: "tree_ok T N \<Longrightarrow> n \<in> N \<Longrightarrow> resolve T n cs = Some k \<Longrightarrow> k \<in> N"
  by (induction cs arbitrary: n) (auto split: option.splits dest: child_named_in)

text \<open>What an insertion does to names and files.\<close>

lemma insert_child_values:
  assumes "tree_node_insert_child n p v T = Some (n', T')" and "n \<noteq> p"
  shows "map_option tn_value (tree_heap T' m) = (if m = n then Some v else map_option tn_value (tree_heap T m))"
    and "tree_root T' = tree_root T" and "n' = n"
  using assms by (auto simp: tree_node_insert_child_def tree_node_insert_child_node_def
      tree_node_create_def wr_tnode_def rd_tnode_def bind_eq_Some_iff split: if_splits)

lemma name_file_values:
  "name_of T n = (case map_option tn_value (tree_heap T n) of None \<Rightarrow> [] | Some v \<Rightarrow> ve_name v)"
  "file_of T n = (case map_option tn_value (tree_heap T n) of None \<Rightarrow> NULL | Some v \<Rightarrow> ve_file v)"
  by (simp_all add: name_of_def file_of_def split: option.splits)

text \<open>\<open>extends T T' N\<close>: on the nodes of \<open>N\<close> children were only added at the end, names and files are
  the same.\<close>

definition extends :: "ventry tree \<Rightarrow> ventry tree \<Rightarrow> ptr set \<Rightarrow> bool" where
  "extends T T' N \<longleftrightarrow> tree_root T' = tree_root T \<and>
     (\<forall>n \<in> N. name_of T' n = name_of T n \<and> file_of T' n = file_of T n \<and>
        (\<exists>ms. kids T' n = kids T n @ ms))"

lemma extends_refl: "extends T T N"
  by (simp add: extends_def)

lemma extends_trans: "extends T T' N \<Longrightarrow> extends T' T'' N' \<Longrightarrow> N \<subseteq> N' \<Longrightarrow> extends T T'' N"
  by (fastforce simp: extends_def)

lemma extends_child_named:
  assumes "extends T T' N" and "tree_ok T N" and "n \<in> N" and "child_named T n c = Some k"
  shows "child_named T' n c = Some k"
proof -
  obtain ms where ms: "kids T' n = kids T n @ ms" using assms(1,3) by (auto simp: extends_def)
  have "name_of T' x = name_of T x" if "x \<in> set (kids T n)" for x
    using kids_sub [OF assms(2,3)] that assms(1) by (auto simp: extends_def)
  then have "find (\<lambda>k. strcmp (name_of T' k) c = 0) (kids T n) = Some k"
    using assms(4) find_cong_set [of "kids T n" "\<lambda>k. strcmp (name_of T' k) c = 0" "\<lambda>k. strcmp (name_of T k) c = 0"]
    by (simp add: child_named_def)
  then show ?thesis by (simp add: child_named_def ms find_append_Some)
qed

lemma extends_resolve:
  assumes "extends T T' N" and "tree_ok T N" and "n \<in> N" and "resolve T n cs = Some k"
  shows "resolve T' n cs = Some k"
  using assms(3,4)
proof (induction cs arbitrary: n)
  case (Cons c cs)
  then obtain j where j: "child_named T n c = Some j" "resolve T j cs = Some k"
    by (auto split: option.splits)
  moreover from this Cons.prems(1) have "j \<in> N" using child_named_in [OF assms(2)] by blast
  ultimately show ?case
    using Cons.IH extends_child_named [OF assms(1,2) Cons.prems(1)] by simp
qed simp

lemma insert_child_extends:
  assumes "tree_ok T N" and "p \<in> N" and "m \<notin> N" and "m \<noteq> NULL" and "child_named T p c = None"
  shows "\<exists>T'. tree_node_insert_child m p \<lparr>ve_name = c, ve_file = NULL\<rparr> T = Some (m, T') \<and>
     tree_ok T' (insert m N) \<and> extends T T' N \<and> child_named T' p c = Some m"
proof -
  let ?v = "\<lparr>ve_name = c, ve_file = NULL\<rparr>"
  have mp: "m \<noteq> p" using assms(2,3) by auto
  obtain T' where T': "tree_node_insert_child m p ?v T = Some (m, T')" "tree_ok T' (insert m N)"
    "kids T' p = kids T p @ [m]" "\<forall>k. k \<noteq> p \<longrightarrow> k \<noteq> m \<longrightarrow> tree_heap T' k = tree_heap T k"
    using tree_insert_ok [OF assms(1-4)] by blast
  note vals = insert_child_values [OF T'(1) mp]
  have names: "name_of T' k = (if k = m then c else name_of T k)"
    and filess: "file_of T' k = (if k = m then NULL else file_of T k)" for k
    by (simp_all add: name_file_values vals(1))
  have "kids T' k = kids T k" if "k \<in> N" "k \<noteq> p" for k
    using that T'(4) assms(3) by (auto simp: kids_def)
  then have "extends T T' N"
    using names filess assms(3) T'(3) vals(2) by (fastforce simp: extends_def)
  moreover have "find (\<lambda>k. strcmp (name_of T' k) c = 0) (kids T p) = None"
  proof -
    have "name_of T' k = name_of T k" if "k \<in> set (kids T p)" for k
      using that kids_sub [OF assms(1,2)] assms(3) names by auto
    then show ?thesis
      using assms(5) find_cong_set [of "kids T p" "\<lambda>k. strcmp (name_of T' k) c = 0" "\<lambda>k. strcmp (name_of T k) c = 0"]
      by (simp add: child_named_def)
  qed
  then have "child_named T' p c = Some m"
    by (simp add: child_named_def T'(3) find_append_None names)
  ultimately show ?thesis using T' by blast
qed

lemma mount_walk_ok:
  assumes "tree_ok T N" and "node \<in> N" and "distinct ms" and "set ms \<inter> N = {}" and "NULL \<notin> set ms"
    and "length cs \<le> length ms"
  shows "\<exists>k T' N'. mount_walk cs node ms T = Some (k, T') \<and> tree_ok T' N' \<and> N \<subseteq> N' \<and>
     N' \<subseteq> N \<union> set ms \<and> k \<in> N' \<and> resolve T' node cs = Some k \<and> extends T T' N"
  using assms
proof (induction cs arbitrary: node ms T N)
  case Nil
  then show ?case by (intro exI [of _ node] exI [of _ T] exI [of _ N]) (auto simp: extends_refl)
next
  case (Cons c cs)
  obtain nd where nd: "rd_tnode T node = Some nd" "tn_children nd = kids T node"
    using tree_ok_rd [OF Cons.prems(1,2)] by blast
  have fc: "find_child T (kids T node) c = Some (child_named T node c)"
    using find_child_eq [OF Cons.prems(1) kids_sub [OF Cons.prems(1,2)]] by (simp add: child_named_def)
  show ?case
  proof (cases "child_named T node c")
    case (Some child)
    have "child \<in> N" using child_named_in [OF Cons.prems(1,2) Some] .
    from Cons.IH [OF Cons.prems(1) this Cons.prems(3-5)] Cons.prems(6)
    obtain k T' N' where IH: "mount_walk cs child ms T = Some (k, T')" "tree_ok T' N'" "N \<subseteq> N'"
      "N' \<subseteq> N \<union> set ms" "k \<in> N'" "resolve T' child cs = Some k" "extends T T' N" by auto
    have "child_named T' node c = Some child"
      by (rule extends_child_named [OF IH(7) Cons.prems(1,2) Some])
    with IH nd fc Some show ?thesis
      by (intro exI [of _ k] exI [of _ T'] exI [of _ N']) simp
  next
    case None
    from Cons.prems(6) obtain m ms' where ms: "ms = m # ms'" by (cases ms) auto
    have m: "m \<notin> N" "m \<noteq> NULL" using Cons.prems(4,5) ms by auto
    from insert_child_extends [OF Cons.prems(1,2) m None] obtain T1 where
      T1: "tree_node_insert_child m node \<lparr>ve_name = c, ve_file = NULL\<rparr> T = Some (m, T1)"
        "tree_ok T1 (insert m N)" "extends T T1 N" "child_named T1 node c = Some m" by blast
    have pre: "m \<in> insert m N" "distinct ms'" "set ms' \<inter> insert m N = {}" "NULL \<notin> set ms'" "length cs \<le> length ms'"
      using Cons.prems(3-6) ms by auto
    from Cons.IH [OF T1(2) pre]
    obtain k T' N' where IH: "mount_walk cs m ms' T1 = Some (k, T')" "tree_ok T' N'" "insert m N \<subseteq> N'"
      "N' \<subseteq> insert m N \<union> set ms'" "k \<in> N'" "resolve T' m cs = Some k" "extends T1 T' (insert m N)" by blast
    have "child_named T' node c = Some m"
      using extends_child_named [OF IH(7) T1(2) _ T1(4)] Cons.prems(2) by simp
    moreover have "extends T T' N"
      using extends_trans [OF T1(3) IH(7)] by auto
    moreover have "mount_walk (c # cs) node ms T = Some (k, T')"
      using nd fc None T1(1) IH(1) ms by simp
    moreover have "N \<subseteq> N'" "N' \<subseteq> N \<union> set ms" using IH(3,4) ms by auto
    ultimately show ?thesis using IH(2,5,6)
      by (intro exI [of _ k] exI [of _ T'] exI [of _ N']) simp
  qed
qed

lemma set_file_ok:
  assumes "tree_ok T N" and "n \<in> N"
  shows "\<exists>T'. set_file n f T = Some T' \<and> tree_ok T' N \<and> tree_root T' = tree_root T \<and>
     (\<forall>m. kids T' m = kids T m) \<and> (\<forall>m. name_of T' m = name_of T m) \<and>
     (\<forall>m. file_of T' m = (if m = n then f else file_of T m))"
proof -
  obtain nd where nd: "rd_tnode T n = Some nd" using tree_ok_rd [OF assms] by blast
  then have hn: "tree_heap T n = Some nd" by (auto simp: rd_tnode_def split: if_splits)
  define T' where "T' = T\<lparr>tree_heap := (tree_heap T)(n := Some (nd\<lparr>tn_value := (tn_value nd)\<lparr>ve_file := f\<rparr>\<rparr>))\<rparr>"
  have k: "kids T' m = kids T m" "parent_of T' m = parent_of T m" "tree_heap T' m = None \<longleftrightarrow> tree_heap T m = None"
    "name_of T' m = name_of T m" "file_of T' m = (if m = n then f else file_of T m)" for m
    using hn by (simp_all add: T'_def kids_def parent_of_def name_of_def file_of_def)
  have "tree_root T' = tree_root T" "tree_nodes T' = tree_nodes T" by (simp_all add: T'_def)
  with assms(1) k have "tree_ok T' N" by (simp add: tree_ok_def tree_shape_def del: not_None_eq)
  moreover have "set_file n f T = Some T'" using nd by (simp add: set_file_def wr_tnode_def T'_def)
  ultimately show ?thesis using k by (simp add: T'_def)
qed

lemma resolve_cong:
  "(\<And>m. kids T' m = kids T m) \<Longrightarrow> (\<And>m. name_of T' m = name_of T m) \<Longrightarrow> resolve T' n cs = resolve T n cs"
  by (induction cs arbitrary: n) (simp_all add: child_named_def split: option.splits)

lemma vfs_mount_ok:
  assumes "fs_tree s = Some T" and "tree_ok T N" and "f \<noteq> NULL" and "fs_files s f = Some v"
    and p: "at p = 47" "at (tl p) \<noteq> 0" "at (tl p) \<noteq> 47"
    and "distinct ms" and "set ms \<inter> N = {}" and "NULL \<notin> set ms" and "length (chop (tl p)) \<le> length ms"
  shows "\<exists>s' T' N' k. vfs_mount (Some p) f ms s = Some (NULL, s') \<and> fs_tree s' = Some T' \<and> tree_ok T' N' \<and>
     tree_root T' = tree_root T \<and> fs_root s' = fs_root s \<and>
     fs_files s' = (fs_files s)(f := Some (set_refcount (- 1) v)) \<and>
     resolve T' (tree_root T) (chop (tl p)) = Some k \<and> file_of T' k = f \<and>
     (\<forall>cs j. resolve T (tree_root T) cs = Some j \<longrightarrow> resolve T' (tree_root T) cs = Some j \<and>
        (j \<noteq> k \<longrightarrow> file_of T' j = file_of T j))"
proof -
  have root: "tree_root T \<in> N" using assms(2) by (auto simp: tree_ok_def tree_shape_def)
  obtain k T1 N' where T1: "mount_walk (chop (tl p)) (tree_root T) ms T = Some (k, T1)" "tree_ok T1 N'"
    "N \<subseteq> N'" "k \<in> N'" "resolve T1 (tree_root T) (chop (tl p)) = Some k" "extends T T1 N"
    using mount_walk_ok [OF assms(2) root assms(8-11)] by blast
  obtain T2 where T2: "set_file k f T1 = Some T2" "tree_ok T2 N'" "tree_root T2 = tree_root T1"
    "\<And>m. kids T2 m = kids T1 m" "\<And>m. name_of T2 m = name_of T1 m"
    "\<And>m. file_of T2 m = (if m = k then f else file_of T1 m)"
    using set_file_ok [OF T1(2,4), of f] by blast
  have r1: "tree_root T1 = tree_root T" using T1(6) by (simp add: extends_def)
  let ?s = "s\<lparr>fs_tree := Some T2, fs_files := (fs_files s)(f := Some (set_refcount (- 1) v))\<rparr>"
  have "vfs_mount (Some p) f ms s = Some (NULL, ?s)"
    using assms(1,3,4) p T1(1) T2(1) by (simp add: vfs_mount_def vfs_lock_def)
  moreover have "resolve T2 n cs = resolve T1 n cs" for n cs
    by (rule resolve_cong) (simp_all add: T2)
  moreover have "resolve T1 (tree_root T) cs = Some j \<and> file_of T1 j = file_of T j"
    if "resolve T (tree_root T) cs = Some j" for cs j
    using extends_resolve [OF T1(6) assms(2) root that] resolve_in [OF assms(2) root that] T1(6)
    by (simp add: extends_def)
  ultimately show ?thesis
    using T1(5) T2 r1
    by (intro exI [of _ ?s] exI [of _ T2] exI [of _ N'] exI [of _ k]) simp
qed

text \<open>The file mounted exactly at a path, and the deepest mount point on the way to a file.\<close>

definition mounted :: "ventry tree \<Rightarrow> ptr \<Rightarrow> cstring list \<Rightarrow> ptr" where
  "mounted T n cs = (case resolve T n cs of None \<Rightarrow> NULL | Some k \<Rightarrow> file_of T k)"

lemma mounted_Cons:
  "mounted T n (c # cs) = (case child_named T n c of None \<Rightarrow> NULL | Some k \<Rightarrow> mounted T k cs)"
  by (simp add: mounted_def split: option.splits)

lemma mount_point_walk_deepest:
  assumes "tree_ok T N" and "n \<in> N"
  shows "\<exists>r. mount_point_walk T n cs d best = Some r \<and>
     (r = best \<and> (\<forall>i. 0 < i \<longrightarrow> i \<le> length cs \<longrightarrow> mounted T n (take i cs) = NULL) \<or>
      (\<exists>i. 0 < i \<and> i \<le> length cs \<and> mounted T n (take i cs) \<noteq> NULL \<and>
         r = (mounted T n (take i cs), drop i cs, d + i - 1) \<and>
         (\<forall>j. i < j \<longrightarrow> j \<le> length cs \<longrightarrow> mounted T n (take j cs) = NULL)))"
  using assms(2)
proof (induction cs arbitrary: n d best)
  case (Cons c cs)
  obtain nd where nd: "rd_tnode T n = Some nd" "tn_children nd = kids T n"
    using tree_ok_rd [OF assms(1) Cons.prems] by blast
  have fc: "find_child T (kids T n) c = Some (child_named T n c)"
    using find_child_eq [OF assms(1) kids_sub [OF assms(1) Cons.prems]] by (simp add: child_named_def)
  show ?case
  proof (cases "child_named T n c")
    case None
    then have "mounted T n (take i (c # cs)) = NULL" if "0 < i" for i
      using that by (cases i) (simp_all add: mounted_Cons)
    moreover have "mount_point_walk T n (c # cs) d best = Some best" using nd fc None by simp
    ultimately show ?thesis by blast
  next
    case (Some child)
    have child: "child \<in> N" by (rule child_named_in [OF assms(1) Cons.prems Some])
    obtain e where e: "rd_tnode T child = Some e" using tree_ok_rd [OF assms(1) child] by blast
    then have fe: "ve_file (tn_value e) = file_of T child"
      by (auto simp: file_of_def rd_tnode_def split: if_splits)
    let ?best = "if file_of T child \<noteq> NULL then (file_of T child, cs, d) else best"
    have m: "mounted T n (take (Suc i) (c # cs)) = mounted T child (take i cs)" for i
      using Some by (simp add: mounted_Cons)
    have m0: "mounted T child (take 0 cs) = file_of T child" by (simp add: mounted_def)
    have run: "mount_point_walk T n (c # cs) d best = mount_point_walk T child cs (Suc d) ?best"
      using nd fc Some e fe by simp
    from Cons.IH [OF child, of "Suc d" ?best] obtain r where
      r: "mount_point_walk T child cs (Suc d) ?best = Some r" and cases:
      "r = ?best \<and> (\<forall>i. 0 < i \<longrightarrow> i \<le> length cs \<longrightarrow> mounted T child (take i cs) = NULL) \<or>
      (\<exists>i. 0 < i \<and> i \<le> length cs \<and> mounted T child (take i cs) \<noteq> NULL \<and>
         r = (mounted T child (take i cs), drop i cs, Suc d + i - 1) \<and>
         (\<forall>j. i < j \<longrightarrow> j \<le> length cs \<longrightarrow> mounted T child (take j cs) = NULL))" by blast
    from cases show ?thesis
    proof (elim disjE exE conjE)
      assume rb: "r = ?best" and deep: "\<forall>i. 0 < i \<longrightarrow> i \<le> length cs \<longrightarrow> mounted T child (take i cs) = NULL"
      have deeper: "mounted T n (take j (c # cs)) = NULL" if "1 < j" "j \<le> length (c # cs)" for j
        using that deep m by (cases j) auto
      show ?thesis
      proof (cases "file_of T child = NULL")
        case True
        have "mounted T n (take i (c # cs)) = NULL" if i: "0 < i" "i \<le> length (c # cs)" for i
        proof -
          obtain j where j: "i = Suc j" "j \<le> length cs" using i by (cases i) auto
          have "mounted T child (take j cs) = NULL" using True deep j(2) m0 by (cases j) auto
          with j(1) m [of j] show ?thesis by simp
        qed
        with True rb r run show ?thesis by auto
      next
        case False
        then have "mounted T n (take 1 (c # cs)) = file_of T child" using m [of 0] m0 by simp
        with False rb r run deeper show ?thesis
          by (intro exI [of _ r] conjI disjI2 exI [of _ 1]) auto
      qed
    next
      fix i assume i: "0 < i" "i \<le> length cs" "mounted T child (take i cs) \<noteq> NULL"
        "r = (mounted T child (take i cs), drop i cs, Suc d + i - 1)"
        "\<forall>j. i < j \<longrightarrow> j \<le> length cs \<longrightarrow> mounted T child (take j cs) = NULL"
      have "mounted T n (take j (c # cs)) = NULL" if "Suc i < j" "j \<le> length (c # cs)" for j
        using that i(5) m by (cases j) auto
      with i m r run show ?thesis
        by (intro exI [of _ r] conjI disjI2 exI [of _ "Suc i"]) auto
    qed
  qed
qed simp

lemma get_mount_point_deepest:
  assumes "fs_tree s = Some T" and "tree_ok T N" and "mounted T (tree_root T) [] = fs_root s"
    and "\<And>cs. mounted T (tree_root T) cs \<noteq> NULL \<Longrightarrow> fs_files s (mounted T (tree_root T) cs) \<noteq> None"
    and "fs_root s \<noteq> NULL"
  shows "\<exists>i v. i \<le> length cs \<and> get_mount_point s cs = Some (Some v, drop i cs, i) \<and>
     fs_files s (mounted T (tree_root T) (take i cs)) = Some v \<and>
     mounted T (tree_root T) (take i cs) \<noteq> NULL \<and>
     (\<forall>j. i < j \<longrightarrow> j \<le> length cs \<longrightarrow> mounted T (tree_root T) (take j cs) = NULL)"
proof -
  let ?M = "mounted T (tree_root T)"
  have root: "tree_root T \<in> N" using assms(2) by (auto simp: tree_ok_def tree_shape_def)
  obtain r where r: "mount_point_walk T (tree_root T) cs 1 (fs_root s, cs, 0) = Some r" and c:
    "r = (fs_root s, cs, 0) \<and> (\<forall>i. 0 < i \<longrightarrow> i \<le> length cs \<longrightarrow> ?M (take i cs) = NULL) \<or>
      (\<exists>i. 0 < i \<and> i \<le> length cs \<and> ?M (take i cs) \<noteq> NULL \<and> r = (?M (take i cs), drop i cs, 1 + i - 1) \<and>
         (\<forall>j. i < j \<longrightarrow> j \<le> length cs \<longrightarrow> ?M (take j cs) = NULL))"
    using mount_point_walk_deepest [OF assms(2) root, of cs 1 "(fs_root s, cs, 0)"] by (elim exE conjE)
  from c have "\<exists>i. i \<le> length cs \<and> ?M (take i cs) \<noteq> NULL \<and> r = (?M (take i cs), drop i cs, i) \<and>
      (\<forall>j. i < j \<longrightarrow> j \<le> length cs \<longrightarrow> ?M (take j cs) = NULL)"
  proof (elim disjE conjE)
    assume "r = (fs_root s, cs, 0)" "\<forall>i. 0 < i \<longrightarrow> i \<le> length cs \<longrightarrow> ?M (take i cs) = NULL"
    then show ?thesis using assms(3,5) by (intro exI [of _ 0]) simp
  next
    assume "\<exists>i. 0 < i \<and> i \<le> length cs \<and> ?M (take i cs) \<noteq> NULL \<and> r = (?M (take i cs), drop i cs, 1 + i - 1) \<and>
         (\<forall>j. i < j \<longrightarrow> j \<le> length cs \<longrightarrow> ?M (take j cs) = NULL)"
    then show ?thesis by (metis add_diff_cancel_left')
  qed
  then obtain i where i: "i \<le> length cs" "?M (take i cs) \<noteq> NULL" "r = (?M (take i cs), drop i cs, i)"
    "\<forall>j. i < j \<longrightarrow> j \<le> length cs \<longrightarrow> ?M (take j cs) = NULL" by blast
  from assms(4) [OF i(2)] obtain v where "fs_files s (?M (take i cs)) = Some v" by blast
  with i r assms(1) show ?thesis
    by (intro exI [of _ i] exI [of _ v]) (simp add: get_mount_point_def)
qed

section \<open>Finding a file\<close>

text \<open>The walk through the directories of the drivers that \<^verbatim>\<open>kopen\<close> is for, without links.\<close>

fun dir_walk :: "vnode \<Rightarrow> cstring list \<Rightarrow> vnode option" where
  "dir_walk v [] = Some v"
| "dir_walk v (c # cs) = (case fs_finddir v c of None \<Rightarrow> None | Some w \<Rightarrow> dir_walk w cs)"

fun no_links :: "vnode \<Rightarrow> cstring list \<Rightarrow> bool" where
  "no_links v [] = True"
| "no_links v (c # cs) = (case fs_finddir v c of None \<Rightarrow> True
     | Some w \<Rightarrow> vn_flags w AND FS_SYMLINK = 0 \<and> no_links w cs)"

definition opened :: "u32 \<Rightarrow> vnode option \<Rightarrow> kopen_result" where
  "opened flags r = (case r of None \<Rightarrow> Null | Some v \<Rightarrow> Opened (fopen_node flags v))"

lemma kopen_loop_walk:
  "cs \<noteq> [] \<Longrightarrow> no_links v cs \<Longrightarrow> kopen_loop s flags d dn v cs = Some (opened flags (dir_walk v cs))"
proof (induction cs arbitrary: v dn)
  case (Cons c cs)
  show ?case
  proof (cases "fs_finddir v c")
    case None
    then show ?thesis by (simp add: kopen_loop.simps [of s flags d dn v] opened_def)
  next
    case (Some w)
    then have l: "vn_flags w AND FS_SYMLINK = 0" "no_links w cs" using Cons.prems(2) by auto
    show ?thesis
      using Some l Cons.IH [OF _ l(2)]
      by (cases "cs = []") (simp_all add: kopen_loop.simps [of s flags d dn v] opened_def)
  qed
qed simp

lemma chop_join: "ts \<noteq> [] \<Longrightarrow> \<forall>t \<in> set ts. plain_element t \<Longrightarrow> chop (tl (join_path ts)) = ts"
proof (induction ts)
  case (Cons t ts)
  have t: "47 \<notin> set t" "t \<noteq> []" using Cons.prems by (auto simp: plain_element_def)
  obtain c u where cu: "t = c # u" using t(2) by (cases t) auto
  have tl: "tl (join_path (t # ts)) = c # (u @ join_path ts)" by (simp add: join_path_def cu)
  have tw: "takeWhile (\<lambda>x. x \<noteq> 47) (t @ join_path ts) = t"
    and dw: "tl (dropWhile (\<lambda>x. x \<noteq> 47) (t @ join_path ts)) = tl (join_path ts)"
  proof -
    have "\<forall>x \<in> set t. x \<noteq> 47" using t by auto
    moreover have "takeWhile (\<lambda>x. x \<noteq> 47) (join_path ts) = []" "dropWhile (\<lambda>x. x \<noteq> 47) (join_path ts) = join_path ts"
      by (cases ts; simp add: join_path_def)+
    ultimately show "takeWhile (\<lambda>x. x \<noteq> 47) (t @ join_path ts) = t"
      "tl (dropWhile (\<lambda>x. x \<noteq> 47) (t @ join_path ts)) = tl (join_path ts)"
      by (simp_all add: takeWhile_append dropWhile_append)
  qed
  have "chop (tl (join_path (t # ts))) = t # chop (tl (join_path ts))"
    unfolding tl chop.simps(2) using tw dw by (simp only: cu append_Cons)
  moreover have "chop (tl (join_path ts)) = ts"
    using Cons by (cases ts) (auto simp: join_path_def)
  ultimately show ?case by simp
qed simp

text \<open>Opening a file by an absolute path that is not the root, when no link is on the way: the
  file system mounted deepest on the path resolves what is left of it.\<close>

lemma kopen_walk:
  assumes "\<forall>t \<in> set ts. canonical_element t" and "ts \<noteq> []"
    and "get_mount_point s ts = Some (Some v, drop i ts, i)" and "no_links v (drop i ts)"
  shows "kopen s cwd (abs_path ts) flags = Some (opened flags (dir_walk v (drop i ts)))"
proof -
  have pl: "\<forall>t \<in> set ts. plain_element t" by (rule canonical_plain [OF assms(1)])
  have path: "canonicalize_path cwd (abs_path ts) = join_path ts"
    using canonicalize_absolute [OF assms(1), of cwd] assms(2) by (simp add: abs_path_def)
  have len: "length (join_path ts) \<noteq> 1"
    using pl assms(2) by (cases ts) (auto simp: join_path_def plain_element_def)
  have "kopen s cwd (abs_path ts) flags = (if drop i ts = [] then Some (Opened (fopen_node flags v))
      else kopen_loop s flags 0 (take i ts) v (drop i ts))"
    using assms(3) len chop_join [OF assms(2) pl]
    by (simp add: kopen_def kopen_recur.simps path Let_def)
  then show ?thesis
    using kopen_loop_walk [OF _ assms(4), of s flags 0 "take i ts"]
    by (cases "drop i ts = []") (simp_all add: opened_def)
qed

text \<open>A link that names itself: the search gives up at the eighth level with \<^verbatim>\<open>(FILE*)-2\<close>, and
  the level above takes that pointer for a node.\<close>

lemma kopen_recur_self_link:
  assumes l: "canonical_element l" and "get_mount_point s [l] = Some (Some v, [l], 0)"
    and "fs_finddir v l = Some w" and "vn_flags w AND FS_SYMLINK \<noteq> 0"
    and "vn_readlink w = Some rl" and "rl 4096 = (len, buf)" and "0 \<le> len" and "nat len < length buf"
    and "buf ! nat len = 0" and "c_string buf = 47 # l"
  shows "d \<le> 8 \<Longrightarrow> flags AND O_NOFOLLOW = 0 \<Longrightarrow>
     kopen_recur s (47 # l) flags d rel = (if d = 8 then Some (Error 2) else None)"
proof (induction "8 - d" arbitrary: d flags rel)
  have pl: "\<forall>t \<in> set [l]. plain_element t" using l by (simp add: canonical_element_def)
  have path: "canonicalize_path rel (47 # l) = 47 # l" for rel
    using canonicalize_absolute [of "[l]" rel] l by (simp add: abs_path_def join_path_def)
  have len: "length (47 # l) \<noteq> 1" "chop l = [l]"
    using l chop_join [of "[l]"] pl by (auto simp: canonical_element_def plain_element_def join_path_def)
  have step: "kopen_recur s (47 # l) flags d rel = (if d \<ge> 8 then Some (Error 2)
      else case kopen_recur s (47 # l) 0 (Suc d) (join_path []) of None \<Rightarrow> None
        | Some Null \<Rightarrow> Some (Error 5) | Some (Error _) \<Rightarrow> None
        | Some (Opened w) \<Rightarrow> Some (Opened (fopen_node flags w)))"
    if "flags AND O_NOFOLLOW = 0" for flags d rel
    unfolding kopen_recur.simps [of s "47 # l" flags d rel] kopen_loop.simps [of s flags d "[]" v "[l]"]
    using that assms(2-10) len
    by (simp add: path Let_def not_le kopen_loop.simps [of s flags d "[]" v "[l]"] split: option.splits kopen_result.splits)
  {
    case 0
    then show ?case using step by simp
  next
    case (Suc k)
    then have "kopen_recur s (47 # l) 0 (Suc d) (join_path []) = (if Suc d = 8 then Some (Error 2) else None)"
      by (intro Suc.hyps) auto
    with Suc.prems Suc.hyps(2) show ?case by (simp add: step)
  }
qed

lemma vfs_mount_NULL: "vfs_mount p f ms s = Some (e, s') \<Longrightarrow> e = NULL"
  by (auto simp: vfs_mount_def bind_eq_Some_iff split: if_splits option.splits)

text \<open>A directory made by \<^verbatim>\<open>map_vfs_directory\<close> has no device, so it lists no entry.\<close>

lemma set_device_simps [simp]: "vn_device (set_device d v) = d"
  by (cases v) simp

lemma map_vfs_directory_empty:
  assumes "map_vfs_directory c f ms s = Some s'" and "strcmp c [47] \<noteq> 0"
  shows "\<exists>v. fs_files s' f = Some v \<and> vn_device v = NULL \<and> readdir_mapper s' v i = Some None"
  using assms by (auto simp: map_vfs_directory_def readdir_mapper_def bind_eq_Some_iff dest!: vfs_mount_NULL)

text \<open>A file system type is registered once; the first registration stays.\<close>

lemma vfs_register_law:
  assumes "hm_ok {k. nul_free k} m" and "nul_free name"
  shows "\<exists>m'. vfs_register m name cback = Some (if null_join (hm_abs m name) = None then 0 else 1, m') \<and>
     hm_ok {k. nul_free k} m' \<and>
     hm_abs m' = (if null_join (hm_abs m name) = None then (hm_abs m)(name \<mapsto> Some cback) else hm_abs m)"
proof -
  have k: "name \<in> {k. nul_free k}" using assms(2) by simp
  show ?thesis
    using hm.get_law [OF assms(1) k] hm.put_law [OF assms(1) k, of "Some cback"] assms(1)
    by (auto simp: vfs_register_def)
qed

end
