(* ===== verification/Byte_Fifo.thy ===== *)
theory Byte_Fifo
  imports Prelude
begin

text \<open>
  The interface shared by the two circular byte buffers of the kernel (the ring buffer of
  \<^verbatim>\<open>libc\<close> and the pipe device of the \<^verbatim>\<open>pipe\<close> module), and the arithmetic of a circular
  buffer: the slice of an array that starts at the read pointer and wraps around.
\<close>

section \<open>Slices of a circular array\<close>

definition ring_slice :: "'a list \<Rightarrow> nat \<Rightarrow> nat \<Rightarrow> 'a list" where
  "ring_slice buf r u = map (\<lambda>i. buf ! ((r + i) mod length buf)) [0..<u]"

lemma length_ring_slice [simp]: "length (ring_slice buf r u) = u"
  by (simp add: ring_slice_def)

lemma ring_slice_0 [simp]: "ring_slice buf r 0 = []"
  by (simp add: ring_slice_def)

lemma mod_add_inj:
  fixes r i j n :: nat
  assumes "i < n" "j < n" "(r + i) mod n = (r + j) mod n"
  shows "i = j"
proof -
  from assms(3) have "(int (r + i) - int r) mod int n = (int (r + j) - int r) mod int n"
    by (metis mod_diff_left_eq zmod_int)
  with assms(1,2) show ?thesis by simp
qed

lemma ring_slice_put:
  assumes "u < length buf"
  shows "ring_slice (buf[(r + u) mod length buf := b]) r (Suc u) = ring_slice buf r u @ [b]"
proof (rule nth_equalityI)
  fix i assume "i < length (ring_slice (buf[(r + u) mod length buf := b]) r (Suc u))"
  then have i: "i < Suc u" by simp
  show "ring_slice (buf[(r + u) mod length buf := b]) r (Suc u) ! i = (ring_slice buf r u @ [b]) ! i"
  proof (cases "i = u")
    case True
    moreover have "(r + u) mod length buf < length buf"
      using assms by (intro mod_less_divisor) linarith
    ultimately show ?thesis
      by (simp add: ring_slice_def nth_append del: upt_Suc)
  next
    case False
    with i assms have "(r + u) mod length buf \<noteq> (r + i) mod length buf"
      using mod_add_inj [of u "length buf" i r] by auto
    with False i assms show ?thesis
      by (simp add: ring_slice_def nth_append del: upt_Suc)
  qed
qed simp

lemma ring_slice_get:
  assumes "0 < length buf"
  shows "ring_slice buf r (Suc u) = buf ! (r mod length buf) # ring_slice buf (Suc r mod length buf) u"
  using assms by (auto intro!: nth_equalityI simp: ring_slice_def nth_Cons' mod_simps simp del: upt_Suc)

section \<open>Pointer arithmetic\<close>

text \<open>The occupancy the read and write pointers \<open>r\<close>, \<open>w\<close> below the capacity \<open>n\<close> stand for.\<close>

definition ring_used :: "nat \<Rightarrow> nat \<Rightarrow> nat \<Rightarrow> nat" where
  "ring_used n r w = (if r \<le> w then w - r else n - r + w)"

lemma ring_used_less: "r < n \<Longrightarrow> w < n \<Longrightarrow> ring_used n r w < n"
  by (auto simp: ring_used_def)

lemma ring_used_write: "r < n \<Longrightarrow> w < n \<Longrightarrow> (r + ring_used n r w) mod n = w"
  by (auto simp: ring_used_def le_mod_geq)

lemma ring_used_put:
  assumes "r < n" "w < n" "Suc (ring_used n r w) < n"
  shows "ring_used n r (if Suc w = n then 0 else Suc w) = Suc (ring_used n r w)"
  using assms by (auto simp: ring_used_def split: if_splits)

lemma ring_used_get:
  assumes "r < n" "w < n" "r \<noteq> w"
  shows "ring_used n (if Suc r = n then 0 else Suc r) w = ring_used n r w - 1"
  using assms by (auto simp: ring_used_def split: if_splits)

lemma ring_used_pos: "r < n \<Longrightarrow> w < n \<Longrightarrow> ring_used n r w = 0 \<longleftrightarrow> r = w"
  by (auto simp: ring_used_def)

lemma word_ring_unread:
  fixes r w s :: "'a::len word"
  assumes "r < s" "w < s"
  shows "unat (if r = w then 0 else if r > w then (s - r) + w else w - r) =
     ring_used (unat s) (unat r) (unat w)"
proof (cases "r \<le> w")
  case True
  then show ?thesis
    by (auto simp: ring_used_def unat_sub word_le_nat_alt not_less word_less_nat_alt)
next
  case False
  with assms have "unat (s - r) + unat w < 2 ^ LENGTH('a)"
  proof -
    have "unat (s - r) = unat s - unat r" "unat w < unat r" "unat r < unat s"
      using False assms by (simp_all add: unat_sub word_le_nat_alt word_less_nat_alt)
    with unat_bound [of s] show ?thesis by linarith
  qed
  with False assms show ?thesis
    by (auto simp: ring_used_def unat_sub word_le_nat_alt word_less_nat_alt unat_add_lem [THEN iffD1])
qed

lemma word_ring_available:
  fixes r w s :: "'a::len word"
  assumes "r < s" "w < s"
  shows "unat (if r = w then s - 1 else if r > w then r - w - 1 else (s - w) + r - 1) =
     unat s - 1 - ring_used (unat s) (unat r) (unat w)"
proof -
  have s: "unat (s - 1) = unat s - 1"
    using assms by (metis unat_minus_one word_not_simps(1))
  show ?thesis
  proof (cases r w rule: linorder_cases)
    case equal
    with s show ?thesis by (simp add: ring_used_def)
  next
    case greater
    then have "unat (r - w) = unat r - unat w" "r - w \<noteq> 0"
      by (simp_all add: unat_sub)
    with greater assms show ?thesis
      by (auto simp: ring_used_def unat_minus_one word_less_nat_alt word_le_nat_alt)
  next
    case less
    have "unat (s - w) + unat r < 2 ^ LENGTH('a)"
    proof -
      have "unat (s - w) = unat s - unat w" "unat r < unat w" "unat w < unat s"
        using less assms by (simp_all add: unat_sub word_le_nat_alt word_less_nat_alt)
      with unat_bound [of s] show ?thesis by linarith
    qed
    then have "unat (s - w + r) = unat s - unat w + unat r"
      using assms by (simp add: unat_sub word_le_nat_alt word_less_nat_alt unat_add_lem [THEN iffD1])
    moreover from this have "s - w + r \<noteq> 0"
      using assms by (auto simp: word_less_nat_alt)
    ultimately show ?thesis
      using less assms by (auto simp: ring_used_def unat_minus_one word_less_nat_alt word_le_nat_alt)
  qed
qed

lemma word_ring_incr:
  fixes r s :: "'a::len word"
  assumes "r < s"
  shows "(if r + 1 = s then 0 else r + 1) < s"
    and "unat (if r + 1 = s then 0 else r + 1) = (if Suc (unat r) = unat s then 0 else Suc (unat r))"
proof -
  have u: "unat (r + 1) = Suc (unat r)"
    using assms by (rule unat_Suc_below)
  moreover from u have "r + 1 = s \<longleftrightarrow> Suc (unat r) = unat s"
    by (simp add: word_unat_eq_iff)
  ultimately show "(if r + 1 = s then 0 else r + 1) < s"
    and "unat (if r + 1 = s then 0 else r + 1) = (if Suc (unat r) = unat s then 0 else Suc (unat r))"
    using assms by (auto simp: word_less_nat_alt)
qed

section \<open>The interface\<close>

text \<open>
  A bounded first-in-first-out store of bytes: \<open>inv\<close> is the representation invariant,
  \<open>contents\<close> the bytes held, oldest first, and \<open>cap\<close> how many can be held.  \<open>drain\<close> and
  \<open>fill\<close> are the client's inner loops: \<open>drain k\<close> moves at most \<open>k\<close> bytes out, \<open>fill bs\<close>
  stores as many of \<open>bs\<close> as fit and returns how many bytes it stored.
\<close>

locale byte_fifo =
  fixes inv :: "'s \<Rightarrow> bool"
    and contents :: "'s \<Rightarrow> u8 list"
    and cap :: "'s \<Rightarrow> nat"
    and unread :: "'s \<Rightarrow> u32"
    and available :: "'s \<Rightarrow> u32"
    and get :: "'s \<Rightarrow> (u8 \<times> 's) option"
    and put :: "u8 \<Rightarrow> 's \<Rightarrow> 's option"
    and drain :: "nat \<Rightarrow> 's \<Rightarrow> (u8 list \<times> 's) option"
    and fill :: "u8 list \<Rightarrow> 's \<Rightarrow> (nat \<times> 's) option"
  assumes unread_law: "inv s \<Longrightarrow> unat (unread s) = length (contents s)"
    and available_law: "inv s \<Longrightarrow> unat (available s) = cap s - length (contents s)"
    and get_law: "inv s \<Longrightarrow> contents s = b # bs \<Longrightarrow>
      \<exists>s'. get s = Some (b, s') \<and> inv s' \<and> contents s' = bs \<and> cap s' = cap s"
    and put_law: "inv s \<Longrightarrow> length (contents s) < cap s \<Longrightarrow>
      \<exists>s'. put b s = Some s' \<and> inv s' \<and> contents s' = contents s @ [b] \<and> cap s' = cap s"
    and drain_0: "drain 0 s = Some ([], s)"
    and drain_Suc: "drain (Suc k) s = (if unread s > 0
      then do { (b, s) \<leftarrow> get s; (bs, s) \<leftarrow> drain k s; Some (b # bs, s) } else Some ([], s))"
    and fill_Nil: "fill [] s = Some (0, s)"
    and fill_Cons: "fill (b # bs) s = (if available s > 0
      then do { s \<leftarrow> put b s; (n, s) \<leftarrow> fill bs s; Some (Suc n, s) } else Some (0, s))"
begin

lemma unread_pos: "inv s \<Longrightarrow> unread s > 0 \<longleftrightarrow> contents s \<noteq> []"
  using unread_law [of s] by (auto simp: word_greater_zero_iff simp flip: unat_eq_0)

lemma available_pos: "inv s \<Longrightarrow> available s > 0 \<longleftrightarrow> length (contents s) < cap s"
  using available_law [of s] by (auto simp: word_greater_zero_iff simp flip: unat_eq_0)

theorem drain_correct:
  "inv s \<Longrightarrow> \<exists>s'. drain k s = Some (take k (contents s), s') \<and> inv s' \<and>
     contents s' = drop k (contents s) \<and> cap s' = cap s"
proof (induction k arbitrary: s)
  case 0
  then show ?case by (simp add: drain_0)
next
  case (Suc k)
  show ?case
  proof (cases "contents s")
    case Nil
    with Suc.prems show ?thesis by (simp add: drain_Suc unread_pos)
  next
    case (Cons b bs)
    with get_law [OF Suc.prems Cons] obtain s1 where s1: "get s = Some (b, s1)" "inv s1"
      "contents s1 = bs" "cap s1 = cap s" by blast
    from Suc.IH [OF s1(2)] s1 Cons Suc.prems show ?thesis
      by (auto simp: drain_Suc unread_pos)
  qed
qed

theorem fill_correct:
  "inv s \<Longrightarrow> \<exists>s'. fill bs s = Some (min (length bs) (cap s - length (contents s)), s') \<and> inv s' \<and>
     contents s' = contents s @ take (cap s - length (contents s)) bs \<and> cap s' = cap s"
proof (induction bs arbitrary: s)
  case Nil
  then show ?case by (simp add: fill_Nil)
next
  case (Cons b bs)
  show ?case
  proof (cases "length (contents s) < cap s")
    case False
    with Cons.prems show ?thesis by (simp add: fill_Cons available_pos)
  next
    case True
    with put_law [OF Cons.prems True, of b] obtain s1 where s1: "put b s = Some s1" "inv s1"
      "contents s1 = contents s @ [b]" "cap s1 = cap s" by blast
    obtain d where d: "cap s - length (contents s) = Suc d" "cap s1 - length (contents s1) = d"
      using True s1(3,4) by (cases "cap s - length (contents s)") auto
    from Cons.IH [OF s1(2)] s1 d True Cons.prems show ?thesis
      by (auto simp: fill_Cons available_pos)
  qed
qed

text \<open>What is filled into an empty store comes out unchanged and in order.\<close>

theorem fill_drain:
  assumes "inv s" and "contents s = []" and "length bs \<le> cap s" and "length bs \<le> k"
  shows "\<exists>s1 s2. fill bs s = Some (length bs, s1) \<and> drain k s1 = Some (bs, s2) \<and> contents s2 = []"
proof -
  from fill_correct [OF assms(1), of bs] assms obtain s1 where
    "fill bs s = Some (length bs, s1)" "inv s1" "contents s1 = bs" by (auto simp: min_def)
  with drain_correct [of s1 k] assms(4) show ?thesis by auto
qed

end

end
