(* ===== verification/Ring_Buffer.thy ===== *)
theory Ring_Buffer
  imports Byte_Fifo
begin

text \<open>
  The ring buffer of \<^verbatim>\<open>src/src/libc/data_struct/ringbuffer.cpp\<close>: a circular byte array with a
  read and a write pointer, kept one byte short of full so that equal pointers mean empty.
  The sections between \<^verbatim>\<open>spin_lock\<close> and \<^verbatim>\<open>spin_unlock\<close> are the passes \<open>rb_drain\<close> and
  \<open>rb_fill\<close>; \<open>ring_buffer_read\<close> and \<open>ring_buffer_write\<close> are the calls, in which every return
  of \<^verbatim>\<open>sleep_on\<close> is an entry of a script that says what the other processes did to the buffer
  in the meantime.  The last section interleaves a reader and a writer step by step.
\<close>

section \<open>The structure and its operations\<close>

record ring_buffer =
  rb_buffer :: "u8 list"
  rb_write_ptr :: u32
  rb_read_ptr :: u32
  rb_size :: u32
  rb_internal_stop :: bool

definition ring_buffer_unread :: "ring_buffer \<Rightarrow> u32" where
  "ring_buffer_unread rb =
     (if rb_read_ptr rb = rb_write_ptr rb then 0
      else if rb_read_ptr rb > rb_write_ptr rb then (rb_size rb - rb_read_ptr rb) + rb_write_ptr rb
      else rb_write_ptr rb - rb_read_ptr rb)"

definition ring_buffer_available :: "ring_buffer \<Rightarrow> u32" where
  "ring_buffer_available rb =
     (if rb_read_ptr rb = rb_write_ptr rb then rb_size rb - 1
      else if rb_read_ptr rb > rb_write_ptr rb then rb_read_ptr rb - rb_write_ptr rb - 1
      else (rb_size rb - rb_write_ptr rb) + rb_read_ptr rb - 1)"

definition ring_buffer_increment_read :: "ring_buffer \<Rightarrow> ring_buffer" where
  "ring_buffer_increment_read rb =
     rb\<lparr>rb_read_ptr := (if rb_read_ptr rb + 1 = rb_size rb then 0 else rb_read_ptr rb + 1)\<rparr>"

definition ring_buffer_increment_write :: "ring_buffer \<Rightarrow> ring_buffer" where
  "ring_buffer_increment_write rb =
     rb\<lparr>rb_write_ptr := (if rb_write_ptr rb + 1 = rb_size rb then 0 else rb_write_ptr rb + 1)\<rparr>"

text \<open>The accesses \<^verbatim>\<open>buffer[read_ptr]\<close> and \<^verbatim>\<open>buffer[write_ptr]\<close>, undefined outside the array,
  each with the increment that follows it.\<close>

definition rb_get :: "ring_buffer \<Rightarrow> (u8 \<times> ring_buffer) option" where
  "rb_get rb = (if unat (rb_read_ptr rb) < length (rb_buffer rb)
     then Some (rb_buffer rb ! unat (rb_read_ptr rb), ring_buffer_increment_read rb) else None)"

definition rb_put :: "u8 \<Rightarrow> ring_buffer \<Rightarrow> ring_buffer option" where
  "rb_put b rb = (if unat (rb_write_ptr rb) < length (rb_buffer rb)
     then Some (ring_buffer_increment_write
       (rb\<lparr>rb_buffer := (rb_buffer rb)[unat (rb_write_ptr rb) := b]\<rparr>)) else None)"

text \<open>The inner loops; the first argument of \<open>rb_drain\<close> is \<^verbatim>\<open>size - collected\<close>.\<close>

fun rb_drain :: "nat \<Rightarrow> ring_buffer \<Rightarrow> (u8 list \<times> ring_buffer) option" where
  "rb_drain 0 rb = Some ([], rb)"
| "rb_drain (Suc k) rb = (if ring_buffer_unread rb > 0
     then do { (b, rb) \<leftarrow> rb_get rb; (bs, rb) \<leftarrow> rb_drain k rb; Some (b # bs, rb) }
     else Some ([], rb))"

fun rb_fill :: "u8 list \<Rightarrow> ring_buffer \<Rightarrow> (nat \<times> ring_buffer) option" where
  "rb_fill [] rb = Some (0, rb)"
| "rb_fill (b # bs) rb = (if ring_buffer_available rb > 0
     then do { rb \<leftarrow> rb_put b rb; (n, rb) \<leftarrow> rb_fill bs rb; Some (Suc n, rb) }
     else Some (0, rb))"

text \<open>
  A script entry describes one return of \<^verbatim>\<open>sleep_on\<close>: whether the sleep was interrupted, and
  the buffer and the rest \<open>w\<close> of the world as the other processes left them.  A call returns
  its result with the part of the script it did not use; \<open>None\<close> as the result means that the
  caller is still asleep when the script ends.
\<close>

type_synonym 'w wakeup = "ring_buffer \<times> 'w \<Rightarrow> bool \<times> ring_buffer \<times> 'w"

fun ring_buffer_read :: "u32 \<Rightarrow> 'w wakeup list \<Rightarrow> ring_buffer \<times> 'w \<Rightarrow>
    (u8 list option \<times> 'w wakeup list \<times> ring_buffer \<times> 'w) option" where
  "ring_buffer_read sz env (rb, w) = do {
     (bs, rb) \<leftarrow> rb_drain (unat sz) rb;
     if bs \<noteq> [] then Some (Some bs, env, rb, w)
     else (case env of
       [] \<Rightarrow> Some (None, [], rb, w)
     | e # env' \<Rightarrow> (case e (rb, w) of (interrupted, rb, w) \<Rightarrow>
         if interrupted \<and> rb_internal_stop rb
         then Some (Some [], env', rb\<lparr>rb_internal_stop := False\<rparr>, w)
         else ring_buffer_read sz env' (rb, w)))
   }"

fun rb_write_loop :: "u8 list \<Rightarrow> nat \<Rightarrow> 'w wakeup list \<Rightarrow> ring_buffer \<times> 'w \<Rightarrow>
    (nat option \<times> 'w wakeup list \<times> ring_buffer \<times> 'w) option" where
  "rb_write_loop bs written env (rb, w) = (if bs = [] then Some (Some written, env, rb, w) else do {
     (n, rb) \<leftarrow> rb_fill bs rb;
     if drop n bs = [] then Some (Some (written + n), env, rb, w)
     else (case env of
       [] \<Rightarrow> Some (None, [], rb, w)
     | e # env' \<Rightarrow> (case e (rb, w) of (interrupted, rb, w) \<Rightarrow>
         if interrupted \<and> rb_internal_stop rb
         then Some (Some (written + n), env', rb\<lparr>rb_internal_stop := False\<rparr>, w)
         else rb_write_loop (drop n bs) (written + n) env' (rb, w)))
   })"

definition ring_buffer_write :: "u8 list \<Rightarrow> 'w wakeup list \<Rightarrow> ring_buffer \<times> 'w \<Rightarrow>
    (nat option \<times> 'w wakeup list \<times> ring_buffer \<times> 'w) option" where
  "ring_buffer_write bs env s = rb_write_loop bs 0 env s"

text \<open>\<open>mem\<close> is the uninitialised memory \<^verbatim>\<open>malloc(size)\<close> returned.\<close>

definition ring_buffer_create :: "u8 list \<Rightarrow> u32 \<Rightarrow> ring_buffer" where
  "ring_buffer_create mem sz = \<lparr>rb_buffer = mem, rb_write_ptr = 0, rb_read_ptr = 0,
     rb_size = sz, rb_internal_stop = False\<rparr>"

definition ring_buffer_interrupt :: "ring_buffer \<Rightarrow> ring_buffer" where
  "ring_buffer_interrupt rb = rb\<lparr>rb_internal_stop := True\<rparr>"

declare ring_buffer_read.simps [simp del] rb_write_loop.simps [simp del]

section \<open>Representation\<close>

definition rb_inv :: "ring_buffer \<Rightarrow> bool" where
  "rb_inv rb \<longleftrightarrow> length (rb_buffer rb) = unat (rb_size rb) \<and>
     rb_read_ptr rb < rb_size rb \<and> rb_write_ptr rb < rb_size rb"

definition rb_used :: "ring_buffer \<Rightarrow> nat" where
  "rb_used rb = ring_used (unat (rb_size rb)) (unat (rb_read_ptr rb)) (unat (rb_write_ptr rb))"

definition rb_contents :: "ring_buffer \<Rightarrow> u8 list" where
  "rb_contents rb = ring_slice (rb_buffer rb) (unat (rb_read_ptr rb)) (rb_used rb)"

definition rb_cap :: "ring_buffer \<Rightarrow> nat" where
  "rb_cap rb = unat (rb_size rb) - 1"

lemma rb_contents_cap: "rb_inv rb \<Longrightarrow> length (rb_contents rb) \<le> rb_cap rb"
proof -
  assume "rb_inv rb"
  then have "rb_used rb < unat (rb_size rb)"
    by (simp add: rb_inv_def rb_used_def word_less_nat_alt ring_used_less)
  then show ?thesis by (simp add: rb_contents_def rb_cap_def)
qed

lemma rb_unread_law: "rb_inv rb \<Longrightarrow> unat (ring_buffer_unread rb) = length (rb_contents rb)"
  by (simp add: rb_inv_def ring_buffer_unread_def rb_contents_def rb_used_def word_ring_unread)

lemma rb_available_law:
  "rb_inv rb \<Longrightarrow> unat (ring_buffer_available rb) = rb_cap rb - length (rb_contents rb)"
  by (simp add: rb_inv_def ring_buffer_available_def rb_contents_def rb_used_def rb_cap_def
      word_ring_available)

lemma rb_get_law:
  assumes "rb_inv rb" and "rb_contents rb = b # bs"
  shows "\<exists>rb'. rb_get rb = Some (b, rb') \<and> rb_inv rb' \<and> rb_contents rb' = bs \<and> rb_cap rb' = rb_cap rb"
proof -
  let ?n = "unat (rb_size rb)" and ?r = "unat (rb_read_ptr rb)" and ?w = "unat (rb_write_ptr rb)"
  let ?rb = "ring_buffer_increment_read rb"
  have n: "length (rb_buffer rb) = ?n" "?r < ?n" "?w < ?n" "rb_read_ptr rb < rb_size rb"
    using assms(1) by (auto simp: rb_inv_def word_less_nat_alt)
  have "length (rb_contents rb) = rb_used rb" by (simp add: rb_contents_def)
  with assms(2) obtain u where u: "rb_used rb = Suc u" by (metis length_Cons)
  then have "?r \<noteq> ?w" using n ring_used_pos [of ?r ?n ?w] by (auto simp: rb_used_def)
  with u n have u': "rb_used ?rb = u" "unat (rb_read_ptr ?rb) = Suc ?r mod ?n"
    using ring_used_get [of ?r ?n ?w] word_ring_incr [OF n(4)]
    by (auto simp: rb_used_def ring_buffer_increment_read_def)
  have "rb_contents rb = rb_buffer rb ! ?r # ring_slice (rb_buffer rb) (Suc ?r mod ?n) u"
    using ring_slice_get [of "rb_buffer rb" ?r u] n u by (simp add: rb_contents_def)
  moreover have "rb_contents ?rb = ring_slice (rb_buffer rb) (Suc ?r mod ?n) u"
    using u' by (simp add: rb_contents_def ring_buffer_increment_read_def)
  moreover have "rb_inv ?rb"
    using assms(1) word_ring_incr(1) [OF n(4)] by (simp add: rb_inv_def ring_buffer_increment_read_def)
  ultimately show ?thesis
    using assms(2) n by (auto simp: rb_get_def rb_cap_def ring_buffer_increment_read_def)
qed

lemma rb_put_law:
  assumes "rb_inv rb" and "length (rb_contents rb) < rb_cap rb"
  shows "\<exists>rb'. rb_put b rb = Some rb' \<and> rb_inv rb' \<and> rb_contents rb' = rb_contents rb @ [b] \<and>
     rb_cap rb' = rb_cap rb"
proof -
  let ?n = "unat (rb_size rb)" and ?r = "unat (rb_read_ptr rb)" and ?w = "unat (rb_write_ptr rb)"
  let ?rb = "ring_buffer_increment_write (rb\<lparr>rb_buffer := (rb_buffer rb)[?w := b]\<rparr>)"
  have n: "length (rb_buffer rb) = ?n" "?r < ?n" "?w < ?n" "rb_write_ptr rb < rb_size rb"
    using assms(1) by (auto simp: rb_inv_def word_less_nat_alt)
  have used: "Suc (rb_used rb) < ?n"
    using assms(2) by (simp add: rb_contents_def rb_cap_def)
  have ptrs: "rb_size ?rb = rb_size rb" "rb_read_ptr ?rb = rb_read_ptr rb"
    "rb_write_ptr ?rb = (if rb_write_ptr rb + 1 = rb_size rb then 0 else rb_write_ptr rb + 1)"
    by (simp_all add: ring_buffer_increment_write_def)
  have "rb_used ?rb = Suc (rb_used rb)"
    using ring_used_put [OF n(2,3)] used
    unfolding rb_used_def ptrs word_ring_incr(2) [OF n(4)] by blast
  moreover have "(?r + rb_used rb) mod ?n = ?w"
    using ring_used_write [OF n(2,3)] by (simp add: rb_used_def)
  ultimately have "rb_contents ?rb = rb_contents rb @ [b]"
    using ring_slice_put [of "rb_used rb" "rb_buffer rb" ?r b] n used
    by (simp add: rb_contents_def ring_buffer_increment_write_def)
  moreover have "rb_inv ?rb"
    using assms(1) word_ring_incr(1) [OF n(4)]
    by (simp add: rb_inv_def ring_buffer_increment_write_def split: if_splits)
  ultimately show ?thesis
    using n by (simp add: rb_put_def rb_cap_def ring_buffer_increment_write_def)
qed

interpretation rb: byte_fifo rb_inv rb_contents rb_cap ring_buffer_unread ring_buffer_available
  rb_get rb_put rb_drain rb_fill
  by unfold_locales
    (simp_all add: rb_unread_law rb_available_law rb_get_law rb_put_law)

section \<open>The calls\<close>

lemma rb_inv_create:
  "length mem = unat sz \<Longrightarrow> 0 < sz \<Longrightarrow> rb_inv (ring_buffer_create mem sz) \<and>
     rb_contents (ring_buffer_create mem sz) = [] \<and> rb_cap (ring_buffer_create mem sz) = unat sz - 1"
  by (simp add: rb_inv_def ring_buffer_create_def rb_contents_def rb_used_def ring_used_def rb_cap_def)

lemma rb_interrupt_laws [simp]:
  "rb_inv (ring_buffer_interrupt rb) = rb_inv rb"
  "rb_contents (ring_buffer_interrupt rb) = rb_contents rb"
  "rb_cap (ring_buffer_interrupt rb) = rb_cap rb"
  by (simp_all add: rb_inv_def ring_buffer_interrupt_def rb_contents_def rb_used_def rb_cap_def)

lemma rb_stop_laws [simp]:
  "rb_inv (rb\<lparr>rb_internal_stop := b\<rparr>) = rb_inv rb"
  "rb_contents (rb\<lparr>rb_internal_stop := b\<rparr>) = rb_contents rb"
  "rb_cap (rb\<lparr>rb_internal_stop := b\<rparr>) = rb_cap rb"
  by (simp_all add: rb_inv_def rb_contents_def rb_used_def rb_cap_def)

lemma ring_buffer_read_ready:
  assumes "rb_inv rb" and "rb_contents rb \<noteq> []" and "0 < sz"
  shows "\<exists>rb'. ring_buffer_read sz env (rb, w) =
       Some (Some (take (unat sz) (rb_contents rb)), env, rb', w) \<and>
     rb_inv rb' \<and> rb_contents rb' = drop (unat sz) (rb_contents rb) \<and> rb_cap rb' = rb_cap rb"
proof -
  have "take (unat sz) (rb_contents rb) \<noteq> []"
    using assms(2,3) by (simp add: word_greater_zero_iff unat_eq_0)
  with rb.drain_correct [OF assms(1), of "unat sz"] show ?thesis
    by (subst ring_buffer_read.simps) auto
qed

lemma ring_buffer_read_empty:
  assumes "rb_inv rb" and "rb_contents rb = []"
  shows "\<exists>rb'. ring_buffer_read sz [] (rb, w) = Some (None, [], rb', w) \<and>
     rb_inv rb' \<and> rb_contents rb' = [] \<and> rb_cap rb' = rb_cap rb"
  using rb.drain_correct [OF assms(1), of "unat sz"] assms(2)
  by (subst ring_buffer_read.simps) auto

lemma ring_buffer_write_fits:
  assumes "rb_inv rb" and "length (rb_contents rb) + length bs \<le> rb_cap rb"
  shows "\<exists>rb'. ring_buffer_write bs env (rb, w) = Some (Some (length bs), env, rb', w) \<and>
     rb_inv rb' \<and> rb_contents rb' = rb_contents rb @ bs \<and> rb_cap rb' = rb_cap rb"
proof (cases "bs = []")
  case True
  with assms show ?thesis
    by (simp add: ring_buffer_write_def rb_write_loop.simps)
next
  case False
  have "min (length bs) (rb_cap rb - length (rb_contents rb)) = length bs"
    "take (rb_cap rb - length (rb_contents rb)) bs = bs"
    using assms(2) by auto
  with rb.fill_correct [OF assms(1), of bs] False show ?thesis
    by (auto simp: ring_buffer_write_def rb_write_loop.simps [of bs])
qed

text \<open>
  A call that asks for no byte: whatever the other processes do, it does not return unless it
  is interrupted, and then with no byte.
\<close>

lemma ring_buffer_read_zero:
  assumes "\<And>e s. e \<in> set env \<Longrightarrow> \<not> fst (e s)"
  shows "\<exists>s'. ring_buffer_read 0 env s = Some (None, [], s')"
  using assms
proof (induction env arbitrary: s)
  case Nil
  then show ?case by (cases s) (simp add: ring_buffer_read.simps)
next
  case (Cons e env)
  obtain rb w where s: "s = (rb, w)" by (cases s)
  obtain i rb' w' where e: "e (rb, w) = (i, rb', w')" by (cases "e (rb, w)")
  have "\<not> i" using Cons.prems [of e "(rb, w)"] e by simp
  moreover have "\<exists>s'. ring_buffer_read 0 env (rb', w') = Some (None, [], s')"
    using Cons.prems by (intro Cons.IH) simp
  ultimately show ?case
    unfolding s by (subst ring_buffer_read.simps) (simp add: e)
qed

section \<open>A reader and a writer, step by step\<close>

text \<open>
  The two loops as processes.  A pass (the locked section), the \<^verbatim>\<open>wakeup_queue\<close> after it and
  the decision to sleep or return are separate steps: the lock is released before the
  wakeup, and nothing is held between the wakeup and \<^verbatim>\<open>sleep_on\<close>, so the other process may run
  in between.  \<open>rs_got\<close> and \<open>rs_sent\<close> record all bytes delivered and accepted so far.
\<close>

datatype rb_pc = Pass | Wake | Decide | Asleep

record rb_sys =
  rs_ring :: ring_buffer
  rs_reader :: rb_pc
  rs_collected :: nat
  rs_got :: "u8 list"
  rs_writer :: rb_pc
  rs_rest :: "u8 list"
  rs_sent :: "u8 list"

definition awaken :: "rb_pc \<Rightarrow> rb_pc" where
  "awaken pc = (if pc = Asleep then Pass else pc)"

inductive rb_step :: "rb_sys \<Rightarrow> rb_sys \<Rightarrow> bool" where
  read_pass: "rs_reader s = Pass \<Longrightarrow> rb_drain k (rs_ring s) = Some (bs, r) \<Longrightarrow>
     rb_step s (s\<lparr>rs_ring := r, rs_reader := Wake, rs_collected := length bs, rs_got := rs_got s @ bs\<rparr>)"
| read_wake: "rs_reader s = Wake \<Longrightarrow>
     rb_step s (s\<lparr>rs_reader := Decide, rs_writer := awaken (rs_writer s)\<rparr>)"
| read_sleep: "rs_reader s = Decide \<Longrightarrow> rs_collected s = 0 \<Longrightarrow> rb_step s (s\<lparr>rs_reader := Asleep\<rparr>)"
| read_return: "rs_reader s = Decide \<Longrightarrow> rs_collected s \<noteq> 0 \<Longrightarrow>
     rb_step s (s\<lparr>rs_reader := Pass, rs_writer := awaken (rs_writer s)\<rparr>)"
| write_pass: "rs_writer s = Pass \<Longrightarrow> rb_fill (rs_rest s) (rs_ring s) = Some (n, r) \<Longrightarrow>
     rb_step s (s\<lparr>rs_ring := r, rs_writer := Wake, rs_rest := drop n (rs_rest s),
       rs_sent := rs_sent s @ take n (rs_rest s)\<rparr>)"
| write_wake: "rs_writer s = Wake \<Longrightarrow>
     rb_step s (s\<lparr>rs_writer := Decide, rs_reader := awaken (rs_reader s)\<rparr>)"
| write_sleep: "rs_writer s = Decide \<Longrightarrow> rs_rest s \<noteq> [] \<Longrightarrow> rb_step s (s\<lparr>rs_writer := Asleep\<rparr>)"
| write_return: "rs_writer s = Decide \<Longrightarrow> rs_rest s = [] \<Longrightarrow>
     rb_step s (s\<lparr>rs_writer := Pass, rs_rest := bs, rs_reader := awaken (rs_reader s)\<rparr>)"

definition rb_start :: "u8 list \<Rightarrow> u32 \<Rightarrow> u8 list \<Rightarrow> rb_sys" where
  "rb_start mem sz bs = \<lparr>rs_ring = ring_buffer_create mem sz, rs_reader = Pass, rs_collected = 0,
     rs_got = [], rs_writer = Pass, rs_rest = bs, rs_sent = []\<rparr>"

definition rb_fifo :: "nat \<Rightarrow> rb_sys \<Rightarrow> bool" where
  "rb_fifo c s \<longleftrightarrow> rb_inv (rs_ring s) \<and> rb_cap (rs_ring s) = c \<and>
     rs_sent s = rs_got s @ rb_contents (rs_ring s)"

lemma rb_step_fifo: "rb_step s t \<Longrightarrow> rb_fifo c s \<Longrightarrow> rb_fifo c t"
proof (induction rule: rb_step.induct)
  case (read_pass s k bs r)
  with rb.drain_correct [of "rs_ring s" k] show ?case
    by (auto simp: rb_fifo_def)
next
  case (write_pass s n r)
  from write_pass.prems rb.fill_correct [of "rs_ring s" "rs_rest s"] write_pass.hyps(2)
  have "rb_inv r" "rb_contents r = rb_contents (rs_ring s) @ take n (rs_rest s)" "rb_cap r = c"
    by (auto simp: rb_fifo_def min_def split: if_splits)
  with write_pass.prems show ?case by (simp add: rb_fifo_def)
qed (simp_all add: rb_fifo_def)

lemma rb_steps_fifo: "rb_step\<^sup>*\<^sup>* s t \<Longrightarrow> rb_fifo c s \<Longrightarrow> rb_fifo c t"
  by (induction rule: rtranclp_induct) (auto dest: rb_step_fifo)

lemma rb_start_fifo:
  "length mem = unat sz \<Longrightarrow> 0 < sz \<Longrightarrow> rb_fifo (unat sz - 1) (rb_start mem sz bs)"
  by (simp add: rb_fifo_def rb_start_def rb_inv_create)

text \<open>No step is possible when both processes sleep.\<close>

inductive_cases rb_stepE: "rb_step s t"

lemma both_asleep_stuck:
  "rs_reader s = Asleep \<Longrightarrow> rs_writer s = Asleep \<Longrightarrow> \<not> rb_step s t"
  by (auto elim: rb_stepE)

text \<open>The run that gets there: the reader finds the buffer empty and wakes nobody; before it
  sleeps the writer fills the buffer, wakes nobody and sleeps.\<close>

lemma lost_wakeup:
  defines "s0 \<equiv> rb_start [0, 0] 2 [1, 2]"
  shows "\<exists>t. rb_step\<^sup>*\<^sup>* s0 t \<and> rs_reader t = Asleep \<and> rs_writer t = Asleep \<and>
     rb_contents (rs_ring t) = [1]"
proof -
  let ?r = "rs_ring s0"
  define r1 where "r1 = \<lparr>rb_buffer = [1, 0], rb_write_ptr = 1, rb_read_ptr = 0, rb_size = 2,
    rb_internal_stop = False\<rparr>"
  define s1 where "s1 = s0\<lparr>rs_ring := ?r, rs_reader := Wake, rs_collected := length ([] :: u8 list),
    rs_got := rs_got s0 @ []\<rparr>"
  define s2 where "s2 = s1\<lparr>rs_reader := Decide, rs_writer := awaken (rs_writer s1)\<rparr>"
  define s3 where "s3 = s2\<lparr>rs_ring := r1, rs_writer := Wake, rs_rest := drop 1 (rs_rest s2),
    rs_sent := rs_sent s2 @ take 1 (rs_rest s2)\<rparr>"
  define s4 where "s4 = s3\<lparr>rs_writer := Decide, rs_reader := awaken (rs_reader s3)\<rparr>"
  define s5 where "s5 = s4\<lparr>rs_writer := Asleep\<rparr>"
  define s6 where "s6 = s5\<lparr>rs_reader := Asleep\<rparr>"
  note defs = s0_def s1_def s2_def s3_def s4_def s5_def s6_def r1_def rb_start_def awaken_def
    ring_buffer_create_def ring_buffer_unread_def ring_buffer_available_def rb_put_def
    ring_buffer_increment_write_def
  have "rb_step s0 s1" unfolding s1_def
    by (rule rb_step.read_pass [where k = 1]) (simp_all add: defs)
  moreover have "rb_step s1 s2" unfolding s2_def
    by (rule rb_step.read_wake) (simp add: defs)
  moreover have "rb_step s2 s3" unfolding s3_def
    by (rule rb_step.write_pass) (simp_all add: defs)
  moreover have "rb_step s3 s4" unfolding s4_def
    by (rule rb_step.write_wake) (simp add: defs)
  moreover have "rb_step s4 s5" unfolding s5_def
    by (rule rb_step.write_sleep) (simp_all add: defs)
  moreover have "rb_step s5 s6" unfolding s6_def
    by (rule rb_step.read_sleep) (simp_all add: defs)
  ultimately have "rb_step\<^sup>*\<^sup>* s0 s6"
    by (meson converse_rtranclp_into_rtranclp rtranclp.rtrancl_refl)
  then show ?thesis
    by (intro exI [of _ s6])
      (simp add: defs rb_contents_def rb_used_def ring_used_def ring_slice_def)
qed

end
