(* ===== verification/Pipe.thy ===== *)
theory Pipe
  imports Ring_Buffer
begin

text \<open>
  The two pipe drivers.  \<^verbatim>\<open>src/modules/fs/pipe.cpp\<close>: a pipe device is a circular byte buffer
  of its own, with a reference count and a \<^verbatim>\<open>dead\<close> flag; it is the second provider of the
  byte store interface.  \<^verbatim>\<open>src/modules/fs/unixpipe.cpp\<close>: a unix pipe is a ring buffer with a
  read end and a write end that are closed independently, read and written one byte per call
  of the ring buffer.
\<close>

section \<open>The pipe device\<close>

record pipe_device =
  p_buffer :: "u8 list"
  p_write_ptr :: u32
  p_read_ptr :: u32
  p_size :: u32
  p_refcount :: u32
  p_dead :: bool

definition pipe_unread :: "pipe_device \<Rightarrow> u32" where
  "pipe_unread p =
     (if p_read_ptr p = p_write_ptr p then 0
      else if p_read_ptr p > p_write_ptr p then (p_size p - p_read_ptr p) + p_write_ptr p
      else p_write_ptr p - p_read_ptr p)"

definition pipe_available :: "pipe_device \<Rightarrow> u32" where
  "pipe_available p =
     (if p_read_ptr p = p_write_ptr p then p_size p - 1
      else if p_read_ptr p > p_write_ptr p then p_read_ptr p - p_write_ptr p - 1
      else (p_size p - p_write_ptr p) + p_read_ptr p - 1)"

definition pipe_increment_read :: "pipe_device \<Rightarrow> pipe_device" where
  "pipe_increment_read p =
     (let p = p\<lparr>p_read_ptr := p_read_ptr p + 1\<rparr> in
      if p_read_ptr p = p_size p then p\<lparr>p_read_ptr := 0\<rparr> else p)"

definition pipe_increment_write :: "pipe_device \<Rightarrow> pipe_device" where
  "pipe_increment_write p =
     (let p = p\<lparr>p_write_ptr := p_write_ptr p + 1\<rparr> in
      if p_write_ptr p = p_size p then p\<lparr>p_write_ptr := 0\<rparr> else p)"

definition pipe_get :: "pipe_device \<Rightarrow> (u8 \<times> pipe_device) option" where
  "pipe_get p = (if unat (p_read_ptr p) < length (p_buffer p)
     then Some (p_buffer p ! unat (p_read_ptr p), pipe_increment_read p) else None)"

definition pipe_put :: "u8 \<Rightarrow> pipe_device \<Rightarrow> pipe_device option" where
  "pipe_put b p = (if unat (p_write_ptr p) < length (p_buffer p)
     then Some (pipe_increment_write (p\<lparr>p_buffer := (p_buffer p)[unat (p_write_ptr p) := b]\<rparr>))
     else None)"

fun pipe_drain :: "nat \<Rightarrow> pipe_device \<Rightarrow> (u8 list \<times> pipe_device) option" where
  "pipe_drain 0 p = Some ([], p)"
| "pipe_drain (Suc k) p = (if pipe_unread p > 0
     then do { (b, p) \<leftarrow> pipe_get p; (bs, p) \<leftarrow> pipe_drain k p; Some (b # bs, p) }
     else Some ([], p))"

fun pipe_fill :: "u8 list \<Rightarrow> pipe_device \<Rightarrow> (nat \<times> pipe_device) option" where
  "pipe_fill [] p = Some (0, p)"
| "pipe_fill (b # bs) p = (if pipe_available p > 0
     then do { p \<leftarrow> pipe_put b p; (n, p) \<leftarrow> pipe_fill bs p; Some (Suc n, p) }
     else Some (0, p))"

text \<open>
  The outcome of a call: it returned a value, it sent \<^verbatim>\<open>SIGPIPE\<close> to the caller and returned 0,
  or it is asleep at the end of the script (an entry is the pipe as a return of \<^verbatim>\<open>sleep_on\<close>
  finds it).
\<close>

datatype 'a pipe_outcome = Returned 'a | Sigpipe | Sleeping

fun read_pipe_loop :: "u32 \<Rightarrow> (pipe_device \<Rightarrow> pipe_device) list \<Rightarrow> pipe_device \<Rightarrow>
    (u8 list pipe_outcome \<times> pipe_device) option" where
  "read_pipe_loop sz env p = do {
     (bs, p) \<leftarrow> pipe_drain (unat sz) p;
     if bs \<noteq> [] then Some (Returned bs, p)
     else (case env of [] \<Rightarrow> Some (Sleeping, p) | e # env' \<Rightarrow> read_pipe_loop sz env' (e p))
   }"

definition read_pipe :: "u32 \<Rightarrow> (pipe_device \<Rightarrow> pipe_device) list \<Rightarrow> pipe_device \<Rightarrow>
    (u8 list pipe_outcome \<times> pipe_device) option" where
  "read_pipe sz env p = (if p_dead p then Some (Sigpipe, p) else read_pipe_loop sz env p)"

fun write_pipe_loop :: "u8 list \<Rightarrow> nat \<Rightarrow> (pipe_device \<Rightarrow> pipe_device) list \<Rightarrow> pipe_device \<Rightarrow>
    (nat pipe_outcome \<times> pipe_device) option" where
  "write_pipe_loop bs written env p = (if bs = [] then Some (Returned written, p) else do {
     (n, p) \<leftarrow> pipe_fill bs p;
     if drop n bs = [] then Some (Returned (written + n), p)
     else (case env of [] \<Rightarrow> Some (Sleeping, p)
       | e # env' \<Rightarrow> write_pipe_loop (drop n bs) (written + n) env' (e p))
   })"

definition write_pipe :: "u8 list \<Rightarrow> (pipe_device \<Rightarrow> pipe_device) list \<Rightarrow> pipe_device \<Rightarrow>
    (nat pipe_outcome \<times> pipe_device) option" where
  "write_pipe bs env p = (if p_dead p then Some (Sigpipe, p) else write_pipe_loop bs 0 env p)"

definition open_pipe :: "pipe_device \<Rightarrow> pipe_device" where
  "open_pipe p = p\<lparr>p_refcount := p_refcount p + 1\<rparr>"

definition close_pipe :: "pipe_device \<Rightarrow> pipe_device" where
  "close_pipe p = p\<lparr>p_refcount := p_refcount p - 1\<rparr>"

text \<open>The device part of \<^verbatim>\<open>make_pipe_\<close>; \<open>mem\<close> is what \<^verbatim>\<open>malloc(size)\<close> returned.\<close>

definition make_pipe :: "u8 list \<Rightarrow> u32 \<Rightarrow> pipe_device" where
  "make_pipe mem sz = \<lparr>p_buffer = mem, p_write_ptr = 0, p_read_ptr = 0, p_size = sz,
     p_refcount = 0, p_dead = False\<rparr>"

text \<open>The \<^verbatim>\<open>ioctl\<close> of the module, on the pipe of the packet; other requests return 0.\<close>

definition pipe_mod_ioctl :: "nat \<Rightarrow> pipe_device \<Rightarrow> u32" where
  "pipe_mod_ioctl request p =
     (if request = 1 then pipe_unread p else if request = 2 then pipe_available p else 0)"

declare read_pipe_loop.simps [simp del] write_pipe_loop.simps [simp del]

subsection \<open>The device is a ring buffer\<close>

text \<open>The fields the two structures share; every operation commutes with this view, which
  carries the laws of the ring buffer over to the pipe.\<close>

definition as_ring :: "pipe_device \<Rightarrow> ring_buffer" where
  "as_ring p = \<lparr>rb_buffer = p_buffer p, rb_write_ptr = p_write_ptr p, rb_read_ptr = p_read_ptr p,
     rb_size = p_size p, rb_internal_stop = False\<rparr>"

lemma as_ring_unread: "ring_buffer_unread (as_ring p) = pipe_unread p"
  by (simp add: ring_buffer_unread_def pipe_unread_def as_ring_def)

lemma as_ring_available: "ring_buffer_available (as_ring p) = pipe_available p"
  by (simp add: ring_buffer_available_def pipe_available_def as_ring_def)

lemma as_ring_get: "rb_get (as_ring p) = map_option (map_prod id as_ring) (pipe_get p)"
  by (simp add: rb_get_def pipe_get_def as_ring_def ring_buffer_increment_read_def
      pipe_increment_read_def Let_def)

lemma as_ring_put: "rb_put b (as_ring p) = map_option as_ring (pipe_put b p)"
  by (simp add: rb_put_def pipe_put_def as_ring_def ring_buffer_increment_write_def
      pipe_increment_write_def Let_def)

definition pipe_inv :: "pipe_device \<Rightarrow> bool" where
  "pipe_inv p = rb_inv (as_ring p)"

definition pipe_contents :: "pipe_device \<Rightarrow> u8 list" where
  "pipe_contents p = rb_contents (as_ring p)"

definition pipe_cap :: "pipe_device \<Rightarrow> nat" where
  "pipe_cap p = rb_cap (as_ring p)"

lemma pipe_get_law:
  assumes "pipe_inv p" and "pipe_contents p = b # bs"
  shows "\<exists>p'. pipe_get p = Some (b, p') \<and> pipe_inv p' \<and> pipe_contents p' = bs \<and> pipe_cap p' = pipe_cap p"
  using rb.get_law [of "as_ring p" b bs] assms
  by (auto simp: as_ring_get pipe_inv_def pipe_contents_def pipe_cap_def)

lemma pipe_put_law:
  assumes "pipe_inv p" and "length (pipe_contents p) < pipe_cap p"
  shows "\<exists>p'. pipe_put b p = Some p' \<and> pipe_inv p' \<and> pipe_contents p' = pipe_contents p @ [b] \<and>
     pipe_cap p' = pipe_cap p"
  using rb.put_law [of "as_ring p" b] assms
  by (auto simp: as_ring_put pipe_inv_def pipe_contents_def pipe_cap_def)

interpretation pipe: byte_fifo pipe_inv pipe_contents pipe_cap pipe_unread pipe_available
  pipe_get pipe_put pipe_drain pipe_fill
proof unfold_locales
  show "pipe_inv p \<Longrightarrow> unat (pipe_unread p) = length (pipe_contents p)" for p
    using rb.unread_law [of "as_ring p"] by (simp add: as_ring_unread pipe_inv_def pipe_contents_def)
  show "pipe_inv p \<Longrightarrow> unat (pipe_available p) = pipe_cap p - length (pipe_contents p)" for p
    using rb.available_law [of "as_ring p"]
    by (simp add: as_ring_available pipe_inv_def pipe_contents_def pipe_cap_def)
qed (simp_all add: pipe_get_law pipe_put_law)

lemma make_pipe_inv:
  "length mem = unat sz \<Longrightarrow> 0 < sz \<Longrightarrow> pipe_inv (make_pipe mem sz) \<and>
     pipe_contents (make_pipe mem sz) = [] \<and> pipe_cap (make_pipe mem sz) = unat sz - 1"
  using rb_inv_create [of mem sz]
  by (simp add: pipe_inv_def pipe_contents_def pipe_cap_def as_ring_def make_pipe_def
      ring_buffer_create_def)

lemma open_close_pipe: "close_pipe (open_pipe p) = p"
  by (simp add: open_pipe_def close_pipe_def)

lemma read_pipe_ready:
  assumes "pipe_inv p" and "\<not> p_dead p" and "pipe_contents p \<noteq> []" and "0 < sz"
  shows "\<exists>p'. read_pipe sz env p = Some (Returned (take (unat sz) (pipe_contents p)), p') \<and>
     pipe_inv p' \<and> pipe_contents p' = drop (unat sz) (pipe_contents p) \<and> pipe_cap p' = pipe_cap p"
proof -
  have "take (unat sz) (pipe_contents p) \<noteq> []"
    using assms(3,4) by (simp add: word_greater_zero_iff unat_eq_0)
  with pipe.drain_correct [OF assms(1), of "unat sz"] assms(2) show ?thesis
    by (auto simp: read_pipe_def read_pipe_loop.simps)
qed

lemma write_pipe_fits:
  assumes "pipe_inv p" and "\<not> p_dead p" and "length (pipe_contents p) + length bs \<le> pipe_cap p"
  shows "\<exists>p'. write_pipe bs env p = Some (Returned (length bs), p') \<and> pipe_inv p' \<and>
     pipe_contents p' = pipe_contents p @ bs \<and> pipe_cap p' = pipe_cap p"
proof (cases "bs = []")
  case True
  with assms show ?thesis by (simp add: write_pipe_def write_pipe_loop.simps)
next
  case False
  have "min (length bs) (pipe_cap p - length (pipe_contents p)) = length bs"
    "take (pipe_cap p - length (pipe_contents p)) bs = bs"
    using assms(3) by auto
  with pipe.fill_correct [OF assms(1), of bs] False assms(2) show ?thesis
    by (auto simp: write_pipe_def write_pipe_loop.simps [of bs])
qed

text \<open>
  A write larger than the free space: the first pass stores what fits; a reader that empties
  the pipe while the writer sleeps lets the next pass go on where the first one stopped.
\<close>

lemma write_pipe_sleeps:
  assumes "pipe_inv p" and "\<not> p_dead p" and "pipe_cap p < length (pipe_contents p) + length bs"
    and "length (pipe_contents p) \<le> pipe_cap p"
  shows "\<exists>p'. write_pipe bs [] p = Some (Sleeping, p') \<and> pipe_inv p' \<and>
     pipe_contents p' = pipe_contents p @ take (pipe_cap p - length (pipe_contents p)) bs"
proof -
  have "bs \<noteq> []" using assms(3,4) by auto
  moreover have "drop (min (length bs) (pipe_cap p - length (pipe_contents p))) bs \<noteq> []"
    using assms(3,4) by auto
  ultimately show ?thesis
    using pipe.fill_correct [OF assms(1), of bs] assms(2)
    by (auto simp: write_pipe_def write_pipe_loop.simps [of bs])
qed

section \<open>Unix pipes\<close>

text \<open>
  The state of a unix pipe is its ring buffer and the two flags \<^verbatim>\<open>read_closed\<close> and
  \<^verbatim>\<open>write_closed\<close>; the flags are the part of the world that others may change while a call of
  the ring buffer sleeps.
\<close>

record pipe_ends =
  read_closed :: bool
  write_closed :: bool

type_synonym unix_pipe = "ring_buffer \<times> pipe_ends"

lemma ring_buffer_read_env:
  "ring_buffer_read sz env s = Some (Some bs, env', s') \<Longrightarrow>
     length env' \<le> length env \<and> (bs = [] \<longrightarrow> length env' < length env) \<and> length bs \<le> unat sz"
proof (induction sz env s rule: ring_buffer_read.induct)
  case (1 sz env rb w)
  have drain: "length bs \<le> k" if "rb_drain k rb = Some (bs, rb')" for k rb bs rb'
    using that by (induction k arbitrary: rb bs rb') (auto split: if_splits simp: bind_eq_Some_iff)
  from 1 show ?case
    by (fastforce simp: ring_buffer_read.simps [of sz env] bind_eq_Some_iff
        split: if_splits list.splits prod.splits dest: drain)
qed

lemma rb_write_loop_env:
  "rb_write_loop bs m env s = Some (Some n, env', s') \<Longrightarrow> length env' \<le> length env \<and> m \<le> n \<and>
     (bs \<noteq> [] \<longrightarrow> n = m \<longrightarrow> length env' < length env)"
proof (induction bs m env s rule: rb_write_loop.induct)
  case (1 bs m env rb w)
  from 1 show ?case
    by (fastforce simp: rb_write_loop.simps [of bs] bind_eq_Some_iff
        split: if_splits list.splits prod.splits)
qed

text \<open>The outcome of a call: finished, finished with \<^verbatim>\<open>SIGPIPE\<close> handled for the caller, or
  asleep at the end of the script.\<close>

datatype 'a up_outcome = Finished 'a | Broken 'a | Waiting

text \<open>\<open>k\<close> is \<^verbatim>\<open>size - read\<close>, \<open>acc\<close> the bytes read so far; 10 is the newline.\<close>

function read_unixpipe_loop :: "nat \<Rightarrow> u8 list \<Rightarrow> pipe_ends wakeup list \<Rightarrow> unix_pipe \<Rightarrow>
    (u8 list up_outcome \<times> unix_pipe) option" where
  "read_unixpipe_loop k acc env s =
     (if k = 0 then Some (Finished acc, s)
      else if write_closed (snd s) \<and> ring_buffer_unread (fst s) = 0 then Some (Finished acc, s)
      else case ring_buffer_read 1 env s of
        None \<Rightarrow> None
      | Some (None, env', s') \<Rightarrow> Some (Waiting, s')
      | Some (Some bs, env', s') \<Rightarrow>
          if bs \<noteq> [] \<and> hd bs = 10 then Some (Finished (acc @ bs), s')
          else read_unixpipe_loop (k - length bs) (acc @ bs) env' s')"
  by pat_completeness auto
termination
proof (relation "measure (\<lambda>(k, acc, env, s). k + length env)", goal_cases)
  case (2 k acc env s x2 r p bs env' s')
  then have "length env' \<le> length env \<and> (bs = [] \<longrightarrow> length env' < length env)"
    using ring_buffer_read_env [of 1 env s] by fastforce
  with 2(1) show ?case by (cases bs) auto
qed simp

definition read_unixpipe :: "u32 \<Rightarrow> pipe_ends wakeup list \<Rightarrow> unix_pipe \<Rightarrow>
    (u8 list up_outcome \<times> unix_pipe) option" where
  "read_unixpipe sz env s = read_unixpipe_loop (unat sz) [] env s"

function write_unixpipe_loop :: "u8 list \<Rightarrow> nat \<Rightarrow> pipe_ends wakeup list \<Rightarrow> unix_pipe \<Rightarrow>
    (nat up_outcome \<times> unix_pipe) option" where
  "write_unixpipe_loop bs written env s =
     (case bs of [] \<Rightarrow> Some (Finished written, s)
      | b # bs' \<Rightarrow>
        if read_closed (snd s) then Some (Broken written, s)
        else (case ring_buffer_write [b] env s of
          None \<Rightarrow> None
        | Some (None, env', s') \<Rightarrow> Some (Waiting, s')
        | Some (Some n, env', s') \<Rightarrow> write_unixpipe_loop (drop n bs) (written + n) env' s'))"
  by pat_completeness auto
termination
proof (relation "measure (\<lambda>(bs, written, env, s). length bs + length env)", goal_cases)
  case (2 bs written env s b bs' x2 r p n env' s')
  then have "length env' \<le> length env \<and> (n = 0 \<longrightarrow> length env' < length env)"
    using rb_write_loop_env [of "[b]" 0 env s] by (fastforce simp: ring_buffer_write_def)
  with 2(1) show ?case by (cases n) auto
qed simp

definition write_unixpipe :: "u8 list \<Rightarrow> pipe_ends wakeup list \<Rightarrow> unix_pipe \<Rightarrow>
    (nat up_outcome \<times> unix_pipe) option" where
  "write_unixpipe bs env s = write_unixpipe_loop bs 0 env s"

definition close_read_pipe :: "unix_pipe \<Rightarrow> unix_pipe" where
  "close_read_pipe s = (case s of (rb, e) \<Rightarrow>
     (if write_closed e then rb else ring_buffer_interrupt rb, e\<lparr>read_closed := True\<rparr>))"

definition close_write_pipe :: "unix_pipe \<Rightarrow> unix_pipe" where
  "close_write_pipe s = (case s of (rb, e) \<Rightarrow>
     (if read_closed e then rb else ring_buffer_interrupt rb, e\<lparr>write_closed := True\<rparr>))"

definition make_unix_pipe :: "u8 list \<Rightarrow> unix_pipe" where
  "make_unix_pipe mem = (ring_buffer_create mem 512, \<lparr>read_closed = False, write_closed = False\<rparr>)"

declare read_unixpipe_loop.simps [simp del] write_unixpipe_loop.simps [simp del]

subsection \<open>What a call returns\<close>

text \<open>The bytes up to and including the first newline, or all bytes when there is none.\<close>

fun line_of :: "u8 list \<Rightarrow> u8 list" where
  "line_of [] = []"
| "line_of (b # bs) = (if b = 10 then [b] else b # line_of bs)"

lemma ring_buffer_read_1:
  assumes "rb_inv rb" and "rb_contents rb = b # cs"
  shows "\<exists>rb'. ring_buffer_read 1 env (rb, w) = Some (Some [b], env, rb', w) \<and>
     rb_inv rb' \<and> rb_contents rb' = cs \<and> rb_cap rb' = rb_cap rb"
  using ring_buffer_read_ready [OF assms(1), of 1 env w] assms(2) by simp

text \<open>As long as the buffer holds what the call needs (a newline, enough bytes, or all bytes
  of a closed pipe), the call does not sleep and returns one line.\<close>

lemma read_unixpipe_loop_line:
  assumes "rb_inv rb" and "k \<le> length (rb_contents rb) \<or> 10 \<in> set (rb_contents rb) \<or> write_closed e"
  shows "\<exists>rb'. read_unixpipe_loop k acc env (rb, e) =
       Some (Finished (acc @ line_of (take k (rb_contents rb))), rb', e) \<and> rb_inv rb' \<and>
     rb_contents rb' = drop (length (line_of (take k (rb_contents rb)))) (rb_contents rb)"
  using assms
proof (induction k arbitrary: acc rb)
  case 0
  then show ?case by (simp add: read_unixpipe_loop.simps)
next
  case (Suc k)
  have empty: "ring_buffer_unread rb = 0 \<longleftrightarrow> rb_contents rb = []"
    using rb.unread_pos [OF Suc.prems(1)] by (simp add: word_greater_zero_iff)
  show ?case
  proof (cases "rb_contents rb")
    case Nil
    with Suc.prems empty show ?thesis
      by (subst read_unixpipe_loop.simps) simp
  next
    case (Cons b cs)
    from ring_buffer_read_1 [OF Suc.prems(1) Cons, of env e] obtain rb1 where
      rb1: "ring_buffer_read 1 env (rb, e) = Some (Some [b], env, rb1, e)" "rb_inv rb1"
        "rb_contents rb1 = cs" by blast
    show ?thesis
    proof (cases "b = 10")
      case True
      with Cons empty rb1 show ?thesis
        by (subst read_unixpipe_loop.simps) simp
    next
      case False
      with Suc.prems(2) Cons rb1(3) have
        "k \<le> length (rb_contents rb1) \<or> 10 \<in> set (rb_contents rb1) \<or> write_closed e" by auto
      from Suc.IH [OF rb1(2) this, of "acc @ [b]"] False Cons empty rb1 show ?thesis
        by (subst read_unixpipe_loop.simps) auto
    qed
  qed
qed

lemma read_unixpipe_line:
  assumes "rb_inv rb"
    and "unat sz \<le> length (rb_contents rb) \<or> 10 \<in> set (rb_contents rb) \<or> write_closed e"
  shows "\<exists>rb'. read_unixpipe sz env (rb, e) =
       Some (Finished (line_of (take (unat sz) (rb_contents rb))), rb', e) \<and> rb_inv rb' \<and>
     rb_contents rb' = drop (length (line_of (take (unat sz) (rb_contents rb)))) (rb_contents rb)"
  using read_unixpipe_loop_line [OF assms(1), of "unat sz" e "[]" env] assms(2)
  by (simp add: read_unixpipe_def)

lemma write_unixpipe_loop_fits:
  assumes "rb_inv rb" and "\<not> read_closed e" and "length (rb_contents rb) + length bs \<le> rb_cap rb"
  shows "\<exists>rb'. write_unixpipe_loop bs m env (rb, e) = Some (Finished (m + length bs), rb', e) \<and>
     rb_inv rb' \<and> rb_contents rb' = rb_contents rb @ bs \<and> rb_cap rb' = rb_cap rb"
  using assms
proof (induction bs arbitrary: m rb)
  case Nil
  then show ?case by (simp add: write_unixpipe_loop.simps)
next
  case (Cons b bs)
  from ring_buffer_write_fits [OF Cons.prems(1), of "[b]" env e] Cons.prems(3) obtain rb1 where
    rb1: "ring_buffer_write [b] env (rb, e) = Some (Some 1, env, rb1, e)" "rb_inv rb1"
      "rb_contents rb1 = rb_contents rb @ [b]" "rb_cap rb1 = rb_cap rb" by auto
  from Cons.IH [OF rb1(2) Cons.prems(2), of "m + 1"] rb1 Cons.prems(2,3) show ?case
    by (subst write_unixpipe_loop.simps) auto
qed

lemma write_unixpipe_fits:
  assumes "rb_inv rb" and "\<not> read_closed e" and "length (rb_contents rb) + length bs \<le> rb_cap rb"
  shows "\<exists>rb'. write_unixpipe bs env (rb, e) = Some (Finished (length bs), rb', e) \<and>
     rb_inv rb' \<and> rb_contents rb' = rb_contents rb @ bs \<and> rb_cap rb' = rb_cap rb"
  using write_unixpipe_loop_fits [OF assms, of 0 env] by (simp add: write_unixpipe_def)

lemma write_unixpipe_broken:
  "read_closed (snd s) \<Longrightarrow> bs \<noteq> [] \<Longrightarrow> write_unixpipe bs env s = Some (Broken 0, s)"
  by (cases bs) (simp_all add: write_unixpipe_def write_unixpipe_loop.simps)

lemma line_of_append: "10 \<notin> set bs \<Longrightarrow> line_of (bs @ 10 # cs) = bs @ [10]"
  by (induction bs) auto

text \<open>A line written into a fresh pipe is read back as it was, whatever follows it.\<close>

lemma unixpipe_roundtrip:
  assumes "length mem = 512" and "10 \<notin> set line" and "length line + 1 + length tail \<le> 511"
    and "length line < unat sz"
  shows "\<exists>s s'. write_unixpipe (line @ 10 # tail) env (make_unix_pipe mem) =
       Some (Finished (length line + 1 + length tail), s) \<and>
     read_unixpipe sz env' s = Some (Finished (line @ [10]), s') \<and> rb_contents (fst s') = tail"
proof -
  let ?e = "\<lparr>read_closed = False, write_closed = False\<rparr>"
  have inv: "rb_inv (ring_buffer_create mem 512)" "rb_contents (ring_buffer_create mem 512) = []"
    "rb_cap (ring_buffer_create mem 512) = 511"
    using rb_inv_create [of mem 512] assms(1) by auto
  obtain rb where rb: "write_unixpipe (line @ 10 # tail) env (make_unix_pipe mem) =
      Some (Finished (length line + 1 + length tail), rb, ?e)" "rb_inv rb"
    "rb_contents rb = line @ 10 # tail"
    using write_unixpipe_fits [of _ ?e "line @ 10 # tail" env, OF inv(1)] inv(2,3) assms(3)
    by (auto simp: make_unix_pipe_def)
  obtain k where k: "unat sz = length line + Suc k"
    using assms(4) less_imp_Suc_add by fastforce
  then have "line_of (take (unat sz) (rb_contents rb)) = line @ [10]"
    using rb(3) assms(2) by (simp add: line_of_append)
  with read_unixpipe_line [OF rb(2), of sz ?e env'] rb show ?thesis
    by auto
qed

end
