(* ===== verification/Ext2_Block.thy ===== *)
theory Ext2_Block
  imports Prelude
begin

text \<open>
  The block layer of the ext2 driver, \<^verbatim>\<open>src/src/modules/fs/ext2.cpp\<close>: reading and writing blocks
  directly or through the cache with its least-recently-used replacement.  The block device is
  given by the bytes its last transfer at every byte offset left there; all transfers of
  blocks go to \<^verbatim>\<open>block_no * block_size\<close>, computed in 32 bits.  \<open>store\<close> is the abstract view: the contents
  of every block, wherever the newest copy of it is.
\<close>

section \<open>What the rest of the driver needs of blocks\<close>

datatype e_code = E_SUCCESS | E_BADBLOCK | E_NOSPACE | E_BADPARENT

text \<open>
  \<open>content s b\<close> is what block \<open>b\<close> holds; \<open>left s\<close> bounds from below how many more operations are
  sure to succeed, and \<open>frame s\<close> is the part of the state that no block operation changes.
\<close>

locale block_store =
  fixes inv :: "'s \<Rightarrow> bool"
    and valid :: "'s \<Rightarrow> u32 \<Rightarrow> bool"
    and content :: "'s \<Rightarrow> u32 \<Rightarrow> u8 list"
    and width :: "'s \<Rightarrow> nat"
    and left :: "'s \<Rightarrow> nat"
    and frame :: "'s \<Rightarrow> 'm"
    and rd :: "u32 \<Rightarrow> u8 list \<Rightarrow> 's \<Rightarrow> (e_code \<times> u8 list \<times> 's) option"
    and wr :: "u32 \<Rightarrow> u8 list \<Rightarrow> 's \<Rightarrow> (e_code \<times> 's) option"
  assumes read_law: "inv s \<Longrightarrow> valid s b \<Longrightarrow> 0 < left s \<Longrightarrow>
      \<exists>s'. rd b buff s = Some (E_SUCCESS, content s b, s') \<and> inv s' \<and> frame s' = frame s \<and>
        left s \<le> Suc (left s') \<and> (\<forall>b'. valid s b' \<longrightarrow> content s' b' = content s b')"
    and write_law: "inv s \<Longrightarrow> valid s b \<Longrightarrow> length buff = width s \<Longrightarrow> 0 < left s \<Longrightarrow>
      \<exists>s'. wr b buff s = Some (E_SUCCESS, s') \<and> inv s' \<and> frame s' = frame s \<and>
        left s \<le> Suc (left s') \<and> (\<forall>b'. valid s b' \<longrightarrow> content s' b' = (if b' = b then buff else content s b'))"
    and length_law: "inv s \<Longrightarrow> valid s b \<Longrightarrow> length (content s b) = width s"
    and frame_law: "frame s' = frame s \<Longrightarrow> valid s' = valid s \<and> width s' = width s"
begin

text \<open>\<open>evolves n upd s s'\<close>: at most \<open>n\<close> operations led from \<open>s\<close> to \<open>s'\<close>, and the contents became
  \<open>upd\<close> of what they were.\<close>

definition evolves :: "nat \<Rightarrow> ((u32 \<Rightarrow> u8 list) \<Rightarrow> u32 \<Rightarrow> u8 list) \<Rightarrow> 's \<Rightarrow> 's \<Rightarrow> bool" where
  "evolves n upd s s' \<longleftrightarrow> inv s' \<and> frame s' = frame s \<and> left s \<le> left s' + n \<and>
     (\<forall>b. valid s b \<longrightarrow> content s' b = upd (content s) b)"

lemma read_evolves:
  "inv s \<Longrightarrow> valid s b \<Longrightarrow> 0 < left s \<Longrightarrow>
     \<exists>s'. rd b buff s = Some (E_SUCCESS, content s b, s') \<and> evolves 1 (\<lambda>c. c) s s'"
  using read_law [of s b buff] by (auto simp: evolves_def)

lemma write_evolves:
  "inv s \<Longrightarrow> valid s b \<Longrightarrow> length buff = width s \<Longrightarrow> 0 < left s \<Longrightarrow>
     \<exists>s'. wr b buff s = Some (E_SUCCESS, s') \<and> evolves 1 (\<lambda>c. c(b := buff)) s s'"
  using write_law [of s b buff] by (auto simp: evolves_def)

text \<open>The read, change and write back of one block.\<close>

lemma update_evolves:
  assumes "inv s" and "valid s b" and "1 < left s" and "length (f (content s b)) = width s"
  shows "\<exists>s1 s2. rd b buff s = Some (E_SUCCESS, content s b, s1) \<and>
     wr b (f (content s b)) s1 = Some (E_SUCCESS, s2) \<and> evolves 1 (\<lambda>c. c) s s1 \<and>
     evolves 2 (\<lambda>c. c(b := f (c b))) s s2"
proof -
  obtain s1 where s1: "rd b buff s = Some (E_SUCCESS, content s b, s1)" "evolves 1 (\<lambda>c. c) s s1"
    using read_evolves [OF assms(1,2)] assms(3) by auto
  then have "inv s1" "valid s1 = valid s" "width s1 = width s" "0 < left s1"
    using assms(3) frame_law [of s1 s] by (auto simp: evolves_def)
  then obtain s2 where "wr b (f (content s b)) s1 = Some (E_SUCCESS, s2)"
    "evolves 1 (\<lambda>c. c(b := f (content s b))) s1 s2"
    using write_evolves [of s1 b "f (content s b)"] assms(2,4) by auto
  with s1 \<open>valid s1 = valid s\<close> show ?thesis by (auto simp: evolves_def)
qed

end

section \<open>The file system object\<close>

record cache_entry =
  ce_block_no :: u32
  ce_last_use :: u32
  ce_dirty :: bool
  ce_block :: "u8 list"

text \<open>The super block and the block group descriptors are kept as the bytes that are read and
  written; \<open>fs_cache\<close> is \<open>None\<close> when the pointer \<^verbatim>\<open>disk_cache\<close> is \<^verbatim>\<open>NULL\<close>.\<close>

record ext2_fs =
  fs_superblock :: "u8 list"
  fs_block_groups :: "u8 list"
  fs_disk :: "u32 \<Rightarrow> u8 list"
  fs_block_size :: u32
  fs_pointer_per_block :: u32
  fs_inodes_per_group :: u32
  fs_block_group_count :: u32
  fs_cache :: "cache_entry list option"
  fs_cache_time :: u32
  fs_using_cache :: bool
  fs_bgd_block_span :: u8
  fs_bgd_offset :: u8
  fs_inode_size :: u32

abbreviation bsize :: "ext2_fs \<Rightarrow> nat" where
  "bsize fs \<equiv> unat (fs_block_size fs)"

section \<open>The cache\<close>

definition get_cache_time :: "ext2_fs \<Rightarrow> u32 \<times> ext2_fs" where
  "get_cache_time fs = (fs_cache_time fs, fs\<lparr>fs_cache_time := fs_cache_time fs + 1\<rparr>)"

definition dev_write :: "u32 \<Rightarrow> u8 list \<Rightarrow> ext2_fs \<Rightarrow> ext2_fs" where
  "dev_write off bs fs = fs\<lparr>fs_disk := (fs_disk fs)(off := bs)\<rparr>"

definition set_entry :: "nat \<Rightarrow> cache_entry \<Rightarrow> ext2_fs \<Rightarrow> ext2_fs" where
  "set_entry n e fs = fs\<lparr>fs_cache := map_option (\<lambda>c. c[n := e]) (fs_cache fs)\<rparr>"

definition cache_flush_dirty :: "nat \<Rightarrow> cache_entry list \<Rightarrow> ext2_fs \<Rightarrow> ext2_fs" where
  "cache_flush_dirty n c fs = (let e = c ! n in
     set_entry n (e\<lparr>ce_dirty := False\<rparr>) (dev_write (ce_block_no e * fs_block_size fs) (ce_block e) fs))"

text \<open>The search of both functions: the entry of the block, or else the oldest entry;
  \<^verbatim>\<open>oldest_age\<close> starts at \<^verbatim>\<open>UINT32_MAX\<close> and \<^verbatim>\<open>oldest\<close> at -1, here \<open>None\<close>.\<close>

datatype cache_hit = Hit nat | Miss "nat option"

fun cache_search :: "u32 \<Rightarrow> cache_entry list \<Rightarrow> nat \<Rightarrow> nat option \<Rightarrow> u32 \<Rightarrow> cache_hit" where
  "cache_search b [] i oldest age = Miss oldest"
| "cache_search b (e # es) i oldest age =
     (if ce_block_no e = b then Hit i
      else if ce_last_use e < age then cache_search b es (Suc i) (Some i) (ce_last_use e)
      else cache_search b es (Suc i) oldest age)"

text \<open>The entry \<open>n\<close> is flushed when it is dirty, to make room.\<close>

definition make_room :: "nat \<Rightarrow> cache_entry list \<Rightarrow> ext2_fs \<Rightarrow> ext2_fs" where
  "make_room n c fs = (if ce_dirty (c ! n) then cache_flush_dirty n c fs else fs)"

definition write_block :: "u32 \<Rightarrow> u8 list \<Rightarrow> ext2_fs \<Rightarrow> (e_code \<times> ext2_fs) option" where
  "write_block b buff fs = (
     if b = 0 then Some (E_BADBLOCK, fs)
     else if length buff < bsize fs then None
     else let buff = take (bsize fs) buff in
     (case fs_cache fs of
       None \<Rightarrow> Some (E_SUCCESS, dev_write (b * fs_block_size fs) buff fs)
     | Some c \<Rightarrow>
        (case cache_search b c 0 None (- 1) of
          Hit i \<Rightarrow> (case get_cache_time fs of (t, fs) \<Rightarrow>
            Some (E_SUCCESS, set_entry i ((c ! i)\<lparr>ce_last_use := t, ce_dirty := True, ce_block := buff\<rparr>) fs))
        | Miss None \<Rightarrow> None
        | Miss (Some n) \<Rightarrow> (case get_cache_time (make_room n c fs) of (t, fs) \<Rightarrow>
            Some (E_SUCCESS, set_entry n \<lparr>ce_block_no = b, ce_last_use = t, ce_dirty = True, ce_block = buff\<rparr> fs)))))"

text \<open>\<open>buff\<close> is the buffer before the call; an invalid block number leaves it as it is.\<close>

definition read_block :: "u32 \<Rightarrow> u8 list \<Rightarrow> ext2_fs \<Rightarrow> (e_code \<times> u8 list \<times> ext2_fs) option" where
  "read_block b buff fs = (
     if b = 0 then Some (E_BADBLOCK, buff, fs)
     else (case fs_cache fs of
       None \<Rightarrow> Some (E_SUCCESS, fs_disk fs (b * fs_block_size fs), fs)
     | Some c \<Rightarrow>
        (case cache_search b c 0 None (- 1) of
          Hit i \<Rightarrow> (case get_cache_time fs of (t, fs) \<Rightarrow>
            Some (E_SUCCESS, ce_block (c ! i), set_entry i ((c ! i)\<lparr>ce_last_use := t\<rparr>) fs))
        | Miss None \<Rightarrow> None
        | Miss (Some n) \<Rightarrow>
            (let fs = make_room n c fs; new = fs_disk fs (b * fs_block_size fs) in
             case get_cache_time fs of (t, fs) \<Rightarrow>
               Some (E_SUCCESS, new, set_entry n \<lparr>ce_block_no = b, ce_last_use = t, ce_dirty = False, ce_block = new\<rparr> fs)))))"

fun sync_entries :: "nat \<Rightarrow> nat \<Rightarrow> ext2_fs \<Rightarrow> ext2_fs" where
  "sync_entries i 0 fs = fs"
| "sync_entries i (Suc k) fs = sync_entries (Suc i) k
     (case fs_cache fs of None \<Rightarrow> fs | Some c \<Rightarrow> if ce_dirty (c ! i) then cache_flush_dirty i c fs else fs)"

definition ext2_sync :: "ext2_fs \<Rightarrow> ext2_fs" where
  "ext2_sync fs = (if \<not> fs_using_cache fs then fs
     else sync_entries 0 (case fs_cache fs of None \<Rightarrow> 0 | Some c \<Rightarrow> length c) fs)"

section \<open>The store of blocks\<close>

definition cached :: "ext2_fs \<Rightarrow> u32 \<Rightarrow> cache_entry option" where
  "cached fs b = (case fs_cache fs of None \<Rightarrow> None | Some c \<Rightarrow> find (\<lambda>e. ce_block_no e = b) c)"

definition store :: "ext2_fs \<Rightarrow> u32 \<Rightarrow> u8 list" where
  "store fs b = (case cached fs b of Some e \<Rightarrow> ce_block e | None \<Rightarrow> fs_disk fs (b * fs_block_size fs))"

text \<open>Block numbers on the disk: their byte offset does not wrap.\<close>

definition on_disk :: "ext2_fs \<Rightarrow> u32 \<Rightarrow> bool" where
  "on_disk fs b \<longleftrightarrow> unat b * bsize fs < 2 ^ 32"

text \<open>Every block is in at most one entry; the number 0 marks an unused entry.\<close>

definition cache_unique :: "cache_entry list \<Rightarrow> bool" where
  "cache_unique c \<longleftrightarrow> (\<forall>i < length c. \<forall>j < length c.
     ce_block_no (c ! i) = ce_block_no (c ! j) \<longrightarrow> ce_block_no (c ! i) \<noteq> 0 \<longrightarrow> i = j)"

text \<open>An entry: the block is on the disk and has the right length, and a clean entry holds what is
  on the disk.\<close>

definition entry_ok :: "ext2_fs \<Rightarrow> cache_entry \<Rightarrow> bool" where
  "entry_ok fs e \<longleftrightarrow> (if ce_block_no e = 0 then \<not> ce_dirty e else
     length (ce_block e) = bsize fs \<and> on_disk fs (ce_block_no e) \<and>
     (\<not> ce_dirty e \<longrightarrow> ce_block e = fs_disk fs (ce_block_no e * fs_block_size fs)))"

text \<open>The search takes an entry only if its time is below the largest one; \<open>budget\<close> is a number of
  operations after which that still is so.\<close>

definition cache_ok :: "ext2_fs \<Rightarrow> cache_entry list \<Rightarrow> bool" where
  "cache_ok fs c \<longleftrightarrow> c \<noteq> [] \<and> cache_unique c \<and>
     (\<forall>e \<in> set c. ce_last_use e \<le> fs_cache_time fs \<and> entry_ok fs e)"

definition fs_ok :: "ext2_fs \<Rightarrow> bool" where
  "fs_ok fs \<longleftrightarrow> 0 < bsize fs \<and>
     (\<forall>b. b \<noteq> 0 \<longrightarrow> on_disk fs b \<longrightarrow> length (fs_disk fs (b * fs_block_size fs)) = bsize fs) \<and>
     (case fs_cache fs of None \<Rightarrow> True | Some c \<Rightarrow> cache_ok fs c)"

definition budget :: "ext2_fs \<Rightarrow> nat" where
  "budget fs = (if fs_cache fs = None then 2 ^ 32 else 2 ^ 32 - 1 - unat (fs_cache_time fs))"

text \<open>All of the object but the disk and the cache.\<close>

definition meta :: "ext2_fs \<Rightarrow> ext2_fs" where
  "meta fs = fs\<lparr>fs_disk := (\<lambda>_. []), fs_cache := None, fs_cache_time := 0\<rparr>"

lemma on_disk_inj:
  assumes "on_disk fs b" and "on_disk fs b'" and "0 < bsize fs"
    and "b * fs_block_size fs = b' * fs_block_size fs"
  shows "b = b'"
proof -
  have "unat (x * fs_block_size fs) = unat x * bsize fs" if "on_disk fs x" for x
    using that by (simp add: on_disk_def unat_word_ariths)
  with assms have "unat b * bsize fs = unat b' * bsize fs" by metis
  with assms(3) show ?thesis by (simp add: word_unat_eq_iff)
qed

lemma find_entry:
  assumes "cache_unique c" and "i < length c" and "ce_block_no (c ! i) = b" and "b \<noteq> 0"
  shows "find (\<lambda>e. ce_block_no e = b) c = Some (c ! i)"
proof -
  have "ce_block_no (c ! j) \<noteq> b" if "j < i" for j
    using assms that unfolding cache_unique_def by (metis less_irrefl less_trans)
  with assms show ?thesis unfolding find_Some_iff by blast
qed

lemma find_entry_None:
  "find (\<lambda>e. ce_block_no e = b) c = None \<longleftrightarrow> (\<forall>i < length c. ce_block_no (c ! i) \<noteq> b)"
  by (auto simp: find_None_iff in_set_conv_nth)

lemma find_entry_update:
  assumes "cache_unique c" and "n < length c" and "cache_unique (c[n := e])" and "b \<noteq> 0"
  shows "find (\<lambda>e. ce_block_no e = b) (c[n := e]) =
     (if ce_block_no e = b then Some e else if ce_block_no (c ! n) = b then None
      else find (\<lambda>e. ce_block_no e = b) c)"
proof (cases "ce_block_no e = b")
  case True
  with find_entry [OF assms(3), of n b] assms show ?thesis by simp
next
  case False
  show ?thesis
  proof (cases "\<exists>i < length c. i \<noteq> n \<and> ce_block_no (c ! i) = b")
    case True
    then obtain i where i: "i < length c" "i \<noteq> n" "ce_block_no (c ! i) = b" by blast
    then have "ce_block_no (c ! n) \<noteq> b" using assms(1,2,4) by (auto simp: cache_unique_def)
    with find_entry [OF assms(3), of i b] find_entry [OF assms(1), of i b] i assms(4) False
    show ?thesis by simp
  next
    case none: False
    have "find (\<lambda>e. ce_block_no e = b) (c[n := e]) = None"
      unfolding find_entry_None
    proof (intro allI impI)
      fix i assume "i < length (c[n := e])"
      then show "ce_block_no (c[n := e] ! i) \<noteq> b" using none False by (cases "i = n") auto
    qed
    moreover have "find (\<lambda>e. ce_block_no e = b) c = None" if "ce_block_no (c ! n) \<noteq> b"
      unfolding find_entry_None using none that by auto
    ultimately show ?thesis using False by auto
  qed
qed

lemma cache_unique_update:
  assumes "cache_unique c" and "n < length c"
    and "ce_block_no e = ce_block_no (c ! n) \<or> (\<forall>i < length c. ce_block_no (c ! i) \<noteq> ce_block_no e)"
  shows "cache_unique (c[n := e])"
  unfolding cache_unique_def
proof (intro allI impI)
  fix i j assume ij: "i < length (c[n := e])" "j < length (c[n := e])"
    "ce_block_no (c[n := e] ! i) = ce_block_no (c[n := e] ! j)" "ce_block_no (c[n := e] ! i) \<noteq> 0"
  have u: "ce_block_no (c ! x) = ce_block_no e \<longrightarrow> ce_block_no e \<noteq> 0 \<longrightarrow> x = n" if "x < length c" for x
    using assms that unfolding cache_unique_def by metis
  consider "i = n" "j = n" | "i = n" "j \<noteq> n" | "i \<noteq> n" "j = n" | "i \<noteq> n" "j \<noteq> n" by blast
  then show "i = j"
  proof cases
    case 1
    then show ?thesis by simp
  next
    case 2
    then have "ce_block_no (c ! j) = ce_block_no e" "ce_block_no e \<noteq> 0" using ij assms(2) by auto
    with u [of j] ij(2) 2 show ?thesis by simp
  next
    case 3
    then have "ce_block_no (c ! i) = ce_block_no e" "ce_block_no e \<noteq> 0" using ij assms(2) by auto
    with u [of i] ij(1) 3 show ?thesis by simp
  next
    case 4
    then have "ce_block_no (c ! i) = ce_block_no (c ! j)" "ce_block_no (c ! i) \<noteq> 0" using ij by auto
    with ij(1,2) assms(1) show ?thesis unfolding cache_unique_def by simp
  qed
qed

text \<open>What the search finds.\<close>

lemma cache_search_Hit:
  "cache_search b es i oldest age = Hit j \<Longrightarrow> i \<le> j \<and> j < i + length es \<and> ce_block_no (es ! (j - i)) = b"
proof (induction es arbitrary: i oldest age)
  case (Cons e es)
  show ?case
  proof (cases "ce_block_no e = b")
    case False
    with Cons.prems obtain o' a' where "cache_search b es (Suc i) o' a' = Hit j"
      by (auto split: if_splits)
    from Cons.IH [OF this] show ?thesis by (auto simp: nth_Cons')
  qed (use Cons.prems in auto)
qed simp

lemma cache_search_Miss:
  "cache_search b es i oldest age = Miss r \<Longrightarrow> (\<forall>e \<in> set es. ce_block_no e \<noteq> b) \<and>
     (r = oldest \<and> (\<forall>e \<in> set es. age \<le> ce_last_use e) \<or> (\<exists>n. r = Some n \<and> i \<le> n \<and> n < i + length es))"
proof (induction es arbitrary: i oldest age)
  case (Cons e es)
  then have ne: "ce_block_no e \<noteq> b" by (auto split: if_splits)
  show ?case
  proof (cases "ce_last_use e < age")
    case True
    with Cons.prems ne have "cache_search b es (Suc i) (Some i) (ce_last_use e) = Miss r" by simp
    from Cons.IH [OF this] ne show ?thesis by auto
  next
    case False
    with Cons.prems ne have "cache_search b es (Suc i) oldest age = Miss r" by simp
    from Cons.IH [OF this] ne False show ?thesis by (auto simp: not_less)
  qed
qed simp

lemma cache_search_cases:
  assumes "\<exists>e \<in> set c. ce_last_use e < - 1"
  shows "(\<exists>i. cache_search b c 0 None (- 1) = Hit i \<and> i < length c \<and> ce_block_no (c ! i) = b) \<or>
     (\<exists>n. cache_search b c 0 None (- 1) = Miss (Some n) \<and> n < length c \<and> (\<forall>i < length c. ce_block_no (c ! i) \<noteq> b))"
proof (cases "cache_search b c 0 None (- 1)")
  case (Hit i)
  with cache_search_Hit [OF Hit] show ?thesis by auto
next
  case (Miss r)
  from cache_search_Miss [OF Miss] assms have "\<forall>e \<in> set c. ce_block_no e \<noteq> b" "\<exists>n. r = Some n \<and> n < length c"
    by (auto simp: not_less [symmetric])
  with Miss show ?thesis by auto
qed

lemma get_cache_time_simps:
  "get_cache_time fs = (t, fs') \<longleftrightarrow> t = fs_cache_time fs \<and> fs' = fs\<lparr>fs_cache_time := fs_cache_time fs + 1\<rparr>"
  by (auto simp: get_cache_time_def)

section \<open>Reading and writing\<close>

lemma fs_ok_cache: "fs_ok fs \<Longrightarrow> fs_cache fs = Some c \<Longrightarrow> cache_ok fs c"
  by (simp add: fs_ok_def)

lemma cache_ok_search:
  assumes "cache_ok fs c" and "fs_cache_time fs < - 1"
  shows "\<exists>e \<in> set c. ce_last_use e < - 1"
  using assms unfolding cache_ok_def by (cases c) (auto intro: le_less_trans)

lemma budget_time:
  assumes "fs_cache fs \<noteq> None" and "0 < budget fs"
  shows "fs_cache_time fs < - 1" and "unat (fs_cache_time fs + 1) = Suc (unat (fs_cache_time fs))"
proof -
  have m: "unat (- 1 :: u32) = 2 ^ 32 - 1" by (simp add: unsigned_minus_1_eq_mask mask_eq_exp_minus_1)
  have t: "unat (fs_cache_time fs) < 2 ^ 32 - 1" using assms by (auto simp: budget_def split: if_splits)
  with m show "fs_cache_time fs < - 1" by (simp add: word_less_nat_alt)
  then show "unat (fs_cache_time fs + 1) = Suc (unat (fs_cache_time fs))"
    by (rule unat_Suc_below)
qed

text \<open>Replacing entry \<open>n\<close> by \<open>e\<close> at the current time.\<close>

lemma store_set_entry:
  assumes c: "fs_cache fs = Some c" "cache_unique c" "n < length c" "cache_unique (c[n := e])" and "b \<noteq> 0"
  shows "store (set_entry n e fs) b =
     (if ce_block_no e = b then ce_block e
      else if ce_block_no (c ! n) = b then fs_disk fs (b * fs_block_size fs) else store fs b)"
  using find_entry_update [OF c(2-4) assms(5)] c(1)
  by (simp add: store_def cached_def set_entry_def split: option.split)

lemma cache_ok_update:
  assumes "cache_ok fs c" and "n < length c" and "cache_unique (c[n := e])"
    and "entry_ok fs' e" and "ce_last_use e \<le> fs_cache_time fs'" and "fs_cache_time fs \<le> fs_cache_time fs'"
    and "\<And>i. i < length c \<Longrightarrow> i \<noteq> n \<Longrightarrow> entry_ok fs' (c ! i)"
  shows "cache_ok fs' (c[n := e])"
  unfolding cache_ok_def
proof (intro conjI ballI)
  fix x assume "x \<in> set (c[n := e])"
  then obtain i where i: "i < length c" "x = c[n := e] ! i" by (auto simp: in_set_conv_nth)
  have "c ! i \<in> set c" using i(1) by simp
  then have "ce_last_use (c ! i) \<le> fs_cache_time fs'"
    using assms(1,6) unfolding cache_ok_def by (meson order_trans)
  then show "ce_last_use x \<le> fs_cache_time fs'" "entry_ok fs' x"
    using i assms(2,4,5,7) by (cases "i = n"; simp)+
qed (use assms in \<open>auto simp: cache_ok_def\<close>)

lemma store_time [simp]: "store (fs\<lparr>fs_cache_time := t\<rparr>) b = store fs b"
  by (simp add: store_def cached_def split: option.split)

lemma entry_ok_cong:
  "fs_disk fs' (ce_block_no e * fs_block_size fs) = fs_disk fs (ce_block_no e * fs_block_size fs) \<Longrightarrow>
     fs_block_size fs' = fs_block_size fs \<Longrightarrow> entry_ok fs' e = entry_ok fs e"
  by (simp add: entry_ok_def on_disk_def)

text \<open>Making room: the entry is clean afterwards and no block changes.\<close>

lemma make_room_ok:
  assumes "fs_ok fs" and c: "fs_cache fs = Some c" and "n < length c"
  defines "fs' \<equiv> make_room n c fs"
  shows "fs_ok fs' \<and> (\<forall>b. b \<noteq> 0 \<longrightarrow> on_disk fs b \<longrightarrow> store fs' b = store fs b) \<and> meta fs' = meta fs \<and> fs_cache_time fs' = fs_cache_time fs \<and>
     fs_cache fs' = Some (c[n := (c ! n)\<lparr>ce_dirty := False\<rparr>])"
proof (cases "ce_dirty (c ! n)")
  case False
  then have "c[n := (c ! n)\<lparr>ce_dirty := False\<rparr>] = c"
    by (metis (full_types) cache_entry.surjective cache_entry.update_convs(3) list_update_id)
  with False assms show ?thesis by (simp add: make_room_def)
next
  case True
  let ?e = "c ! n" and ?e' = "(c ! n)\<lparr>ce_dirty := False\<rparr>"
  let ?off = "ce_block_no ?e * fs_block_size fs"
  have ok: "cache_ok fs c" by (rule fs_ok_cache [OF assms(1) c])
  then have e: "entry_ok fs ?e" "cache_unique c" using assms(3) by (auto simp: cache_ok_def)
  with True have nz: "ce_block_no ?e \<noteq> 0" "length (ce_block ?e) = bsize fs" "on_disk fs (ce_block_no ?e)"
    by (auto simp: entry_ok_def split: if_splits)
  have pos: "0 < bsize fs" using assms(1) by (simp add: fs_ok_def)
  define g where "g = dev_write ?off (ce_block ?e) fs"
  have g: "fs_disk g = (fs_disk fs)(?off := ce_block ?e)" "fs_block_size g = fs_block_size fs"
    "fs_cache g = Some c" "fs_cache_time g = fs_cache_time fs" "meta g = meta fs"
    by (simp_all add: g_def dev_write_def c meta_def)
  have fs': "fs' = set_entry n ?e' g"
    by (simp add: fs'_def make_room_def True cache_flush_dirty_def Let_def g_def)
  have uniq: "cache_unique (c[n := ?e'])" by (rule cache_unique_update [OF e(2) assms(3)]) simp
  have disk: "fs_disk g (b * fs_block_size fs) = (if b = ce_block_no ?e then ce_block ?e else fs_disk fs (b * fs_block_size fs))"
    if "on_disk fs b" for b
    using on_disk_inj [OF that nz(3) pos] by (auto simp: g(1))
  have others: "entry_ok fs' (c ! i)" if "i < length c" "i \<noteq> n" for i
  proof -
    have oi: "entry_ok fs (c ! i)" using ok that by (auto simp: cache_ok_def)
    have "ce_block_no (c ! i) \<noteq> ce_block_no ?e \<or> ce_block_no (c ! i) = 0"
      using e(2) that assms(3) nz(1) unfolding cache_unique_def by metis
    then show ?thesis
    proof
      assume ne: "ce_block_no (c ! i) \<noteq> ce_block_no ?e"
      show ?thesis
      proof (cases "ce_block_no (c ! i) = 0")
        case True
        with oi show ?thesis by (simp add: entry_ok_def)
      next
        case False
        with oi have "on_disk fs (ce_block_no (c ! i))" by (simp add: entry_ok_def)
        from disk [OF this] ne have
          "fs_disk fs' (ce_block_no (c ! i) * fs_block_size fs) = fs_disk fs (ce_block_no (c ! i) * fs_block_size fs)"
          by (simp add: fs' set_entry_def)
        from entry_ok_cong [OF this] oi show ?thesis by (simp add: fs' set_entry_def g(2))
      qed
    qed (use oi in \<open>simp add: entry_ok_def\<close>)
  qed
  have "cache_ok fs' (c[n := ?e'])"
    using ok
    by (rule cache_ok_update [OF _ assms(3) uniq _ _ _ others])
      (use nz ok assms(3) in \<open>auto simp: fs' entry_ok_def set_entry_def g on_disk_def cache_ok_def\<close>)
  moreover have "length (fs_disk fs' (b * fs_block_size fs)) = bsize fs" if "b \<noteq> 0" "on_disk fs b" for b
    using disk [OF that(2)] nz(2) assms(1) that by (simp add: fs' set_entry_def fs_ok_def)
  ultimately have "fs_ok fs'"
    using pos by (simp add: fs_ok_def fs' set_entry_def g on_disk_def)
  moreover have "store fs' b = store fs b" if "b \<noteq> 0" "on_disk fs b" for b
  proof -
    have "store fs' b = (if ce_block_no ?e' = b then ce_block ?e'
      else if ce_block_no (c ! n) = b then fs_disk g (b * fs_block_size g) else store g b)"
      unfolding fs' by (rule store_set_entry [OF g(3) e(2) assms(3) uniq that(1)])
    moreover have "store fs (ce_block_no ?e) = ce_block ?e"
      using find_entry [OF e(2) assms(3) refl nz(1)] c by (simp add: store_def cached_def)
    moreover have "store g b = store fs b" if "ce_block_no ?e \<noteq> b"
      using that disk [OF \<open>on_disk fs b\<close>] by (simp add: store_def cached_def g c split: option.split)
    ultimately show ?thesis by auto
  qed
  ultimately show ?thesis
    by (simp add: fs' set_entry_def g meta_def) (use g(5) in \<open>simp add: meta_def\<close>)
qed

text \<open>Putting an entry with the current time into the cache and advancing the time.\<close>

lemma put_entry_ok:
  assumes "fs_ok fs" and c: "fs_cache fs = Some c" and "n < length c" and "cache_unique (c[n := e])"
    and "entry_ok fs e" and "ce_last_use e = fs_cache_time fs" and "0 < budget fs"
  defines "fs' \<equiv> set_entry n e (fs\<lparr>fs_cache_time := fs_cache_time fs + 1\<rparr>)"
  shows "fs_ok fs'" and "meta fs' = meta fs" and "budget fs \<le> Suc (budget fs')"
    and "b \<noteq> 0 \<Longrightarrow> store fs' b = (if ce_block_no e = b then ce_block e
      else if ce_block_no (c ! n) = b then fs_disk fs (b * fs_block_size fs) else store fs b)"
proof -
  let ?g = "fs\<lparr>fs_cache_time := fs_cache_time fs + 1\<rparr>"
  have ne: "fs_cache fs \<noteq> None" using c by simp
  note t = budget_time [OF ne assms(7)]
  have ok: "cache_ok fs c" by (rule fs_ok_cache [OF assms(1) c])
  then have u: "cache_unique c" by (simp add: cache_ok_def)
  have le: "fs_cache_time fs \<le> fs_cache_time fs + 1" using t(2) by (simp add: word_le_nat_alt)
  have eo: "entry_ok fs' x = entry_ok fs x" for x
    by (rule entry_ok_cong) (simp_all add: fs'_def set_entry_def)
  have oc: "entry_ok fs (c ! i)" if "i < length c" for i using ok that by (simp add: cache_ok_def)
  have "cache_ok fs' (c[n := e])"
    using ok by (rule cache_ok_update [OF _ assms(3,4)]) (use assms(5,6) le oc in \<open>auto simp: eo\<close>, simp_all add: fs'_def set_entry_def)
  then show "fs_ok fs'"
    using assms(1) c by (simp add: fs_ok_def fs'_def set_entry_def on_disk_def)
  show "meta fs' = meta fs" by (simp add: meta_def fs'_def set_entry_def)
  show "budget fs \<le> Suc (budget fs')" using c t(2) by (simp add: budget_def fs'_def set_entry_def)
  show "store fs' b = (if ce_block_no e = b then ce_block e
      else if ce_block_no (c ! n) = b then fs_disk fs (b * fs_block_size fs) else store fs b)" if "b \<noteq> 0"
    using store_set_entry [of ?g c n e b] c u assms(3,4) that by (simp add: fs'_def)
qed

text \<open>Replacing the entry \<open>n\<close>, which is written back before, by one for a block not in the cache.\<close>

definition replace_entry :: "nat \<Rightarrow> cache_entry list \<Rightarrow> u32 \<Rightarrow> bool \<Rightarrow> u8 list \<Rightarrow> ext2_fs \<Rightarrow> ext2_fs" where
  "replace_entry n c b d buff fs = (let g = make_room n c fs in
     set_entry n \<lparr>ce_block_no = b, ce_last_use = fs_cache_time g, ce_dirty = d, ce_block = buff\<rparr>
       (g\<lparr>fs_cache_time := fs_cache_time g + 1\<rparr>))"

lemma replace_entry_ok:
  assumes "fs_ok fs" and c: "fs_cache fs = Some c" and n: "n < length c" "\<forall>i < length c. ce_block_no (c ! i) \<noteq> b"
    and b: "b \<noteq> 0" "on_disk fs b" "length buff = bsize fs" and "0 < budget fs"
    and d: "\<not> d \<Longrightarrow> buff = fs_disk (make_room n c fs) (b * fs_block_size fs)"
  defines "fs' \<equiv> replace_entry n c b d buff fs"
  shows "fs_ok fs' \<and> meta fs' = meta fs \<and> budget fs \<le> Suc (budget fs') \<and>
     (\<forall>b'. b' \<noteq> 0 \<longrightarrow> on_disk fs b' \<longrightarrow> store fs' b' = (if b' = b then buff else store fs b'))"
proof -
  let ?g = "make_room n c fs"
  let ?c = "c[n := (c ! n)\<lparr>ce_dirty := False\<rparr>]"
  let ?e = "\<lparr>ce_block_no = b, ce_last_use = fs_cache_time ?g, ce_dirty = d, ce_block = buff\<rparr>"
  have u: "cache_unique c" using fs_ok_cache [OF assms(1) c] by (simp add: cache_ok_def)
  have g: "fs_ok ?g" "\<forall>b. b \<noteq> 0 \<longrightarrow> on_disk fs b \<longrightarrow> store ?g b = store fs b" "meta ?g = meta fs"
    "fs_cache_time ?g = fs_cache_time fs" "fs_cache ?g = Some ?c"
    using make_room_ok [OF assms(1) c n(1)] by simp_all
  have bs: "fs_block_size ?g = fs_block_size fs"
    by (simp add: make_room_def cache_flush_dirty_def set_entry_def dev_write_def Let_def)
  have n': "n < length ?c" using n(1) by simp
  have uc: "cache_unique ?c" by (rule cache_unique_update [OF u n(1)]) simp
  have uniq: "cache_unique (?c[n := ?e])"
    by (rule cache_unique_update [OF uc n']) (use n in \<open>auto simp: nth_list_update\<close>)
  have eo: "entry_ok ?g ?e" using b d bs by (simp add: entry_ok_def on_disk_def)
  have bud: "budget ?g = budget fs" using g(4,5) c by (simp add: budget_def)
  have fs': "fs' = set_entry n ?e (?g\<lparr>fs_cache_time := fs_cache_time ?g + 1\<rparr>)"
    by (simp add: fs'_def replace_entry_def Let_def)
  have "0 < budget ?g" using bud assms(8) by simp
  note put = put_entry_ok [OF g(1,5) n' uniq eo _ this, folded fs']
  have evicted: "fs_disk ?g (b' * fs_block_size ?g) = store ?g b'"
    if "ce_block_no (?c ! n) = b'" "b' \<noteq> 0" for b'
  proof -
    have "entry_ok ?g (?c ! n)" using fs_ok_cache [OF g(1,5)] nth_mem [OF n'] unfolding cache_ok_def by blast
    moreover have "cached ?g b' = Some (?c ! n)"
      using find_entry [OF uc n' that(1,2)] g(5) by (simp add: cached_def)
    ultimately show ?thesis using that n(1) by (simp add: entry_ok_def store_def)
  qed
  have "store fs' b' = (if b' = b then buff else store fs b')" if "b' \<noteq> 0" "on_disk fs b'" for b'
  proof -
    have "store fs' b' = (if b = b' then buff
        else if ce_block_no (?c ! n) = b' then fs_disk ?g (b' * fs_block_size ?g) else store ?g b')"
      using put(4) [OF _ that(1)] by simp
    then show ?thesis using evicted [OF _ that(1)] g(2) that by auto
  qed
  then show ?thesis using put(1-3) bud g(3) by simp
qed

lemma write_block_law:
  assumes "fs_ok fs" and "b \<noteq> 0" and "on_disk fs b" and "length buff = bsize fs" and "0 < budget fs"
  shows "\<exists>fs'. write_block b buff fs = Some (E_SUCCESS, fs') \<and> fs_ok fs' \<and> meta fs' = meta fs \<and>
     budget fs \<le> Suc (budget fs') \<and>
     (\<forall>b'. b' \<noteq> 0 \<longrightarrow> on_disk fs b' \<longrightarrow> store fs' b' = (if b' = b then buff else store fs b'))"
proof (cases "fs_cache fs")
  case None
  let ?fs = "dev_write (b * fs_block_size fs) buff fs"
  have pos: "0 < bsize fs" using assms(1) by (simp add: fs_ok_def)
  have disk: "fs_disk ?fs (b' * fs_block_size fs) = (if b' = b then buff else fs_disk fs (b' * fs_block_size fs))"
    if "on_disk fs b'" for b'
    using on_disk_inj [OF that assms(3) pos] by (auto simp: dev_write_def)
  then have "fs_ok ?fs" using assms(1,4) None by (auto simp: fs_ok_def dev_write_def on_disk_def)
  moreover have "store ?fs b' = (if b' = b then buff else store fs b')" if "on_disk fs b'" for b'
    using disk [OF that] None by (simp add: store_def cached_def dev_write_def)
  moreover have "write_block b buff fs = Some (E_SUCCESS, ?fs)"
    using None assms(2,4) by (simp add: write_block_def)
  ultimately show ?thesis using None by (auto simp: meta_def dev_write_def budget_def)
next
  case (Some c)
  then have ok: "cache_ok fs c" using fs_ok_cache [OF assms(1)] by simp
  then have u: "cache_unique c" by (simp add: cache_ok_def)
  have "fs_cache_time fs < - 1" using budget_time(1) [OF _ assms(5)] Some by simp
  from cache_search_cases [OF cache_ok_search [OF ok this], of b] show ?thesis
  proof (elim disjE exE conjE)
    fix i assume i: "cache_search b c 0 None (- 1) = Hit i" "i < length c" "ce_block_no (c ! i) = b"
    let ?e = "(c ! i)\<lparr>ce_last_use := fs_cache_time fs, ce_dirty := True, ce_block := buff\<rparr>"
    have uniq: "cache_unique (c[i := ?e])" by (rule cache_unique_update [OF u i(2)]) simp
    have "entry_ok fs ?e" using assms(2-4) i(3) by (simp add: entry_ok_def)
    note put = put_entry_ok [OF assms(1) Some i(2) uniq this _ assms(5)]
    have "write_block b buff fs = Some (E_SUCCESS, set_entry i ?e (fs\<lparr>fs_cache_time := fs_cache_time fs + 1\<rparr>))"
      using Some assms(2,4) i(1) by (simp add: write_block_def get_cache_time_def)
    with put i(3) show ?thesis by auto
  next
    fix n assume n: "cache_search b c 0 None (- 1) = Miss (Some n)" "n < length c"
      "\<forall>i < length c. ce_block_no (c ! i) \<noteq> b"
    have "write_block b buff fs = Some (E_SUCCESS, replace_entry n c b True buff fs)"
      using Some assms(2,4) n(1) by (simp add: write_block_def get_cache_time_def replace_entry_def Let_def)
    with replace_entry_ok [OF assms(1) Some n(2,3) assms(2-5), of True] show ?thesis by auto
  qed
qed

lemma read_block_law:
  assumes "fs_ok fs" and "b \<noteq> 0" and "on_disk fs b" and "0 < budget fs"
  shows "\<exists>fs'. read_block b buff fs = Some (E_SUCCESS, store fs b, fs') \<and> fs_ok fs' \<and> meta fs' = meta fs \<and>
     budget fs \<le> Suc (budget fs') \<and> (\<forall>b'. b' \<noteq> 0 \<longrightarrow> on_disk fs b' \<longrightarrow> store fs' b' = store fs b')"
proof (cases "fs_cache fs")
  case None
  then show ?thesis using assms by (simp add: read_block_def store_def cached_def)
next
  case (Some c)
  then have ok: "cache_ok fs c" using fs_ok_cache [OF assms(1)] by simp
  then have u: "cache_unique c" by (simp add: cache_ok_def)
  have "fs_cache_time fs < - 1" using budget_time(1) [OF _ assms(4)] Some by simp
  from cache_search_cases [OF cache_ok_search [OF ok this], of b] show ?thesis
  proof (elim disjE exE conjE)
    fix i assume i: "cache_search b c 0 None (- 1) = Hit i" "i < length c" "ce_block_no (c ! i) = b"
    let ?e = "(c ! i)\<lparr>ce_last_use := fs_cache_time fs\<rparr>"
    have uniq: "cache_unique (c[i := ?e])" by (rule cache_unique_update [OF u i(2)]) simp
    have "entry_ok fs (c ! i)" using ok i(2) by (simp add: cache_ok_def)
    then have "entry_ok fs ?e" by (simp add: entry_ok_def)
    note put = put_entry_ok [OF assms(1) Some i(2) uniq this _ assms(4)]
    have s: "store fs b = ce_block (c ! i)"
      using find_entry [OF u i(2,3) assms(2)] Some by (simp add: store_def cached_def)
    have "read_block b buff fs = Some (E_SUCCESS, store fs b, set_entry i ?e (fs\<lparr>fs_cache_time := fs_cache_time fs + 1\<rparr>))"
      using Some assms(2) i(1) s by (simp add: read_block_def get_cache_time_def)
    with put i(3) s show ?thesis by auto
  next
    fix n assume n: "cache_search b c 0 None (- 1) = Miss (Some n)" "n < length c"
      "\<forall>i < length c. ce_block_no (c ! i) \<noteq> b"
    let ?g = "make_room n c fs"
    have g: "fs_ok ?g" "\<forall>b. b \<noteq> 0 \<longrightarrow> on_disk fs b \<longrightarrow> store ?g b = store fs b"
      "fs_cache ?g = Some (c[n := (c ! n)\<lparr>ce_dirty := False\<rparr>])"
      using make_room_ok [OF assms(1) Some n(2)] by simp_all
    have bs: "fs_block_size ?g = fs_block_size fs"
      by (simp add: make_room_def cache_flush_dirty_def set_entry_def dev_write_def Let_def)
    have "cached ?g b = None"
      using n(2,3) g(3) by (simp add: cached_def find_entry_None nth_list_update)
    then have "store ?g b = fs_disk ?g (b * fs_block_size fs)" by (simp add: store_def bs)
    with g(2) assms(2,3) have disk: "fs_disk ?g (b * fs_block_size fs) = store fs b" by simp
    then have len: "length (store fs b) = bsize fs"
      using g(1) assms(2,3) bs by (auto simp: fs_ok_def on_disk_def)
    have "read_block b buff fs = Some (E_SUCCESS, store fs b, replace_entry n c b False (store fs b) fs)"
      using Some assms(2) n(1) bs disk by (simp add: read_block_def get_cache_time_def replace_entry_def Let_def)
    with replace_entry_ok [OF assms(1) Some n(2,3) assms(2,3) len assms(4), of False] disk show ?thesis by auto
  qed
qed

lemma read_write_zero:
  "read_block 0 buff fs = Some (E_BADBLOCK, buff, fs)" "write_block 0 buff fs = Some (E_BADBLOCK, fs)"
  by (simp_all add: read_block_def write_block_def)

lemma store_length:
  assumes "fs_ok fs" and "b \<noteq> 0" and "on_disk fs b"
  shows "length (store fs b) = bsize fs"
proof (cases "cached fs b")
  case None
  with assms show ?thesis by (simp add: store_def fs_ok_def)
next
  case (Some e)
  then obtain c where c: "fs_cache fs = Some c" "find (\<lambda>e. ce_block_no e = b) c = Some e"
    by (auto simp: cached_def split: option.splits)
  then have "e \<in> set c" "ce_block_no e = b" by (auto simp: find_Some_iff)
  with fs_ok_cache [OF assms(1) c(1)] assms(2) Some show ?thesis
    by (auto simp: cache_ok_def entry_ok_def store_def)
qed

definition good_block :: "ext2_fs \<Rightarrow> u32 \<Rightarrow> bool" where
  "good_block fs b \<longleftrightarrow> b \<noteq> 0 \<and> on_disk fs b"

lemma meta_block_size: "meta fs' = meta fs \<Longrightarrow> fs_block_size fs' = fs_block_size fs"
  by (metis (no_types) ext2_fs.select_convs(4) ext2_fs.surjective ext2_fs.update_convs(3,8,9) meta_def)

interpretation disk: block_store fs_ok good_block store bsize budget meta read_block write_block
proof unfold_locales
  show "fs_ok s \<Longrightarrow> good_block s b \<Longrightarrow> 0 < budget s \<Longrightarrow>
      \<exists>s'. read_block b buff s = Some (E_SUCCESS, store s b, s') \<and> fs_ok s' \<and> meta s' = meta s \<and>
        budget s \<le> Suc (budget s') \<and> (\<forall>b'. good_block s b' \<longrightarrow> store s' b' = store s b')" for s b buff
    using read_block_law [of s b buff] by (auto simp: good_block_def)
  show "fs_ok s \<Longrightarrow> good_block s b \<Longrightarrow> length buff = bsize s \<Longrightarrow> 0 < budget s \<Longrightarrow>
      \<exists>s'. write_block b buff s = Some (E_SUCCESS, s') \<and> fs_ok s' \<and> meta s' = meta s \<and>
        budget s \<le> Suc (budget s') \<and> (\<forall>b'. good_block s b' \<longrightarrow> store s' b' = (if b' = b then buff else store s b'))" for s b buff
    using write_block_law [of s b buff] by (auto simp: good_block_def)
  show "fs_ok s \<Longrightarrow> good_block s b \<Longrightarrow> length (store s b) = bsize s" for s b
    by (simp add: good_block_def store_length)
  show "meta s' = meta s \<Longrightarrow> good_block s' = good_block s \<and> bsize s' = bsize s" for s s'
    using meta_block_size [of s' s] by (auto simp: good_block_def on_disk_def fun_eq_iff)
qed

text \<open>After a flush of the cache the disk holds the store.\<close>

lemma sync_entries_ok:
  assumes "fs_ok fs" and "fs_cache fs = Some c" and "i + k = length c" and "\<forall>j < i. \<not> ce_dirty (c ! j)"
  shows "\<exists>c'. fs_ok (sync_entries i k fs) \<and> fs_cache (sync_entries i k fs) = Some c' \<and>
     (\<forall>e \<in> set c'. \<not> ce_dirty e) \<and> meta (sync_entries i k fs) = meta fs \<and>
     (\<forall>b. good_block fs b \<longrightarrow> store (sync_entries i k fs) b = store fs b)"
  using assms
proof (induction k arbitrary: i fs c)
  case 0
  then show ?case by (auto simp: in_set_conv_nth)
next
  case (Suc k)
  let ?g = "make_room i c fs"
  have step: "sync_entries i (Suc k) fs = sync_entries (Suc i) k ?g"
    using Suc.prems(2) by (simp add: make_room_def)
  have i: "i < length c" using Suc.prems(3) by simp
  let ?c = "c[i := (c ! i)\<lparr>ce_dirty := False\<rparr>]"
  have g: "fs_ok ?g" "\<forall>b. good_block fs b \<longrightarrow> store ?g b = store fs b" "meta ?g = meta fs" "fs_cache ?g = Some ?c"
    using make_room_ok [OF Suc.prems(1,2) i] by (simp_all add: good_block_def)
  have "\<forall>j < Suc i. \<not> ce_dirty (?c ! j)"
    using Suc.prems(4) i by (auto simp: nth_list_update less_Suc_eq)
  moreover have "Suc i + k = length ?c" using Suc.prems(3) by simp
  ultimately obtain c' where IH: "fs_ok (sync_entries (Suc i) k ?g)"
    "fs_cache (sync_entries (Suc i) k ?g) = Some c'" "\<forall>e \<in> set c'. \<not> ce_dirty e"
    "meta (sync_entries (Suc i) k ?g) = meta ?g"
    "\<forall>b. good_block ?g b \<longrightarrow> store (sync_entries (Suc i) k ?g) b = store ?g b"
    using Suc.IH [OF g(1,4)] by metis
  have "good_block ?g = good_block fs" using disk.frame_law [OF g(3)] by simp
  with IH g show ?case unfolding step by (intro exI [of _ c']) simp
qed

lemma ext2_sync_ok:
  assumes "fs_ok fs" and "fs_using_cache fs \<or> fs_cache fs = None"
  shows "fs_ok (ext2_sync fs) \<and>
     (\<forall>b. good_block fs b \<longrightarrow> store (ext2_sync fs) b = store fs b \<and>
        fs_disk (ext2_sync fs) (b * fs_block_size fs) = store fs b)"
proof (cases "fs_cache fs")
  case None
  then have "ext2_sync fs = fs" by (simp add: ext2_sync_def)
  with assms None show ?thesis by (simp add: store_def cached_def)
next
  case (Some c)
  with assms have "ext2_sync fs = sync_entries 0 (length c) fs" by (simp add: ext2_sync_def)
  with sync_entries_ok [OF assms(1) Some, of 0 "length c"] obtain c' where s: "fs_ok (ext2_sync fs)"
    "fs_cache (ext2_sync fs) = Some c'" "\<forall>e \<in> set c'. \<not> ce_dirty e" "meta (ext2_sync fs) = meta fs"
    "\<forall>b. good_block fs b \<longrightarrow> store (ext2_sync fs) b = store fs b" by auto
  have bs: "fs_block_size (ext2_sync fs) = fs_block_size fs" using meta_block_size [OF s(4)] .
  have "fs_disk (ext2_sync fs) (b * fs_block_size fs) = store fs b" if "good_block fs b" for b
  proof (cases "find (\<lambda>e. ce_block_no e = b) c'")
    case None
    then have "store (ext2_sync fs) b = fs_disk (ext2_sync fs) (b * fs_block_size fs)"
      using s(2) bs by (simp add: store_def cached_def)
    with s(5) that show ?thesis by simp
  next
    case (Some e)
    then have e: "e \<in> set c'" "ce_block_no e = b" by (auto simp: find_Some_iff)
    with fs_ok_cache [OF s(1,2)] have "entry_ok (ext2_sync fs) e" by (auto simp: cache_ok_def)
    with e s(3) that have "ce_block e = fs_disk (ext2_sync fs) (b * fs_block_size fs)"
      by (simp add: entry_ok_def good_block_def bs)
    moreover have "store (ext2_sync fs) b = ce_block e" using Some s(2) by (simp add: store_def cached_def)
    ultimately show ?thesis using s(5) that by simp
  qed
  with s show ?thesis by simp
qed

end
