(* ===== verification/Bytes.thy ===== *)
theory Bytes
  imports Prelude
begin

text \<open>
  Little-endian fields of structures that the code overlays on byte buffers.  An access that
  is not inside the buffer has no result.
\<close>

definition get16 :: "u8 list \<Rightarrow> nat \<Rightarrow> u16" where
  "get16 bs o' = ucast (bs ! o') OR push_bit 8 (ucast (bs ! (o' + 1)))"

definition get32 :: "u8 list \<Rightarrow> nat \<Rightarrow> u32" where
  "get32 bs o' = ucast (bs ! o') OR push_bit 8 (ucast (bs ! (o' + 1))) OR
     push_bit 16 (ucast (bs ! (o' + 2))) OR push_bit 24 (ucast (bs ! (o' + 3)))"

definition put16 :: "nat \<Rightarrow> u16 \<Rightarrow> u8 list \<Rightarrow> u8 list" where
  "put16 o' w bs = bs[o' := ucast w, o' + 1 := ucast (drop_bit 8 w)]"

definition put32 :: "nat \<Rightarrow> u32 \<Rightarrow> u8 list \<Rightarrow> u8 list" where
  "put32 o' w bs = bs[o' := ucast w, o' + 1 := ucast (drop_bit 8 w),
     o' + 2 := ucast (drop_bit 16 w), o' + 3 := ucast (drop_bit 24 w)]"

definition rd16 :: "u8 list \<Rightarrow> nat \<Rightarrow> u16 option" where
  "rd16 bs o' = (if o' + 2 \<le> length bs then Some (get16 bs o') else None)"

definition rd32 :: "u8 list \<Rightarrow> nat \<Rightarrow> u32 option" where
  "rd32 bs o' = (if o' + 4 \<le> length bs then Some (get32 bs o') else None)"

definition wr16 :: "nat \<Rightarrow> u16 \<Rightarrow> u8 list \<Rightarrow> u8 list option" where
  "wr16 o' w bs = (if o' + 2 \<le> length bs then Some (put16 o' w bs) else None)"

definition wr32 :: "nat \<Rightarrow> u32 \<Rightarrow> u8 list \<Rightarrow> u8 list option" where
  "wr32 o' w bs = (if o' + 4 \<le> length bs then Some (put32 o' w bs) else None)"

definition rd8 :: "u8 list \<Rightarrow> nat \<Rightarrow> u8 option" where
  "rd8 bs o' = (if o' < length bs then Some (bs ! o') else None)"

definition wr8 :: "nat \<Rightarrow> u8 \<Rightarrow> u8 list \<Rightarrow> u8 list option" where
  "wr8 o' w bs = (if o' < length bs then Some (bs[o' := w]) else None)"

text \<open>\<^verbatim>\<open>memcpy\<close> of the bytes \<open>src\<close> to offset \<open>o'\<close>, and from an offset.\<close>

definition copy_in :: "nat \<Rightarrow> u8 list \<Rightarrow> u8 list \<Rightarrow> u8 list option" where
  "copy_in o' src bs = (if o' + length src \<le> length bs
     then Some (take o' bs @ src @ drop (o' + length src) bs) else None)"

definition copy_out :: "nat \<Rightarrow> nat \<Rightarrow> u8 list \<Rightarrow> u8 list option" where
  "copy_out o' n bs = (if o' + n \<le> length bs then Some (take n (drop o' bs)) else None)"

lemma length_put [simp]: "length (put16 o' w bs) = length bs" "length (put32 o' v bs) = length bs"
  by (simp_all add: put16_def put32_def)

lemma get_put16 [simp]: "o' + 2 \<le> length bs \<Longrightarrow> get16 (put16 o' w bs) o' = w"
  by (rule bit_word_eqI) (auto simp: get16_def put16_def bit_simps nth_list_update)

lemma get_put32 [simp]: "o' + 4 \<le> length bs \<Longrightarrow> get32 (put32 o' w bs) o' = w"
proof (rule bit_word_eqI)
  fix n assume o: "o' + 4 \<le> length bs" and "n < LENGTH(32)"
  then consider "n < 8" | "8 \<le> n" "n < 16" | "16 \<le> n" "n < 24" | "24 \<le> n" "n < 32"
    by (auto simp: not_less [symmetric])
  then show "bit (get32 (put32 o' w bs) o') n = bit w n"
    by cases (use o in \<open>auto simp: get32_def put32_def bit_simps nth_list_update\<close>)
qed

lemma nth_put32: "i < o' \<or> o' + 4 \<le> i \<Longrightarrow> put32 o' w bs ! i = bs ! i"
  by (auto simp: put32_def)

lemma nth_put16: "i < o' \<or> o' + 2 \<le> i \<Longrightarrow> put16 o' w bs ! i = bs ! i"
  by (auto simp: put16_def)

lemma get32_put32_other: "p + 4 \<le> o' \<or> o' + 4 \<le> p \<Longrightarrow> get32 (put32 o' w bs) p = get32 bs p"
  by (auto simp: get32_def nth_put32)

lemma get32_put16_other: "p + 4 \<le> o' \<or> o' + 2 \<le> p \<Longrightarrow> get32 (put16 o' w bs) p = get32 bs p"
  by (auto simp: get32_def nth_put16)

lemma get16_put16_other: "p + 2 \<le> o' \<or> o' + 2 \<le> p \<Longrightarrow> get16 (put16 o' w bs) p = get16 bs p"
  by (auto simp: get16_def nth_put16)

lemma get16_put32_other: "p + 2 \<le> o' \<or> o' + 4 \<le> p \<Longrightarrow> get16 (put32 o' w bs) p = get16 bs p"
  by (auto simp: get16_def nth_put32)

lemma copy_in_SomeD: "copy_in o' src bs = Some bs' \<Longrightarrow> length bs' = length bs \<and> take (length src) (drop o' bs') = src"
  by (auto simp: copy_in_def split: if_splits)

end
