(* ===== verification/Ext2_Inode.thy ===== *)
theory Ext2_Inode
  imports Ext2_Block Bytes
begin

text \<open>
  Inodes, their block maps and the allocation of blocks and inodes in
  \<^verbatim>\<open>src/src/modules/fs/ext2.cpp\<close>.  An inode, the super block and a block group descriptor are
  the bytes the structures of \<^verbatim>\<open>ext2.h\<close> are laid over: of an inode, the mode is at offset 0, the
  size at 4, the link count at 26, the block count at 28 and the block map at 40; of a descriptor
  of 32 bytes, the block bitmap is at 0, the inode bitmap at 4, the inode table at 8, the counters
  at 12, 14 and 16; of the super block, the free counters are at 12 and 16 and the blocks per
  group at 32.
\<close>

section \<open>Reading and writing inodes\<close>

text \<open>A block read into a fresh buffer: without the read its bytes are undefined.\<close>

definition fetch :: "u32 \<Rightarrow> ext2_fs \<Rightarrow> (u8 list \<times> ext2_fs) option" where
  "fetch b fs = do {
     (e, tmp, fs) \<leftarrow> read_block b [] fs;
     if e = E_SUCCESS then Some (tmp, fs) else None
   }"

text \<open>Where the code looks for inode \<open>n\<close>: \<open>None\<close> when the group is out of range, else the block and
  the byte offset in it; all of it in 32-bit arithmetic.\<close>

definition inode_index :: "ext2_fs \<Rightarrow> u32 \<Rightarrow> u32" where
  "inode_index fs n = n - (n div fs_inodes_per_group fs) * fs_inodes_per_group fs"

definition table_block :: "ext2_fs \<Rightarrow> u32 \<Rightarrow> u32" where
  "table_block fs n = ((inode_index fs n - 1) * fs_inode_size fs) div fs_block_size fs"

definition table_offset :: "ext2_fs \<Rightarrow> u32 \<Rightarrow> u32" where
  "table_offset fs n = ((inode_index fs n - 1) -
     table_block fs n * (fs_block_size fs div fs_inode_size fs)) * fs_inode_size fs"

definition group_table :: "ext2_fs \<Rightarrow> u32 \<Rightarrow> u32 option" where
  "group_table fs g = rd32 (fs_block_groups fs) (32 * unat g + 8)"

definition refresh_inode :: "u8 list \<Rightarrow> u32 \<Rightarrow> ext2_fs \<Rightarrow> (u8 list \<times> ext2_fs) option" where
  "refresh_inode inodet n fs = (
     if fs_inodes_per_group fs = 0 then None
     else if n div fs_inodes_per_group fs > fs_block_group_count fs then Some (inodet, fs)
     else if fs_block_size fs = 0 \<or> fs_inode_size fs = 0 then None
     else do {
       t \<leftarrow> group_table fs (n div fs_inodes_per_group fs);
       (buff, fs') \<leftarrow> fetch (t + table_block fs n) fs;
       i \<leftarrow> copy_out (unat (table_offset fs n)) (unat (fs_inode_size fs)) buff;
       Some (i, fs')
     })"

text \<open>The buffer of \<^verbatim>\<open>read_inode\<close> is fresh: nothing is known of it when the group is out of range.\<close>

definition read_inode :: "u32 \<Rightarrow> ext2_fs \<Rightarrow> (u8 list \<times> ext2_fs) option" where
  "read_inode n fs = (
     if fs_inodes_per_group fs \<noteq> 0 \<and> n div fs_inodes_per_group fs > fs_block_group_count fs then None
     else refresh_inode [] n fs)"

definition write_inode :: "u8 list \<Rightarrow> u32 \<Rightarrow> ext2_fs \<Rightarrow> (e_code \<times> ext2_fs) option" where
  "write_inode inode n fs = (
     if fs_inodes_per_group fs = 0 then None
     else if n div fs_inodes_per_group fs > fs_block_group_count fs then Some (E_BADBLOCK, fs)
     else if fs_block_size fs = 0 \<or> fs_inode_size fs = 0 then None
     else do {
       t \<leftarrow> group_table fs (n div fs_inodes_per_group fs);
       (buff, fs') \<leftarrow> fetch (t + table_block fs n) fs;
       i \<leftarrow> copy_out 0 (unat (fs_inode_size fs)) inode;
       buff \<leftarrow> copy_in (unat (table_offset fs n)) i buff;
       (_, fs') \<leftarrow> write_block (t + table_block fs n) buff fs';
       Some (E_SUCCESS, fs')
     })"

section \<open>Allocation\<close>

definition rewrite_superblock :: "ext2_fs \<Rightarrow> ext2_fs" where
  "rewrite_superblock fs = dev_write 1024 (fs_superblock fs) fs"

text \<open>\<^verbatim>\<open>BLOCKBIT\<close> and \<^verbatim>\<open>SETBIT\<close> on a bitmap block.\<close>

definition blockbit :: "u8 list \<Rightarrow> nat \<Rightarrow> bool" where
  "blockbit buf n \<longleftrightarrow> buf ! (n div 8) AND push_bit (n mod 8) 1 \<noteq> 0"

definition set_blockbit :: "nat \<Rightarrow> u8 list \<Rightarrow> u8 list" where
  "set_blockbit n buf = buf[n div 8 := buf ! (n div 8) OR push_bit (n mod 8) 1]"

text \<open>\<^verbatim>\<open>while(BLOCKBIT(offset)) offset++\<close>: past the last bit the loop reads outside the buffer.\<close>

definition first_clear :: "u8 list \<Rightarrow> nat option" where
  "first_clear buf = find (\<lambda>n. \<not> blockbit buf n) [0..<8 * length buf]"

text \<open>The first group that has free blocks, of the \<open>k\<close> groups from \<open>i\<close> on.  Both allocators look
  at \<^verbatim>\<open>free_blocks_count\<close>.\<close>

fun find_group :: "ext2_fs \<Rightarrow> nat \<Rightarrow> nat \<Rightarrow> nat option option" where
  "find_group fs i 0 = Some None"
| "find_group fs i (Suc k) = do {
     free \<leftarrow> rd16 (fs_block_groups fs) (32 * i + 12);
     if free > 0 then Some (Some i) else find_group fs (Suc i) k
   }"

text \<open>The loop that writes the descriptors back.\<close>

fun write_groups :: "nat \<Rightarrow> nat \<Rightarrow> ext2_fs \<Rightarrow> ext2_fs option" where
  "write_groups i 0 fs = Some fs"
| "write_groups i (Suc k) fs = do {
     bs \<leftarrow> copy_out (bsize fs * i) (bsize fs) (fs_block_groups fs);
     (_, fs) \<leftarrow> write_block (ucast (fs_bgd_offset fs) + of_nat i) bs fs;
     write_groups (Suc i) k fs
   }"

definition allocate_block :: "ext2_fs \<Rightarrow> (u32 \<times> ext2_fs) option" where
  "allocate_block fs = do {
     g \<leftarrow> find_group fs 0 (unat (fs_block_group_count fs));
     (case g of None \<Rightarrow> Some (0, fs)
      | Some g \<Rightarrow> do {
          bm \<leftarrow> rd32 (fs_block_groups fs) (32 * g);
          (buf, fs) \<leftarrow> fetch bm fs;
          k \<leftarrow> first_clear buf;
          bpg \<leftarrow> rd32 (fs_superblock fs) 32;
          let block_no = of_nat k + bpg * of_nat g;
          if block_no = 0 then Some (0, fs) else do {
          (_, fs) \<leftarrow> write_block bm (set_blockbit k buf) fs;
          free \<leftarrow> rd16 (fs_block_groups fs) (32 * g + 12);
          bgs \<leftarrow> wr16 (32 * g + 12) (free - 1) (fs_block_groups fs);
          fs \<leftarrow> write_groups 0 (unat (fs_bgd_block_span fs)) (fs\<lparr>fs_block_groups := bgs\<rparr>);
          total \<leftarrow> rd32 (fs_superblock fs) 12;
          sb \<leftarrow> wr32 12 (total - 1) (fs_superblock fs);
          let fs = rewrite_superblock (fs\<lparr>fs_superblock := sb\<rparr>);
          (_, fs) \<leftarrow> write_block block_no (replicate (bsize fs) 0) fs;
          Some (block_no, fs) } })
   }"

definition allocate_inode :: "ext2_fs \<Rightarrow> (u32 \<times> ext2_fs) option" where
  "allocate_inode fs = do {
     g \<leftarrow> find_group fs 0 (unat (fs_block_group_count fs));
     (case g of None \<Rightarrow> Some (0, fs)
      | Some g \<Rightarrow> do {
          bm \<leftarrow> rd32 (fs_block_groups fs) (32 * g + 4);
          (buf, fs) \<leftarrow> fetch bm fs;
          k \<leftarrow> first_clear buf;
          let node_no = of_nat k + of_nat g * fs_inodes_per_group fs + 1;
          if node_no = 0 then Some (0, fs) else do {
          (_, fs) \<leftarrow> write_block bm (set_blockbit k buf) fs;
          free \<leftarrow> rd16 (fs_block_groups fs) (32 * g + 14);
          bgs \<leftarrow> wr16 (32 * g + 14) (free - 1) (fs_block_groups fs);
          fs \<leftarrow> write_groups 0 (unat (fs_bgd_block_span fs)) (fs\<lparr>fs_block_groups := bgs\<rparr>);
          total \<leftarrow> rd32 (fs_superblock fs) 16;
          sb \<leftarrow> wr32 16 (total - 1) (fs_superblock fs);
          Some (node_no, rewrite_superblock (fs\<lparr>fs_superblock := sb\<rparr>)) } })
   }"

section \<open>The block map of an inode\<close>

definition map_slot :: "nat \<Rightarrow> nat" where
  "map_slot k = 40 + 4 * k"

text \<open>The indices of the code for the doubly and the triply indirect blocks.\<close>

definition double_index :: "u32 \<Rightarrow> u32 \<Rightarrow> u32 \<times> u32" where
  "double_index p iblock = (let a = iblock - 12; b = a - p; c = b div p; d = b - c * p in (c, d))"

definition triple_index :: "u32 \<Rightarrow> u32 \<Rightarrow> u32 \<times> u32 \<times> u32" where
  "triple_index p iblock = (let a = iblock - 12; b = a - p; c = b - p * p; d = c div (p * p);
     e = c - d * p * p; f = e div p; g = e - f * p in (d, f, g))"

definition get_block_number :: "u8 list \<Rightarrow> u32 \<Rightarrow> ext2_fs \<Rightarrow> (u32 \<times> ext2_fs) option" where
  "get_block_number inode iblock fs = (let p = fs_pointer_per_block fs in
     if iblock < 12 then do {
       b \<leftarrow> rd32 inode (map_slot (unat iblock));
       Some (b, fs)
     } else if iblock < 12 + p then do {
       b \<leftarrow> rd32 inode (map_slot 12);
       (tmp, fs) \<leftarrow> fetch b fs;
       out \<leftarrow> rd32 tmp (4 * unat (iblock - 12));
       Some (out, fs)
     } else if iblock < 12 + p + p * p then do {
       let (c, d) = double_index p iblock;
       b \<leftarrow> rd32 inode (map_slot 13);
       (tmp, fs) \<leftarrow> fetch b fs;
       nblock \<leftarrow> rd32 tmp (4 * unat c);
       (_, tmp, fs) \<leftarrow> read_block nblock tmp fs;
       out \<leftarrow> rd32 tmp (4 * unat d);
       Some (out, fs)
     } else if iblock < 12 + p + p * p + p then do {
       let (d, f, g) = triple_index p iblock;
       b \<leftarrow> rd32 inode (map_slot 14);
       (tmp, fs) \<leftarrow> fetch b fs;
       nblock \<leftarrow> rd32 tmp (4 * unat d);
       (_, tmp, fs) \<leftarrow> read_block nblock tmp fs;
       nblock \<leftarrow> rd32 tmp (4 * unat f);
       (_, tmp, fs) \<leftarrow> read_block nblock tmp fs;
       out \<leftarrow> rd32 tmp (4 * unat g);
       Some (out, fs)
     } else Some (0, fs))"

text \<open>The two steps that \<^verbatim>\<open>set_block_number\<close> repeats: a missing block of pointers is allocated and
  entered into the inode, or into the block of pointers \<open>tmp\<close> that is block \<open>parent\<close>.\<close>

definition ensure_slot :: "nat \<Rightarrow> u8 list \<Rightarrow> u32 \<Rightarrow> ext2_fs \<Rightarrow> (e_code \<times> u8 list \<times> ext2_fs) option" where
  "ensure_slot k inode inode_no fs = do {
     b \<leftarrow> rd32 inode (map_slot k);
     if b \<noteq> 0 then Some (E_SUCCESS, inode, fs) else do {
       (block_no, fs) \<leftarrow> allocate_block fs;
       if block_no = 0 then Some (E_NOSPACE, inode, fs) else do {
         inode \<leftarrow> wr32 (map_slot k) block_no inode;
         (_, fs) \<leftarrow> write_inode inode inode_no fs;
         Some (E_SUCCESS, inode, fs) } }
   }"

definition ensure_entry :: "u32 \<Rightarrow> u32 \<Rightarrow> u8 list \<Rightarrow> ext2_fs \<Rightarrow> (e_code \<times> u8 list \<times> ext2_fs) option" where
  "ensure_entry parent c tmp fs = do {
     b \<leftarrow> rd32 tmp (4 * unat c);
     if b \<noteq> 0 then Some (E_SUCCESS, tmp, fs) else do {
       (block_no, fs) \<leftarrow> allocate_block fs;
       if block_no = 0 then Some (E_NOSPACE, tmp, fs) else do {
         tmp \<leftarrow> wr32 (4 * unat c) block_no tmp;
         (_, fs) \<leftarrow> write_block parent tmp fs;
         Some (E_SUCCESS, tmp, fs) } }
   }"

definition set_block_number :: "u8 list \<Rightarrow> u32 \<Rightarrow> u32 \<Rightarrow> u32 \<Rightarrow> ext2_fs \<Rightarrow>
    (e_code \<times> u8 list \<times> ext2_fs) option" where
  "set_block_number inode inode_no iblock rblock fs = (let p = fs_pointer_per_block fs in
     if iblock < 12 then do {
       inode \<leftarrow> wr32 (map_slot (unat iblock)) rblock inode;
       Some (E_SUCCESS, inode, fs)
     } else if iblock < 12 + p then do {
       (e, inode, fs) \<leftarrow> ensure_slot 12 inode inode_no fs;
       if e \<noteq> E_SUCCESS then Some (e, inode, fs) else do {
         b \<leftarrow> rd32 inode (map_slot 12);
         (tmp, fs) \<leftarrow> fetch b fs;
         tmp \<leftarrow> wr32 (4 * unat (iblock - 12)) rblock tmp;
         (_, fs) \<leftarrow> write_block b tmp fs;
         Some (E_SUCCESS, inode, fs) }
     } else if iblock < 12 + p + p * p then do {
       let (c, d) = double_index p iblock;
       (e, inode, fs) \<leftarrow> ensure_slot 13 inode inode_no fs;
       if e \<noteq> E_SUCCESS then Some (e, inode, fs) else do {
         b \<leftarrow> rd32 inode (map_slot 13);
         (tmp, fs) \<leftarrow> fetch b fs;
         (e, tmp, fs) \<leftarrow> ensure_entry b c tmp fs;
         if e \<noteq> E_SUCCESS then Some (e, inode, fs) else do {
           nblock \<leftarrow> rd32 tmp (4 * unat c);
           (_, tmp, fs) \<leftarrow> read_block nblock tmp fs;
           tmp \<leftarrow> wr32 (4 * unat d) rblock tmp;
           (_, fs) \<leftarrow> write_block nblock tmp fs;
           Some (E_SUCCESS, inode, fs) } }
     } else if iblock < 12 + p + p * p + p then do {
       let (d, f, g) = triple_index p iblock;
       (e, inode, fs) \<leftarrow> ensure_slot 14 inode inode_no fs;
       if e \<noteq> E_SUCCESS then Some (e, inode, fs) else do {
         b \<leftarrow> rd32 inode (map_slot 14);
         (tmp, fs) \<leftarrow> fetch b fs;
         (e, tmp, fs) \<leftarrow> ensure_entry b d tmp fs;
         if e \<noteq> E_SUCCESS then Some (e, inode, fs) else do {
           nblock \<leftarrow> rd32 tmp (4 * unat d);
           (_, tmp, fs) \<leftarrow> read_block nblock tmp fs;
           (e, tmp, fs) \<leftarrow> ensure_entry nblock f tmp fs;
           if e \<noteq> E_SUCCESS then Some (e, inode, fs) else do {
             nblock \<leftarrow> rd32 tmp (4 * unat f);
             (_, tmp, fs) \<leftarrow> read_block nblock tmp fs;
             tmp \<leftarrow> wr32 (4 * unat g) nblock tmp;
             (_, fs) \<leftarrow> write_block nblock tmp fs;
             Some (E_SUCCESS, inode, fs) } } }
     } else Some (E_BADBLOCK, inode, fs))"

definition allocate_inode_block :: "u8 list \<Rightarrow> u32 \<Rightarrow> u32 \<Rightarrow> ext2_fs \<Rightarrow>
    (e_code \<times> u8 list \<times> ext2_fs) option" where
  "allocate_inode_block inode inode_no block fs = do {
     (block_no, fs) \<leftarrow> allocate_block fs;
     if block_no = 0 then Some (E_NOSPACE, inode, fs) else do {
       (_, inode, fs) \<leftarrow> set_block_number inode inode_no block block_no fs;
       let t = (block + 1) * (fs_block_size fs div 512);
       blocks \<leftarrow> rd32 inode 28;
       inode \<leftarrow> (if blocks < t then wr32 28 t inode else Some inode);
       (_, fs) \<leftarrow> write_inode inode inode_no fs;
       Some (E_SUCCESS, inode, fs) }
   }"

section \<open>Reading and writing the blocks of an inode\<close>

definition inode_blocks :: "u8 list \<Rightarrow> ext2_fs \<Rightarrow> u32 option" where
  "inode_blocks inode fs = (if fs_block_size fs div 512 = 0 then None
     else do { blocks \<leftarrow> rd32 inode 28; Some (blocks div (fs_block_size fs div 512)) })"

text \<open>\<open>buff\<close> is the buffer before the call; the first result is the real block number.\<close>

definition inode_read_block :: "u8 list \<Rightarrow> u32 \<Rightarrow> u8 list \<Rightarrow> ext2_fs \<Rightarrow> (u32 \<times> u8 list \<times> ext2_fs) option" where
  "inode_read_block inode block buff fs = do {
     n \<leftarrow> inode_blocks inode fs;
     if block \<ge> n then Some (0, replicate (bsize fs) 0, fs) else do {
       (real, fs) \<leftarrow> get_block_number inode block fs;
       (_, buff, fs) \<leftarrow> read_block real buff fs;
       Some (real, buff, fs) }
   }"

partial_function (option) grow_inode :: "u32 \<Rightarrow> u32 \<Rightarrow> u8 list \<Rightarrow> ext2_fs \<Rightarrow> (u8 list \<times> ext2_fs) option" where
  "grow_inode inode_no block inode fs = do {
     n \<leftarrow> inode_blocks inode fs;
     if block < n then Some (inode, fs) else do {
       r \<leftarrow> allocate_inode_block inode inode_no n fs;
       r \<leftarrow> refresh_inode (fst (snd r)) inode_no (snd (snd r));
       grow_inode inode_no block (fst r) (snd r) }
   }"

definition inode_write_block :: "u8 list \<Rightarrow> u32 \<Rightarrow> u32 \<Rightarrow> u8 list \<Rightarrow> ext2_fs \<Rightarrow>
    (u32 \<times> u8 list \<times> ext2_fs) option" where
  "inode_write_block inode inode_no block buff fs = do {
     (inode, fs) \<leftarrow> grow_inode inode_no block inode fs;
     (real, fs) \<leftarrow> get_block_number inode block fs;
     (_, fs) \<leftarrow> write_block real buff fs;
     Some (real, inode, fs)
   }"

section \<open>Where an inode is\<close>

lemma inode_index_mod: "fs_inodes_per_group fs \<noteq> 0 \<Longrightarrow> inode_index fs n = n mod fs_inodes_per_group fs"
  unfolding inode_index_def by (metis minus_div_mult_eq_mod)

text \<open>Inode \<open>n\<close> belongs at position \<open>(n - 1) mod ipg\<close> of the table of group \<open>(n - 1) div ipg\<close>; the code
  finds it there unless \<open>n\<close> is the last inode of its group.\<close>

lemma inode_place_ok:
  assumes ipg: "fs_inodes_per_group fs \<noteq> 0" and n: "n mod fs_inodes_per_group fs \<noteq> 0"
    and sz: "unat (fs_inode_size fs) dvd bsize fs" "0 < bsize fs"
    and small: "unat (fs_inodes_per_group fs) * unat (fs_inode_size fs) < 2 ^ 32"
  defines "i \<equiv> (unat n - 1) mod unat (fs_inodes_per_group fs)"
  shows "unat (n div fs_inodes_per_group fs) = (unat n - 1) div unat (fs_inodes_per_group fs)"
    and "unat (table_block fs n) = i * unat (fs_inode_size fs) div bsize fs"
    and "unat (table_offset fs n) = i * unat (fs_inode_size fs) mod bsize fs"
proof -
  let ?g = "unat (fs_inodes_per_group fs)" and ?s = "unat (fs_inode_size fs)"
  have g: "0 < ?g" using ipg by (simp add: unat_gt_0)
  have nm: "unat n mod ?g \<noteq> 0" using n by (simp add: unat_mod_distrib flip: unat_eq_0)
  then obtain m where m: "unat n = Suc m" by (cases "unat n") auto
  have md: "Suc (m mod ?g) = Suc m mod ?g" using nm m by (metis mod_Suc)
  have dv: "Suc m div ?g = m div ?g" using nm m by (metis div_Suc)
  show "unat (n div fs_inodes_per_group fs) = (unat n - 1) div ?g"
    by (simp add: unat_div_distrib m dv)
  have ii: "unat (inode_index fs n - 1) = i"
  proof -
    have "unat (inode_index fs n) = Suc i"
      using md m by (simp add: inode_index_mod [OF ipg] unat_mod_distrib i_def)
    then show ?thesis
      by (metis One_nat_def Suc_diff_1 diff_Suc_1 unat_1 unat_minus_one unat_eq_zero zero_less_Suc Zero_not_Suc)
  qed
  have i: "i < ?g" using g by (simp add: i_def)
  have le: "i * ?s < 2 ^ 32"
    using mult_le_mono1 [of i ?g ?s] i small by linarith
  then have prod: "unat ((inode_index fs n - 1) * fs_inode_size fs) = i * ?s"
    using ii by (simp add: unat_word_ariths)
  then show tb: "unat (table_block fs n) = i * ?s div bsize fs"
    by (simp add: table_block_def unat_div_distrib)
  let ?b = "bsize fs" and ?q = "i * ?s div bsize fs"
  from sz(1) obtain k where k: "?b = ?s * k" by (auto simp: dvd_def)
  have s0: "0 < ?s" "0 < k" using k sz(2) by auto
  have qk: "?q = i div k" using s0 by (simp add: k)
  have "unat (fs_block_size fs div fs_inode_size fs) = k" using k s0 by (simp add: unat_div_distrib)
  moreover have "?q * k \<le> i" unfolding qk by (metis div_times_less_eq_dividend)
  ultimately have u: "unat (table_block fs n * (fs_block_size fs div fs_inode_size fs)) = ?q * k"
    using tb i unat_bound [of "fs_inodes_per_group fs"] by (simp add: unat_word_ariths)
  have "unat ((inode_index fs n - 1) - table_block fs n * (fs_block_size fs div fs_inode_size fs)) = i - ?q * k"
    using ii u \<open>?q * k \<le> i\<close> by (metis unat_sub word_le_nat_alt)
  also have "i - ?q * k = i mod k" unfolding qk by (metis minus_div_mult_eq_mod)
  finally have "unat (inode_index fs n - 1 - table_block fs n * (fs_block_size fs div fs_inode_size fs)) = i mod k" .
  moreover have "(i mod k) * ?s < 2 ^ 32"
    using le mult_le_mono1 [OF mod_less_eq_dividend, of i k ?s] by linarith
  ultimately have "unat (table_offset fs n) = (i mod k) * ?s"
    unfolding table_offset_def unat_word_ariths(2) by simp
  also have "\<dots> = i * ?s mod ?b" by (simp add: k mult.commute mod_mult_mult1)
  finally show "unat (table_offset fs n) = i * ?s mod ?b" .
qed

lemma last_inode_misplaced:
  assumes "fs_inodes_per_group fs \<noteq> 0" and "n mod fs_inodes_per_group fs = 0"
  shows "table_block fs n = (- fs_inode_size fs) div fs_block_size fs"
  using assms by (simp add: table_block_def inode_index_mod)

section \<open>Inodes on the disk\<close>

lemma fetch_law:
  "fs_ok fs \<Longrightarrow> good_block fs b \<Longrightarrow> 0 < budget fs \<Longrightarrow>
     \<exists>fs'. fetch b fs = Some (store fs b, fs') \<and> disk.evolves 1 (\<lambda>c. c) fs fs'"
  using disk.read_evolves [of fs b "[]"] by (auto simp: fetch_def)

text \<open>Block and offset of an inode, when they are in the table of an existing group.\<close>

definition inode_home :: "ext2_fs \<Rightarrow> u32 \<Rightarrow> (u32 \<times> nat) option" where
  "inode_home fs n = (
     if fs_inodes_per_group fs \<noteq> 0 \<and> fs_block_size fs \<noteq> 0 \<and> fs_inode_size fs \<noteq> 0 \<and>
        n div fs_inodes_per_group fs \<le> fs_block_group_count fs
     then (case group_table fs (n div fs_inodes_per_group fs) of None \<Rightarrow> None
       | Some t \<Rightarrow> if good_block fs (t + table_block fs n) \<and>
             unat (table_offset fs n) + unat (fs_inode_size fs) \<le> bsize fs
           then Some (t + table_block fs n, unat (table_offset fs n)) else None)
     else None)"

definition inode_at :: "ext2_fs \<Rightarrow> u32 \<times> nat \<Rightarrow> u8 list" where
  "inode_at fs h = take (unat (fs_inode_size fs)) (drop (snd h) (store fs (fst h)))"

lemma meta_fields:
  assumes "meta fs' = meta fs"
  shows "fs_inodes_per_group fs' = fs_inodes_per_group fs" "fs_block_size fs' = fs_block_size fs"
    "fs_inode_size fs' = fs_inode_size fs" "fs_block_group_count fs' = fs_block_group_count fs"
    "fs_block_groups fs' = fs_block_groups fs" "fs_superblock fs' = fs_superblock fs"
    "fs_pointer_per_block fs' = fs_pointer_per_block fs" "good_block fs' = good_block fs"
  using arg_cong [OF assms, of fs_inodes_per_group] arg_cong [OF assms, of fs_block_size]
    arg_cong [OF assms, of fs_inode_size] arg_cong [OF assms, of fs_block_group_count]
    arg_cong [OF assms, of fs_block_groups] arg_cong [OF assms, of fs_superblock]
    arg_cong [OF assms, of fs_pointer_per_block] disk.frame_law [OF assms]
  by (simp_all add: meta_def)

lemma inode_home_frame:
  assumes "meta fs' = meta fs"
  shows "inode_home fs' n = inode_home fs n"
proof -
  note m = meta_fields [OF assms]
  have "inode_index fs' n = inode_index fs n" by (simp add: inode_index_def m)
  then have "table_block fs' n = table_block fs n" by (simp add: table_block_def m)
  moreover from this \<open>inode_index fs' n = inode_index fs n\<close>
  have "table_offset fs' n = table_offset fs n" by (simp add: table_offset_def m)
  moreover have "group_table fs' = group_table fs" by (simp add: group_table_def fun_eq_iff m)
  ultimately show ?thesis unfolding inode_home_def m by (simp split: option.split)
qed

lemma inode_homeD:
  assumes "inode_home fs n = Some (b, o')"
  shows "fs_inodes_per_group fs \<noteq> 0" "fs_block_size fs \<noteq> 0" "fs_inode_size fs \<noteq> 0"
    "\<not> n div fs_inodes_per_group fs > fs_block_group_count fs"
    "\<exists>t. group_table fs (n div fs_inodes_per_group fs) = Some t \<and> b = t + table_block fs n"
    "o' = unat (table_offset fs n)" "good_block fs b" "o' + unat (fs_inode_size fs) \<le> bsize fs"
  using assms by (auto simp: inode_home_def split: if_splits option.splits)

lemma refresh_inode_law:
  assumes "fs_ok fs" and "inode_home fs n = Some (b, o')" and "0 < budget fs"
  shows "\<exists>fs'. refresh_inode junk n fs = Some (inode_at fs (b, o'), fs') \<and> disk.evolves 1 (\<lambda>c. c) fs fs'"
proof -
  note h = inode_homeD [OF assms(2)]
  obtain t where t: "group_table fs (n div fs_inodes_per_group fs) = Some t" "b = t + table_block fs n"
    using h(5) by blast
  obtain fs' where fs': "fetch b fs = Some (store fs b, fs')" "disk.evolves 1 (\<lambda>c. c) fs fs'"
    using fetch_law [OF assms(1) h(7) assms(3)] by blast
  have "length (store fs b) = bsize fs" using disk.length_law [OF assms(1) h(7)] .
  with h t fs' show ?thesis
    by (intro exI [of _ fs']) (simp add: refresh_inode_def copy_out_def inode_at_def)
qed

lemma write_inode_law:
  assumes "fs_ok fs" and "inode_home fs n = Some (b, o')" and "1 < budget fs"
    and "unat (fs_inode_size fs) \<le> length i"
  shows "\<exists>fs'. write_inode i n fs = Some (E_SUCCESS, fs') \<and>
     disk.evolves 2 (\<lambda>c. c(b := take o' (c b) @ take (unat (fs_inode_size fs)) i @
       drop (o' + unat (fs_inode_size fs)) (c b))) fs fs'"
proof -
  note h = inode_homeD [OF assms(2)]
  let ?s = "unat (fs_inode_size fs)"
  let ?f = "\<lambda>bs. take o' bs @ take ?s i @ drop (o' + ?s) bs"
  obtain t where t: "group_table fs (n div fs_inodes_per_group fs) = Some t" "b = t + table_block fs n"
    using h(5) by blast
  have len: "length (store fs b) = bsize fs" using disk.length_law [OF assms(1) h(7)] .
  then have "length (?f (store fs b)) = bsize fs" using h(8) assms(4) by simp
  from disk.update_evolves [OF assms(1) h(7) assms(3), of ?f "[]", OF this]
  obtain s1 s2 where s: "read_block b [] fs = Some (E_SUCCESS, store fs b, s1)"
    "write_block b (?f (store fs b)) s1 = Some (E_SUCCESS, s2)"
    "disk.evolves 1 (\<lambda>c. c) fs s1" "disk.evolves 2 (\<lambda>c. c(b := ?f (c b))) fs s2" by auto
  have m: "meta s1 = meta fs" using s(3) by (simp add: disk.evolves_def)
  have "copy_in o' (take ?s i) (store fs b) = Some (?f (store fs b))"
    using h(8) assms(4) len by (simp add: copy_in_def min_def)
  with h t s show ?thesis
    using assms(4)
    by (intro exI [of _ s2]) (simp add: write_inode_def fetch_def copy_out_def)
qed

text \<open>What was written is read back, and no inode that is elsewhere changes.\<close>

lemma write_read_inode:
  assumes "fs_ok fs" and "inode_home fs n = Some (b, o')" and "2 < budget fs"
    and "length i = unat (fs_inode_size fs)"
  shows "\<exists>fs1 fs2. write_inode i n fs = Some (E_SUCCESS, fs1) \<and> read_inode n fs1 = Some (i, fs2) \<and>
     (\<forall>m h. inode_home fs m = Some h \<longrightarrow> fst h \<noteq> b \<or> snd h + length i \<le> o' \<or> o' + length i \<le> snd h \<longrightarrow>
        inode_at fs1 h = inode_at fs h)"
proof -
  let ?s = "unat (fs_inode_size fs)"
  note h = inode_homeD [OF assms(2)]
  obtain fs1 where w: "write_inode i n fs = Some (E_SUCCESS, fs1)"
    "disk.evolves 2 (\<lambda>c. c(b := take o' (c b) @ i @ drop (o' + ?s) (c b))) fs fs1"
    using write_inode_law [OF assms(1,2), of i] assms(3,4) by auto
  then have e: "fs_ok fs1" "meta fs1 = meta fs" "budget fs \<le> budget fs1 + 2"
    "\<And>c. good_block fs c \<Longrightarrow> store fs1 c = (if c = b then take o' (store fs b) @ i @ drop (o' + ?s) (store fs b) else store fs c)"
    by (auto simp: disk.evolves_def)
  note m = meta_fields [OF e(2)]
  have len: "length (store fs b) = bsize fs" using disk.length_law [OF assms(1) h(7)] .
  have home: "inode_home fs1 n = Some (b, o')" using inode_home_frame [OF e(2)] assms(2) by simp
  obtain fs2 where r: "refresh_inode [] n fs1 = Some (inode_at fs1 (b, o'), fs2)"
    using refresh_inode_law [OF e(1) home] e(3) assms(3) by auto
  have "inode_at fs1 (b, o') = i"
    using e(4) [OF h(7)] h(8) len assms(4) by (simp add: inode_at_def m)
  with r h(4) have "read_inode n fs1 = Some (i, fs2)" by (simp add: read_inode_def m)
  moreover have "inode_at fs1 hm = inode_at fs hm"
    if hm: "inode_home fs k = Some hm" and d: "fst hm \<noteq> b \<or> snd hm + length i \<le> o' \<or> o' + length i \<le> snd hm" for k hm
  proof -
    obtain c p where hp: "hm = (c, p)" by (cases hm)
    note hk = inode_homeD [OF hm [unfolded hp]]
    show ?thesis
      using d h(8) hk(8) len assms(4) e(4) [OF hk(7)]
      by (auto simp: inode_at_def hp m intro!: nth_equalityI simp: nth_append)
  qed
  ultimately show ?thesis using w(1) by blast
qed

section \<open>The block map\<close>

lemma rd_wr32 [simp]: "wr32 o' w bs = Some bs' \<Longrightarrow> rd32 bs' o' = Some w"
  by (auto simp: wr32_def rd32_def split: if_splits)

text \<open>The block of pointers that holds the entry of \<open>iblock\<close>, and its index there; the pointers
  on the way must exist, on blocks that differ.\<close>

definition map_home :: "u8 list \<Rightarrow> u32 \<Rightarrow> ext2_fs \<Rightarrow> (u32 \<times> u32) option" where
  "map_home inode iblock fs = (let p = fs_pointer_per_block fs in
     if 4 * unat p \<noteq> bsize fs \<or> length inode < 100 \<or> iblock < 12 then None
     else if iblock < 12 + p then Some (get32 inode (map_slot 12), iblock - 12)
     else if iblock < 12 + p + p * p then
       (let (c, d) = double_index p iblock; b = get32 inode (map_slot 13);
          nblock = get32 (store fs b) (4 * unat c) in
        if good_block fs b \<and> nblock \<noteq> b \<and> c < p \<and> d < p then Some (nblock, d) else None)
     else None)"

lemma get_block_number_single:
  "\<not> iblock < 12 \<Longrightarrow> iblock < 12 + fs_pointer_per_block fs \<Longrightarrow> 100 \<le> length inode \<Longrightarrow>
   get_block_number inode iblock fs = do {
     (tmp, fs) \<leftarrow> fetch (get32 inode (map_slot 12)) fs;
     out \<leftarrow> rd32 tmp (4 * unat (iblock - 12));
     Some (out, fs) }"
  by (simp add: get_block_number_def Let_def rd32_def [of inode] map_slot_def)

lemma set_block_number_single:
  "\<not> iblock < 12 \<Longrightarrow> iblock < 12 + fs_pointer_per_block fs \<Longrightarrow> 100 \<le> length inode \<Longrightarrow>
   get32 inode (map_slot 12) \<noteq> 0 \<Longrightarrow>
   set_block_number inode no iblock rblock fs = do {
     (tmp, fs) \<leftarrow> fetch (get32 inode (map_slot 12)) fs;
     tmp \<leftarrow> wr32 (4 * unat (iblock - 12)) rblock tmp;
     (_, fs) \<leftarrow> write_block (get32 inode (map_slot 12)) tmp fs;
     Some (E_SUCCESS, inode, fs) }"
  by (simp add: set_block_number_def Let_def rd32_def [of inode] map_slot_def ensure_slot_def)

lemma get_block_number_at:
  assumes "fs_ok fs" and "map_home inode iblock fs = Some (b, k)" and "good_block fs b" and "k < fs_pointer_per_block fs"
    and "1 < budget fs"
  shows "\<exists>fs'. get_block_number inode iblock fs = Some (get32 (store fs b) (4 * unat k), fs') \<and>
     disk.evolves 2 (\<lambda>c. c) fs fs'"
proof -
  let ?p = "fs_pointer_per_block fs"
  have len: "length inode \<ge> 100" "4 * unat ?p = bsize fs" "\<not> iblock < 12"
    using assms(2) by (auto simp: map_home_def Let_def split: if_splits)
  have in_block: "rd32 (store fs c) (4 * unat j) = Some (get32 (store fs c) (4 * unat j))"
    if "good_block fs c" "j < ?p" for c j
    using that len(2) disk.length_law [OF assms(1) that(1)] by (simp add: rd32_def word_less_nat_alt)
  show ?thesis
  proof (cases "iblock < 12 + ?p")
    case True
    then have b: "b = get32 inode (map_slot 12)" "k = iblock - 12"
      using assms(2) len by (simp_all add: map_home_def Let_def)
    obtain fs' where "fetch b fs = Some (store fs b, fs')" "disk.evolves 1 (\<lambda>c. c) fs fs'"
      using fetch_law [OF assms(1,3)] assms(5) by auto
    then have "get_block_number inode iblock fs = Some (get32 (store fs b) (4 * unat k), fs')"
      using get_block_number_single [OF len(3) True len(1)] in_block [OF assms(3,4)] b by simp
    moreover have "disk.evolves 2 (\<lambda>c. c) fs fs'"
      using \<open>disk.evolves 1 (\<lambda>c. c) fs fs'\<close> unfolding disk.evolves_def by simp
    ultimately show ?thesis by blast
  next
    case False
    obtain c d where cd: "double_index ?p iblock = (c, d)" by force
    let ?a = "get32 inode (map_slot 13)"
    have i: "iblock < 12 + ?p + ?p * ?p" using assms(2) False by (auto simp: map_home_def Let_def split: if_splits)
    with assms(2) False cd have a: "good_block fs ?a" "b = get32 (store fs ?a) (4 * unat c)" "k = d" "c < ?p"
      by (auto simp: map_home_def Let_def split: if_splits)
    obtain fs1 where f: "fetch ?a fs = Some (store fs ?a, fs1)" "disk.evolves 1 (\<lambda>c. c) fs fs1"
      using fetch_law [OF assms(1) a(1)] assms(5) by auto
    have e: "fs_ok fs1" "meta fs1 = meta fs" "0 < budget fs1" "store fs1 b = store fs b"
      using f(2) assms(3,5) unfolding disk.evolves_def by simp_all
    have "good_block fs1 b" using assms(3) unfolding meta_fields(8) [OF e(2)] .
    then obtain fs' where r: "read_block b (store fs ?a) fs1 = Some (E_SUCCESS, store fs1 b, fs')"
      "disk.evolves 1 (\<lambda>c. c) fs1 fs'" using disk.read_evolves [OF e(1) _ e(3)] by blast
    have "disk.evolves 2 (\<lambda>c. c) fs fs'"
      using f(2) r(2) e(2) meta_fields(8) [OF e(2)] by (auto simp: disk.evolves_def)
    moreover have "rd32 inode (map_slot 13) = Some ?a" using len by (simp add: rd32_def map_slot_def)
    ultimately show ?thesis
      using False i len(3) cd a f(1) r(1) e(4) in_block [OF a(1,4)] in_block [OF assms(3,4)]
      by (intro exI [of _ fs']) (simp add: get_block_number_def Let_def)
  qed
qed

text \<open>After an entry of an existing block of pointers is set, reading it gives the block.\<close>

lemma set_get_block_number:
  assumes "fs_ok fs" and "map_home inode iblock fs = Some (b, k)" and "good_block fs b" and "k < fs_pointer_per_block fs"
    and "4 < budget fs"
  shows "\<exists>fs1 fs2. set_block_number inode no iblock rblock fs = Some (E_SUCCESS, inode, fs1) \<and>
     disk.evolves 3 (\<lambda>c. c(b := put32 (4 * unat k) rblock (c b))) fs fs1 \<and>
     get_block_number inode iblock fs1 = Some (rblock, fs2)"
proof -
  let ?p = "fs_pointer_per_block fs" and ?upd = "\<lambda>c. c(b := put32 (4 * unat k) rblock (c b))"
  have len: "length inode \<ge> 100" "4 * unat ?p = bsize fs" "\<not> iblock < 12"
    using assms(2) by (auto simp: map_home_def Let_def split: if_splits)
  have fits: "4 * unat j + 4 \<le> length (store fs c)" if "good_block fs c" "j < ?p" for c j
    using that len(2) disk.length_law [OF assms(1) that(1)] by (simp add: word_less_nat_alt)
  have "\<exists>fs1. set_block_number inode no iblock rblock fs = Some (E_SUCCESS, inode, fs1) \<and>
      disk.evolves 3 ?upd fs fs1 \<and> map_home inode iblock fs1 = Some (b, k)"
  proof (cases "iblock < 12 + ?p")
    case True
    then have b: "b = get32 inode (map_slot 12)" "k = iblock - 12" "b \<noteq> 0"
      using assms(2,3) len by (simp_all add: map_home_def Let_def good_block_def)
    have "1 < budget fs" using assms(5) by simp
    from disk.update_evolves [OF assms(1,3) this, of "put32 (4 * unat k) rblock" "[]"]
    obtain s1 s2 where s: "read_block b [] fs = Some (E_SUCCESS, store fs b, s1)"
      "write_block b (put32 (4 * unat k) rblock (store fs b)) s1 = Some (E_SUCCESS, s2)"
      "disk.evolves 1 (\<lambda>c. c) fs s1" "disk.evolves 2 ?upd fs s2"
      using disk.length_law [OF assms(1,3)] by auto
    have "meta s2 = meta fs" using s(4) by (simp add: disk.evolves_def)
    then have "map_home inode iblock s2 = Some (b, k)"
      using True b len by (simp add: map_home_def Let_def meta_fields [OF \<open>meta s2 = meta fs\<close>])
    moreover have "set_block_number inode no iblock rblock fs = Some (E_SUCCESS, inode, s2)"
      using set_block_number_single [OF len(3) True len(1)] b s(1,2) fits [OF assms(3,4)]
      by (simp add: fetch_def wr32_def)
    moreover have "disk.evolves 3 ?upd fs s2" using s(4) unfolding disk.evolves_def by simp
    ultimately show ?thesis by blast
  next
    case False
    obtain c d where cd: "double_index ?p iblock = (c, d)" by force
    let ?a = "get32 inode (map_slot 13)"
    have i: "iblock < 12 + ?p + ?p * ?p" using assms(2) False by (auto simp: map_home_def Let_def split: if_splits)
    with assms(2) False cd have a: "good_block fs ?a" "b = get32 (store fs ?a) (4 * unat c)" "k = d" "c < ?p" "d < ?p" "b \<noteq> ?a"
      by (auto simp: map_home_def Let_def split: if_splits)
    then have nz: "?a \<noteq> 0" "b \<noteq> 0" using assms(3) by (auto simp: good_block_def)
    obtain s0 where f: "fetch ?a fs = Some (store fs ?a, s0)" "disk.evolves 1 (\<lambda>c. c) fs s0"
      using fetch_law [OF assms(1) a(1)] assms(5) by auto
    have e: "fs_ok s0" "meta s0 = meta fs" "1 < budget s0" "\<And>c. good_block fs c \<Longrightarrow> store s0 c = store fs c"
      using f(2) assms(3,5) unfolding disk.evolves_def by simp_all
    note m0 = meta_fields [OF e(2)]
    have gb: "good_block s0 b" using assms(3) m0 by simp
    from disk.update_evolves [OF e(1) gb e(3), of "put32 (4 * unat k) rblock" "store fs ?a"]
    obtain s1 s2 where s: "read_block b (store fs ?a) s0 = Some (E_SUCCESS, store fs b, s1)"
      "write_block b (put32 (4 * unat k) rblock (store fs b)) s1 = Some (E_SUCCESS, s2)"
      "disk.evolves 2 ?upd s0 s2"
      using disk.length_law [OF e(1) gb] e(4) [OF assms(3)] by auto
    have r: "rd32 inode (map_slot 13) = Some ?a" using len by (simp add: rd32_def map_slot_def)
    have rb: "rd32 (store fs ?a) (4 * unat c) = Some b"
      using fits [OF a(1,4)] a(2) by (simp add: rd32_def)
    have ev: "disk.evolves 3 ?upd fs s2"
      using f(2) s(3) m0 assms(3) by (auto simp: disk.evolves_def)
    have ms: "meta s2 = meta fs" using ev by (simp add: disk.evolves_def)
    have "store s2 ?a = store fs ?a" using ev a(1,6) by (simp add: disk.evolves_def)
    then have "map_home inode iblock s2 = Some (b, k)"
      using False i len cd a by (simp add: map_home_def Let_def meta_fields [OF ms])
    moreover have "set_block_number inode no iblock rblock fs = Some (E_SUCCESS, inode, s2)"
      using False i len(3) cd nz r rb f(1) s(1,2) a(3) fits [OF assms(3,4)]
      by (simp add: set_block_number_def Let_def ensure_slot_def ensure_entry_def wr32_def)
    ultimately show ?thesis using ev by blast
  qed
  then obtain fs1 where f: "set_block_number inode no iblock rblock fs = Some (E_SUCCESS, inode, fs1)"
    "disk.evolves 3 ?upd fs fs1" "map_home inode iblock fs1 = Some (b, k)" by blast
  have e: "fs_ok fs1" "meta fs1 = meta fs" "1 < budget fs1" "store fs1 b = put32 (4 * unat k) rblock (store fs b)"
    using f(2) assms(3,5) by (auto simp: disk.evolves_def)
  note m = meta_fields [OF e(2)]
  obtain fs2 where "get_block_number inode iblock fs1 = Some (get32 (store fs1 b) (4 * unat k), fs2)"
    using get_block_number_at [OF e(1) f(3) _ _ e(3)] assms(3,4) m by auto
  then have "get_block_number inode iblock fs1 = Some (rblock, fs2)"
    using e(4) fits [OF assms(3,4)] by simp
  with f show ?thesis by blast
qed

lemma set_get_direct:
  assumes "length inode \<ge> 100" and "iblock < 12"
  shows "\<exists>inode'. set_block_number inode no iblock rblock fs = Some (E_SUCCESS, inode', fs) \<and>
     get_block_number inode' iblock fs = Some (rblock, fs) \<and>
     (\<forall>j < 12. j \<noteq> iblock \<longrightarrow> get_block_number inode' j fs = get_block_number inode j fs)"
proof -
  have u: "unat j < 12" if "j < 12" for j :: u32 using that by (simp add: word_less_nat_alt)
  have "wr32 (map_slot (unat iblock)) rblock inode = Some (put32 (map_slot (unat iblock)) rblock inode)"
    using assms(1) u [OF assms(2)] by (simp add: wr32_def map_slot_def)
  moreover have "get32 (put32 (map_slot (unat iblock)) rblock inode) (map_slot (unat j)) = get32 inode (map_slot (unat j))"
    if "j \<noteq> iblock" for j
  proof -
    have "unat j \<noteq> unat iblock" using that by (simp add: word_unat_eq_iff)
    then show ?thesis by (intro get32_put32_other) (auto simp: map_slot_def)
  qed
  moreover have "rd32 bs (map_slot (unat j)) = Some (get32 bs (map_slot (unat j)))"
    if "j < 12" "length bs = length inode" for j :: u32 and bs
    using assms(1) u [OF that(1)] that(2) by (simp add: rd32_def map_slot_def)
  ultimately show ?thesis
    using assms get_put32 [of "map_slot (unat iblock)" inode rblock] u [OF assms(2)]
    by (auto simp: set_block_number_def get_block_number_def Let_def map_slot_def)
qed

section \<open>A full disk\<close>

lemma allocate_full: "find_group fs 0 (unat (fs_block_group_count fs)) = Some None \<Longrightarrow> allocate_block fs = Some (0, fs)"
  by (simp add: allocate_block_def)

text \<open>A write past the end of a file on a full disk never returns: \<^verbatim>\<open>allocate_inode_block\<close> fails,
  its result is ignored, and the inode read back from the disk is as short as before.\<close>

lemma grow_full_diverges:
  assumes "find_group fs 0 (unat (fs_block_group_count fs)) = Some None"
    and "refresh_inode inode no fs = Some (inode, fs)" and "inode_blocks inode fs = Some n" and "n \<le> block"
  shows "grow_inode no block inode fs = None"
proof (rule ccontr)
  assume "grow_inode no block inode fs \<noteq> None"
  then obtain r where r: "grow_inode no block inode fs = Some r" by auto
  let ?P = "\<lambda>no block inode fs (r :: u8 list \<times> ext2_fs). find_group fs 0 (unat (fs_block_group_count fs)) = Some None \<longrightarrow>
      refresh_inode inode no fs = Some (inode, fs) \<longrightarrow>
      (\<forall>n. inode_blocks inode fs = Some n \<longrightarrow> \<not> n \<le> block)"
  have "?P no block inode fs r"
  proof (rule grow_inode.raw_induct [OF _ r, of ?P], intro impI allI notI)
    fix grow no' block' inode fs r n
    assume IH: "\<And>no block inode fs r. grow no block inode fs = Some r \<Longrightarrow> ?P no block inode fs r"
      and body: "do { n \<leftarrow> inode_blocks inode fs;
         if block' < n then Some (inode, fs) else do {
           r \<leftarrow> allocate_inode_block inode no' n fs;
           r \<leftarrow> refresh_inode (fst (snd r)) no' (snd (snd r));
           grow no' block' (fst r) (snd r) } } = Some r"
      and h: "find_group fs 0 (unat (fs_block_group_count fs)) = Some None"
        "refresh_inode inode no' fs = Some (inode, fs)" "inode_blocks inode fs = Some n" "n \<le> block'"
    have "allocate_inode_block inode no' n fs = Some (E_NOSPACE, inode, fs)"
      using allocate_full [OF h(1)] by (simp add: allocate_inode_block_def)
    moreover have "\<not> block' < n" using h(4) by simp
    ultimately have "grow no' block' inode fs = Some r" using body h(2,3) by simp
    from IH [OF this] h show False by blast
  qed
  with assms show False by blast
qed

end
