(* ===== verification/Ext2_File.thy ===== *)
theory Ext2_File
  imports Ext2_Inode C_String
begin

text \<open>
  Files and directories of \<^verbatim>\<open>src/src/modules/fs/ext2.cpp\<close>: the handlers installed in a file node,
  the scans of a directory, the creation of entries and the mount.  A directory entry is laid over
  the bytes of a block: inode number at offset 0, record length at 4, length of the name at 6, type
  at 7 and the name at 8; \<^verbatim>\<open>sizeof(ext2_dir_t)\<close> is 263.  A node stands for its inode number.
  Handlers are given the time and the user that the code asks the clock driver and the scheduler
  for.  A loop that never ends has the value \<^term>\<open>None\<close>.
\<close>

section \<open>Nodes\<close>

definition O_TRUNC :: u32 where "O_TRUNC = 0x0400"

definition EXT2_S_IFLNK :: u16 where "EXT2_S_IFLNK = 0xA000"
definition EXT2_S_IFREG :: u16 where "EXT2_S_IFREG = 0x8000"
definition EXT2_S_IFBLK :: u16 where "EXT2_S_IFBLK = 0x6000"
definition EXT2_S_IFDIR :: u16 where "EXT2_S_IFDIR = 0x4000"
definition EXT2_S_IFCHR :: u16 where "EXT2_S_IFCHR = 0x2000"
definition EXT2_S_IFIFO :: u16 where "EXT2_S_IFIFO = 0x1000"

datatype file_op = Read | Write | Create | Mkdir | Readdir | Finddir | Unlink | Symlink | Readlink |
  Chmod | Open | Close

text \<open>What the driver stores in a \<^verbatim>\<open>FILE\<close>; \<open>fn_ops\<close> tells which of its handlers are installed.\<close>

record file_node =
  fn_name :: "u8 list"
  fn_inode :: u32
  fn_uid :: u32
  fn_gid :: u32
  fn_size :: u32
  fn_mask :: u32
  fn_nlink :: u32
  fn_flags :: u32
  fn_atime :: u32
  fn_mtime :: u32
  fn_ctime :: u32
  fn_ops :: "file_op set"

definition blank_node :: file_node where
  "blank_node = \<lparr>fn_name = [], fn_inode = 0, fn_uid = 0, fn_gid = 0, fn_size = 0, fn_mask = 0,
     fn_nlink = 0, fn_flags = 0, fn_atime = 0, fn_mtime = 0, fn_ctime = 0, fn_ops = {}\<rparr>"

definition has_mode :: "u16 \<Rightarrow> u16 \<Rightarrow> bool" where
  "has_mode mode m \<longleftrightarrow> mode AND m = m"

text \<open>The fields that \<^verbatim>\<open>node_from_file\<close> and \<^verbatim>\<open>ext2_make_rootfile\<close> copy from the inode.\<close>

definition node_fields :: "u8 list \<Rightarrow> file_node \<Rightarrow> file_node option" where
  "node_fields inode f = do {
     mode \<leftarrow> rd16 inode 0; uid \<leftarrow> rd16 inode 2; sz \<leftarrow> rd32 inode 4;
     atime \<leftarrow> rd32 inode 8; ctime \<leftarrow> rd32 inode 12; mtime \<leftarrow> rd32 inode 16;
     gid \<leftarrow> rd16 inode 24; links \<leftarrow> rd16 inode 26;
     Some (f\<lparr>fn_uid := ucast uid, fn_gid := ucast gid, fn_size := sz,
       fn_mask := ucast (mode AND 0xFFF), fn_nlink := ucast links,
       fn_atime := atime, fn_mtime := mtime, fn_ctime := ctime\<rparr>)
   }"

definition file_flags :: "u16 \<Rightarrow> u32" where
  "file_flags mode =
     (if has_mode mode EXT2_S_IFREG then 0x01 else 0) OR (if has_mode mode EXT2_S_IFDIR then 0x02 else 0) OR
     (if has_mode mode EXT2_S_IFBLK then 0x08 else 0) OR (if has_mode mode EXT2_S_IFCHR then 0x04 else 0) OR
     (if has_mode mode EXT2_S_IFIFO then 0x10 else 0) OR (if has_mode mode EXT2_S_IFLNK then 0x20 else 0)"

text \<open>The three tests are made one after the other, on the handlers the previous ones left.\<close>

definition reg_ops :: "file_op set \<Rightarrow> file_op set" where
  "reg_ops s = s \<union> {Read, Write} - {Create, Mkdir, Readdir, Finddir, Symlink, Readlink}"

definition dir_ops :: "file_op set \<Rightarrow> file_op set" where
  "dir_ops s = s \<union> {Create, Mkdir, Readdir, Finddir, Unlink, Symlink} - {Write, Readlink}"

definition link_ops :: "file_op set \<Rightarrow> file_op set" where
  "link_ops s = s - {Read, Write, Create, Mkdir, Readdir, Finddir} \<union> {Readlink}"

definition file_ops :: "u16 \<Rightarrow> file_op set \<Rightarrow> file_op set" where
  "file_ops mode s = (let
     s = if has_mode mode EXT2_S_IFREG then reg_ops s else s;
     s = if has_mode mode EXT2_S_IFDIR then dir_ops s else s;
     s = if has_mode mode EXT2_S_IFLNK then link_ops s else s
   in s \<union> {Chmod, Open, Close})"

text \<open>\<^verbatim>\<open>name\<close> has 128 bytes: a longer name runs over the other fields.\<close>

definition node_from_file :: "u8 list \<Rightarrow> u8 list \<Rightarrow> file_node \<Rightarrow> file_node option" where
  "node_from_file inode direntry f = do {
     ino \<leftarrow> rd32 direntry 0;
     len \<leftarrow> rd8 direntry 6;
     name \<leftarrow> copy_out 8 (unat len) direntry;
     mode \<leftarrow> rd16 inode 0;
     f \<leftarrow> node_fields inode (f\<lparr>fn_inode := ino, fn_name := name\<rparr>);
     if unat len < 128 then Some (f\<lparr>fn_flags := file_flags mode, fn_ops := file_ops mode (fn_ops f)\<rparr>) else None
   }"

text \<open>The result 0 of the code is \<open>Some None\<close>.\<close>

definition ext2_make_rootfile :: "u8 list \<Rightarrow> file_node \<Rightarrow> file_node option option" where
  "ext2_make_rootfile inode f = do {
     mode \<leftarrow> rd16 inode 0;
     f \<leftarrow> node_fields inode (f\<lparr>fn_inode := 2, fn_name := [47]\<rparr>);
     if has_mode mode EXT2_S_IFREG then Some None
     else if \<not> has_mode mode EXT2_S_IFDIR then Some None
     else Some (Some (f\<lparr>fn_flags := file_flags mode OR 0x02,
       fn_ops := fn_ops f - {Read, Write} \<union> {Chmod, Open, Close, Readdir, Finddir, Create, Mkdir, Unlink}\<rparr>))
   }"

section \<open>Opening and changing the mode\<close>

definition ext2_open :: "u32 \<Rightarrow> u32 \<Rightarrow> ext2_fs \<Rightarrow> (u32 \<times> ext2_fs) option" where
  "ext2_open n flags fs = (if flags AND O_TRUNC \<noteq> 0 then do {
       (inode, fs) \<leftarrow> read_inode n fs;
       inode \<leftarrow> wr32 4 0 inode;
       (_, fs) \<leftarrow> write_inode inode n fs;
       Some (0, fs)
     } else Some (0, fs))"

text \<open>The mode is a field of 16 bits: of \<open>mode\<close> its low half is stored, file type bits included.\<close>

definition ext2_chmod :: "u32 \<Rightarrow> u32 \<Rightarrow> ext2_fs \<Rightarrow> (u32 \<times> ext2_fs) option" where
  "ext2_chmod n mode fs = do {
     (inode, fs) \<leftarrow> read_inode n fs;
     m \<leftarrow> rd16 inode 0;
     inode \<leftarrow> wr16 0 (ucast ((ucast m AND 0xFFFFF000) OR mode)) inode;
     (_, fs) \<leftarrow> write_inode inode n fs;
     Some (0, ext2_sync fs)
   }"

section \<open>Reading and writing files\<close>

text \<open>A copy of \<open>n\<close> bytes from or to \<^verbatim>\<open>buffer + i\<close>: \<open>i\<close> may lie before the buffer.\<close>

definition copy_from :: "int \<Rightarrow> nat \<Rightarrow> u8 list \<Rightarrow> u8 list option" where
  "copy_from i n buffer = (if i < 0 then None else copy_out (nat i) n buffer)"

definition copy_to :: "int \<Rightarrow> u8 list \<Rightarrow> u8 list \<Rightarrow> u8 list option" where
  "copy_to i src buffer = (if i < 0 then None else copy_in (nat i) src buffer)"

text \<open>The loop over the blocks of \<^verbatim>\<open>write_inode_buffer\<close>: \<open>r\<close> blocks are done, \<open>k\<close> are left.\<close>

fun write_run :: "u32 \<Rightarrow> u32 \<Rightarrow> u8 list \<Rightarrow> nat \<Rightarrow> nat \<Rightarrow> u8 list \<Rightarrow> u8 list \<Rightarrow> ext2_fs \<Rightarrow>
    (u8 list \<times> u8 list \<times> ext2_fs) option" where
  "write_run no off buffer r 0 buf inode fs = Some (buf, inode, fs)"
| "write_run no off buffer r (Suc k) buf inode fs = do {
     let o' = unat off mod bsize fs;
     let blk = off div fs_block_size fs + of_nat r;
     (b, buf, fs) \<leftarrow> inode_read_block inode blk buf fs;
     buf \<leftarrow> (if r = 0
       then do { src \<leftarrow> copy_out 0 (bsize fs - o') buffer; copy_in o' src buf }
       else do { src \<leftarrow> copy_from (int (bsize fs * r) - int o') (bsize fs) buffer; copy_in 0 src buf });
     (_, inode, fs) \<leftarrow> inode_write_block inode no blk buf fs;
     (inode, fs) \<leftarrow> (if b = 0 then refresh_inode inode no fs else Some (inode, fs));
     write_run no off buffer (Suc r) k buf inode fs
   }"

text \<open>The bytes from \<open>off\<close> to \<open>end'\<close>, once the size of the inode is recorded.\<close>

definition write_span :: "u8 list \<Rightarrow> u32 \<Rightarrow> u32 \<Rightarrow> u32 \<Rightarrow> u8 list \<Rightarrow> ext2_fs \<Rightarrow>
    (u32 \<times> u8 list \<times> ext2_fs) option" where
  "write_span inode no off end' buffer fs = (
     if fs_block_size fs = 0 then None else do {
     let start_block = off div fs_block_size fs;
     let end_block = end' div fs_block_size fs;
     let end_size = end' - end_block * fs_block_size fs;
     let o' = unat off mod bsize fs;
     if start_block = end_block then do {
       (_, buf, fs) \<leftarrow> inode_read_block inode start_block [] fs;
       src \<leftarrow> copy_out 0 (unat (end' - off)) buffer;
       buf \<leftarrow> copy_in o' src buf;
       (_, inode, fs) \<leftarrow> inode_write_block inode no start_block buf fs;
       Some (end' - off, inode, fs)
     } else do {
       let k = unat end_block - unat start_block;
       (buf, inode, fs) \<leftarrow> write_run no off buffer 0 k [] inode fs;
       if end_size = 0 then Some (end' - off, inode, fs) else do {
         (_, buf, fs) \<leftarrow> inode_read_block inode end_block buf fs;
         src \<leftarrow> copy_from (int (bsize fs * k) - int o') (unat end_size) buffer;
         buf \<leftarrow> copy_in 0 src buf;
         (_, inode, fs) \<leftarrow> inode_write_block inode no end_block buf fs;
         Some (end' - off, inode, fs) } } })"

definition write_inode_buffer :: "u8 list \<Rightarrow> u32 \<Rightarrow> u32 \<Rightarrow> u32 \<Rightarrow> u8 list \<Rightarrow> ext2_fs \<Rightarrow>
    (u32 \<times> u8 list \<times> ext2_fs) option" where
  "write_inode_buffer inode no off sz buffer fs = do {
     let end' = off + sz;
     isz \<leftarrow> rd32 inode 4;
     (inode, fs) \<leftarrow> (if end' > isz then do {
         inode \<leftarrow> wr32 4 end' inode;
         (_, fs) \<leftarrow> write_inode inode no fs;
         Some (inode, fs)
       } else Some (inode, fs));
     write_span inode no off end' buffer fs
   }"

definition write_ext2 :: "u32 \<Rightarrow> u32 \<Rightarrow> u32 \<Rightarrow> u8 list \<Rightarrow> ext2_fs \<Rightarrow> (u32 \<times> ext2_fs) option" where
  "write_ext2 n off sz buffer fs = do {
     (inode, fs) \<leftarrow> read_inode n fs;
     (rv, _, fs) \<leftarrow> write_inode_buffer inode n off sz buffer fs;
     Some (rv, ext2_sync fs)
   }"

fun read_run :: "u8 list \<Rightarrow> u32 \<Rightarrow> nat \<Rightarrow> nat \<Rightarrow> u8 list \<Rightarrow> u8 list \<Rightarrow> ext2_fs \<Rightarrow>
    (u8 list \<times> u8 list \<times> ext2_fs) option" where
  "read_run inode off r 0 buf buffer fs = Some (buf, buffer, fs)"
| "read_run inode off r (Suc k) buf buffer fs = do {
     let o' = unat off mod bsize fs;
     (_, buf, fs) \<leftarrow> inode_read_block inode (off div fs_block_size fs + of_nat r) buf fs;
     buffer \<leftarrow> (if r = 0
       then do { src \<leftarrow> copy_out o' (bsize fs - o') buf; copy_in 0 src buffer }
       else do { src \<leftarrow> copy_out 0 (bsize fs) buf; copy_to (int (bsize fs * r) - int o') src buffer });
     read_run inode off (Suc r) k buf buffer fs
   }"

text \<open>\<open>buffer\<close> is the caller's buffer before the call; the second result is what it then holds.\<close>

definition ext2_read :: "u32 \<Rightarrow> u32 \<Rightarrow> u32 \<Rightarrow> u8 list \<Rightarrow> ext2_fs \<Rightarrow> (u32 \<times> u8 list \<times> ext2_fs) option" where
  "ext2_read n off sz buffer fs = do {
     (inode, fs) \<leftarrow> read_inode n fs;
     isz \<leftarrow> rd32 inode 4;
     if isz = 0 then Some (0, buffer, fs)
     else if fs_block_size fs = 0 then None else do {
     let end' = (if off + sz > isz then isz else off + sz);
     let start_block = off div fs_block_size fs;
     let end_block = end' div fs_block_size fs;
     let end_size = end' - end_block * fs_block_size fs;
     let o' = unat off mod bsize fs;
     if start_block = end_block then do {
       (_, buf, fs) \<leftarrow> inode_read_block inode start_block [] fs;
       src \<leftarrow> copy_out o' (unat (end' - off)) buf;
       buffer \<leftarrow> copy_in 0 src buffer;
       Some (end' - off, buffer, fs)
     } else do {
       let k = unat end_block - unat start_block;
       (buf, buffer, fs) \<leftarrow> read_run inode off 0 k [] buffer fs;
       if end_size = 0 then Some (end' - off, buffer, fs) else do {
         (_, buf, fs) \<leftarrow> inode_read_block inode end_block buf fs;
         src \<leftarrow> copy_out 0 (unat end_size) buf;
         buffer \<leftarrow> copy_to (int (bsize fs * k) - int o') src buffer;
         Some (end' - off, buffer, fs) } } }
   }"

definition ext2_readlink :: "u32 \<Rightarrow> u8 list \<Rightarrow> u32 \<Rightarrow> ext2_fs \<Rightarrow> (u32 \<times> u8 list \<times> ext2_fs) option" where
  "ext2_readlink n buf sz fs = do {
     (inode, fs) \<leftarrow> read_inode n fs;
     isz \<leftarrow> rd32 inode 4;
     let read_size = (if isz < sz then isz else sz);
     (buf, fs) \<leftarrow> (if isz > 60
       then do { (_, buf, fs) \<leftarrow> ext2_read n 0 read_size buf fs; Some (buf, fs) }
       else do { src \<leftarrow> copy_out 40 (unat read_size) inode; buf \<leftarrow> copy_in 0 src buf; Some (buf, fs) });
     buf \<leftarrow> (if read_size < sz then wr8 (unat read_size) 0 buf else Some buf);
     Some (read_size, buf, fs)
   }"

end
