(* ===== verification/Ext2_Dir.thy ===== *)
theory Ext2_Dir
  imports Ext2_File
begin

text \<open>
  Directories of \<^verbatim>\<open>src/src/modules/fs/ext2.cpp\<close>: the three scans of the entries, the creation and
  removal of entries, the handlers built on them, and the mount.
\<close>

section \<open>The scans\<close>

text \<open>The next block, when the offset has left the present one; \<^verbatim>\<open>block_nr\<close> is an \<^verbatim>\<open>uint8_t\<close>.\<close>

definition turn_block :: "u8 list \<Rightarrow> u8 \<Rightarrow> u32 \<Rightarrow> u8 list \<Rightarrow> ext2_fs \<Rightarrow> (u8 \<times> u32 \<times> u8 list \<times> ext2_fs) option" where
  "turn_block inode nr off blk fs = (if off \<ge> fs_block_size fs then do {
       (_, blk, fs) \<leftarrow> inode_read_block inode (ucast (nr + 1)) blk fs;
       Some (nr + 1, off - fs_block_size fs, blk, fs)
     } else Some (nr, off, blk, fs))"

text \<open>The \<open>index\<close>-th used entry, as its bytes.\<close>

partial_function (option) direntry_loop :: "u8 list \<Rightarrow> u32 \<Rightarrow> u32 \<Rightarrow> u8 \<Rightarrow> u8 list \<Rightarrow> u32 \<Rightarrow> u32 \<Rightarrow> u32 \<Rightarrow>
    ext2_fs \<Rightarrow> (u8 list option \<times> ext2_fs) option" where
  "direntry_loop inode isz index nr blk off tot dir_index fs =
     (if \<not> (tot < isz \<and> dir_index \<le> index) then Some (None, fs) else do {
       ino \<leftarrow> rd32 blk (unat off);
       len \<leftarrow> rd16 blk (unat off + 4);
       if ino \<noteq> 0 \<and> dir_index = index then do {
         out \<leftarrow> copy_out (unat off) (unat len) blk;
         Some (Some out, fs)
       } else do {
         r \<leftarrow> turn_block inode nr (off + ucast len) blk fs;
         direntry_loop inode isz index (fst r) (fst (snd (snd r))) (fst (snd r)) (tot + ucast len)
           (if ino \<noteq> 0 then dir_index + 1 else dir_index) (snd (snd (snd r))) } })"

definition ext2_direntry :: "u8 list \<Rightarrow> u32 \<Rightarrow> ext2_fs \<Rightarrow> (u8 list option \<times> ext2_fs) option" where
  "ext2_direntry inode index fs = do {
     (_, blk, fs) \<leftarrow> inode_read_block inode 0 [] fs;
     isz \<leftarrow> rd32 inode 4;
     direntry_loop inode isz index 0 blk 0 0 0 fs
   }"

text \<open>The name and the inode number of the entry; \<^verbatim>\<open>name\<close> of \<^verbatim>\<open>struct dirent\<close> has 128 bytes.\<close>

definition ext2_readdir :: "u32 \<Rightarrow> u32 \<Rightarrow> ext2_fs \<Rightarrow> ((cstring \<times> u32) option \<times> ext2_fs) option" where
  "ext2_readdir n index fs = do {
     (inode, fs) \<leftarrow> read_inode n fs;
     (d, fs) \<leftarrow> ext2_direntry inode index fs;
     (case d of None \<Rightarrow> Some (None, fs)
      | Some d \<Rightarrow> do {
          len \<leftarrow> rd8 d 6;
          name \<leftarrow> copy_out 8 (unat len) d;
          ino \<leftarrow> rd32 d 0;
          if unat len < 128 then Some (Some (takeWhile (\<lambda>c. c \<noteq> 0) name, ino), fs) else None })
   }"

text \<open>The search of a name in \<^verbatim>\<open>ext2_finddir\<close> and \<^verbatim>\<open>ext2_unlink\<close>: the block, its number and the
  offset of the entry.\<close>

partial_function (option) find_loop :: "u8 list \<Rightarrow> u32 \<Rightarrow> cstring \<Rightarrow> u8 \<Rightarrow> u8 list \<Rightarrow> u32 \<Rightarrow> u32 \<Rightarrow> ext2_fs \<Rightarrow>
    ((u8 \<times> u32 \<times> u8 list) option \<times> ext2_fs) option" where
  "find_loop inode isz name nr blk off tot fs =
     (if \<not> tot < isz then Some (None, fs) else do {
       r \<leftarrow> turn_block inode nr off blk fs;
       let nr = fst r; off = fst (snd r); blk = fst (snd (snd r)); fs = snd (snd (snd r)) in do {
       ino \<leftarrow> rd32 blk (unat off);
       rlen \<leftarrow> rd16 blk (unat off + 4);
       nlen \<leftarrow> rd8 blk (unat off + 6);
       if ino = 0 \<or> length name \<noteq> unat nlen
       then find_loop inode isz name nr blk (off + ucast rlen) (tot + ucast rlen) fs
       else do {
         dname \<leftarrow> copy_out (unat off + 8) (unat nlen) blk;
         if takeWhile (\<lambda>c. c \<noteq> 0) dname = name then Some (Some (nr, off, blk), fs)
         else find_loop inode isz name nr blk (off + ucast rlen) (tot + ucast rlen) fs } } })"

definition ext2_finddir :: "u32 \<Rightarrow> cstring \<Rightarrow> ext2_fs \<Rightarrow> (file_node option \<times> ext2_fs) option" where
  "ext2_finddir n name fs = do {
     (inode, fs) \<leftarrow> read_inode n fs;
     (_, blk, fs) \<leftarrow> inode_read_block inode 0 [] fs;
     isz \<leftarrow> rd32 inode 4;
     (r, fs) \<leftarrow> find_loop inode isz name 0 blk 0 0 fs;
     (case r of None \<Rightarrow> Some (None, fs)
      | Some (_, off, blk) \<Rightarrow> do {
          rlen \<leftarrow> rd16 blk (unat off + 4);
          direntry \<leftarrow> copy_out (unat off) (unat rlen) blk;
          ino \<leftarrow> rd32 direntry 0;
          (inode, fs) \<leftarrow> read_inode ino fs;
          f \<leftarrow> node_from_file inode direntry blank_node;
          Some (Some f, fs) })
   }"

definition ext2_unlink :: "u32 \<Rightarrow> cstring \<Rightarrow> ext2_fs \<Rightarrow> ext2_fs option" where
  "ext2_unlink n name fs = do {
     (inode, fs) \<leftarrow> read_inode n fs;
     (_, blk, fs) \<leftarrow> inode_read_block inode 0 [] fs;
     isz \<leftarrow> rd32 inode 4;
     (r, fs) \<leftarrow> find_loop inode isz name 0 blk 0 0 fs;
     (case r of None \<Rightarrow> Some fs
      | Some (nr, off, blk) \<Rightarrow> do {
          blk \<leftarrow> wr32 (unat off) 0 blk;
          (_, _, fs) \<leftarrow> inode_write_block inode n (ucast nr) blk fs;
          Some (ext2_sync fs) })
   }"

section \<open>New entries\<close>

text \<open>The length of a record for a name of \<open>len\<close> bytes, as this file computes it.\<close>

definition record_length :: "u32 \<Rightarrow> u32" where
  "record_length len = (let n = len + 263 in n + (if n mod 4 \<noteq> 0 then 4 - n mod 4 else 0))"

datatype entry_place = Append | Modify u32 | Replace

partial_function (option) place_loop :: "u8 list \<Rightarrow> u32 \<Rightarrow> entry_place \<Rightarrow> u8 \<Rightarrow> u8 list \<Rightarrow> u32 \<Rightarrow> u32 \<Rightarrow> ext2_fs \<Rightarrow>
    (entry_place \<times> u8 \<times> u8 list \<times> u32 \<times> ext2_fs) option" where
  "place_loop inode isz place nr blk off tot fs =
     (if \<not> tot < isz then Some (place, nr, blk, off, fs) else do {
       r \<leftarrow> turn_block inode nr off blk fs;
       let nr = fst r; off = fst (snd r); blk = fst (snd (snd r)); fs = snd (snd (snd r)) in do {
       nlen \<leftarrow> rd8 blk (unat off + 6);
       rlen \<leftarrow> rd16 blk (unat off + 4);
       if ucast rlen \<noteq> record_length (ucast nlen) \<and> tot + ucast rlen = isz
       then Some (Modify off, nr, blk, off + record_length (ucast nlen), fs)
       else do {
         ino \<leftarrow> rd32 blk (unat off);
         place_loop inode isz (if ino = 0 then Replace else place) nr blk
           (off + ucast rlen) (tot + ucast rlen) fs } } })"

text \<open>The entry written at \<open>off\<close>: its record extends to the end of the block.\<close>

definition put_entry :: "u32 \<Rightarrow> u32 \<Rightarrow> cstring \<Rightarrow> ext2_fs \<Rightarrow> u8 list \<Rightarrow> u8 list option" where
  "put_entry off ino name fs blk = do {
     blk \<leftarrow> wr32 (unat off) ino blk;
     blk \<leftarrow> wr16 (unat off + 4) (ucast (fs_block_size fs - off)) blk;
     blk \<leftarrow> wr8 (unat off + 6) (of_nat (length name)) blk;
     blk \<leftarrow> wr8 (unat off + 7) 0 blk;
     copy_in (unat off + 8) name blk
   }"

text \<open>Success is reported as \<^verbatim>\<open>E_NOSPACE\<close> as well.\<close>

definition create_entry :: "u32 \<Rightarrow> cstring \<Rightarrow> u32 \<Rightarrow> ext2_fs \<Rightarrow> (e_code \<times> ext2_fs) option" where
  "create_entry n name ino fs = do {
     (pinode, fs) \<leftarrow> read_inode n fs;
     mode \<leftarrow> rd16 pinode 0;
     if mode AND EXT2_S_IFDIR = 0 then Some (E_BADPARENT, fs) else do {
     let rec_len = record_length (of_nat (length name));
     (_, blk, fs) \<leftarrow> inode_read_block pinode 0 [] fs;
     isz \<leftarrow> rd32 pinode 4;
     (place, nr, blk, off, fs) \<leftarrow> place_loop pinode isz Append 0 blk 0 0 fs;
     (case place of
        Modify prev \<Rightarrow>
          if off + rec_len \<ge> fs_block_size fs then Some (E_NOSPACE, fs) else do {
            nlen \<leftarrow> rd8 blk (unat prev + 6);
            blk \<leftarrow> wr16 (unat prev + 4) (ucast (record_length (ucast nlen))) blk;
            blk \<leftarrow> put_entry off ino name fs blk;
            (_, _, fs) \<leftarrow> inode_write_block pinode n (ucast nr) blk fs;
            Some (E_NOSPACE, fs) }
      | _ \<Rightarrow> do {
            blk \<leftarrow> put_entry off ino name fs blk;
            (_, _, fs) \<leftarrow> inode_write_block pinode n (ucast nr) blk fs;
            Some (E_NOSPACE, fs) }) }
   }"

section \<open>New files, directories and links\<close>

text \<open>The fields of the new inode that the three handlers fill in alike.\<close>

definition fresh_inode :: "u32 \<Rightarrow> u32 \<Rightarrow> u16 \<Rightarrow> u16 \<Rightarrow> u8 list \<Rightarrow> u8 list option" where
  "fresh_inode now user links mode inode = do {
     inode \<leftarrow> wr32 8 now inode; inode \<leftarrow> wr32 12 now inode; inode \<leftarrow> wr32 16 now inode;
     inode \<leftarrow> wr32 20 0 inode;
     inode \<leftarrow> copy_in 40 (replicate 60 0) inode;
     inode \<leftarrow> wr32 28 0 inode; inode \<leftarrow> wr32 4 0 inode;
     inode \<leftarrow> wr16 2 (ucast user) inode; inode \<leftarrow> wr16 24 (ucast user) inode;
     inode \<leftarrow> wr32 112 0 inode; inode \<leftarrow> wr16 26 links inode; inode \<leftarrow> wr32 32 0 inode;
     inode \<leftarrow> wr32 36 0 inode; inode \<leftarrow> wr32 100 0 inode; inode \<leftarrow> wr32 104 0 inode; inode \<leftarrow> wr32 108 0 inode;
     inode \<leftarrow> wr16 0 mode inode;
     copy_in 116 (replicate 12 0) inode
   }"

definition ext2_create :: "u32 \<Rightarrow> u32 \<Rightarrow> u32 \<Rightarrow> cstring \<Rightarrow> u16 \<Rightarrow> ext2_fs \<Rightarrow> ext2_fs option" where
  "ext2_create now user parent name permission fs = do {
     (check, fs) \<leftarrow> ext2_finddir parent name fs;
     if check \<noteq> None then Some fs else do {
       (no, fs) \<leftarrow> allocate_inode fs;
       (inode, fs) \<leftarrow> read_inode no fs;
       inode \<leftarrow> fresh_inode now user 1 (EXT2_S_IFREG OR (0xFFF AND permission)) inode;
       (_, fs) \<leftarrow> write_inode inode no fs;
       (_, fs) \<leftarrow> create_entry parent name no fs;
       Some (ext2_sync fs) }
   }"

text \<open>\<open>junk\<close> is what the buffer for the block of the new directory held before; only its first 24
  bytes are filled in.\<close>

definition ext2_mkdir :: "u32 \<Rightarrow> u32 \<Rightarrow> u8 list \<Rightarrow> u32 \<Rightarrow> cstring \<Rightarrow> u16 \<Rightarrow> ext2_fs \<Rightarrow> ext2_fs option" where
  "ext2_mkdir now user junk parent name permission fs = do {
     (check, fs) \<leftarrow> ext2_finddir parent name fs;
     if check \<noteq> None then Some fs else do {
       (no, fs) \<leftarrow> allocate_inode fs;
       (inode, fs) \<leftarrow> read_inode no fs;
       inode \<leftarrow> fresh_inode now user 2 (EXT2_S_IFDIR OR (0xFFF AND permission)) inode;
       (_, fs) \<leftarrow> write_inode inode no fs;
       (_, fs) \<leftarrow> create_entry parent name no fs;
       inode \<leftarrow> wr32 4 (fs_block_size fs) inode;
       (_, fs) \<leftarrow> write_inode inode no fs;
       t \<leftarrow> wr32 0 no (replicate 12 0);
       t \<leftarrow> wr16 4 12 t; t \<leftarrow> wr8 6 1 t; t \<leftarrow> wr8 8 46 t;
       tmp \<leftarrow> copy_in 0 t junk;
       t \<leftarrow> wr32 0 parent t;
       t \<leftarrow> wr8 6 2 t; t \<leftarrow> wr8 9 46 t; t \<leftarrow> wr16 4 (ucast (fs_block_size fs - 12)) t;
       tmp \<leftarrow> copy_in 12 t tmp;
       (_, _, fs) \<leftarrow> inode_write_block inode no 0 tmp fs;
       (pinode, fs) \<leftarrow> read_inode parent fs;
       links \<leftarrow> rd16 pinode 26;
       pinode \<leftarrow> wr16 26 (links + 1) pinode;
       (_, fs) \<leftarrow> write_inode pinode parent fs;
       if fs_inodes_per_group fs = 0 then None else do {
       let at = 32 * unat (no div fs_inodes_per_group fs) + 16;
       dirs \<leftarrow> rd16 (fs_block_groups fs) at;
       bgs \<leftarrow> wr16 at (dirs + 1) (fs_block_groups fs);
       fs \<leftarrow> write_groups 0 (unat (fs_bgd_block_span fs)) (fs\<lparr>fs_block_groups := bgs\<rparr>);
       Some (ext2_sync fs) } }
   }"

definition ext2_symlink :: "u32 \<Rightarrow> u32 \<Rightarrow> u32 \<Rightarrow> cstring \<Rightarrow> cstring \<Rightarrow> ext2_fs \<Rightarrow> ext2_fs option" where
  "ext2_symlink now user parent target name fs = do {
     (check, fs) \<leftarrow> ext2_finddir parent name fs;
     if check \<noteq> None then Some fs else do {
       (no, fs) \<leftarrow> allocate_inode fs;
       (inode, fs) \<leftarrow> read_inode no fs;
       inode \<leftarrow> fresh_inode now user 1 (EXT2_S_IFLNK OR 0x1FF) inode;
       let embedded = length target \<le> 60;
       inode \<leftarrow> (if embedded
         then do { inode \<leftarrow> copy_in 40 target inode; wr32 4 (of_nat (length target)) inode }
         else Some inode);
       (_, fs) \<leftarrow> write_inode inode no fs;
       (_, fs) \<leftarrow> create_entry parent name no fs;
       fs \<leftarrow> (if embedded then Some fs
         else do { (_, _, fs) \<leftarrow> write_inode_buffer inode no 0 (of_nat (length target)) target fs; Some fs });
       Some (ext2_sync fs) }
   }"

section \<open>Mounting\<close>

fun read_groups :: "nat \<Rightarrow> nat \<Rightarrow> ext2_fs \<Rightarrow> (u8 list \<times> ext2_fs) option" where
  "read_groups i 0 fs = Some ([], fs)"
| "read_groups i (Suc k) fs = do {
     (b, fs) \<leftarrow> fetch (ucast (fs_bgd_offset fs) + of_nat i) fs;
     (bs, fs) \<leftarrow> read_groups (Suc i) k fs;
     Some (b @ bs, fs)
   }"

text \<open>\<open>disk\<close> is the content of the device.  The file is compiled with \<^verbatim>\<open>USE_CACHE\<close> 0, so there is no
  cache.  The result 0 is \<open>Some None\<close>, else it is the root node with the file system.\<close>

definition mount_ext2 :: "(u32 \<Rightarrow> u8 list) \<Rightarrow> (file_node \<times> ext2_fs) option option" where
  "mount_ext2 disk = do {
     let fs = \<lparr>fs_superblock = [], fs_block_groups = [], fs_disk = disk, fs_block_size = 1024,
       fs_pointer_per_block = 0, fs_inodes_per_group = 0, fs_block_group_count = 0, fs_cache = None,
       fs_cache_time = 0, fs_using_cache = False, fs_bgd_block_span = 0, fs_bgd_offset = 0, fs_inode_size = 0\<rparr>;
     (sb, fs) \<leftarrow> fetch 1 fs;
     magic \<leftarrow> rd16 sb 56;
     if magic \<noteq> 0xEF53 then Some None else do {
     isize \<leftarrow> rd16 sb 88;
     log_size \<leftarrow> rd32 sb 24;
     blocks \<leftarrow> rd32 sb 4;
     bpg \<leftarrow> rd32 sb 32;
     inodes \<leftarrow> rd32 sb 0;
     if log_size \<ge> 32 \<or> bpg = 0 then None else do {
     let bs = push_bit (unat log_size) 1024;
     let count = (if bpg * (blocks div bpg) < blocks then blocks div bpg + 1 else blocks div bpg);
     if count = 0 \<or> bs = 0 then None else do {
     let span = ucast (32 * count div bs + 1);
     let fs = fs\<lparr>fs_superblock := sb, fs_inode_size := (if isize = 0 then 128 else ucast isize),
       fs_block_size := bs, fs_pointer_per_block := bs div 4, fs_block_group_count := count,
       fs_inodes_per_group := inodes div count, fs_bgd_block_span := span,
       fs_bgd_offset := (if bs > 1024 then 1 else 2)\<rparr>;
     (bgs, fs) \<leftarrow> read_groups 0 (unat span) fs;
     let fs = fs\<lparr>fs_block_groups := bgs\<rparr>;
     (root, fs) \<leftarrow> read_inode 2 fs;
     r \<leftarrow> ext2_make_rootfile root blank_node;
     (case r of None \<Rightarrow> Some None | Some f \<Rightarrow> Some (Some (f, fs))) } } }
   }"

end
