(* ===== verification/Ext2_Data.thy ===== *)
theory Ext2_Data
  imports Ext2_File
begin

text \<open>
  What reading and writing a file means: the blocks of an inode, put one after the other, are the
  contents of the file, \<^verbatim>\<open>ext2_read\<close> returns a part of them, and \<^verbatim>\<open>write_ext2\<close> replaces a part.
  Files are those whose blocks are allocated and reached through the twelve direct pointers.
\<close>

section \<open>Replacing a part of a list\<close>

definition overwrite :: "nat \<Rightarrow> 'a list \<Rightarrow> 'a list \<Rightarrow> 'a list" where
  "overwrite p src xs = take p xs @ src @ drop (p + length src) xs"

lemma copy_in_overwrite: "p + length src \<le> length bs \<Longrightarrow> copy_in p src bs = Some (overwrite p src bs)"
  by (simp add: copy_in_def overwrite_def)

lemma length_overwrite [simp]: "p + length src \<le> length xs \<Longrightarrow> length (overwrite p src xs) = length xs"
  by (simp add: overwrite_def)

lemma overwrite_Nil [simp]: "overwrite p [] xs = xs"
  by (simp add: overwrite_def)

lemma overwrite_append:
  "p + length s1 \<le> length xs \<Longrightarrow> overwrite (p + length s1) s2 (overwrite p s1 xs) = overwrite p (s1 @ s2) xs"
  by (cases s1) (auto simp: overwrite_def min_def ac_simps)

lemma overwrite_all: "length src = length xs \<Longrightarrow> overwrite 0 src xs = src"
  by (simp add: overwrite_def)

lemma drop_overwrite_self: "p + length src \<le> length xs \<Longrightarrow> take (length src) (drop p (overwrite p src xs)) = src"
  by (simp add: overwrite_def)

lemma overwrite_middle:
  "p + length src \<le> length ys \<Longrightarrow> overwrite (length xs + p) src (xs @ ys @ zs) = xs @ overwrite p src ys @ zs"
  by (simp add: overwrite_def)

lemma drop_take_split:
  assumes "a \<le> b" and "b \<le> c"
  shows "drop a (take c xs) = drop a (take b xs) @ drop b (take c xs)"
proof -
  have "take (c - a) (drop a xs) = take (b - a + (c - b)) (drop a xs)" using assms by simp
  also have "\<dots> = take (b - a) (drop a xs) @ take (c - b) (drop b xs)"
    unfolding take_add using assms by simp
  finally show ?thesis by (simp add: drop_take)
qed

section \<open>Blocks put together\<close>

lemma concat_blocks_split:
  assumes "j < n" and "\<And>i. i < n \<Longrightarrow> length (f i) = w"
  shows "length (concat (map f [0..<j])) = j * w"
    and "concat (map f [0..<n]) = concat (map f [0..<j]) @ f j @ concat (map f [Suc j..<n])"
proof -
  have "map (length \<circ> f) [0..<j] = map (\<lambda>_. w) [0..<j]" using assms by (intro map_cong) auto
  then show "length (concat (map f [0..<j])) = j * w"
    by (simp add: length_concat map_replicate_const sum_list_replicate)
  have "[0..<n] = [0..<j] @ j # [Suc j..<n]"
    using assms(1) by (metis le_add_diff_inverse less_imp_le_nat upt_add_eq_append upt_conv_Cons zero_le)
  then show "concat (map f [0..<n]) = concat (map f [0..<j]) @ f j @ concat (map f [Suc j..<n])"
    by simp
qed

lemma length_concat_blocks: "(\<And>i. i < n \<Longrightarrow> length (f i) = w) \<Longrightarrow> length (concat (map f [0..<n])) = n * w"
  by (induction n) auto

lemma block_of_concat:
  assumes "j < n" and "\<And>i. i < n \<Longrightarrow> length (f i) = w"
  shows "take w (drop (j * w) (concat (map f [0..<n]))) = f j"
  using concat_blocks_split [of j n f w, OF assms] assms by simp

lemma overwrite_block:
  assumes "j < n" and "\<And>i. i < n \<Longrightarrow> length (f i) = w" and "q + length src \<le> w"
  shows "concat (map (f(j := overwrite q src (f j))) [0..<n]) =
    overwrite (j * w + q) src (concat (map f [0..<n]))"
proof -
  let ?g = "f(j := overwrite q src (f j))"
  have "map ?g [0..<j] = map f [0..<j]" "map ?g [Suc j..<n] = map f [Suc j..<n]" by auto
  moreover have "length (?g i) = w" if "i < n" for i using assms that by simp
  ultimately have "concat (map ?g [0..<n]) = concat (map f [0..<j]) @ overwrite q src (f j) @ concat (map f [Suc j..<n])"
    using concat_blocks_split(2) [of j n ?g w] assms(1) by simp
  with concat_blocks_split [of j n f w, OF assms(1,2)] show ?thesis
    using overwrite_middle [of q src "f j" "concat (map f [0..<j])"] assms by simp
qed

section \<open>Files\<close>

text \<open>The block number of the \<open>k\<close>-th block, and the contents of the file, in a store \<open>c\<close>.\<close>

definition file_block :: "u8 list \<Rightarrow> nat \<Rightarrow> u32" where
  "file_block inode k = get32 inode (map_slot k)"

definition file_bytes :: "u8 list \<Rightarrow> nat \<Rightarrow> (u32 \<Rightarrow> u8 list) \<Rightarrow> u8 list" where
  "file_bytes inode n c = concat (map (\<lambda>k. c (file_block inode k)) [0..<n])"

text \<open>The inode has \<open>n\<close> blocks, all of them direct, on the disk and different.\<close>

definition direct_file :: "ext2_fs \<Rightarrow> u8 list \<Rightarrow> nat \<Rightarrow> bool" where
  "direct_file fs inode n \<longleftrightarrow> 100 \<le> length inode \<and> n \<le> 12 \<and> n * bsize fs < 2 ^ 32 \<and>
     fs_block_size fs div 512 \<noteq> 0 \<and> get32 inode 28 div (fs_block_size fs div 512) = of_nat n \<and>
     (\<forall>k < n. good_block fs (file_block inode k)) \<and>
     (\<forall>i < n. \<forall>j < n. file_block inode i = file_block inode j \<longrightarrow> i = j)"

lemma direct_fileD:
  assumes "direct_file fs inode n"
  shows "100 \<le> length inode" "n \<le> 12" "n * bsize fs < 2 ^ 32" "inode_blocks inode fs = Some (of_nat n)"
    "k < n \<Longrightarrow> good_block fs (file_block inode k)"
    "i < n \<Longrightarrow> j < n \<Longrightarrow> file_block inode i = file_block inode j \<longleftrightarrow> i = j"
    "unat (of_nat n :: u32) = n"
  using assms by (auto simp: direct_file_def inode_blocks_def rd32_def unat_of_nat_small)

lemma direct_file_frame: "meta fs' = meta fs \<Longrightarrow> direct_file fs' inode n = direct_file fs inode n"
  unfolding direct_file_def by (simp only: meta_fields [of fs' fs])

lemma get_block_number_direct:
  assumes "direct_file fs inode n" and "k < n"
  shows "get_block_number inode (of_nat k) fs = Some (file_block inode k, fs)"
proof -
  have k: "k < 12" using direct_fileD(2) [OF assms(1)] assms(2) by simp
  then have u: "unat (of_nat k :: u32) = k" by (simp add: unat_of_nat_small)
  then have "(of_nat k :: u32) < 12" using k by (simp add: word_less_nat_alt)
  with u k show ?thesis
    using direct_fileD(1) [OF assms(1)]
    by (simp add: get_block_number_def Let_def rd32_def map_slot_def file_block_def)
qed

lemma of_nat_less_blocks:
  assumes "direct_file fs inode n" and "k < n" shows "(of_nat k :: u32) < of_nat n"
  using assms direct_fileD(2,7) [OF assms(1)] by (simp add: word_less_nat_alt unat_of_nat_small)

lemma inode_read_direct:
  assumes "fs_ok fs" and "direct_file fs inode n" and "k < n" and "0 < budget fs"
  shows "\<exists>fs'. inode_read_block inode (of_nat k) buff fs =
       Some (file_block inode k, store fs (file_block inode k), fs') \<and> disk.evolves 1 (\<lambda>c. c) fs fs'"
proof -
  obtain fs' where "read_block (file_block inode k) buff fs =
      Some (E_SUCCESS, store fs (file_block inode k), fs')" "disk.evolves 1 (\<lambda>c. c) fs fs'"
    using disk.read_evolves [OF assms(1) direct_fileD(5) [OF assms(2,3)] assms(4)] by blast
  then show ?thesis
    using of_nat_less_blocks [OF assms(2,3)]
    by (auto simp: inode_read_block_def direct_fileD(4) [OF assms(2)]
        get_block_number_direct [OF assms(2,3)] not_le)
qed

lemma inode_write_direct:
  assumes "fs_ok fs" and "direct_file fs inode n" and "k < n" and "0 < budget fs" and "length buff = bsize fs"
  shows "\<exists>fs'. inode_write_block inode no (of_nat k) buff fs = Some (file_block inode k, inode, fs') \<and>
     disk.evolves 1 (\<lambda>c. c(file_block inode k := buff)) fs fs'"
proof -
  obtain fs' where "write_block (file_block inode k) buff fs = Some (E_SUCCESS, fs')"
    "disk.evolves 1 (\<lambda>c. c(file_block inode k := buff)) fs fs'"
    using disk.write_evolves [OF assms(1) direct_fileD(5) [OF assms(2,3)] assms(5,4)] by blast
  then show ?thesis
    using of_nat_less_blocks [OF assms(2,3)]
    by (auto simp: inode_write_block_def grow_inode.simps [of no "of_nat k" inode fs]
        direct_fileD(4) [OF assms(2)] get_block_number_direct [OF assms(2,3)])
qed

section \<open>A change of a file\<close>

text \<open>\<open>turns m inode n f fs fs'\<close>: at most \<open>m\<close> block operations led from \<open>fs\<close> to \<open>fs'\<close>; they made
  \<open>f\<close> of the contents of the file and changed no block outside it.\<close>

definition turns :: "nat \<Rightarrow> u8 list \<Rightarrow> nat \<Rightarrow> (u8 list \<Rightarrow> u8 list) \<Rightarrow> ext2_fs \<Rightarrow> ext2_fs \<Rightarrow> bool" where
  "turns m inode n f fs fs' \<longleftrightarrow> fs_ok fs' \<and> meta fs' = meta fs \<and> budget fs \<le> budget fs' + m \<and>
     file_bytes inode n (store fs') = f (file_bytes inode n (store fs)) \<and>
     (\<forall>b. good_block fs b \<longrightarrow> (\<forall>k < n. b \<noteq> file_block inode k) \<longrightarrow> store fs' b = store fs b)"

lemma file_bytes_cong:
  "(\<And>k. k < n \<Longrightarrow> c (file_block inode k) = d (file_block inode k)) \<Longrightarrow> file_bytes inode n c = file_bytes inode n d"
  unfolding file_bytes_def by (intro arg_cong [where f = concat] map_cong) simp_all

lemma file_block_length:
  "fs_ok fs \<Longrightarrow> direct_file fs inode n \<Longrightarrow> k < n \<Longrightarrow> length (store fs (file_block inode k)) = bsize fs"
  using disk.length_law direct_fileD(5) by blast

lemma file_bytes_block:
  assumes "fs_ok fs" and "direct_file fs inode n" and "k < n"
  shows "take (bsize fs) (drop (k * bsize fs) (file_bytes inode n (store fs))) = store fs (file_block inode k)"
  unfolding file_bytes_def
  using block_of_concat [OF assms(3), of "\<lambda>k. store fs (file_block inode k)" "bsize fs"]
    file_block_length [OF assms(1,2)] by simp

lemma length_file_bytes:
  "fs_ok fs \<Longrightarrow> direct_file fs inode n \<Longrightarrow> length (file_bytes inode n (store fs)) = n * bsize fs"
  unfolding file_bytes_def by (intro length_concat_blocks file_block_length)

lemma turns_read:
  assumes "disk.evolves m (\<lambda>c. c) fs fs'" and "direct_file fs inode n"
  shows "turns m inode n (\<lambda>c. c) fs fs'"
  using assms(1) file_bytes_cong [of n "store fs'" inode "store fs"] direct_fileD(5) [OF assms(2)]
  by (auto simp: turns_def disk.evolves_def)

lemma turns_write:
  assumes "disk.evolves m (\<lambda>c. c(file_block inode k := overwrite q src (c (file_block inode k)))) fs fs'"
    and "fs_ok fs" and "direct_file fs inode n" and "k < n" and "q + length src \<le> bsize fs"
  shows "turns m inode n (overwrite (k * bsize fs + q) src) fs fs'"
proof -
  let ?f = "\<lambda>k. store fs (file_block inode k)"
  have "map (\<lambda>i. store fs' (file_block inode i)) [0..<n] = map (?f(k := overwrite q src (?f k))) [0..<n]"
    using assms(1) direct_fileD(5,6) [OF assms(3)] assms(4)
    by (intro map_cong) (auto simp: disk.evolves_def)
  then have "file_bytes inode n (store fs') = overwrite (k * bsize fs + q) src (file_bytes inode n (store fs))"
    using overwrite_block [OF assms(4), of ?f "bsize fs", OF file_block_length [OF assms(2,3)] assms(5)]
    unfolding file_bytes_def by (simp only:)
  with assms(1,4) show ?thesis by (auto simp: turns_def disk.evolves_def)
qed

lemma turns_trans:
  assumes "turns m inode n f fs fs'" and "turns m' inode n g fs' fs''"
  shows "turns (m + m') inode n (\<lambda>c. g (f c)) fs fs''"
proof -
  have "good_block fs' = good_block fs" using assms(1) meta_fields(8) [of fs' fs] by (simp add: turns_def)
  with assms show ?thesis by (auto simp: turns_def)
qed

lemma turnsD:
  assumes "turns m inode n f fs fs'"
  shows "fs_ok fs'" "meta fs' = meta fs" "budget fs \<le> budget fs' + m" "bsize fs' = bsize fs"
    "fs_block_size fs' = fs_block_size fs" "direct_file fs' inode n = direct_file fs inode n"
    "file_bytes inode n (store fs') = f (file_bytes inode n (store fs))"
  using assms meta_fields(2) [of fs' fs] direct_file_frame [of fs' fs] by (simp_all add: turns_def)

section \<open>Reading\<close>

text \<open>How many bytes are done after \<open>r\<close> blocks from the offset \<open>off\<close>.\<close>

definition run_bytes :: "u32 \<Rightarrow> nat \<Rightarrow> nat \<Rightarrow> nat" where
  "run_bytes off w r = (if r = 0 then 0 else w * r - unat off mod w)"

lemma run_bytes_position:
  assumes "0 < w" and "0 < r"
  shows "unat off + run_bytes off w r = (unat off div w + r) * w"
proof -
  have "unat off mod w \<le> w * r" using assms by (metis less_imp_le_nat mod_less_divisor mult_le_mono2 nat_mult_1_right order_trans Suc_leI One_nat_def)
  moreover have "unat off = unat off div w * w + unat off mod w" by simp
  moreover have "(unat off div w + r) * w = unat off div w * w + w * r" by (simp add: add_mult_distrib)
  moreover have "run_bytes off w r = w * r - unat off mod w" using assms(2) by (simp add: run_bytes_def)
  ultimately show ?thesis by linarith
qed

lemma run_block_number:
  assumes "unat off div bsize fs + r < n" and "n * bsize fs < 2 ^ 32" and "0 < bsize fs"
  shows "off div fs_block_size fs + of_nat r = of_nat (unat off div bsize fs + r)"
proof -
  have "off div fs_block_size fs = of_nat (unat off div bsize fs)"
    unfolding unat_div_distrib [symmetric] by simp
  then show ?thesis by simp
qed

text \<open>The part of the file that block number \<open>r\<close> of a run contributes.\<close>

lemma run_piece:
  assumes "fs_ok fs" and "direct_file fs inode n" and "unat off div bsize fs + r < n"
  defines "C \<equiv> drop (unat off) (file_bytes inode n (store fs))"
    and "b \<equiv> store fs (file_block inode (unat off div bsize fs + r))"
  shows "r = 0 \<Longrightarrow> take (run_bytes off (bsize fs) 1) C = drop (unat off mod bsize fs) b"
    and "0 < r \<Longrightarrow> take (run_bytes off (bsize fs) (Suc r)) C = take (run_bytes off (bsize fs) r) C @ b"
proof -
  let ?w = "bsize fs" and ?F = "file_bytes inode n (store fs)" and ?o = "unat off mod bsize fs"
  have w: "0 < ?w" using assms(1) by (simp add: fs_ok_def)
  have b: "b = take ?w (drop ((unat off div ?w + r) * ?w) ?F)"
    using file_bytes_block [OF assms(1-3)] by (simp add: b_def)
  show "take (run_bytes off ?w 1) C = drop ?o b" if "r = 0"
  proof -
    have "drop ?o b = take (?w - ?o) (drop (?o + unat off div ?w * ?w) ?F)"
      using that by (simp add: b drop_take)
    also have "?o + unat off div ?w * ?w = unat off" by simp
    finally show ?thesis by (simp add: C_def run_bytes_def)
  qed
  show "take (run_bytes off ?w (Suc r)) C = take (run_bytes off ?w r) C @ b" if "0 < r"
  proof -
    have "?o < ?w" using w by simp
    moreover have "?w \<le> ?w * r" using that by simp
    moreover have "run_bytes off ?w (Suc r) = ?w * r + ?w - ?o" "run_bytes off ?w r = ?w * r - ?o"
      using that by (simp_all add: run_bytes_def add.commute)
    ultimately have "run_bytes off ?w (Suc r) = run_bytes off ?w r + ?w" by linarith
    moreover have "b = take ?w (drop (run_bytes off ?w r) C)"
      using run_bytes_position [OF w that, of off] by (simp add: b C_def add.commute)
    ultimately show ?thesis by (simp add: take_add)
  qed
qed

lemma read_run_law:
  assumes "fs_ok fs" and "direct_file fs inode n" and "unat off div bsize fs + r + k \<le> n" and "k \<le> budget fs"
    and "run_bytes off (bsize fs) (r + k) \<le> length buffer"
  defines "C \<equiv> \<lambda>j. take (run_bytes off (bsize fs) j) (drop (unat off) (file_bytes inode n (store fs)))"
  shows "\<exists>buf' fs'. read_run inode off r k buf (overwrite 0 (C r) buffer) fs =
      Some (buf', overwrite 0 (C (r + k)) buffer, fs') \<and> turns k inode n (\<lambda>c. c) fs fs'"
  using assms(1-5) unfolding C_def
proof (induction k arbitrary: r buf fs)
  case 0
  then show ?case by (auto simp: turns_def)
next
  case (Suc k)
  let ?w = "bsize fs" and ?C = "\<lambda>j. take (run_bytes off (bsize fs) j) (drop (unat off) (file_bytes inode n (store fs)))"
  let ?o = "unat off mod ?w" and ?j = "unat off div bsize fs + r"
  have w: "0 < ?w" "?o < ?w" using Suc.prems(1) by (simp_all add: fs_ok_def)
  have j: "?j < n" using Suc.prems(3) by simp
  let ?b = "store fs (file_block inode ?j)"
  have blk: "off div fs_block_size fs + of_nat r = of_nat ?j"
    using run_block_number [OF j _ w(1)] direct_fileD(3) [OF Suc.prems(2)] by simp
  obtain fs1 where rd: "inode_read_block inode (of_nat ?j) buf fs = Some (file_block inode ?j, ?b, fs1)"
    "disk.evolves 1 (\<lambda>c. c) fs fs1"
    using inode_read_direct [OF Suc.prems(1,2) j] Suc.prems(4) by (metis Suc_le_D zero_less_Suc)
  have t: "turns 1 inode n (\<lambda>c. c) fs fs1" using turns_read [OF rd(2) Suc.prems(2)] .
  note t1 = turnsD [OF t]
  have len: "length ?b = ?w" using file_block_length [OF Suc.prems(1,2) j] .
  have lenC: "length (?C i) = run_bytes off ?w i" if "i \<le> r + Suc k" for i
  proof (cases "i = 0")
    case False
    then have "unat off + run_bytes off ?w i = (unat off div ?w + i) * ?w" using run_bytes_position [OF w(1)] by simp
    also have "\<dots> \<le> n * ?w" using that Suc.prems(3) by (intro mult_le_mono1) simp
    finally show ?thesis using length_file_bytes [OF Suc.prems(1,2)] by simp
  qed (simp add: run_bytes_def)
  have mono: "run_bytes off ?w i \<le> length buffer" if "i \<le> r + Suc k" for i
  proof -
    have "?w * i \<le> ?w * (r + Suc k)" using that by (rule mult_le_mono2)
    then show ?thesis using Suc.prems(5) by (auto simp: run_bytes_def split: if_splits)
  qed
  let ?nx = "overwrite 0 (?C (Suc r)) buffer"
  have step: "read_run inode off r (Suc k) buf (overwrite 0 (?C r) buffer) fs = read_run inode off (Suc r) k ?b ?nx fs1"
  proof (cases "r = 0")
    case True
    then have "?C (Suc r) = drop ?o ?b" using run_piece(1) [OF Suc.prems(1,2) j] by simp
    moreover have "length buffer \<ge> ?w - ?o" using mono [of 1] by (simp add: run_bytes_def)
    ultimately show ?thesis
      using True rd(1) w len blk t1(4)
      by (simp add: run_bytes_def copy_out_def copy_in_overwrite Let_def)
  next
    case False
    then have C: "?C (Suc r) = ?C r @ ?b" using run_piece(2) [OF Suc.prems(1,2) j] by simp
    have le: "?w \<le> ?w * r" using False by simp
    have m: "run_bytes off ?w r = ?w * r - ?o" using False by (simp add: run_bytes_def)
    have pos: "nat (int (?w * r) - int ?o) = run_bytes off ?w r" "\<not> int (?w * r) - int ?o < 0"
      using m le w(2) by linarith+
    have L: "length (?C r) = run_bytes off ?w r" using lenC [of r] by simp
    have "length (?C (Suc r)) \<le> length buffer" using lenC [of "Suc r"] mono [of "Suc r"] by simp
    then have fit: "length (?C r) + length ?b \<le> length buffer" unfolding C by simp
    have "copy_in (run_bytes off ?w r) ?b (overwrite 0 (?C r) buffer) = Some ?nx"
      using fit L overwrite_append [of 0 "?C r" buffer ?b] unfolding C by (simp add: copy_in_overwrite)
    then show ?thesis
      using False rd(1) len blk pos t1(5) by (simp add: copy_out_def copy_to_def Let_def)
  qed
  have same: "file_bytes inode n (store fs1) = file_bytes inode n (store fs)" using t1(7) by simp
  have "unat off div bsize fs1 + Suc r + k \<le> n" "k \<le> budget fs1" "run_bytes off (bsize fs1) (Suc r + k) \<le> length buffer"
    using Suc.prems(3-5) t1(3,4) by simp_all
  from Suc.IH [OF t1(1) _ this, of ?b, unfolded t1(4) t1(6) same, OF Suc.prems(2)]
  obtain buf' fs' where "read_run inode off (Suc r) k ?b ?nx fs1 = Some (buf', overwrite 0 (?C (Suc r + k)) buffer, fs')"
    "turns k inode n (\<lambda>c. c) fs1 fs'" by blast
  with step turns_trans [OF t] show ?case by (metis add_Suc_right add_Suc_shift plus_1_eq_Suc)
qed

section \<open>Writing\<close>

text \<open>One block is read, changed from position \<open>q\<close> on, and written.\<close>

lemma block_update:
  assumes "fs_ok fs" and "direct_file fs inode n" and "k < n" and "1 < budget fs" and "q + length src \<le> bsize fs"
  defines "b \<equiv> file_block inode k"
  shows "\<exists>fs1 fs2. inode_read_block inode (of_nat k) buf fs = Some (b, store fs b, fs1) \<and>
     bsize fs1 = bsize fs \<and> fs_block_size fs1 = fs_block_size fs \<and>
     copy_in q src (store fs b) = Some (overwrite q src (store fs b)) \<and>
     inode_write_block inode no (of_nat k) (overwrite q src (store fs b)) fs1 = Some (b, inode, fs2) \<and>
     turns 2 inode n (overwrite (k * bsize fs + q) src) fs fs2"
proof -
  obtain fs1 where r: "inode_read_block inode (of_nat k) buf fs = Some (b, store fs b, fs1)"
    "disk.evolves 1 (\<lambda>c. c) fs fs1"
    using inode_read_direct [OF assms(1-3), of buf] assms(4) unfolding b_def by auto
  note t1 = turnsD [OF turns_read [OF r(2) assms(2)]]
  have d1: "direct_file fs1 inode n" unfolding t1(6) by (rule assms(2))
  have g: "good_block fs b" using direct_fileD(5) [OF assms(2,3)] by (simp add: b_def)
  then have s1: "store fs1 b = store fs b" using r(2) by (simp add: disk.evolves_def)
  have len: "length (store fs b) = bsize fs" using disk.length_law [OF assms(1) g] .
  have L: "length (overwrite q src (store fs b)) = bsize fs1" using len assms(5) t1(4) by simp
  have "0 < budget fs1" using t1(3) assms(4) by simp
  from inode_write_direct [OF t1(1) d1 assms(3) this L, of no] obtain fs2 where
    w: "inode_write_block inode no (of_nat k) (overwrite q src (store fs b)) fs1 = Some (b, inode, fs2)"
    "disk.evolves 1 (\<lambda>c. c(b := overwrite q src (store fs b))) fs1 fs2" unfolding b_def by blast
  have "disk.evolves 1 (\<lambda>c. c(b := overwrite q src (c b))) fs1 fs2"
    using w(2) s1 unfolding disk.evolves_def by simp
  then have "turns 1 inode n (overwrite (k * bsize fs + q) src) fs1 fs2"
    using turns_write [of 1 inode k q src fs1 fs2 n] t1(1,4) d1 assms(3,5) by (simp add: b_def)
  then have "turns 2 inode n (overwrite (k * bsize fs + q) src) fs fs2"
    using turns_trans [OF turns_read [OF r(2) assms(2)]] by (metis one_add_one)
  with r(1) w(1) t1(4,5) len assms(5) show ?thesis
    by (intro exI [of _ fs1] exI [of _ fs2]) (simp add: copy_in_overwrite)
qed

lemma turns_weaken: "turns m inode n f fs fs' \<Longrightarrow> m \<le> m' \<Longrightarrow> turns m' inode n f fs fs'"
  by (auto simp: turns_def)

lemma write_run_law:
  assumes "fs_ok fs" and "direct_file fs inode n" and "unat off div bsize fs + r + k \<le> n" and "2 * k \<le> budget fs"
    and "run_bytes off (bsize fs) (r + k) \<le> length buffer"
  shows "\<exists>buf' fs'. write_run no off buffer r k buf inode fs = Some (buf', inode, fs') \<and>
      turns (2 * k) inode n (overwrite (unat off + run_bytes off (bsize fs) r)
        (drop (run_bytes off (bsize fs) r) (take (run_bytes off (bsize fs) (r + k)) buffer))) fs fs'"
  using assms
proof (induction k arbitrary: r buf fs)
  case 0
  then show ?case by (auto simp: turns_def)
next
  case (Suc k)
  let ?w = "bsize fs" and ?m = "\<lambda>j. run_bytes off (bsize fs) j"
  let ?o = "unat off mod ?w" and ?j = "unat off div bsize fs + r"
  have w: "0 < ?w" "?o < ?w" using Suc.prems(1) by (simp_all add: fs_ok_def)
  have j: "?j < n" using Suc.prems(3) by simp
  have blk: "off div fs_block_size fs + of_nat r = of_nat ?j"
    using run_block_number [OF j _ w(1)] direct_fileD(3) [OF Suc.prems(2)] by simp
  have mono: "?m i \<le> ?m i'" if "i \<le> i'" for i i'
    using that diff_le_mono [OF mult_le_mono2 [OF that, of ?w], of ?o] by (simp add: run_bytes_def)
  let ?src = "drop (?m r) (take (?m (Suc r)) buffer)" and ?q = "if r = 0 then ?o else 0"
  have fit: "?m (Suc r) \<le> length buffer" using mono [of "Suc r" "r + Suc k"] Suc.prems(5) by simp
  have len: "length ?src = (if r = 0 then ?w - ?o else ?w)"
  proof (cases "r = 0")
    case False
    then have "?w \<le> ?w * r" by simp
    moreover have "?m (Suc r) = ?w * r + ?w - ?o" "?m r = ?w * r - ?o"
      using False by (simp_all add: run_bytes_def add.commute)
    ultimately have "?m (Suc r) - ?m r = ?w" using w by linarith
    with False fit show ?thesis by simp
  qed (use fit in \<open>simp add: run_bytes_def\<close>)
  have "?q + length ?src \<le> ?w" "1 < budget fs" using len w Suc.prems(4) by auto
  from block_update [OF Suc.prems(1,2) j this(2,1), of buf no] obtain fs1 fs2 where u:
    "inode_read_block inode (of_nat ?j) buf fs = Some (file_block inode ?j, store fs (file_block inode ?j), fs1)"
    "bsize fs1 = ?w" "fs_block_size fs1 = fs_block_size fs"
    "copy_in ?q ?src (store fs (file_block inode ?j)) = Some (overwrite ?q ?src (store fs (file_block inode ?j)))"
    "inode_write_block inode no (of_nat ?j) (overwrite ?q ?src (store fs (file_block inode ?j))) fs1 =
      Some (file_block inode ?j, inode, fs2)"
    "turns 2 inode n (overwrite (?j * ?w + ?q) ?src) fs fs2" by blast
  have at: "?j * ?w + ?q = unat off + ?m r"
    using run_bytes_position [OF w(1), of r off] by (auto simp: run_bytes_def)
  have nz: "file_block inode ?j \<noteq> 0" using direct_fileD(5) [OF Suc.prems(2) j] by (simp add: good_block_def)
  let ?b1 = "overwrite ?q ?src (store fs (file_block inode ?j))"
  have step: "write_run no off buffer r (Suc k) buf inode fs = write_run no off buffer (Suc r) k ?b1 inode fs2"
  proof (cases "r = 0")
    case True
    then have "copy_out 0 (?w - ?o) buffer = Some ?src" using len fit by (simp add: copy_out_def run_bytes_def)
    with True u nz blk show ?thesis by (simp add: Let_def)
  next
    case False
    then have le: "?w \<le> ?w * r" by simp
    have "?m r = ?w * r - ?o" using False by (simp add: run_bytes_def)
    then have pos: "nat (int (?w * r) - int ?o) = ?m r" "\<not> int (?w * r) - int ?o < 0"
      using le w(2) by linarith+
    have "?m (Suc r) = ?m r + ?w" using len fit False mono [of r "Suc r"] by simp
    then have "copy_out (?m r) ?w buffer = Some ?src" using fit by (simp add: copy_out_def drop_take)
    then have "copy_from (int (?w * r) - int ?o) ?w buffer = Some ?src" using pos by (simp add: copy_from_def)
    with False u nz blk show ?thesis by (simp add: Let_def)
  qed
  note t2 = turnsD [OF u(6)]
  have "unat off div bsize fs2 + Suc r + k \<le> n" "2 * k \<le> budget fs2" "run_bytes off (bsize fs2) (Suc r + k) \<le> length buffer"
    using Suc.prems(3-5) t2(3,4) by simp_all
  from Suc.IH [OF t2(1) _ this, of ?b1, unfolded t2(4,6), OF Suc.prems(2)] obtain buf' fs' where
    IH: "write_run no off buffer (Suc r) k ?b1 inode fs2 = Some (buf', inode, fs')"
    "turns (2 * k) inode n (overwrite (unat off + ?m (Suc r)) (drop (?m (Suc r)) (take (?m (Suc r + k)) buffer))) fs2 fs'"
    by blast
  have le: "?m r \<le> ?m (Suc r)" "?m (Suc r) \<le> ?m (r + Suc k)" by (rule mono; simp)+
  have split: "drop (?m r) (take (?m (r + Suc k)) buffer) =
      ?src @ drop (?m (Suc r)) (take (?m (r + Suc k)) buffer)"
    by (rule drop_take_split [OF le])
  have "length ?src = ?m (Suc r) - ?m r" using fit by simp
  then have pos: "unat off + ?m (Suc r) = (unat off + ?m r) + length ?src" using le by simp
  have bound: "unat off + ?m r + length ?src \<le> length (file_bytes inode n (store fs))"
  proof -
    have "(?j + 1) * ?w \<le> n * ?w" using j by (intro mult_le_mono1) simp
    then show ?thesis
      using run_bytes_position [OF w(1), of "Suc r" off] pos length_file_bytes [OF Suc.prems(1,2)] by simp
  qed
  have "turns (2 + 2 * k) inode n (\<lambda>c. overwrite (unat off + ?m (Suc r)) (drop (?m (Suc r)) (take (?m (r + Suc k)) buffer))
      (overwrite (unat off + ?m r) ?src c)) fs fs'"
    using turns_trans [OF u(6) IH(2)] at by simp
  then have "turns (2 * Suc k) inode n (overwrite (unat off + ?m r) (drop (?m r) (take (?m (r + Suc k)) buffer))) fs fs'"
    using overwrite_append [OF bound] unfolding turns_def pos split by simp
  with step IH(1) show ?case by (metis)
qed

section \<open>The handlers\<close>

lemma read_inode_law:
  assumes "fs_ok fs" and "inode_home fs n = Some h" and "0 < budget fs"
  shows "\<exists>fs'. read_inode n fs = Some (inode_at fs h, fs') \<and> disk.evolves 1 (\<lambda>c. c) fs fs'"
proof -
  obtain b o' where h: "h = (b, o')" by force
  show ?thesis
    using refresh_inode_law [OF assms(1) assms(2) [unfolded h] assms(3), of "[]"] inode_homeD(4) [OF assms(2) [unfolded h]]
    by (auto simp: read_inode_def h)
qed

lemma piece_of_block:
  "o' + m \<le> w \<Longrightarrow> take m (drop o' (take w (drop (j * w) F))) = take m (drop (j * w + o') F)"
  by (simp add: drop_take min_def add.commute)

text \<open>How the code divides the bytes from \<open>off\<close> on, when they end in block \<open>e\<close>.\<close>

lemma split_span:
  fixes off :: u32 and m :: nat
  assumes "0 < w"
  defines "s \<equiv> unat off div w" and "e \<equiv> (unat off + m) div w" and "t \<equiv> (unat off + m) mod w"
  shows "s \<le> e" and "s = e \<Longrightarrow> unat off mod w + m = t" and "s < e \<Longrightarrow> m = run_bytes off w (e - s) + t"
    and "s < e \<Longrightarrow> unat off + run_bytes off w (e - s) = e * w" and "s < e \<Longrightarrow> unat off mod w \<le> w * (e - s)"
proof -
  show se: "s \<le> e" by (simp add: s_def e_def div_le_mono)
  have o': "unat off = s * w + unat off mod w" by (simp add: s_def)
  have m: "unat off + m = e * w + t" by (simp add: e_def t_def)
  from o' m show "unat off mod w + m = t" if "s = e" using that by simp
  assume lt: "s < e"
  have "unat off mod w < w" using assms(1) by simp
  moreover have "w * 1 \<le> w * (e - s)" using lt by (intro mult_le_mono2) simp
  ultimately show "unat off mod w \<le> w * (e - s)" by linarith
  show p: "unat off + run_bytes off w (e - s) = e * w"
    using run_bytes_position [OF assms(1), of "e - s" off] lt by (simp add: s_def)
  with m show "m = run_bytes off w (e - s) + t" by simp
qed

lemma end_of_span:
  fixes off :: u32 and m :: nat
  assumes "unat off + m < 2 ^ 32" and "fs_block_size fs \<noteq> 0"
  defines "end' \<equiv> off + (of_nat m :: u32)"
  shows "unat end' = unat off + m" and "end' - off = of_nat m"
    and "unat (end' div fs_block_size fs) = (unat off + m) div bsize fs"
    and "unat (end' - end' div fs_block_size fs * fs_block_size fs) = (unat off + m) mod bsize fs"
    and "end' div fs_block_size fs = of_nat ((unat off + m) div bsize fs)"
proof -
  show u: "unat end' = unat off + m"
    using assms(1) by (simp add: end'_def unat_word_ariths unat_of_nat)
  show "end' - off = of_nat m" by (simp add: end'_def)
  show d: "unat (end' div fs_block_size fs) = (unat off + m) div bsize fs" by (simp add: unat_div_distrib u)
  have "end' - end' div fs_block_size fs * fs_block_size fs = end' mod fs_block_size fs"
    by (metis minus_div_mult_eq_mod)
  then show "unat (end' - end' div fs_block_size fs * fs_block_size fs) = (unat off + m) mod bsize fs"
    by (simp add: unat_mod_distrib u)
  show "end' div fs_block_size fs = of_nat ((unat off + m) div bsize fs)" unfolding d [symmetric] by simp
qed

text \<open>A read over several blocks.\<close>

lemma ext2_read_many:
  assumes "read_inode n fs = Some (inode, fs0)" and "rd32 inode 4 = Some isz" and "isz \<noteq> 0"
    and "fs_block_size fs0 \<noteq> 0" and "(if off + sz > isz then isz else off + sz) = e"
    and "off div fs_block_size fs0 \<noteq> e div fs_block_size fs0"
    and "unat (e div fs_block_size fs0) - unat (off div fs_block_size fs0) = k"
    and "read_run inode off 0 k [] buffer fs0 = Some (buf1, buffer1, fs1)"
  shows "e - e div fs_block_size fs0 * fs_block_size fs0 = 0 \<Longrightarrow> ext2_read n off sz buffer fs = Some (e - off, buffer1, fs1)"
    and "e - e div fs_block_size fs0 * fs_block_size fs0 \<noteq> 0 \<Longrightarrow>
      unat (e - e div fs_block_size fs0 * fs_block_size fs0) = t \<Longrightarrow>
      inode_read_block inode (e div fs_block_size fs0) buf1 fs1 = Some (b, buf2, fs2) \<Longrightarrow>
      copy_out 0 t buf2 = Some src \<Longrightarrow>
      copy_to (int (bsize fs2 * k) - int (unat off mod bsize fs0)) src buffer1 = Some buffer2 \<Longrightarrow>
      ext2_read n off sz buffer fs = Some (e - off, buffer2, fs2)"
proof -
  have body: "ext2_read n off sz buffer fs = (let end_size = e - e div fs_block_size fs0 * fs_block_size fs0 in
      if end_size = 0 then Some (e - off, buffer1, fs1) else do {
         (_, buf, fs) \<leftarrow> inode_read_block inode (e div fs_block_size fs0) buf1 fs1;
         src \<leftarrow> copy_out 0 (unat end_size) buf;
         buffer \<leftarrow> copy_to (int (bsize fs * k) - int (unat off mod bsize fs0)) src buffer1;
         Some (e - off, buffer, fs) })"
    unfolding ext2_read_def assms(1,2) Let_def bind.simps prod.case assms(5,7,8)
    using assms(3,4,6) by simp
  show "ext2_read n off sz buffer fs = Some (e - off, buffer1, fs1)" if "e - e div fs_block_size fs0 * fs_block_size fs0 = 0"
    unfolding body Let_def if_P [OF that] by (rule refl)
  show "ext2_read n off sz buffer fs = Some (e - off, buffer2, fs2)"
    if "e - e div fs_block_size fs0 * fs_block_size fs0 \<noteq> 0" "unat (e - e div fs_block_size fs0 * fs_block_size fs0) = t"
      "inode_read_block inode (e div fs_block_size fs0) buf1 fs1 = Some (b, buf2, fs2)" "copy_out 0 t buf2 = Some src"
      "copy_to (int (bsize fs2 * k) - int (unat off mod bsize fs0)) src buffer1 = Some buffer2"
    unfolding body Let_def if_not_P [OF that(1)] that(2-4) bind.simps prod.case that(5) by (rule refl)
qed

lemma ext2_read_law:
  assumes "fs_ok fs" and "inode_home fs n = Some h" and "inode = inode_at fs h" and "direct_file fs inode k"
    and "unat (get32 inode 4) \<le> k * bsize fs" and "get32 inode 4 \<noteq> 0" and "off \<le> get32 inode 4"
    and "unat off + unat sz < 2 ^ 32" and "20 \<le> budget fs"
  defines "m \<equiv> min (unat sz) (unat (get32 inode 4) - unat off)"
  assumes "m \<le> length buffer"
  shows "\<exists>fs'. ext2_read n off sz buffer fs = Some (of_nat m,
       overwrite 0 (take m (drop (unat off) (file_bytes inode k (store fs)))) buffer, fs') \<and>
     turns 16 inode k (\<lambda>c. c) fs fs'"
proof -
  let ?w = "bsize fs" and ?F = "file_bytes inode k (store fs)" and ?isz = "get32 inode 4"
  obtain fs0 where r0: "read_inode n fs = Some (inode, fs0)" "disk.evolves 1 (\<lambda>c. c) fs fs0"
    using read_inode_law [OF assms(1,2)] assms(3,9) by auto
  have t0: "turns 1 inode k (\<lambda>c. c) fs fs0" using turns_read [OF r0(2) assms(4)] .
  note t = turnsD [OF t0]
  have df: "direct_file fs0 inode k" unfolding t(6) by (rule assms(4))
  have w: "0 < ?w" "fs_block_size fs \<noteq> 0" using assms(1) by (auto simp: fs_ok_def)
  have off: "unat off \<le> unat ?isz" using assms(7) by (simp add: word_le_nat_alt)
  then have end_le: "unat off + m \<le> unat ?isz" by (simp add: m_def)
  then have m32: "unat off + m < 2 ^ 32" using unat_bound [of ?isz] by simp
  note e = end_of_span [OF m32 w(2)]
  have end': "(if off + sz > ?isz then ?isz else off + sz) = off + of_nat m"
  proof (rule word_unat_eq_iff [THEN iffD2])
    have "unat (off + sz) = unat off + unat sz" using assms(8) by (simp add: unat_word_ariths)
    then show "unat (if off + sz > ?isz then ?isz else off + sz) = unat (off + of_nat m)"
      using off e(1) by (auto simp: m_def word_less_nat_alt min_def)
  qed
  have isz: "rd32 inode 4 = Some ?isz" using direct_fileD(1) [OF assms(4)] by (simp add: rd32_def)
  let ?s = "unat off div ?w" and ?e = "(unat off + m) div ?w" and ?t = "(unat off + m) mod ?w" and ?o = "unat off mod ?w"
  note sp = split_span [OF w(1), of off m]
  have s: "off div fs_block_size fs = of_nat ?s" unfolding unat_div_distrib [symmetric] by simp
  have lenF: "length ?F = k * ?w" using length_file_bytes [OF assms(1,4)] .
  have F0: "file_bytes inode k (store fs0) = ?F" using t(7) by simp
  have endk: "unat off + m \<le> k * ?w" using end_le assms(5) by simp
  have blk: "store fs0 (file_block inode j) = take ?w (drop (j * ?w) ?F)" if "j < k" for j
    using file_bytes_block [OF t(1) df that] t(4) F0 by simp
  have B: "1 < budget fs0" "18 \<le> budget fs0" using t(3) assms(9) by simp_all
  show ?thesis
  proof (cases "?s = ?e")
    case True
    have om: "?o + m \<le> ?w" using sp(2) [OF True] w(1) by (metis less_imp_le mod_less_divisor)
    have "\<exists>b buf fs'. inode_read_block inode (of_nat ?s) [] fs0 = Some (b, buf, fs') \<and>
        copy_out ?o m buf = Some (take m (drop (unat off) ?F)) \<and> turns 1 inode k (\<lambda>c. c) fs0 fs'"
    proof (cases "?s < k")
      case True
      obtain fs' where "inode_read_block inode (of_nat ?s) [] fs0 =
          Some (file_block inode ?s, store fs0 (file_block inode ?s), fs')" "disk.evolves 1 (\<lambda>c. c) fs0 fs'"
        using inode_read_direct [OF t(1) df True] B by auto
      moreover have "copy_out ?o m (store fs0 (file_block inode ?s)) = Some (take m (drop (unat off) ?F))"
        using om file_block_length [OF t(1) df True] t(4) blk [OF True] piece_of_block [OF om, of ?s ?F]
        by (simp add: copy_out_def)
      ultimately show ?thesis using turns_read df by blast
    next
      case False
      then have "k * ?w \<le> ?s * ?w" by simp
      then have z: "m = 0" "?o = 0" using endk div_mult_mod_eq [of "unat off" ?w] by linarith+
      have "?s < 2 ^ 32" using unat_bound [of off] by (simp add: div_le_dividend [THEN le_less_trans])
      then have "\<not> (of_nat ?s :: u32) < of_nat k"
        using False direct_fileD(7) [OF df] by (simp add: word_less_nat_alt unat_of_nat_small)
      then have "inode_read_block inode (of_nat ?s) [] fs0 = Some (0, replicate (bsize fs0) 0, fs0)"
        using direct_fileD(4) [OF df] by (simp add: inode_read_block_def not_less)
      then show ?thesis using z t(1) by (auto simp: copy_out_def turns_def)
    qed
    then obtain b buf fs' where rd: "inode_read_block inode (of_nat ?s) [] fs0 = Some (b, buf, fs')"
      "copy_out ?o m buf = Some (take m (drop (unat off) ?F))" "turns 1 inode k (\<lambda>c. c) fs0 fs'" by blast
    have "length (take m (drop (unat off) ?F)) \<le> length buffer" using assms(11) by simp
    then have "ext2_read n off sz buffer fs = Some (of_nat m, overwrite 0 (take m (drop (unat off) ?F)) buffer, fs')"
      using r0(1) isz assms(6) w(2) end' e s True rd(1,2) t(4,5) m32
      by (simp add: ext2_read_def Let_def copy_in_overwrite unat_of_nat_small)
    moreover have "turns 16 inode k (\<lambda>c. c) fs fs'"
      using turns_weaken [OF turns_trans [OF t0 rd(3)]] by simp
    ultimately show ?thesis by blast
  next
    case False
    then have lt: "?s < ?e" using sp(1) by simp
    let ?k = "?e - ?s" and ?m = "run_bytes off ?w (?e - ?s)"
    have ek: "?e \<le> k" using endk w(1) by (metis div_le_mono nonzero_mult_div_cancel_right less_not_refl2)
    have k12: "k \<le> 12" using direct_fileD(2) [OF df] .
    have mm: "m = ?m + ?t" using sp(3) [OF lt] .
    have pre: "unat off div bsize fs0 + 0 + ?k \<le> k" "?k \<le> budget fs0" "run_bytes off (bsize fs0) (0 + ?k) \<le> length buffer"
      using ek k12 B t(4) mm assms(11) lt by simp_all
    have emp: "overwrite 0 (take (run_bytes off ?w 0) X) buffer = buffer" for X
      by (simp add: run_bytes_def)
    obtain buf1 fs1 where run: "read_run inode off 0 ?k [] buffer fs0 = Some (buf1, overwrite 0 (take ?m (drop (unat off) ?F)) buffer, fs1)"
      "turns ?k inode k (\<lambda>c. c) fs0 fs1"
      using read_run_law [OF t(1) df pre, of "[]"] unfolding F0 t(4) emp by auto
    note t1 = turnsD [OF run(2)]
    have lenm: "length (take ?m (drop (unat off) ?F)) = ?m" using lenF endk mm by simp
    let ?E = "off + of_nat m :: u32" and ?W = "fs_block_size fs0"
    have bs0: "?W \<noteq> 0" using w(2) t(5) by simp
    have uE: "unat (?E div ?W) = ?e" "unat (off div ?W) = ?s" using e(3) t(5) by (simp_all add: unat_div_distrib)
    then have ne: "off div ?W \<noteq> ?E div ?W" using False by metis
    have kk: "unat (?E div ?W) - unat (off div ?W) = ?k" unfolding uE ..
    have tt: "unat (?E - ?E div ?W * ?W) = ?t" using e(4) t(5) by simp
    note many = ext2_read_many [OF r0(1) isz assms(6) bs0 end' ne kk run(1)]
    show ?thesis
    proof (cases "?t = 0")
      case True
      then have "?E - ?E div ?W * ?W = 0" using tt by (metis unat_eq_0)
      from many(1) [OF this] have "ext2_read n off sz buffer fs = Some (of_nat m, overwrite 0 (take m (drop (unat off) ?F)) buffer, fs1)"
        using e(2) mm True by simp
      moreover have "turns 16 inode k (\<lambda>c. c) fs fs1"
        using turns_weaken [OF turns_trans [OF t0 run(2)]] ek k12 by simp
      ultimately show ?thesis by blast
    next
      case tnz: False
      have ek': "?e < k"
      proof (rule ccontr)
        assume "\<not> ?e < k"
        then have "k * ?w \<le> ?e * ?w" by simp
        with endk div_mult_mod_eq [of "unat off + m" ?w] tnz show False by linarith
      qed
      have df1: "direct_file fs1 inode k" unfolding t1(6) by (rule df)
      have "0 < budget fs1" using t1(3) B ek k12 by simp
      then obtain fs2 where rd: "inode_read_block inode (of_nat ?e) buf1 fs1 =
          Some (file_block inode ?e, store fs1 (file_block inode ?e), fs2)" "disk.evolves 1 (\<lambda>c. c) fs1 fs2"
        using inode_read_direct [OF t1(1) df1 ek'] by auto
      have b: "store fs1 (file_block inode ?e) = take ?w (drop (?e * ?w) ?F)"
        using file_bytes_block [OF t1(1) df1 ek'] t1(4,7) t(4) F0 by simp
      have tw: "?t \<le> ?w" using w(1) by (simp add: less_imp_le)
      then have out: "copy_out 0 ?t (store fs1 (file_block inode ?e)) = Some (take ?t (drop (?e * ?w) ?F))"
        using file_block_length [OF t1(1) df1 ek'] t1(4) t(4) b by (simp add: copy_out_def min_def)
      have "take m (drop (unat off) ?F) = take (?m + ?t) (drop (unat off) ?F)"
        by (rule arg_cong [where f = "\<lambda>i. take i (drop (unat off) ?F)", OF mm])
      also have "\<dots> = take ?m (drop (unat off) ?F) @ take ?t (drop (?e * ?w) ?F)"
        unfolding take_add using sp(4) [OF lt] by (simp add: add.commute)
      finally have join: "take m (drop (unat off) ?F) = take ?m (drop (unat off) ?F) @ take ?t (drop (?e * ?w) ?F)" .
      have "?t \<le> k * ?w - ?e * ?w" using endk div_mult_mod_eq [of "unat off + m" ?w] by linarith
      then have lent: "length (take ?t (drop (?e * ?w) ?F)) = ?t" using lenF by simp
      have fit: "length (take ?m (drop (unat off) ?F)) + length (take ?t (drop (?e * ?w) ?F)) \<le> length buffer"
        unfolding lenm lent using mm assms(11) by simp
      have "copy_in ?m (take ?t (drop (?e * ?w) ?F)) (overwrite 0 (take ?m (drop (unat off) ?F)) buffer) =
          Some (overwrite 0 (take m (drop (unat off) ?F)) buffer)"
        using fit overwrite_append [of 0 "take ?m (drop (unat off) ?F)" buffer "take ?t (drop (?e * ?w) ?F)"] lenm
        unfolding join by (simp add: copy_in_overwrite)
      moreover have "?m = ?w * ?k - ?o" using lt by (simp add: run_bytes_def)
      then have "nat (int (?w * ?k) - int ?o) = ?m" "\<not> int (?w * ?k) - int ?o < 0"
        using sp(5) [OF lt] by linarith+
      ultimately have put: "copy_to (int (?w * ?k) - int ?o) (take ?t (drop (?e * ?w) ?F))
          (overwrite 0 (take ?m (drop (unat off) ?F)) buffer) = Some (overwrite 0 (take m (drop (unat off) ?F)) buffer)"
        by (simp add: copy_to_def)
      have nz: "?E - ?E div ?W * ?W \<noteq> 0" using tt tnz by (metis unat_0)
      have at: "?E div ?W = of_nat ?e" using e(5) t(5) by simp
      have bs: "bsize fs2 = ?w" "bsize fs0 = ?w"
        using turnsD(4) [OF turns_read [OF rd(2) df1]] t1(4) t(4) by simp_all
      have put': "copy_to (int (bsize fs2 * ?k) - int (unat off mod bsize fs0)) (take ?t (drop (?e * ?w) ?F))
          (overwrite 0 (take ?m (drop (unat off) ?F)) buffer) = Some (overwrite 0 (take m (drop (unat off) ?F)) buffer)"
        using put by (simp only: bs)
      from many(2) [OF nz tt rd(1) [folded at] out put'] e(2)
      have "ext2_read n off sz buffer fs = Some (of_nat m, overwrite 0 (take m (drop (unat off) ?F)) buffer, fs2)"
        by simp
      moreover have "turns 16 inode k (\<lambda>c. c) fs fs2"
        using turns_weaken [OF turns_trans [OF turns_trans [OF t0 run(2)] turns_read [OF rd(2) df1]]] ek k12 by simp
      ultimately show ?thesis by blast
    qed
  qed
qed

lemma write_span_many:
  assumes "fs_block_size fs \<noteq> 0" and "off div fs_block_size fs \<noteq> e div fs_block_size fs"
    and "unat (e div fs_block_size fs) - unat (off div fs_block_size fs) = k"
    and "write_run no off buffer 0 k [] inode fs = Some (buf1, inode, fs1)"
  shows "e - e div fs_block_size fs * fs_block_size fs = 0 \<Longrightarrow> write_span inode no off e buffer fs = Some (e - off, inode, fs1)"
    and "e - e div fs_block_size fs * fs_block_size fs \<noteq> 0 \<Longrightarrow>
      unat (e - e div fs_block_size fs * fs_block_size fs) = t \<Longrightarrow>
      inode_read_block inode (e div fs_block_size fs) buf1 fs1 = Some (b, buf2, fs2) \<Longrightarrow>
      copy_from (int (bsize fs2 * k) - int (unat off mod bsize fs)) t buffer = Some src \<Longrightarrow>
      copy_in 0 src buf2 = Some buf3 \<Longrightarrow>
      inode_write_block inode no (e div fs_block_size fs) buf3 fs2 = Some (b', inode, fs3) \<Longrightarrow>
      write_span inode no off e buffer fs = Some (e - off, inode, fs3)"
proof -
  have body: "write_span inode no off e buffer fs = (let end_size = e - e div fs_block_size fs * fs_block_size fs in
      if end_size = 0 then Some (e - off, inode, fs1) else do {
         (_, buf, g) \<leftarrow> inode_read_block inode (e div fs_block_size fs) buf1 fs1;
         src \<leftarrow> copy_from (int (bsize g * k) - int (unat off mod bsize fs)) (unat end_size) buffer;
         buf \<leftarrow> copy_in 0 src buf;
         (_, inode, g) \<leftarrow> inode_write_block inode no (e div fs_block_size fs) buf g;
         Some (e - off, inode, g) })"
    unfolding write_span_def Let_def assms(3,4) bind.simps prod.case
    using assms(1,2) by simp
  show "write_span inode no off e buffer fs = Some (e - off, inode, fs1)" if "e - e div fs_block_size fs * fs_block_size fs = 0"
    unfolding body Let_def if_P [OF that] by (rule refl)
  show "write_span inode no off e buffer fs = Some (e - off, inode, fs3)"
    if "e - e div fs_block_size fs * fs_block_size fs \<noteq> 0" "unat (e - e div fs_block_size fs * fs_block_size fs) = t"
      "inode_read_block inode (e div fs_block_size fs) buf1 fs1 = Some (b, buf2, fs2)"
      "copy_from (int (bsize fs2 * k) - int (unat off mod bsize fs)) t buffer = Some src"
      "copy_in 0 src buf2 = Some buf3" "inode_write_block inode no (e div fs_block_size fs) buf3 fs2 = Some (b', inode, fs3)"
    unfolding body Let_def if_not_P [OF that(1)] that(2,3) bind.simps prod.case that(4-6) by (rule refl)
qed

text \<open>Blocks \<open>e\<close> of a span that starts in an earlier block.\<close>

lemma span_end_block:
  assumes "unat off + m \<le> k * w" and "(unat off + m) mod w \<noteq> 0"
  shows "(unat off + m) div w < k"
proof (rule ccontr)
  assume "\<not> (unat off + m) div w < k"
  then have "k * w \<le> (unat off + m) div w * w" by simp
  with assms div_mult_mod_eq [of "unat off + m" w] show False by linarith
qed

lemma write_span_law:
  assumes "fs_ok fs" and "direct_file fs inode k" and "unat off + m \<le> k * bsize fs" and "0 < m"
    and "m \<le> length buffer" and "40 \<le> budget fs"
  shows "\<exists>fs'. write_span inode no off (off + of_nat m) buffer fs = Some (of_nat m, inode, fs') \<and>
     turns 30 inode k (overwrite (unat off) (take m buffer)) fs fs'"
proof -
  let ?w = "bsize fs" and ?E = "off + of_nat m :: u32" and ?W = "fs_block_size fs"
  have w: "0 < ?w" "?W \<noteq> 0" using assms(1) by (auto simp: fs_ok_def)
  have m32: "unat off + m < 2 ^ 32" using assms(3) direct_fileD(3) [OF assms(2)] by simp
  note e = end_of_span [OF m32 w(2)]
  let ?s = "unat off div ?w" and ?e = "(unat off + m) div ?w" and ?t = "(unat off + m) mod ?w" and ?o = "unat off mod ?w"
  note sp = split_span [OF w(1), of off m]
  have k12: "k \<le> 12" using direct_fileD(2) [OF assms(2)] .
  have s: "off div ?W = of_nat ?s" unfolding unat_div_distrib [symmetric] by simp
  have lenF: "length (file_bytes inode k (store fs)) = k * ?w" using length_file_bytes [OF assms(1,2)] .
  show ?thesis
  proof (cases "?s = ?e")
    case True
    have "?s * ?w < k * ?w" using assms(3,4) div_mult_mod_eq [of "unat off" ?w] by linarith
    then have sk: "?s < k" by simp
    have om: "?o + length (take m buffer) \<le> ?w" using sp(2) [OF True] w(1) assms(5) by (simp add: less_imp_le)
    have "1 < budget fs" using assms(6) by simp
    from block_update [OF assms(1,2) sk this om, of "[]" no] obtain fs1 fs2 where u:
      "inode_read_block inode (of_nat ?s) [] fs = Some (file_block inode ?s, store fs (file_block inode ?s), fs1)"
      "copy_in ?o (take m buffer) (store fs (file_block inode ?s)) = Some (overwrite ?o (take m buffer) (store fs (file_block inode ?s)))"
      "inode_write_block inode no (of_nat ?s) (overwrite ?o (take m buffer) (store fs (file_block inode ?s))) fs1 =
         Some (file_block inode ?s, inode, fs2)"
      "turns 2 inode k (overwrite (?s * ?w + ?o) (take m buffer)) fs fs2" by blast
    have "write_span inode no off ?E buffer fs = Some (of_nat m, inode, fs2)"
      using w(2) s e(5) True u(1-3) e(2) m32 assms(5) by (simp add: write_span_def Let_def copy_out_def unat_of_nat_small)
    with turns_weaken [OF u(4)] show ?thesis by auto
  next
    case False
    then have lt: "?s < ?e" using sp(1) by simp
    let ?k = "?e - ?s" and ?m = "run_bytes off ?w (?e - ?s)"
    have ek: "?e \<le> k" using assms(3) w(1) by (metis div_le_mono nonzero_mult_div_cancel_right less_not_refl2)
    have mm: "m = ?m + ?t" using sp(3) [OF lt] .
    have pre: "?s + 0 + ?k \<le> k" "2 * ?k \<le> budget fs" "run_bytes off ?w (0 + ?k) \<le> length buffer"
      using ek k12 assms(5,6) mm lt by simp_all
    obtain buf1 fs1 where run: "write_run no off buffer 0 ?k [] inode fs = Some (buf1, inode, fs1)"
      "turns (2 * ?k) inode k (overwrite (unat off) (take ?m buffer)) fs fs1"
      using write_run_law [OF assms(1,2) pre, of no "[]"] by (auto simp: run_bytes_def)
    note t1 = turnsD [OF run(2)]
    have uE: "unat (?E div ?W) = ?e" "unat (off div ?W) = ?s" using e(3) by (simp_all add: unat_div_distrib)
    then have ne: "off div ?W \<noteq> ?E div ?W" using False by metis
    have kk: "unat (?E div ?W) - unat (off div ?W) = ?k" unfolding uE ..
    note many = write_span_many [OF w(2) ne kk run(1)]
    show ?thesis
    proof (cases "?t = 0")
      case True
      then have "?E - ?E div ?W * ?W = 0" using e(4) by (metis unat_eq_0)
      from many(1) [OF this] run(2) turns_weaken [OF run(2), of 30] show ?thesis
        using e(2) mm True ek k12 by auto
    next
      case tnz: False
      have ek': "?e < k" using span_end_block [OF assms(3) tnz] .
      have df1: "direct_file fs1 inode k" unfolding t1(6) by (rule assms(2))
      let ?src = "take ?t (drop ?m buffer)"
      have lens: "length ?src = ?t" using assms(5) mm by simp
      have "0 + length ?src \<le> bsize fs1" "1 < budget fs1"
        using lens w(1) t1(3,4) assms(6) ek k12 by (simp_all add: less_imp_le)
      from block_update [OF t1(1) df1 ek' this(2,1), of buf1 no] obtain fs2 fs3 where u:
        "inode_read_block inode (of_nat ?e) buf1 fs1 = Some (file_block inode ?e, store fs1 (file_block inode ?e), fs2)"
        "bsize fs2 = bsize fs1"
        "copy_in 0 ?src (store fs1 (file_block inode ?e)) = Some (overwrite 0 ?src (store fs1 (file_block inode ?e)))"
        "inode_write_block inode no (of_nat ?e) (overwrite 0 ?src (store fs1 (file_block inode ?e))) fs2 =
           Some (file_block inode ?e, inode, fs3)"
        "turns 2 inode k (overwrite (?e * bsize fs1 + 0) ?src) fs1 fs3" by blast
      have "?m = ?w * ?k - ?o" using lt by (simp add: run_bytes_def)
      then have "nat (int (?w * ?k) - int ?o) = ?m" "\<not> int (?w * ?k) - int ?o < 0"
        using sp(5) [OF lt] by linarith+
      then have "copy_from (int (?w * ?k) - int ?o) ?t buffer = Some ?src"
        using mm assms(5) by (simp add: copy_from_def copy_out_def)
      then have src: "copy_from (int (bsize fs2 * ?k) - int ?o) ?t buffer = Some ?src"
        using u(2) t1(4) by (simp only:)
      have nz: "?E - ?E div ?W * ?W \<noteq> 0" using e(4) tnz by (metis unat_0)
      from many(2) [OF nz e(4) u(1) [folded e(5)] src u(3) u(4) [folded e(5)]] e(2)
      have res: "write_span inode no off ?E buffer fs = Some (of_nat m, inode, fs3)" by simp
      have take_m: "take m buffer = take ?m buffer @ ?src"
        using arg_cong [where f = "\<lambda>i. take i buffer", OF mm] by (simp only: take_add)
      have "?e * ?w = unat off + length (take ?m buffer)"
        using sp(4) [OF lt] mm assms(5) by simp
      moreover have "unat off + length (take ?m buffer) \<le> length (file_bytes inode k (store fs))"
        using lenF assms(3,5) mm by simp
      ultimately have "turns (2 * ?k + 2) inode k (overwrite (unat off) (take m buffer)) fs fs3"
        using turns_trans [OF run(2) u(5)] overwrite_append [of "unat off" "take ?m buffer" _ ?src] take_m t1(4)
        by (simp add: turns_def)
      then have "turns 30 inode k (overwrite (unat off) (take m buffer)) fs fs3"
        by (rule turns_weaken) (use ek k12 in simp)
      with res show ?thesis by blast
    qed
  qed
qed

section \<open>What is written is read\<close>

text \<open>The first step of a write: the size is recorded when the file grows.\<close>

definition record_size :: "u8 list \<Rightarrow> u32 \<Rightarrow> u32 \<Rightarrow> ext2_fs \<Rightarrow> (u8 list \<times> ext2_fs) option" where
  "record_size inode no end' fs = do {
     isz \<leftarrow> rd32 inode 4;
     if end' > isz then do {
       inode \<leftarrow> wr32 4 end' inode;
       (_, fs) \<leftarrow> write_inode inode no fs;
       Some (inode, fs)
     } else Some (inode, fs)
   }"

lemma write_inode_buffer_steps:
  "write_inode_buffer inode no off sz buffer fs = do {
     (inode, fs) \<leftarrow> record_size inode no (off + sz) fs;
     write_span inode no off (off + sz) buffer fs }"
  by (cases "rd32 inode 4") (simp_all add: write_inode_buffer_def record_size_def Let_def)

lemma size_is_apart:
  assumes "100 \<le> length inode"
  shows "get32 (put32 4 v inode) 28 = get32 inode 28" "file_block (put32 4 v inode) j = file_block inode j"
  using assms by (simp_all add: file_block_def map_slot_def get32_put32_other)

lemma length_inode_at:
  assumes "fs_ok fs" and "inode_home fs n = Some h"
  shows "length (inode_at fs h) = unat (fs_inode_size fs)"
proof -
  obtain b p where h: "h = (b, p)" by force
  note hd = inode_homeD [OF assms(2) [unfolded h]]
  have "length (store fs b) = bsize fs" using disk.length_law [OF assms(1) hd(7)] .
  with hd(8) show ?thesis by (simp add: inode_at_def h)
qed

lemma record_size_law:
  assumes "fs_ok fs" and "inode_home fs n = Some h" and "inode = inode_at fs h" and "direct_file fs inode k"
    and "\<forall>j < k. file_block inode j \<noteq> fst h" and "1 < budget fs"
  shows "\<exists>inode' fs'. record_size inode n e fs = Some (inode', fs') \<and> fs_ok fs' \<and> meta fs' = meta fs \<and>
     budget fs \<le> budget fs' + 2 \<and> inode_at fs' h = inode' \<and>
     get32 inode' 4 = max (get32 inode 4) e \<and> direct_file fs' inode' k \<and>
     (\<forall>j. file_block inode' j = file_block inode j) \<and>
     (\<forall>b. good_block fs b \<longrightarrow> b \<noteq> fst h \<longrightarrow> store fs' b = store fs b)"
proof -
  note df = direct_fileD [OF assms(4)]
  have isz: "rd32 inode 4 = Some (get32 inode 4)" using df(1) by (simp add: rd32_def)
  show ?thesis
  proof (cases "get32 inode 4 < e")
    case False
    then show ?thesis using assms isz by (auto simp: record_size_def max_def not_less)
  next
    case True
    obtain b p where h: "h = (b, p)" by force
    note hd = inode_homeD [OF assms(2) [unfolded h]]
    let ?i = "put32 4 e inode" and ?s = "unat (fs_inode_size fs)"
    have len: "length ?i = ?s" using length_inode_at [OF assms(1,2)] assms(3) by simp
    then have "write_inode ?i n fs = write_inode ?i n fs \<and> ?s \<le> length ?i" by simp
    then obtain fs' where w: "write_inode ?i n fs = Some (E_SUCCESS, fs')"
      "disk.evolves 2 (\<lambda>c. c(b := take p (c b) @ ?i @ drop (p + ?s) (c b))) fs fs'"
      using write_inode_law [OF assms(1) assms(2) [unfolded h] assms(6), of ?i] len by auto
    have ev: "fs_ok fs'" "meta fs' = meta fs" "budget fs \<le> budget fs' + 2"
      "\<And>c. good_block fs c \<Longrightarrow> store fs' c = (if c = b then take p (store fs b) @ ?i @ drop (p + ?s) (store fs b) else store fs c)"
      using w(2) by (auto simp: disk.evolves_def)
    have lb: "length (store fs b) = bsize fs" using disk.length_law [OF assms(1) hd(7)] .
    have at: "inode_at fs' h = ?i"
      using ev(4) [OF hd(7)] len lb hd(8) by (simp add: inode_at_def h meta_fields(3) [OF ev(2)])
    have "direct_file fs ?i k" using assms(4) df(1) unfolding direct_file_def by (simp add: size_is_apart)
    then have "direct_file fs' ?i k" using direct_file_frame [OF ev(2)] by simp
    moreover have "record_size inode n e fs = Some (?i, fs')"
      using isz True w(1) df(1) by (simp add: record_size_def wr32_def)
    moreover have "get32 ?i 4 = max (get32 inode 4) e" using True df(1) by (simp add: max_def less_imp_le)
    ultimately show ?thesis
      using ev at size_is_apart(2) [OF df(1)] h by (intro exI [of _ ?i] exI [of _ fs']) auto
  qed
qed

lemma write_then_read:
  assumes "fs_ok fs" and "\<not> fs_using_cache fs" and "inode_home fs n = Some h" and "inode = inode_at fs h"
    and "direct_file fs inode k" and "\<forall>j < k. file_block inode j \<noteq> fst h"
    and "unat (get32 inode 4) \<le> k * bsize fs" and "unat off + unat sz \<le> k * bsize fs" and "sz \<noteq> 0"
    and "unat sz \<le> length buffer" and "100 \<le> budget fs"
  shows "\<exists>fs1 inode'. write_ext2 n off sz buffer fs = Some (sz, fs1) \<and> inode_at fs1 h = inode' \<and>
     get32 inode' 4 = max (get32 inode 4) (off + sz) \<and>
     file_bytes inode' k (store fs1) = overwrite (unat off) (take (unat sz) buffer) (file_bytes inode k (store fs)) \<and>
     (\<forall>b. good_block fs b \<longrightarrow> b \<noteq> fst h \<longrightarrow> (\<forall>j < k. b \<noteq> file_block inode j) \<longrightarrow> store fs1 b = store fs b) \<and>
     (\<forall>out. unat sz \<le> length out \<longrightarrow>
        (\<exists>fs2. ext2_read n off sz out fs1 = Some (sz, overwrite 0 (take (unat sz) buffer) out, fs2)))"
proof -
  obtain b p where h: "h = (b, p)" by force
  note hd = inode_homeD [OF assms(3) [unfolded h]]
  obtain fs0 where r0: "read_inode n fs = Some (inode, fs0)" "disk.evolves 1 (\<lambda>c. c) fs fs0"
    using read_inode_law [OF assms(1,3)] assms(4,11) by auto
  have e0: "fs_ok fs0" "meta fs0 = meta fs" "budget fs \<le> budget fs0 + 1"
    "\<And>c. good_block fs c \<Longrightarrow> store fs0 c = store fs c"
    using r0(2) by (auto simp: disk.evolves_def)
  note m0 = meta_fields [OF e0(2)]
  have df0: "direct_file fs0 inode k" using direct_file_frame [OF e0(2)] assms(5) by simp
  have h0: "inode_home fs0 n = Some h" using inode_home_frame [OF e0(2)] assms(3) by simp
  have at0: "inode = inode_at fs0 h" using assms(4) e0(4) [OF hd(7)] by (simp add: inode_at_def h m0)
  have "1 < budget fs0" using e0(3) assms(11) by simp
  from record_size_law [OF e0(1) h0 at0 df0 assms(6) this, of "off + sz"] obtain inode' fs1 where
    z: "record_size inode n (off + sz) fs0 = Some (inode', fs1)" "fs_ok fs1" "meta fs1 = meta fs0"
    "budget fs0 \<le> budget fs1 + 2" "inode_at fs1 h = inode'" "get32 inode' 4 = max (get32 inode 4) (off + sz)"
    "direct_file fs1 inode' k" "\<forall>j. file_block inode' j = file_block inode j"
    "\<forall>b. good_block fs0 b \<longrightarrow> b \<noteq> fst h \<longrightarrow> store fs1 b = store fs0 b" by blast
  note m1 = meta_fields [OF z(3)]
  have bs: "bsize fs1 = bsize fs" using m1(2) m0(2) by simp
  have F: "file_bytes inode' k (store fs1) = file_bytes inode k (store fs)"
  proof -
    have "store fs1 (file_block inode' j) = store fs (file_block inode j)" if "j < k" for j
      using z(8,9) assms(6) that direct_fileD(5) [OF assms(5) that] e0(4) m0(8) by simp
    then show ?thesis unfolding file_bytes_def by (intro arg_cong [where f = concat] map_cong) simp_all
  qed
  have end': "unat off + unat sz \<le> k * bsize fs1" "0 < unat sz" "40 \<le> budget fs1"
    using assms(8,9,11) bs e0(3) z(4) by (simp_all add: unat_gt_0)
  from write_span_law [OF z(2,7) end'(1,2) assms(10) end'(3), of n] obtain fs2 where
    w: "write_span inode' n off (off + sz) buffer fs1 = Some (sz, inode', fs2)"
    "turns 30 inode' k (overwrite (unat off) (take (unat sz) buffer)) fs1 fs2" by auto
  note t2 = turnsD [OF w(2)]
  have "meta fs2 = meta fs" using t2(2) z(3) e0(2) by simp
  have "\<not> fs_using_cache fs2"
    using assms(2) arg_cong [OF \<open>meta fs2 = meta fs\<close>, of fs_using_cache] by (simp add: meta_def)
  with \<open>meta fs2 = meta fs\<close> have res: "write_ext2 n off sz buffer fs = Some (sz, fs2)"
    using r0(1) z(1) w(1) by (simp add: write_ext2_def write_inode_buffer_steps ext2_sync_def)
  have g1: "good_block fs1 = good_block fs" using m1(8) m0(8) by simp
  have out: "store fs2 c = store fs1 c" if "good_block fs c" "\<forall>j < k. c \<noteq> file_block inode j" for c
    using w(2) that z(8) g1 by (simp add: turns_def)
  have bnot: "\<forall>j < k. b \<noteq> file_block inode j" using assms(6) h by auto
  have at2: "inode_at fs2 h = inode'"
    using z(5) out [OF hd(7) bnot] meta_fields(3) [OF t2(2)] by (simp add: inode_at_def h)
  have rest: "store fs2 c = store fs c"
    if "good_block fs c" "c \<noteq> fst h" "\<forall>j < k. c \<noteq> file_block inode j" for c
    using out [OF that(1,3)] z(9) that e0(4) m0(8) by simp
  have F2: "file_bytes inode' k (store fs2) = overwrite (unat off) (take (unat sz) buffer) (file_bytes inode k (store fs))"
    using t2(7) F by simp
  have lenF: "length (file_bytes inode k (store fs)) = k * bsize fs" using length_file_bytes [OF assms(1,5)] .
  have kb: "k * bsize fs < 2 ^ 32" using direct_fileD(3) [OF assms(5)] .
  have uend: "unat (off + sz) = unat off + unat sz"
    using assms(8) kb by (simp add: unat_word_ariths)
  have big: "unat off + unat sz \<le> unat (get32 inode' 4)" "unat (get32 inode' 4) \<le> k * bsize fs"
    using z(6) uend assms(7,8) by (auto simp: max_def word_le_nat_alt)
  have rd: "\<exists>fs3. ext2_read n off sz out fs2 = Some (sz, overwrite 0 (take (unat sz) buffer) out, fs3)"
    if "unat sz \<le> length out" for out
  proof -
    have m: "min (unat sz) (unat (get32 inode' 4) - unat off) = unat sz" using big(1) by simp
    have h2: "inode_home fs2 n = Some h" using inode_home_frame [OF \<open>meta fs2 = meta fs\<close>] assms(3) by simp
    have df2: "direct_file fs2 inode' k" unfolding t2(6) by (rule z(7))
    have 1: "unat (get32 inode' 4) \<le> k * bsize fs2" using big(2) t2(4) bs by simp
    have 2: "get32 inode' 4 \<noteq> 0" using big(1) assms(9) by (metis add_eq_0_iff_both_eq_0 le_zero_eq unat_0 unat_eq_zero)
    have 3: "off \<le> get32 inode' 4" using big(1) by (simp add: word_le_nat_alt)
    have 4: "unat off + unat sz < 2 ^ 32" using assms(8) kb by simp
    have 5: "20 \<le> budget fs2" using t2(3) end'(3) e0(3) z(4) assms(11) by simp
    have 6: "min (unat sz) (unat (get32 inode' 4) - unat off) \<le> length out" using m that by simp
    obtain fs3 where "ext2_read n off sz out fs2 = Some (sz,
        overwrite 0 (take (unat sz) (drop (unat off) (file_bytes inode' k (store fs2)))) out, fs3)"
      using ext2_read_law [OF t2(1) h2 at2 [symmetric] df2 1 2 3 4 5 6] unfolding m by auto
    moreover have "take (unat sz) (drop (unat off) (file_bytes inode' k (store fs2))) = take (unat sz) buffer"
      using drop_overwrite_self [of "unat off" "take (unat sz) buffer" "file_bytes inode k (store fs)"] assms(8,10) lenF
      by (simp add: F2 min.absorb2)
    ultimately show ?thesis by simp
  qed
  show ?thesis
    using res at2 z(6) F2 rest rd by (intro exI [of _ fs2] exI [of _ inode']) blast
qed

end
