(* ===== verification/Ext2_Lookup.thy ===== *)
theory Ext2_Lookup
  imports Ext2_Dir Ext2_Data
begin

text \<open>
  What the scan of a directory finds.  The entries of a directory are read off its blocks at
  positions that count from the start of the file; the search of \<^verbatim>\<open>ext2_finddir\<close> and
  \<^verbatim>\<open>ext2_unlink\<close> is shown to be a search in this list.
\<close>

section \<open>The entries of a directory\<close>

type_synonym dir_entry = "nat \<times> u32 \<times> u8 list"

definition entry_size :: "u8 list \<Rightarrow> nat \<Rightarrow> nat" where
  "entry_size b o' = unat (get16 b (o' + 4))"

definition entry_name :: "u8 list \<Rightarrow> nat \<Rightarrow> u8 list" where
  "entry_name b o' = take (unat (b ! (o' + 6))) (drop (o' + 8) b)"

text \<open>A record holds its header and name and lies inside its block.\<close>

definition entry_fits :: "u8 list \<Rightarrow> nat \<Rightarrow> bool" where
  "entry_fits b o' \<longleftrightarrow> 8 + unat (b ! (o' + 6)) \<le> entry_size b o' \<and> o' + entry_size b o' \<le> length b"

text \<open>The entries from position \<open>p\<close> on: position, inode number and name; \<open>None\<close> when the records do
  not tile the blocks.\<close>

fun entries :: "nat \<Rightarrow> (nat \<Rightarrow> u8 list) \<Rightarrow> nat \<Rightarrow> nat \<Rightarrow> nat \<Rightarrow> dir_entry list option" where
  "entries 0 blk w sz p = None"
| "entries (Suc fuel) blk w sz p = (if sz \<le> p then Some []
     else let b = blk (p div w); o' = p mod w in
       if entry_fits b o'
       then map_option (Cons (p, get32 b o', entry_name b o')) (entries fuel blk w sz (p + entry_size b o'))
       else None)"

definition matches :: "cstring \<Rightarrow> dir_entry \<Rightarrow> bool" where
  "matches name e \<longleftrightarrow> fst (snd e) \<noteq> 0 \<and> length (snd (snd e)) = length name \<and>
     takeWhile (\<lambda>c. c \<noteq> 0) (snd (snd e)) = name"

section \<open>The search\<close>

text \<open>The variables of the loop at position \<open>p\<close>: the offset may be at the end of the previous block.\<close>

definition scanning :: "ext2_fs \<Rightarrow> u8 list \<Rightarrow> u8 \<Rightarrow> u32 \<Rightarrow> u8 list \<Rightarrow> nat \<Rightarrow> bool" where
  "scanning fs inode nr off blk p \<longleftrightarrow>
     off = of_nat (p mod bsize fs) \<and> nr = of_nat (p div bsize fs) \<and> blk = store fs (file_block inode (p div bsize fs)) \<or>
     off = fs_block_size fs \<and> p mod bsize fs = 0 \<and> 0 < p \<and> nr = of_nat (p div bsize fs - 1)"

lemma turn_block_law:
  assumes "fs_ok fs" and "direct_file fs inode k" and "scanning fs inode nr off blk p" and "p < k * bsize fs"
    and "0 < budget fs"
  shows "\<exists>fs'. turn_block inode nr off blk fs =
       Some (of_nat (p div bsize fs), of_nat (p mod bsize fs), store fs (file_block inode (p div bsize fs)), fs') \<and>
     disk.evolves 1 (\<lambda>c. c) fs fs'"
proof -
  let ?w = "bsize fs" and ?j = "p div bsize fs"
  have w: "0 < ?w" using assms(1) by (simp add: fs_ok_def)
  have j: "?j < k" using assms(4) w by (simp add: less_mult_imp_div_less)
  have k: "k \<le> 12" using direct_fileD(2) [OF assms(2)] .
  from assms(3) consider
    (same) "off = of_nat (p mod ?w)" "nr = of_nat ?j" "blk = store fs (file_block inode ?j)"
  | (turn) "off = fs_block_size fs" "p mod ?w = 0" "0 < p" "nr = of_nat (?j - 1)"
    unfolding scanning_def by (elim disjE conjE)
  then show ?thesis
  proof cases
    case same
    have "unat (of_nat (p mod ?w) :: u32) = p mod ?w"
      using w mod_less_divisor [OF w, of p] unat_bound [of "fs_block_size fs"]
      by (intro unat_of_nat_small) (simp add: less_trans)
    then have "\<not> off \<ge> fs_block_size fs" using same(1) w by (simp add: word_le_nat_alt not_le)
    with same assms(1) show ?thesis by (intro exI [of _ fs]) (simp add: turn_block_def disk.evolves_def)
  next
    case turn
    have "0 < ?j" using turn(2,3) by (metis div_mult_mod_eq gr0I less_not_refl add_cancel_right_right mult_eq_0_iff)
    then have nr: "nr + 1 = of_nat ?j" using turn(4) by (metis Suc_diff_1 of_nat_Suc add.commute)
    have "(ucast (nr + 1) :: u32) = of_nat (unat (nr + 1))" by simp
    moreover have "unat (nr + 1) = ?j" unfolding nr using j k by (simp add: unat_of_nat_small)
    ultimately have u: "(ucast (nr + 1) :: u32) = of_nat ?j" by (simp only:)
    obtain fs' where "inode_read_block inode (of_nat ?j) blk fs =
        Some (file_block inode ?j, store fs (file_block inode ?j), fs')" "disk.evolves 1 (\<lambda>c. c) fs fs'"
      using inode_read_direct [OF assms(1,2) j assms(5)] by blast
    moreover from this(2) have "fs_block_size fs' = fs_block_size fs"
      using turnsD(5) [OF turns_read [OF _ assms(2)]] by blast
    ultimately show ?thesis using turn(1,2) nr u by (intro exI [of _ fs']) (simp add: turn_block_def)
  qed
qed

lemma block_position: "a < w \<Longrightarrow> (a + q * w) mod w = a \<and> (a + q * w) div w = (q :: nat)"
  by auto

text \<open>From an entry to the next one.\<close>

lemma scanning_next:
  assumes "0 < bsize fs" and "p mod bsize fs + n \<le> bsize fs" and "0 < n"
  shows "scanning fs inode (of_nat (p div bsize fs)) (of_nat (p mod bsize fs) + of_nat n)
     (store fs (file_block inode (p div bsize fs))) (p + n)"
proof (cases "p mod bsize fs + n = bsize fs")
  case True
  have "p + n = Suc (p div bsize fs) * bsize fs"
    using True div_mult_mod_eq [of p "bsize fs"] by (simp only: mult_Suc)
  then have "(p + n) mod bsize fs = 0" "(p + n) div bsize fs = Suc (p div bsize fs)"
    using assms(1) by simp_all
  moreover have "of_nat (p mod bsize fs) + of_nat n = fs_block_size fs"
    using arg_cong [OF True, of "of_nat :: nat \<Rightarrow> u32"] by simp
  ultimately show ?thesis using assms(3) by (simp add: scanning_def)
next
  case False
  then have "p mod bsize fs + n < bsize fs" using assms(2) by simp
  moreover have "p + n = p mod bsize fs + n + p div bsize fs * bsize fs"
    using div_mult_mod_eq [of p "bsize fs"] by linarith
  ultimately have "(p + n) mod bsize fs = p mod bsize fs + n" "(p + n) div bsize fs = p div bsize fs"
    using block_position [of "p mod bsize fs + n" "bsize fs" "p div bsize fs"] by simp_all
  then show ?thesis by (simp add: scanning_def)
qed

lemma entry_reads:
  assumes "entry_fits b o'" and "length b < 2 ^ 32"
  shows "rd32 b o' = Some (get32 b o')" "rd16 b (o' + 4) = Some (get16 b (o' + 4))" "rd8 b (o' + 6) = Some (b ! (o' + 6))"
    "copy_out (o' + 8) (unat (b ! (o' + 6))) b = Some (entry_name b o')" "0 < entry_size b o'"
    "length (entry_name b o') = unat (b ! (o' + 6))"
  using assms by (auto simp: entry_fits_def rd32_def rd16_def rd8_def copy_out_def entry_name_def)

text \<open>A search that takes \<open>m\<close> reads at most leaves the store as it is.\<close>

lemma evolves_trans:
  assumes "disk.evolves m (\<lambda>c. c) fs fs'" and "disk.evolves n (\<lambda>c. c) fs' fs''"
  shows "disk.evolves (m + n) (\<lambda>c. c) fs fs''"
  using assms meta_fields(8) [of fs' fs] by (auto simp: disk.evolves_def)

lemma evolves_weaken: "disk.evolves m f fs fs' \<Longrightarrow> m \<le> n \<Longrightarrow> disk.evolves n f fs fs'"
  by (auto simp: disk.evolves_def)

lemma entries_below: "entries f blk w sz p = Some es \<Longrightarrow> (q, r) \<in> set es \<Longrightarrow> p \<le> q \<and> q < sz"
  by (induction f arbitrary: p es) (fastforce simp: Let_def split: if_splits)+

definition found :: "(nat \<Rightarrow> u8 list) \<Rightarrow> nat \<Rightarrow> dir_entry option \<Rightarrow> (u8 \<times> u32 \<times> u8 list) option" where
  "found blk w e = map_option (\<lambda>(p, _). (of_nat (p div w), of_nat (p mod w), blk (p div w))) e"

lemma find_loop_step:
  assumes "tot < isz" and "turn_block inode nr off blk fs = Some (nr', off', b, fs1)"
    and "unat off' = o'" and "entry_fits b o'" and "length b < 2 ^ 32"
  shows "find_loop inode isz name nr blk off tot fs =
     (if matches name (p, get32 b o', entry_name b o') then Some (Some (nr', off', b), fs1)
      else find_loop inode isz name nr' b (off' + ucast (get16 b (o' + 4))) (tot + ucast (get16 b (o' + 4))) fs1)"
proof (cases "length name = unat (b ! (o' + 6))")
  case True
  then show ?thesis
    using assms(1-3) entry_reads [OF assms(4,5)]
    by (simp add: find_loop.simps [of inode isz name nr blk off tot] Let_def matches_def)
next
  case False
  then show ?thesis
    using assms(1-3) entry_reads [OF assms(4,5)]
    by (simp add: find_loop.simps [of inode isz name nr blk off tot] Let_def matches_def)
qed

lemma find_loop_law:
  assumes "entries fuel (\<lambda>j. store fs (file_block inode j)) (bsize fs) (unat isz) p = Some es"
    and "fs_ok fs" and "direct_file fs inode k" and "unat isz \<le> k * bsize fs" and "scanning fs inode nr off blk p"
    and "p \<le> unat isz + bsize fs" and "tot = of_nat p" and "p < 2 ^ 32" and "fuel \<le> budget fs"
  shows "\<exists>fs'. find_loop inode isz name nr blk off tot fs =
       Some (found (\<lambda>j. store fs (file_block inode j)) (bsize fs) (find (matches name) es), fs') \<and>
     disk.evolves fuel (\<lambda>c. c) fs fs'"
  using assms
proof (induction fuel arbitrary: p es nr off blk tot fs)
  case (Suc fuel)
  let ?w = "bsize fs" and ?blk = "\<lambda>j. store fs (file_block inode j)"
  have ut: "unat tot = p" using Suc.prems(7,8) by (simp add: unat_of_nat_small)
  show ?case
  proof (cases "unat isz \<le> p")
    case True
    then have "\<not> tot < isz" using ut by (simp add: word_less_nat_alt)
    with True Suc.prems(1,2) show ?thesis
      by (intro exI [of _ fs]) (simp add: find_loop.simps [of inode isz name nr blk off tot] found_def disk.evolves_def)
  next
    case False
    then have lt: "tot < isz" using ut by (simp add: word_less_nat_alt)
    let ?j = "p div ?w" and ?o = "p mod ?w"
    let ?b = "?blk ?j"
    have fit: "entry_fits ?b ?o" using Suc.prems(1) False by (simp add: Let_def split: if_splits)
    obtain es' where es: "entries fuel ?blk ?w (unat isz) (p + entry_size ?b ?o) = Some es'"
      "es = (p, get32 ?b ?o, entry_name ?b ?o) # es'"
      using Suc.prems(1) False fit by (auto simp: Let_def)
    have pk: "p < k * ?w" using False Suc.prems(4) by simp
    have w: "0 < ?w" using Suc.prems(2) by (simp add: fs_ok_def)
    have jk: "?j < k" using pk w by (simp add: less_mult_imp_div_less)
    obtain fs1 where t: "turn_block inode nr off blk fs = Some (of_nat ?j, of_nat ?o, ?b, fs1)"
      "disk.evolves 1 (\<lambda>c. c) fs fs1"
      using turn_block_law [OF Suc.prems(2,3,5) pk] Suc.prems(9) by auto
    note t1 = turnsD [OF turns_read [OF t(2) Suc.prems(3)]]
    have lenb: "length ?b = ?w" using file_block_length [OF Suc.prems(2,3) jk] .
    have w32: "?w < 2 ^ 32" using unat_bound [of "fs_block_size fs"] by simp
    have pos: "0 < entry_size ?b ?o" using fit by (simp add: entry_fits_def)
    have uo: "unat (of_nat ?o :: u32) = ?o"
      by (intro unat_of_nat_small) (use mod_less_divisor [OF w, of p] w32 in simp)
    let ?p = "p + entry_size ?b ?o" and ?nr = "of_nat ?j :: u8"
    let ?rl = "ucast (get16 ?b (?o + 4)) :: u32"
    have rl: "?rl = of_nat (entry_size ?b ?o)" by (simp add: entry_size_def)
    have step: "find_loop inode isz name nr blk off tot fs =
        (if matches name (p, get32 ?b ?o, entry_name ?b ?o) then Some (Some (?nr, of_nat ?o, ?b), fs1)
         else find_loop inode isz name ?nr ?b (of_nat ?o + ?rl) (tot + ?rl) fs1)"
      by (rule find_loop_step [OF lt t(1) uo fit]) (use lenb w32 in simp)
    show ?thesis
    proof (cases "matches name (p, get32 ?b ?o, entry_name ?b ?o)")
      case True
      then show ?thesis using step t(2) es(2) evolves_weaken [OF t(2), of "Suc fuel"] by (auto simp: found_def)
    next
      case False
      have same: "store fs1 (file_block inode i) = ?blk i" if "i < k" for i
        using t(2) direct_fileD(5) [OF Suc.prems(3) that] by (simp add: disk.evolves_def)
      have cong: "entries f (\<lambda>i. store fs1 (file_block inode i)) ?w (unat isz) q = entries f ?blk ?w (unat isz) q" for f q
      proof (induction f arbitrary: q)
        case (Suc f)
        have "q div ?w < k" if "\<not> unat isz \<le> q"
          using that Suc.prems \<open>unat isz \<le> k * ?w\<close> w by (simp add: less_mult_imp_div_less)
        then show ?case using Suc.IH same by (simp add: Let_def)
      qed simp
      have small: "?o + entry_size ?b ?o \<le> ?w" using fit lenb by (simp add: entry_fits_def)
      have sc: "scanning fs1 inode ?nr (of_nat ?o + ?rl) ?b ?p"
        unfolding rl using scanning_next [of fs1 p "entry_size ?b ?o" inode] w small pos same [OF jk] t1(4) by simp
      have p32: "?p \<le> k * ?w"
      proof -
        have "?p = ?j * ?w + (?o + entry_size ?b ?o)" by simp
        also have "\<dots> \<le> (?j + 1) * ?w" using small by (simp only: add_mult_distrib mult_1 add_le_cancel_left)
        also have "\<dots> \<le> k * ?w" using jk by (intro mult_le_mono1) simp
        finally show ?thesis .
      qed
      have "?p < 2 ^ 32" using p32 direct_fileD(3) [OF Suc.prems(3)] by simp
      moreover have "tot + ?rl = of_nat ?p" using Suc.prems(7) rl by simp
      moreover have "?p \<le> unat isz + ?w" using False \<open>\<not> unat isz \<le> p\<close> small by simp
      moreover have "fuel \<le> budget fs1" using Suc.prems(9) t1(3) by simp
      moreover have "direct_file fs1 inode k" unfolding t1(6) by (rule Suc.prems(3))
      moreover have "entries fuel (\<lambda>j. store fs1 (file_block inode j)) (bsize fs1) (unat isz) ?p = Some es'"
        using es(1) cong t1(4) by simp
      ultimately obtain fs' where IH: "find_loop inode isz name ?nr ?b (of_nat ?o + ?rl) (tot + ?rl) fs1 =
          Some (found (\<lambda>j. store fs1 (file_block inode j)) (bsize fs1) (find (matches name) es'), fs')"
        "disk.evolves fuel (\<lambda>c. c) fs1 fs'"
        using Suc.IH [of fs1 ?p es' ?nr "of_nat ?o + ?rl" ?b "tot + ?rl"] t1(1,4) sc Suc.prems(4) by auto
      have "found (\<lambda>j. store fs1 (file_block inode j)) (bsize fs1) (find (matches name) es') =
          found ?blk ?w (find (matches name) es')"
      proof (cases "find (matches name) es'")
        case (Some e)
        obtain q r where e: "e = (q, r)" by (cases e)
        have "e \<in> set es'" using Some by (auto simp: find_Some_iff)
        then have "q < unat isz" using entries_below [OF es(1)] e by auto
        then have "q div ?w < k" using Suc.prems(4) w by (simp add: less_mult_imp_div_less)
        then show ?thesis using Some e same t1(4) by (simp add: found_def)
      qed (simp add: found_def)
      with IH step False es(2) evolves_trans [OF t(2) IH(2)] show ?thesis by auto
    qed
  qed
qed simp

section \<open>The handlers\<close>

text \<open>The entries of the directory whose inode is \<open>inode\<close>.\<close>

definition dir_entries :: "ext2_fs \<Rightarrow> u8 list \<Rightarrow> dir_entry list option" where
  "dir_entries fs inode = entries (Suc (unat (get32 inode 4))) (\<lambda>j. store fs (file_block inode j)) (bsize fs)
     (unat (get32 inode 4)) 0"

text \<open>The beginning of \<^verbatim>\<open>ext2_finddir\<close> and \<^verbatim>\<open>ext2_unlink\<close>.\<close>

definition lookup_entry :: "u32 \<Rightarrow> cstring \<Rightarrow> ext2_fs \<Rightarrow> (u8 list \<times> (u8 \<times> u32 \<times> u8 list) option \<times> ext2_fs) option" where
  "lookup_entry n name fs = do {
     (inode, fs) \<leftarrow> read_inode n fs;
     (_, blk, fs) \<leftarrow> inode_read_block inode 0 [] fs;
     isz \<leftarrow> rd32 inode 4;
     (r, fs) \<leftarrow> find_loop inode isz name 0 blk 0 0 fs;
     Some (inode, r, fs)
   }"

lemma finddir_lookup:
  "ext2_finddir n name fs = do {
     (_, r, fs) \<leftarrow> lookup_entry n name fs;
     (case r of None \<Rightarrow> Some (None, fs)
      | Some (_, off, blk) \<Rightarrow> do {
          rlen \<leftarrow> rd16 blk (unat off + 4);
          direntry \<leftarrow> copy_out (unat off) (unat rlen) blk;
          ino \<leftarrow> rd32 direntry 0;
          (inode, fs) \<leftarrow> read_inode ino fs;
          f \<leftarrow> node_from_file inode direntry blank_node;
          Some (Some f, fs) }) }"
  unfolding ext2_finddir_def lookup_entry_def
  by (simp add: split_def cong: option.case_cong)

lemma unlink_lookup:
  "ext2_unlink n name fs = do {
     (inode, r, fs) \<leftarrow> lookup_entry n name fs;
     (case r of None \<Rightarrow> Some fs
      | Some (nr, off, blk) \<Rightarrow> do {
          blk \<leftarrow> wr32 (unat off) 0 blk;
          (_, _, fs) \<leftarrow> inode_write_block inode n (ucast nr) blk fs;
          Some (ext2_sync fs) }) }"
  unfolding ext2_unlink_def lookup_entry_def
  by (simp add: split_def cong: option.case_cong)

lemma lookup_entry_law:
  assumes "fs_ok fs" and "inode_home fs n = Some h" and "inode = inode_at fs h" and "direct_file fs inode k"
    and "0 < k" and "unat (get32 inode 4) \<le> k * bsize fs" and "dir_entries fs inode = Some es"
    and "unat (get32 inode 4) + 9 \<le> budget fs"
  shows "\<exists>fs'. lookup_entry n name fs = Some (inode,
       found (\<lambda>j. store fs (file_block inode j)) (bsize fs) (find (matches name) es), fs') \<and>
     disk.evolves (unat (get32 inode 4) + 3) (\<lambda>c. c) fs fs'"
proof -
  let ?isz = "get32 inode 4"
  obtain fs0 where r0: "read_inode n fs = Some (inode, fs0)" "disk.evolves 1 (\<lambda>c. c) fs fs0"
    using read_inode_law [OF assms(1,2)] assms(3,8) by auto
  note t0 = turnsD [OF turns_read [OF r0(2) assms(4)]]
  have df0: "direct_file fs0 inode k" unfolding t0(6) by (rule assms(4))
  have "0 < budget fs0" using t0(3) assms(8) by simp
  from inode_read_direct [OF t0(1) df0 assms(5) this, of "[]"] obtain fs1 where
    r1: "inode_read_block inode 0 [] fs0 = Some (file_block inode 0, store fs0 (file_block inode 0), fs1)"
    "disk.evolves 1 (\<lambda>c. c) fs0 fs1" by auto
  note e01 = evolves_trans [OF r0(2) r1(2)]
  note t1 = turnsD [OF turns_read [OF e01 assms(4)]]
  have df1: "direct_file fs1 inode k" unfolding t1(6) by (rule assms(4))
  have w: "0 < bsize fs" using assms(1) by (simp add: fs_ok_def)
  have st: "store fs1 (file_block inode i) = store fs (file_block inode i)" "store fs0 (file_block inode i) = store fs (file_block inode i)"
    if "i < k" for i
    using e01 r0(2) direct_fileD(5) [OF assms(4) that] by (simp_all add: disk.evolves_def)
  have cong: "entries f (\<lambda>i. store fs1 (file_block inode i)) (bsize fs) (unat ?isz) q =
      entries f (\<lambda>i. store fs (file_block inode i)) (bsize fs) (unat ?isz) q" for f q
  proof (induction f arbitrary: q)
    case (Suc f)
    have "q div bsize fs < k" if "\<not> unat ?isz \<le> q"
      using that assms(6) w by (simp add: less_mult_imp_div_less)
    then show ?case using Suc.IH st(1) by (simp add: Let_def)
  qed simp
  have "entries (Suc (unat ?isz)) (\<lambda>j. store fs1 (file_block inode j)) (bsize fs1) (unat ?isz) 0 = Some es"
    using assms(7) cong t1(4) unfolding dir_entries_def by simp
  moreover have "scanning fs1 inode 0 0 (store fs0 (file_block inode 0)) 0"
    using st [OF assms(5)] by (simp add: scanning_def)
  ultimately obtain fs2 where f: "find_loop inode ?isz name 0 (store fs0 (file_block inode 0)) 0 0 fs1 =
      Some (found (\<lambda>j. store fs1 (file_block inode j)) (bsize fs1) (find (matches name) es), fs2)"
    "disk.evolves (Suc (unat ?isz)) (\<lambda>c. c) fs1 fs2"
    using find_loop_law [of "Suc (unat ?isz)" fs1 inode ?isz 0 es k 0 0 "store fs0 (file_block inode 0)" 0 name]
      t1(1,3,4) df1 assms(6,8) by auto
  have "found (\<lambda>j. store fs1 (file_block inode j)) (bsize fs1) (find (matches name) es) =
      found (\<lambda>j. store fs (file_block inode j)) (bsize fs) (find (matches name) es)"
  proof (cases "find (matches name) es")
    case (Some e)
    obtain q r where e: "e = (q, r)" by (cases e)
    have "e \<in> set es" using Some by (auto simp: find_Some_iff)
    then have "q < unat ?isz" using entries_below [OF assms(7) [unfolded dir_entries_def]] e by auto
    then have "q div bsize fs < k" using assms(6) w by (simp add: less_mult_imp_div_less)
    then show ?thesis using Some e st t1(4) by (simp add: found_def)
  qed (simp add: found_def)
  moreover have "rd32 inode 4 = Some ?isz" using direct_fileD(1) [OF assms(4)] by (simp add: rd32_def)
  ultimately show ?thesis
    using r0(1) r1(1) f evolves_weaken [OF evolves_trans [OF e01 f(2)], of "unat ?isz + 3"]
    by (auto simp: lookup_entry_def)
qed

lemma matches_name: "matches name (p, i, nm) \<Longrightarrow> nm = name"
proof -
  assume m: "matches name (p, i, nm)"
  then have "length (takeWhile (\<lambda>c. c \<noteq> 0) nm) = length nm" by (simp add: matches_def)
  then have "takeWhile (\<lambda>c. c \<noteq> 0) nm = nm" by (metis take_all_iff order_refl takeWhile_eq_take)
  with m show ?thesis by (simp add: matches_def)
qed

lemma entries_member:
  "entries f blk w sz q = Some es \<Longrightarrow> (p, i, nm) \<in> set es \<Longrightarrow>
     entry_fits (blk (p div w)) (p mod w) \<and> i = get32 (blk (p div w)) (p mod w) \<and> nm = entry_name (blk (p div w)) (p mod w)"
  by (induction f arbitrary: q es) (auto simp: Let_def split: if_splits)

lemma ext2_finddir_law:
  assumes "fs_ok fs" and "inode_home fs n = Some h" and "inode = inode_at fs h" and "direct_file fs inode k"
    and "0 < k" and "unat (get32 inode 4) \<le> k * bsize fs" and "dir_entries fs inode = Some es"
    and "unat (get32 inode 4) + 9 \<le> budget fs"
  shows "find (matches name) es = None \<Longrightarrow> \<exists>fs'. ext2_finddir n name fs = Some (None, fs')"
    and "find (matches name) es = Some (p, ino, nm) \<Longrightarrow> length name < 128 \<Longrightarrow> inode_home fs ino = Some h' \<Longrightarrow>
      \<exists>f fs'. ext2_finddir n name fs = Some (Some f, fs') \<and> fn_inode f = ino \<and> fn_name f = name \<and>
        fn_size f = get32 (inode_at fs h') 4"
proof -
  obtain fs1 where l: "lookup_entry n name fs = Some (inode,
       found (\<lambda>j. store fs (file_block inode j)) (bsize fs) (find (matches name) es), fs1)"
     "disk.evolves (unat (get32 inode 4) + 3) (\<lambda>c. c) fs fs1"
    using lookup_entry_law [OF assms] by blast
  show "\<exists>fs'. ext2_finddir n name fs = Some (None, fs')" if "find (matches name) es = None"
    using l(1) that by (simp add: finddir_lookup found_def)
  show "\<exists>f fs'. ext2_finddir n name fs = Some (Some f, fs') \<and> fn_inode f = ino \<and> fn_name f = name \<and>
        fn_size f = get32 (inode_at fs h') 4"
    if f: "find (matches name) es = Some (p, ino, nm)" and len: "length name < 128" and h': "inode_home fs ino = Some h'"
  proof -
    let ?w = "bsize fs"
    let ?b = "store fs (file_block inode (p div ?w))" and ?o = "p mod ?w"
    have w: "0 < ?w" using assms(1) by (simp add: fs_ok_def)
    have mem: "(p, ino, nm) \<in> set es" and m: "matches name (p, ino, nm)"
      using f by (auto simp: find_Some_iff)
    have nm: "nm = name" using matches_name [OF m] .
    note em = entries_member [OF assms(7) [unfolded dir_entries_def] mem]
    have fit: "entry_fits ?b ?o" and ino: "ino = get32 ?b ?o" and name: "name = entry_name ?b ?o"
      using em nm by simp_all
    have "p < unat (get32 inode 4)" using entries_below [OF assms(7) [unfolded dir_entries_def] mem] by simp
    then have jk: "p div ?w < k" using assms(6) w by (simp add: less_mult_imp_div_less)
    have lb: "length ?b = ?w" using file_block_length [OF assms(1,4) jk] .
    have w32: "?w < 2 ^ 32" using unat_bound [of "fs_block_size fs"] by simp
    have uo: "unat (of_nat ?o :: u32) = ?o"
      by (intro unat_of_nat_small) (use mod_less_divisor [OF w, of p] w32 in simp)
    note rd = entry_reads [OF fit] 
    let ?d = "take (entry_size ?b ?o) (drop ?o ?b)"
    have size: "8 + unat (?b ! (?o + 6)) \<le> entry_size ?b ?o" "?o + entry_size ?b ?o \<le> length ?b"
      using fit by (simp_all add: entry_fits_def)
    have d: "copy_out ?o (entry_size ?b ?o) ?b = Some ?d" using size by (simp add: copy_out_def)
    have nth: "?d ! i = ?b ! (?o + i)" if "i < entry_size ?b ?o" for i using that size by simp
    have ld: "length ?d = entry_size ?b ?o" using size by simp
    have d0: "rd32 ?d 0 = Some ino" using size ld nth by (simp add: rd32_def ino get32_def)
    have d6: "rd8 ?d 6 = Some (?b ! (?o + 6))" using size ld nth by (simp add: rd8_def)
    have dn: "copy_out 8 (unat (?b ! (?o + 6))) ?d = Some name"
      using size ld by (simp add: copy_out_def name entry_name_def drop_take min_def add.commute)
    have lenn: "unat (?b ! (?o + 6)) < 128"
      using rd(6) lb w32 len name by simp
    note t1 = turnsD [OF turns_read [OF l(2) assms(4)]]
    have ms: "meta fs1 = meta fs" by (rule t1(2))
    have h1: "inode_home fs1 ino = Some h'" using inode_home_frame [OF ms] h' by simp
    have "0 < budget fs1" using t1(3) assms(8) by simp
    then obtain fs2 where r: "read_inode ino fs1 = Some (inode_at fs1 h', fs2)"
      using read_inode_law [OF t1(1) h1] by blast
    have same: "inode_at fs1 h' = inode_at fs h'"
    proof -
      obtain c q where hq: "h' = (c, q)" by (cases h')
      have "good_block fs c" using inode_homeD(7) [OF h' [unfolded hq]] .
      then show ?thesis using l(2) meta_fields(3) [OF ms] by (simp add: inode_at_def hq disk.evolves_def)
    qed
    have "unat (fs_inode_size fs) = length inode" using length_inode_at [OF assms(1,2)] assms(3) by simp
    then have li: "100 \<le> length (inode_at fs h')"
      using length_inode_at [OF assms(1) h'] direct_fileD(1) [OF assms(4)] by simp
    then obtain f where nf: "node_from_file (inode_at fs h') ?d blank_node = Some f"
      "fn_inode f = ino" "fn_name f = name" "fn_size f = get32 (inode_at fs h') 4"
      using d0 d6 dn lenn by (simp add: node_from_file_def node_fields_def rd16_def rd32_def)
    have r16: "rd16 ?b (?o + 4) = Some (get16 ?b (?o + 4))" using rd(2) lb w32 by simp
    have "ext2_finddir n name fs = Some (Some f, fs2)"
      using l(1) f r16 d d0 r nf(1) uo by (simp add: finddir_lookup found_def same flip: entry_size_def)
    with nf show ?thesis by blast
  qed
qed

section \<open>Removing an entry\<close>

text \<open>A record is not touched by a write of four bytes before or behind it.\<close>

lemma drop_put32: "a + 4 \<le> m \<Longrightarrow> drop m (put32 a v b) = drop m b"
  by (simp add: put32_def)

lemma take_put32: "m \<le> a \<Longrightarrow> take m (put32 a v b) = take m b"
  by (simp add: put32_def)

lemma entry_apart:
  assumes "entry_fits b o'" and "o' + entry_size b o' \<le> a \<or> a + 4 \<le> o'"
  shows "entry_fits (put32 a v b) o' \<and> entry_size (put32 a v b) o' = entry_size b o' \<and>
     get32 (put32 a v b) o' = get32 b o' \<and> entry_name (put32 a v b) o' = entry_name b o'"
proof -
  have far: "o' + 8 + unat (b ! (o' + 6)) \<le> a \<or> a + 4 \<le> o'" using assms by (auto simp: entry_fits_def)
  then have six: "put32 a v b ! (o' + 6) = b ! (o' + 6)" by (intro nth_put32) auto
  have size: "entry_size (put32 a v b) o' = entry_size b o'"
    using far by (auto simp: entry_size_def get16_put32_other)
  moreover have "get32 (put32 a v b) o' = get32 b o'" using far by (intro get32_put32_other) auto
  moreover have "entry_name (put32 a v b) o' = entry_name b o'"
    using far
  proof
    assume "o' + 8 + unat (b ! (o' + 6)) \<le> a"
    then show ?thesis by (simp add: entry_name_def six take_drop take_put32 add.commute)
  qed (simp add: entry_name_def six drop_put32)
  ultimately show ?thesis using assms(1) six by (simp add: entry_fits_def)
qed

text \<open>The record whose own inode number is overwritten.\<close>

lemma entry_cleared:
  assumes "entry_fits b o'"
  shows "entry_fits (put32 o' 0 b) o' \<and> entry_size (put32 o' 0 b) o' = entry_size b o' \<and>
     get32 (put32 o' 0 b) o' = 0 \<and> entry_name (put32 o' 0 b) o' = entry_name b o'"
proof -
  have six: "put32 o' 0 b ! (o' + 6) = b ! (o' + 6)" by (intro nth_put32) simp
  have "entry_size (put32 o' 0 b) o' = entry_size b o'" by (simp add: entry_size_def get16_put32_other)
  then show ?thesis using assms six by (simp add: entry_fits_def entry_name_def drop_put32)
qed

definition cleared :: "nat \<Rightarrow> nat \<Rightarrow> (nat \<Rightarrow> u8 list) \<Rightarrow> nat \<Rightarrow> u8 list" where
  "cleared w p blk = blk(p div w := put32 (p mod w) 0 (blk (p div w)))"

lemma same_block_distance:
  "q div w = p div w \<Longrightarrow> q \<le> p \<Longrightarrow> (p :: nat) mod w = q mod w + (p - q)"
  by (metis div_mult_mod_eq add.assoc add_left_cancel le_add_diff_inverse)

lemma entries_behind:
  "entries f blk w sz q = Some es \<Longrightarrow> p + 4 \<le> q \<Longrightarrow> entries f (cleared w p blk) w sz q = Some es"
proof (induction f arbitrary: q es)
  case (Suc f)
  show ?case
  proof (cases "sz \<le> q")
    case False
    let ?b = "blk (q div w)" and ?o = "q mod w" and ?b' = "cleared w p blk (q div w)"
    have fit: "entry_fits ?b ?o" using Suc.prems(1) False by (simp add: Let_def split: if_splits)
    have "entry_fits ?b' ?o \<and> entry_size ?b' ?o = entry_size ?b ?o \<and> get32 ?b' ?o = get32 ?b ?o \<and>
        entry_name ?b' ?o = entry_name ?b ?o"
    proof (cases "q div w = p div w")
      case True
      then have "q mod w = p mod w + (q - p)" using same_block_distance [of p w q] Suc.prems(2) by simp
      then have "p mod w + 4 \<le> ?o" using Suc.prems(2) by simp
      then show ?thesis using entry_apart [OF fit, of "p mod w" 0] True by (simp add: cleared_def)
    qed (use fit in \<open>simp add: cleared_def\<close>)
    then show ?thesis using Suc.prems False Suc.IH [of "q + entry_size ?b ?o"] fit by (auto simp: Let_def)
  qed (use Suc.prems in simp)
qed simp

lemma entries_cleared:
  assumes "entries f blk w sz q = Some es" and "(p, i, nm) \<in> set es"
  shows "entries f (cleared w p blk) w sz q = Some (map (\<lambda>e. if fst e = p then (p, 0, snd (snd e)) else e) es)"
  using assms
proof (induction f arbitrary: q es)
  case (Suc f)
  let ?b = "blk (q div w)" and ?o = "q mod w" and ?b' = "cleared w p blk (q div w)"
  have nz: "\<not> sz \<le> q" using Suc.prems by (auto split: if_splits)
  have fit: "entry_fits ?b ?o" using Suc.prems(1) nz by (simp add: Let_def split: if_splits)
  have pos: "8 \<le> entry_size ?b ?o" using fit by (simp add: entry_fits_def)
  obtain es' where es: "entries f blk w sz (q + entry_size ?b ?o) = Some es'"
    "es = (q, get32 ?b ?o, entry_name ?b ?o) # es'"
    using Suc.prems(1) nz fit by (auto simp: Let_def)
  have after: "e \<in> set es' \<Longrightarrow> q + entry_size ?b ?o \<le> fst e" for e
    using entries_below [OF es(1)] by (cases e) auto
  show ?case
  proof (cases "q = p")
    case True
    have "entries f (cleared w p blk) w sz (q + entry_size ?b ?o) = Some es'"
      using entries_behind [OF es(1)] True pos by simp
    moreover have "map (\<lambda>e. if fst e = p then (p, 0, snd (snd e)) else e) es' = es'"
      using after True pos by (intro map_idI) force
    moreover have "?b' = put32 ?o 0 ?b" using True by (simp add: cleared_def)
    ultimately show ?thesis
      using entry_cleared [OF fit] True nz es(2) by (simp add: Let_def)
  next
    case False
    then have mem: "(p, i, nm) \<in> set es'" using Suc.prems(2) es(2) by auto
    then have qp: "q + entry_size ?b ?o \<le> p" using after by fastforce
    have "entry_fits ?b' ?o \<and> entry_size ?b' ?o = entry_size ?b ?o \<and> get32 ?b' ?o = get32 ?b ?o \<and>
        entry_name ?b' ?o = entry_name ?b ?o"
    proof (cases "q div w = p div w")
      case True
      then have "p mod w = q mod w + (p - q)" using same_block_distance [OF True] qp by simp
      then have "?o + entry_size ?b ?o \<le> p mod w" using qp by simp
      then show ?thesis using entry_apart [OF fit, of "p mod w" 0] True by (simp add: cleared_def)
    qed (use fit in \<open>simp add: cleared_def\<close>)
    then show ?thesis
      using Suc.IH [OF es(1) mem] nz es(2) False by (simp add: Let_def)
  qed
qed simp

text \<open>After an entry is unlinked the directory has the same records, and the one that was found is
  no longer used; without such an entry nothing changes.\<close>

lemma ext2_unlink_law:
  assumes "fs_ok fs" and "inode_home fs n = Some h" and "inode = inode_at fs h" and "direct_file fs inode k"
    and "0 < k" and "unat (get32 inode 4) \<le> k * bsize fs" and "dir_entries fs inode = Some es"
    and "unat (get32 inode 4) + 9 \<le> budget fs" and "\<forall>j < k. file_block inode j \<noteq> fst h" and "\<not> fs_using_cache fs"
  shows "\<exists>fs'. ext2_unlink n name fs = Some fs' \<and> fs_ok fs' \<and> inode_at fs' h = inode \<and>
     dir_entries fs' inode = Some (case find (matches name) es of None \<Rightarrow> es
       | Some (p, _) \<Rightarrow> map (\<lambda>e. if fst e = p then (p, 0, snd (snd e)) else e) es) \<and>
     (\<forall>b. good_block fs b \<longrightarrow> (\<forall>j < k. b \<noteq> file_block inode j) \<longrightarrow> store fs' b = store fs b)"
proof -
  let ?w = "bsize fs" and ?blk = "\<lambda>j. store fs (file_block inode j)"
  obtain fs1 where l: "lookup_entry n name fs = Some (inode, found ?blk ?w (find (matches name) es), fs1)"
     "disk.evolves (unat (get32 inode 4) + 3) (\<lambda>c. c) fs fs1"
    using lookup_entry_law [OF assms(1-8)] by blast
  note t1 = turnsD [OF turns_read [OF l(2) assms(4)]]
  have w: "0 < ?w" using assms(1) by (simp add: fs_ok_def)
  have s1: "store fs1 b = store fs b" if "good_block fs b" for b using l(2) that by (simp add: disk.evolves_def)
  obtain c q where hq: "h = (c, q)" by (cases h)
  have gc: "good_block fs c" using inode_homeD(7) [OF assms(2) [unfolded hq]] .
  have cong: "entries f c1 ?w (unat (get32 inode 4)) r = entries f c2 ?w (unat (get32 inode 4)) r"
    if "\<And>j. j < k \<Longrightarrow> c1 j = c2 j" for c1 c2 f r
  proof (induction f arbitrary: r)
    case (Suc f)
    have "r div ?w < k" if "\<not> unat (get32 inode 4) \<le> r"
      using that assms(6) w by (simp add: less_mult_imp_div_less)
    then show ?case using Suc.IH that by (simp add: Let_def)
  qed simp
  have at: "inode_at f h = inode" if "store f c = store fs c" "meta f = meta fs" for f
    using that assms(3) meta_fields(3) [OF that(2)] by (simp add: inode_at_def hq)
  show ?thesis
  proof (cases "find (matches name) es")
    case None
    have "dir_entries fs1 inode = Some es"
      using assms(7) cong [of "\<lambda>j. store fs1 (file_block inode j)" ?blk] s1 direct_fileD(5) [OF assms(4)] t1(4)
      by (simp add: dir_entries_def)
    with None l(1) t1(1,2) at [of fs1] s1 gc show ?thesis
      by (intro exI [of _ fs1]) (simp add: unlink_lookup found_def)
  next
    case (Some e)
    obtain p ino nm where e: "e = (p, ino, nm)" by (cases e)
    let ?j = "p div ?w" and ?o = "p mod ?w"
    have mem: "(p, ino, nm) \<in> set es" using Some e by (auto simp: find_Some_iff)
    note em = entries_member [OF assms(7) [unfolded dir_entries_def] mem]
    have "p < unat (get32 inode 4)" using entries_below [OF assms(7) [unfolded dir_entries_def] mem] by simp
    then have jk: "?j < k" using assms(6) w by (simp add: less_mult_imp_div_less)
    have lb: "length (?blk ?j) = ?w" using file_block_length [OF assms(1,4) jk] .
    have w32: "?w < 2 ^ 32" using unat_bound [of "fs_block_size fs"] by simp
    have uo: "unat (of_nat ?o :: u32) = ?o"
      by (intro unat_of_nat_small) (use mod_less_divisor [OF w, of p] w32 in simp)
    let ?b' = "put32 ?o 0 (?blk ?j)"
    have wr: "wr32 ?o 0 (?blk ?j) = Some ?b'" using em by (auto simp: wr32_def entry_fits_def)
    have df1: "direct_file fs1 inode k" unfolding t1(6) by (rule assms(4))
    have "0 < budget fs1" "length ?b' = bsize fs1" using t1(3,4) assms(8) lb by simp_all
    from inode_write_direct [OF t1(1) df1 jk this, of n] obtain fs2 where
      wb: "inode_write_block inode n (of_nat ?j) ?b' fs1 = Some (file_block inode ?j, inode, fs2)"
      "disk.evolves 1 (\<lambda>c. c(file_block inode ?j := ?b')) fs1 fs2" by blast
    have m2: "meta fs2 = meta fs" "fs_ok fs2" using wb(2) t1(2) by (simp_all add: disk.evolves_def)
    have "good_block fs1 = good_block fs" using meta_fields(8) [OF t1(2)] .
    then have s2: "store fs2 b = (if b = file_block inode ?j then ?b' else store fs b)" if "good_block fs b" for b
      using wb(2) s1 [OF that] that by (simp add: disk.evolves_def)
    have nc: "\<not> fs_using_cache fs2"
      using arg_cong [OF m2(1), of fs_using_cache] assms(10) by (simp add: meta_def)
    have blk2: "store fs2 (file_block inode i) = cleared ?w p ?blk i" if "i < k" for i
      using s2 [OF direct_fileD(5) [OF assms(4) that]] direct_fileD(6) [OF assms(4) that jk] by (simp add: cleared_def)
    have "dir_entries fs2 inode = Some (map (\<lambda>e. if fst e = p then (p, 0, snd (snd e)) else e) es)"
      using entries_cleared [OF assms(7) [unfolded dir_entries_def] mem] cong [of _ "cleared ?w p ?blk", OF blk2]
        meta_fields(2) [OF m2(1)] by (simp add: dir_entries_def)
    moreover have "ucast (of_nat ?j :: u8) = (of_nat ?j :: u32)"
    proof -
      have "unat (of_nat ?j :: u8) = ?j"
        using jk direct_fileD(2) [OF assms(4)] by (simp add: unat_of_nat_small)
      moreover have "(ucast (of_nat ?j :: u8) :: u32) = of_nat (unat (of_nat ?j :: u8))" by simp
      ultimately show ?thesis by (simp only:)
    qed
    then have "ext2_unlink n name fs = Some fs2"
      using l(1) Some e uo wr wb(1) nc by (simp add: unlink_lookup found_def ext2_sync_def)
    moreover have "store fs2 c = store fs c"
      using s2 [OF gc] assms(9) jk hq by auto
    ultimately show ?thesis
      using m2 Some e at [OF _ m2(1)] s2 jk by (intro exI [of _ fs2]) auto
  qed
qed

end
