(* ===== verification/Ext2_Alloc.thy ===== *)
theory Ext2_Alloc
  imports Ext2_Inode
begin

text \<open>
  The block allocator of \<^verbatim>\<open>src/src/modules/fs/ext2.cpp\<close>, in the configuration the file is compiled
  in, without the cache: the block that is handed out was free, is then marked in the bitmap and
  zeroed, and the counters of its group and of the super block are taken down by one.
\<close>

section \<open>Bits of a bitmap\<close>

lemma blockbit_bit: "blockbit buf n \<longleftrightarrow> bit (buf ! (n div 8)) (n mod 8)"
proof -
  have "buf ! (n div 8) AND push_bit (n mod 8) 1 = (if bit (buf ! (n div 8)) (n mod 8) then push_bit (n mod 8) 1 else 0)"
    by (rule bit_word_eqI) (auto simp: bit_simps)
  moreover have "bit (push_bit (n mod 8) 1 :: u8) (n mod 8)" by (simp add: bit_simps)
  then have "(push_bit (n mod 8) 1 :: u8) \<noteq> 0" by (metis bit_0_eq bot_apply bot_bool_def)
  ultimately show ?thesis by (simp add: blockbit_def)
qed

lemma blockbit_set:
  assumes "n div 8 < length buf"
  shows "blockbit (set_blockbit n buf) m \<longleftrightarrow> m = n \<or> blockbit buf m"
proof -
  have byte: "set_blockbit n buf ! (m div 8) = (if m div 8 = n div 8
      then buf ! (n div 8) OR push_bit (n mod 8) 1 else buf ! (m div 8))"
    using assms by (simp add: set_blockbit_def nth_list_update)
  show ?thesis
  proof (cases "m div 8 = n div 8")
    case True
    then have "m mod 8 = n mod 8 \<longleftrightarrow> m = n" by (metis div_mult_mod_eq)
    then show ?thesis unfolding blockbit_bit byte using True by (auto simp: bit_simps)
  qed (auto simp: blockbit_bit byte)
qed

lemma first_clear_free:
  assumes "first_clear buf = Some k"
  shows "k < 8 * length buf" "\<not> blockbit buf k" "\<And>j. j < k \<Longrightarrow> blockbit buf j"
  using assms by (auto simp: first_clear_def find_Some_iff)

lemma first_clear_is:
  assumes "k < 8 * length buf" and "\<And>n. n < k \<Longrightarrow> blockbit buf n" and "\<not> blockbit buf k"
  shows "first_clear buf = Some k"
  using assms unfolding first_clear_def find_Some_iff by (intro exI [of _ k]) auto

lemma find_group_free:
  "find_group fs i k = Some (Some g) \<Longrightarrow> i \<le> g \<and> g < i + k \<and> rd16 (fs_block_groups fs) (32 * g + 12) \<noteq> Some 0 \<and>
     rd16 (fs_block_groups fs) (32 * g + 12) \<noteq> None"
  by (induction k arbitrary: i) (fastforce simp: bind_eq_Some_iff split: if_splits)+

section \<open>Without the cache\<close>

lemma write_uncached:
  "fs_cache fs = None \<Longrightarrow> b \<noteq> 0 \<Longrightarrow> length buff = bsize fs \<Longrightarrow>
     write_block b buff fs = Some (E_SUCCESS, dev_write (b * fs_block_size fs) buff fs)"
  by (simp add: write_block_def)

text \<open>The state after some transfers: only the disk may differ, and the blocks of \<open>B\<close>.\<close>

definition moved :: "u32 set \<Rightarrow> ext2_fs \<Rightarrow> ext2_fs \<Rightarrow> bool" where
  "moved B fs fs' \<longleftrightarrow> fs_cache fs' = None \<and> meta fs' = meta fs \<and>
     (\<forall>b. good_block fs b \<longrightarrow> b \<notin> B \<longrightarrow> store fs' b = store fs b)"

lemma store_uncached: "fs_cache fs = None \<Longrightarrow> store fs b = fs_disk fs (b * fs_block_size fs)"
  by (simp add: store_def cached_def)

lemma dev_write_moved:
  assumes "fs_cache fs = None" and "good_block fs b" and "0 < bsize fs"
  shows "moved {b} fs (dev_write (b * fs_block_size fs) buff fs)"
    and "store (dev_write (b * fs_block_size fs) buff fs) b = buff"
  using assms on_disk_inj [of fs _ b]
  by (auto simp: moved_def dev_write_def meta_def store_def cached_def good_block_def)

lemma moved_trans: "moved B fs fs' \<Longrightarrow> moved C fs' fs'' \<Longrightarrow> moved (B \<union> C) fs fs''"
  using meta_fields(8) [of fs' fs] by (auto simp: moved_def)

lemma write_groups_moved:
  assumes "fs_cache fs = None" and "0 < bsize fs" and "(i + k) * bsize fs \<le> length (fs_block_groups fs)"
    and "\<forall>j. i \<le> j \<longrightarrow> j < i + k \<longrightarrow> good_block fs (ucast (fs_bgd_offset fs) + of_nat j)"
  shows "\<exists>fs'. write_groups i k fs = Some fs' \<and> moved {ucast (fs_bgd_offset fs) + of_nat j | j. i \<le> j \<and> j < i + k} fs fs'"
  using assms
proof (induction k arbitrary: i fs)
  case 0
  then show ?case by (simp add: moved_def)
next
  case (Suc k)
  let ?b = "ucast (fs_bgd_offset fs) + of_nat i :: u32"
  let ?buf = "take (bsize fs) (drop (bsize fs * i) (fs_block_groups fs))"
  have g: "good_block fs ?b" using Suc.prems(4) by simp
  have "Suc i * bsize fs \<le> (i + Suc k) * bsize fs" by (intro mult_le_mono1) simp
  then have room: "bsize fs * i + bsize fs \<le> length (fs_block_groups fs)"
    using Suc.prems(3) by (simp only: mult_Suc mult.commute [of "bsize fs" i])
  let ?fs = "dev_write (?b * fs_block_size fs) ?buf fs"
  have m: "moved {?b} fs ?fs" using dev_write_moved(1) [OF Suc.prems(1) g Suc.prems(2)] .
  then have ms: "meta ?fs = meta fs" "fs_cache ?fs = None" by (simp_all add: moved_def)
  note mf = meta_fields [OF ms(1)]
  have off: "fs_bgd_offset ?fs = fs_bgd_offset fs" by (simp add: dev_write_def)
  have w: "write_block ?b ?buf fs = Some (E_SUCCESS, ?fs)"
    using write_uncached [OF Suc.prems(1), of ?b ?buf] g room by (simp add: good_block_def)
  have "(Suc i + k) * bsize ?fs \<le> length (fs_block_groups ?fs)" "0 < bsize ?fs"
    using Suc.prems(2,3) mf by simp_all
  moreover have "\<forall>j. Suc i \<le> j \<longrightarrow> j < Suc i + k \<longrightarrow> good_block ?fs (ucast (fs_bgd_offset ?fs) + of_nat j)"
    using Suc.prems(4) mf off by simp
  ultimately obtain fs' where IH: "write_groups (Suc i) k ?fs = Some fs'"
    "moved {ucast (fs_bgd_offset fs) + of_nat j | j. Suc i \<le> j \<and> j < Suc i + k} ?fs fs'"
    using Suc.IH [OF ms(2), of "Suc i"] off by auto
  have "{?b} \<union> {ucast (fs_bgd_offset fs) + of_nat j | j. Suc i \<le> j \<and> j < Suc i + k} =
      {ucast (fs_bgd_offset fs) + of_nat j | j. i \<le> j \<and> j < i + Suc k}"
    by (auto simp: le_eq_less_or_eq)
  with IH moved_trans [OF m IH(2)] w room show ?case by (auto simp: copy_out_def)
qed

section \<open>One block\<close>

definition group_blocks :: "ext2_fs \<Rightarrow> u32 set" where
  "group_blocks fs = {ucast (fs_bgd_offset fs) + of_nat j | j. j < unat (fs_bgd_block_span fs)}"

text \<open>The descriptors lie in good blocks and the structures are as large as the code takes them to be.\<close>

definition tables_ok :: "ext2_fs \<Rightarrow> bool" where
  "tables_ok fs \<longleftrightarrow> unat (fs_bgd_block_span fs) * bsize fs \<le> length (fs_block_groups fs) \<and>
     36 \<le> length (fs_superblock fs) \<and> (\<forall>b \<in> group_blocks fs. good_block fs b)"

text \<open>The super block is written to byte 1024 of the disk.\<close>

lemma allocate_block_law:
  assumes "fs_ok fs" and "fs_cache fs = None" and "tables_ok fs"
    and "find_group fs 0 (unat (fs_block_group_count fs)) = Some (Some g)"
    and "rd32 (fs_block_groups fs) (32 * g) = Some bm" and "good_block fs bm"
    and "first_clear (store fs bm) = Some k"
    and "n = of_nat k + get32 (fs_superblock fs) 32 * of_nat g" and "good_block fs n"
    and "bm \<notin> group_blocks fs" and "bm \<noteq> n" and "bm * fs_block_size fs \<noteq> 1024"
  shows "\<exists>fs'. allocate_block fs = Some (n, fs') \<and> \<not> blockbit (store fs bm) k \<and>
     (\<forall>m. blockbit (store fs' bm) m \<longleftrightarrow> m = k \<or> blockbit (store fs bm) m) \<and>
     store fs' n = replicate (bsize fs) 0 \<and>
     get16 (fs_block_groups fs) (32 * g + 12) \<noteq> 0 \<and>
     get16 (fs_block_groups fs') (32 * g + 12) = get16 (fs_block_groups fs) (32 * g + 12) - 1 \<and>
     get32 (fs_superblock fs') 12 = get32 (fs_superblock fs) 12 - 1 \<and>
     (\<forall>b. good_block fs b \<longrightarrow> b \<notin> {bm, n} \<union> group_blocks fs \<longrightarrow> b * fs_block_size fs \<noteq> 1024 \<longrightarrow>
        store fs' b = store fs b)"
proof -
  let ?buf = "store fs bm" and ?w = "fs_block_size fs" and ?gs = "fs_block_groups fs" and ?sb = "fs_superblock fs"
  have w: "0 < bsize fs" using assms(1) by (simp add: fs_ok_def)
  have nz: "bm \<noteq> 0" "n \<noteq> 0" using assms(6,9) by (auto simp: good_block_def)
  have lb: "length ?buf = bsize fs" using disk.length_law [OF assms(1,6)] .
  note fc = first_clear_free [OF assms(7)]
  have kb: "k div 8 < length ?buf" using fc(1) by simp
  have fetch: "fetch bm fs = Some (?buf, fs)"
    using nz(1) assms(2) by (simp add: fetch_def read_block_def store_uncached)
  have ls: "length (set_blockbit k ?buf) = bsize fs" using lb by (simp add: set_blockbit_def)
  let ?fs1 = "dev_write (bm * ?w) (set_blockbit k ?buf) fs"
  have w1: "write_block bm (set_blockbit k ?buf) fs = Some (E_SUCCESS, ?fs1)"
    using write_uncached [OF assms(2) nz(1) ls] .
  obtain v where v: "rd16 ?gs (32 * g + 12) = Some v" "v \<noteq> 0"
    using find_group_free [OF assms(4)] by auto
  then have gl: "32 * g + 14 \<le> length ?gs" "v = get16 ?gs (32 * g + 12)" by (auto simp: rd16_def split: if_splits)
  let ?bgs = "put16 (32 * g + 12) (v - 1) ?gs"
  have bgs: "wr16 (32 * g + 12) (v - 1) ?gs = Some ?bgs" using gl by (simp add: wr16_def)
  let ?fs2 = "?fs1\<lparr>fs_block_groups := ?bgs\<rparr>"
  have f2: "fs_cache ?fs2 = None" "fs_block_size ?fs2 = ?w" "fs_superblock ?fs2 = ?sb" "fs_bgd_offset ?fs2 = fs_bgd_offset fs"
    "fs_bgd_block_span ?fs2 = fs_bgd_block_span fs" "fs_block_groups ?fs2 = ?bgs"
    using assms(2) by (simp_all add: dev_write_def)
  have g2: "good_block ?fs2 = good_block fs" by (auto simp: good_block_def on_disk_def fun_eq_iff f2)
  have room: "(0 + unat (fs_bgd_block_span fs)) * bsize ?fs2 \<le> length (fs_block_groups ?fs2)"
    "0 < bsize ?fs2"
    "\<forall>j. 0 \<le> j \<longrightarrow> j < 0 + unat (fs_bgd_block_span fs) \<longrightarrow> good_block ?fs2 (ucast (fs_bgd_offset ?fs2) + of_nat j)"
    using assms(3) w unfolding g2 f2 by (auto simp: tables_ok_def group_blocks_def)
  from write_groups_moved [OF f2(1) room(2) room(1) room(3)] obtain fs3 where
    w3: "write_groups 0 (unat (fs_bgd_block_span fs)) ?fs2 = Some fs3" "moved (group_blocks fs) ?fs2 fs3"
    unfolding f2 by (auto simp: group_blocks_def)
  have m3: "meta fs3 = meta ?fs2" "fs_cache fs3 = None" using w3(2) by (simp_all add: moved_def)
  note mf3 = meta_fields [OF m3(1)]
  have sb3: "fs_superblock fs3 = ?sb" "fs_block_groups fs3 = ?bgs" "fs_block_size fs3 = ?w"
    using mf3 by (simp_all add: dev_write_def)
  let ?sb' = "put32 12 (get32 ?sb 12 - 1) ?sb"
  let ?fs4 = "rewrite_superblock (fs3\<lparr>fs_superblock := ?sb'\<rparr>)"
  have f4: "fs_cache ?fs4 = None" "fs_block_size ?fs4 = ?w" "fs_superblock ?fs4 = ?sb'" "fs_block_groups ?fs4 = ?bgs"
    using m3(2) sb3 by (simp_all add: rewrite_superblock_def dev_write_def)
  have s4: "store ?fs4 b = store fs3 b" if "b * ?w \<noteq> 1024" for b
    using that m3(2) sb3 f4 by (simp add: store_uncached rewrite_superblock_def dev_write_def)
  have g4: "good_block ?fs4 = good_block fs" by (auto simp: good_block_def on_disk_def fun_eq_iff f4)
  let ?fs5 = "dev_write (n * ?w) (replicate (bsize fs) 0) ?fs4"
  have w5: "write_block n (replicate (bsize fs) 0) ?fs4 = Some (E_SUCCESS, ?fs5)"
    using write_uncached [OF f4(1) nz(2), of "replicate (bsize fs) 0"] f4(2) by simp
  have d5: "moved {n} ?fs4 ?fs5" "store ?fs5 n = replicate (bsize fs) 0"
    using dev_write_moved [OF f4(1), of n "replicate (bsize fs) 0"] assms(9) w unfolding g4 f4(2) by simp_all
  have res: "allocate_block fs = Some (n, ?fs5)"
    using assms(3,4,5,7,8) fetch nz(2) w1 v bgs w3(1) sb3 w5 f4
    by (simp add: allocate_block_def Let_def rd32_def wr32_def dev_write_def tables_ok_def)
  have s1: "store ?fs2 b = (if b = bm then set_blockbit k ?buf else store fs b)" if "good_block fs b" for b
  proof -
    have "store ?fs2 b = store ?fs1 b" using assms(2) by (simp add: store_uncached dev_write_def)
    then show ?thesis using dev_write_moved [OF assms(2,6) w] that by (auto simp: moved_def)
  qed
  have rest: "store ?fs5 b = (if b = bm then set_blockbit k ?buf else store fs b)"
    if "good_block fs b" "b \<noteq> n" "b \<notin> group_blocks fs" "b * ?w \<noteq> 1024" for b
    using d5(1) w3(2) s4 [OF that(4)] s1 [OF that(1)] that by (simp add: moved_def g4 g2)
  have "fs_block_groups ?fs5 = ?bgs" "fs_superblock ?fs5 = ?sb'" using f4 by (simp_all add: dev_write_def)
  moreover have "get16 ?bgs (32 * g + 12) = v - 1" "get32 ?sb' 12 = get32 ?sb 12 - 1"
    using gl assms(3) by (simp_all add: tables_ok_def)
  ultimately show ?thesis
    using res fc(2) d5(2) rest [OF assms(6,11,10,12)] blockbit_set [OF kb] v(2) gl(2) rest
    by (intro exI [of _ ?fs5]) auto
qed

end
