(* ===== verification/Task.thy ===== *)
theory Task
  imports Linked_List Tree Vfs
begin

text \<open>
  The tasks of \<^verbatim>\<open>src/src/task.h\<close> and the queues of \<^verbatim>\<open>src/src/task/process.cpp\<close>: the ready queue, the
  wait queues and the timed sleepers.  A task has two list nodes embedded in it, which are nodes of
  the object heap at the addresses \<open>tk_sched_node\<close> and \<open>tk_sleep_node\<close>.  The spin locks and the
  disabling of interrupts around these operations are not state of the model: an operation is one
  step, except \<^verbatim>\<open>sleep_on\<close>, which is two.
\<close>

section \<open>Tasks\<close>

record thread =
  th_esp :: u32
  th_ebp :: u32
  th_eip :: u32
  th_page_dir :: ptr

record image =
  im_size :: u32
  im_entry :: u32
  im_heap :: u32
  im_heap_actual :: u32
  im_stack :: u32
  im_user_stack :: u32
  im_shm_heap :: u32

record fd_table =
  fd_entries :: "ptr list"
  fd_length :: u32
  fd_capacity :: u32
  fd_refs :: u32

text \<open>The flags are \<^verbatim>\<open>uint8_t\<close> or \<^verbatim>\<open>char\<close> and hold 0 or 1; \<open>tk_functions\<close> is \<^verbatim>\<open>signals.functions\<close>; the
  value of a signed integer is its mathematical one.\<close>

record task =
  tk_pid :: int
  tk_name :: cstring
  tk_group :: int
  tk_user :: u32
  tk_mask :: int
  tk_cmdline :: ptr
  tk_syscall_regs :: ptr
  tk_image :: image
  tk_thread :: thread
  tk_tree_entry :: ptr
  tk_wd_node :: ptr
  tk_work_dirpath :: cstring
  tk_fds :: ptr
  tk_ttl_pwm_mode :: bool
  tk_ttl :: int
  tk_ttl_start :: int
  tk_ttl_fscale :: int
  tk_status :: u8
  tk_finished :: bool
  tk_started :: bool
  tk_running :: bool
  tk_functions :: "u32 list"
  tk_signal_queue :: ptr
  tk_signal_state :: thread
  tk_signal_kstack :: "u8 list option"
  tk_wait_queue :: ptr
  tk_sched_node :: ptr
  tk_sleep_node :: ptr
  tk_timed_sleep_node :: ptr
  tk_sleep_interrupted :: bool
  tk_shm_mappings :: ptr
  tk_is_tasklet :: bool

record sleeper =
  sl_end_tick :: u32
  sl_end_subtick :: u32
  sl_task :: ptr

record signal =
  sg_signum :: u32
  sg_handler :: u32
  sg_ringlevel :: u8

text \<open>The global variables and the objects the tasks point to; \<open>ts_mem\<close> is the memory the kernel
  stacks lie in.\<close>

record tasking =
  ts_heap :: heap
  ts_tree :: "ptr tree"
  ts_tasks :: "ptr \<Rightarrow> task option"
  ts_fdts :: "ptr \<Rightarrow> fd_table option"
  ts_sleepers :: "ptr \<Rightarrow> sleeper option"
  ts_signals :: "ptr \<Rightarrow> signal option"
  ts_files :: files
  ts_mem :: "u32 \<Rightarrow> u8"
  current_task :: ptr
  main_task :: ptr
  task_list :: ptr
  task_queue :: ptr
  sleep_queue :: ptr
  rets_from_sig :: ptr
  next_pid :: u16
  is_tasking :: bool
  is_tasking_initialized :: bool

definition rd_task :: "tasking \<Rightarrow> ptr \<Rightarrow> task option" where
  "rd_task K t = (if t = NULL then None else ts_tasks K t)"

definition wr_task :: "ptr \<Rightarrow> (task \<Rightarrow> task) \<Rightarrow> tasking \<Rightarrow> tasking option" where
  "wr_task t f K = do { tk \<leftarrow> rd_task K t; Some (K\<lparr>ts_tasks := (ts_tasks K)(t := Some (f tk))\<rparr>) }"

text \<open>An operation on the lists, in the larger state.\<close>

definition on_lists :: "(heap \<Rightarrow> heap option) \<Rightarrow> tasking \<Rightarrow> tasking option" where
  "on_lists f K = do { h \<leftarrow> f (ts_heap K); Some (K\<lparr>ts_heap := h\<rparr>) }"

section \<open>The ready queue\<close>

definition task_is_ready :: "ptr \<Rightarrow> tasking \<Rightarrow> bool option" where
  "task_is_ready t K = do {
     tk \<leftarrow> rd_task K t;
     nd \<leftarrow> rd_node (ts_heap K) (tk_sched_node tk);
     Some (node_owner nd \<noteq> NULL)
   }"

definition task_available :: "tasking \<Rightarrow> bool option" where
  "task_available K = do { L \<leftarrow> rd_list (ts_heap K) (task_queue K); Some (list_head L \<noteq> NULL) }"

definition fetch_next_task :: "tasking \<Rightarrow> (ptr \<times> tasking) option" where
  "fetch_next_task K = do {
     some \<leftarrow> task_available K;
     if \<not> some then Some (main_task K, K) else do {
       (n, h) \<leftarrow> list_dequeue (task_queue K) (ts_heap K);
       nd \<leftarrow> rd_node h n;
       Some (node_value nd, K\<lparr>ts_heap := h\<rparr>) }
   }"

text \<open>A task that sleeps in a queue is taken out of it; a timed sleeper's record is freed, the list
  node that held it is not.\<close>

definition make_task_ready :: "ptr \<Rightarrow> tasking \<Rightarrow> tasking option" where
  "make_task_ready t K = do {
     tk \<leftarrow> rd_task K t;
     sn \<leftarrow> rd_node (ts_heap K) (tk_sleep_node tk);
     K \<leftarrow> (if node_owner sn \<noteq> NULL then
             if node_owner sn = sleep_queue K then
               if tk_timed_sleep_node tk \<noteq> NULL then do {
                 K \<leftarrow> on_lists (list_delete (sleep_queue K) (tk_timed_sleep_node tk)) K;
                 K \<leftarrow> on_lists (wr_node (tk_sleep_node tk) (\<lambda>nd. nd\<lparr>node_owner := NULL\<rparr>)) K;
                 tn \<leftarrow> rd_node (ts_heap K) (tk_timed_sleep_node tk);
                 Some (K\<lparr>ts_sleepers := (ts_sleepers K)(node_value tn := None)\<rparr>)
               } else Some K
             else do {
               K \<leftarrow> wr_task t (\<lambda>tk. tk\<lparr>tk_sleep_interrupted := True\<rparr>) K;
               on_lists (list_delete (node_owner sn) (tk_sleep_node tk)) K }
           else Some K);
     on_lists (list_append (task_queue K) (tk_sched_node tk)) K
   }"

text \<open>The two wake-ups differ in the flag they leave in the task.\<close>

partial_function (option) wakeup_loop :: "bool \<Rightarrow> ptr \<Rightarrow> int \<Rightarrow> tasking \<Rightarrow> (int \<times> tasking) option" where
  "wakeup_loop interrupt q awoken K = do {
     L \<leftarrow> rd_list (ts_heap K) q;
     if list_length L = 0 then Some (awoken, K) else do {
       (n, h) \<leftarrow> list_pop q (ts_heap K);
       nd \<leftarrow> rd_node h n;
       let K = K\<lparr>ts_heap := h\<rparr>;
       tk \<leftarrow> rd_task K (node_value nd);
       K \<leftarrow> (if tk_finished tk then Some K else do {
         K \<leftarrow> (if interrupt then wr_task (node_value nd) (\<lambda>tk. tk\<lparr>tk_sleep_interrupted := True\<rparr>) K else Some K);
         make_task_ready (node_value nd) K });
       wakeup_loop interrupt q (awoken + 1) K } }"

definition wakeup_queue :: "ptr \<Rightarrow> tasking \<Rightarrow> (int \<times> tasking) option" where
  "wakeup_queue q K = wakeup_loop False q 0 K"

definition wakeup_queue_interrupted :: "ptr \<Rightarrow> tasking \<Rightarrow> (int \<times> tasking) option" where
  "wakeup_queue_interrupted q K = wakeup_loop True q 0 K"

section \<open>Timed sleepers\<close>

definition sleeper_due :: "u32 \<Rightarrow> u32 \<Rightarrow> sleeper \<Rightarrow> bool" where
  "sleeper_due seconds subseconds p \<longleftrightarrow> sl_end_tick p < seconds \<or>
     (sl_end_tick p = seconds \<and> sl_end_subtick p \<le> subseconds)"

text \<open>The lines that would make the task ready are commented out in the code.\<close>

partial_function (option) wakeup_sleepers :: "u32 \<Rightarrow> u32 \<Rightarrow> tasking \<Rightarrow> tasking option" where
  "wakeup_sleepers seconds subseconds K = do {
     L \<leftarrow> rd_list (ts_heap K) (sleep_queue K);
     if list_length L = 0 then Some K else do {
       hd \<leftarrow> rd_node (ts_heap K) (list_head L);
       if node_value hd = NULL then Some K else do {
       p \<leftarrow> ts_sleepers K (node_value hd);
       if \<not> sleeper_due seconds subseconds p then Some K else do {
         tk \<leftarrow> rd_task K (sl_task p);
         K \<leftarrow> on_lists (wr_node (tk_sleep_node tk) (\<lambda>nd. nd\<lparr>node_owner := NULL\<rparr>)) K;
         K \<leftarrow> wr_task (sl_task p) (\<lambda>tk. tk\<lparr>tk_timed_sleep_node := NULL\<rparr>) K;
         (n, h) \<leftarrow> list_dequeue (sleep_queue K) (ts_heap K);
         wakeup_sleepers seconds subseconds (K\<lparr>ts_heap := free_node n h,
           ts_sleepers := (ts_sleepers K)(node_value hd := None)\<rparr>) } } } }"

text \<open>The place for a sleeper: the last node that does not end later; \<^verbatim>\<open>before\<close> is not initialised.\<close>

partial_function (option) sleeper_place :: "tasking \<Rightarrow> u32 \<Rightarrow> u32 \<Rightarrow> ptr \<Rightarrow> ptr \<Rightarrow> ptr option" where
  "sleeper_place K seconds subseconds p before = (if p = NULL then Some before else do {
     nd \<leftarrow> rd_node (ts_heap K) p;
     c \<leftarrow> (if node_value nd = NULL then None else ts_sleepers K (node_value nd));
     if sl_end_tick c > seconds \<or> (sl_end_tick c = seconds \<and> sl_end_subtick c > subseconds) then Some before
     else sleeper_place K seconds subseconds (node_next nd) p })"

text \<open>\<open>junk\<close> is what \<^verbatim>\<open>before\<close> holds at first, \<open>pr\<close> and \<open>n\<close> the sleeper and the list node that are
  allocated.\<close>

definition sleep_until :: "ptr \<Rightarrow> ptr \<Rightarrow> ptr \<Rightarrow> ptr \<Rightarrow> u32 \<Rightarrow> u32 \<Rightarrow> tasking \<Rightarrow> tasking option" where
  "sleep_until junk pr n t seconds subseconds K = do {
     ck \<leftarrow> rd_task K (current_task K);
     cn \<leftarrow> rd_node (ts_heap K) (tk_sleep_node ck);
     if node_owner cn \<noteq> NULL then Some K else do {
       tk \<leftarrow> rd_task K t;
       K \<leftarrow> on_lists (wr_node (tk_sleep_node tk) (\<lambda>nd. nd\<lparr>node_owner := sleep_queue K\<rparr>)) K;
       L \<leftarrow> rd_list (ts_heap K) (sleep_queue K);
       before \<leftarrow> sleeper_place K seconds subseconds (list_head L) junk;
       let K = K\<lparr>ts_sleepers := (ts_sleepers K)(pr := Some
         \<lparr>sl_end_tick = seconds, sl_end_subtick = subseconds, sl_task = t\<rparr>)\<rparr>;
       (m, h) \<leftarrow> list_insert_after n (sleep_queue K) before pr (ts_heap K);
       wr_task t (\<lambda>tk. tk\<lparr>tk_timed_sleep_node := m\<rparr>) (K\<lparr>ts_heap := h\<rparr>) }
   }"

end
