(* ===== verification/Process.thy ===== *)
theory Process
  imports Task
begin

text \<open>
  The rest of \<^verbatim>\<open>src/src/task/process.cpp\<close>: file descriptors, the tree of tasks, process numbers, waiting
  for children, the release of a task and the creation of tasks.  The addresses the allocator
  returns are arguments.
\<close>

section \<open>File descriptors\<close>

definition rd_fds :: "tasking \<Rightarrow> ptr \<Rightarrow> fd_table option" where
  "rd_fds K t = do { tk \<leftarrow> rd_task K t; if tk_fds tk = NULL then None else ts_fdts K (tk_fds tk) }"

definition wr_fds :: "ptr \<Rightarrow> fd_table \<Rightarrow> tasking \<Rightarrow> tasking option" where
  "wr_fds t fd K = do { tk \<leftarrow> rd_task K t; Some (K\<lparr>ts_fdts := (ts_fdts K)(tk_fds tk := Some fd)\<rparr>) }"

text \<open>The slots of the array from \<open>i\<close> on that are in use, up to \<open>n\<close>; reading past the array has
  no result.\<close>

function find_gap :: "ptr list \<Rightarrow> nat \<Rightarrow> nat \<Rightarrow> nat option option" where
  "find_gap es i n = (if n \<le> i then Some None
     else if length es \<le> i then None
     else if es ! i = NULL then Some (Some i)
     else find_gap es (Suc i) n)"
  by pat_completeness auto
termination by (relation "measure (\<lambda>(es, i, n). n - i)") auto

declare find_gap.simps [simp del]

text \<open>\<open>junk\<close> is the content of the memory that \<^verbatim>\<open>realloc\<close> adds.\<close>

definition append_fd :: "ptr \<Rightarrow> ptr list \<Rightarrow> fd_table \<Rightarrow> (u32 \<times> fd_table) option" where
  "append_fd node junk fd = do {
     gap \<leftarrow> find_gap (fd_entries fd) 0 (unat (fd_length fd));
     case gap of
       Some i \<Rightarrow> Some (of_nat i, fd\<lparr>fd_entries := (fd_entries fd)[i := node]\<rparr>)
     | None \<Rightarrow>
         let fd = (if fd_length fd = fd_capacity fd
           then fd\<lparr>fd_capacity := fd_capacity fd * 2,
                   fd_entries := take (unat (fd_capacity fd * 2)) (fd_entries fd @ junk)\<rparr> else fd) in
         if length (fd_entries fd) \<le> unat (fd_length fd) then None
         else Some (fd_length fd, fd\<lparr>fd_entries := (fd_entries fd)[unat (fd_length fd) := node],
                                    fd_length := fd_length fd + 1\<rparr>)
   }"

definition task_append_fd :: "ptr \<Rightarrow> ptr \<Rightarrow> ptr list \<Rightarrow> tasking \<Rightarrow> (u32 \<times> tasking) option" where
  "task_append_fd t node junk K = do {
     fd \<leftarrow> rd_fds K t;
     (n, fd) \<leftarrow> append_fd node junk fd;
     K \<leftarrow> wr_fds t fd K;
     Some (n, K)
   }"

text \<open>The bound is \<^verbatim>\<open>>\<close>, so the slot behind the last one passes; outside the array there is no
  result.\<close>

definition process_move_fd :: "ptr \<Rightarrow> u32 \<Rightarrow> u32 \<Rightarrow> tasking \<Rightarrow> (u32 \<times> tasking) option" where
  "process_move_fd t src dest K = do {
     fd \<leftarrow> rd_fds K t;
     if src > fd_length fd \<or> dest > fd_length fd then Some (- 1, K)
     else let es = fd_entries fd; s = unat src; d = unat dest in
       if length es \<le> s \<or> length es \<le> d then None
       else if es ! d = es ! s then Some (dest, K)
       else do {
         (_, _, F) \<leftarrow> fclose (es ! d) (ts_files K);
         (_, F) \<leftarrow> fopen (es ! s) 0 F;
         K \<leftarrow> wr_fds t (fd\<lparr>fd_entries := es[d := es ! s]\<rparr>) (K\<lparr>ts_files := F\<rparr>);
         Some (dest, K) }
   }"

section \<open>The tree of tasks\<close>

text \<open>The comparator reads the task a tree node stands for.\<close>

definition task_compare :: "tasking \<Rightarrow> int \<Rightarrow> ptr \<Rightarrow> bool" where
  "task_compare K pid t = (case rd_task K t of None \<Rightarrow> False | Some tk \<Rightarrow> tk_pid tk = pid)"

definition task_from_pid :: "int \<Rightarrow> tasking \<Rightarrow> ptr option" where
  "task_from_pid pid K = (if pid < 0 then Some NULL else do {
     e \<leftarrow> tree_find (task_compare K pid) (ts_tree K);
     if e = NULL then Some NULL else do { nd \<leftarrow> rd_tnode (ts_tree K) e; Some (tn_value nd) } })"

definition task_get_parent :: "ptr \<Rightarrow> tasking \<Rightarrow> ptr option" where
  "task_get_parent t K = do {
     tk \<leftarrow> rd_task K t;
     nd \<leftarrow> rd_tnode (ts_tree K) (tk_tree_entry tk);
     if tn_parent nd = NULL then Some NULL else do {
       pd \<leftarrow> rd_tnode (ts_tree K) (tn_parent nd);
       Some (tn_value pd) }
   }"

text \<open>\<open>e\<close> is the new tree node, \<open>n\<close> the new node of the task list.\<close>

definition task_addtotree :: "ptr \<Rightarrow> ptr \<Rightarrow> ptr \<Rightarrow> ptr \<Rightarrow> tasking \<Rightarrow> tasking option" where
  "task_addtotree e n parent t K = do {
     let T = tree_node_create e t (ts_tree K);
     K \<leftarrow> wr_task t (\<lambda>tk. tk\<lparr>tk_tree_entry := e\<rparr>) K;
     pk \<leftarrow> rd_task K parent;
     T \<leftarrow> tree_node_insert_child_node (tk_tree_entry pk) e T;
     (_, h) \<leftarrow> list_insert n (task_list K) t (ts_heap K);
     Some (K\<lparr>ts_tree := T, ts_heap := h\<rparr>)
   }"

text \<open>\<^verbatim>\<open>free(task)\<close>: the two list nodes inside the task go with it.\<close>

definition free_task :: "ptr \<Rightarrow> tasking \<Rightarrow> tasking option" where
  "free_task t K = do {
     tk \<leftarrow> rd_task K t;
     Some (K\<lparr>ts_tasks := (ts_tasks K)(t := None),
             ts_heap := free_node (tk_sched_node tk) (free_node (tk_sleep_node tk) (ts_heap K))\<rparr>)
   }"

definition task_removefromtree :: "ptr \<Rightarrow> tasking \<Rightarrow> tasking option" where
  "task_removefromtree t K = do {
     tk \<leftarrow> rd_task K t;
     let e = tk_tree_entry tk;
     if e = NULL then Some K
     else if tree_root (ts_tree K) = e then Some K
     else do {
       T \<leftarrow> tree_remove_reparent_root e (ts_tree K);
       n \<leftarrow> list_find (task_list K) t (ts_heap K);
       h \<leftarrow> list_delete (task_list K) n (ts_heap K);
       free_task t (K\<lparr>ts_tree := T, ts_heap := h\<rparr>) }
   }"

definition task_reap :: "ptr \<Rightarrow> tasking \<Rightarrow> tasking option" where
  "task_reap t K = task_removefromtree t K"

text \<open>\<^verbatim>\<open>next_pid\<close> is a \<^verbatim>\<open>uint16_t\<close>.\<close>

definition get_next_pid :: "bool \<Rightarrow> tasking \<Rightarrow> int \<times> tasking" where
  "get_next_pid restart K = (let p = if restart then 1 else next_pid K in (uint p, K\<lparr>next_pid := p + 1\<rparr>))"

section \<open>The release of a task\<close>

fun fclose_all :: "ptr list \<Rightarrow> files \<Rightarrow> files option" where
  "fclose_all [] F = Some F"
| "fclose_all (p # ps) F = do { (_, _, F) \<leftarrow> fclose p F; fclose_all ps F }"

definition drop_list :: "ptr \<Rightarrow> heap \<Rightarrow> heap option" where
  "drop_list l h = do { h \<leftarrow> list_free l h; Some (free_list_obj l h) }"

text \<open>The nodes of \<^verbatim>\<open>shm_mappings\<close> are not freed.  The page directory, the strings and the stacks
  that are released are not objects of the model.\<close>

definition task_free :: "ptr \<Rightarrow> int \<Rightarrow> tasking \<Rightarrow> tasking option" where
  "task_free t retval K = do {
     K \<leftarrow> wr_task t (\<lambda>tk. tk\<lparr>tk_status := word_of_int retval, tk_finished := True\<rparr>) K;
     tk \<leftarrow> rd_task K t;
     K \<leftarrow> on_lists (drop_list (tk_wait_queue tk)) K;
     K \<leftarrow> on_lists (drop_list (tk_signal_queue tk)) K;
     K \<leftarrow> on_lists (\<lambda>h. Some (free_list_obj (tk_shm_mappings tk) h)) K;
     fd \<leftarrow> rd_fds K t;
     let fd = fd\<lparr>fd_refs := fd_refs fd - 1\<rparr>;
     if fd_refs fd = 0 then
       if length (fd_entries fd) < unat (fd_length fd) then None else do {
         F \<leftarrow> fclose_all (take (unat (fd_length fd)) (fd_entries fd)) (ts_files K);
         Some (K\<lparr>ts_files := F, ts_fdts := (ts_fdts K)(tk_fds tk := None)\<rparr>) }
     else wr_fds t fd K
   }"

section \<open>Waiting for children\<close>

definition wait_candidate :: "task \<Rightarrow> int \<Rightarrow> task \<Rightarrow> bool" where
  "wait_candidate parent pid tk =
     (if pid < - 1 then tk_group tk = - pid \<or> tk_pid tk = - pid
      else if pid = 0 then tk_group tk = tk_pid parent
      else if pid > 0 then tk_pid tk = pid
      else True)"

text \<open>The scan of the children: whether one matches, and the first that matches and has finished.\<close>

fun scan_children :: "tasking \<Rightarrow> task \<Rightarrow> int \<Rightarrow> ptr list \<Rightarrow> bool \<Rightarrow> (bool \<times> ptr) option" where
  "scan_children K parent pid [] has = Some (has, NULL)"
| "scan_children K parent pid (e # es) has =
     (if e = NULL then scan_children K parent pid es has else do {
       nd \<leftarrow> rd_tnode (ts_tree K) e;
       if tn_value nd = NULL then scan_children K parent pid es has else do {
       tk \<leftarrow> rd_task K (tn_value nd);
       if wait_candidate parent pid tk
       then if tk_finished tk then Some (True, tn_value nd) else scan_children K parent pid es True
       else scan_children K parent pid es has } })"

text \<open>The pointer to the status is not null.\<close>

datatype wait_result = No_child | Reaped int u8 | Not_yet | Sleep_on ptr

text \<open>One turn of the loop of \<^verbatim>\<open>waitpid\<close>; \<open>Sleep_on q\<close>: it sleeps in the queue and, when the sleep
  was not interrupted, takes another turn.\<close>

definition waitpid_turn :: "int \<Rightarrow> u32 \<Rightarrow> tasking \<Rightarrow> (wait_result \<times> tasking) option" where
  "waitpid_turn pid options K = do {
     ck \<leftarrow> rd_task K (current_task K);
     t \<leftarrow> (if tk_group ck \<noteq> 0 then task_from_pid (tk_group ck) K else Some (current_task K));
     tk \<leftarrow> rd_task K t;
     nd \<leftarrow> rd_tnode (ts_tree K) (tk_tree_entry tk);
     (has, candidate) \<leftarrow> scan_children K tk pid (tn_children nd) False;
     if \<not> has then Some (No_child, K)
     else if candidate \<noteq> NULL then do {
       k \<leftarrow> rd_task K candidate;
       K \<leftarrow> task_reap candidate K;
       Some (Reaped (tk_pid k) (tk_status k), K) }
     else if options AND 1 \<noteq> 0 then Some (Not_yet, K)
     else Some (Sleep_on (tk_wait_queue tk), K)
   }"

section \<open>The creation of tasks\<close>

text \<open>What the allocator returns during the creation of a task: the task, whose two nodes lie at
  \<open>fr_sched\<close> and \<open>fr_sleep\<close>, the descriptor table and the content of its array, the three lists, the
  tree node, the node of the task list, the registers and the top of the kernel stack.\<close>

record fresh =
  fr_task :: ptr
  fr_sched :: ptr
  fr_sleep :: ptr
  fr_fds :: ptr
  fr_entries :: "ptr list"
  fr_wait :: ptr
  fr_shm :: ptr
  fr_signals :: ptr
  fr_tree :: ptr
  fr_node :: ptr
  fr_regs :: ptr
  fr_stack :: u32

definition zero_thread :: thread where
  "zero_thread = \<lparr>th_esp = 0, th_ebp = 0, th_eip = 0, th_page_dir = NULL\<rparr>"

definition zero_image :: image where
  "zero_image = \<lparr>im_size = 0, im_entry = 0, im_heap = 0, im_heap_actual = 0, im_stack = 0,
     im_user_stack = 0, im_shm_heap = 0\<rparr>"

definition zero_node :: node where
  "zero_node = \<lparr>node_next = NULL, node_prev = NULL, node_value = NULL, node_owner = NULL\<rparr>"

abbreviation NUMSIGNALS :: nat where "NUMSIGNALS \<equiv> 38"
abbreviation SHM_START :: u32 where "SHM_START \<equiv> 0xB000000"
abbreviation MAX_TTL :: int where "MAX_TTL \<equiv> 2000"

text \<open>\<^verbatim>\<open>new task_t\<close> followed by \<^verbatim>\<open>memset\<close>.\<close>

definition zero_task :: "fresh \<Rightarrow> task" where
  "zero_task f = \<lparr>tk_pid = 0, tk_name = [], tk_group = 0, tk_user = 0, tk_mask = 0, tk_cmdline = NULL,
     tk_syscall_regs = NULL, tk_image = zero_image, tk_thread = zero_thread, tk_tree_entry = NULL,
     tk_wd_node = NULL, tk_work_dirpath = [], tk_fds = NULL, tk_ttl_pwm_mode = False, tk_ttl = 0,
     tk_ttl_start = 0, tk_ttl_fscale = 0, tk_status = 0, tk_finished = False, tk_started = False,
     tk_running = False, tk_functions = replicate (NUMSIGNALS + 1) 0, tk_signal_queue = NULL,
     tk_signal_state = zero_thread, tk_signal_kstack = None, tk_wait_queue = NULL,
     tk_sched_node = fr_sched f, tk_sleep_node = fr_sleep f, tk_timed_sleep_node = NULL,
     tk_sleep_interrupted = False, tk_shm_mappings = NULL, tk_is_tasklet = False\<rparr>"

text \<open>The three lists and the two nodes; \<open>sleep_value\<close> is the value of the sleep node, which only
  \<^verbatim>\<open>spawn_proc\<close> sets.\<close>

definition task_lists :: "fresh \<Rightarrow> ptr \<Rightarrow> heap \<Rightarrow> heap" where
  "task_lists f sleep_value h = (let
     h = list_create (fr_signals f) (list_create (fr_shm f) (list_create (fr_wait f) h))
   in h\<lparr>nodes := (nodes h)(fr_sched f := Some (zero_node\<lparr>node_value := fr_task f\<rparr>),
        fr_sleep f := Some (zero_node\<lparr>node_value := sleep_value\<rparr>))\<rparr>)"

definition spawn_rootproc :: "fresh \<Rightarrow> u32 \<Rightarrow> ptr \<Rightarrow> ptr \<Rightarrow> tasking \<Rightarrow> (ptr \<times> tasking) option" where
  "spawn_rootproc f init_esp dir root_node K = do {
     let T = tree_set_root (fr_tree f) (fr_task f) (ts_tree K);
     (_, h) \<leftarrow> list_insert (fr_node f) (task_list K) (fr_task f) (ts_heap K);
     let (pid, K) = get_next_pid True (K\<lparr>ts_tree := T, ts_heap := h\<rparr>);
     (wd, F) \<leftarrow> fs_clone root_node (ts_files K);
     let tk = (zero_task f)\<lparr>tk_tree_entry := fr_tree f, tk_pid := pid,
       tk_name := [107, 105, 110, 105, 116], tk_mask := 18, tk_fds := fr_fds f, tk_wd_node := wd, tk_work_dirpath := [47],
       tk_image := zero_image\<lparr>im_stack := init_esp + 1, im_shm_heap := SHM_START\<rparr>,
       tk_started := True, tk_running := True, tk_wait_queue := fr_wait f, tk_shm_mappings := fr_shm f,
       tk_signal_queue := fr_signals f, tk_ttl_fscale := MAX_TTL, tk_ttl_pwm_mode := True,
       tk_thread := zero_thread\<lparr>th_page_dir := dir\<rparr>\<rparr>;
     Some (fr_task f, K\<lparr>ts_files := F, ts_heap := task_lists f NULL (ts_heap K),
       ts_fdts := (ts_fdts K)(fr_fds f := Some \<lparr>fd_entries = take 4 (fr_entries f), fd_length = 0,
         fd_capacity = 4, fd_refs = 1\<rparr>),
       ts_tasks := (ts_tasks K)(fr_task f := Some tk)\<rparr>)
   }"

fun clone_all :: "ptr list \<Rightarrow> files \<Rightarrow> (ptr list \<times> files) option" where
  "clone_all [] F = Some ([], F)"
| "clone_all (p # ps) F = do {
     (q, F) \<leftarrow> fs_clone p F;
     (qs, F) \<leftarrow> clone_all ps F;
     Some (q # qs, F)
   }"

text \<open>The copy of the descriptor table: the slots in use are cloned, the others are not set.\<close>

definition clone_fds :: "ptr list \<Rightarrow> fd_table \<Rightarrow> files \<Rightarrow> (fd_table \<times> files) option" where
  "clone_fds junk fd F = (let n = unat (fd_length fd) in
     if length (fd_entries fd) < n then None else do {
       (es, F) \<leftarrow> clone_all (take n (fd_entries fd)) F;
       Some (\<lparr>fd_entries = es @ drop n (take (unat (fd_capacity fd)) junk), fd_length = fd_length fd,
         fd_capacity = fd_capacity fd, fd_refs = 1\<rparr>, F) })"

definition spawn_proc :: "fresh \<Rightarrow> ptr \<Rightarrow> bool \<Rightarrow> ptr \<Rightarrow> tasking \<Rightarrow> (ptr \<times> tasking) option" where
  "spawn_proc f parent addtotree pagedir K = (if \<not> is_tasking_initialized K then Some (NULL, K) else do {
     let (pid, K) = get_next_pid False K;
     pk \<leftarrow> rd_task K parent;
     pfd \<leftarrow> rd_fds K parent;
     (fd, F) \<leftarrow> clone_fds (fr_entries f) pfd (ts_files K);
     (wd, F) \<leftarrow> fs_clone (tk_wd_node pk) F;
     let tk = (zero_task f)\<lparr>tk_syscall_regs := fr_regs f, tk_pid := pid, tk_group := tk_group pk,
       tk_name := tk_name pk, tk_cmdline := tk_cmdline pk, tk_user := tk_user pk, tk_mask := tk_mask pk,
       tk_ttl_fscale := MAX_TTL, tk_ttl_pwm_mode := True, tk_thread := zero_thread\<lparr>th_page_dir := pagedir\<rparr>,
       tk_image := (tk_image pk)\<lparr>im_stack := fr_stack f, im_shm_heap := SHM_START\<rparr>,
       tk_fds := fr_fds f, tk_wd_node := wd, tk_work_dirpath := tk_work_dirpath pk,
       tk_wait_queue := fr_wait f, tk_shm_mappings := fr_shm f, tk_signal_queue := fr_signals f\<rparr>;
     let K = K\<lparr>ts_files := F, ts_heap := task_lists f (fr_task f) (ts_heap K),
       ts_fdts := (ts_fdts K)(fr_fds f := Some fd), ts_tasks := (ts_tasks K)(fr_task f := Some tk)\<rparr>;
     K \<leftarrow> (if addtotree then task_addtotree (fr_tree f) (fr_node f) parent (fr_task f) K else Some K);
     Some (fr_task f, K) })"

definition spawn_childproc :: "fresh \<Rightarrow> ptr \<Rightarrow> tasking \<Rightarrow> (ptr \<times> tasking) option" where
  "spawn_childproc f parent K = spawn_proc f parent True NULL K"

text \<open>\<^verbatim>\<open>initialize_process_tree\<close>, with the heap of tree nodes it starts from.\<close>

definition initialize_process_tree :: "ptr \<Rightarrow> ptr \<Rightarrow> ptr \<Rightarrow> (ptr \<Rightarrow> ptr tnode option) \<Rightarrow> tasking \<Rightarrow> tasking" where
  "initialize_process_tree li qu sq th K = K\<lparr>ts_tree := tree_create th, task_list := li, task_queue := qu,
     sleep_queue := sq, ts_heap := list_create sq (list_create qu (list_create li (ts_heap K)))\<rparr>"

end
