(* ===== verification/Scheduler.thy ===== *)
theory Scheduler
  imports Process
begin

text \<open>
  Task switching, \<^verbatim>\<open>src/src/task/task.cpp\<close>, with the part of \<^verbatim>\<open>process.cpp\<close> that switches:
  the time-to-live throttle, the choice of the next task, the end of a task and \<^verbatim>\<open>sleep_on\<close>.
  \<^verbatim>\<open>switch_task\<close> is two functions here: the part before the jump, in the task that gives the processor
  up, and the part a resumed task executes when \<^verbatim>\<open>read_eip\<close> returns 0x10000, in the theory of
  signals.  The state of the processor (page directory, FPU, TSS) is not part of the model.
\<close>

section \<open>The throttle\<close>

text \<open>The first component: the task may not live.\<close>

definition task_ttl_canlive :: "task \<Rightarrow> bool \<times> task" where
  "task_ttl_canlive tk = (if tk_pid tk \<noteq> 0 then
       if tk_ttl_pwm_mode tk then
         let deny = tk_ttl tk < tk_ttl_start tk; ttl = tk_ttl tk + 1 in
           if deny then (True, tk\<lparr>tk_ttl := ttl\<rparr>)
           else (False, tk\<lparr>tk_ttl := (if ttl \<ge> tk_ttl_fscale tk then 0 else ttl)\<rparr>)
       else if tk_ttl tk < tk_ttl_fscale tk then (True, tk\<lparr>tk_ttl := tk_ttl tk + 1\<rparr>)
       else (False, tk\<lparr>tk_ttl := tk_ttl_start tk\<rparr>)
     else (False, tk))"

text \<open>Arithmetic on \<^verbatim>\<open>int\<close>: an overflow has no result; division truncates towards 0.\<close>

definition int32 :: "int \<Rightarrow> int option" where
  "int32 x = (if - (2 ^ 31) \<le> x \<and> x < 2 ^ 31 then Some x else None)"

definition percent :: "int \<Rightarrow> int \<Rightarrow> int option" where
  "percent duty fscale = do {
     p \<leftarrow> int32 (duty * fscale);
     Some (if p < 0 then - ((- p) div 100) else p div 100)
   }"

definition set_ttl :: "int \<Rightarrow> task \<Rightarrow> task option" where
  "set_ttl duty tk = do {
     p \<leftarrow> percent duty (tk_ttl_fscale tk);
     if tk_ttl_pwm_mode tk then do {
       s \<leftarrow> int32 (tk_ttl_fscale tk - p);
       Some (tk\<lparr>tk_ttl_start := s, tk_ttl := 0\<rparr>) }
     else Some (tk\<lparr>tk_ttl_start := p, tk_ttl := p\<rparr>)
   }"

definition task_set_ttl :: "ptr \<Rightarrow> int \<Rightarrow> tasking \<Rightarrow> tasking option" where
  "task_set_ttl t duty K = (if t = NULL then Some K else do {
     tk \<leftarrow> rd_task K t;
     tk \<leftarrow> set_ttl duty tk;
     wr_task t (\<lambda>_. tk) K })"

definition task_set_ttl_pid :: "int \<Rightarrow> int \<Rightarrow> tasking \<Rightarrow> tasking option" where
  "task_set_ttl_pid pid duty K = do { t \<leftarrow> task_from_pid pid K; task_set_ttl t duty K }"

definition task_set_ttl_fscale :: "ptr \<Rightarrow> int \<Rightarrow> tasking \<Rightarrow> tasking option" where
  "task_set_ttl_fscale t fscale K = (if t = NULL then Some K else do {
     K \<leftarrow> wr_task t (\<lambda>tk. tk\<lparr>tk_ttl_fscale := (if fscale \<le> 0 then MAX_TTL
            else if fscale \<ge> MAX_TTL then MAX_TTL else fscale)\<rparr>) K;
     task_set_ttl t 100 K })"

definition task_set_ttl_fscale_pid :: "int \<Rightarrow> int \<Rightarrow> tasking \<Rightarrow> tasking option" where
  "task_set_ttl_fscale_pid pid fscale K = do { t \<leftarrow> task_from_pid pid K; task_set_ttl_fscale t fscale K }"

definition task_set_ttl_mode :: "ptr \<Rightarrow> bool \<Rightarrow> tasking \<Rightarrow> tasking option" where
  "task_set_ttl_mode t pwm K = (if t = NULL then Some K else wr_task t (\<lambda>tk.
     if pwm then tk\<lparr>tk_ttl_pwm_mode := True, tk_ttl_start := 0, tk_ttl := 0\<rparr>
     else tk\<lparr>tk_ttl_pwm_mode := False, tk_ttl_start := tk_ttl_fscale tk, tk_ttl := tk_ttl_fscale tk\<rparr>) K)"

definition task_set_ttl_mode_pid :: "int \<Rightarrow> bool \<Rightarrow> tasking \<Rightarrow> tasking option" where
  "task_set_ttl_mode_pid pid pwm K = do { t \<leftarrow> task_from_pid pid K; task_set_ttl_mode t pwm K }"

definition tasking_enable :: "bool \<Rightarrow> tasking \<Rightarrow> tasking" where
  "tasking_enable enable K = K\<lparr>is_tasking := enable\<rparr>"

section \<open>The switch\<close>

text \<open>The next task: one the throttle refuses has left the queue and is passed over.\<close>

partial_function (option) pick_task :: "tasking \<Rightarrow> (ptr \<times> tasking) option" where
  "pick_task K = do {
     (t, K) \<leftarrow> fetch_next_task K;
     if t = NULL then Some (NULL, K) else do {
       tk \<leftarrow> rd_task K t;
       let r = task_ttl_canlive tk;
       K \<leftarrow> wr_task t (\<lambda>_. snd r) K;
       if fst r then pick_task K else Some (t, K) }
   }"

definition TASK_STACK_SIZE :: nat where "TASK_STACK_SIZE = 8192"

definition kernel_stack :: "task \<Rightarrow> (u32 \<Rightarrow> u8) \<Rightarrow> u8 list" where
  "kernel_stack tk mem = map (\<lambda>i. mem (im_stack (tk_image tk) - of_nat TASK_STACK_SIZE + of_nat i)) [0..<TASK_STACK_SIZE]"

text \<open>What is done with the task that is switched to, before the jump.\<close>

definition enter_task :: "ptr \<Rightarrow> tasking \<Rightarrow> tasking option" where
  "enter_task t K = do {
     tk \<leftarrow> rd_task K t;
     K \<leftarrow> (if tk_started tk then
             if tk_signal_kstack tk = None then do {
               Q \<leftarrow> rd_list (ts_heap K) (tk_signal_queue tk);
               if list_length Q > 0 then wr_task t (\<lambda>tk. tk\<lparr>tk_signal_kstack := Some (kernel_stack tk (ts_mem K)),
                 tk_signal_state := (tk_signal_state tk)\<lparr>th_esp := th_esp (tk_thread tk),
                   th_eip := th_eip (tk_thread tk), th_ebp := th_ebp (tk_thread tk)\<rparr>\<rparr>) K
               else Some K }
             else Some K
           else wr_task t (\<lambda>tk. tk\<lparr>tk_started := True\<rparr>) K);
     wr_task t (\<lambda>tk. tk\<lparr>tk_running := True\<rparr>) K
   }"

text \<open>The registers \<open>(eip, esp, ebp)\<close> are those saved in the task that is left.\<close>

definition switch_task :: "u32 \<times> u32 \<times> u32 \<Rightarrow> u8 \<Rightarrow> tasking \<Rightarrow> tasking option" where
  "switch_task regs new_state K = (if \<not> is_tasking K \<or> current_task K = NULL then Some K else do {
     let c = current_task K;
     K \<leftarrow> wr_task c (\<lambda>tk. tk\<lparr>tk_thread := (tk_thread tk)\<lparr>th_eip := fst regs, th_esp := fst (snd regs),
            th_ebp := snd (snd regs)\<rparr>, tk_running := False, tk_status := new_state\<rparr>) K;
     K \<leftarrow> (if new_state \<noteq> 0 then make_task_ready c K else Some K);
     (t, K) \<leftarrow> pick_task K;
     if t = NULL then Some K else enter_task t (K\<lparr>current_task := t\<rparr>) })"

abbreviation TASKST_READY :: u8 where "TASKST_READY \<equiv> 1"

text \<open>The timer interrupt.\<close>

definition pit_switch_task :: "u32 \<times> u32 \<times> u32 \<Rightarrow> u32 \<Rightarrow> u32 \<Rightarrow> tasking \<Rightarrow> tasking option" where
  "pit_switch_task regs ticks subticks K = do {
     K \<leftarrow> wakeup_sleepers ticks subticks K;
     switch_task regs TASKST_READY K
   }"

section \<open>Sleeping in a queue\<close>

text \<open>\<^verbatim>\<open>sleep_on\<close> up to its last \<^verbatim>\<open>switch_task(0)\<close>, which is \<open>switch_task regs 0\<close>; the result says whether
  the task slept already, when only the switch remains and \<^verbatim>\<open>sleep_on\<close> returns 0.\<close>

definition sleep_on_enter :: "ptr \<Rightarrow> tasking \<Rightarrow> (bool \<times> tasking) option" where
  "sleep_on_enter q K = do {
     tk \<leftarrow> rd_task K (current_task K);
     sn \<leftarrow> rd_node (ts_heap K) (tk_sleep_node tk);
     if node_owner sn \<noteq> NULL then Some (True, K) else do {
       K \<leftarrow> wr_task (current_task K) (\<lambda>tk. tk\<lparr>tk_sleep_interrupted := False\<rparr>) K;
       K \<leftarrow> on_lists (list_append q (tk_sleep_node tk)) K;
       Some (False, K) }
   }"

text \<open>The result of \<^verbatim>\<open>sleep_on\<close> once the task runs again.\<close>

definition sleep_on_leave :: "bool \<Rightarrow> tasking \<Rightarrow> int option" where
  "sleep_on_leave slept K = (if slept then Some 0 else do {
     tk \<leftarrow> rd_task K (current_task K);
     Some (if tk_sleep_interrupted tk then 1 else 0) })"

section \<open>The end of a task\<close>

text \<open>A task that has returned stays in an endless loop after \<^verbatim>\<open>task_exit\<close> and is switched like any
  other.\<close>

definition task_exit :: "int \<Rightarrow> tasking \<Rightarrow> tasking option" where
  "task_exit retval K = do {
     tk \<leftarrow> rd_task K (current_task K);
     if tk_pid tk = 0 then Some K else do {
       K \<leftarrow> task_free (current_task K) retval K;
       p \<leftarrow> task_get_parent (current_task K) K;
       if p = NULL then Some K else do {
         pk \<leftarrow> rd_task K p;
         (_, K) \<leftarrow> wakeup_queue (tk_wait_queue pk) K;
         Some K } }
   }"

definition task_return_grave :: "int \<Rightarrow> tasking \<Rightarrow> tasking option" where
  "task_return_grave retval K = task_exit retval K"

definition kexit :: "int \<Rightarrow> tasking \<Rightarrow> tasking option" where
  "kexit retval K = task_return_grave retval K"

text \<open>\<^verbatim>\<open>tasking_install\<close>; the first descriptor of the first task is a slot of its table, although the
  length of the table is 0.\<close>

definition tasking_install :: "ptr \<Rightarrow> ptr \<Rightarrow> ptr \<Rightarrow> (ptr \<Rightarrow> ptr tnode option) \<Rightarrow> fresh \<Rightarrow> u32 \<Rightarrow> ptr \<Rightarrow> ptr \<Rightarrow> ptr \<Rightarrow>
    tasking \<Rightarrow> tasking option" where
  "tasking_install li qu sq th f init_esp dir root_node keyboard K = do {
     (t, K) \<leftarrow> spawn_rootproc f init_esp dir root_node (initialize_process_tree li qu sq th K);
     fd \<leftarrow> rd_fds K t;
     K \<leftarrow> wr_fds t (fd\<lparr>fd_entries := (fd_entries fd)[0 := keyboard]\<rparr>) K;
     Some ((tasking_enable True (K\<lparr>current_task := t, main_task := t\<rparr>))\<lparr>is_tasking_initialized := True\<rparr>)
   }"

end
