(* ===== verification/Signal.thy ===== *)
theory Signal
  imports Scheduler
begin

text \<open>Signals, \<^verbatim>\<open>src/src/task/signal.cpp\<close>.\<close>

text \<open>The table \<^verbatim>\<open>isdeadly\<close> has 37 entries.\<close>

definition isdeadly :: "nat list" where
  "isdeadly = [0, 1, 1, 2, 2, 2, 2, 2, 2, 1, 2, 2, 2, 1, 1, 1, 1, 1, 0, 0, 0, 0, 0, 3, 3, 0, 3, 3, 1, 1, 2, 2, 0, 1, 0, 0, 0]"

definition deadly :: "u32 \<Rightarrow> nat option" where
  "deadly n = (if unat n < length isdeadly then Some (isdeadly ! unat n) else None)"

text \<open>What \<^verbatim>\<open>handle_signal\<close> does: nothing, the end of the current task with a status, a call of the
  handler in user mode on a stack, or in kernel mode.\<close>

datatype signal_action = Ignored | Killed int | User_handler u32 u32 u32 | Kernel_handler u32 u32

text \<open>\<open>useresp\<close> is the field of \<^verbatim>\<open>proc->syscall_regs\<close>.\<close>

definition handle_signal :: "u32 \<Rightarrow> task \<Rightarrow> signal \<Rightarrow> signal_action option" where
  "handle_signal useresp tk sig = (
     if tk_finished tk then Some Ignored
     else if sg_signum sig = 0 \<or> unat (sg_signum sig) \<ge> NUMSIGNALS then Some Ignored
     else if sg_handler sig = 0 then do {
       dowhat \<leftarrow> deadly (sg_signum sig);
       Some (if dowhat = 1 \<or> dowhat = 2 then Killed (128 + uint (sg_signum sig)) else Ignored) }
     else if sg_handler sig = 1 then Some Ignored
     else if sg_ringlevel sig = 3 then
       Some (User_handler (sg_handler sig) (sg_signum sig)
         (if useresp < 0x10000100 then im_user_stack (tk_image tk) else useresp))
     else if sg_ringlevel sig = 0 then Some (Kernel_handler (sg_handler sig) (sg_signum sig))
     else Some Ignored)"

text \<open>\<open>pr\<close> and \<open>n\<close> are the signal and the list node that are allocated.\<close>

definition send_signal_lvl :: "ptr \<Rightarrow> ptr \<Rightarrow> int \<Rightarrow> u32 \<Rightarrow> u8 \<Rightarrow> tasking \<Rightarrow> (int \<times> tasking) option" where
  "send_signal_lvl pr n pid signal ring K = do {
     r \<leftarrow> task_from_pid pid K;
     if r = NULL then Some (1, K)
     else if unat signal > NUMSIGNALS then Some (2, K)
     else do {
       tk \<leftarrow> rd_task K r;
       ck \<leftarrow> rd_task K (current_task K);
       if tk_user tk \<noteq> tk_user ck \<and> tk_user ck \<noteq> 0 then Some (3, K)
       else if tk_finished tk then Some (4, K)
       else do {
         let h = tk_functions tk ! unat signal;
         blocked \<leftarrow> (if h = 0 then map_option (\<lambda>d. d = 0) (deadly signal) else Some False);
         if blocked then Some (5, K) else do {
           let K = K\<lparr>ts_signals := (ts_signals K)(pr := Some
             \<lparr>sg_signum = signal, sg_handler = h, sg_ringlevel = ring\<rparr>)\<rparr>;
           ready \<leftarrow> task_is_ready r K;
           K \<leftarrow> (if ready then Some K else make_task_ready r K);
           (_, hp) \<leftarrow> list_insert n (tk_signal_queue tk) pr (ts_heap K);
           Some (0, K\<lparr>ts_heap := hp\<rparr>) } } }
   }"

definition send_signal :: "ptr \<Rightarrow> ptr \<Rightarrow> int \<Rightarrow> u32 \<Rightarrow> tasking \<Rightarrow> (int \<times> tasking) option" where
  "send_signal pr n pid signal K = send_signal_lvl pr n pid signal 3 K"

definition ksend_signal :: "ptr \<Rightarrow> ptr \<Rightarrow> int \<Rightarrow> u32 \<Rightarrow> tasking \<Rightarrow> (int \<times> tasking) option" where
  "ksend_signal pr n pid signal K = send_signal_lvl pr n pid signal 0 K"

text \<open>\<open>l\<close> and \<open>n\<close>: the list and the node that may be allocated.\<close>

definition return_from_signal_handler :: "ptr \<Rightarrow> ptr \<Rightarrow> u32 \<times> u32 \<times> u32 \<Rightarrow> tasking \<Rightarrow> tasking option" where
  "return_from_signal_handler l n regs K = do {
     let K = (if rets_from_sig K = NULL
       then K\<lparr>rets_from_sig := l, ts_heap := list_create l (ts_heap K)\<rparr> else K);
     (_, h) \<leftarrow> list_insert n (rets_from_sig K) (current_task K) (ts_heap K);
     switch_task regs 0 (K\<lparr>ts_heap := h\<rparr>)
   }"

text \<open>The context a task had before the signal is put back.\<close>

definition restore_stack :: "task \<Rightarrow> (u32 \<Rightarrow> u8) \<Rightarrow> u8 list \<Rightarrow> (u32 \<Rightarrow> u8)" where
  "restore_stack tk mem bs = (\<lambda>a. let i = unat (a - (im_stack (tk_image tk) - of_nat TASK_STACK_SIZE)) in
     if i < TASK_STACK_SIZE then bs ! i else mem a)"

definition restore_task :: "ptr \<Rightarrow> tasking \<Rightarrow> tasking option" where
  "restore_task p K = do {
     tk \<leftarrow> rd_task K p;
     stack \<leftarrow> tk_signal_kstack tk;
     K \<leftarrow> wr_task p (\<lambda>tk. tk\<lparr>tk_thread := (tk_thread tk)\<lparr>th_esp := th_esp (tk_signal_state tk),
            th_eip := th_eip (tk_signal_state tk), th_ebp := th_ebp (tk_signal_state tk)\<rparr>,
            tk_signal_kstack := None\<rparr>) K;
     make_task_ready p (K\<lparr>ts_mem := restore_stack tk (ts_mem K) stack\<rparr>)
   }"

text \<open>The loop of \<^verbatim>\<open>fix_signal_stacks\<close>; the result says whether the current task was among them.\<close>

partial_function (option) fix_loop :: "bool \<Rightarrow> tasking \<Rightarrow> (bool \<times> tasking) option" where
  "fix_loop redo K = do {
     L \<leftarrow> rd_list (ts_heap K) (rets_from_sig K);
     if list_head L = NULL then Some (redo, K) else do {
       (n, h) \<leftarrow> list_dequeue (rets_from_sig K) (ts_heap K);
       nd \<leftarrow> rd_node h n;
       let K = K\<lparr>ts_heap := free_node n h\<rparr>;
       if node_value nd = current_task K then fix_loop True K
       else do { K \<leftarrow> restore_task (node_value nd) K; fix_loop redo K } } }"

definition fix_signal_stacks :: "ptr \<Rightarrow> u32 \<times> u32 \<times> u32 \<Rightarrow> tasking \<Rightarrow> tasking option" where
  "fix_signal_stacks n regs K = do {
     (redo, K) \<leftarrow> (if rets_from_sig K \<noteq> NULL then fix_loop False K else Some (False, K));
     if redo then do {
       (_, h) \<leftarrow> list_insert n (rets_from_sig K) (current_task K) (ts_heap K);
       switch_task regs 0 (K\<lparr>ts_heap := h\<rparr>) }
     else Some K
   }"

text \<open>The part of \<^verbatim>\<open>switch_task\<close> that a resumed task executes after \<^verbatim>\<open>fix_signal_stacks\<close>: it takes one
  signal, if there is one.\<close>

definition take_signal :: "u32 \<Rightarrow> tasking \<Rightarrow> (signal_action \<times> tasking) option" where
  "take_signal useresp K = do {
     tk \<leftarrow> rd_task K (current_task K);
     if tk_finished tk then Some (Ignored, K) else do {
       Q \<leftarrow> rd_list (ts_heap K) (tk_signal_queue tk);
       if list_length Q = 0 then Some (Ignored, K) else do {
         (n, h) \<leftarrow> list_dequeue (tk_signal_queue tk) (ts_heap K);
         nd \<leftarrow> rd_node h n;
         sig \<leftarrow> ts_signals K (node_value nd);
         a \<leftarrow> handle_signal useresp tk sig;
         let K = K\<lparr>ts_heap := free_node n h, ts_signals := (ts_signals K)(node_value nd := None)\<rparr>;
         (case a of Killed s \<Rightarrow> do { K \<leftarrow> kexit s K; Some (a, K) } | _ \<Rightarrow> Some (a, K)) } }
   }"

end
