(* ===== verification/Task_Queues.thy ===== *)
theory Task_Queues
  imports Signal
begin

text \<open>
  What waking a wait queue does to the ready queue, what a timer tick does to a task in the middle of
  \<^verbatim>\<open>sleep_on\<close>, and which task a switch selects.
\<close>

section \<open>Tasks and their nodes\<close>

definition sched_of :: "tasking \<Rightarrow> ptr \<Rightarrow> ptr" where
  "sched_of K t = (case rd_task K t of None \<Rightarrow> NULL | Some tk \<Rightarrow> tk_sched_node tk)"

definition sleep_of :: "tasking \<Rightarrow> ptr \<Rightarrow> ptr" where
  "sleep_of K t = (case rd_task K t of None \<Rightarrow> NULL | Some tk \<Rightarrow> tk_sleep_node tk)"

definition unfinished :: "tasking \<Rightarrow> ptr \<Rightarrow> bool" where
  "unfinished K t = (case rd_task K t of None \<Rightarrow> False | Some tk \<Rightarrow> \<not> tk_finished tk)"

text \<open>A task whose two nodes are there and refer to it.\<close>

definition live :: "tasking \<Rightarrow> ptr \<Rightarrow> bool" where
  "live K t \<longleftrightarrow> rd_task K t \<noteq> None \<and> (\<forall>n \<in> {sched_of K t, sleep_of K t}.
     n \<noteq> NULL \<and> nodes (ts_heap K) n \<noteq> None \<and> value_of (ts_heap K) n = t)"

lemma liveE:
  assumes "live K t"
  obtains tk sd sn where "rd_task K t = Some tk" "t \<noteq> NULL" "sched_of K t = tk_sched_node tk" "sleep_of K t = tk_sleep_node tk"
    "rd_node (ts_heap K) (tk_sched_node tk) = Some sd" "rd_node (ts_heap K) (tk_sleep_node tk) = Some sn"
    "node_value sd = t" "node_value sn = t" "nodes (ts_heap K) (tk_sched_node tk) = Some sd"
    "nodes (ts_heap K) (tk_sleep_node tk) = Some sn" "tk_sched_node tk \<noteq> NULL" "tk_sleep_node tk \<noteq> NULL"
proof -
  obtain tk where t: "rd_task K t = Some tk" using assms by (auto simp: live_def)
  then have s: "sched_of K t = tk_sched_node tk" "sleep_of K t = tk_sleep_node tk"
    by (simp_all add: sched_of_def sleep_of_def)
  have n: "\<exists>nd. nodes (ts_heap K) n = Some nd \<and> rd_node (ts_heap K) n = Some nd \<and> node_value nd = t \<and> n \<noteq> NULL"
    if "n \<in> {tk_sched_node tk, tk_sleep_node tk}" for n
    using assms that unfolding live_def s by (cases "nodes (ts_heap K) n") (auto simp: rd_node_def value_of_def)
  obtain sd sn where "nodes (ts_heap K) (tk_sched_node tk) = Some sd" "rd_node (ts_heap K) (tk_sched_node tk) = Some sd"
    "node_value sd = t" "tk_sched_node tk \<noteq> NULL" "nodes (ts_heap K) (tk_sleep_node tk) = Some sn"
    "rd_node (ts_heap K) (tk_sleep_node tk) = Some sn" "node_value sn = t" "tk_sleep_node tk \<noteq> NULL"
    using n [of "tk_sched_node tk"] n [of "tk_sleep_node tk"] by blast
  moreover have "t \<noteq> NULL" using t by (auto simp: rd_task_def)
  ultimately show thesis using that t s by blast
qed

text \<open>An operation on the lists keeps the tasks and their nodes.\<close>

lemma heap_tasks [simp]:
  "rd_task (K\<lparr>ts_heap := h\<rparr>) = rd_task K" "sched_of (K\<lparr>ts_heap := h\<rparr>) = sched_of K"
  "sleep_of (K\<lparr>ts_heap := h\<rparr>) = sleep_of K" "unfinished (K\<lparr>ts_heap := h\<rparr>) = unfinished K"
  by (auto simp: fun_eq_iff rd_task_def sched_of_def sleep_of_def unfinished_def)

definition same_values :: "heap \<Rightarrow> heap \<Rightarrow> bool" where
  "same_values h h' \<longleftrightarrow> (\<forall>p. map_option node_value (nodes h' p) = map_option node_value (nodes h p))"

lemma only_touches_same: "only_touches l N h h' \<Longrightarrow> same_values h h'"
  by (simp add: only_touches_def same_values_def)

lemma same_values_trans: "same_values h h' \<Longrightarrow> same_values h' h'' \<Longrightarrow> same_values h h''"
  by (simp add: same_values_def)

lemma live_heap: "same_values (ts_heap K) h \<Longrightarrow> live (K\<lparr>ts_heap := h\<rparr>) = live K"
proof
  fix t assume s: "same_values (ts_heap K) h"
  then have n: "nodes h p = None \<longleftrightarrow> nodes (ts_heap K) p = None" for p
    unfolding same_values_def by (metis map_option_is_None)
  have "value_of h p = value_of (ts_heap K) p" for p
  proof -
    have "map_option node_value (nodes h p) = map_option node_value (nodes (ts_heap K) p)"
      using s by (simp add: same_values_def)
    then show ?thesis by (cases "nodes h p"; cases "nodes (ts_heap K) p") (auto simp: value_of_def)
  qed
  with n show "live (K\<lparr>ts_heap := h\<rparr>) t = live K t" by (simp add: live_def)
qed

lemma make_task_ready_idle:
  assumes "live K t" and "map_option node_owner (nodes (ts_heap K) (sleep_of K t)) = Some NULL"
    and "dll (ts_heap K) (task_queue K) rs" and "sched_of K t \<notin> set rs"
  shows "\<exists>h. make_task_ready t K = Some (K\<lparr>ts_heap := h\<rparr>) \<and> dll h (task_queue K) (rs @ [sched_of K t]) \<and>
     only_touches (task_queue K) (insert (sched_of K t) (set rs)) (ts_heap K) h"
proof -
  obtain tk sd sn where t: "rd_task K t = Some tk" "sched_of K t = tk_sched_node tk" "sleep_of K t = tk_sleep_node tk"
    "rd_node (ts_heap K) (tk_sleep_node tk) = Some sn" "nodes (ts_heap K) (tk_sched_node tk) = Some sd"
    "nodes (ts_heap K) (tk_sleep_node tk) = Some sn" "tk_sched_node tk \<noteq> NULL"
    using assms(1) by (elim liveE)
  obtain h where "list_append (task_queue K) (tk_sched_node tk) (ts_heap K) = Some h"
    "dll h (task_queue K) (rs @ [tk_sched_node tk])"
    "only_touches (task_queue K) (insert (tk_sched_node tk) (set rs)) (ts_heap K) h"
    using list_append_dll [OF assms(3)] assms(4) t by metis
  moreover have "node_owner sn = NULL" using assms(2) t by simp
  ultimately show ?thesis using t by (intro exI [of _ h]) (simp add: make_task_ready_def on_lists_def)
qed

section \<open>Waking a queue\<close>

definition mark_interrupted :: "bool \<Rightarrow> ptr set \<Rightarrow> tasking \<Rightarrow> tasking" where
  "mark_interrupted i T K = K\<lparr>ts_tasks := (\<lambda>t. if i \<and> t \<in> T \<and> unfinished K t
     then map_option (\<lambda>tk. tk\<lparr>tk_sleep_interrupted := True\<rparr>) (ts_tasks K t) else ts_tasks K t)\<rparr>"

lemma mark_simps [simp]:
  "ts_heap (mark_interrupted i T K) = ts_heap K" "task_queue (mark_interrupted i T K) = task_queue K"
  "(mark_interrupted i T K)\<lparr>ts_heap := h\<rparr> = mark_interrupted i T (K\<lparr>ts_heap := h\<rparr>)"
  by (simp_all add: mark_interrupted_def cong: if_cong)

lemma mark_tasks [simp]:
  "sched_of (mark_interrupted i T K) = sched_of K" "sleep_of (mark_interrupted i T K) = sleep_of K"
  "unfinished (mark_interrupted i T K) = unfinished K" "live (mark_interrupted i T K) = live K"
proof -
  show s: "sched_of (mark_interrupted i T K) = sched_of K" "sleep_of (mark_interrupted i T K) = sleep_of K"
    "unfinished (mark_interrupted i T K) = unfinished K"
    by (auto simp: sched_of_def sleep_of_def unfinished_def mark_interrupted_def rd_task_def fun_eq_iff split: option.splits)
  show "live (mark_interrupted i T K) = live K"
    unfolding live_def fun_eq_iff s by (auto simp: mark_interrupted_def rd_task_def)
qed

lemma mark_union: "mark_interrupted i S (mark_interrupted i T K) = mark_interrupted i (S \<union> T) K"
proof -
  have u: "unfinished (mark_interrupted i T K) t = unfinished K t" for t by simp
  show ?thesis
    unfolding mark_interrupted_def [of i S] u unfolding mark_interrupted_def
    by (auto simp: fun_eq_iff option.map_comp o_def)
qed

lemma mark_empty [simp]: "mark_interrupted i {} K = K"
  by (simp add: mark_interrupted_def)

text \<open>The flag is set for a task that is made ready.\<close>

lemma mark_one:
  "rd_task K t = Some tk \<Longrightarrow> \<not> tk_finished tk \<Longrightarrow>
     (if i then wr_task t (\<lambda>tk. tk\<lparr>tk_sleep_interrupted := True\<rparr>) K else Some K) = Some (mark_interrupted i {t} K)"
  by (cases i) (auto simp: wr_task_def rd_task_def mark_interrupted_def unfinished_def fun_eq_iff split: if_splits intro!: tasking.equality)

lemma mark_finished: "\<not> unfinished K t \<Longrightarrow> mark_interrupted i {t} K = K"
  by (auto simp: mark_interrupted_def fun_eq_iff intro!: tasking.equality)

text \<open>One turn of the loop takes the last sleeper.\<close>

lemma wakeup_turn:
  assumes "dll (ts_heap K) q (map (sleep_of K) (ts @ [t]))" and "dll (ts_heap K) (task_queue K) rs" and "q \<noteq> task_queue K"
    and "live K t" and "sched_of K t \<notin> set rs" and "sched_of K t \<notin> set (map (sleep_of K) ts)"
  shows "\<exists>h. wakeup_loop i q n K = wakeup_loop i q (n + 1) (mark_interrupted i {t} (K\<lparr>ts_heap := h\<rparr>)) \<and>
     dll h q (map (sleep_of K) ts) \<and>
     dll h (task_queue K) (rs @ (if unfinished K t then [sched_of K t] else [])) \<and>
     same_values (ts_heap K) h"
proof -
  obtain tk sd sn where t: "rd_task K t = Some tk" "sched_of K t = tk_sched_node tk" "sleep_of K t = tk_sleep_node tk"
    "rd_node (ts_heap K) (tk_sleep_node tk) = Some sn" "node_value sn = t" "tk_sleep_node tk \<noteq> NULL"
    "nodes (ts_heap K) (tk_sleep_node tk) = Some sn"
    using assms(4) by (elim liveE)
  obtain h1 where p: "list_pop q (ts_heap K) = Some (tk_sleep_node tk, h1)" "dll h1 q (map (sleep_of K) ts)"
    "only_touches q (set (map (sleep_of K) (ts @ [t]))) (ts_heap K) h1"
    "map_option node_owner (nodes h1 (tk_sleep_node tk)) = Some NULL"
    using list_pop_dll [OF assms(1)] t(3) by (auto simp: butlast_append)
  have v1: "same_values (ts_heap K) h1" using only_touches_same [OF p(3)] .
  then obtain nd where nd: "rd_node h1 (tk_sleep_node tk) = Some nd" "node_value nd = t"
    using t(5-7) p(4) unfolding same_values_def by (auto simp: rd_node_def dest!: spec [of _ "tk_sleep_node tk"])
  have r1: "dll h1 (task_queue K) rs"
    using dll_frame [OF p(3) assms(2)] dll_disjoint [OF assms(1,2)] assms(3) by auto
  obtain L where L: "rd_list (ts_heap K) q = Some L" "list_length L \<noteq> 0"
    using assms(1) dll_empty_iff [OF assms(1)] by (auto simp: dll_def rd_list_def)
  let ?K1 = "K\<lparr>ts_heap := h1\<rparr>"
  have step: "wakeup_loop i q n K = do {
      K' \<leftarrow> (if tk_finished tk then Some ?K1 else make_task_ready t (mark_interrupted i {t} ?K1));
      wakeup_loop i q (n + 1) K' }"
    using L p(1) nd t(1) mark_one [of ?K1 t tk i]
    by (subst wakeup_loop.simps) (simp split del: if_split cong: if_cong add: Let_def)
  show ?thesis
  proof (cases "tk_finished tk")
    case True
    then have "\<not> unfinished K t" using t(1) by (simp add: unfinished_def)
    with True step p(2) r1 v1 mark_finished [of ?K1 t i] show ?thesis by (intro exI [of _ h1]) simp
  next
    case False
    then have u: "unfinished K t" using t(1) by (simp add: unfinished_def)
    let ?K2 = "mark_interrupted i {t} ?K1"
    have "live ?K2 t" using assms(4) live_heap [OF v1] by simp
    then obtain h2 where h2: "make_task_ready t ?K2 = Some (?K2\<lparr>ts_heap := h2\<rparr>)"
      "dll h2 (task_queue K) (rs @ [sched_of K t])"
      "only_touches (task_queue K) (insert (sched_of K t) (set rs)) h1 h2"
      using make_task_ready_idle [of ?K2 t rs] p(4) r1 assms(5) t(3) by auto
    have "dll h2 q (map (sleep_of K) ts)"
      using dll_frame [OF h2(3) p(2) assms(3)] dll_disjoint [OF p(2) r1 assms(3)] assms(6) by auto
    with False step u h2 same_values_trans [OF v1 only_touches_same [OF h2(3)]] show ?thesis
      by (intro exI [of _ h2]) simp
  qed
qed

lemma wakeup_loop_law:
  assumes "dll (ts_heap K) q (map (sleep_of K) ts)" and "dll (ts_heap K) (task_queue K) rs" and "q \<noteq> task_queue K"
    and "\<forall>t \<in> set ts. live K t" and "distinct (rs @ map (sched_of K) ts)"
    and "set (map (sched_of K) ts) \<inter> set (map (sleep_of K) ts) = {}"
  shows "\<exists>h. wakeup_loop i q n K = Some (n + int (length ts), mark_interrupted i (set ts) (K\<lparr>ts_heap := h\<rparr>)) \<and>
     dll h q [] \<and> dll h (task_queue K) (rs @ map (sched_of K) (filter (unfinished K) (rev ts)))"
  using assms
proof (induction ts arbitrary: K n rs rule: rev_induct)
  case Nil
  then obtain L where "rd_list (ts_heap K) q = Some L" "list_length L = 0"
    by (auto simp: dll_def rd_list_def)
  with Nil show ?case by (subst wakeup_loop.simps) (auto intro: exI [of _ "ts_heap K"])
next
  case (snoc t ts)
  obtain h where t: "wakeup_loop i q n K = wakeup_loop i q (n + 1) (mark_interrupted i {t} (K\<lparr>ts_heap := h\<rparr>))"
    "dll h q (map (sleep_of K) ts)" "dll h (task_queue K) (rs @ (if unfinished K t then [sched_of K t] else []))"
    "same_values (ts_heap K) h"
    using wakeup_turn [OF snoc.prems(1-3), of i n] snoc.prems(4-6) by auto
  let ?K = "mark_interrupted i {t} (K\<lparr>ts_heap := h\<rparr>)" and ?rs = "rs @ (if unfinished K t then [sched_of K t] else [])"
  have "\<exists>h'. wakeup_loop i q (n + 1) ?K = Some (n + 1 + int (length ts), mark_interrupted i (set ts) (?K\<lparr>ts_heap := h'\<rparr>)) \<and>
     dll h' q [] \<and> dll h' (task_queue ?K) (?rs @ map (sched_of ?K) (filter (unfinished ?K) (rev ts)))"
    using snoc.prems t(2,3) by (intro snoc.IH) (auto simp: live_heap [OF t(4)])
  then obtain h' where "wakeup_loop i q (n + 1) ?K = Some (n + 1 + int (length ts), mark_interrupted i (set ts) (?K\<lparr>ts_heap := h'\<rparr>))"
    "dll h' q []" "dll h' (task_queue ?K) (?rs @ map (sched_of ?K) (filter (unfinished ?K) (rev ts)))" by blast
  then show ?case using t(1) by (intro exI [of _ h']) (auto simp: mark_union)
qed

section \<open>The next task\<close>

lemma fetch_next_law:
  assumes "dll (ts_heap K) (task_queue K) (sched_of K t # ns)" and "live K t"
  shows "\<exists>h. fetch_next_task K = Some (t, K\<lparr>ts_heap := h\<rparr>) \<and> dll h (task_queue K) ns \<and>
     only_touches (task_queue K) (set (sched_of K t # ns)) (ts_heap K) h \<and>
     map_option node_owner (nodes h (sched_of K t)) = Some NULL"
proof -
  obtain sd where t: "nodes (ts_heap K) (sched_of K t) = Some sd"
    "node_value sd = t" "sched_of K t \<noteq> NULL"
    using assms(2) by (elim liveE) metis
  obtain h where h: "list_dequeue (task_queue K) (ts_heap K) = Some (sched_of K t, h)" "dll h (task_queue K) ns"
    "only_touches (task_queue K) (set (sched_of K t # ns)) (ts_heap K) h"
    "map_option node_owner (nodes h (sched_of K t)) = Some NULL"
    using list_dequeue_dll [OF assms(1)] by auto
  have "map_option node_value (nodes h (sched_of K t)) = Some t"
    using h(3) t(1,2) by (simp add: only_touches_def)
  then obtain nd where nd: "rd_node h (sched_of K t) = Some nd" "node_value nd = t"
    using t(3) by (auto simp: rd_node_def)
  obtain L where L: "lists (ts_heap K) (task_queue K) = Some L" "rd_list (ts_heap K) (task_queue K) = Some L"
    using assms(1) by (auto simp: dll_def rd_list_def)
  then have "task_available K = Some True"
    using dll_ends(1) [OF assms(1) L(1)] t(3) by (simp add: task_available_def)
  with h nd show ?thesis by (intro exI [of _ h]) (simp add: fetch_next_task_def)
qed

text \<open>The throttle, asked for the tasks of a set.\<close>

definition denied :: "tasking \<Rightarrow> ptr \<Rightarrow> bool" where
  "denied K t = (case rd_task K t of None \<Rightarrow> False | Some tk \<Rightarrow> fst (task_ttl_canlive tk))"

definition throttle :: "ptr set \<Rightarrow> tasking \<Rightarrow> tasking" where
  "throttle T K = K\<lparr>ts_tasks := (\<lambda>t. if t \<in> T then map_option (\<lambda>tk. snd (task_ttl_canlive tk)) (ts_tasks K t) else ts_tasks K t)\<rparr>"

lemma canlive_fields [simp]:
  "tk_sched_node (snd (task_ttl_canlive tk)) = tk_sched_node tk" "tk_sleep_node (snd (task_ttl_canlive tk)) = tk_sleep_node tk"
  "tk_finished (snd (task_ttl_canlive tk)) = tk_finished tk" "tk_status (snd (task_ttl_canlive tk)) = tk_status tk"
  "tk_started (snd (task_ttl_canlive tk)) = tk_started tk" "tk_signal_kstack (snd (task_ttl_canlive tk)) = tk_signal_kstack tk"
  "tk_signal_queue (snd (task_ttl_canlive tk)) = tk_signal_queue tk" "tk_tree_entry (snd (task_ttl_canlive tk)) = tk_tree_entry tk"
  by (simp_all add: task_ttl_canlive_def Let_def)

lemma throttle_simps [simp]:
  "ts_heap (throttle T K) = ts_heap K" "task_queue (throttle T K) = task_queue K" "task_list (throttle T K) = task_list K"
  "current_task (throttle T K) = current_task K" "ts_tree (throttle T K) = ts_tree K" "throttle {} K = K"
  "(throttle T K)\<lparr>ts_heap := h\<rparr> = throttle T (K\<lparr>ts_heap := h\<rparr>)"
  by (simp_all add: throttle_def cong: if_cong)

lemma throttle_read: "rd_task (throttle T K) t = (if t \<in> T then map_option (\<lambda>tk. snd (task_ttl_canlive tk)) (rd_task K t) else rd_task K t)"
  by (simp add: rd_task_def throttle_def)

lemma throttle_tasks [simp]:
  "sched_of (throttle T K) = sched_of K" "sleep_of (throttle T K) = sleep_of K" "live (throttle T K) = live K"
proof -
  show s: "sched_of (throttle T K) = sched_of K" "sleep_of (throttle T K) = sleep_of K"
    by (auto simp: sched_of_def sleep_of_def throttle_read fun_eq_iff split: option.splits)
  show "live (throttle T K) = live K"
    unfolding live_def fun_eq_iff s by (auto simp: throttle_read)
qed

lemma throttle_insert: "t \<notin> T \<Longrightarrow> throttle T (throttle {t} K) = throttle (insert t T) K"
  by (auto simp: throttle_def fun_eq_iff)

lemma throttle_one: "rd_task K t = Some tk \<Longrightarrow> wr_task t (\<lambda>_. snd (task_ttl_canlive tk)) K = Some (throttle {t} K)"
  by (auto simp: wr_task_def throttle_def rd_task_def fun_eq_iff split: if_splits intro!: tasking.equality)

lemma denied_other: "u \<notin> T \<Longrightarrow> denied (throttle T K) u = denied K u"
  by (simp add: denied_def throttle_read)

text \<open>The tasks that are refused leave the queue.\<close>

lemma pick_task_law:
  assumes "dll (ts_heap K) (task_queue K) (map (sched_of K) (us @ t # vs))" and "\<forall>u \<in> set (us @ t # vs). live K u"
    and "\<forall>u \<in> set us. denied K u" and "\<not> denied K t"
  shows "\<exists>h. pick_task K = Some (t, throttle (set (us @ [t])) (K\<lparr>ts_heap := h\<rparr>)) \<and>
     dll h (task_queue K) (map (sched_of K) vs) \<and> same_values (ts_heap K) h \<and>
     only_touches (task_queue K) (set (map (sched_of K) (us @ t # vs))) (ts_heap K) h \<and>
     (\<forall>u \<in> set us. map_option node_owner (nodes h (sched_of K u)) = Some NULL)"
  using assms
proof (induction us arbitrary: K)
  case Nil
  obtain h where h: "fetch_next_task K = Some (t, K\<lparr>ts_heap := h\<rparr>)" "dll h (task_queue K) (map (sched_of K) vs)"
    "only_touches (task_queue K) (set (map (sched_of K) (t # vs))) (ts_heap K) h"
    using fetch_next_law [of K t "map (sched_of K) vs"] Nil.prems(1,2) by auto
  obtain tk where tk: "rd_task K t = Some tk" "t \<noteq> NULL" using Nil.prems(2) by (auto elim: liveE)
  have "pick_task K = Some (t, throttle {t} (K\<lparr>ts_heap := h\<rparr>))"
    using h(1) tk Nil.prems(4) throttle_one [of "K\<lparr>ts_heap := h\<rparr>" t tk]
    by (subst pick_task.simps) (simp add: denied_def Let_def)
  with h(2,3) only_touches_same [OF h(3)] show ?case by auto
next
  case (Cons u us)
  let ?ns = "map (sched_of K) (us @ t # vs)"
  obtain h where h: "fetch_next_task K = Some (u, K\<lparr>ts_heap := h\<rparr>)" "dll h (task_queue K) ?ns"
    "only_touches (task_queue K) (set (sched_of K u # ?ns)) (ts_heap K) h"
    "map_option node_owner (nodes h (sched_of K u)) = Some NULL"
    using fetch_next_law [of K u ?ns] Cons.prems(1,2) by auto
  obtain tk where tk: "rd_task K u = Some tk" "u \<noteq> NULL" using Cons.prems(2) by (auto elim: liveE)
  let ?K = "throttle {u} (K\<lparr>ts_heap := h\<rparr>)"
  have step: "pick_task K = pick_task ?K"
    using h(1) tk Cons.prems(3) throttle_one [of "K\<lparr>ts_heap := h\<rparr>" u tk]
    by (subst pick_task.simps) (simp add: denied_def Let_def)
  have dist: "sched_of K u \<notin> set ?ns" "u \<notin> set (us @ [t])"
    using Cons.prems(1) by (auto simp: dll_def)
  note v = only_touches_same [OF h(3)]
  have "denied (K\<lparr>ts_heap := h\<rparr>) w = denied K w" for w by (simp add: denied_def)
  then have d: "denied ?K w = denied K w" if "w \<in> set (us @ [t])" for w
    using denied_other [of w "{u}" "K\<lparr>ts_heap := h\<rparr>"] that dist(2) by auto
  have "\<exists>h'. pick_task ?K = Some (t, throttle (set (us @ [t])) (?K\<lparr>ts_heap := h'\<rparr>)) \<and>
     dll h' (task_queue ?K) (map (sched_of ?K) vs) \<and> same_values (ts_heap ?K) h' \<and>
     only_touches (task_queue ?K) (set (map (sched_of ?K) (us @ t # vs))) (ts_heap ?K) h' \<and>
     (\<forall>u \<in> set us. map_option node_owner (nodes h' (sched_of ?K u)) = Some NULL)"
    using Cons.prems h(2) dist(2) by (intro Cons.IH) (auto simp: live_heap [OF v] d)
  then obtain h' where h': "pick_task ?K = Some (t, throttle (set (us @ [t])) (?K\<lparr>ts_heap := h'\<rparr>))"
    "dll h' (task_queue K) (map (sched_of K) vs)" "same_values h h'" "only_touches (task_queue K) (set ?ns) h h'"
    "\<forall>u \<in> set us. map_option node_owner (nodes h' (sched_of K u)) = Some NULL" by auto
  have "nodes h' (sched_of K u) = nodes h (sched_of K u)"
    using h'(4) dist(1) by (simp add: only_touches_def)
  moreover have "only_touches (task_queue K) (set (map (sched_of K) ((u # us) @ t # vs))) (ts_heap K) h'"
    using only_touches_trans [OF h(3) h'(4)] by (simp add: insert_absorb Un_assoc)
  ultimately show ?case
    using step h' h(4) throttle_insert [OF dist(2)] same_values_trans [OF v h'(3)]
    by (intro exI [of _ h']) simp
qed

end
