(* ===== verification/Task_Switch.thy ===== *)
theory Task_Switch
  imports Task_Queues
begin

text \<open>
  The switch as a whole: the order of the ready queue, the task that is interrupted inside
  \<^verbatim>\<open>sleep_on\<close>, and what becomes of a task that has ended.
\<close>

section \<open>Updates of one task\<close>

lemma wr_task_SomeI: "rd_task K t = Some tk \<Longrightarrow> wr_task t f K = Some (K\<lparr>ts_tasks := (ts_tasks K)(t := Some (f tk))\<rparr>)"
  by (simp add: wr_task_def)

lemma set_task_read:
  "rd_task (K\<lparr>ts_tasks := (ts_tasks K)(t := Some tk)\<rparr>) u = (if u = t \<and> t \<noteq> NULL then Some tk else rd_task K u)"
  by (simp add: rd_task_def)

lemma set_task_keeps:
  assumes "rd_task K t = Some tk" and "tk_sched_node tk' = tk_sched_node tk" and "tk_sleep_node tk' = tk_sleep_node tk"
  shows "sched_of (K\<lparr>ts_tasks := (ts_tasks K)(t := Some tk')\<rparr>) = sched_of K"
    and "sleep_of (K\<lparr>ts_tasks := (ts_tasks K)(t := Some tk')\<rparr>) = sleep_of K"
    and "live (K\<lparr>ts_tasks := (ts_tasks K)(t := Some tk')\<rparr>) = live K"
proof -
  let ?K = "K\<lparr>ts_tasks := (ts_tasks K)(t := Some tk')\<rparr>"
  show s: "sched_of ?K = sched_of K" "sleep_of ?K = sleep_of K"
    using assms by (auto simp: fun_eq_iff sched_of_def sleep_of_def set_task_read split: option.splits)
  show "live ?K = live K"
    using assms(1) unfolding live_def fun_eq_iff s by (auto simp: set_task_read)
qed

lemma set_task_denied:
  assumes "rd_task K t = Some tk" and "fst (task_ttl_canlive tk') = fst (task_ttl_canlive tk)"
  shows "denied (K\<lparr>ts_tasks := (ts_tasks K)(t := Some tk')\<rparr>) u = denied K u"
  using assms by (auto simp: denied_def set_task_read rd_task_def split: if_splits)

text \<open>The signal queue of a task is there, as the switch to it asks.\<close>

definition signals_there :: "tasking \<Rightarrow> ptr \<Rightarrow> bool" where
  "signals_there K t \<longleftrightarrow> (\<forall>tk. rd_task K t = Some tk \<longrightarrow> rd_list (ts_heap K) (tk_signal_queue tk) \<noteq> None)"

lemma signals_there_heap:
  assumes "signals_there K t" and "only_touches l N (ts_heap K) h" and "dll h l ns"
  shows "signals_there (K\<lparr>ts_heap := h\<rparr>) t"
proof -
  have "rd_list h k \<noteq> None" if "rd_list (ts_heap K) k \<noteq> None" for k
    using that assms(2,3) by (cases "k = l") (auto simp: only_touches_def dll_def rd_list_def split: if_splits)
  with assms(1) show ?thesis by (auto simp: signals_there_def)
qed

lemma signals_there_throttle [simp]: "signals_there (throttle T K) t = signals_there K t"
  by (auto simp: signals_there_def throttle_read split: if_splits)

lemma current_simps [simp]:
  "rd_task (K\<lparr>current_task := t\<rparr>) = rd_task K" "signals_there (K\<lparr>current_task := t\<rparr>) = signals_there K"
  by (simp_all add: rd_task_def signals_there_def fun_eq_iff)

lemma enter_task_ok:
  assumes "rd_task K t = Some tk" and "signals_there K t"
  shows "\<exists>tk'. enter_task t K = Some (K\<lparr>ts_tasks := (ts_tasks K)(t := Some tk')\<rparr>) \<and> tk_status tk' = tk_status tk \<and>
     tk_finished tk' = tk_finished tk \<and> tk_running tk' \<and> tk_sched_node tk' = tk_sched_node tk \<and>
     tk_sleep_node tk' = tk_sleep_node tk \<and> tk_tree_entry tk' = tk_tree_entry tk \<and>
     tk_sleep_interrupted tk' = tk_sleep_interrupted tk"
proof -
  obtain Q where "rd_list (ts_heap K) (tk_signal_queue tk) = Some Q" using assms by (auto simp: signals_there_def)
  then show ?thesis
    using assms(1) unfolding enter_task_def
    by (auto simp: wr_task_def set_task_read rd_task_def split: if_splits)
qed

section \<open>The order of the ready queue\<close>

text \<open>The registers and the state that a task is left with.\<close>

definition left_task :: "u32 \<times> u32 \<times> u32 \<Rightarrow> u8 \<Rightarrow> task \<Rightarrow> task" where
  "left_task regs s tk = tk\<lparr>tk_thread := (tk_thread tk)\<lparr>th_eip := fst regs, th_esp := fst (snd regs),
     th_ebp := snd (snd regs)\<rparr>, tk_running := False, tk_status := s\<rparr>"

lemma left_task_simps [simp]:
  "tk_sched_node (left_task regs s tk) = tk_sched_node tk" "tk_sleep_node (left_task regs s tk) = tk_sleep_node tk"
  "fst (task_ttl_canlive (left_task regs s tk)) = fst (task_ttl_canlive tk)"
  "tk_status (left_task regs s tk) = s" "tk_finished (left_task regs s tk) = tk_finished tk"
  "tk_signal_queue (left_task regs s tk) = tk_signal_queue tk" "tk_tree_entry (left_task regs s tk) = tk_tree_entry tk"
  "tk_sleep_interrupted (left_task regs s tk) = tk_sleep_interrupted tk"
  by (simp_all add: left_task_def task_ttl_canlive_def Let_def)

text \<open>From the state in which the current task has been put back (or not) to the end of the switch.\<close>

definition switch_rest :: "tasking \<Rightarrow> tasking option" where
  "switch_rest K = do { (t, K) \<leftarrow> pick_task K; if t = NULL then Some K else enter_task t (K\<lparr>current_task := t\<rparr>) }"

lemma switch_task_split:
  "is_tasking K \<Longrightarrow> current_task K = c \<Longrightarrow> rd_task K c = Some tk \<Longrightarrow> switch_task regs s K = do {
     let K = K\<lparr>ts_tasks := (ts_tasks K)(c := Some (left_task regs s tk))\<rparr>;
     K \<leftarrow> (if s \<noteq> 0 then make_task_ready c K else Some K);
     switch_rest K }"
  by (auto simp: switch_task_def switch_rest_def wr_task_def left_task_def rd_task_def Let_def split: if_splits)

lemma switch_rest_law:
  assumes "dll (ts_heap K) (task_queue K) (map (sched_of K) (us @ t # vs))" and "\<forall>u \<in> set (us @ t # vs). live K u"
    and "\<forall>u \<in> set us. denied K u" and "\<not> denied K t" and "signals_there K t"
  shows "\<exists>K'. switch_rest K = Some K' \<and> current_task K' = t \<and> dll (ts_heap K') (task_queue K) (map (sched_of K) vs) \<and>
     only_touches (task_queue K) (set (map (sched_of K) (us @ t # vs))) (ts_heap K) (ts_heap K') \<and>
     (\<forall>u \<in> set us. map_option node_owner (nodes (ts_heap K') (sched_of K u)) = Some NULL) \<and>
     task_queue K' = task_queue K \<and> task_list K' = task_list K \<and> ts_tree K' = ts_tree K \<and>
     (\<forall>u tk. rd_task K u = Some tk \<longrightarrow> (\<exists>tk'. rd_task K' u = Some tk' \<and> tk_status tk' = tk_status tk \<and>
        tk_finished tk' = tk_finished tk \<and> tk_sched_node tk' = tk_sched_node tk \<and> tk_sleep_node tk' = tk_sleep_node tk \<and>
        tk_tree_entry tk' = tk_tree_entry tk))"
proof -
  obtain h where h: "pick_task K = Some (t, throttle (set (us @ [t])) (K\<lparr>ts_heap := h\<rparr>))"
    "dll h (task_queue K) (map (sched_of K) vs)" "same_values (ts_heap K) h"
    "only_touches (task_queue K) (set (map (sched_of K) (us @ t # vs))) (ts_heap K) h"
    "\<forall>u \<in> set us. map_option node_owner (nodes h (sched_of K u)) = Some NULL"
    using pick_task_law [OF assms(1-4)] by blast
  let ?K = "(throttle (set (us @ [t])) (K\<lparr>ts_heap := h\<rparr>))\<lparr>current_task := t\<rparr>"
  obtain tk where tk: "rd_task K t = Some tk" "t \<noteq> NULL" using assms(2) by (auto elim: liveE)
  have rd: "rd_task ?K u = (if u \<in> set (us @ [t]) then map_option (\<lambda>tk. snd (task_ttl_canlive tk)) (rd_task K u) else rd_task K u)" for u
    by (simp add: throttle_read)
  have "signals_there ?K t" using signals_there_heap [OF assms(5) h(4,2)] by simp
  moreover have rt: "rd_task ?K t = Some (snd (task_ttl_canlive tk))" using tk(1) by (simp add: throttle_read)
  ultimately obtain tk' where e: "enter_task t ?K = Some (?K\<lparr>ts_tasks := (ts_tasks ?K)(t := Some tk')\<rparr>)"
    "tk_status tk' = tk_status tk" "tk_finished tk' = tk_finished tk" "tk_sched_node tk' = tk_sched_node tk"
    "tk_sleep_node tk' = tk_sleep_node tk" "tk_tree_entry tk' = tk_tree_entry tk"
    using enter_task_ok [of ?K t "snd (task_ttl_canlive tk)"] by auto
  let ?K' = "?K\<lparr>ts_tasks := (ts_tasks ?K)(t := Some tk')\<rparr>"
  have "\<exists>uk'. rd_task ?K' u = Some uk' \<and> tk_status uk' = tk_status uk \<and> tk_finished uk' = tk_finished uk \<and>
      tk_sched_node uk' = tk_sched_node uk \<and> tk_sleep_node uk' = tk_sleep_node uk \<and> tk_tree_entry uk' = tk_tree_entry uk"
    if "rd_task K u = Some uk" for u uk
    unfolding set_task_read using that tk e(2-6) by (cases "u = t") (auto simp: throttle_read)
  moreover have "switch_rest K = Some ?K'" using h(1) e(1) tk(2) by (simp add: switch_rest_def)
  moreover have "ts_heap ?K' = h" "task_queue ?K' = task_queue K" "task_list ?K' = task_list K" "ts_tree ?K' = ts_tree K"
    by (simp_all add: throttle_def)
  ultimately show ?thesis using h by (intro exI [of _ ?K']) simp
qed

text \<open>A switch: the tasks \<open>ts\<close> wait in the ready queue, and the current one goes behind them unless the new
  state is 0.\<close>

lemma switch_task_law:
  assumes run: "is_tasking K" "live K (current_task K)"
    and idle: "s \<noteq> 0 \<Longrightarrow> map_option node_owner (nodes (ts_heap K) (sleep_of K (current_task K))) = Some NULL"
    and queue: "dll (ts_heap K) (task_queue K) (map (sched_of K) ts)" "\<forall>u \<in> set ts. live K u"
    and fresh: "sched_of K (current_task K) \<notin> set (map (sched_of K) ts)"
    and split: "(if s \<noteq> 0 then ts @ [current_task K] else ts) = us @ t # vs"
    and pick: "\<forall>u \<in> set us. denied K u" "\<not> denied K t" "signals_there K t"
  shows "\<exists>K'. switch_task regs s K = Some K' \<and> current_task K' = t \<and> dll (ts_heap K') (task_queue K) (map (sched_of K) vs) \<and>
     only_touches (task_queue K) (set (map (sched_of K) (ts @ (if s \<noteq> 0 then [current_task K] else [])))) (ts_heap K) (ts_heap K') \<and>
     (\<forall>u \<in> set us. map_option node_owner (nodes (ts_heap K') (sched_of K u)) = Some NULL) \<and>
     task_queue K' = task_queue K \<and> task_list K' = task_list K \<and> ts_tree K' = ts_tree K \<and>
     (\<forall>u tk. rd_task K u = Some tk \<longrightarrow> (\<exists>tk'. rd_task K' u = Some tk' \<and>
        tk_status tk' = (if u = current_task K then s else tk_status tk) \<and>
        tk_finished tk' = tk_finished tk \<and> tk_sched_node tk' = tk_sched_node tk \<and> tk_sleep_node tk' = tk_sleep_node tk \<and>
        tk_tree_entry tk' = tk_tree_entry tk))"
proof -
  let ?c = "current_task K"
  obtain tk where tk: "rd_task K ?c = Some tk" "?c \<noteq> NULL" using run(2) by (auto elim: liveE)
  let ?K = "K\<lparr>ts_tasks := (ts_tasks K)(?c := Some (left_task regs s tk))\<rparr>"
  note keep = set_task_keeps [OF tk(1), of "left_task regs s tk", simplified]
  have "\<exists>h. (if s \<noteq> 0 then make_task_ready ?c ?K else Some ?K) = Some (?K\<lparr>ts_heap := h\<rparr>) \<and>
     dll h (task_queue K) (map (sched_of K) (us @ t # vs)) \<and> same_values (ts_heap K) h \<and>
     only_touches (task_queue K) (set (map (sched_of K) (us @ t # vs))) (ts_heap K) h"
  proof (cases "s = 0")
    case True
    with split queue(1) show ?thesis by (intro exI [of _ "ts_heap K"]) (simp add: same_values_def)
  next
    case False
    then obtain h where "make_task_ready ?c ?K = Some (?K\<lparr>ts_heap := h\<rparr>)"
      "dll h (task_queue K) (map (sched_of K) ts @ [sched_of K ?c])"
      "only_touches (task_queue K) (insert (sched_of K ?c) (set (map (sched_of K) ts))) (ts_heap K) h"
      using make_task_ready_idle [of ?K ?c "map (sched_of K) ts"] run(2) idle queue(1) fresh by (auto simp: keep)
    moreover have "map (sched_of K) (us @ t # vs) = map (sched_of K) ts @ [sched_of K ?c]"
      using arg_cong [OF split, of "map (sched_of K)"] False by simp
    moreover from this have "set (map (sched_of K) (us @ t # vs)) = insert (sched_of K ?c) (set (map (sched_of K) ts))" by simp
    ultimately show ?thesis using False only_touches_same [of _ _ "ts_heap K" h] by (intro exI [of _ h]) simp
  qed
  then obtain h where h: "(if s \<noteq> 0 then make_task_ready ?c ?K else Some ?K) = Some (?K\<lparr>ts_heap := h\<rparr>)"
    "dll h (task_queue K) (map (sched_of K) (us @ t # vs))" "same_values (ts_heap K) h"
    "only_touches (task_queue K) (set (map (sched_of K) (us @ t # vs))) (ts_heap K) h" by blast
  let ?K1 = "?K\<lparr>ts_heap := h\<rparr>"
  have sl: "sched_of ?K1 = sched_of K" "live ?K1 = live K"
    using live_heap [of ?K h] h(3) by (simp_all add: keep)
  have dn: "denied ?K1 u = denied K u" for u
    using set_task_denied [OF tk(1), of "left_task regs s tk" u] by (simp add: denied_def rd_task_def)
  have "set (us @ t # vs) \<subseteq> insert ?c (set ts)" using arg_cong [OF split, of set] by (auto split: if_splits)
  then have "live K u" if "u \<in> set (us @ t # vs)" for u using that run(2) queue(2) by blast
  moreover have "signals_there ?K t"
    using pick(3) tk by (auto simp: signals_there_def set_task_read)
  then have "signals_there ?K1 t" using signals_there_heap [of ?K t _ _ h] h(2,4) by simp
  ultimately obtain K' where K': "switch_rest ?K1 = Some K'" "current_task K' = t"
    "dll (ts_heap K') (task_queue K) (map (sched_of K) vs)"
    "only_touches (task_queue K) (set (map (sched_of K) (us @ t # vs))) h (ts_heap K')"
    "\<forall>u \<in> set us. map_option node_owner (nodes (ts_heap K') (sched_of K u)) = Some NULL"
    "task_queue K' = task_queue K" "task_list K' = task_list K" "ts_tree K' = ts_tree K"
    "\<forall>u tk. rd_task ?K1 u = Some tk \<longrightarrow> (\<exists>tk'. rd_task K' u = Some tk' \<and> tk_status tk' = tk_status tk \<and>
        tk_finished tk' = tk_finished tk \<and> tk_sched_node tk' = tk_sched_node tk \<and> tk_sleep_node tk' = tk_sleep_node tk \<and>
        tk_tree_entry tk' = tk_tree_entry tk)"
    using switch_rest_law [of ?K1 us t vs] h(2) pick dn unfolding sl by auto
  have run': "switch_task regs s K = Some K'"
    using h(1) K'(1) switch_task_split [OF run(1) refl tk(1), of regs s] by (simp add: Let_def)
  have tasks: "\<exists>tk'. rd_task K' u = Some tk' \<and> tk_status tk' = (if u = ?c then s else tk_status uk) \<and>
        tk_finished tk' = tk_finished uk \<and> tk_sched_node tk' = tk_sched_node uk \<and> tk_sleep_node tk' = tk_sleep_node uk \<and>
        tk_tree_entry tk' = tk_tree_entry uk" if "rd_task K u = Some uk" for u uk
    using K'(9) [rule_format, of u "if u = ?c then left_task regs s tk else uk"] tk that
    by (auto simp: set_task_read split: if_splits)
  have "us @ t # vs = ts @ (if s \<noteq> 0 then [?c] else [])"
    using split by (cases "s = 0") simp_all
  then have "only_touches (task_queue K) (set (map (sched_of K) (ts @ (if s \<noteq> 0 then [?c] else [])))) h (ts_heap K')"
    "only_touches (task_queue K) (set (map (sched_of K) (ts @ (if s \<noteq> 0 then [?c] else [])))) (ts_heap K) h"
    using K'(4) h(4) by simp_all
  from only_touches_trans [OF this(2,1)] have touch: "only_touches (task_queue K) (set (map (sched_of K) (ts @ (if s \<noteq> 0 then [?c] else [])))) (ts_heap K) (ts_heap K')"
    by (simp only: Un_absorb)
  have "\<forall>u uk. rd_task K u = Some uk \<longrightarrow> (\<exists>tk'. rd_task K' u = Some tk' \<and> tk_status tk' = (if u = ?c then s else tk_status uk) \<and>
        tk_finished tk' = tk_finished uk \<and> tk_sched_node tk' = tk_sched_node uk \<and> tk_sleep_node tk' = tk_sleep_node uk \<and>
        tk_tree_entry tk' = tk_tree_entry uk)"
    by (intro allI impI tasks)
  with run' K'(2,3) touch K'(5-8) show ?thesis by (intro exI [of _ K'] conjI)
qed

end
