(* ===== verification/Task_Life.thy ===== *)
theory Task_Life
  imports Task_Switch
begin

text \<open>
  Scheduling as the tasks see it: the ready queue is served in order, a task that the throttle refuses
  is dropped from it, a timer tick inside \<^verbatim>\<open>sleep_on\<close> loses the task, and a task that has ended stays
  in the ready queue until it is freed there.
\<close>

section \<open>Rotation of the ready queue\<close>

definition ready_queue :: "tasking \<Rightarrow> ptr list \<Rightarrow> bool" where
  "ready_queue K ts \<longleftrightarrow> dll (ts_heap K) (task_queue K) (map (sched_of K) ts) \<and> (\<forall>u \<in> set ts. live K u)"

definition first_admitted :: "tasking \<Rightarrow> ptr list \<Rightarrow> ptr list \<Rightarrow> ptr \<Rightarrow> ptr list \<Rightarrow> bool" where
  "first_admitted K ts us t vs \<longleftrightarrow> ts = us @ t # vs \<and> (\<forall>u \<in> set us. denied K u) \<and> \<not> denied K t \<and> signals_there K t"

text \<open>The node is in no list.\<close>

definition unlinked :: "tasking \<Rightarrow> ptr \<Rightarrow> bool" where
  "unlinked K n \<longleftrightarrow> map_option node_owner (nodes (ts_heap K) n) = Some NULL"

lemma unlinked_not_in: "unlinked K n \<Longrightarrow> dll (ts_heap K) l ns \<Longrightarrow> n \<notin> set ns"
  using dll_node [of "ts_heap K" l ns n] by (auto simp: unlinked_def dll_def)

lemma live_carries:
  assumes "live K u" and "same_values (ts_heap K) (ts_heap K')" and "\<And>tk. rd_task K u = Some tk \<Longrightarrow>
     \<exists>tk'. rd_task K' u = Some tk' \<and> tk_sched_node tk' = tk_sched_node tk \<and> tk_sleep_node tk' = tk_sleep_node tk"
  shows "live K' u" and "sched_of K' u = sched_of K u" and "sleep_of K' u = sleep_of K u"
proof -
  obtain tk where tk: "rd_task K u = Some tk" using assms(1) by (auto simp: live_def)
  then obtain tk' where tk': "rd_task K' u = Some tk'" "tk_sched_node tk' = tk_sched_node tk" "tk_sleep_node tk' = tk_sleep_node tk"
    using assms(3) by blast
  with tk show s: "sched_of K' u = sched_of K u" "sleep_of K' u = sleep_of K u" by (simp_all add: sched_of_def sleep_of_def)
  have "live (K\<lparr>ts_heap := ts_heap K'\<rparr>) u" using assms(1) live_heap [OF assms(2)] by simp
  then show "live K' u" using tk' s unfolding live_def by simp
qed

lemma switch_rotates:
  assumes run: "is_tasking K" "live K c" "current_task K = c" and idle: "s \<noteq> 0 \<Longrightarrow> unlinked K (sleep_of K c)"
    and off: "unlinked K (sched_of K c)" and rq: "ready_queue K ts"
    and pick: "first_admitted K (if s \<noteq> 0 then ts @ [c] else ts) us t vs"
  shows "\<exists>K'. switch_task regs s K = Some K' \<and> current_task K' = t \<and> ready_queue K' vs \<and>
     (\<forall>u \<in> set us. unlinked K' (sched_of K' u)) \<and>
     (\<forall>n. n \<notin> set (map (sched_of K) (ts @ (if s \<noteq> 0 then [c] else []))) \<longrightarrow> nodes (ts_heap K') n = nodes (ts_heap K) n) \<and>
     (\<forall>l ns. dll (ts_heap K) l ns \<longrightarrow> l \<noteq> task_queue K \<longrightarrow> sched_of K c \<notin> set ns \<longrightarrow> dll (ts_heap K') l ns) \<and>
     live K' c \<and> sched_of K' c = sched_of K c \<and> sleep_of K' c = sleep_of K c \<and>
     task_queue K' = task_queue K \<and> task_list K' = task_list K \<and> ts_tree K' = ts_tree K \<and>
     map_option tk_status (rd_task K' c) = Some s \<and>
     map_option tk_finished (rd_task K' c) = map_option tk_finished (rd_task K c) \<and>
     map_option tk_tree_entry (rd_task K' c) = map_option tk_tree_entry (rd_task K c)"
proof -
  let ?N = "set (map (sched_of K) (ts @ (if s \<noteq> 0 then [c] else [])))"
  have q: "dll (ts_heap K) (task_queue K) (map (sched_of K) ts)" "\<forall>u \<in> set ts. live K u"
    using rq by (simp_all add: ready_queue_def)
  have fresh: "sched_of K c \<notin> set (map (sched_of K) ts)" using unlinked_not_in [OF off q(1)] .
  have p: "(if s \<noteq> 0 then ts @ [c] else ts) = us @ t # vs" "\<forall>u \<in> set us. denied K u" "\<not> denied K t" "signals_there K t"
    using pick by (simp_all add: first_admitted_def)
  obtain K' where K': "switch_task regs s K = Some K'" "current_task K' = t" "dll (ts_heap K') (task_queue K) (map (sched_of K) vs)"
    "only_touches (task_queue K) ?N (ts_heap K) (ts_heap K')"
    "\<forall>u \<in> set us. map_option node_owner (nodes (ts_heap K') (sched_of K u)) = Some NULL"
    "task_queue K' = task_queue K" "task_list K' = task_list K" "ts_tree K' = ts_tree K"
    "\<forall>u tk. rd_task K u = Some tk \<longrightarrow> (\<exists>tk'. rd_task K' u = Some tk' \<and>
        tk_status tk' = (if u = c then s else tk_status tk) \<and>
        tk_finished tk' = tk_finished tk \<and> tk_sched_node tk' = tk_sched_node tk \<and> tk_sleep_node tk' = tk_sleep_node tk \<and>
        tk_tree_entry tk' = tk_tree_entry tk)"
    using switch_task_law [of K s ts us t vs regs] run idle q fresh p unfolding unlinked_def by auto
  have "live K u" if "u \<in> set (us @ t # vs)" for u
  proof -
    have "us @ t # vs = ts @ (if s \<noteq> 0 then [c] else [])" using p(1) by (cases "s = 0") simp_all
    with that q(2) run(2) show ?thesis by (auto split: if_splits)
  qed
  moreover have lc: "live K' u" "sched_of K' u = sched_of K u" "sleep_of K' u = sleep_of K u" if "live K u" for u
    using live_carries [OF that only_touches_same [OF K'(4)]] K'(9) by blast+
  ultimately have lv: "live K' u" "sched_of K' u = sched_of K u" if "u \<in> set (us @ t # vs)" for u using that by simp_all
  then have m: "map (sched_of K') vs = map (sched_of K) vs" by simp
  have 1: "ready_queue K' vs" unfolding ready_queue_def m K'(6) using K'(3) lv(1) by simp
  have 2: "\<forall>u \<in> set us. unlinked K' (sched_of K' u)" using K'(5) lv by (simp add: unlinked_def)
  have 3: "\<forall>n. n \<notin> ?N \<longrightarrow> nodes (ts_heap K') n = nodes (ts_heap K) n" using K'(4) by (simp add: only_touches_def)
  have 4: "dll (ts_heap K') l ns" if "dll (ts_heap K) l ns" "l \<noteq> task_queue K" "sched_of K c \<notin> set ns" for l ns
    using dll_frame [OF K'(4) that(1,2)] dll_disjoint [OF that(1) q(1) that(2)] that(3) by auto
  obtain ck where ck: "rd_task K c = Some ck" using run(2) by (auto elim: liveE)
  have 5: "map_option tk_status (rd_task K' c) = Some s" "map_option tk_finished (rd_task K' c) = map_option tk_finished (rd_task K c)"
     "map_option tk_tree_entry (rd_task K' c) = map_option tk_tree_entry (rd_task K c)"
    using K'(9) [rule_format, OF ck] ck by auto
  show ?thesis
    by (intro exI [of _ K'] conjI allI impI) (fact K'(1,2,6-8) 1 2 5 3 [rule_format] lc [OF run(2)] | erule (2) 4 | erule 3 [rule_format])+
qed

section \<open>A timer tick inside sleep_on\<close>

text \<open>A switch that finds the current task in a wait queue is a switch after the task has been taken out
  of it and marked.\<close>

definition interrupt_at :: "ptr \<Rightarrow> task \<Rightarrow> heap \<Rightarrow> tasking \<Rightarrow> tasking" where
  "interrupt_at c tk h K = K\<lparr>ts_tasks := (ts_tasks K)(c := Some (tk\<lparr>tk_sleep_interrupted := True\<rparr>)), ts_heap := h\<rparr>"

lemma make_ready_idle:
  "rd_task K t = Some tk \<Longrightarrow> rd_node (ts_heap K) (tk_sleep_node tk) = Some sn \<Longrightarrow> node_owner sn = NULL \<Longrightarrow>
     make_task_ready t K = on_lists (list_append (task_queue K) (tk_sched_node tk)) K"
  by (simp add: make_task_ready_def)

lemma make_ready_waiting:
  "rd_task K t = Some tk \<Longrightarrow> rd_node (ts_heap K) (tk_sleep_node tk) = Some sn \<Longrightarrow> node_owner sn = q \<Longrightarrow> q \<noteq> NULL \<Longrightarrow>
     q \<noteq> sleep_queue K \<Longrightarrow> list_delete q (tk_sleep_node tk) (ts_heap K) = Some h \<Longrightarrow>
     make_task_ready t K = on_lists (list_append (task_queue K) (tk_sched_node tk))
       (K\<lparr>ts_tasks := (ts_tasks K)(t := Some (tk\<lparr>tk_sleep_interrupted := True\<rparr>)), ts_heap := h\<rparr>)"
  by (simp add: make_task_ready_def on_lists_def wr_task_def)

lemma switch_sleeping:
  assumes "is_tasking K" and "current_task K = c" and "rd_task K c = Some tk" and "s \<noteq> 0"
    and "rd_node (ts_heap K) (tk_sleep_node tk) = Some sn" and "node_owner sn = q" and "q \<noteq> NULL" and "q \<noteq> sleep_queue K"
    and "list_delete q (tk_sleep_node tk) (ts_heap K) = Some h" and "map_option node_owner (rd_node h (tk_sleep_node tk)) = Some NULL"
  shows "switch_task regs s K = switch_task regs s (interrupt_at c tk h K)"
proof -
  have c: "c \<noteq> NULL" using assms(3) by (auto simp: rd_task_def)
  obtain sn' where sn': "rd_node h (tk_sleep_node tk) = Some sn'" "node_owner sn' = NULL" using assms(10) by auto
  let ?K = "interrupt_at c tk h K" and ?tk = "tk\<lparr>tk_sleep_interrupted := True\<rparr>"
  have r: "is_tasking ?K" "current_task ?K = c" "rd_task ?K c = Some ?tk"
    using assms(1,2) c by (simp_all add: interrupt_at_def rd_task_def)
  let ?A = "K\<lparr>ts_tasks := (ts_tasks K)(c := Some (left_task regs s tk))\<rparr>"
  let ?B = "?K\<lparr>ts_tasks := (ts_tasks ?K)(c := Some (left_task regs s ?tk))\<rparr>"
  have "(left_task regs s tk)\<lparr>tk_sleep_interrupted := True\<rparr> = left_task regs s ?tk" by (simp add: left_task_def)
  then have "?A\<lparr>ts_tasks := (ts_tasks ?A)(c := Some ((left_task regs s tk)\<lparr>tk_sleep_interrupted := True\<rparr>)), ts_heap := h\<rparr> = ?B"
    by (simp add: interrupt_at_def)
  moreover have "make_task_ready c ?A = on_lists (list_append (task_queue ?A) (tk_sched_node (left_task regs s tk)))
      (?A\<lparr>ts_tasks := (ts_tasks ?A)(c := Some ((left_task regs s tk)\<lparr>tk_sleep_interrupted := True\<rparr>)), ts_heap := h\<rparr>)"
    using assms(5-9) c by (intro make_ready_waiting [where sn = sn and q = q]) (simp_all add: set_task_read)
  moreover have "make_task_ready c ?B = on_lists (list_append (task_queue ?B) (tk_sched_node (left_task regs s ?tk))) ?B"
    using sn' c by (intro make_ready_idle [where sn = sn']) (simp_all add: rd_task_def interrupt_at_def)
  moreover have "task_queue ?B = task_queue ?A" "tk_sched_node (left_task regs s ?tk) = tk_sched_node (left_task regs s tk)"
    by (simp_all add: interrupt_at_def)
  ultimately have "make_task_ready c ?A = make_task_ready c ?B" by (simp only:)
  then show ?thesis
    unfolding switch_task_split [OF assms(1-3)] switch_task_split [OF r] Let_def using assms(4) by (simp only: if_True simp_thms)
qed

lemma canlive_interrupted [simp]:
  "fst (task_ttl_canlive (tk\<lparr>tk_sleep_interrupted := b\<rparr>)) = fst (task_ttl_canlive tk)"
  by (cases "tk_pid tk = 0"; cases "tk_ttl_pwm_mode tk") (simp_all add: task_ttl_canlive_def Let_def)

lemma interrupt_keeps:
  assumes "rd_task K c = Some tk" and "same_values (ts_heap K) h"
  shows "sched_of (interrupt_at c tk h K) = sched_of K" "sleep_of (interrupt_at c tk h K) = sleep_of K"
    "live (interrupt_at c tk h K) = live K" "denied (interrupt_at c tk h K) u = denied K u"
    "ts_heap (interrupt_at c tk h K) = h" "task_queue (interrupt_at c tk h K) = task_queue K"
proof -
  let ?K = "K\<lparr>ts_tasks := (ts_tasks K)(c := Some (tk\<lparr>tk_sleep_interrupted := True\<rparr>))\<rparr>"
  have e: "interrupt_at c tk h K = ?K\<lparr>ts_heap := h\<rparr>" by (simp add: interrupt_at_def)
  note k = set_task_keeps [OF assms(1), of "tk\<lparr>tk_sleep_interrupted := True\<rparr>", simplified]
  show "sched_of (interrupt_at c tk h K) = sched_of K" "sleep_of (interrupt_at c tk h K) = sleep_of K"
    "live (interrupt_at c tk h K) = live K" "ts_heap (interrupt_at c tk h K) = h" "task_queue (interrupt_at c tk h K) = task_queue K"
    unfolding e using live_heap [of ?K h] assms(2) by (simp_all add: k)
  have "denied ?K u = denied K u"
    using assms(1) by (intro set_task_denied) simp_all
  then show "denied (interrupt_at c tk h K) u = denied K u" unfolding e by (simp add: denied_def)
qed

lemma sleep_tick:
  assumes run: "is_tasking K" "live K c" "current_task K = c" and idle: "unlinked K (sleep_of K c)" "unlinked K (sched_of K c)"
    and apart: "sched_of K c \<noteq> sleep_of K c"
    and wait: "dll (ts_heap K) q ws" "q \<noteq> task_queue K" "q \<noteq> sleep_queue K"
    and rq: "ready_queue K ts" and pick: "first_admitted K (ts @ [c]) us t vs"
  shows "\<exists>K1 K2. sleep_on_enter q K = Some (False, K1) \<and> dll (ts_heap K1) q (ws @ [sleep_of K c]) \<and>
     switch_task regs TASKST_READY K1 = Some K2 \<and> current_task K2 = t \<and> dll (ts_heap K2) q ws \<and>
     ready_queue K2 vs \<and> unlinked K2 (sleep_of K2 c)"
proof -
  let ?n = "sleep_of K c" and ?m = "sched_of K c"
  have q: "dll (ts_heap K) (task_queue K) (map (sched_of K) ts)" using rq by (simp add: ready_queue_def)
  obtain tk where tk: "rd_task K c = Some tk" "c \<noteq> NULL" "?m = tk_sched_node tk" "?n = tk_sleep_node tk" "?n \<noteq> NULL"
    "nodes (ts_heap K) ?n \<noteq> None" using run(2) by (auto elim: liveE)
  then obtain sn where sn: "nodes (ts_heap K) ?n = Some sn" "rd_node (ts_heap K) ?n = Some sn" "node_owner sn = NULL"
    using idle(1) by (auto simp: unlinked_def rd_node_def)
  have out: "?n \<notin> set ws" "?n \<notin> set (map (sched_of K) ts)" "?m \<notin> set ws" "?m \<notin> set (map (sched_of K) ts)"
    using unlinked_not_in [OF idle(1) wait(1)] unlinked_not_in [OF idle(1) q] unlinked_not_in [OF idle(2) wait(1)]
      unlinked_not_in [OF idle(2) q] by auto
  obtain h1 where h1: "list_append q ?n (ts_heap K) = Some h1" "dll h1 q (ws @ [?n])"
    "only_touches q (insert ?n (set ws)) (ts_heap K) h1"
    using list_append_dll [OF wait(1) out(1) tk(5) sn(1)] by blast
  obtain h2 where h2: "list_delete q ?n h1 = Some h2" "dll h2 q ws" "only_touches q (set (ws @ [?n])) h1 h2"
    "map_option node_owner (nodes h2 ?n) = Some NULL"
    using list_delete_dll [of h1 q ws ?n "[]"] h1(2) by auto
  let ?k1 = "K\<lparr>ts_tasks := (ts_tasks K)(c := Some (tk\<lparr>tk_sleep_interrupted := False\<rparr>)), ts_heap := h1\<rparr>"
  have enter: "sleep_on_enter q K = Some (False, ?k1)"
    using tk sn(2,3) h1(1) run(3) by (simp add: sleep_on_enter_def wr_task_def on_lists_def)
  obtain nd where nd: "rd_node h1 ?n = Some nd" "node_owner nd = q"
    using dll_node [OF h1(2), of ?n] tk(5) by (auto simp: rd_node_def)
  have qn: "q \<noteq> NULL" using wait(1) by (simp add: dll_def)
  have "switch_task regs TASKST_READY ?k1 =
      switch_task regs TASKST_READY (interrupt_at c (tk\<lparr>tk_sleep_interrupted := False\<rparr>) h2 ?k1)"
    using run(1,3) tk nd qn wait(3) h2(1,4)
    by (intro switch_sleeping [where sn = nd and q = q]) (simp_all add: rd_task_def rd_node_def)
  also have "interrupt_at c (tk\<lparr>tk_sleep_interrupted := False\<rparr>) h2 ?k1 = interrupt_at c tk h2 K"
    by (simp add: interrupt_at_def)
  finally have sw: "switch_task regs TASKST_READY ?k1 = switch_task regs TASKST_READY (interrupt_at c tk h2 K)" .
  let ?k = "interrupt_at c tk h2 K"
  have v: "same_values (ts_heap K) h2"
    using same_values_trans only_touches_same h1(3) h2(3) by blast
  note ik = interrupt_keeps [OF tk(1) v]
  have disj: "set (map (sched_of K) ts) \<inter> set (ws @ [?n]) = {}"
    using dll_disjoint [OF wait(1) q wait(2)] out(2) by auto
  have q1: "dll h1 (task_queue K) (map (sched_of K) ts)"
    using dll_frame [OF h1(3) q] wait(2) disj by auto
  have q2: "dll h2 (task_queue K) (map (sched_of K) ts)"
    using dll_frame [OF h2(3) q1] wait(2) disj by auto
  have rk: "ready_queue ?k ts" using q2 rq by (simp add: ready_queue_def ik)
  have "nodes h2 ?m = nodes (ts_heap K) ?m"
    using h1(3) h2(3) out(3) apart by (auto simp: only_touches_def)
  then have idle2: "unlinked ?k (sched_of ?k c)" "unlinked ?k (sleep_of ?k c)"
    using idle(2) h2(4) by (simp_all add: unlinked_def ik)
  have "signals_there K t" using pick by (simp add: first_admitted_def)
  then have "signals_there (K\<lparr>ts_heap := h2\<rparr>) t"
    using signals_there_heap [OF signals_there_heap [of K t, OF _ h1(3,2)], of q _ h2] h2(2,3) by simp
  then have "signals_there ?k t"
    using tk(1) by (auto simp: signals_there_def interrupt_at_def rd_task_def split: if_splits)
  then have "first_admitted ?k (ts @ [c]) us t vs"
    using pick by (simp add: first_admitted_def ik)
  moreover have "is_tasking ?k" "live ?k c" "current_task ?k = c"
    using run ik(3) by (simp_all add: interrupt_at_def)
  ultimately obtain K2 where K2: "switch_task regs TASKST_READY ?k = Some K2" "current_task K2 = t" "ready_queue K2 vs"
    "\<forall>n. n \<notin> set (map (sched_of K) (ts @ [c])) \<longrightarrow> nodes (ts_heap K2) n = nodes h2 n"
    "\<forall>l ns. dll h2 l ns \<longrightarrow> l \<noteq> task_queue K \<longrightarrow> ?m \<notin> set ns \<longrightarrow> dll (ts_heap K2) l ns" "sleep_of K2 c = ?n"
    using switch_rotates [of ?k c TASKST_READY ts us t vs regs] idle2 rk by (auto simp: ik)
  have "unlinked K2 (sleep_of K2 c)"
    using K2(4,6) h2(4) out(2) apart by (auto simp: unlinked_def)
  moreover have "dll (ts_heap K2) q ws" using K2(5) h2(2) wait(2) out(3) by blast
  ultimately show ?thesis using enter h1(2) sw K2(1-3) by (intro exI [of _ ?k1] exI [of _ K2]) simp
qed

section \<open>A task that has ended\<close>

lemma freed_seg:
  "seg m l p x ns NULL q \<Longrightarrow> \<forall>a \<in> set ns. m' a = None \<or> m' a = m a \<Longrightarrow> n \<in> set ns \<Longrightarrow> m' n = None \<Longrightarrow>
     \<not> seg m' l p x ms NULL q'"
proof (induction ns arbitrary: p x ms)
  case (Cons a ns)
  obtain nd where a: "x = a" "a \<noteq> NULL" "m a = Some nd" "seg m l a (node_next nd) ns NULL q"
    using Cons.prems(1) by auto
  show ?case
  proof
    assume s: "seg m' l p x ms NULL q'"
    then obtain bs nd' where b: "m' a = Some nd'" "seg m' l a (node_next nd') bs NULL q'"
      using a(1,2) by (cases ms) auto
    have "m' a = None \<or> m' a = m a" using Cons.prems(2) by simp
    then have "nd' = nd" using a(3) b(1) by simp
    moreover have "n \<in> set ns" using Cons.prems(3,4) b(1) by auto
    ultimately show False using Cons.IH [OF a(4) _ _ Cons.prems(4), of bs] Cons.prems(2) b(2) by simp
  qed
qed simp

lemma freed_node_breaks:
  assumes "dll h l ns" and "n \<in> set ns" and "lists h' l = lists h l" and "nodes h' n = None"
    and "\<forall>a \<in> set ns. nodes h' a = None \<or> nodes h' a = nodes h a"
  shows "\<not> dll h' l ms"
  using assms freed_seg [where m = "nodes h" and m' = "nodes h'" and ns = ns and n = n] by (auto simp: dll_def)

text \<open>The nodes of a task in the ready queue are freed.\<close>

lemma reap_queued:
  assumes "live K c" and "map_option tk_tree_entry (rd_task K c) = Some e" and "e \<noteq> NULL" and "tree_root (ts_tree K) \<noteq> e"
    and "tree_remove_reparent_root e (ts_tree K) \<noteq> None"
    and "dll (ts_heap K) (task_list K) ls" and "c \<in> value_of (ts_heap K) ` set ls" and "task_list K \<noteq> task_queue K"
    and "dll (ts_heap K) (task_queue K) ns" and "sched_of K c \<in> set ns"
  shows "\<exists>K'. task_reap c K = Some K' \<and> (\<forall>ms. \<not> dll (ts_heap K') (task_queue K') ms)"
proof -
  obtain tk where tk: "rd_task K c = Some tk" "tk_tree_entry tk = e" "sched_of K c = tk_sched_node tk"
    using assms(1,2) by (auto simp: live_def sched_of_def)
  obtain T where T: "tree_remove_reparent_root e (ts_tree K) = Some T" using assms(5) by blast
  obtain n where n: "list_find (task_list K) c (ts_heap K) = Some n" "n \<in> set ls"
  proof (cases "find (\<lambda>n. value_of (ts_heap K) n = c) ls")
    case None
    with assms(7) show ?thesis by (auto simp: find_None_iff)
  next
    case (Some n)
    then have "n \<in> set ls" by (auto simp: find_Some_iff)
    with Some list_find_dll [OF assms(6), of c] that show ?thesis by simp
  qed
  obtain h where h: "list_delete (task_list K) n (ts_heap K) = Some h" "only_touches (task_list K) (set ls) (ts_heap K) h"
    using list_delete_remove1 [OF assms(6) n(2)] by blast
  have "dll h (task_queue K) ns"
    using dll_frame [OF h(2) assms(9)] dll_disjoint [OF assms(9,6)] assms(8) by auto
  let ?h = "free_node (tk_sched_node tk) (free_node (tk_sleep_node tk) h)"
  have "\<not> dll ?h (task_queue K) ms" for ms
    using freed_node_breaks [OF \<open>dll h (task_queue K) ns\<close> assms(10), of ?h] tk(3) by (simp add: free_node_def)
  moreover have "task_reap c K = Some (K\<lparr>ts_tree := T, ts_tasks := (ts_tasks K)(c := None), ts_heap := ?h\<rparr>)"
    using tk T n(1) h(1) assms(3,4) by (simp add: task_reap_def task_removefromtree_def free_task_def rd_task_def Let_def split: if_splits)
  ultimately show ?thesis by auto
qed

lemma zombie_queued:
  assumes run: "is_tasking K" "live K c" "current_task K = c" and idle: "unlinked K (sleep_of K c)" "unlinked K (sched_of K c)"
    and rq: "ready_queue K ts" and pick: "first_admitted K (ts @ [c]) us t vs" and wait: "c \<in> set vs"
    and entry: "map_option tk_tree_entry (rd_task K c) = Some e" "e \<noteq> NULL" "tree_root (ts_tree K) \<noteq> e"
      "tree_remove_reparent_root e (ts_tree K) \<noteq> None"
    and list: "dll (ts_heap K) (task_list K) ls" "c \<in> value_of (ts_heap K) ` set ls" "task_list K \<noteq> task_queue K"
  shows "\<exists>K1 K2. switch_task regs TASKST_READY K = Some K1 \<and> ready_queue K1 vs \<and>
     map_option tk_status (rd_task K1 c) = Some TASKST_READY \<and>
     map_option tk_finished (rd_task K1 c) = map_option tk_finished (rd_task K c) \<and>
     task_reap c K1 = Some K2 \<and> (\<forall>ms. \<not> dll (ts_heap K2) (task_queue K2) ms)"
proof -
  have q: "dll (ts_heap K) (task_queue K) (map (sched_of K) ts)" using rq by (simp add: ready_queue_def)
  obtain K1 where K1: "switch_task regs TASKST_READY K = Some K1" "ready_queue K1 vs"
    "\<forall>n. n \<notin> set (map (sched_of K) (ts @ [c])) \<longrightarrow> nodes (ts_heap K1) n = nodes (ts_heap K) n"
    "\<forall>l ns. dll (ts_heap K) l ns \<longrightarrow> l \<noteq> task_queue K \<longrightarrow> sched_of K c \<notin> set ns \<longrightarrow> dll (ts_heap K1) l ns"
    "live K1 c" "task_queue K1 = task_queue K" "task_list K1 = task_list K" "ts_tree K1 = ts_tree K"
    "map_option tk_status (rd_task K1 c) = Some TASKST_READY"
    "map_option tk_finished (rd_task K1 c) = map_option tk_finished (rd_task K c)"
    "map_option tk_tree_entry (rd_task K1 c) = map_option tk_tree_entry (rd_task K c)"
    using switch_rotates [of K c TASKST_READY ts us t vs regs] run idle rq pick by auto
  have off: "sched_of K c \<notin> set ls" using unlinked_not_in [OF idle(2) list(1)] .
  have l1: "dll (ts_heap K1) (task_list K1) ls" using K1(4,7) list(1,3) off by simp
  have "set (map (sched_of K) ts) \<inter> set ls = {}" using dll_disjoint [OF q list(1)] list(3) by auto
  then have "nodes (ts_heap K1) n = nodes (ts_heap K) n" if "n \<in> set ls" for n
  proof -
    have "n \<notin> set (map (sched_of K) (ts @ [c]))" using that off \<open>_ = {}\<close> by auto
    with K1(3) show ?thesis by blast
  qed
  then have "value_of (ts_heap K1) ` set ls = value_of (ts_heap K) ` set ls"
    by (intro image_cong) (simp_all add: value_of_def)
  then obtain K2 where "task_reap c K1 = Some K2" "\<forall>ms. \<not> dll (ts_heap K2) (task_queue K2) ms"
    using reap_queued [of K1 c e ls "map (sched_of K1) vs"] K1 entry list l1 wait by (auto simp: ready_queue_def)
  with K1(1,2,9,10) show ?thesis by blast
qed

section \<open>File descriptors\<close>

text \<open>The open descriptors of a table, and the tables as the code keeps them.\<close>

definition fd_map :: "fd_table \<Rightarrow> nat \<Rightarrow> ptr option" where
  "fd_map fd i = (if i < unat (fd_length fd) \<and> fd_entries fd ! i \<noteq> NULL then Some (fd_entries fd ! i) else None)"

definition fd_ok :: "fd_table \<Rightarrow> bool" where
  "fd_ok fd \<longleftrightarrow> length (fd_entries fd) = unat (fd_capacity fd) \<and> fd_length fd \<le> fd_capacity fd \<and> fd_capacity fd \<noteq> 0"

lemma find_gap_law:
  "n \<le> length es \<Longrightarrow> find_gap es i n = Some r \<Longrightarrow> (case r of
     Some k \<Rightarrow> i \<le> k \<and> k < n \<and> es ! k = NULL \<and> (\<forall>j. i \<le> j \<longrightarrow> j < k \<longrightarrow> es ! j \<noteq> NULL)
   | None \<Rightarrow> \<forall>j. i \<le> j \<longrightarrow> j < n \<longrightarrow> es ! j \<noteq> NULL)"
proof (induction es i n arbitrary: r rule: find_gap.induct)
  case (1 es i n)
  show ?case
  proof (cases "n \<le> i \<or> es ! i = NULL")
    case True
    with "1.prems" show ?thesis by (subst (asm) find_gap.simps) (auto split: if_splits)
  next
    case False
    then have "find_gap es (Suc i) n = Some r" using "1.prems" by (subst (asm) find_gap.simps) (simp split: if_splits)
    moreover have "j = i \<or> Suc i \<le> j" if "i \<le> j" for j using that by auto
    ultimately show ?thesis using "1.IH" "1.prems"(1) False by (fastforce split: option.splits)
  qed
qed

lemma find_gap_total: "n \<le> length es \<Longrightarrow> find_gap es i n \<noteq> None"
proof (induction es i n rule: find_gap.induct)
  case (1 es i n)
  then show ?case by (subst find_gap.simps) auto
qed

lemma append_fd_law:
  assumes "fd_ok fd" and "node \<noteq> NULL" and "unat (fd_capacity fd) < 2 ^ 31" and "unat (fd_capacity fd) \<le> length junk"
  shows "\<exists>n fd'. append_fd node junk fd = Some (of_nat n, fd') \<and> fd_ok fd' \<and> fd_map fd n = None \<and>
     (\<forall>j < n. fd_map fd j \<noteq> None) \<and> fd_map fd' = (fd_map fd)(n \<mapsto> node) \<and> fd_refs fd' = fd_refs fd"
proof -
  let ?es = "fd_entries fd" and ?l = "unat (fd_length fd)" and ?c = "unat (fd_capacity fd)"
  have ok: "length ?es = ?c" "?l \<le> ?c" "0 < ?c"
    using assms(1) by (simp_all add: fd_ok_def word_le_nat_alt unat_gt_0)
  obtain r where r: "find_gap ?es 0 ?l = Some r" using find_gap_total [of ?l ?es 0] ok by auto
  note gap = find_gap_law [OF _ r]
  show ?thesis
  proof (cases r)
    case (Some k)
    with gap ok have k: "k < ?l" "?es ! k = NULL" "\<forall>j < k. ?es ! j \<noteq> NULL" by auto
    let ?fd = "fd\<lparr>fd_entries := ?es[k := node]\<rparr>"
    have "fd_map ?fd = (fd_map fd)(k \<mapsto> node)"
      using k ok assms(2) by (auto simp: fd_map_def fun_eq_iff nth_list_update)
    with r Some k assms(1) show ?thesis
      by (intro exI [of _ k] exI [of _ ?fd]) (simp add: append_fd_def fd_ok_def fd_map_def)
  next
    case None
    with gap ok have used: "\<forall>j < ?l. ?es ! j \<noteq> NULL" by simp
    let ?grown = "fd_length fd = fd_capacity fd"
    let ?es' = "if ?grown then take (2 * ?c) (?es @ junk) else ?es"
    let ?fd = "fd\<lparr>fd_entries := ?es'[?l := node], fd_length := fd_length fd + 1,
        fd_capacity := if ?grown then fd_capacity fd * 2 else fd_capacity fd\<rparr>"
    have c2: "unat (fd_capacity fd * 2) = 2 * ?c"
      using assms(3) by (simp add: unat_word_ariths)
    have l1: "unat (fd_length fd + 1) = Suc ?l"
      using ok(2) assms(3) by (simp add: unat_word_ariths)
    have le: "length ?es' = unat (fd_capacity ?fd)" "?l < length ?es'"
      using ok assms(4) c2 by (auto simp: word_unat_eq_iff)
    have "fd_map ?fd = (fd_map fd)(?l \<mapsto> node)"
      using le(2) l1 assms(2) ok by (auto simp: fd_map_def fun_eq_iff nth_list_update nth_append less_Suc_eq)
    moreover have "fd_ok ?fd"
      using le l1 ok c2 by (simp add: fd_ok_def word_le_nat_alt) (auto simp: word_unat_eq_iff)
    moreover have "append_fd node junk fd = Some (of_nat ?l, ?fd)"
      using r None le c2 by (auto simp: append_fd_def Let_def)
    ultimately show ?thesis using used by (intro exI [of _ ?l] exI [of _ ?fd]) (simp add: fd_map_def)
  qed
qed

text \<open>The check of \<^verbatim>\<open>process_move_fd\<close> lets the descriptor behind the last one pass: with a full array the
  read is outside of it.\<close>

lemma move_fd_overrun:
  "rd_fds K t = Some fd \<Longrightarrow> fd_ok fd \<Longrightarrow> fd_length fd = fd_capacity fd \<Longrightarrow> src \<le> fd_length fd \<Longrightarrow>
     process_move_fd t src (fd_length fd) K = None"
  by (simp add: process_move_fd_def fd_ok_def Let_def not_less)

end
