(* ===== verification/Spin.thy ===== *)
theory Spin
  imports Prelude
begin

text \<open>
  The spin lock of \<^verbatim>\<open>src/src/task/spin.cpp\<close>, under any interleaving of the tasks that use it.  A lock is
  two words, the lock itself and the number of waiters.  \<open>spin_next\<close> is one atomic step of a task that
  calls \<^verbatim>\<open>spin_lock\<close> and then \<^verbatim>\<open>spin_unlock\<close>; the calls of \<^verbatim>\<open>switch_task\<close> in them only let other tasks
  step.
\<close>

record spin =
  lock_word :: u32
  lock_waiters :: u32

definition arch_atomic_swap :: "u32 \<Rightarrow> spin \<Rightarrow> u32 \<times> spin" where
  "arch_atomic_swap v l = (lock_word l, l\<lparr>lock_word := v\<rparr>)"

definition arch_atomic_store :: "u32 \<Rightarrow> spin \<Rightarrow> spin" where
  "arch_atomic_store v l = l\<lparr>lock_word := v\<rparr>"

definition arch_atomic_inc :: "spin \<Rightarrow> spin" where
  "arch_atomic_inc l = l\<lparr>lock_waiters := lock_waiters l + 1\<rparr>"

definition arch_atomic_dec :: "spin \<Rightarrow> spin" where
  "arch_atomic_dec l = l\<lparr>lock_waiters := lock_waiters l - 1\<rparr>"

definition spin_init :: "spin \<Rightarrow> spin" where
  "spin_init l = \<lparr>lock_word = 0, lock_waiters = 0\<rparr>"

text \<open>Where a task is: outside, before the exchange, in \<^verbatim>\<open>spin_wait\<close> before the increment, in its loop,
  behind the loop, after \<^verbatim>\<open>spin_lock\<close>, in \<^verbatim>\<open>spin_unlock\<close> before the store and after it.\<close>

datatype spin_pc = Outside | Trying | Counting | Waiting | Leaving | Holding | Storing | Checking

fun spin_wait :: "spin_pc \<Rightarrow> spin \<Rightarrow> spin_pc \<times> spin" where
  "spin_wait Counting l = (Waiting, arch_atomic_inc l)"
| "spin_wait Waiting l = (if lock_word l \<noteq> 0 then Waiting else Leaving, l)"
| "spin_wait Leaving l = (Trying, arch_atomic_dec l)"
| "spin_wait c l = (c, l)"

definition spin_lock :: "spin \<Rightarrow> spin_pc \<times> spin" where
  "spin_lock l = (let (old, l) = arch_atomic_swap 1 l in (if old \<noteq> 0 then Counting else Holding, l))"

fun spin_unlock :: "spin_pc \<Rightarrow> spin \<Rightarrow> spin_pc \<times> spin" where
  "spin_unlock Holding l = (if lock_word l \<noteq> 0 then Storing else Outside, l)"
| "spin_unlock Storing l = (Checking, arch_atomic_store 0 l)"
| "spin_unlock c l = (Outside, l)"

fun spin_next :: "spin_pc \<Rightarrow> spin \<Rightarrow> spin_pc \<times> spin" where
  "spin_next Outside l = (Trying, l)"
| "spin_next Trying l = spin_lock l"
| "spin_next Counting l = spin_wait Counting l"
| "spin_next Waiting l = spin_wait Waiting l"
| "spin_next Leaving l = spin_wait Leaving l"
| "spin_next c l = spin_unlock c l"

text \<open>The steps of all tasks, from the state in which the lock is free and no task uses it.\<close>

type_synonym spin_state = "spin \<times> (ptr \<Rightarrow> spin_pc)"

fun spin_run :: "spin_state \<Rightarrow> ptr list \<Rightarrow> spin_state" where
  "spin_run s [] = s"
| "spin_run (l, pc) (p # ps) = (let (c, l') = spin_next (pc p) l in spin_run (l', pc(p := c)) ps)"

definition spin_start :: spin_state where
  "spin_start = (\<lparr>lock_word = 0, lock_waiters = 0\<rparr>, \<lambda>_. Outside)"

inductive spin_reach :: "spin_state \<Rightarrow> bool" where
  start: "spin_reach spin_start"
| step: "spin_reach (l, pc) \<Longrightarrow> spin_next (pc p) l = (c, l') \<Longrightarrow> spin_reach (l', pc(p := c))"

section \<open>The invariant\<close>

definition owns :: "spin_pc \<Rightarrow> bool" where
  "owns c \<longleftrightarrow> c = Holding \<or> c = Storing"

definition counted :: "spin_pc \<Rightarrow> bool" where
  "counted c \<longleftrightarrow> c = Waiting \<or> c = Leaving"

definition spin_inv :: "spin_state \<Rightarrow> bool" where
  "spin_inv s \<longleftrightarrow> (\<forall>p q. owns (snd s p) \<longrightarrow> owns (snd s q) \<longrightarrow> p = q) \<and>
     (lock_word (fst s) \<noteq> 0 \<longleftrightarrow> (\<exists>p. owns (snd s p))) \<and>
     lock_waiters (fst s) = of_nat (card {p. counted (snd s p)})"

lemma counted_upd:
  "{q. counted ((pc(p := c)) q)} = (if counted c then insert p {q. counted (pc q)} else {q. counted (pc q)} - {p})"
  by auto

lemma card_counted:
  fixes pc :: "ptr \<Rightarrow> spin_pc"
  shows "of_nat (card {q. counted ((pc(p := c)) q)}) = (of_nat (card {q. counted (pc q)}) :: u32)
     + (if counted c \<and> \<not> counted (pc p) then 1 else 0) - (if \<not> counted c \<and> counted (pc p) then 1 else 0)"
proof -
  let ?S = "{q. counted (pc q)} :: ptr set"
  have fin: "finite ?S" by simp
  show ?thesis
  proof (cases "counted (pc p)")
    case True
    then have "card ?S = Suc (card (?S - {p}))" by (intro card.remove [OF fin]) simp
    moreover have "insert p ?S = ?S" using True by auto
    ultimately show ?thesis unfolding counted_upd using True by simp
  next
    case False
    then have "?S - {p} = ?S" by auto
    with False show ?thesis unfolding counted_upd by (simp add: card_insert_disjoint [OF fin])
  qed
qed

lemma owns_upd: "(\<exists>q. owns ((pc(p := c)) q)) \<longleftrightarrow> owns c \<or> (\<exists>q. q \<noteq> p \<and> owns (pc q))"
  by auto

lemmas spin_ops = spin_lock_def arch_atomic_swap_def arch_atomic_store_def arch_atomic_inc_def arch_atomic_dec_def

lemma spin_inv_next:
  assumes "spin_inv (l, pc)" and "spin_next (pc p) l = (c, l')"
  shows "spin_inv (l', pc(p := c))"
proof -
  have one: "\<And>q r. owns (pc q) \<Longrightarrow> owns (pc r) \<Longrightarrow> q = r" and
    word: "lock_word l \<noteq> 0 \<longleftrightarrow> (\<exists>q. owns (pc q))" and
    w: "lock_waiters l = of_nat (card {q. counted (pc q)})"
    using assms(1) by (auto simp: spin_inv_def)
  have "lock_waiters l' = lock_waiters l
     + (if counted c \<and> \<not> counted (pc p) then 1 else 0) - (if \<not> counted c \<and> counted (pc p) then 1 else 0)"
    using assms(2) by (cases "pc p") (auto simp: counted_def spin_ops split: if_splits)
  then have "lock_waiters l' = of_nat (card {q. counted ((pc(p := c)) q)})" unfolding card_counted w .
  moreover have "(\<forall>q r. owns ((pc(p := c)) q) \<longrightarrow> owns ((pc(p := c)) r) \<longrightarrow> q = r) \<and>
      (lock_word l' \<noteq> 0 \<longleftrightarrow> (\<exists>q. owns ((pc(p := c)) q)))"
  proof -
    have "owns (pc p) \<Longrightarrow> lock_word l \<noteq> 0" using word by blast
    with assms(2) consider (same) "owns c \<longleftrightarrow> owns (pc p)" "lock_word l' \<noteq> 0 \<longleftrightarrow> lock_word l \<noteq> 0"
      | (take) "owns c" "lock_word l = 0" "lock_word l' \<noteq> 0"
      | (leave) "owns (pc p)" "\<not> owns c" "lock_word l' = 0"
      by (cases "pc p") (auto simp: owns_def spin_ops split: if_splits)
    then show ?thesis
    proof cases
      case same
      then have "owns ((pc(p := c)) q) \<longleftrightarrow> owns (pc q)" for q by simp
      with same one word show ?thesis by simp
    next
      case take
      with word have "owns ((pc(p := c)) q) \<longleftrightarrow> q = p" for q by auto
      with take show ?thesis by simp
    next
      case leave
      with one have "\<not> owns ((pc(p := c)) q)" for q by auto
      with leave show ?thesis by simp
    qed
  qed
  ultimately show ?thesis unfolding spin_inv_def fst_conv snd_conv by blast
qed

lemma spin_reach_inv: "spin_reach s \<Longrightarrow> spin_inv s"
proof (induction rule: spin_reach.induct)
  case start
  show ?case by (simp add: spin_inv_def spin_start_def owns_def counted_def)
qed (rule spin_inv_next)

lemma spin_reach_run: "spin_reach s \<Longrightarrow> spin_reach (spin_run s ps)"
proof (induction ps arbitrary: s)
  case (Cons p ps)
  then show ?case by (cases s) (auto split: prod.split intro: spin_reach.step)
qed simp

text \<open>A task on its way to a free lock that steps alone has it after at most four steps.\<close>

definition wants :: "spin_pc \<Rightarrow> bool" where
  "wants c \<longleftrightarrow> c \<in> {Trying, Counting, Waiting, Leaving}"

lemma spin_acquires:
  assumes "wants (pc p)" and "lock_word l = 0"
  shows "\<exists>k \<le> 4. snd (spin_run (l, pc) (replicate k p)) p = Holding"
proof -
  have "\<exists>k \<in> {1, 2, 3, 4}. snd (spin_run (l, pc) (replicate k p)) p = Holding"
    using assms by (cases "pc p") (simp_all add: wants_def spin_ops numeral_eq_Suc)
  then show ?thesis by (elim bexE) (intro exI conjI, auto)
qed

end
