(* ===== verification/Kernel_Heap.thy ===== *)
theory Kernel_Heap
  imports Prelude
begin

text \<open>
  The kernel heap of \<^verbatim>\<open>src/src/memory/alloc.cpp\<close> and \<^verbatim>\<open>sbrk\<close> of \<^verbatim>\<open>src/src/memory/mem.cpp\<close>.  A bin is a page,
  or for large requests a run of pages, with a header at its start; the free cells of a bin form a stack
  linked through their first word.  Headers are records at page addresses, the link words are the map
  \<open>kh_links\<close>.  A page start without a header is memory whose word \<^verbatim>\<open>bin_magic\<close> is not \<^verbatim>\<open>BIN_MAGIC\<close>.
  A failed \<^verbatim>\<open>ASSERT\<close> has no result.  The lock \<^verbatim>\<open>mem_lock\<close> matters in one place, \<^verbatim>\<open>realloc\<close> to size 0.
\<close>

section \<open>Constants and headers\<close>

definition NUM_BINS :: u32 where "NUM_BINS = 11"
definition SMALLEST_BIN_LOG :: nat where "SMALLEST_BIN_LOG = 2"
definition BIG_BIN :: nat where "BIG_BIN = 10"
definition SKIP_MAX_LEVEL :: nat where "SKIP_MAX_LEVEL = 6"
definition SKIP_P :: u32 where "SKIP_P = 0x7FFFFFFF"

abbreviation PAGE_SIZE :: u32 where "PAGE_SIZE \<equiv> 0x1000"

text \<open>\<^verbatim>\<open>sizeof(klmalloc_bin_header)\<close> and \<^verbatim>\<open>sizeof(klmalloc_big_bin_header)\<close>.\<close>

abbreviation bin_header_size :: u32 where "bin_header_size \<equiv> 16"
abbreviation big_header_size :: u32 where "big_header_size \<equiv> 48"

text \<open>Both kinds of header; \<open>hd_prev\<close> and \<open>hd_forward\<close> belong to the big_bin ones.\<close>

record header =
  hd_next :: ptr
  hd_head :: ptr
  hd_size :: u32
  hd_prev :: ptr
  hd_forward :: "ptr list"

text \<open>\<open>kh_forward\<close> are the forward pointers of the head of the skip list.\<close>

record kheap =
  kh_headers :: "ptr \<Rightarrow> header option"
  kh_links :: "ptr \<Rightarrow> ptr"
  kh_bins :: "ptr list"
  kh_forward :: "ptr list"
  kh_level :: nat
  kh_newest :: ptr
  kh_rand :: "u32 \<times> u32 \<times> u32 \<times> u32"
  heap_tail :: u32
  frame_ptr :: u32

definition rd_header :: "kheap \<Rightarrow> ptr \<Rightarrow> header option" where
  "rd_header K b = (if b = NULL then None else kh_headers K b)"

definition wr_header :: "ptr \<Rightarrow> (header \<Rightarrow> header) \<Rightarrow> kheap \<Rightarrow> kheap option" where
  "wr_header b f K = do { hd \<leftarrow> rd_header K b; Some (K\<lparr>kh_headers := (kh_headers K)(b := Some (f hd))\<rparr>) }"

definition assert :: "bool \<Rightarrow> unit option" where
  "assert P = (if P then Some () else None)"

text \<open>\<^verbatim>\<open>sbrk\<close>: the new memory is zero.  Mapping its pages is not part of this state.\<close>

definition sbrk :: "u32 \<Rightarrow> kheap \<Rightarrow> ptr \<times> kheap" where
  "sbrk n K = (heap_tail K, K\<lparr>heap_tail := heap_tail K + n,
     kh_links := (\<lambda>a. if unat (a - heap_tail K) < unat n then NULL else kh_links K a)\<rparr>)"

section \<open>The size of a bin\<close>

text \<open>\<^verbatim>\<open>sizeof(size) * CHAR_BIT - __builtin_clzl(size)\<close>.\<close>

fun bit_length :: "nat \<Rightarrow> nat" where
  "bit_length n = (if n = 0 then 0 else Suc (bit_length (n div 2)))"

declare bit_length.simps [simp del]

definition klmalloc_adjust_bin :: "nat \<Rightarrow> nat" where
  "klmalloc_adjust_bin bin = (if bin \<le> SMALLEST_BIN_LOG then 0
     else let bin = bin - (SMALLEST_BIN_LOG + 1) in if bin > BIG_BIN then BIG_BIN else bin)"

definition klmalloc_bin_size :: "u32 \<Rightarrow> nat" where
  "klmalloc_bin_size sz = klmalloc_adjust_bin
     (bit_length (unat sz) + (if sz AND (sz - 1) \<noteq> 0 then 1 else 0))"

section \<open>Lists of bins and stacks of cells\<close>

definition klmalloc_list_decouple :: "nat \<Rightarrow> ptr \<Rightarrow> kheap \<Rightarrow> kheap option" where
  "klmalloc_list_decouple k b K = do {
     hd \<leftarrow> rd_header K b;
     wr_header b (\<lambda>hd. hd\<lparr>hd_next := NULL\<rparr>) (K\<lparr>kh_bins := (kh_bins K)[k := hd_next hd]\<rparr>)
   }"

definition klmalloc_list_insert :: "nat \<Rightarrow> ptr \<Rightarrow> kheap \<Rightarrow> kheap option" where
  "klmalloc_list_insert k b K = do {
     K \<leftarrow> wr_header b (\<lambda>hd. hd\<lparr>hd_next := kh_bins K ! k\<rparr>) K;
     Some (K\<lparr>kh_bins := (kh_bins K)[k := b]\<rparr>)
   }"

definition klmalloc_list_head :: "nat \<Rightarrow> kheap \<Rightarrow> ptr" where
  "klmalloc_list_head k K = kh_bins K ! k"

definition klmalloc_stack_pop :: "ptr \<Rightarrow> kheap \<Rightarrow> (ptr \<times> kheap) option" where
  "klmalloc_stack_pop b K = do {
     hd \<leftarrow> rd_header K b;
     let p = hd_head hd;
     assert (p \<noteq> NULL \<and> p > b);
     assert (if hd_size hd > NUM_BINS then p < b + hd_size hd
             else p < b + PAGE_SIZE \<and> p > b + bin_header_size - 1);
     K \<leftarrow> wr_header b (\<lambda>hd. hd\<lparr>hd_head := kh_links K p\<rparr>) K;
     Some (p, K)
   }"

definition klmalloc_stack_push :: "ptr \<Rightarrow> ptr \<Rightarrow> kheap \<Rightarrow> kheap option" where
  "klmalloc_stack_push b p K = do {
     hd \<leftarrow> rd_header K b;
     assert (p \<noteq> NULL \<and> p > b);
     assert (if hd_size hd > NUM_BINS then p < b + hd_size hd else p < b + PAGE_SIZE);
     wr_header b (\<lambda>hd. hd\<lparr>hd_head := p\<rparr>) (K\<lparr>kh_links := (kh_links K)(p := hd_head hd)\<rparr>)
   }"

definition klmalloc_stack_empty :: "ptr \<Rightarrow> kheap \<Rightarrow> bool option" where
  "klmalloc_stack_empty b K = do { hd \<leftarrow> rd_header K b; Some (hd_head hd = NULL) }"

section \<open>The skip list of big_bin bins\<close>

text \<open>\<^verbatim>\<open>klmalloc_skip_rand\<close> and the level it selects.\<close>

definition klmalloc_skip_rand :: "u32 \<times> u32 \<times> u32 \<times> u32 \<Rightarrow> u32 \<times> (u32 \<times> u32 \<times> u32 \<times> u32)" where
  "klmalloc_skip_rand r = (case r of (x, y, z, w) \<Rightarrow>
     let t = x XOR push_bit 11 x; w' = w XOR drop_bit 19 w XOR t XOR drop_bit 8 t in (w', (y, z, w, w')))"

function klmalloc_random_level :: "nat \<Rightarrow> u32 \<times> u32 \<times> u32 \<times> u32 \<Rightarrow> nat \<times> (u32 \<times> u32 \<times> u32 \<times> u32)" where
  "klmalloc_random_level level r = (let (v, r) = klmalloc_skip_rand r in
     if v < SKIP_P \<and> level < SKIP_MAX_LEVEL then klmalloc_random_level (level + 1) r else (level, r))"
  by pat_completeness auto
termination by (relation "measure (\<lambda>(level, r). SKIP_MAX_LEVEL - level)") (auto simp: SKIP_MAX_LEVEL_def)

declare klmalloc_random_level.simps [simp del]

text \<open>The skip_node 0 is the head of the list; \<^verbatim>\<open>forward\<close> of a skip_node and its update.\<close>

definition forward :: "kheap \<Rightarrow> ptr \<Rightarrow> nat \<Rightarrow> ptr option" where
  "forward K n i = (if n = NULL then Some (kh_forward K ! i) else map_option (\<lambda>hd. hd_forward hd ! i) (kh_headers K n))"

definition set_forward :: "ptr \<Rightarrow> nat \<Rightarrow> ptr \<Rightarrow> kheap \<Rightarrow> kheap option" where
  "set_forward n i v K = (if n = NULL then Some (K\<lparr>kh_forward := (kh_forward K)[i := v]\<rparr>)
     else wr_header n (\<lambda>hd. hd\<lparr>hd_forward := (hd_forward hd)[i := v]\<rparr>) K)"

definition page_sized :: "header \<Rightarrow> bool" where
  "page_sized h \<longleftrightarrow> (hd_size h + big_header_size) mod PAGE_SIZE = 0"

text \<open>Along one level, past the nodes that are smaller.\<close>

partial_function (option) skip_right :: "kheap \<Rightarrow> nat \<Rightarrow> u32 \<Rightarrow> ptr \<Rightarrow> ptr option" where
  "skip_right K i sz n = do {
     f \<leftarrow> forward K n i;
     if f = NULL then Some n else do {
       hd \<leftarrow> rd_header K f;
       if hd_size hd < sz then do { assert (page_sized hd); skip_right K i sz f } else Some n } }"

text \<open>From level \<open>i\<close> down to 0; the second component is \<^verbatim>\<open>update\<close>, from level 0 on.\<close>

fun skip_down :: "kheap \<Rightarrow> nat \<Rightarrow> u32 \<Rightarrow> ptr \<Rightarrow> (ptr \<times> ptr list) option" where
  "skip_down K 0 sz n = do { m \<leftarrow> skip_right K 0 sz n; Some (m, [m]) }"
| "skip_down K (Suc i) sz n = do {
     m \<leftarrow> skip_right K (Suc i) sz n;
     (r, us) \<leftarrow> skip_down K i sz m;
     Some (r, us @ [m]) }"

definition klmalloc_skip_list_findbest :: "u32 \<Rightarrow> kheap \<Rightarrow> ptr option" where
  "klmalloc_skip_list_findbest sz K = do {
     (n, _) \<leftarrow> skip_down K (kh_level K) sz NULL;
     f \<leftarrow> forward K n 0;
     if f = NULL then Some NULL else do {
       hd \<leftarrow> rd_header K f;
       assert (f mod PAGE_SIZE = 0 \<and> page_sized hd);
       Some f }
   }"

text \<open>The assertions at the start of the insertion and of the removal.\<close>

definition assert_value :: "ptr \<Rightarrow> kheap \<Rightarrow> unit option" where
  "assert_value v K = do {
     hd \<leftarrow> rd_header K v;
     assert (hd_head hd \<noteq> NULL \<and> hd_head hd > v \<and>
       (if hd_size hd > NUM_BINS then hd_head hd < v + hd_size hd else hd_head hd < v + PAGE_SIZE))
   }"

fun link_levels :: "nat \<Rightarrow> nat \<Rightarrow> ptr list \<Rightarrow> ptr \<Rightarrow> kheap \<Rightarrow> kheap option" where
  "link_levels i 0 us v K = Some K"
| "link_levels i (Suc k) us v K = do {
     f \<leftarrow> forward K (us ! i) i;
     K \<leftarrow> set_forward v i f K;
     (if f = NULL then Some () else do { hd \<leftarrow> rd_header K f; assert (page_sized hd) });
     K \<leftarrow> set_forward (us ! i) i v K;
     link_levels (Suc i) k us v K }"

definition klmalloc_skip_list_insert :: "ptr \<Rightarrow> kheap \<Rightarrow> kheap option" where
  "klmalloc_skip_list_insert v K = do {
     assert_value v K;
     hd \<leftarrow> rd_header K v;
     assert (v mod PAGE_SIZE = 0 \<and> page_sized hd \<and> hd_size hd \<noteq> 0);
     (n, us) \<leftarrow> skip_down K (kh_level K) (hd_size hd) NULL;
     f \<leftarrow> forward K n 0;
     if f = v then Some K else do {
       let (level, r) = klmalloc_random_level 0 (kh_rand K);
       let us = us @ replicate (level - kh_level K) NULL;
       let K = K\<lparr>kh_rand := r, kh_level := max level (kh_level K)\<rparr>;
       link_levels 0 (Suc level) us v K }
   }"

text \<open>\<^verbatim>\<open>while (node != value) node = node->forward[0]\<close>: past the end it dereferences 0.\<close>

partial_function (option) seek :: "kheap \<Rightarrow> ptr \<Rightarrow> ptr \<Rightarrow> ptr option" where
  "seek K v n = (if n = v then Some n else do {
     hd \<leftarrow> rd_header K n;
     seek K v (hd_forward hd ! 0) })"

text \<open>The loop stops at the first level whose predecessor does not lead to the skip_node.\<close>

fun unlink_levels :: "nat \<Rightarrow> nat \<Rightarrow> ptr list \<Rightarrow> ptr \<Rightarrow> kheap \<Rightarrow> kheap option" where
  "unlink_levels i 0 us v K = Some K"
| "unlink_levels i (Suc k) us v K = do {
     f \<leftarrow> forward K (us ! i) i;
     if f \<noteq> v then Some K else do {
       g \<leftarrow> forward K v i;
       K \<leftarrow> set_forward (us ! i) i g K;
       (if g = NULL then Some () else do { hd \<leftarrow> rd_header K g; assert (g mod PAGE_SIZE = 0 \<and> page_sized hd) });
       unlink_levels (Suc i) k us v K } }"

fun lower_level :: "nat \<Rightarrow> ptr list \<Rightarrow> nat" where
  "lower_level 0 fs = 0"
| "lower_level (Suc l) fs = (if fs ! Suc l = NULL then lower_level l fs else Suc l)"

definition klmalloc_skip_list_delete :: "ptr \<Rightarrow> kheap \<Rightarrow> kheap option" where
  "klmalloc_skip_list_delete v K = do {
     assert_value v K;
     hd \<leftarrow> rd_header K v;
     (n, us) \<leftarrow> skip_down K (kh_level K) (hd_size hd) NULL;
     f \<leftarrow> forward K n 0;
     f \<leftarrow> seek K v f;
     K \<leftarrow> unlink_levels 0 (Suc (kh_level K)) us v K;
     Some (K\<lparr>kh_level := lower_level (kh_level K) (kh_forward K)\<rparr>)
   }"

section \<open>malloc and free\<close>

text \<open>\<^verbatim>\<open>base[i << bucket_id]\<close> for \<open>i\<close> from \<open>i\<close> on, \<open>n\<close> times.\<close>

definition cell :: "ptr \<Rightarrow> nat \<Rightarrow> nat \<Rightarrow> ptr" where
  "cell base k i = base + of_nat (4 * (i * 2 ^ k))"

fun fill_stack :: "ptr \<Rightarrow> nat \<Rightarrow> nat \<Rightarrow> nat \<Rightarrow> (ptr \<Rightarrow> ptr) \<Rightarrow> (ptr \<Rightarrow> ptr)" where
  "fill_stack base k i 0 m = m(cell base k i := NULL)"
| "fill_stack base k i (Suc n) m = fill_stack base k (Suc i) n (m(cell base k i := cell base k (Suc i)))"

definition available :: "nat \<Rightarrow> nat" where
  "available k = (4096 - 16) div 2 ^ (SMALLEST_BIN_LOG + k) - 1"

text \<open>A new bin for a small size.\<close>

definition grow_bin :: "nat \<Rightarrow> kheap \<Rightarrow> (ptr \<times> kheap) option" where
  "grow_bin k K = do {
     let (b, K) = sbrk PAGE_SIZE K;
     assert (b mod PAGE_SIZE = 0);
     let K = K\<lparr>kh_headers := (kh_headers K)(b := Some \<lparr>hd_next = NULL, hd_head = b + bin_header_size, hd_size = 0,
       hd_prev = NULL, hd_forward = []\<rparr>)\<rparr>;
     K \<leftarrow> klmalloc_list_insert k b K;
     let K = K\<lparr>kh_links := fill_stack (b + bin_header_size) k 0 (available k) (kh_links K)\<rparr>;
     K \<leftarrow> wr_header b (\<lambda>hd. hd\<lparr>hd_size := of_nat k\<rparr>) K;
     Some (b, K)
   }"

definition klmalloc_small :: "nat \<Rightarrow> kheap \<Rightarrow> (ptr \<times> kheap) option" where
  "klmalloc_small k K = do {
     (b, K) \<leftarrow> (let b = klmalloc_list_head k K in if b = NULL then grow_bin k K else Some (b, K));
     (p, K) \<leftarrow> klmalloc_stack_pop b K;
     empty \<leftarrow> klmalloc_stack_empty b K;
     K \<leftarrow> (if empty then klmalloc_list_decouple k b K else Some K);
     Some (p, K)
   }"

text \<open>A big_bin bin: the best fit, or new pages.  \<open>kh_newest\<close> is \<^verbatim>\<open>klmalloc_newest_big\<close>.\<close>

definition klmalloc_big :: "u32 \<Rightarrow> kheap \<Rightarrow> (ptr \<times> kheap) option" where
  "klmalloc_big sz K = do {
     b \<leftarrow> klmalloc_skip_list_findbest sz K;
     if b \<noteq> NULL then do {
       hd \<leftarrow> rd_header K b;
       assert (hd_size hd \<ge> sz);
       K \<leftarrow> klmalloc_skip_list_delete b K;
       klmalloc_stack_pop b K }
     else do {
       let pages = (sz + big_header_size) div PAGE_SIZE + 1;
       let (b, K) = sbrk (PAGE_SIZE * pages) K;
       assert (b mod PAGE_SIZE = 0);
       let hd = \<lparr>hd_next = NULL, hd_head = NULL, hd_size = pages * PAGE_SIZE - big_header_size,
         hd_prev = kh_newest K, hd_forward = replicate (SKIP_MAX_LEVEL + 1) NULL\<rparr>;
       assert (page_sized hd);
       K \<leftarrow> (if kh_newest K \<noteq> NULL then wr_header (kh_newest K) (\<lambda>hd. hd\<lparr>hd_next := b\<rparr>) K else Some K);
       Some (b + big_header_size, K\<lparr>kh_headers := (kh_headers K)(b := Some hd), kh_newest := b\<rparr>) }
   }"

definition klmalloc :: "u32 \<Rightarrow> kheap \<Rightarrow> (ptr \<times> kheap) option" where
  "klmalloc sz K = (if sz = 0 then Some (NULL, K)
     else let k = klmalloc_bin_size sz in if k < BIG_BIN then klmalloc_small k K else klmalloc_big sz K)"

text \<open>The header of the bin a pointer lies in; a page-aligned pointer belongs to the page before.\<close>

definition page_of :: "ptr \<Rightarrow> ptr" where
  "page_of p = p AND NOT 0xFFF"

definition klfree :: "ptr \<Rightarrow> kheap \<Rightarrow> kheap option" where
  "klfree p K = (if p = NULL then Some K else
     let p = (if p mod PAGE_SIZE = 0 then p - 1 else p); b = page_of p in
     (case rd_header K b of None \<Rightarrow> Some K
      | Some h \<Rightarrow>
         if hd_size h > NUM_BINS then do {
           assert (hd_head h = NULL \<and> page_sized h);
           K \<leftarrow> klmalloc_stack_push b (b + big_header_size) K;
           klmalloc_skip_list_insert b K }
         else do {
           empty \<leftarrow> klmalloc_stack_empty b K;
           K \<leftarrow> (if empty then klmalloc_list_insert (unat (hd_size h)) b K else Some K);
           klmalloc_stack_push b p K }))"

definition klvalloc :: "u32 \<Rightarrow> kheap \<Rightarrow> (ptr \<times> kheap) option" where
  "klvalloc sz K = do {
     (r, K) \<leftarrow> klmalloc (sz + PAGE_SIZE - big_header_size) K;
     let out = r + (PAGE_SIZE - big_header_size);
     assert (out mod PAGE_SIZE = 0);
     Some (out, K)
   }"

text \<open>The bytes that \<^verbatim>\<open>memcpy\<close> and \<^verbatim>\<open>memset\<close> write are the caller's; the third component of the result is
  the number of bytes copied to the new place.  \<^verbatim>\<open>realloc\<close> to size 0 calls \<^verbatim>\<open>free\<close>, which waits for the lock
  that \<^verbatim>\<open>realloc\<close> holds: it does not return.\<close>

definition klrealloc :: "ptr \<Rightarrow> u32 \<Rightarrow> kheap \<Rightarrow> (ptr \<times> u32 \<times> kheap) option" where
  "klrealloc p sz K = (if p = NULL then do { (q, K) \<leftarrow> klmalloc sz K; Some (q, 0, K) }
     else if sz = 0 then None
     else do {
       hd \<leftarrow> rd_header K (page_of p);
       let old = (if unat (hd_size hd) < BIG_BIN then 2 ^ (SMALLEST_BIN_LOG + unat (hd_size hd)) else hd_size hd);
       if old \<ge> sz then Some (p, 0, K) else do {
         (q, K) \<leftarrow> klmalloc sz K;
         if q = NULL then Some (NULL, 0, K) else do {
           K \<leftarrow> klfree p K;
           Some (q, old, K) } } })"

definition klcalloc :: "u32 \<Rightarrow> u32 \<Rightarrow> kheap \<Rightarrow> (ptr \<times> kheap) option" where
  "klcalloc nmemb sz K = klmalloc (nmemb * sz) K"

definition malloc :: "u32 \<Rightarrow> kheap \<Rightarrow> (ptr \<times> kheap) option" where
  "malloc sz K = klmalloc sz K"

definition realloc :: "ptr \<Rightarrow> u32 \<Rightarrow> kheap \<Rightarrow> (ptr \<times> u32 \<times> kheap) option" where
  "realloc p sz K = klrealloc p sz K"

definition calloc :: "u32 \<Rightarrow> u32 \<Rightarrow> kheap \<Rightarrow> (ptr \<times> kheap) option" where
  "calloc nmemb sz K = klcalloc nmemb sz K"

definition valloc :: "u32 \<Rightarrow> kheap \<Rightarrow> (ptr \<times> kheap) option" where
  "valloc sz K = klvalloc sz K"

definition free :: "ptr \<Rightarrow> kheap \<Rightarrow> kheap option" where
  "free p K = (if p > frame_ptr K then klfree p K else Some K)"

end
