(* ===== verification/Heap_Skip.thy ===== *)
theory Heap_Skip
  imports Kernel_Heap
begin

text \<open>
  The skip list of free big bins: its invariant and what its search, insertion and removal do with the list
  of nodes it represents.  Level \<open>i\<close> links the nodes whose height is at least \<open>i\<close>; the head of the list and
  its end are both 0.
\<close>

section \<open>Linked lists in a map of addresses\<close>

fun chain :: "(ptr \<Rightarrow> ptr) \<Rightarrow> ptr \<Rightarrow> ptr list \<Rightarrow> bool" where
  "chain m p [] \<longleftrightarrow> p = NULL"
| "chain m p (x # xs) \<longleftrightarrow> p = x \<and> x \<noteq> NULL \<and> chain m (m x) xs"

lemma chain_NULL [simp]: "chain m NULL xs \<longleftrightarrow> xs = []"
  by (cases xs) auto

lemma chain_at: "p \<noteq> NULL \<Longrightarrow> chain m p xs \<longleftrightarrow> (\<exists>ys. xs = p # ys \<and> chain m (m p) ys)"
  by (cases xs) auto

lemma chain_cong: "(\<And>x. x \<in> set xs \<Longrightarrow> m x = m' x) \<Longrightarrow> chain m p xs \<longleftrightarrow> chain m' p xs"
  by (induction xs arbitrary: p) auto

lemma chain_upd [simp]: "a \<notin> set xs \<Longrightarrow> chain (m(a := b)) p xs \<longleftrightarrow> chain m p xs"
  by (rule chain_cong) auto

lemma chain_unique: "chain m p xs \<Longrightarrow> chain m p ys \<Longrightarrow> xs = ys"
proof (induction xs arbitrary: p ys)
  case (Cons x xs)
  then show ?case by (cases ys) auto
qed (cases "p = NULL"; simp)

lemma chain_ne_NULL: "chain m p xs \<Longrightarrow> NULL \<notin> set xs"
  by (induction xs arbitrary: p) auto

text \<open>A link_path that starts after \<open>a\<close>; a link_ring is a link_path from the head 0 back to it.\<close>

fun link_path :: "(ptr \<Rightarrow> ptr) \<Rightarrow> ptr \<Rightarrow> ptr list \<Rightarrow> bool" where
  "link_path f a [] \<longleftrightarrow> True"
| "link_path f a (x # xs) \<longleftrightarrow> f a = x \<and> x \<noteq> NULL \<and> link_path f x xs"

definition link_ring :: "(ptr \<Rightarrow> ptr) \<Rightarrow> ptr list \<Rightarrow> bool" where
  "link_ring f xs \<longleftrightarrow> link_path f NULL xs \<and> f (last (NULL # xs)) = NULL"

lemma path_append: "link_path f a (xs @ ys) \<longleftrightarrow> link_path f a xs \<and> link_path f (last (a # xs)) ys"
  by (induction xs arbitrary: a) auto

lemma path_cong: "(\<And>x. x \<in> set (butlast (a # xs)) \<Longrightarrow> f x = g x) \<Longrightarrow> link_path f a xs \<longleftrightarrow> link_path g a xs"
  by (induction xs arbitrary: a) auto

lemma path_ne_NULL: "link_path f a xs \<Longrightarrow> NULL \<notin> set xs"
  by (induction xs arbitrary: a) auto

lemma path_split:
  assumes "link_path f NULL F" and "NULL # F = A @ a # B"
  shows "link_path f a B" and "last (a # B) = last (NULL # F)"
  using assms by (cases A; auto simp: path_append)+

lemma ring_split: "link_ring f (xs @ ys) \<longleftrightarrow> link_path f NULL xs \<and> link_path f (last (NULL # xs)) ys
    \<and> f (last (last (NULL # xs) # ys)) = NULL"
  by (auto simp: link_ring_def path_append)

lemma ring_next:
  assumes "link_ring f (xs @ ys)"
  shows "f (last (NULL # xs)) = (case ys of [] \<Rightarrow> NULL | y # _ \<Rightarrow> y)"
  using assms by (cases ys) (simp add: link_ring_def, simp add: ring_split)

lemma last_distinct_butlast: "distinct (a # xs) \<Longrightarrow> last (a # xs) \<notin> set (butlast (a # xs))"
  by (metis append_butlast_last_id distinct_append distinct_butlast list.distinct(1) not_distinct_conv_prefix)

lemma path_upd_last:
  assumes "link_path f a xs" and "distinct (a # xs)"
  shows "link_path (f(last (a # xs) := v)) a xs"
  using assms(1) path_cong [of a xs f "f(last (a # xs) := v)"] last_distinct_butlast [OF assms(2)]
  by (metis fun_upd_other)

lemma path_upd_other: "v \<notin> set (a # xs) \<Longrightarrow> link_path (f(v := w)) a xs \<longleftrightarrow> link_path f a xs"
  by (rule path_cong) (auto dest: in_set_butlastD split: if_splits)

lemma ring_insert:
  assumes "link_ring f (xs @ ys)" and "distinct (xs @ ys)" and "v \<notin> set (xs @ ys)" and "v \<noteq> NULL"
  shows "link_ring (f(v := f (last (NULL # xs)), last (NULL # xs) := v)) (xs @ v # ys)"
proof -
  let ?p = "last (NULL # xs)"
  let ?g = "f(v := f ?p, ?p := v)"
  have p: "link_path f NULL xs" and q: "link_path f ?p ys" and e: "f (last (?p # ys)) = NULL"
    using assms(1) by (auto simp: ring_split)
  have n: "NULL \<notin> set xs" "NULL \<notin> set ys"
    using path_ne_NULL [OF p] path_ne_NULL [OF q] by auto
  have pv: "?p \<noteq> v"
    using assms(3,4) by (cases xs rule: rev_cases) auto
  have py: "?p \<notin> set ys"
    using assms(2) n by (cases xs rule: rev_cases) auto
  have "link_path (f(v := f ?p)) NULL xs"
    using p assms(3,4) by (simp add: path_upd_other)
  then have 1: "link_path ?g NULL xs"
    using path_upd_last [of "f(v := f ?p)" NULL xs] n assms(2) by simp
  have 2: "link_path ?g v ys"
  proof (cases ys)
    case (Cons y zs)
    then have "link_path ?g y zs \<longleftrightarrow> link_path f y zs"
      using assms(3) py by (simp add: path_upd_other del: last.simps)
    with q Cons pv show ?thesis by simp
  qed simp
  have 3: "?g (last (v # ys)) = NULL"
  proof (cases "ys = []")
    case False
    then have "last ys \<noteq> ?p" "last ys \<noteq> v"
      using py assms(3) by (metis last_in_set, auto)
    with False e show ?thesis by simp
  qed (use e pv in simp)
  show ?thesis
    using 1 2 3 assms(4) by (simp add: ring_split)
qed

lemma ring_remove:
  assumes "link_ring f (xs @ v # ys)" and "distinct (xs @ v # ys)"
  shows "link_ring (f(last (NULL # xs) := f v)) (xs @ ys)"
proof -
  let ?p = "last (NULL # xs)"
  let ?g = "f(?p := f v)"
  have p: "link_path f NULL xs" and q: "link_path f v ys" and e: "f (last (v # ys)) = NULL"
    using assms(1) by (auto simp: ring_split)
  have n: "NULL \<notin> set xs" "NULL \<notin> set ys"
    using path_ne_NULL [OF p] path_ne_NULL [OF q] by auto
  have py: "?p \<notin> set ys"
    using assms(2) n by (cases xs rule: rev_cases) auto
  have 1: "link_path ?g NULL xs"
    using path_upd_last [OF p] n assms(2) by simp
  have 2: "link_path ?g ?p ys"
  proof (cases ys)
    case (Cons y zs)
    then show ?thesis
      using q py by (simp add: path_upd_other del: last.simps)
  qed simp
  have 3: "?g (last (?p # ys)) = NULL"
  proof (cases "ys = []")
    case False
    then have "last ys \<noteq> ?p"
      using py by (metis last_in_set)
    with False e show ?thesis by simp
  qed (use e in simp)
  show ?thesis
    using 1 2 3 by (simp add: ring_split)
qed

section \<open>The forward pointers\<close>

definition fwd :: "kheap \<Rightarrow> nat \<Rightarrow> ptr \<Rightarrow> ptr" where
  "fwd K i n = (if n = NULL then kh_forward K ! i else case kh_headers K n of Some h \<Rightarrow> hd_forward h ! i | None \<Rightarrow> NULL)"

definition size_of :: "kheap \<Rightarrow> ptr \<Rightarrow> u32" where
  "size_of K n = (case kh_headers K n of Some h \<Rightarrow> hd_size h | None \<Rightarrow> 0)"

definition aligned :: "ptr \<Rightarrow> bool" where
  "aligned p \<longleftrightarrow> p mod PAGE_SIZE = 0"

lemma page_sized_cong [simp]: "page_sized (h\<lparr>hd_forward := l\<rparr>) = page_sized h" "page_sized (h\<lparr>hd_next := p\<rparr>) = page_sized h"
  "page_sized (h\<lparr>hd_head := p\<rparr>) = page_sized h"
  by (simp_all add: page_sized_def)

text \<open>A skip_node: the head, or a big_bin bin with its seven forward pointers.\<close>

definition big_node :: "kheap \<Rightarrow> ptr \<Rightarrow> bool" where
  "big_node K n \<longleftrightarrow> n \<noteq> NULL \<and> aligned n \<and>
     (\<exists>h. kh_headers K n = Some h \<and> length (hd_forward h) = 7 \<and> page_sized h \<and> hd_size h > NUM_BINS)"

definition skip_node :: "kheap \<Rightarrow> ptr \<Rightarrow> bool" where
  "skip_node K n \<longleftrightarrow> (n = NULL \<and> length (kh_forward K) = 7) \<or> big_node K n"

text \<open>A state that differs in forward pointers only.\<close>

definition relinked :: "kheap \<Rightarrow> kheap \<Rightarrow> bool" where
  "relinked K K' \<longleftrightarrow> (\<exists>g fs. K' = K\<lparr>kh_headers := \<lambda>b. map_option (\<lambda>h. h\<lparr>hd_forward := g b\<rparr>) (kh_headers K b), kh_forward := fs\<rparr>
     \<and> length fs = length (kh_forward K) \<and> (\<forall>b h. kh_headers K b = Some h \<longrightarrow> length (g b) = length (hd_forward h)))"

lemma relinked_refl: "relinked K K"
  unfolding relinked_def
  by (intro exI [of _ "\<lambda>b. case kh_headers K b of Some h \<Rightarrow> hd_forward h | None \<Rightarrow> []"] exI [of _ "kh_forward K"] conjI)
    (auto intro!: kheap.equality ext split: option.splits simp: option.map_comp)

lemma relinked_trans: "relinked K K1 \<Longrightarrow> relinked K1 K2 \<Longrightarrow> relinked K K2"
  unfolding relinked_def
proof (elim exE conjE)
  fix g fs g' fs'
  assume a: "K1 = K\<lparr>kh_headers := \<lambda>b. map_option (\<lambda>h. h\<lparr>hd_forward := g b\<rparr>) (kh_headers K b), kh_forward := fs\<rparr>"
    "K2 = K1\<lparr>kh_headers := \<lambda>b. map_option (\<lambda>h. h\<lparr>hd_forward := g' b\<rparr>) (kh_headers K1 b), kh_forward := fs'\<rparr>"
    "length fs = length (kh_forward K)" "\<forall>b h. kh_headers K b = Some h \<longrightarrow> length (g b) = length (hd_forward h)"
    "length fs' = length (kh_forward K1)" "\<forall>b h. kh_headers K1 b = Some h \<longrightarrow> length (g' b) = length (hd_forward h)"
  show "\<exists>g fs. K2 = K\<lparr>kh_headers := \<lambda>b. map_option (\<lambda>h. h\<lparr>hd_forward := g b\<rparr>) (kh_headers K b), kh_forward := fs\<rparr>
     \<and> length fs = length (kh_forward K) \<and> (\<forall>b h. kh_headers K b = Some h \<longrightarrow> length (g b) = length (hd_forward h))"
    using a by (intro exI [of _ g'] exI [of _ fs']) (auto simp: option.map_comp comp_def)
qed

lemma relinked_fields:
  assumes "relinked K K'"
  shows "kh_links K' = kh_links K" "kh_bins K' = kh_bins K" "heap_tail K' = heap_tail K" "kh_newest K' = kh_newest K"
    "kh_level K' = kh_level K" "kh_rand K' = kh_rand K" "frame_ptr K' = frame_ptr K" "length (kh_forward K') = length (kh_forward K)"
    "size_of K' = size_of K" "big_node K' = big_node K" "skip_node K' = skip_node K"
    "\<And>f. (\<And>h l. f (h\<lparr>hd_forward := l\<rparr>) = f h) \<Longrightarrow> map_option f (kh_headers K' b) = map_option f (kh_headers K b)"
    "kh_headers K' b = None \<longleftrightarrow> kh_headers K b = None"
  using assms unfolding relinked_def
  by (auto simp: size_of_def big_node_def skip_node_def fun_eq_iff option.map_comp comp_def split: option.splits)

lemma set_forward_law:
  assumes "skip_node K n" and "i \<le> 6"
  shows "\<exists>K'. set_forward n i v K = Some K' \<and> relinked K K' \<and> (\<forall>j. fwd K' j = (if j = i then (fwd K j)(n := v) else fwd K j))"
proof (cases "n = NULL")
  case True
  with assms have l: "length (kh_forward K) = 7"
    by (auto simp: skip_node_def big_node_def)
  have "relinked K (K\<lparr>kh_forward := (kh_forward K)[i := v]\<rparr>)"
    unfolding relinked_def
    by (intro exI [of _ "\<lambda>b. case kh_headers K b of Some h \<Rightarrow> hd_forward h | None \<Rightarrow> []"]
        exI [of _ "(kh_forward K)[i := v]"] conjI) (auto intro!: kheap.equality ext split: option.splits simp: option.map_comp)
  then show ?thesis
    using True l assms(2) by (auto simp: set_forward_def fwd_def fun_eq_iff)
next
  case False
  with assms obtain h where h: "kh_headers K n = Some h" "length (hd_forward h) = 7"
    by (auto simp: skip_node_def big_node_def)
  let ?K = "K\<lparr>kh_headers := (kh_headers K)(n := Some (h\<lparr>hd_forward := (hd_forward h)[i := v]\<rparr>))\<rparr>"
  have "relinked K ?K"
    unfolding relinked_def
    by (intro exI [of _ "\<lambda>b. if b = n then (hd_forward h)[i := v] else case kh_headers K b of Some h \<Rightarrow> hd_forward h | None \<Rightarrow> []"]
        exI [of _ "kh_forward K"] conjI) (use h in \<open>auto intro!: kheap.equality ext split: option.splits\<close>)
  then show ?thesis
    using False h assms(2) by (auto simp: set_forward_def wr_header_def rd_header_def fwd_def fun_eq_iff)
qed

lemma forward_eq: "skip_node K n \<Longrightarrow> forward K n i = Some (fwd K i n)"
  by (auto simp: forward_def fwd_def skip_node_def big_node_def)

section \<open>The invariant\<close>

definition skip_list :: "kheap \<Rightarrow> ptr list \<Rightarrow> (ptr \<Rightarrow> nat) \<Rightarrow> bool" where
  "skip_list K ns ht \<longleftrightarrow> length (kh_forward K) = 7 \<and> kh_level K \<le> 6 \<and> distinct ns \<and> sorted (map (size_of K) ns)
     \<and> (\<forall>n\<in>set ns. big_node K n \<and> ht n \<le> kh_level K)
     \<and> (\<forall>i\<le>6. link_ring (fwd K i) (filter (\<lambda>n. i \<le> ht n) ns))"

definition skip_pred :: "(ptr \<Rightarrow> nat) \<Rightarrow> ptr list \<Rightarrow> nat \<Rightarrow> ptr" where
  "skip_pred ht ps i = last (NULL # filter (\<lambda>n. i \<le> ht n) ps)"

lemma pred_cases: "skip_pred ht ps i = NULL \<or> (skip_pred ht ps i \<in> set ps \<and> i \<le> ht (skip_pred ht ps i))"
  using last_in_set [of "filter (\<lambda>n. i \<le> ht n) ps"] by (auto simp: skip_pred_def)

lemma skip_list_node: "skip_list K ns ht \<Longrightarrow> n = NULL \<or> n \<in> set ns \<Longrightarrow> skip_node K n"
  by (auto simp: skip_list_def skip_node_def)

lemma sorted_dropWhile:
  "sorted (map f xs) \<Longrightarrow> x \<in> set (dropWhile (\<lambda>n. f n < s) xs) \<Longrightarrow> \<not> f x < (s :: u32)"
  by (induction xs) (auto split: if_splits simp: not_less intro: order_trans)

lemma fwd_pred:
  assumes "skip_list K (ps @ qs) ht" and "i \<le> 6"
  shows "fwd K i (skip_pred ht ps i) = (case filter (\<lambda>n. i \<le> ht n) qs of [] \<Rightarrow> NULL | q # _ \<Rightarrow> q)"
  using assms ring_next [of "fwd K i" "filter (\<lambda>n. i \<le> ht n) ps" "filter (\<lambda>n. i \<le> ht n) qs"]
  by (simp add: skip_list_def skip_pred_def)

section \<open>The search\<close>

lemma skip_right_path:
  assumes "link_path (fwd K i) a xs" and "\<And>x. x \<in> set xs \<Longrightarrow> big_node K x \<and> size_of K x < sz" and "skip_node K a"
    and "e = fwd K i (last (a # xs))" and "e = NULL \<or> (big_node K e \<and> \<not> size_of K e < sz)"
  shows "skip_right K i sz a = Some (last (a # xs))"
  using assms
proof (induction xs arbitrary: a)
  case Nil
  then show ?case
    by (subst skip_right.simps) (auto simp: forward_eq rd_header_def big_node_def size_of_def)
next
  case (Cons x xs)
  then have "big_node K x \<and> size_of K x < sz" "fwd K i a = x"
    by auto
  moreover from Cons have "skip_right K i sz x = Some (last (x # xs))"
    by (intro Cons.IH) (auto simp: skip_node_def)
  ultimately show ?case
    using Cons.prems(3)
    by (subst skip_right.simps) (auto simp: forward_eq rd_header_def big_node_def size_of_def assert_def)
qed

lemma skip_right_pred:
  assumes k: "skip_list K (ps @ qs) ht" and p: "\<forall>n\<in>set ps. size_of K n < sz" and q: "\<forall>n\<in>set qs. \<not> size_of K n < sz"
    and i: "i \<le> 6" and a: "a = NULL \<or> (a \<in> set ps \<and> i \<le> ht a)"
  shows "skip_right K i sz a = Some (skip_pred ht ps i)"
proof -
  let ?F = "filter (\<lambda>n. i \<le> ht n) ps"
  have "a \<in> set (NULL # ?F)"
    using a by auto
  then obtain A B where s: "NULL # ?F = A @ a # B"
    by (meson split_list)
  have r: "link_path (fwd K i) NULL ?F"
    using k i by (auto simp: skip_list_def ring_split)
  have B: "set B \<subseteq> set ps"
  proof -
    have "set B \<subseteq> set ?F"
      using s by (cases A) auto
    then show ?thesis by auto
  qed
  have e: "fwd K i (last (a # B)) = (case filter (\<lambda>n. i \<le> ht n) qs of [] \<Rightarrow> NULL | q # _ \<Rightarrow> q)"
    using fwd_pred [OF k i] path_split(2) [OF r s] by (simp add: skip_pred_def)
  have "skip_right K i sz a = Some (last (a # B))"
  proof (rule skip_right_path [OF _ _ _ refl])
    show "link_path (fwd K i) a B" by (rule path_split(1) [OF r s])
    show "skip_node K a" using skip_list_node [OF k] a by auto
    show "big_node K x \<and> size_of K x < sz" if "x \<in> set B" for x
      using that B p k by (auto simp: skip_list_def)
    show "fwd K i (last (a # B)) = NULL \<or> big_node K (fwd K i (last (a # B))) \<and> \<not> size_of K (fwd K i (last (a # B))) < sz"
    proof (cases "filter (\<lambda>n. i \<le> ht n) qs")
      case (Cons x xs)
      then have "x \<in> set qs" by (metis filter_is_subset list.set_intros(1) subsetD)
      with q k e Cons show ?thesis by (auto simp: skip_list_def)
    qed (use e in simp)
  qed
  then show ?thesis
    using path_split(2) [OF r s] by (simp add: skip_pred_def)
qed

lemma skip_down_pred:
  assumes k: "skip_list K (ps @ qs) ht" and p: "\<forall>n\<in>set ps. size_of K n < sz" and q: "\<forall>n\<in>set qs. \<not> size_of K n < sz"
    and "i \<le> 6" and "a = NULL \<or> (a \<in> set ps \<and> i \<le> ht a)"
  shows "skip_down K i sz a = Some (skip_pred ht ps 0, map (skip_pred ht ps) [0..<Suc i])"
  using assms(4,5)
proof (induction i arbitrary: a)
  case 0
  then show ?case by (simp add: skip_right_pred [OF k p q])
next
  case (Suc i)
  have "skip_down K i sz (skip_pred ht ps (Suc i)) = Some (skip_pred ht ps 0, map (skip_pred ht ps) [0..<Suc i])"
    using Suc.prems pred_cases [of ht ps "Suc i"] by (intro Suc.IH) auto
  then show ?case
    using Suc.prems by (simp add: skip_right_pred [OF k p q])
qed

text \<open>The nodes of a search: those that are smaller, and the others.\<close>

lemma skip_split:
  fixes sz :: u32
  assumes "skip_list K ns ht"
  defines "ps \<equiv> takeWhile (\<lambda>n. size_of K n < sz) ns" and "qs \<equiv> dropWhile (\<lambda>n. size_of K n < sz) ns"
  shows "ns = ps @ qs" "\<forall>n\<in>set ps. size_of K n < sz" "\<forall>n\<in>set qs. \<not> size_of K n < sz"
    "skip_down K (kh_level K) sz NULL = Some (skip_pred ht ps 0, map (skip_pred ht ps) [0..<Suc (kh_level K)])"
    "fwd K 0 (skip_pred ht ps 0) = (case qs of [] \<Rightarrow> NULL | q # _ \<Rightarrow> q)"
proof -
  show 1: "ns = ps @ qs" by (simp add: ps_def qs_def)
  show 2: "\<forall>n\<in>set ps. size_of K n < sz" by (auto simp: ps_def dest: set_takeWhileD)
  show 3: "\<forall>n\<in>set qs. \<not> size_of K n < sz"
  proof
    fix n assume "n \<in> set qs"
    with assms(1) show "\<not> size_of K n < sz"
      unfolding qs_def skip_list_def by (elim conjE) (rule sorted_dropWhile)
  qed
  have k: "skip_list K (ps @ qs) ht" using assms(1) 1 by simp
  then show "skip_down K (kh_level K) sz NULL = Some (skip_pred ht ps 0, map (skip_pred ht ps) [0..<Suc (kh_level K)])"
    by (intro skip_down_pred [OF k 2 3]) (auto simp: skip_list_def)
  show "fwd K 0 (skip_pred ht ps 0) = (case qs of [] \<Rightarrow> NULL | q # _ \<Rightarrow> q)"
    using fwd_pred [OF k, of 0] by simp
qed

text \<open>The best fit is the first skip_node that is large enough, hence the smallest one.\<close>

lemma findbest:
  assumes "skip_list K ns ht"
  shows "klmalloc_skip_list_findbest sz K = Some (case dropWhile (\<lambda>n. size_of K n < sz) ns of [] \<Rightarrow> NULL | q # _ \<Rightarrow> q)"
proof -
  note s = skip_split [OF assms, of sz]
  have "skip_node K (skip_pred ht (takeWhile (\<lambda>n. size_of K n < sz) ns) 0)"
    using pred_cases [of ht _ 0] skip_list_node [OF assms] by (metis set_takeWhileD)
  moreover have "big_node K q" if "dropWhile (\<lambda>n. size_of K n < sz) ns = q # qs" for q qs
    using that assms by (metis list.set_intros(1) set_dropWhileD skip_list_def)
  ultimately show ?thesis
    using s(4,5) by (auto simp: klmalloc_skip_list_findbest_def forward_eq rd_header_def big_node_def assert_def
        aligned_def split: list.split)
qed

lemma findbest_smallest:
  assumes "skip_list K ns ht"
  shows "\<exists>b. klmalloc_skip_list_findbest sz K = Some b \<and> (if b = NULL then \<forall>c\<in>set ns. size_of K c < sz
    else b \<in> set ns \<and> sz \<le> size_of K b \<and> (\<forall>c\<in>set ns. sz \<le> size_of K c \<longrightarrow> size_of K b \<le> size_of K c))"
proof (cases "dropWhile (\<lambda>n. size_of K n < sz) ns")
  case Nil
  then have "\<forall>c\<in>set ns. size_of K c < sz"
    by (simp add: dropWhile_eq_Nil_conv)
  then show ?thesis
    using findbest [OF assms, of sz] Nil by simp
next
  case (Cons b qs)
  define ps where "ps = takeWhile (\<lambda>n. size_of K n < sz) ns"
  have ns: "ns = ps @ b # qs"
    using Cons takeWhile_dropWhile_id [of "\<lambda>n. size_of K n < sz" ns] by (simp add: ps_def)
  have ps: "\<forall>c\<in>set ps. size_of K c < sz"
    by (auto simp: ps_def dest: set_takeWhileD)
  have "sorted (map (size_of K) (ps @ b # qs))" "b \<noteq> NULL"
    using assms unfolding ns by (auto simp: skip_list_def big_node_def)
  then have "\<forall>c\<in>set qs. size_of K b \<le> size_of K c"
    by (simp add: sorted_append)
  moreover have "\<not> size_of K b < sz"
    using hd_dropWhile [of "\<lambda>n. size_of K n < sz" ns] Cons by simp
  ultimately show ?thesis
    using findbest [OF assms, of sz] Cons ns ps \<open>b \<noteq> NULL\<close> by (auto simp: not_less)
qed

end
