(* ===== verification/Heap_Skip_Update.thy ===== *)
theory Heap_Skip_Update
  imports Heap_Skip
begin

text \<open>
  Insertion into and removal from the skip list: each keeps the invariant, and changes the list of nodes by
  the one node.
\<close>

section \<open>The loops over the levels\<close>

lemma check_node:
  assumes "n = NULL \<or> big_node K n"
  shows "(if n = NULL then Some () else do { h \<leftarrow> rd_header K n; assert (page_sized h) }) = Some ()"
    and "(if n = NULL then Some () else do { h \<leftarrow> rd_header K n; assert (n mod PAGE_SIZE = 0 \<and> page_sized h) }) = Some ()"
  using assms by (auto simp: rd_header_def big_node_def aligned_def [symmetric] assert_def)

text \<open>From level \<open>i\<close> on, \<open>k\<close> levels: the removed skip_node is skipped where it was linked.\<close>

lemma unlink_levels_law:
  assumes "skip_node K v" and "v \<noteq> NULL" and "i + k \<le> 7" and "\<And>j. i \<le> j \<Longrightarrow> j < i + k \<Longrightarrow> skip_node K (us ! j) \<and> us ! j \<noteq> v"
    and "\<And>j. i \<le> j \<Longrightarrow> j < i + k \<Longrightarrow> (j \<le> h \<longleftrightarrow> fwd K j (us ! j) = v)"
    and "\<And>j. i \<le> j \<Longrightarrow> j < i + k \<Longrightarrow> j \<le> h \<Longrightarrow> fwd K j v = NULL \<or> big_node K (fwd K j v)"
  shows "\<exists>K'. unlink_levels i k us v K = Some K' \<and> relinked K K' \<and>
    (\<forall>j. fwd K' j = (if i \<le> j \<and> j < i + k \<and> j \<le> h then (fwd K j)(us ! j := fwd K j v) else fwd K j))"
  using assms
proof (induction k arbitrary: i K)
  case 0
  then show ?case by (auto simp: relinked_refl)
next
  case (Suc k)
  have n: "skip_node K (us ! i)" "us ! i \<noteq> v"
    using Suc.prems(4) [of i] Suc.prems(3) by auto
  show ?case
  proof (cases "i \<le> h")
    case False
    then have "fwd K i (us ! i) \<noteq> v"
      using Suc.prems(5) [of i] by simp
    then show ?thesis
      using n False by (auto simp: forward_eq relinked_refl)
  next
    case True
    then have f: "fwd K i (us ! i) = v" and g: "fwd K i v = NULL \<or> big_node K (fwd K i v)"
      using Suc.prems(5,6) [of i] by auto
    obtain K1 where K1: "set_forward (us ! i) i (fwd K i v) K = Some K1" "relinked K K1"
      "\<And>j. fwd K1 j = (if j = i then (fwd K j)(us ! i := fwd K i v) else fwd K j)"
      using set_forward_law [OF n(1), of i "fwd K i v"] Suc.prems(3) by auto
    note r = relinked_fields [OF K1(2)]
    have "\<exists>K'. unlink_levels (Suc i) k us v K1 = Some K' \<and> relinked K1 K' \<and>
      (\<forall>j. fwd K' j = (if Suc i \<le> j \<and> j < Suc i + k \<and> j \<le> h then (fwd K1 j)(us ! j := fwd K1 j v) else fwd K1 j))"
      by (rule Suc.IH) (use Suc.prems in \<open>auto simp: r K1(3)\<close>)
    then obtain K' where K': "unlink_levels (Suc i) k us v K1 = Some K'" "relinked K1 K'"
      "\<And>j. fwd K' j = (if Suc i \<le> j \<and> j < Suc i + k \<and> j \<le> h then (fwd K1 j)(us ! j := fwd K1 j v) else fwd K1 j)"
      by blast
    have "unlink_levels i (Suc k) us v K = Some K'"
      using n(1) f Suc.prems(1) K1(1) K'(1) check_node(2) [of "fwd K i v" K1] g r by (simp add: forward_eq)
    moreover have "relinked K K'"
      by (rule relinked_trans [OF K1(2) K'(2)])
    moreover have "fwd K' j = (if i \<le> j \<and> j < i + Suc k \<and> j \<le> h then (fwd K j)(us ! j := fwd K j v) else fwd K j)" for j
      using True n(2) by (cases "j = i") (auto simp: K'(3) K1(3))
    ultimately show ?thesis by blast
  qed
qed

text \<open>The inserted skip_node is linked behind its predecessor on every level it has.\<close>

lemma link_levels_law:
  assumes "skip_node K v" and "v \<noteq> NULL" and "i + k \<le> 7" and "\<And>j. i \<le> j \<Longrightarrow> j < i + k \<Longrightarrow> skip_node K (us ! j) \<and> us ! j \<noteq> v"
    and "\<And>j. i \<le> j \<Longrightarrow> j < i + k \<Longrightarrow> fwd K j (us ! j) = NULL \<or> big_node K (fwd K j (us ! j))"
  shows "\<exists>K'. link_levels i k us v K = Some K' \<and> relinked K K' \<and>
    (\<forall>j. fwd K' j = (if i \<le> j \<and> j < i + k then (fwd K j)(v := fwd K j (us ! j), us ! j := v) else fwd K j))"
  using assms
proof (induction k arbitrary: i K)
  case 0
  then show ?case by (auto simp: relinked_refl)
next
  case (Suc k)
  have n: "skip_node K (us ! i)" "us ! i \<noteq> v" and g: "fwd K i (us ! i) = NULL \<or> big_node K (fwd K i (us ! i))"
    using Suc.prems(4,5) [of i] Suc.prems(3) by auto
  obtain K1 where K1: "set_forward v i (fwd K i (us ! i)) K = Some K1" "relinked K K1"
    "\<And>j. fwd K1 j = (if j = i then (fwd K j)(v := fwd K i (us ! i)) else fwd K j)"
    using set_forward_law [OF Suc.prems(1), of i "fwd K i (us ! i)"] Suc.prems(3) by auto
  note r = relinked_fields [OF K1(2)]
  obtain K2 where K2: "set_forward (us ! i) i v K1 = Some K2" "relinked K1 K2"
    "\<And>j. fwd K2 j = (if j = i then (fwd K1 j)(us ! i := v) else fwd K1 j)"
    using set_forward_law [of K1 "us ! i" i v] n(1) r Suc.prems(3) by auto
  note r2 = relinked_fields [OF K2(2)]
  have "\<exists>K'. link_levels (Suc i) k us v K2 = Some K' \<and> relinked K2 K' \<and>
    (\<forall>j. fwd K' j = (if Suc i \<le> j \<and> j < Suc i + k then (fwd K2 j)(v := fwd K2 j (us ! j), us ! j := v) else fwd K2 j))"
  proof (rule Suc.IH)
    show "fwd K2 j (us ! j) = NULL \<or> big_node K2 (fwd K2 j (us ! j))" if "Suc i \<le> j" "j < Suc i + k" for j
      using Suc.prems(1,2) Suc.prems(5) [of j] that by (auto simp: r r2 K1(3) K2(3) skip_node_def)
  qed (use Suc.prems in \<open>auto simp: r r2\<close>)
  then obtain K' where K': "link_levels (Suc i) k us v K2 = Some K'" "relinked K2 K'"
    "\<And>j. fwd K' j = (if Suc i \<le> j \<and> j < Suc i + k then (fwd K2 j)(v := fwd K2 j (us ! j), us ! j := v) else fwd K2 j)"
    by blast
  have "link_levels i (Suc k) us v K = Some K'"
    using n(1) K1(1) K2(1) K'(1) check_node(1) [of "fwd K i (us ! i)" K1] g r by (simp add: forward_eq)
  moreover have "relinked K K'"
    by (rule relinked_trans [OF relinked_trans [OF K1(2) K2(2)] K'(2)])
  moreover have "fwd K' j = (if i \<le> j \<and> j < i + Suc k then (fwd K j)(v := fwd K j (us ! j), us ! j := v) else fwd K j)" for j
    using n(2) by (cases "j = i") (auto simp: K'(3) K1(3) K2(3))
  ultimately show ?case by blast
qed

section \<open>Removal\<close>

lemma lower_level_law:
  assumes "l \<le> length fs"
  shows "lower_level l fs \<le> l" and "\<And>j. lower_level l fs < j \<Longrightarrow> j \<le> l \<Longrightarrow> fs ! j = NULL"
proof -
  have "lower_level l fs \<le> l \<and> (\<forall>j. lower_level l fs < j \<and> j \<le> l \<longrightarrow> fs ! j = NULL)"
    by (induction l) (auto simp: le_Suc_eq)
  then show "lower_level l fs \<le> l" and "\<And>j. lower_level l fs < j \<Longrightarrow> j \<le> l \<Longrightarrow> fs ! j = NULL"
    by auto
qed

lemma skip_level_fields [simp]:
  "fwd (K\<lparr>kh_level := l\<rparr>) = fwd K" "size_of (K\<lparr>kh_level := l\<rparr>) = size_of K" "big_node (K\<lparr>kh_level := l\<rparr>) = big_node K"
  "skip_node (K\<lparr>kh_level := l\<rparr>) = skip_node K" "forward (K\<lparr>kh_level := l\<rparr>) = forward K"
  "fwd (K\<lparr>kh_rand := r\<rparr>) = fwd K" "size_of (K\<lparr>kh_rand := r\<rparr>) = size_of K" "big_node (K\<lparr>kh_rand := r\<rparr>) = big_node K"
  "skip_node (K\<lparr>kh_rand := r\<rparr>) = skip_node K" "forward (K\<lparr>kh_rand := r\<rparr>) = forward K"
  by (auto simp: fun_eq_iff fwd_def size_of_def big_node_def skip_node_def forward_def)

lemma relinked_level: "relinked K K' \<Longrightarrow> relinked (K\<lparr>kh_level := l\<rparr>) (K'\<lparr>kh_level := l\<rparr>)"
proof -
  assume "relinked K K'"
  then obtain g fs where "K' = K\<lparr>kh_headers := \<lambda>b. map_option (\<lambda>h. h\<lparr>hd_forward := g b\<rparr>) (kh_headers K b), kh_forward := fs\<rparr>"
    "length fs = length (kh_forward K)" "\<forall>b h. kh_headers K b = Some h \<longrightarrow> length (g b) = length (hd_forward h)"
    unfolding relinked_def by blast
  then show ?thesis
    unfolding relinked_def by (intro exI [of _ g] exI [of _ fs]) simp
qed

lemma skip_list_lower:
  assumes "skip_list K ns ht"
  shows "skip_list (K\<lparr>kh_level := lower_level (kh_level K) (kh_forward K)\<rparr>) ns ht"
proof -
  let ?l = "lower_level (kh_level K) (kh_forward K)"
  have l: "kh_level K \<le> length (kh_forward K)"
    using assms by (simp add: skip_list_def)
  have "ht n \<le> ?l" if n: "n \<in> set ns" for n
  proof (rule ccontr)
    assume "\<not> ht n \<le> ?l"
    then have "?l < ht n" "ht n \<le> kh_level K" "ht n \<le> 6"
      using assms n by (auto simp: skip_list_def)
    with lower_level_law(2) [OF l, of "ht n"] have "fwd K (ht n) NULL = NULL"
      by (simp add: fwd_def)
    moreover have "link_ring (fwd K (ht n)) (filter (\<lambda>m. ht n \<le> ht m) ns)"
      using assms \<open>ht n \<le> 6\<close> by (simp add: skip_list_def)
    moreover have "filter (\<lambda>m. ht n \<le> ht m) ns \<noteq> []"
      using n by (auto simp: filter_empty_conv)
    ultimately show False
      by (cases "filter (\<lambda>m. ht n \<le> ht m) ns") (auto simp: link_ring_def)
  qed
  with assms lower_level_law(1) [OF l] show ?thesis
    by (auto simp: skip_list_def)
qed

lemma distinct_pred_ne:
  assumes "skip_list K (ps @ v # qs) ht"
  shows "skip_pred ht ps i \<noteq> v"
proof -
  have "v \<noteq> NULL" "v \<notin> set ps"
    using assms by (auto simp: skip_list_def big_node_def)
  then show ?thesis
    using pred_cases [of ht ps i] by auto
qed

lemma skip_list_remove_links:
  assumes k: "skip_list K (ps @ v # qs) ht" and r: "relinked K K'"
    and f: "\<And>j. j \<le> 6 \<Longrightarrow> fwd K' j = (if j \<le> ht v then (fwd K j)(skip_pred ht ps j := fwd K j v) else fwd K j)"
  shows "skip_list K' (ps @ qs) ht"
proof -
  have "link_ring (fwd K' i) (filter (\<lambda>n. i \<le> ht n) (ps @ qs))" if i: "i \<le> 6" for i
  proof -
    have 1: "link_ring (fwd K i) (filter (\<lambda>n. i \<le> ht n) (ps @ v # qs))"
      using k i by (simp add: skip_list_def)
    have 2: "distinct (filter (\<lambda>n. i \<le> ht n) (ps @ v # qs))"
      using k unfolding skip_list_def by (elim conjE) (rule distinct_filter)
    show ?thesis
    proof (cases "i \<le> ht v")
      case True
      then show ?thesis
        using ring_remove [of "fwd K i" "filter (\<lambda>n. i \<le> ht n) ps" v "filter (\<lambda>n. i \<le> ht n) qs"] 1 2 f [OF i]
        by (simp add: skip_pred_def)
    qed (use 1 f [OF i] in simp)
  qed
  with k relinked_fields [OF r] show ?thesis
    by (auto simp: skip_list_def sorted_append)
qed

lemma skip_list_delete:
  assumes k: "skip_list K (ps @ v # qs) ht" and v: "assert_value v K = Some ()"
    and p: "\<forall>n\<in>set ps. size_of K n < size_of K v"
  shows "\<exists>K'. klmalloc_skip_list_delete v K = Some K' \<and> skip_list K' (ps @ qs) ht \<and>
    (\<exists>l. relinked (K\<lparr>kh_level := l\<rparr>) K')"
proof -
  let ?us = "map (skip_pred ht ps) [0..<Suc (kh_level K)]"
  have n: "big_node K v"
    using k by (auto simp: skip_list_def)
  then obtain h where h: "kh_headers K v = Some h" "v \<noteq> NULL" "size_of K v = hd_size h"
    by (auto simp: big_node_def size_of_def)
  have q: "\<forall>n\<in>set (v # qs). \<not> size_of K n < size_of K v"
    using k by (auto simp: skip_list_def sorted_append not_less)
  have l: "kh_level K \<le> 6"
    using k by (simp add: skip_list_def)
  have d: "skip_down K (kh_level K) (hd_size h) NULL = Some (skip_pred ht ps 0, ?us)"
    using skip_down_pred [OF k p q l] h by simp
  have f0: "fwd K 0 (skip_pred ht ps 0) = v"
    using fwd_pred [OF k, of 0] by simp
  have np: "skip_node K (skip_pred ht ps j)" for j
    using pred_cases [of ht ps j] skip_list_node [OF k] by auto
  have "\<exists>K'. unlink_levels 0 (Suc (kh_level K)) ?us v K = Some K' \<and> relinked K K' \<and>
    (\<forall>j. fwd K' j = (if 0 \<le> j \<and> j < 0 + Suc (kh_level K) \<and> j \<le> ht v then (fwd K j)(?us ! j := fwd K j v) else fwd K j))"
  proof (rule unlink_levels_law)
    fix j assume "j < 0 + Suc (kh_level K)"
    then have j: "?us ! j = skip_pred ht ps j" "j \<le> 6"
      using l by (auto simp: nth_append less_Suc_eq simp del: upt_Suc)
    show "skip_node K (?us ! j) \<and> ?us ! j \<noteq> v"
      using np distinct_pred_ne [OF k] j by simp
    show "j \<le> ht v \<longleftrightarrow> fwd K j (?us ! j) = v"
    proof (cases "j \<le> ht v")
      case False
      then have "fwd K j (skip_pred ht ps j) \<noteq> v"
        using fwd_pred [OF k j(2)] h(2) by (auto split: list.splits dest: filter_eq_ConsD)
      with False j show ?thesis by simp
    qed (use fwd_pred [OF k j(2)] j in simp)
    show "fwd K j v = NULL \<or> big_node K (fwd K j v)" if "j \<le> ht v"
    proof -
      have "link_ring (fwd K j) (filter (\<lambda>n. j \<le> ht n) (ps @ v # qs))"
        using k j(2) unfolding skip_list_def by blast
      then have "fwd K j v = (case filter (\<lambda>n. j \<le> ht n) qs of [] \<Rightarrow> NULL | q # _ \<Rightarrow> q)"
        using that ring_next [of "fwd K j" "filter (\<lambda>n. j \<le> ht n) (ps @ [v])" "filter (\<lambda>n. j \<le> ht n) qs"]
        by simp
      then show ?thesis
        using k by (cases "filter (\<lambda>n. j \<le> ht n) qs") (auto simp: skip_list_def dest: filter_eq_ConsD)
    qed
  qed (use n h l in \<open>auto simp: skip_node_def\<close>)
  then obtain K' where K': "unlink_levels 0 (Suc (kh_level K)) ?us v K = Some K'" "relinked K K'"
    "\<And>j. fwd K' j = (if j < Suc (kh_level K) \<and> j \<le> ht v then (fwd K j)(?us ! j := fwd K j v) else fwd K j)"
    by auto
  have hv: "ht v \<le> kh_level K"
    using k by (simp add: skip_list_def)
  have s: "skip_list K' (ps @ qs) ht"
  proof (rule skip_list_remove_links [OF k K'(2)])
    show "fwd K' j = (if j \<le> ht v then (fwd K j)(skip_pred ht ps j := fwd K j v) else fwd K j)" for j
      using hv by (auto simp: K'(3) nth_append less_Suc_eq simp del: upt_Suc)
  qed
  note r = relinked_fields [OF K'(2)]
  have "klmalloc_skip_list_delete v K = Some (K'\<lparr>kh_level := lower_level (kh_level K') (kh_forward K')\<rparr>)"
    using v d f0 np h K'(1) r
    by (simp add: klmalloc_skip_list_delete_def rd_header_def forward_eq seek.simps del: upt_Suc)
  moreover have "relinked (K\<lparr>kh_level := lower_level (kh_level K') (kh_forward K')\<rparr>) (K'\<lparr>kh_level := lower_level (kh_level K') (kh_forward K')\<rparr>)"
    by (rule relinked_level [OF K'(2)])
  ultimately show ?thesis
    using skip_list_lower [OF s] by blast
qed

section \<open>Insertion\<close>

lemma random_level_bound: "level \<le> 6 \<Longrightarrow> fst (klmalloc_random_level level r) \<le> 6"
proof (induction level r rule: klmalloc_random_level.induct)
  case (1 level r)
  then show ?case
    by (subst klmalloc_random_level.simps) (auto simp: SKIP_MAX_LEVEL_def Let_def split: prod.split)
qed

lemma skip_list_insert_links:
  assumes k: "skip_list K (ps @ qs) ht" and r: "relinked (K\<lparr>kh_level := l\<rparr>) K'" and v: "big_node K v" "v \<notin> set (ps @ qs)"
    and l: "l = max level (kh_level K)" "level \<le> 6"
    and p: "\<forall>n\<in>set ps. size_of K n < size_of K v" and q: "\<forall>n\<in>set qs. \<not> size_of K n < size_of K v"
    and f: "\<And>j. j \<le> 6 \<Longrightarrow> fwd K' j = (if j \<le> level then (fwd K j)(v := fwd K j (skip_pred ht ps j), skip_pred ht ps j := v) else fwd K j)"
  shows "skip_list K' (ps @ v # qs) (ht(v := level))"
proof -
  have n: "v \<noteq> NULL" using v by (simp add: big_node_def)
  have h: "filter (\<lambda>n. i \<le> (ht(v := level)) n) (ps @ v # qs) =
      filter (\<lambda>n. i \<le> ht n) ps @ (if i \<le> level then [v] else []) @ filter (\<lambda>n. i \<le> ht n) qs" for i
  proof -
    have "filter (\<lambda>n. i \<le> (ht(v := level)) n) xs = filter (\<lambda>n. i \<le> ht n) xs" if "v \<notin> set xs" for xs
      using that by (intro filter_cong) auto
    with v(2) show ?thesis by simp
  qed
  have "link_ring (fwd K' i) (filter (\<lambda>n. i \<le> (ht(v := level)) n) (ps @ v # qs))" if i: "i \<le> 6" for i
  proof -
    have 1: "link_ring (fwd K i) (filter (\<lambda>n. i \<le> ht n) (ps @ qs))" and 2: "distinct (filter (\<lambda>n. i \<le> ht n) (ps @ qs))"
      using k i unfolding skip_list_def by (blast intro: distinct_filter)+
    show ?thesis
    proof (cases "i \<le> level")
      case True
      then show ?thesis
        using ring_insert [of "fwd K i" "filter (\<lambda>n. i \<le> ht n) ps" "filter (\<lambda>n. i \<le> ht n) qs" v] 1 2 f [OF i] v(2) n
        unfolding h by (simp add: skip_pred_def)
    next
      case False
      then show ?thesis
        using 1 f [OF i] unfolding h by simp
    qed
  qed
  moreover have "sorted (map (size_of K) (ps @ v # qs))"
    using k p q by (auto simp: skip_list_def sorted_append not_less less_imp_le)
  moreover have "kh_level K \<le> 6" "\<And>n. n \<in> set (ps @ qs) \<Longrightarrow> big_node K n \<and> ht n \<le> kh_level K"
    using k by (auto simp: skip_list_def)
  ultimately show ?thesis
    using k relinked_fields [OF r] v l unfolding skip_list_def by (auto simp: le_max_iff_disj)
qed

lemma skip_list_insert:
  assumes k: "skip_list K ns ht" and v: "assert_value v K = Some ()" "big_node K v" "v \<notin> set ns"
  shows "\<exists>K' ps qs ht'. klmalloc_skip_list_insert v K = Some K' \<and> ns = ps @ qs \<and> skip_list K' (ps @ v # qs) ht' \<and>
    (\<exists>l r. relinked (K\<lparr>kh_rand := r, kh_level := l\<rparr>) K')"
proof -
  define ps where "ps = takeWhile (\<lambda>n. size_of K n < size_of K v) ns"
  define qs where "qs = dropWhile (\<lambda>n. size_of K n < size_of K v) ns"
  note s = skip_split [OF k, of "size_of K v", folded ps_def qs_def]
  have k': "skip_list K (ps @ qs) ht" using k s(1) by simp
  obtain h where h: "kh_headers K v = Some h" "v \<noteq> NULL" "size_of K v = hd_size h" "page_sized h" "aligned v" "11 < hd_size h"
    using v(2) by (auto simp: big_node_def size_of_def NUM_BINS_def)
  have h0: "hd_size h \<noteq> 0"
    using h(6) by (intro notI) simp
  obtain level r where lv: "klmalloc_random_level 0 (kh_rand K) = (level, r)"
    by (cases "klmalloc_random_level 0 (kh_rand K)")
  then have level: "level \<le> 6"
    using random_level_bound [of 0 "kh_rand K"] by simp
  define l where "l = max level (kh_level K)"
  define us where "us = map (skip_pred ht ps) [0..<Suc (kh_level K)] @ replicate (level - kh_level K) NULL"
  let ?K = "K\<lparr>kh_rand := r, kh_level := l\<rparr>"
  have K6: "kh_level K \<le> 6" and ht: "\<And>n. n \<in> set ps \<Longrightarrow> ht n \<le> kh_level K"
    using k' by (auto simp: skip_list_def)
  have us: "us ! j = skip_pred ht ps j" if "j \<le> level" for j
  proof (cases "j \<le> kh_level K")
    case False
    then have "skip_pred ht ps j = NULL"
      using pred_cases [of ht ps j] ht [of "skip_pred ht ps j"] by linarith
    with False that show ?thesis
      by (simp add: us_def nth_append del: upt_Suc)
  qed (simp add: us_def nth_append del: upt_Suc)
  have pv: "skip_pred ht ps j \<noteq> v" "skip_node K (skip_pred ht ps j)" for j
    using pred_cases [of ht ps j] v(3) h(2) s(1) skip_list_node [OF k'] by auto
  have "\<exists>K'. link_levels 0 (Suc level) us v ?K = Some K' \<and> relinked ?K K' \<and> (\<forall>j. fwd K' j =
    (if 0 \<le> j \<and> j < 0 + Suc level then (fwd ?K j)(v := fwd ?K j (us ! j), us ! j := v) else fwd ?K j))"
  proof (rule link_levels_law)
    fix j assume "j < 0 + Suc level"
    then have j: "j \<le> level" "j \<le> 6" using level by auto
    show "skip_node ?K (us ! j) \<and> us ! j \<noteq> v"
      using pv us [OF j(1)] by simp
    show "fwd ?K j (us ! j) = NULL \<or> big_node ?K (fwd ?K j (us ! j))"
      using fwd_pred [OF k' j(2)] us [OF j(1)] k'
      by (cases "filter (\<lambda>n. j \<le> ht n) qs") (auto simp: skip_list_def dest: filter_eq_ConsD)
  qed (use v(2) h(2) level in \<open>auto simp: skip_node_def\<close>)
  then obtain K' where K': "link_levels 0 (Suc level) us v ?K = Some K'" "relinked ?K K'"
    "\<And>j. fwd K' j = (if j \<le> level then (fwd K j)(v := fwd K j (us ! j), us ! j := v) else fwd K j)"
    by (auto simp: less_Suc_eq_le)
  have "fwd K 0 (skip_pred ht ps 0) \<noteq> v"
    using s(5) v(3) h(2) s(1) by (auto split: list.splits)
  then have "klmalloc_skip_list_insert v K = Some K'"
    using v(1) h h0 s(4) lv K'(1) pv(2) [of 0]
    by (simp add: klmalloc_skip_list_insert_def rd_header_def assert_def aligned_def forward_eq us_def l_def
        del: upt_Suc link_levels.simps)
  moreover have "\<exists>l r. relinked (K\<lparr>kh_rand := r, kh_level := l\<rparr>) K'"
    using K'(2) by blast
  moreover have "skip_list K' (ps @ v # qs) (ht(v := level))"
  proof (rule skip_list_insert_links [OF _ _ _ _ _ level])
    show "skip_list (K\<lparr>kh_rand := r\<rparr>) (ps @ qs) ht"
      using k' by (simp add: skip_list_def)
  qed (use K' v h s us in \<open>auto simp: l_def\<close>)
  ultimately show ?thesis
    using s(1) by blast
qed

end
