(* ===== verification/Heap_Cells.thy ===== *)
theory Heap_Cells
  imports Heap_Skip_Update
begin

text \<open>
  The invariant of the kernel heap: the layout of the bins, the free cells of each small bin, the lists of
  small bins with a free cell, the skip list of the free big bins; and the set of allocated blocks.
\<close>

section \<open>Addresses\<close>

lemma unat_add_small: "unat (a :: u32) + n < 2 ^ 32 \<Longrightarrow> unat (a + of_nat n) = unat a + n"
  by (simp add: unat_word_ariths unat_of_nat)

lemma aligned_iff: "aligned p \<longleftrightarrow> unat p mod 4096 = 0"
proof -
  have "unat (p mod PAGE_SIZE) = unat p mod 4096"
    by (simp add: unat_mod)
  then show ?thesis
    by (simp only: aligned_def word_unat_eq_iff unsigned_0)
qed

lemma page_of_unat: "unat (page_of p) = 4096 * (unat p div 4096)"
proof -
  have m: "(0xFFF :: u32) = mask 12"
    by (simp add: mask_eq_exp_minus_1)
  have "p AND NOT 0xFFF = push_bit 12 (drop_bit 12 p)"
    unfolding m by (rule bit_word_eqI) (auto simp: bit_simps)
  then have p: "page_of p = p div 4096 * 4096"
    by (simp add: page_of_def push_bit_eq_mult drop_bit_eq_div)
  have "unat p div 4096 * 4096 < 2 ^ 32"
    using unat_bound [of p] by simp
  then show ?thesis
    unfolding p by (simp add: unat_word_ariths unat_div)
qed

lemma page_of_in:
  assumes "unat b mod 4096 = 0" and "unat b \<le> unat p" and "unat p < unat b + 4096"
  shows "page_of p = b"
proof -
  obtain c where c: "unat b = 4096 * c"
    using assms(1) by (auto elim: dvdE)
  then obtain r where "unat p = 4096 * c + r" "r < 4096"
    using assms(2,3) by (metis add_less_cancel_left le_Suc_ex)
  then have "unat (page_of p) = unat b"
    using c by (simp add: page_of_unat)
  then show ?thesis by (simp only: word_unat_eq_iff)
qed

section \<open>Cells of a small bin\<close>

lemma available_cells: "k < 10 \<Longrightarrow> Suc (available k) * 2 ^ (k + 2) \<le> 4080 \<and> available k < 1020"
proof -
  assume k: "k < 10"
  define d :: nat where "d = 4080 div 2 ^ (k + 2)"
  have "(2 :: nat) ^ (k + 2) \<le> 2 ^ 11"
    using k by (intro power_increasing) auto
  then have 1: "1 \<le> d"
    unfolding d_def by (subst less_eq_div_iff_mult_less_eq) auto
  have "d \<le> 4080 div 2 ^ 2"
    unfolding d_def by (intro div_le_mono2 power_increasing) auto
  then have 2: "d \<le> 1020" by simp
  have 3: "d * 2 ^ (k + 2) \<le> 4080"
    unfolding d_def by (rule div_times_less_eq_dividend)
  have "available k = d - 1"
    by (simp add: available_def SMALLEST_BIN_LOG_def add.commute d_def)
  then have "Suc (available k) = d" "available k < 1020"
    using 1 2 by auto
  with 3 show ?thesis by metis
qed

definition cells :: "ptr \<Rightarrow> nat \<Rightarrow> ptr list" where
  "cells b k = map (cell (b + bin_header_size) k) [0..<Suc (available k)]"

lemma cell_unat:
  assumes "unat b + 4096 < 2 ^ 32" and "k < 10" and "i \<le> available k"
  shows "unat (cell (b + bin_header_size) k i) = unat b + 16 + i * 2 ^ (k + 2)"
    and "16 + (i + 1) * 2 ^ (k + 2) \<le> (4096 :: nat)"
proof -
  have "(i + 1) * 2 ^ (k + 2) \<le> Suc (available k) * 2 ^ (k + 2)"
    using assms(3) by (intro mult_le_mono1) simp
  with available_cells [OF assms(2)] show *: "16 + (i + 1) * 2 ^ (k + 2) \<le> (4096 :: nat)"
    by linarith
  then have l: "unat b + (16 + i * 2 ^ (k + 2)) < 2 ^ 32"
    using assms(1) by simp
  have "cell (b + bin_header_size) k i = b + of_nat (16 + i * 2 ^ (k + 2))"
    by (simp add: cell_def mult_ac)
  then show "unat (cell (b + bin_header_size) k i) = unat b + 16 + i * 2 ^ (k + 2)"
    using unat_add_small [OF l] by simp
qed

lemma cells_bounds:
  assumes "unat b + 4096 < 2 ^ 32" and "k < 10" and "p \<in> set (cells b k)"
  shows "unat b + 16 \<le> unat p" and "unat p + 2 ^ (k + 2) \<le> unat b + 4096"
proof -
  obtain i where "i \<le> available k" "p = cell (b + bin_header_size) k i"
    using assms(3) by (auto simp: cells_def less_Suc_eq_le simp del: upt_Suc)
  then show "unat b + 16 \<le> unat p" and "unat p + 2 ^ (k + 2) \<le> unat b + 4096"
    using cell_unat [OF assms(1,2), of i] by (simp_all add: add_mult_distrib)
qed

lemma cells_distinct:
  assumes "unat b + 4096 < 2 ^ 32" and "k < 10"
  shows "distinct (cells b k)"
proof -
  have "inj_on (cell (b + bin_header_size) k) {0..<Suc (available k)}"
  proof (rule inj_onI)
    fix i j assume ij: "i \<in> {0..<Suc (available k)}" "j \<in> {0..<Suc (available k)}"
      and e: "cell (b + bin_header_size) k i = cell (b + bin_header_size) k j"
    have "i \<le> available k" "j \<le> available k" using ij by simp_all
    then have "unat b + 16 + i * 2 ^ (k + 2) = unat b + 16 + j * 2 ^ (k + 2)"
      using cell_unat(1) [OF assms] e by metis
    then have "i * 2 ^ (k + 2) = j * 2 ^ (k + 2)" by linarith
    then show "i = j" by simp
  qed
  then show ?thesis
    by (simp add: cells_def distinct_map del: upt_Suc)
qed

lemma cells_disjoint:
  assumes "unat b + 4096 < 2 ^ 32" and "k < 10" and "p \<in> set (cells b k)" and "q \<in> set (cells b k)" and "p \<noteq> q"
  shows "{unat p..<unat p + 2 ^ (k + 2)} \<inter> {unat q..<unat q + 2 ^ (k + 2)} = {}"
proof -
  obtain i j where ij: "i \<le> available k" "p = cell (b + bin_header_size) k i" "j \<le> available k" "q = cell (b + bin_header_size) k j"
    using assms(3,4) by (auto simp: cells_def less_Suc_eq_le simp del: upt_Suc)
  with assms(5) have "i \<noteq> j" by auto
  have *: "m * 2 ^ (k + 2) + 2 ^ (k + 2) \<le> n * 2 ^ (k + 2)" if "m < n" for m n :: nat
    using mult_le_mono1 [of "Suc m" n "2 ^ (k + 2)"] that by simp
  show ?thesis
    using \<open>i \<noteq> j\<close> *[of i j] *[of j i] cell_unat(1) [OF assms(1,2) ij(1)] cell_unat(1) [OF assms(1,2) ij(3)]
    unfolding ij(2,4) by (cases "i < j") auto
qed

text \<open>The stack of a new bin runs through all its cells.\<close>

lemma fill_stack_other: "a \<notin> (cell base k) ` {i..i + n} \<Longrightarrow> fill_stack base k i n m a = m a"
proof (induction n arbitrary: i m)
  case (Suc n)
  then show ?case by (auto simp: image_iff)
qed auto

lemma fill_stack_chain:
  assumes "inj_on (cell base k) {i..i + n}" and "\<And>j. j \<in> {i..i + n} \<Longrightarrow> cell base k j \<noteq> NULL"
  shows "chain (fill_stack base k i n m) (cell base k i) (map (cell base k) [i..<Suc (i + n)])"
  using assms
proof (induction n arbitrary: i m)
  case (Suc n)
  have 1: "inj_on (cell base k) {Suc i..Suc i + n}"
    using Suc.prems(1) by (rule inj_on_subset) auto
  have "cell base k i \<notin> cell base k ` {Suc i..Suc i + n}"
    using inj_on_image_mem_iff [OF Suc.prems(1), of i "{Suc i..Suc i + n}"] by auto
  then have "fill_stack base k i (Suc n) m (cell base k i) = cell base k (Suc i)"
    by (simp add: fill_stack_other)
  then show ?case
    using Suc.IH [OF 1] Suc.prems(2)
    by (subst upt_conv_Cons) (auto simp del: upt_Suc)
qed simp

section \<open>The stack of free cells\<close>

text \<open>The free cells of a bin, read off its links; no bin has more than 1020 cells.\<close>

fun stack :: "nat \<Rightarrow> (ptr \<Rightarrow> ptr) \<Rightarrow> ptr \<Rightarrow> ptr list" where
  "stack 0 m p = []"
| "stack (Suc n) m p = (if p = NULL then [] else p # stack n m (m p))"

abbreviation free_cells :: "(ptr \<Rightarrow> ptr) \<Rightarrow> ptr \<Rightarrow> ptr list" where
  "free_cells \<equiv> stack 1020"

lemma stack_chain: "chain m p xs \<Longrightarrow> length xs \<le> n \<Longrightarrow> stack n m p = xs"
proof (induction xs arbitrary: n p)
  case Nil
  then show ?case by (cases n) auto
next
  case (Cons x xs)
  then show ?case by (cases n) auto
qed

definition bin_ok :: "(ptr \<Rightarrow> ptr) \<Rightarrow> ptr \<Rightarrow> nat \<Rightarrow> ptr \<Rightarrow> bool" where
  "bin_ok m b k p \<longleftrightarrow> (let xs = free_cells m p in chain m p xs \<and> distinct xs \<and> set xs \<subseteq> set (cells b k))"

lemma free_cells_eq:
  assumes "chain m p xs" and "distinct xs" and "set xs \<subseteq> set (cells b k)" and "k < 10"
  shows "free_cells m p = xs"
proof (rule stack_chain [OF assms(1)])
  have "length xs = card (set xs)"
    using assms(2) by (simp add: distinct_card)
  also have "\<dots> \<le> length (cells b k)"
    using card_mono [OF _ assms(3)] card_length [of "cells b k"] by simp
  finally show "length xs \<le> 1020"
    using available_cells [OF assms(4)] by (simp add: cells_def)
qed

lemma bin_okI:
  "chain m p xs \<Longrightarrow> distinct xs \<Longrightarrow> set xs \<subseteq> set (cells b k) \<Longrightarrow> k < 10 \<Longrightarrow> bin_ok m b k p"
  using free_cells_eq [of m p xs b k] by (simp add: bin_ok_def)

lemma bin_okE:
  assumes "bin_ok m b k p"
  obtains xs where "free_cells m p = xs" "chain m p xs" "distinct xs" "set xs \<subseteq> set (cells b k)"
  using assms by (auto simp: bin_ok_def Let_def)

lemma bin_ok_cong:
  assumes "bin_ok m b k p" and "k < 10" and "\<And>a. a \<in> set (cells b k) \<Longrightarrow> m' a = m a"
  shows "bin_ok m' b k p" and "free_cells m' p = free_cells m p"
proof -
  obtain xs where xs: "free_cells m p = xs" "chain m p xs" "distinct xs" "set xs \<subseteq> set (cells b k)"
    using assms(1) by (rule bin_okE)
  moreover have "chain m' p xs \<longleftrightarrow> chain m p xs"
    using xs(4) assms(3) by (intro chain_cong) auto
  ultimately have "chain m' p xs" by simp
  then show "bin_ok m' b k p" "free_cells m' p = free_cells m p"
    using xs bin_okI free_cells_eq assms(2) by auto
qed

section \<open>The invariant\<close>

definition sizes :: "kheap \<Rightarrow> ptr \<Rightarrow> u32 option" where
  "sizes K b = map_option hd_size (kh_headers K b)"

definition head_of :: "kheap \<Rightarrow> ptr \<Rightarrow> ptr" where
  "head_of K b = (case kh_headers K b of Some h \<Rightarrow> hd_head h | None \<Rightarrow> NULL)"

definition next_of :: "kheap \<Rightarrow> ptr \<Rightarrow> ptr" where
  "next_of K b = (case kh_headers K b of Some h \<Rightarrow> hd_next h | None \<Rightarrow> NULL)"

text \<open>The bytes of a bin with its header.\<close>

definition extent :: "u32 \<Rightarrow> nat" where
  "extent s = (if s < 10 then 4096 else unat s + 48)"

definition layout_ok :: "(ptr \<Rightarrow> u32 option) \<Rightarrow> u32 \<Rightarrow> bool" where
  "layout_ok S t \<longleftrightarrow> t \<noteq> NULL \<and> unat t mod 4096 = 0
     \<and> (\<forall>b s. S b = Some s \<longrightarrow> b \<noteq> NULL \<and> unat b mod 4096 = 0 \<and> unat b + extent s \<le> unat t)
     \<and> (\<forall>b b' s s'. S b = Some s \<longrightarrow> S b' = Some s' \<longrightarrow> b < b' \<longrightarrow> unat b + extent s \<le> unat b')"

definition small_ok :: "kheap \<Rightarrow> bool" where
  "small_ok K \<longleftrightarrow> length (kh_bins K) = 10
     \<and> (\<forall>b k. k < 10 \<longrightarrow> sizes K b = Some (of_nat k) \<longrightarrow> bin_ok (kh_links K) b k (head_of K b))
     \<and> (\<forall>k<10. \<exists>bs. chain (next_of K) (kh_bins K ! k) bs \<and> distinct bs
          \<and> set bs = {b. sizes K b = Some (of_nat k) \<and> head_of K b \<noteq> NULL})"

definition big_bin :: "kheap \<Rightarrow> ptr \<Rightarrow> bool" where
  "big_bin K b \<longleftrightarrow> (\<exists>s. sizes K b = Some s \<and> \<not> s < 10)"

definition big_ok :: "kheap \<Rightarrow> bool" where
  "big_ok K \<longleftrightarrow> (\<exists>ns ht. skip_list K ns ht \<and> set ns = {b. big_bin K b \<and> head_of K b \<noteq> NULL})
     \<and> (\<forall>b. big_bin K b \<longrightarrow> big_node K b \<and> (head_of K b = NULL \<or> (head_of K b = b + 48 \<and> kh_links K (b + 48) = NULL)))
     \<and> (kh_newest K = NULL \<or> big_bin K (kh_newest K))"

text \<open>\<^verbatim>\<open>free\<close> ignores the addresses below \<^verbatim>\<open>frame_ptr\<close>: the heap is above them.\<close>

definition above :: "ptr \<Rightarrow> (ptr \<Rightarrow> u32 option) \<Rightarrow> u32 \<Rightarrow> bool" where
  "above f S t \<longleftrightarrow> f \<le> t \<and> (\<forall>b s. S b = Some s \<longrightarrow> f \<le> b)"

definition heap_ok :: "kheap \<Rightarrow> bool" where
  "heap_ok K \<longleftrightarrow> layout_ok (sizes K) (heap_tail K) \<and> above (frame_ptr K) (sizes K) (heap_tail K) \<and> small_ok K \<and> big_ok K"

text \<open>The allocated blocks with the number of bytes that can be used in each.\<close>

definition small_live :: "kheap \<Rightarrow> (ptr \<times> nat) set" where
  "small_live K = {(p, 2 ^ (k + 2)) | p b k. k < 10 \<and> sizes K b = Some (of_nat k)
     \<and> p \<in> set (cells b k) \<and> p \<notin> set (free_cells (kh_links K) (head_of K b))}"

definition big_live :: "kheap \<Rightarrow> (ptr \<times> nat) set" where
  "big_live K = {(b + 48, unat s) | b s. sizes K b = Some s \<and> \<not> s < 10 \<and> head_of K b = NULL}"

definition live_blocks :: "kheap \<Rightarrow> (ptr \<times> nat) set" where
  "live_blocks K = small_live K \<union> big_live K"

lemma layout_okD:
  assumes "layout_ok S t" and "S b = Some s"
  shows "b \<noteq> NULL" "unat b mod 4096 = 0" "unat b + extent s \<le> unat t" "unat b + extent s < 2 ^ 32"
proof -
  show *: "b \<noteq> NULL" "unat b mod 4096 = 0" "unat b + extent s \<le> unat t"
    using assms by (auto simp: layout_ok_def)
  show "unat b + extent s < 2 ^ 32"
    using *(3) unat_bound [of t] by simp
qed

lemma of_nat_bucket: "k < 10 \<Longrightarrow> unat (of_nat k :: u32) = k" "k < 10 \<Longrightarrow> (of_nat k :: u32) < 10"
  by (auto simp: unat_of_nat_small word_less_nat_alt)

lemma extent_bucket: "k < 10 \<Longrightarrow> extent (of_nat k) = 4096"
  using of_nat_bucket(2) [of k] by (simp add: extent_def)

lemma bucket_inj: "j < 10 \<Longrightarrow> k < 10 \<Longrightarrow> (of_nat j :: u32) = of_nat k \<longleftrightarrow> j = k"
  using of_nat_bucket by metis

lemma bucket_ex: "(s :: u32) < 10 \<Longrightarrow> \<exists>k<10. s = of_nat k"
  by (intro exI [of _ "unat s"]) (simp add: word_less_nat_alt)

lemma cells_in_page:
  assumes "layout_ok S t" and "S b = Some (of_nat k)" and "k < 10" and "p \<in> set (cells b k)"
  shows "unat b + 16 \<le> unat p" "unat p + 2 ^ (k + 2) \<le> unat b + 4096" "unat b + 4096 < 2 ^ 32"
proof -
  show *: "unat b + 4096 < 2 ^ 32"
    using layout_okD(4) [OF assms(1,2)] of_nat_bucket [OF assms(3)] by (simp add: extent_def)
  show "unat b + 16 \<le> unat p" "unat p + 2 ^ (k + 2) \<le> unat b + 4096"
    using cells_bounds [OF * assms(3,4)] by auto
qed

text \<open>The regions of two bins do not overlap.\<close>

lemma regions_disjoint:
  assumes "layout_ok S t" and "S b = Some s" and "S b' = Some s'" and "b \<noteq> b'"
    and "unat b \<le> x" and "x < unat b + extent s"
  shows "\<not> (unat b' \<le> x \<and> x < unat b' + extent s')"
proof (cases "b < b'")
  case True
  then have "unat b + extent s \<le> unat b'"
    using assms by (auto simp: layout_ok_def)
  with assms(6) show ?thesis by linarith
next
  case False
  then have "b' < b" using assms(4) by simp
  then have "unat b' + extent s' \<le> unat b"
    using assms by (auto simp: layout_ok_def)
  with assms(5) show ?thesis by linarith
qed

lemma cells_other_bin:
  assumes "layout_ok S t" and "S b = Some (of_nat k)" and "k < 10" and "S b' = Some s'" and "b \<noteq> b'"
    and "p \<in> set (cells b k)"
  shows "\<not> (unat b' \<le> unat p \<and> unat p < unat b' + extent s')"
proof (rule regions_disjoint [OF assms(1,2,4,5)])
  have "(0 :: nat) < 2 ^ (k + 2)" by simp
  then show "unat b \<le> unat p" "unat p < unat b + extent (of_nat k)"
    using cells_in_page [OF assms(1-3,6)] extent_bucket [OF assms(3)] by linarith+
qed

end
