(* ===== verification/Heap_Small.thy ===== *)
theory Heap_Small
  imports Heap_Cells
begin

text \<open>Allocation from and release to the small bins.\<close>

section \<open>A change of one small bin\<close>

lemma fwd_eqI:
  assumes "kh_forward K' = kh_forward K"
    and "\<And>b. map_option hd_forward (kh_headers K' b) = map_option hd_forward (kh_headers K b)"
  shows "fwd K' = fwd K"
proof (rule ext, rule ext)
  fix i n
  show "fwd K' i n = fwd K i n"
    using assms(1) assms(2) [of n] by (cases "kh_headers K n"; cases "kh_headers K' n") (auto simp: fwd_def)
qed

lemma ring_cong: "(\<And>n. n = NULL \<or> n \<in> set xs \<Longrightarrow> f n = g n) \<Longrightarrow> link_ring f xs \<longleftrightarrow> link_ring g xs"
proof -
  assume a: "\<And>n. n = NULL \<or> n \<in> set xs \<Longrightarrow> f n = g n"
  have "link_path f NULL xs \<longleftrightarrow> link_path g NULL xs"
    by (rule path_cong) (use a in \<open>auto dest: in_set_butlastD split: if_splits\<close>)
  moreover have "f (last (NULL # xs)) = g (last (NULL # xs))"
    by (rule a) (cases xs rule: rev_cases; auto)
  ultimately show ?thesis by (simp add: link_ring_def)
qed

lemma skip_list_cong:
  assumes "skip_list K ns ht" and f: "\<And>i n. n = NULL \<or> n \<in> set ns \<Longrightarrow> fwd K' i n = fwd K i n"
    and "kh_level K' = kh_level K" and "length (kh_forward K') = length (kh_forward K)"
    and "\<And>n. n \<in> set ns \<Longrightarrow> size_of K' n = size_of K n \<and> (big_node K n \<longrightarrow> big_node K' n)"
  shows "skip_list K' ns ht"
proof -
  have "map (size_of K') ns = map (size_of K) ns"
    using assms(5) by simp
  moreover have "link_ring (fwd K' i) (filter (\<lambda>n. i \<le> ht n) ns) \<longleftrightarrow> link_ring (fwd K i) (filter (\<lambda>n. i \<le> ht n) ns)" for i
    by (rule ring_cong) (use f in auto)
  ultimately show ?thesis
    using assms unfolding skip_list_def by metis
qed

text \<open>The live_blocks cells of one bin, and those of the others.\<close>

definition small_rest :: "kheap \<Rightarrow> ptr \<Rightarrow> (ptr \<times> nat) set" where
  "small_rest K b = {(p, 2 ^ (k + 2)) | p c k. k < 10 \<and> c \<noteq> b \<and> sizes K c = Some (of_nat k)
     \<and> p \<in> set (cells c k) \<and> p \<notin> set (free_cells (kh_links K) (head_of K c))}"

lemma small_live_split:
  assumes "sizes K b = Some (of_nat k)" and "k < 10"
  shows "small_live K = (\<lambda>p. (p, 2 ^ (k + 2))) ` (set (cells b k) - set (free_cells (kh_links K) (head_of K b))) \<union> small_rest K b"
    (is "_ = ?A \<union> _")
proof (rule set_eqI, rule iffI)
  fix x assume "x \<in> small_live K"
  then obtain p c j where x: "x = (p, 2 ^ (j + 2))" "j < 10" "sizes K c = Some (of_nat j)" "p \<in> set (cells c j)"
    "p \<notin> set (free_cells (kh_links K) (head_of K c))"
    unfolding small_live_def by blast
  show "x \<in> ?A \<union> small_rest K b"
  proof (cases "c = b")
    case True
    then have "j = k"
      using x(3) assms bucket_inj [OF x(2) assms(2)] by simp
    with x True show ?thesis by blast
  next
    case False
    with x show ?thesis unfolding small_rest_def by blast
  qed
next
  fix x assume "x \<in> ?A \<union> small_rest K b"
  with assms show "x \<in> small_live K"
    unfolding small_live_def small_rest_def by blast
qed

definition small_bin :: "kheap \<Rightarrow> ptr \<Rightarrow> header \<Rightarrow> nat \<Rightarrow> bool" where
  "small_bin K b h k \<longleftrightarrow> heap_ok K \<and> k < 10 \<and> kh_headers K b = Some h \<and> hd_size h = of_nat k"

lemma small_binD:
  assumes "small_bin K b h k"
  shows "layout_ok (sizes K) (heap_tail K)" "sizes K b = Some (of_nat k)" "\<not> big_bin K b" "k < 10"
  using assms of_nat_bucket(2) [of k] by (auto simp: small_bin_def heap_ok_def sizes_def big_bin_def)

lemma other_cells:
  assumes "small_bin K b h k" and "sizes K c = Some (of_nat j)" and "j < 10" and "c \<noteq> b" and "a \<in> set (cells c j)"
  shows "a \<notin> set (cells b k)"
proof
  note d = small_binD [OF assms(1)]
  assume "a \<in> set (cells b k)"
  then have "\<not> (unat c \<le> unat a \<and> unat a < unat c + extent (of_nat j))"
    using cells_other_bin [OF d(1,2,4) assms(2)] assms(4) by blast
  moreover have "(0 :: nat) < 2 ^ (j + 2)" by simp
  ultimately show False
    using cells_in_page [OF d(1) assms(2,3,5)] extent_bucket [OF assms(3)] by linarith
qed

lemma big_cell:
  assumes "small_bin K b h k" and "big_bin K c"
  shows "c + 48 \<notin> set (cells b k)"
proof
  note d = small_binD [OF assms(1)]
  assume a: "c + 48 \<in> set (cells b k)"
  obtain s where s: "sizes K c = Some s" "\<not> s < 10"
    using assms(2) by (auto simp: big_bin_def)
  have "big_node K c"
    using assms by (simp add: small_bin_def heap_ok_def big_ok_def)
  then have "11 < s"
    using s by (auto simp: big_node_def NUM_BINS_def sizes_def)
  then have "11 < unat s" by (simp add: word_less_nat_alt)
  moreover have "unat (c + 48) = unat c + 48"
    using unat_add_small [of c 48] layout_okD(4) [OF d(1) s(1)] s(2) by (simp add: extent_def)
  moreover have "c \<noteq> b" using assms(2) d(3) by auto
  ultimately show False
    using cells_other_bin [OF d(1,2,4) s(1) _ a] s(2) by (auto simp: extent_def)
qed

lemma bin_at:
  "heap_ok K \<Longrightarrow> sizes K c = Some (of_nat j) \<Longrightarrow> j < 10 \<Longrightarrow> bin_ok (kh_links K) c j (head_of K c)"
  by (simp add: heap_ok_def small_ok_def)

lemma rest_cells:
  "small_bin K b h k \<Longrightarrow> (\<lambda>p. (p, 2 ^ (k + 2))) ` set (cells b k) \<inter> (small_rest K b \<union> big_live K) = {}"
  using other_cells big_cell unfolding small_rest_def big_live_def big_bin_def by fastforce

text \<open>
  What every operation on a small bin comes to: its header and its links change, and the list of its bucket.
\<close>

lemma small_change:
  assumes sbin: "small_bin K b h k"
    and h': "hd_size h' = hd_size h" "hd_forward h' = hd_forward h"
    and m: "\<And>a. a \<notin> set (cells b k) \<Longrightarrow> m a = kh_links K a"
    and xs: "chain m (hd_head h') xs" "distinct xs" "set xs \<subseteq> set (cells b k)"
    and K': "K' = K\<lparr>kh_headers := (kh_headers K)(b := Some h'), kh_links := m, kh_bins := (kh_bins K)[k := q]\<rparr>"
    and bs: "chain (next_of K') q bs" "distinct bs"
      "set bs = {c. sizes K c = Some (of_nat k) \<and> head_of K c \<noteq> NULL} - {b} \<union> (if xs = [] then {} else {b})"
  shows "heap_ok K'"
    and "live_blocks K' = live_blocks K - (\<lambda>p. (p, 2 ^ (k + 2))) ` set (cells b k) \<union> (\<lambda>p. (p, 2 ^ (k + 2))) ` (set (cells b k) - set xs)"
proof -
  note lay = small_binD(1) [OF sbin] and sb = small_binD(2) [OF sbin] and nb = small_binD(3) [OF sbin]
    and k = small_binD(4) [OF sbin]
  have ok: "heap_ok K" and b: "kh_headers K b = Some h" "hd_size h = of_nat k"
    using sbin by (auto simp: small_bin_def)
  have sm: "small_ok K" and bg: "big_ok K"
    using ok by (auto simp: heap_ok_def)
  have s: "sizes K' = sizes K"
    using b h'(1) by (auto simp: K' sizes_def fun_eq_iff)
  have hd: "head_of K' = (head_of K)(b := hd_head h')" and nx: "next_of K' = (next_of K)(b := hd_next h')"
    by (auto simp: K' head_of_def next_of_def fun_eq_iff)
  have head: "hd_head h' = NULL \<longleftrightarrow> xs = []"
    using xs(1) by (cases xs) auto
  have same: "bin_ok m c j (head_of K c)" "free_cells m (head_of K c) = free_cells (kh_links K) (head_of K c)"
    if "sizes K c = Some (of_nat j)" "j < 10" "c \<noteq> b" for c j
    using bin_ok_cong [OF bin_at [OF ok that(1,2)] that(2), of m] m other_cells [OF sbin that] by auto
  have "bin_ok m c j (head_of K' c)" if "sizes K c = Some (of_nat j)" "j < 10" for c j
  proof (cases "c = b")
    case True
    then have "j = k"
      using that sb bucket_inj [OF that(2) k] by simp
    then show ?thesis
      using True bin_okI [OF xs k] hd by simp
  qed (use same that hd in simp)
  moreover have "\<exists>bs. chain (next_of K') (kh_bins K' ! j) bs \<and> distinct bs
      \<and> set bs = {c. sizes K c = Some (of_nat j) \<and> head_of K' c \<noteq> NULL}" if j: "j < 10" for j
  proof (cases "j = k")
    case True
    have "set bs = {c. sizes K c = Some (of_nat k) \<and> head_of K' c \<noteq> NULL}"
      using bs(3) sb head hd by auto
    then show ?thesis
      using True bs(1,2) k sm by (intro exI [of _ bs]) (simp add: K' small_ok_def)
  next
    case False
    obtain cs where cs: "chain (next_of K) (kh_bins K ! j) cs" "distinct cs"
      "set cs = {c. sizes K c = Some (of_nat j) \<and> head_of K c \<noteq> NULL}"
      using sm j by (auto simp: small_ok_def)
    have "sizes K b \<noteq> Some (of_nat j)"
      using sb bucket_inj [OF j k] False by auto
    moreover from this have "b \<notin> set cs"
      using cs(3) by auto
    moreover have "kh_bins K' ! j = kh_bins K ! j"
      using False by (simp add: K')
    ultimately show ?thesis
      using cs nx hd by (intro exI [of _ cs]) auto
  qed
  ultimately have sm': "small_ok K'"
    using sm s by (simp add: small_ok_def K')
  have fw: "fwd K' = fwd K"
    by (rule fwd_eqI) (use b h' in \<open>auto simp: K'\<close>)
  have sz: "size_of K' = size_of K"
    using b h' by (auto simp: K' size_of_def fun_eq_iff)
  have bn: "big_node K c \<Longrightarrow> big_node K' c" for c
  proof -
    have "page_sized h' = page_sized h"
      using h' by (simp add: page_sized_def)
    then show "big_node K c \<Longrightarrow> big_node K' c"
      using b h' by (auto simp: K' big_node_def)
  qed
  have bigs: "big_bin K' = big_bin K"
    by (simp add: big_bin_def s fun_eq_iff)
  have "big_ok K'"
  proof -
    obtain ns ht where n: "skip_list K ns ht" "set ns = {b. big_bin K b \<and> head_of K b \<noteq> NULL}"
      using bg by (auto simp: big_ok_def)
    have "skip_list K' ns ht"
      by (rule skip_list_cong [OF n(1)]) (use fw sz bn in \<open>auto simp: K'\<close>)
    moreover have "set ns = {b. big_bin K' b \<and> head_of K' b \<noteq> NULL}"
      using n(2) nb hd bigs by auto
    moreover have "big_node K' c \<and> (head_of K' c = NULL \<or> (head_of K' c = c + 48 \<and> kh_links K' (c + 48) = NULL))"
      if "big_bin K' c" for c
      using that bg bn [of c] m [OF big_cell [OF sbin, of c]] nb hd unfolding bigs by (auto simp: big_ok_def K')
    ultimately show ?thesis
      using bg bigs by (auto simp: big_ok_def K')
  qed
  then show "heap_ok K'"
    using lay sm' s ok by (simp add: heap_ok_def K')
  have f: "free_cells m (hd_head h') = xs"
    by (rule free_cells_eq [OF xs k])
  have "c \<noteq> b" if "sizes K c = Some s" "\<not> s < 10" for c s
    using that nb by (auto simp: big_bin_def)
  then have bl: "big_live K' = big_live K"
    unfolding big_live_def s hd by fastforce
  have rest: "small_rest K' b = small_rest K b"
    using same unfolding small_rest_def s hd by (fastforce simp: K')
  show "live_blocks K' = live_blocks K - (\<lambda>p. (p, 2 ^ (k + 2))) ` set (cells b k) \<union> (\<lambda>p. (p, 2 ^ (k + 2))) ` (set (cells b k) - set xs)"
    using small_live_split [OF sb k] small_live_split [of K' b k] rest_cells [OF sbin] bl rest f k sb s hd
    by (auto simp: live_blocks_def K')
qed

section \<open>Allocation from a bin with a free cell\<close>

lemma small_bin_cells:
  assumes "small_bin K b h k"
  obtains xs where "free_cells (kh_links K) (hd_head h) = xs" "chain (kh_links K) (hd_head h) xs" "distinct xs"
    "set xs \<subseteq> set (cells b k)" "live_blocks K = (\<lambda>p. (p, 2 ^ (k + 2))) ` (set (cells b k) - set xs) \<union> (small_rest K b \<union> big_live K)"
proof -
  note d = small_binD [OF assms]
  have h: "head_of K b = hd_head h" and ok: "heap_ok K"
    using assms by (auto simp: small_bin_def head_of_def)
  show ?thesis
    using bin_at [OF ok d(2,4)] small_live_split [OF d(2,4)] unfolding h
    by (elim bin_okE) (rule that, auto simp: live_blocks_def)
qed

text \<open>The assertions on the address of a cell.\<close>

lemma cell_asserts:
  assumes "small_bin K b h k" and "p \<in> set (cells b k)"
  shows "p \<noteq> NULL" "p > b" "p < b + PAGE_SIZE" "p > b + bin_header_size - 1" "\<not> hd_size h > NUM_BINS" "b \<noteq> NULL"
    "page_of p = b" "p mod PAGE_SIZE \<noteq> 0"
proof -
  note d = small_binD [OF assms(1)]
  note c = cells_in_page [OF d(1,2,4) assms(2)] and l = layout_okD [OF d(1,2)]
  have z: "(0 :: nat) < 2 ^ (k + 2)" by simp
  have c': "unat b + 16 \<le> unat p" "unat p < unat b + 4096"
    using c z by linarith+
  have b: "unat (b + PAGE_SIZE) = unat b + 4096" "unat (15 + b) = unat b + 15"
    using unat_add_small [of b 4096] unat_add_small [of b 15] c(3) by (auto simp: add.commute)
  have "b + bin_header_size - 1 = b + 15" by simp
  then show "p > b" "p < b + PAGE_SIZE" "p > b + bin_header_size - 1"
    using b c' unfolding word_less_nat_alt by simp_all
  then show "p \<noteq> NULL" by auto
  show "b \<noteq> NULL" by (rule l(1))
  show "\<not> hd_size h > NUM_BINS"
    using assms(1) of_nat_bucket [of k] d(4) by (auto simp: small_bin_def NUM_BINS_def word_less_nat_alt)
  show "page_of p = b"
    using c' by (intro page_of_in l(2)) auto
  obtain q where q: "unat b = 4096 * q"
    using l(2) by (auto elim: dvdE)
  obtain r where r: "unat p = 4096 * q + 16 + r"
    using c'(1) q le_Suc_ex by metis
  with c' q have "r + 16 < 4096" by linarith
  then have "(16 + r) mod 4096 \<noteq> 0" by simp
  moreover have "unat p mod 4096 = (16 + r) mod 4096"
    using r by (metis add.assoc mod_mult_self4)
  ultimately have "unat p mod 4096 \<noteq> 0" by simp
  then show "p mod PAGE_SIZE \<noteq> 0"
    using aligned_iff [of p] by (simp add: aligned_def)
qed

lemma small_pop:
  assumes "small_bin K b h k" and "free_cells (kh_links K) (hd_head h) = p # xs"
  shows "klmalloc_stack_pop b K = Some (p, K\<lparr>kh_headers := (kh_headers K)(b := Some (h\<lparr>hd_head := kh_links K p\<rparr>))\<rparr>)"
    and "p = hd_head h"
proof -
  obtain ys where ys: "free_cells (kh_links K) (hd_head h) = ys" "chain (kh_links K) (hd_head h) ys" "set ys \<subseteq> set (cells b k)"
    using small_bin_cells [OF assms(1)] by metis
  with assms(2) show p: "p = hd_head h" by auto
  have "p \<in> set (cells b k)" using ys assms(2) by auto
  note a = cell_asserts [OF assms(1) this]
  then show "klmalloc_stack_pop b K = Some (p, K\<lparr>kh_headers := (kh_headers K)(b := Some (h\<lparr>hd_head := kh_links K p\<rparr>))\<rparr>)"
    using assms(1) p
    by (simp add: klmalloc_stack_pop_def rd_header_def wr_header_def small_bin_def assert_def Let_def)
qed

text \<open>A cell is taken: the first of the first bin of the bucket.\<close>

lemma small_take:
  assumes ok: "heap_ok K" and k: "k < 10" and b: "kh_bins K ! k = b" "b \<noteq> NULL"
  shows "\<exists>p K'. do { (p, K) \<leftarrow> klmalloc_stack_pop b K; empty \<leftarrow> klmalloc_stack_empty b K;
       K \<leftarrow> (if empty then klmalloc_list_decouple k b K else Some K); Some (p, K) } = Some (p, K')
     \<and> heap_ok K' \<and> (p, 2 ^ (k + 2)) \<notin> live_blocks K \<and> live_blocks K' = insert (p, 2 ^ (k + 2)) (live_blocks K)
     \<and> heap_tail K' = heap_tail K"
proof -
  obtain bs where bs: "chain (next_of K) b bs" "distinct bs" "set bs = {c. sizes K c = Some (of_nat k) \<and> head_of K c \<noteq> NULL}"
    using ok k b(1) by (auto simp: heap_ok_def small_ok_def)
  obtain bs' where bs': "bs = b # bs'" "chain (next_of K) (next_of K b) bs'"
    using bs(1) b(2) chain_at by metis
  then have "sizes K b = Some (of_nat k)" "head_of K b \<noteq> NULL"
    using bs(3) by auto
  then obtain h where h: "kh_headers K b = Some h" "hd_size h = of_nat k" "hd_head h \<noteq> NULL"
    by (auto simp: sizes_def head_of_def)
  then have sb: "small_bin K b h k"
    using ok k by (simp add: small_bin_def)
  obtain ys where ys: "free_cells (kh_links K) (hd_head h) = ys" "chain (kh_links K) (hd_head h) ys" "distinct ys"
    "set ys \<subseteq> set (cells b k)" "live_blocks K = (\<lambda>p. (p, 2 ^ (k + 2))) ` (set (cells b k) - set ys) \<union> (small_rest K b \<union> big_live K)"
    by (rule small_bin_cells [OF sb])
  obtain p xs where p: "ys = p # xs" "chain (kh_links K) (kh_links K p) xs"
    using ys(2) h(3) chain_at by metis
  note pop = small_pop [OF sb ys(1) [unfolded p(1)]]
  note disj = rest_cells [OF sb]
  have e: "kh_links K p = NULL \<longleftrightarrow> xs = []"
    using p(2) by (cases xs) auto
  define h' where "h' = (if xs = [] then h\<lparr>hd_head := NULL, hd_next := NULL\<rparr> else h\<lparr>hd_head := kh_links K p\<rparr>)"
  define q where "q = (if xs = [] then hd_next h else b)"
  define K' where "K' = K\<lparr>kh_headers := (kh_headers K)(b := Some h'), kh_links := kh_links K, kh_bins := (kh_bins K)[k := q]\<rparr>"
  have nx: "next_of K' = (next_of K)(b := hd_next h')" "next_of K b = hd_next h"
    using h(1) by (auto simp: K'_def next_of_def fun_eq_iff)
  have run: "do { (p, K) \<leftarrow> klmalloc_stack_pop b K; empty \<leftarrow> klmalloc_stack_empty b K;
       K \<leftarrow> (if empty then klmalloc_list_decouple k b K else Some K); Some (p, K) } = Some (p, K')"
    using pop b e
    by (auto simp: klmalloc_stack_empty_def klmalloc_list_decouple_def rd_header_def wr_header_def K'_def h'_def q_def)
  have c: "chain (next_of K') q (if xs = [] then bs' else bs)" "distinct (if xs = [] then bs' else bs)"
    "set (if xs = [] then bs' else bs) = {c. sizes K c = Some (of_nat k) \<and> head_of K c \<noteq> NULL} - {b} \<union> (if xs = [] then {} else {b})"
    using bs bs' nx b(2) unfolding bs(3) [symmetric] by (auto simp: q_def h'_def)
  have ch: "chain (kh_links K) (hd_head h') xs" "distinct xs" "set xs \<subseteq> set (cells b k)"
    using p ys e by (auto simp: h'_def)
  have "hd_size h' = hd_size h" "hd_forward h' = hd_forward h"
    by (auto simp: h'_def)
  note sc = small_change [OF sb this _ ch K'_def c]
  have "live_blocks K' = insert (p, 2 ^ (k + 2)) (live_blocks K)" "(p, 2 ^ (k + 2)) \<notin> live_blocks K"
    using sc(2) ys(3,4) disj unfolding ys(5) p(1) by auto
  then show ?thesis
    using run sc(1) by (auto simp: K'_def)
qed

section \<open>A new bin\<close>

lemma grow_bin_eq:
  assumes ok: "heap_ok K" and "k < 10" and b: "kh_bins K ! k = NULL" and t: "heap_tail K = t" "unat t + 4096 < 2 ^ 32"
  shows "\<exists>m. (\<forall>a. unat a < unat t \<longrightarrow> m a = kh_links K a) \<and>
    grow_bin k K = Some (t, K\<lparr>heap_tail := t + PAGE_SIZE, kh_headers := (kh_headers K)(t := Some \<lparr>hd_next = NULL, hd_head = t + bin_header_size,
      hd_size = of_nat k, hd_prev = NULL, hd_forward = []\<rparr>), kh_bins := (kh_bins K)[k := t], kh_links := fill_stack (t + bin_header_size) k 0 (available k) m\<rparr>)"
proof -
  have l: "t \<noteq> NULL" "unat t mod 4096 = 0"
    using ok t by (auto simp: heap_ok_def layout_ok_def)
  then have "t mod PAGE_SIZE = 0"
    using aligned_iff [of t] by (simp add: aligned_def)
  moreover have "\<not> unat (a - t) < 4096" if "unat a < unat t" "unat t + 4096 < 2 ^ 32" for a :: ptr
    using that unat_bound [of a] by (simp add: unat_sub_if_size word_less_nat_alt word_size)
  ultimately show ?thesis
    using l b t
    by (intro exI [of _ "\<lambda>a. if unat (a - t) < 4096 then NULL else kh_links K a"])
      (auto simp: grow_bin_def sbrk_def klmalloc_list_insert_def rd_header_def wr_header_def assert_def Let_def)
qed

lemma layout_grow:
  assumes "layout_ok S t" and "extent s \<le> n" and "n mod 4096 = 0" and "unat t + n < 2 ^ 32" and "0 < n"
  shows "layout_ok (S(t := Some s)) (t + of_nat n)"
proof -
  have u: "unat (t + of_nat n) = unat t + n"
    using unat_add_small [OF assms(4)] .
  then have "t + of_nat n \<noteq> NULL"
    using assms(5) by auto
  moreover have "unat b + extent s' \<le> unat t" if "S b = Some s'" for b s'
    using assms(1) that by (auto simp: layout_ok_def)
  ultimately show ?thesis
    using assms u by (fastforce simp: layout_ok_def word_less_nat_alt)
qed

lemma above_grow:
  assumes "above f S t" and "unat t + n < 2 ^ 32"
  shows "above f (S(t := Some s)) (t + of_nat n)"
proof -
  have "t \<le> t + of_nat n"
    using unat_add_small [OF assms(2)] by (simp add: word_le_nat_alt)
  then show ?thesis
    using assms(1) by (auto simp: above_def)
qed

lemma grow:
  assumes ok: "heap_ok K" and k: "k < 10" and b: "kh_bins K ! k = NULL" and t: "unat (heap_tail K) + 4096 < 2 ^ 32"
  shows "\<exists>K'. grow_bin k K = Some (heap_tail K, K') \<and> heap_ok K' \<and> kh_bins K' ! k = heap_tail K \<and> heap_tail K \<noteq> NULL
    \<and> live_blocks K' = live_blocks K \<and> heap_tail K' = heap_tail K + PAGE_SIZE"
proof -
  define t where "t = heap_tail K"
  have ut: "unat t + 4096 < 2 ^ 32" and tt: "heap_tail K = t"
    using t by (auto simp: t_def)
  have lay: "layout_ok (sizes K) t" and sm: "small_ok K" and bg: "big_ok K"
    using ok by (auto simp: heap_ok_def t_def)
  obtain m where m: "\<And>a. unat a < unat t \<Longrightarrow> m a = kh_links K a" and run: "grow_bin k K = Some (t,
      K\<lparr>heap_tail := t + PAGE_SIZE, kh_headers := (kh_headers K)(t := Some \<lparr>hd_next = NULL, hd_head = t + bin_header_size,
      hd_size = of_nat k, hd_prev = NULL, hd_forward = []\<rparr>), kh_bins := (kh_bins K)[k := t], kh_links := fill_stack (t + bin_header_size) k 0 (available k) m\<rparr>)"
    using grow_bin_eq [OF ok k b tt ut] by blast
  define m' where "m' = fill_stack (t + bin_header_size) k 0 (available k) m"
  define h where "h = \<lparr>hd_next = NULL, hd_head = t + bin_header_size, hd_size = of_nat k, hd_prev = NULL, hd_forward = []\<rparr>"
  define K' where "K' = K\<lparr>heap_tail := t + PAGE_SIZE, kh_headers := (kh_headers K)(t := Some h), kh_bins := (kh_bins K)[k := t], kh_links := m'\<rparr>"
  have below: "c \<noteq> t" "unat c + extent s \<le> unat t" if "sizes K c = Some s" for c s
    using layout_okD [OF lay that] by (auto simp: extent_def split: if_splits)
  have s: "sizes K' = (sizes K)(t := Some (of_nat k))" and hd: "head_of K' = (head_of K)(t := t + bin_header_size)"
    and nx: "next_of K' = (next_of K)(t := NULL)"
    by (auto simp: K'_def sizes_def head_of_def next_of_def h_def fun_eq_iff)
  have t0: "t + bin_header_size \<noteq> NULL" "cell (t + bin_header_size) k i \<noteq> NULL" if "i \<le> available k" for i
    using cell_unat(1) [OF ut k that] cell_unat(1) [OF ut k, of 0] by (auto simp: cell_def)
  have inj: "inj_on (cell (t + bin_header_size) k) {0..0 + available k}"
    using cells_distinct [OF ut k] by (simp add: cells_def distinct_map atLeastLessThanSuc_atLeastAtMost del: upt_Suc)
  have "cell (t + bin_header_size) k 0 = t + bin_header_size"
    by (simp add: cell_def)
  then have ch: "chain m' (t + bin_header_size) (cells t k)"
    using fill_stack_chain [OF inj] t0(2) by (simp add: cells_def m'_def del: upt_Suc)
  have links: "m' a = kh_links K a" if "unat a < unat t" for a
    using m [OF that] cell_unat(1) [OF ut k] that unfolding m'_def
    by (subst fill_stack_other) (auto simp: image_iff)
  have cell: "unat a < unat t" if "sizes K c = Some (of_nat j)" "j < 10" "a \<in> set (cells c j)" for a c j
  proof -
    have "(0 :: nat) < 2 ^ (j + 2)" by simp
    then show ?thesis
      using cells_in_page [OF lay that] below(2) [OF that(1)] extent_bucket [OF that(2)] by linarith
  qed
  have old: "bin_ok m' c j (head_of K c)" "free_cells m' (head_of K c) = free_cells (kh_links K) (head_of K c)"
    if "sizes K c = Some (of_nat j)" "j < 10" for c j
    using bin_ok_cong [OF bin_at [OF ok that] that(2), of m'] links cell [OF that] by auto
  have new: "bin_ok m' t k (t + bin_header_size)" "free_cells m' (t + bin_header_size) = cells t k"
    using bin_okI [OF ch cells_distinct [OF ut k] _ k] free_cells_eq [OF ch cells_distinct [OF ut k] _ k] by auto
  have "bin_ok m' c j (head_of K' c)" if "sizes K' c = Some (of_nat j)" "j < 10" for c j
    using that old new below bucket_inj [OF k that(2)] by (cases "c = t") (auto simp: s hd)
  moreover have "\<exists>bs. chain (next_of K') (kh_bins K' ! j) bs \<and> distinct bs
      \<and> set bs = {c. sizes K' c = Some (of_nat j) \<and> head_of K' c \<noteq> NULL}" if j: "j < 10" for j
  proof -
    obtain cs where cs: "chain (next_of K) (kh_bins K ! j) cs" "distinct cs"
      "set cs = {c. sizes K c = Some (of_nat j) \<and> head_of K c \<noteq> NULL}"
      using sm j by (auto simp: small_ok_def)
    have "t \<notin> set cs"
      using cs(3) below by auto
    show ?thesis
    proof (cases "j = k")
      case True
      then have "cs = []" using cs(1) b by simp
      then have "set [t] = {c. sizes K' c = Some (of_nat j) \<and> head_of K' c \<noteq> NULL}"
        using True cs(3) t0(1) [of 0] by (auto simp: s hd)
      moreover have "chain (next_of K') (kh_bins K' ! j) [t]"
        using True sm k nx lay by (simp add: K'_def small_ok_def layout_ok_def)
      ultimately show ?thesis
        by (intro exI [of _ "[t]"]) simp
    next
      case False
      have "sizes K' c = Some (of_nat j) \<and> head_of K' c \<noteq> NULL \<longleftrightarrow> sizes K c = Some (of_nat j) \<and> head_of K c \<noteq> NULL" for c
        using below(1) [of c] bucket_inj [OF k j] False by (cases "c = t") (auto simp: s hd)
      moreover have "chain (next_of K') (kh_bins K' ! j) cs"
        using cs(1) \<open>t \<notin> set cs\<close> False nx by (simp add: K'_def)
      ultimately show ?thesis
        using cs(2,3) by (intro exI [of _ cs]) simp
    qed
  qed
  ultimately have sm': "small_ok K'"
    using sm by (simp add: small_ok_def K'_def)
  have bigs: "big_bin K' c \<longleftrightarrow> big_bin K c" and big_t: "big_bin K c \<Longrightarrow> c \<noteq> t" for c
    using of_nat_bucket(2) [OF k] below by (auto simp: big_bin_def s)
  have big_links: "m' (c + 48) = kh_links K (c + 48)" if bc: "big_bin K c" for c
  proof (rule links)
    obtain s' where s': "sizes K c = Some s'" "\<not> s' < 10"
      using bc by (auto simp: big_bin_def)
    have "0 < unat s'" using s'(2) by (auto simp: word_less_nat_alt)
    moreover have "unat (c + 48) = unat c + 48"
      using unat_add_small [of c 48] layout_okD(4) [OF lay s'(1)] s'(2) by (simp add: extent_def)
    ultimately show "unat (c + 48) < unat t"
      using below(2) [OF s'(1)] s'(2) by (simp add: extent_def)
  qed
  have big_ok: "big_ok K'"
  proof -
    obtain ns ht where n: "skip_list K ns ht" "set ns = {b. big_bin K b \<and> head_of K b \<noteq> NULL}"
      using bg by (auto simp: big_ok_def)
    have bn: "big_node K' c" if "big_node K c" "c \<noteq> t" for c
      using that by (auto simp: K'_def big_node_def)
    have tn: "t \<noteq> NULL" "t \<notin> set ns"
      using lay n(2) big_t by (auto simp: layout_ok_def)
    have "skip_list K' ns ht"
    proof (rule skip_list_cong [OF n(1)])
      show "fwd K' i c = fwd K i c" if "c = NULL \<or> c \<in> set ns" for i c
        using that tn by (auto simp: K'_def fwd_def)
      show "size_of K' c = size_of K c \<and> (big_node K c \<longrightarrow> big_node K' c)" if "c \<in> set ns" for c
        using that tn bn by (auto simp: K'_def size_of_def)
    qed (simp_all add: K'_def)
    moreover have "set ns = {b. big_bin K' b \<and> head_of K' b \<noteq> NULL}"
      using n(2) hd bigs big_t by auto
    moreover have "big_node K' c \<and> (head_of K' c = NULL \<or> (head_of K' c = c + 48 \<and> kh_links K' (c + 48) = NULL))"
      if "big_bin K' c" for c
      using that bg bn [of c] big_t [of c] big_links [of c] hd unfolding bigs by (auto simp: big_ok_def K'_def)
    ultimately show ?thesis
      using bg bigs by (auto simp: big_ok_def K'_def)
  qed
  have "layout_ok (sizes K') (heap_tail K')"
  proof -
    have tl: "heap_tail K' = t + PAGE_SIZE" by (simp add: K'_def)
    show ?thesis
      unfolding s tl using layout_grow [OF lay, of "of_nat k" 4096] extent_bucket [OF k] ut by simp
  qed
  moreover have "above (frame_ptr K') (sizes K') (heap_tail K')"
  proof -
    have "heap_tail K' = t + PAGE_SIZE" "frame_ptr K' = frame_ptr K" by (simp_all add: K'_def)
    then show ?thesis
      unfolding s using above_grow [of "frame_ptr K" "sizes K" t 4096] ok ut by (simp add: heap_ok_def t_def)
  qed
  ultimately have ok': "heap_ok K'"
    using sm' big_ok by (simp add: heap_ok_def)
  have rest: "small_rest K' t = small_live K"
    using old(2) below(1) unfolding small_rest_def small_live_def s hd by (fastforce simp: K'_def)
  have "sizes K' t = Some (of_nat k)" by (simp add: s)
  then have "small_live K' = small_live K"
    using small_live_split [of K' t k] k rest new hd by (simp add: K'_def)
  moreover have "sizes K' c = Some s' \<and> \<not> s' < 10 \<and> head_of K' c = NULL \<longleftrightarrow> sizes K c = Some s' \<and> \<not> s' < 10 \<and> head_of K c = NULL" for c s'
    using below(1) [of c s'] of_nat_bucket(2) [OF k] by (cases "c = t") (auto simp: s hd)
  then have "big_live K' = big_live K"
    unfolding big_live_def by simp
  ultimately have "live_blocks K' = live_blocks K" by (simp add: live_blocks_def)
  then show ?thesis
    using run ok' lay sm k by (intro exI [of _ K']) (auto simp: K'_def h_def m'_def t_def layout_ok_def small_ok_def)
qed

section \<open>Allocation and release\<close>

lemma small_alloc:
  assumes ok: "heap_ok K" and k: "k < 10" and t: "unat (heap_tail K) + 4096 < 2 ^ 32"
  shows "\<exists>p K'. klmalloc_small k K = Some (p, K') \<and> heap_ok K' \<and> (p, 2 ^ (k + 2)) \<notin> live_blocks K
    \<and> live_blocks K' = insert (p, 2 ^ (k + 2)) (live_blocks K)
    \<and> unat (heap_tail K') \<le> unat (heap_tail K) + 4096"
proof (cases "kh_bins K ! k = NULL")
  case True
  obtain K1 where K1: "grow_bin k K = Some (heap_tail K, K1)" "heap_ok K1" "kh_bins K1 ! k = heap_tail K" "heap_tail K \<noteq> NULL"
    "live_blocks K1 = live_blocks K" "heap_tail K1 = heap_tail K + PAGE_SIZE"
    using grow [OF ok k True t] by blast
  show ?thesis
    using small_take [OF K1(2) k K1(3,4)] K1(1,5,6) True unat_add_small [of "heap_tail K" 4096] t
    by (auto simp: klmalloc_small_def klmalloc_list_head_def)
next
  case False
  then show ?thesis
    using small_take [OF ok k refl False] by (auto simp: klmalloc_small_def klmalloc_list_head_def Let_def)
qed

lemma release_cell:
  assumes "p \<in> C" and "(\<lambda>p. (p, n)) ` C \<inter> S = {}"
  shows "((\<lambda>p. (p, n)) ` (C - X) \<union> S) - (\<lambda>p. (p, n)) ` C \<union> (\<lambda>p. (p, n)) ` (C - insert p X)
    = ((\<lambda>p. (p, n)) ` (C - X) \<union> S) - {(p, n)}"
  using assms by auto

lemma small_free:
  assumes ok: "heap_ok K" and p: "(p, n) \<in> small_live K"
  shows "\<exists>K'. klfree p K = Some K' \<and> heap_ok K' \<and> live_blocks K' = live_blocks K - {(p, n)} \<and> heap_tail K' = heap_tail K"
proof -
  obtain b k where n: "n = 2 ^ (k + 2)" and k: "k < 10" and b: "sizes K b = Some (of_nat k)" "p \<in> set (cells b k)"
    "p \<notin> set (free_cells (kh_links K) (head_of K b))"
    using p unfolding small_live_def by blast
  obtain h where h: "kh_headers K b = Some h" "hd_size h = of_nat k" "head_of K b = hd_head h"
    using b(1) by (auto simp: sizes_def head_of_def)
  have sb: "small_bin K b h k"
    using ok k h by (simp add: small_bin_def)
  obtain xs where xs: "free_cells (kh_links K) (hd_head h) = xs" "chain (kh_links K) (hd_head h) xs" "distinct xs"
    "set xs \<subseteq> set (cells b k)" "live_blocks K = (\<lambda>p. (p, 2 ^ (k + 2))) ` (set (cells b k) - set xs) \<union> (small_rest K b \<union> big_live K)"
    by (rule small_bin_cells [OF sb])
  have px: "p \<notin> set xs" using b(3) h(3) xs(1) by simp
  note a = cell_asserts [OF sb b(2)] and disj = rest_cells [OF sb]
  have u: "unat (hd_size h) = k"
    using h(2) of_nat_bucket [OF k] by simp
  obtain bs where bs: "chain (next_of K) (kh_bins K ! k) bs" "distinct bs"
    "set bs = {c. sizes K c = Some (of_nat k) \<and> head_of K c \<noteq> NULL}"
    using ok k by (auto simp: heap_ok_def small_ok_def)
  have bb: "b \<in> set bs \<longleftrightarrow> hd_head h \<noteq> NULL"
    using bs(3) b(1) h(3) by simp
  define h' where "h' = (if hd_head h = NULL then h\<lparr>hd_next := kh_bins K ! k, hd_head := p\<rparr> else h\<lparr>hd_head := p\<rparr>)"
  define q where "q = (if hd_head h = NULL then b else kh_bins K ! k)"
  define K' where "K' = K\<lparr>kh_headers := (kh_headers K)(b := Some h'), kh_links := (kh_links K)(p := hd_head h), kh_bins := (kh_bins K)[k := q]\<rparr>"
  have run: "klfree p K = Some K'"
    using a h(1) u
    by (auto simp: klfree_def Let_def rd_header_def wr_header_def klmalloc_stack_empty_def klmalloc_list_insert_def
        klmalloc_stack_push_def assert_def K'_def h'_def q_def)
  have nx: "next_of K' = (next_of K)(b := hd_next h')" "next_of K b = hd_next h"
    using h(1) by (auto simp: K'_def next_of_def fun_eq_iff)
  have c: "chain (next_of K') q (if hd_head h = NULL then b # bs else bs)" "distinct (if hd_head h = NULL then b # bs else bs)"
    "set (if hd_head h = NULL then b # bs else bs) = {c. sizes K c = Some (of_nat k) \<and> head_of K c \<noteq> NULL} - {b} \<union> (if p # xs = [] then {} else {b})"
    using bs(1,2) bb nx a(6) fun_upd_triv [of "next_of K" b] unfolding bs(3) [symmetric]
    by (auto simp: q_def h'_def simp del: fun_upd_triv)
  have ch: "chain ((kh_links K)(p := hd_head h)) (hd_head h') (p # xs)" "distinct (p # xs)" "set (p # xs) \<subseteq> set (cells b k)"
    using xs px a(1) b(2) by (auto simp: h'_def)
  have "hd_size h' = hd_size h" "hd_forward h' = hd_forward h" and m: "\<And>x. x \<notin> set (cells b k) \<Longrightarrow> ((kh_links K)(p := hd_head h)) x = kh_links K x"
    using b(2) by (auto simp: h'_def)
  note sc = small_change [OF sb this(1,2) m ch K'_def c]
  have "live_blocks K' = live_blocks K - {(p, n)}"
    using sc(2) release_cell [OF b(2) disj, of "set xs"] unfolding xs(5) n by simp
  then show ?thesis
    using run sc(1) by (auto simp: K'_def)
qed

end
