(* ===== verification/Heap_Big.thy ===== *)
theory Heap_Big
  imports Heap_Small
begin

text \<open>Allocation from and release to the big_bin bins.\<close>

section \<open>What the other parts see of a change\<close>

lemma relinked_views:
  assumes "relinked K K'"
  shows "sizes K' = sizes K" "head_of K' = head_of K" "next_of K' = next_of K" "big_bin K' = big_bin K"
proof -
  obtain g fs where K': "K' = K\<lparr>kh_headers := \<lambda>b. map_option (\<lambda>h. h\<lparr>hd_forward := g b\<rparr>) (kh_headers K b), kh_forward := fs\<rparr>"
    using assms unfolding relinked_def by blast
  show s: "sizes K' = sizes K" "head_of K' = head_of K" "next_of K' = next_of K"
    by (auto simp: K' sizes_def head_of_def next_of_def fun_eq_iff option.map_comp comp_def split: option.split)
  show "big_bin K' = big_bin K"
    by (simp add: big_bin_def s fun_eq_iff)
qed

lemma level_views [simp]:
  "sizes (K\<lparr>kh_level := l\<rparr>) = sizes K" "head_of (K\<lparr>kh_level := l\<rparr>) = head_of K" "next_of (K\<lparr>kh_level := l\<rparr>) = next_of K"
  "sizes (K\<lparr>kh_rand := r\<rparr>) = sizes K" "head_of (K\<lparr>kh_rand := r\<rparr>) = head_of K" "next_of (K\<lparr>kh_rand := r\<rparr>) = next_of K"
  by (auto simp: sizes_def head_of_def next_of_def fun_eq_iff)

definition same_small :: "kheap \<Rightarrow> kheap \<Rightarrow> bool" where
  "same_small K K' \<longleftrightarrow> kh_bins K' = kh_bins K \<and> (\<forall>b k. k < 10 \<longrightarrow>
     (sizes K' b = Some (of_nat k) \<longleftrightarrow> sizes K b = Some (of_nat k)) \<and>
     (sizes K b = Some (of_nat k) \<longrightarrow> head_of K' b = head_of K b \<and> next_of K' b = next_of K b
        \<and> (\<forall>a\<in>set (cells b k). kh_links K' a = kh_links K a)))"

lemma same_small_ok:
  assumes "heap_ok K" and "same_small K K'"
  shows "small_ok K'" and "small_live K' = small_live K"
proof -
  have a: "sizes K' b = Some (of_nat k) \<longleftrightarrow> sizes K b = Some (of_nat k)"
    "sizes K b = Some (of_nat k) \<Longrightarrow> head_of K' b = head_of K b \<and> next_of K' b = next_of K b"
    "sizes K b = Some (of_nat k) \<Longrightarrow> a \<in> set (cells b k) \<Longrightarrow> kh_links K' a = kh_links K a" if "k < 10" for b k a
    using assms(2) that by (auto simp: same_small_def)
  have bins: "kh_bins K' = kh_bins K" and sm: "small_ok K"
    using assms by (auto simp: same_small_def heap_ok_def)
  have f: "bin_ok (kh_links K') b k (head_of K' b)" "free_cells (kh_links K') (head_of K' b) = free_cells (kh_links K) (head_of K b)"
    if "k < 10" "sizes K b = Some (of_nat k)" for b k
    using bin_ok_cong [OF bin_at [OF assms(1) that(2,1)] that(1), of "kh_links K'"] a(2,3) [OF that] by auto
  have "\<exists>bs. chain (next_of K') (kh_bins K' ! k) bs \<and> distinct bs
      \<and> set bs = {b. sizes K' b = Some (of_nat k) \<and> head_of K' b \<noteq> NULL}" if k: "k < 10" for k
  proof -
    obtain bs where bs: "chain (next_of K) (kh_bins K ! k) bs" "distinct bs"
      "set bs = {b. sizes K b = Some (of_nat k) \<and> head_of K b \<noteq> NULL}"
      using sm k by (auto simp: small_ok_def)
    have "chain (next_of K') (kh_bins K ! k) bs \<longleftrightarrow> chain (next_of K) (kh_bins K ! k) bs"
      by (rule chain_cong) (use bs(3) a(2) [OF k] in auto)
    moreover have "set bs = {b. sizes K' b = Some (of_nat k) \<and> head_of K' b \<noteq> NULL}"
      using bs(3) a(1,2) [OF k] by auto
    ultimately show ?thesis
      using bs bins by (intro exI [of _ bs]) simp
  qed
  then show "small_ok K'"
    using sm f a(1) bins by (auto simp: small_ok_def)
  show "small_live K' = small_live K"
    unfolding small_live_def using a(1) f(2) by (auto 0 3)
qed

lemma big_facts:
  assumes "heap_ok K" and "sizes K b = Some s" and "\<not> s < 10"
  shows "big_node K b" "11 < s" "4048 \<le> unat s" "unat (b + 48) = unat b + 48" "unat (b + s) = unat b + unat s"
    "unat b + unat s + 48 \<le> unat (heap_tail K)" "unat b mod 4096 = 0" "page_of (b + 48) = b" "(b + 48) mod PAGE_SIZE \<noteq> 0"
    "b + 48 \<noteq> NULL" "b + 48 > b" "b + 48 < b + s" "b \<noteq> NULL"
proof -
  have lay: "layout_ok (sizes K) (heap_tail K)" using assms(1) by (simp add: heap_ok_def)
  note l = layout_okD [OF lay assms(2)]
  show bn: "big_node K b"
    using assms by (auto simp: heap_ok_def big_ok_def big_bin_def)
  then obtain h where h: "kh_headers K b = Some h" "page_sized h" "NUM_BINS < hd_size h" by (auto simp: big_node_def)
  then have hs: "hd_size h = s" using assms(2) by (simp add: sizes_def)
  show s11: "11 < s" using h(3) hs by (simp add: NUM_BINS_def)
  have ext: "unat b + unat s + 48 < 2 ^ 32"
    using l(4) assms(3) by (simp add: extent_def)
  show "unat b + unat s + 48 \<le> unat (heap_tail K)" "unat b mod 4096 = 0" "b \<noteq> NULL"
    using l assms(3) by (auto simp: extent_def)
  have "aligned (s + 48)"
    using h(2) hs by (simp add: page_sized_def aligned_def)
  then have m: "(unat s + 48) mod 4096 = 0"
    using ext unat_add_small [of s 48] by (simp add: aligned_iff)
  then obtain d where d: "unat s + 48 = 4096 * d" by (auto elim: dvdE)
  then have "d \<noteq> 0" by auto
  then have "1 \<le> d" by simp
  with d show s4: "4048 \<le> unat s" by linarith
  show u: "unat (b + 48) = unat b + 48" and v: "unat (b + s) = unat b + unat s"
    using ext unat_add_small [of b 48] unat_add_small [of b "unat s"] by simp_all
  show "b + 48 > b" "b + 48 < b + s"
    unfolding word_less_nat_alt u v using s4 by simp_all
  then show "b + 48 \<noteq> NULL" by auto
  show "page_of (b + 48) = b"
    by (rule page_of_in [OF l(2)]) (simp_all add: u)
  have "unat (b + 48) mod 4096 = (48 + unat b) mod 4096" by (simp only: u add.commute)
  also have "\<dots> = 48" using l(2) by (metis add.right_neutral mod_add_right_eq mod_less numeral_less_iff semiring_norm(76,78,81))
  finally show "(b + 48) mod PAGE_SIZE \<noteq> 0"
    using aligned_iff [of "b + 48"] by (simp add: aligned_def)
qed

lemma big_assert_value:
  assumes "heap_ok K" and "sizes K b = Some s" and "\<not> s < 10" and "kh_headers K' b = Some h" "hd_size h = s" "hd_head h = b + 48"
  shows "assert_value b K' = Some ()"
  using big_facts [OF assms(1-3)] assms(4-6)
  by (simp add: assert_value_def rd_header_def assert_def NUM_BINS_def)

lemma big_pop:
  assumes "heap_ok K" and "sizes K b = Some s" and "\<not> s < 10" and "kh_headers K' b = Some h" "hd_size h = s" "hd_head h = b + 48"
  shows "klmalloc_stack_pop b K' = Some (b + 48, K'\<lparr>kh_headers := (kh_headers K')(b := Some (h\<lparr>hd_head := kh_links K' (b + 48)\<rparr>))\<rparr>)"
  using big_facts [OF assms(1-3)] assms(4-6)
  by (simp add: klmalloc_stack_pop_def rd_header_def wr_header_def assert_def NUM_BINS_def Let_def)

lemma big_live_iff:
  "(q, i) \<in> big_live K \<longleftrightarrow> (\<exists>s. sizes K (q - 48) = Some s \<and> \<not> s < 10 \<and> head_of K (q - 48) = NULL \<and> i = unat s)"
  unfolding big_live_def by (auto intro: exI [of _ "q - 48"])

text \<open>The common part: the head of one big_bin bin changes, and with it the skip list.\<close>

lemma big_change:
  assumes ok: "heap_ok K" and s: "sizes K b = Some s" "\<not> s < 10"
    and v: "sizes K' = sizes K" "next_of K' = next_of K" "head_of K' = (head_of K)(b := p)"
    and f: "kh_bins K' = kh_bins K" "heap_tail K' = heap_tail K" "kh_newest K' = kh_newest K" "big_node K' = big_node K"
      "frame_ptr K' = frame_ptr K"
    and m: "\<And>a. a \<noteq> b + 48 \<Longrightarrow> kh_links K' a = kh_links K a"
    and p: "p = NULL \<or> p = b + 48 \<and> kh_links K' (b + 48) = NULL"
    and n: "skip_list K' ns ht" "set ns = {c. big_bin K c \<and> head_of K c \<noteq> NULL} - {b} \<union> (if p = NULL then {} else {b})"
  shows "heap_ok K'" and "live_blocks K' = (if p = NULL then insert (b + 48, unat s) (live_blocks K) else live_blocks K - {(b + 48, unat s)})"
    and "(b + 48, unat s) \<in> live_blocks K \<longleftrightarrow> head_of K b = NULL"
proof -
  have bb: "big_bin K b" using s by (simp add: big_bin_def)
  have ss: "same_small K K'"
    unfolding same_small_def
  proof (intro conjI allI impI ballI)
    fix c k a assume k: "k < 10" and c: "sizes K c = Some (of_nat k)"
    then have "c \<noteq> b" using s of_nat_bucket(2) [OF k] by auto
    then show "head_of K' c = head_of K c" by (simp add: v)
    assume a: "a \<in> set (cells c k)"
    obtain h where "small_bin K c h k"
      using ok k c by (auto simp: small_bin_def sizes_def)
    then have "b + 48 \<notin> set (cells c k)"
      using big_cell bb by blast
    with a show "kh_links K' a = kh_links K a"
      by (intro m) auto
  qed (simp_all add: v f)
  note small = same_small_ok [OF ok ss]
  have bigs: "big_bin K' = big_bin K" by (simp add: big_bin_def v fun_eq_iff)
  have big_bin: "big_bin K c \<Longrightarrow> big_node K c \<and> (head_of K c = NULL \<or> head_of K c = c + 48 \<and> kh_links K (c + 48) = NULL)"
    "kh_newest K = NULL \<or> big_bin K (kh_newest K)" for c
    using ok by (auto simp: heap_ok_def big_ok_def)
  have "big_ok K'"
    unfolding big_ok_def
  proof (intro conjI allI impI)
    have "set ns = {c. big_bin K' c \<and> head_of K' c \<noteq> NULL}"
      using n(2) p big_facts(10) [OF ok s] bb by (auto simp: v bigs split: if_splits)
    then show "\<exists>ns ht. skip_list K' ns ht \<and> set ns = {c. big_bin K' c \<and> head_of K' c \<noteq> NULL}"
      using n(1) by blast
    fix c assume c: "big_bin K' c"
    then show "big_node K' c" using big_bin(1) bigs by (simp add: f)
    show "head_of K' c = NULL \<or> head_of K' c = c + 48 \<and> kh_links K' (c + 48) = NULL"
    proof (cases "c = b")
      case False
      then have "c + 48 \<noteq> b + 48" by simp
      then show ?thesis using m [of "c + 48"] big_bin(1) [of c] c bigs False by (simp add: v)
    qed (use p in \<open>simp add: v\<close>)
  qed (use big_bin(2) bigs in \<open>simp add: f\<close>)
  then show "heap_ok K'"
    using ok small(1) by (simp add: heap_ok_def v f)
  have notsmall: "(b + 48, i) \<notin> small_live K" for i
  proof
    assume "(b + 48, i) \<in> small_live K"
    then obtain c k where "k < 10" "sizes K c = Some (of_nat k)" "b + 48 \<in> set (cells c k)"
      unfolding small_live_def by blast
    moreover from this obtain h where "small_bin K c h k"
      using ok by (auto simp: small_bin_def sizes_def)
    ultimately show False using big_cell bb by blast
  qed
  then show "(b + 48, unat s) \<in> live_blocks K \<longleftrightarrow> head_of K b = NULL"
    using s by (auto simp: live_blocks_def big_live_def)
  have "big_live K' = (if p = NULL then insert (b + 48, unat s) (big_live K) else big_live K - {(b + 48, unat s)})"
    using s unfolding set_eq_iff by (auto simp: big_live_iff v diff_eq_eq split: if_splits)
  then show "live_blocks K' = (if p = NULL then insert (b + 48, unat s) (live_blocks K) else live_blocks K - {(b + 48, unat s)})"
    using notsmall [of "unat s"] small(2) by (auto simp: live_blocks_def)
qed

section \<open>A free big_bin bin is taken\<close>

lemma big_take:
  assumes ok: "heap_ok K" and q: "klmalloc_skip_list_findbest sz K = Some b" "b \<noteq> NULL"
  shows "\<exists>s K'. klmalloc_big sz K = Some (b + 48, K') \<and> heap_ok K' \<and> unat sz \<le> s \<and> (b + 48, s) \<notin> live_blocks K
    \<and> live_blocks K' = insert (b + 48, s) (live_blocks K) \<and> heap_tail K' = heap_tail K"
proof -
  obtain ns ht where n: "skip_list K ns ht" "set ns = {c. big_bin K c \<and> head_of K c \<noteq> NULL}"
    using ok by (auto simp: heap_ok_def big_ok_def)
  obtain qs where qs: "dropWhile (\<lambda>n. size_of K n < sz) ns = b # qs"
    using findbest [OF n(1), of sz] q by (auto split: list.splits)
  define ps where "ps = takeWhile (\<lambda>n. size_of K n < sz) ns"
  note sp = skip_split [OF n(1), of sz, unfolded qs, folded ps_def]
  have ns: "ns = ps @ b # qs" using sp(1) .
  have sz: "sz \<le> size_of K b" using sp(3) by (simp add: not_less)
  have bb: "big_bin K b" "head_of K b \<noteq> NULL" using n(2) ns by auto
  then obtain s where s: "sizes K b = Some s" "\<not> s < 10" by (auto simp: big_bin_def)
  then obtain h where h: "kh_headers K b = Some h" "hd_size h = s" by (auto simp: sizes_def)
  have hb: "head_of K b = b + 48" "kh_links K (b + 48) = NULL"
    using ok bb by (auto simp: heap_ok_def big_ok_def)
  have hh: "hd_head h = b + 48" using hb h by (simp add: head_of_def)
  have szs: "size_of K b = s" using h by (simp add: size_of_def)
  have pl: "\<forall>n\<in>set ps. size_of K n < size_of K b"
    using sp(2) sz by auto
  obtain K1 l where K1: "klmalloc_skip_list_delete b K = Some K1" "skip_list K1 (ps @ qs) ht" "relinked (K\<lparr>kh_level := l\<rparr>) K1"
    using skip_list_delete [OF n(1) [unfolded ns] big_assert_value [OF ok s h hh] pl] by blast
  note r = relinked_fields [OF K1(3)] and rv = relinked_views [OF K1(3)]
  obtain h1 where h1: "kh_headers K1 b = Some h1" "hd_size h1 = s" "hd_head h1 = b + 48"
  proof -
    have "sizes K1 b = Some s" "head_of K1 b = b + 48"
      using rv s(1) hb(1) by simp_all
    then show ?thesis
      using that by (auto simp: sizes_def head_of_def)
  qed
  define K' where "K' = K1\<lparr>kh_headers := (kh_headers K1)(b := Some (h1\<lparr>hd_head := NULL\<rparr>))\<rparr>"
  have run: "klmalloc_big sz K = Some (b + 48, K')"
    using q h sz szs K1(1) big_pop [OF ok s h1] hb(2) r(1)
    by (simp add: klmalloc_big_def rd_header_def assert_def K'_def)
  have v: "sizes K' = sizes K" "next_of K' = next_of K" "head_of K' = (head_of K)(b := NULL)"
  proof -
    have "sizes K' = sizes K1" "next_of K' = next_of K1" "head_of K' = (head_of K1)(b := NULL)"
      using h1 by (auto simp: K'_def sizes_def next_of_def head_of_def fun_eq_iff)
    then show "sizes K' = sizes K" "next_of K' = next_of K" "head_of K' = (head_of K)(b := NULL)"
      using rv by simp_all
  qed
  have bn: "big_node K' = big_node K"
  proof -
    have "big_node K' = big_node K1"
      using h1(1) by (auto simp: K'_def big_node_def page_sized_def fun_eq_iff)
    then show ?thesis using r(10) by simp
  qed
  have sk: "skip_list K' (ps @ qs) ht"
  proof (rule skip_list_cong [OF K1(2)])
    have "b \<notin> set (ps @ qs)" using n(1) ns by (simp add: skip_list_def)
    then show "fwd K' i c = fwd K1 i c" if "c = NULL \<or> c \<in> set (ps @ qs)" for i c
      using that h1(1) by (auto simp: K'_def fwd_def)
    show "size_of K' c = size_of K1 c \<and> (big_node K1 c \<longrightarrow> big_node K' c)" for c
      using h1(1) bn r(10) by (auto simp: K'_def size_of_def)
  qed (simp_all add: K'_def)
  have set: "set (ps @ qs) = {c. big_bin K c \<and> head_of K c \<noteq> NULL} - {b} \<union> (if NULL = NULL then {} else {b})"
    using n ns by (auto simp: skip_list_def)
  note bc = big_change [OF ok s v _ _ _ bn _ _ _ sk set]
  have "kh_bins K' = kh_bins K" "heap_tail K' = heap_tail K" "kh_newest K' = kh_newest K" "kh_links K' = kh_links K" "frame_ptr K' = frame_ptr K"
    using r by (simp_all add: K'_def)
  then show ?thesis
    using run bc sz szs bb(2) by (intro exI [of _ "unat s"] exI [of _ K']) (simp add: word_le_nat_alt)
qed

section \<open>A big_bin bin is released\<close>

lemma big_free:
  assumes ok: "heap_ok K" and p: "(p, n) \<in> big_live K"
  shows "\<exists>K'. klfree p K = Some K' \<and> heap_ok K' \<and> live_blocks K' = live_blocks K - {(p, n)} \<and> heap_tail K' = heap_tail K"
proof -
  obtain b s where b: "p = b + 48" "n = unat s" "sizes K b = Some s" "\<not> s < 10" "head_of K b = NULL"
    using p unfolding big_live_def by blast
  note s = b(3,4) and f = big_facts [OF ok b(3,4)]
  obtain h where h: "kh_headers K b = Some h" "hd_size h = s" "hd_head h = NULL"
    using b by (auto simp: sizes_def head_of_def)
  have pg: "page_sized h" using f(1) h(1) by (auto simp: big_node_def)
  define K1 where "K1 = K\<lparr>kh_links := (kh_links K)(b + 48 := NULL), kh_headers := (kh_headers K)(b := Some (h\<lparr>hd_head := b + 48\<rparr>))\<rparr>"
  have push: "klmalloc_stack_push b (b + 48) K = Some K1"
    using f h by (simp add: klmalloc_stack_push_def rd_header_def wr_header_def assert_def NUM_BINS_def K1_def)
  obtain ns ht where n: "skip_list K ns ht" "set ns = {c. big_bin K c \<and> head_of K c \<noteq> NULL}"
    using ok by (auto simp: heap_ok_def big_ok_def)
  have bns: "b \<notin> set ns" using n(2) b(5) by auto
  have bn1: "big_node K1 = big_node K"
    using h(1) by (auto simp: K1_def big_node_def page_sized_def fun_eq_iff)
  have sk: "skip_list K1 ns ht"
    by (rule skip_list_cong [OF n(1)]) (use bns f(13) bn1 in \<open>auto simp: K1_def fwd_def size_of_def\<close>)
  have av: "assert_value b K1 = Some ()"
    by (rule big_assert_value [OF ok s, where h = "h\<lparr>hd_head := b + 48\<rparr>"]) (simp_all add: K1_def h)
  obtain K' ps qs ht' l r where K': "klmalloc_skip_list_insert b K1 = Some K'" "ns = ps @ qs" "skip_list K' (ps @ b # qs) ht'"
    "relinked (K1\<lparr>kh_rand := r, kh_level := l\<rparr>) K'"
    using skip_list_insert [OF sk av _ bns] f(1) bn1 by auto
  note r = relinked_fields [OF K'(4)] and rv = relinked_views [OF K'(4)]
  have run: "klfree p K = Some K'"
    using f h pg push K'(1) by (simp add: klfree_def b(1) rd_header_def assert_def NUM_BINS_def Let_def)
  have v: "sizes K' = sizes K" "next_of K' = next_of K" "head_of K' = (head_of K)(b := b + 48)"
    using rv h by (auto simp: K1_def sizes_def next_of_def head_of_def fun_eq_iff)
  have set: "set (ps @ b # qs) = {c. big_bin K c \<and> head_of K c \<noteq> NULL} - {b} \<union> (if b + 48 = NULL then {} else {b})"
    using n(2) K'(2) bns f(10) by auto
  have fs: "kh_bins K' = kh_bins K" "heap_tail K' = heap_tail K" "kh_newest K' = kh_newest K" "big_node K' = big_node K"
    "kh_links K' = (kh_links K)(b + 48 := NULL)" "frame_ptr K' = frame_ptr K"
    using r bn1 by (simp_all add: K1_def)
  note bc = big_change [OF ok s v fs(1-4,6) _ _ K'(3) set]
  show ?thesis
    using run bc fs f(10) by (intro exI [of _ K']) (simp add: b(1,2))
qed

section \<open>A new big_bin bin\<close>

text \<open>The number of pages a request needs.\<close>

lemma big_pages:
  assumes "unat sz + 4144 < 2 ^ 32"
  defines "pages \<equiv> (sz + big_header_size) div PAGE_SIZE + 1" and "n \<equiv> 4096 * ((unat sz + 48) div 4096 + 1)"
  shows "unat (PAGE_SIZE * pages) = n" "unat (pages * PAGE_SIZE - big_header_size) = n - 48" "n mod 4096 = 0" "unat sz + 48 < n"
    "n \<le> unat sz + 4144" "PAGE_SIZE * pages = of_nat n"
proof -
  have 1: "unat (sz + 48) = unat sz + 48"
    using unat_add_small [of sz 48] assms(1) by simp
  show 2: "unat sz + 48 < n" "n \<le> unat sz + 4144" "n mod 4096 = 0"
    unfolding n_def using div_mult_mod_eq [of "unat sz + 48" 4096] mod_less_divisor [of 4096 "unat sz + 48"] by simp_all
  have 3: "unat ((sz + 48) div 4096) = (unat sz + 48) div 4096"
    by (simp add: unat_div 1)
  have "(unat sz + 48) div 4096 + 1 < 2 ^ 32"
    using assms(1) div_le_dividend [of "unat sz + 48" 4096] by linarith
  then have 4: "unat pages = (unat sz + 48) div 4096 + 1"
    unfolding pages_def using 3 unat_add_small [of "(sz + 48) div 4096" 1] by simp
  have "n < 2 ^ 32" using 2(2) assms(1) by linarith
  then show 5: "unat (PAGE_SIZE * pages) = n"
    unfolding n_def by (simp add: unat_word_ariths 4)
  then show "PAGE_SIZE * pages = of_nat n"
    by (metis of_nat_unat ucast_id)
  have "48 \<le> n" using 2(1) by simp
  then have "big_header_size \<le> pages * PAGE_SIZE"
    using 5 by (simp add: word_le_nat_alt mult.commute)
  then show "unat (pages * PAGE_SIZE - big_header_size) = n - 48"
    using 5 by (simp add: unat_sub mult.commute)
qed

lemma big_new:
  assumes ok: "heap_ok K" and q: "klmalloc_skip_list_findbest sz K = Some NULL" and t: "unat (heap_tail K) + unat sz + 4144 < 2 ^ 32"
  shows "\<exists>b s K'. klmalloc_big sz K = Some (b + 48, K') \<and> heap_ok K' \<and> unat sz \<le> s \<and> (b + 48, s) \<notin> live_blocks K
    \<and> live_blocks K' = insert (b + 48, s) (live_blocks K)
    \<and> unat (heap_tail K') \<le> unat (heap_tail K) + (unat sz + 4144)"
proof -
  define t where "t = heap_tail K"
  define n where "n = 4096 * ((unat sz + 48) div 4096 + 1)"
  define s where "s = ((sz + big_header_size) div PAGE_SIZE + 1) * PAGE_SIZE - big_header_size"
  have szb: "unat sz + 4144 < 2 ^ 32" using t by simp
  note pg = big_pages [OF szb, folded n_def s_def]
  have us: "unat s = n - 48" by (rule pg(2))
  have s12: "12 \<le> unat s" "n = unat s + 48"
  proof -
    have "4096 \<le> n" unfolding n_def by simp
    then show "12 \<le> unat s" "n = unat s + 48" using us by auto
  qed
  then have s10: "\<not> s < 10" "NUM_BINS < s" by (simp_all add: word_less_nat_alt NUM_BINS_def)
  have lay: "layout_ok (sizes K) t" and t0: "t \<noteq> NULL" "unat t mod 4096 = 0" and sm: "small_ok K" and bg: "big_ok K"
    using ok by (auto simp: heap_ok_def t_def layout_ok_def)
  have ut: "unat t + n < 2 ^ 32" using t pg(5) by (simp add: t_def)
  have al: "aligned t" using t0(2) by (simp add: aligned_iff)
  have psz: "(s + 48) mod PAGE_SIZE = 0"
  proof -
    have "unat (s + 48) = n" using unat_add_small [of s 48] s12 ut by simp
    then show ?thesis using pg(3) aligned_iff [of "s + 48"] by (simp add: aligned_def)
  qed
  have below: "c \<noteq> t" "unat c + extent s' \<le> unat t" if "sizes K c = Some s'" for c s'
    using layout_okD [OF lay that] by (auto simp: extent_def split: if_splits)
  have newest: "kh_newest K = NULL \<or> big_bin K (kh_newest K)"
    using bg by (simp add: big_ok_def)
  define hd0 where "hd0 = \<lparr>hd_next = NULL, hd_head = NULL, hd_size = s, hd_prev = kh_newest K, hd_forward = replicate 7 NULL\<rparr>"
  define H where "H = (if kh_newest K = NULL then kh_headers K
     else (kh_headers K)(kh_newest K := map_option (\<lambda>h. h\<lparr>hd_next := t\<rparr>) (kh_headers K (kh_newest K))))"
  define m where "m = (\<lambda>a. if unat (a - t) < n then NULL else kh_links K a)"
  define K' where "K' = K\<lparr>heap_tail := t + of_nat n, kh_links := m, kh_headers := H(t := Some hd0), kh_newest := t\<rparr>"
  have run: "klmalloc_big sz K = Some (t + 48, K')"
    using q newest al psz pg(1,6) ok
    by (auto simp: klmalloc_big_def sbrk_def Let_def assert_def aligned_def [symmetric] page_sized_def SKIP_MAX_LEVEL_def
        rd_header_def wr_header_def K'_def H_def hd0_def m_def t_def s_def big_bin_def sizes_def add.commute)
  have Hv: "map_option hd_size (H c) = map_option hd_size (kh_headers K c)" "map_option hd_head (H c) = map_option hd_head (kh_headers K c)"
    "map_option hd_forward (H c) = map_option hd_forward (kh_headers K c)" for c
    by (auto simp: H_def option.map_comp comp_def)
  have s: "sizes K' = (sizes K)(t := Some s)"
    using Hv(1) by (auto simp: K'_def sizes_def hd0_def fun_eq_iff)
  have hd: "head_of K' c = (if c = t then NULL else head_of K c)" for c
    using Hv(2) [of c] by (auto simp: K'_def head_of_def hd0_def split: option.splits)
  have fw: "fwd K' i c = fwd K i c" if "c \<noteq> t" for i c
    using Hv(3) [of c] that by (auto simp: K'_def fwd_def split: option.splits)
  have szof: "size_of K' c = size_of K c" if "c \<noteq> t" for c
    using Hv(1) [of c] that by (auto simp: K'_def size_of_def split: option.splits)
  have links: "m a = kh_links K a" if a: "unat a < unat t" for a
  proof -
    have "\<not> unat (a - t) < n"
      using a ut by (simp add: unat_sub_if_size word_le_nat_alt word_size)
    then show ?thesis by (simp add: m_def)
  qed
  have cell: "unat a < unat t" if "sizes K c = Some (of_nat k)" "k < 10" "a \<in> set (cells c k)" for a c k
  proof -
    have "(0 :: nat) < 2 ^ (k + 2)" by simp
    then show ?thesis
      using cells_in_page [OF lay that] below(2) [OF that(1)] extent_bucket [OF that(2)] by linarith
  qed
  have ss: "same_small K K'"
    unfolding same_small_def
  proof (intro conjI allI impI ballI)
    fix c a :: ptr and k :: nat assume k: "k < 10"
    show "sizes K' c = Some (of_nat k) \<longleftrightarrow> sizes K c = Some (of_nat k)"
      using of_nat_bucket(2) [OF k] s10(1) below(1) [of c] by (auto simp: s)
    assume c: "sizes K c = Some (of_nat k)"
    then have ct: "c \<noteq> t" "c \<noteq> kh_newest K \<or> kh_newest K = NULL"
      using below(1) newest of_nat_bucket(2) [OF k] by (auto simp: big_bin_def)
    then show "head_of K' c = head_of K c"
      by (simp add: hd)
    show "next_of K' c = next_of K c"
      using ct by (auto simp: next_of_def K'_def H_def)
    assume "a \<in> set (cells c k)"
    then show "kh_links K' a = kh_links K a"
      using links [OF cell [OF c k]] by (simp add: K'_def)
  qed (simp add: K'_def)
  note small = same_small_ok [OF ok ss]
  have bigs: "big_bin K' c \<longleftrightarrow> c = t \<or> big_bin K c" for c
    using s10 by (auto simp: big_bin_def s)
  have bn: "big_node K' c" if "big_node K c" "c \<noteq> t" for c
    using that by (auto simp: K'_def H_def big_node_def)
  have bnt: "big_node K' t"
    using t0(1) al psz s10(2) by (simp add: big_node_def K'_def hd0_def page_sized_def)
  obtain ns ht where n: "skip_list K ns ht" "set ns = {c. big_bin K c \<and> head_of K c \<noteq> NULL}"
    using bg by (auto simp: big_ok_def)
  have tns: "t \<notin> set ns" using n(2) below(1) by (auto simp: big_bin_def)
  have sk: "skip_list K' ns ht"
  proof (rule skip_list_cong [OF n(1)])
    show "fwd K' i c = fwd K i c" if "c = NULL \<or> c \<in> set ns" for i c
      using that tns t0(1) by (intro fw) auto
    show "size_of K' c = size_of K c \<and> (big_node K c \<longrightarrow> big_node K' c)" if "c \<in> set ns" for c
    proof -
      have "c \<noteq> t" using that tns by auto
      then show ?thesis using szof bn by blast
    qed
  qed (simp_all add: K'_def)
  have bg': "big_ok K'"
    unfolding big_ok_def
  proof (intro conjI allI impI)
    have "set ns = {c. big_bin K' c \<and> head_of K' c \<noteq> NULL}"
      using n(2) tns by (auto simp: bigs hd)
    then show "\<exists>ns ht. skip_list K' ns ht \<and> set ns = {c. big_bin K' c \<and> head_of K' c \<noteq> NULL}"
      using sk by blast
    fix c assume c: "big_bin K' c"
    show "big_node K' c"
      using c bn [of c] bnt bg by (cases "c = t") (auto simp: bigs big_ok_def)
    show "head_of K' c = NULL \<or> head_of K' c = c + 48 \<and> kh_links K' (c + 48) = NULL"
    proof (cases "c = t")
      case False
      then have bc: "big_bin K c" using c by (simp add: bigs)
      then obtain s' where s': "sizes K c = Some s'" "\<not> s' < 10" by (auto simp: big_bin_def)
      have "unat (c + 48) < unat t"
        using big_facts(3,4) [OF ok s'] below(2) [OF s'(1)] s'(2) by (simp add: extent_def)
      moreover have "kh_links K' = m" "head_of K' c = head_of K c"
        using False hd by (simp_all add: K'_def)
      ultimately show ?thesis
        using bg bc links [of "c + 48"] by (auto simp: big_ok_def)
    qed (simp add: hd)
  next
    have "kh_newest K' = t" by (simp add: K'_def)
    then show "kh_newest K' = NULL \<or> big_bin K' (kh_newest K')"
      by (simp add: bigs)
  qed
  have "layout_ok (sizes K') (heap_tail K')"
  proof -
    have tl: "heap_tail K' = t + of_nat n" by (simp add: K'_def)
    show ?thesis
      unfolding s tl by (rule layout_grow [OF lay _ pg(3) ut]) (use s10 s12 in \<open>simp_all add: extent_def\<close>)
  qed
  moreover have "above (frame_ptr K') (sizes K') (heap_tail K')"
  proof -
    have "heap_tail K' = t + of_nat n" "frame_ptr K' = frame_ptr K" by (simp_all add: K'_def)
    then show ?thesis
      unfolding s using above_grow [of "frame_ptr K" "sizes K" t n] ok ut by (simp add: heap_ok_def t_def)
  qed
  ultimately have ok': "heap_ok K'"
    using small(1) bg' by (simp add: heap_ok_def)
  have bl: "big_live K' = insert (t + 48, unat s) (big_live K)"
    using s10(1) below(1) unfolding set_eq_iff by (auto simp: big_live_iff s hd diff_eq_eq split: if_splits)
  have new: "(t + 48, unat s) \<notin> live_blocks K"
  proof
    assume "(t + 48, unat s) \<in> live_blocks K"
    moreover have "(t + 48, unat s) \<notin> big_live K"
      using below(1) by (auto simp: big_live_iff)
    ultimately obtain c k where "k < 10" "sizes K c = Some (of_nat k)" "t + 48 \<in> set (cells c k)"
      unfolding live_blocks_def small_live_def by blast
    then have "unat (t + 48) < unat t" using cell by blast
    then show False
      using unat_add_small [of t 48] ut s12 by simp
  qed
  have "unat sz \<le> unat s" using pg(4) us by simp
  moreover have "unat (heap_tail K') \<le> unat (heap_tail K) + (unat sz + 4144)"
    using unat_add_small [OF ut] pg(5) by (simp add: K'_def t_def)
  ultimately show ?thesis
    using run ok' bl small(2) new by (intro exI [of _ t] exI [of _ "unat s"] exI [of _ K']) (simp add: live_blocks_def)
qed

end
