(* ===== verification/Heap_Laws.thy ===== *)
theory Heap_Laws
  imports Heap_Big
begin

text \<open>
  The contract of the kernel heap: allocation returns a new block that is large enough, release takes exactly
  that block out, blocks never overlap, and what the owner of a block writes into it does not matter.  The
  contract is a locale; the allocator of \<^verbatim>\<open>alloc.cpp\<close> is an interpretation of it.
\<close>

section \<open>The bucket of a size\<close>

lemma bit_length_bounds: "0 < n \<Longrightarrow> 0 < bit_length n \<and> 2 ^ (bit_length n - 1) \<le> n \<and> n < 2 ^ bit_length n"
proof (induction n rule: bit_length.induct)
  case (1 n)
  show ?case
  proof (cases "n div 2 = 0")
    case True
    with 1(2) have "n = 1" by auto
    then show ?thesis by (simp add: bit_length.simps)
  next
    case False
    then have b: "0 < bit_length (n div 2)" "2 ^ (bit_length (n div 2) - 1) \<le> n div 2" "n div 2 < 2 ^ bit_length (n div 2)"
      using 1 by auto
    obtain m where m: "bit_length (n div 2) = Suc m"
      using b(1) by (cases "bit_length (n div 2)") auto
    have "bit_length n = Suc (Suc m)"
      using 1(2) m by (subst bit_length.simps) simp
    moreover have "2 ^ m \<le> n div 2" "n div 2 < 2 * 2 ^ m"
      using b(2,3) m by simp_all
    then have "2 * 2 ^ m \<le> n" "n < 2 * (2 * 2 ^ m)"
      by linarith+
    ultimately show ?thesis by simp
  qed
qed

lemma power_of_two_and:
  assumes "2 ^ b \<le> n" and "n < 2 ^ Suc b"
  shows "n AND (n - 1) = 0 \<longleftrightarrow> n = (2 :: nat) ^ b"
proof
  assume a: "n AND (n - 1) = 0"
  show "n = 2 ^ b"
  proof (rule ccontr)
    assume "n \<noteq> 2 ^ b"
    then have "2 ^ b \<le> n - 1" "n - 1 < 2 * 2 ^ b" "n < 2 * 2 ^ b"
      using assms by auto
    then have "n div 2 ^ b = 1" "(n - 1) div 2 ^ b = 1"
      using assms(1) by (auto intro!: div_nat_eqI)
    then have "bit n b" "bit (n - 1) b"
      by (simp_all add: bit_iff_odd)
    then have "bit (n AND (n - 1)) b"
      by (simp add: bit_and_iff)
    with a show False by simp
  qed
next
  assume n: "n = 2 ^ b"
  have "n - 1 = mask b"
    by (simp add: n mask_eq_exp_minus_1)
  then show "n AND (n - 1) = 0"
    unfolding n by (auto intro!: bit_eqI simp: bit_and_iff bit_exp_iff bit_mask_iff)
qed

text \<open>The bucket is the smallest one whose cells are large enough.\<close>

lemma bin_size_bucket:
  assumes "0 < unat sz"
  shows "unat sz \<le> 2048 \<Longrightarrow> klmalloc_bin_size sz < 10 \<and> unat sz \<le> 2 ^ (klmalloc_bin_size sz + 2)
      \<and> (\<forall>j < klmalloc_bin_size sz. 2 ^ (j + 2) < unat sz)"
    and "2048 < unat sz \<Longrightarrow> klmalloc_bin_size sz = BIG_BIN"
proof -
  obtain b where b: "bit_length (unat sz) = Suc b" "2 ^ b \<le> unat sz" "unat sz < 2 ^ Suc b"
    using bit_length_bounds [OF assms] by (cases "bit_length (unat sz)") auto
  have "unat (sz - 1) = unat sz - 1"
    using assms by (simp add: unat_sub word_le_nat_alt)
  then have "unat (sz AND (sz - 1)) = unat sz AND (unat sz - 1)"
    by (simp add: unsigned_and_eq)
  then have z: "sz AND (sz - 1) = 0 \<longleftrightarrow> unat sz = 2 ^ b"
    using power_of_two_and [OF b(2,3)] by (simp add: word_unat_eq_iff)
  define c where "c = (if unat sz = 2 ^ b then b else Suc b)"
  have c: "klmalloc_bin_size sz = klmalloc_adjust_bin (Suc c)" "unat sz \<le> 2 ^ c" "\<And>j. j < c \<Longrightarrow> 2 ^ j < unat sz"
  proof -
    show "klmalloc_bin_size sz = klmalloc_adjust_bin (Suc c)"
      by (simp add: klmalloc_bin_size_def b(1) z c_def)
    show "unat sz \<le> 2 ^ c" using b(3) by (simp add: c_def)
    fix j assume j: "j < c"
    show "2 ^ j < unat sz"
    proof (cases "unat sz = 2 ^ b")
      case True
      then show ?thesis using j by (simp add: c_def)
    next
      case False
      then have "(2 :: nat) ^ j \<le> 2 ^ b" using j by (intro power_increasing) (auto simp: c_def)
      with False b(2) show ?thesis by linarith
    qed
  qed
  have adj: "klmalloc_adjust_bin (Suc c) = (if c \<le> 2 then 0 else if c > 12 then 10 else c - 2)"
    by (auto simp: klmalloc_adjust_bin_def SMALLEST_BIN_LOG_def BIG_BIN_def Let_def)
  show "klmalloc_bin_size sz < 10 \<and> unat sz \<le> 2 ^ (klmalloc_bin_size sz + 2) \<and> (\<forall>j < klmalloc_bin_size sz. 2 ^ (j + 2) < unat sz)"
    if s: "unat sz \<le> 2048"
  proof -
    have c11: "c \<le> 11"
      using c(3) [of 11] s by (cases "11 < c") auto
    have "(2 :: nat) ^ c \<le> 2 ^ (klmalloc_bin_size sz + 2)"
      using c11 by (intro power_increasing) (auto simp: c(1) adj)
    then have "unat sz \<le> 2 ^ (klmalloc_bin_size sz + 2)"
      using c(2) by (rule order.trans [rotated])
    moreover have "2 ^ (j + 2) < unat sz" if "j < klmalloc_bin_size sz" for j
      using c(3) [of "j + 2"] that c11 unfolding c(1) adj by (auto split: if_splits)
    moreover have "klmalloc_bin_size sz < 10"
      using c11 unfolding c(1) adj by auto
    ultimately show ?thesis by blast
  qed
  show "klmalloc_bin_size sz = BIG_BIN" if s: "2048 < unat sz"
  proof -
    have "11 < c"
    proof (rule ccontr)
      assume "\<not> 11 < c"
      then have "(2 :: nat) ^ c \<le> 2 ^ 11" by (intro power_increasing) auto
      with c(2) s show False by simp
    qed
    then show ?thesis by (auto simp: c(1) adj BIG_BIN_def)
  qed
qed

section \<open>Allocation and release\<close>

lemma big_alloc:
  assumes ok: "heap_ok K" and room: "unat (heap_tail K) + (unat sz + 4144) < 2 ^ 32"
  shows "\<exists>b s K'. klmalloc_big sz K = Some (b + 48, K') \<and> heap_ok K' \<and> unat sz \<le> s \<and> (b + 48, s) \<notin> live_blocks K
    \<and> live_blocks K' = insert (b + 48, s) (live_blocks K) \<and> unat (heap_tail K') \<le> unat (heap_tail K) + (unat sz + 4144)"
proof -
  obtain ns ht where n: "skip_list K ns ht"
    using ok by (auto simp: heap_ok_def big_ok_def)
  obtain q where q: "klmalloc_skip_list_findbest sz K = Some q"
    using findbest [OF n] by blast
  show ?thesis
  proof (cases "q = NULL")
    case True
    then show ?thesis using big_new [OF ok] q room by simp
  next
    case False
    then show ?thesis using big_take [OF ok q False] by force
  qed
qed

lemma malloc_law:
  assumes "heap_ok K" and "sz \<noteq> 0" and "unat (heap_tail K) + (unat sz + 4144) < 2 ^ 32"
  shows "\<exists>p n K'. malloc sz K = Some (p, K') \<and> heap_ok K' \<and> unat sz \<le> n \<and> (p, n) \<notin> live_blocks K \<and> live_blocks K' = insert (p, n) (live_blocks K)
    \<and> unat (heap_tail K') \<le> unat (heap_tail K) + (unat sz + 4144)"
proof -
  have z: "0 < unat sz" using assms(2) by (simp add: unat_gt_0)
  show ?thesis
  proof (cases "unat sz \<le> 2048")
    case True
    note k = bin_size_bucket(1) [OF z True]
    obtain p K' where "klmalloc_small (klmalloc_bin_size sz) K = Some (p, K')" "heap_ok K'"
      "(p, 2 ^ (klmalloc_bin_size sz + 2)) \<notin> live_blocks K" "live_blocks K' = insert (p, 2 ^ (klmalloc_bin_size sz + 2)) (live_blocks K)"
      "unat (heap_tail K') \<le> unat (heap_tail K) + 4096"
      using small_alloc [OF assms(1), of "klmalloc_bin_size sz"] k assms(3) by auto
    then show ?thesis
      using k assms(2) by (auto simp: malloc_def klmalloc_def BIG_BIN_def Let_def)
  next
    case False
    then have k: "klmalloc_bin_size sz = BIG_BIN"
      using bin_size_bucket(2) [OF z] by simp
    show ?thesis
      using big_alloc [OF assms(1,3)] k assms(2) by (fastforce simp: malloc_def klmalloc_def Let_def)
  qed
qed

lemma live_above:
  assumes ok: "heap_ok K" and p: "(p, n) \<in> live_blocks K"
  shows "frame_ptr K < p" "unat p + n \<le> unat (heap_tail K)" "0 < n" "p \<noteq> NULL"
proof -
  have lay: "layout_ok (sizes K) (heap_tail K)" and ab: "above (frame_ptr K) (sizes K) (heap_tail K)"
    using ok by (auto simp: heap_ok_def)
  have *: "frame_ptr K < p \<and> unat p + n \<le> unat (heap_tail K) \<and> 0 < n"
  proof (cases "(p, n) \<in> small_live K")
    case True
    then obtain b k where n: "n = 2 ^ (k + 2)" and b: "k < 10" "sizes K b = Some (of_nat k)" "p \<in> set (cells b k)"
      unfolding small_live_def by blast
    have "unat b < unat p" "unat p + n \<le> unat b + 4096"
      using cells_in_page [OF lay b(2,1,3)] n by linarith+
    moreover have "unat b + 4096 \<le> unat (heap_tail K)"
      using layout_okD(3) [OF lay b(2)] extent_bucket [OF b(1)] by simp
    moreover have "frame_ptr K \<le> b" using ab b(2) by (simp add: above_def)
    ultimately show ?thesis
      using n by (simp add: word_less_nat_alt word_le_nat_alt)
  next
    case False
    then obtain b s where b: "p = b + 48" "n = unat s" "sizes K b = Some s" "\<not> s < 10"
      using p unfolding live_blocks_def big_live_def by blast
    note f = big_facts [OF ok b(3,4)]
    have "frame_ptr K \<le> b" using ab b(3) by (simp add: above_def)
    then show ?thesis
      using f(3,4,6,11) b(1,2) by (simp add: order_le_less_trans)
  qed
  then show "frame_ptr K < p" "unat p + n \<le> unat (heap_tail K)" "0 < n" by auto
  then show "p \<noteq> NULL" by auto
qed

lemma klfree_law:
  assumes "heap_ok K" and "(p, n) \<in> live_blocks K"
  shows "\<exists>K'. klfree p K = Some K' \<and> heap_ok K' \<and> live_blocks K' = live_blocks K - {(p, n)} \<and> heap_tail K' = heap_tail K"
  using small_free [OF assms(1), of p n] big_free [OF assms(1), of p n] assms(2) by (auto simp: live_blocks_def)

lemma free_law:
  assumes "heap_ok K" and "(p, n) \<in> live_blocks K"
  shows "\<exists>K'. free p K = Some K' \<and> heap_ok K' \<and> live_blocks K' = live_blocks K - {(p, n)} \<and> heap_tail K' = heap_tail K"
  using klfree_law [OF assms] live_above(1) [OF assms] by (simp add: free_def)

section \<open>Blocks do not overlap\<close>

lemma cell_block:
  assumes "layout_ok S t" and "S b = Some (of_nat k)" and "k < 10" and "p \<in> set (cells b k)"
    and "unat p \<le> x" and "x < unat p + 2 ^ (k + 2)"
  shows "unat b \<le> x \<and> x < unat b + extent (of_nat k)"
  using cells_in_page [OF assms(1-4)] extent_bucket [OF assms(3)] assms(5,6) by linarith

lemma cell_no_cell:
  assumes lay: "layout_ok S t" and b: "S b = Some (of_nat k)" "k < 10" "p \<in> set (cells b k)"
    and c: "S c = Some (of_nat j)" "j < 10" "q \<in> set (cells c j)" and "p \<noteq> q"
    and x: "unat p \<le> x" "x < unat p + 2 ^ (k + 2)"
  shows "\<not> (unat q \<le> x \<and> x < unat q + 2 ^ (j + 2))"
proof (cases "b = c")
  case True
  then have "j = k" using b c bucket_inj [OF c(2) b(2)] by simp
  moreover have "x \<in> {unat p..<unat p + 2 ^ (k + 2)}" using x by simp
  ultimately show ?thesis
    using cells_disjoint [OF cells_in_page(3) [OF lay b] b(2,3) c(3) [folded True, unfolded \<open>j = k\<close>] assms(8)] by auto
next
  case False
  have "\<not> (unat c \<le> x \<and> x < unat c + extent (of_nat j))"
    using regions_disjoint [OF lay b(1) c(1) False] cell_block [OF lay b x] by blast
  then show ?thesis
    using cell_block [OF lay c, of x] by blast
qed

lemma block_no_cell:
  assumes ok: "heap_ok K" and p: "(p, n) \<in> live_blocks K"
    and c: "sizes K c = Some (of_nat j)" "j < 10" "q \<in> set (cells c j)" and "p \<noteq> q"
    and x: "unat p \<le> x" "x < unat p + n"
  shows "\<not> (unat q \<le> x \<and> x < unat q + 2 ^ (j + 2))"
proof -
  have lay: "layout_ok (sizes K) (heap_tail K)" using ok by (simp add: heap_ok_def)
  show ?thesis
  proof (cases "(p, n) \<in> small_live K")
    case True
    then obtain b k where "n = 2 ^ (k + 2)" "k < 10" "sizes K b = Some (of_nat k)" "p \<in> set (cells b k)"
      unfolding small_live_def by blast
    then show ?thesis
      using cell_no_cell [OF lay _ _ _ c assms(6)] x by blast
  next
    case False
    then obtain b s where b: "p = b + 48" "n = unat s" "sizes K b = Some s" "\<not> s < 10"
      using p unfolding live_blocks_def big_live_def by blast
    note f = big_facts [OF ok b(3,4)]
    have "b \<noteq> c" using b(3,4) c(1) of_nat_bucket(2) [OF c(2)] by auto
    moreover have "unat b \<le> x" "x < unat b + extent s"
      using x f(4) b by (auto simp: extent_def)
    ultimately have "\<not> (unat c \<le> x \<and> x < unat c + extent (of_nat j))"
      using regions_disjoint [OF lay b(3) c(1)] by blast
    then show ?thesis
      using cell_block [OF lay c, of x] by blast
  qed
qed

lemma block_no_big:
  assumes ok: "heap_ok K" and p: "(p, n) \<in> live_blocks K" and c: "sizes K c = Some s" "\<not> s < 10" and "p \<noteq> c + 48"
    and x: "unat p \<le> x" "x < unat p + n"
  shows "\<not> (unat (c + 48) \<le> x \<and> x < unat (c + 48) + unat s)"
proof -
  have lay: "layout_ok (sizes K) (heap_tail K)" using ok by (simp add: heap_ok_def)
  note f = big_facts [OF ok c]
  obtain b s' where b: "b \<noteq> c" "sizes K b = Some s'" "unat b \<le> x" "x < unat b + extent s'"
  proof (cases "(p, n) \<in> small_live K")
    case True
    then obtain b k where b: "n = 2 ^ (k + 2)" "k < 10" "sizes K b = Some (of_nat k)" "p \<in> set (cells b k)"
      unfolding small_live_def by blast
    then have "b \<noteq> c" using c of_nat_bucket(2) [OF b(2)] by auto
    then show ?thesis
      using cell_block [OF lay b(3,2,4)] x b that by blast
  next
    case False
    then obtain b s' where b: "p = b + 48" "n = unat s'" "sizes K b = Some s'" "\<not> s' < 10"
      using p unfolding live_blocks_def big_live_def by blast
    then show ?thesis
      using that [of b s'] big_facts(4) [OF ok b(3,4)] x assms(5) by (auto simp: extent_def)
  qed
  have "\<not> (unat c \<le> x \<and> x < unat c + extent s)"
    using regions_disjoint [OF lay b(2) c(1) b(1,3,4)] .
  then show ?thesis
    using f(4) c(2) by (auto simp: extent_def)
qed

lemma small_live_cell:
  assumes "heap_ok K" and "sizes K c = Some (of_nat j)" and "j < 10" and "p \<in> set (cells c j)" and "(p, n) \<in> live_blocks K"
  shows "n = 2 ^ (j + 2) \<and> p \<notin> set (free_cells (kh_links K) (head_of K c))"
proof -
  obtain h where sb: "small_bin K c h j"
    using assms(1-3) by (auto simp: small_bin_def sizes_def)
  have "(p, n) \<notin> big_live K"
    using big_cell [OF sb] assms(4) by (auto simp: big_live_def big_bin_def)
  then obtain b k where b: "n = 2 ^ (k + 2)" "k < 10" "sizes K b = Some (of_nat k)" "p \<in> set (cells b k)"
    "p \<notin> set (free_cells (kh_links K) (head_of K b))"
    using assms(5) unfolding live_blocks_def small_live_def by blast
  have "b = c"
    using other_cells [OF sb b(3,2) _ b(4)] assms(4) by blast
  moreover from this have "k = j"
    using b(2,3) assms(2,3) bucket_inj [of k j] by simp
  ultimately show ?thesis using b by simp
qed

lemma live_size_unique:
  assumes ok: "heap_ok K" and "(p, n) \<in> live_blocks K" and "(p, m) \<in> live_blocks K"
  shows "n = m"
proof (cases "(p, n) \<in> small_live K")
  case True
  then obtain b k where "n = 2 ^ (k + 2)" "k < 10" "sizes K b = Some (of_nat k)" "p \<in> set (cells b k)"
    unfolding small_live_def by blast
  then show ?thesis
    using small_live_cell [OF ok _ _ _ assms(3)] by blast
next
  case False
  then obtain b s where b: "p = b + 48" "n = unat s" "sizes K b = Some s" "\<not> s < 10" "(p, n) \<in> big_live K"
    using assms(2) unfolding live_blocks_def big_live_def by blast
  have "(p, m) \<notin> small_live K"
  proof
    assume "(p, m) \<in> small_live K"
    then obtain c k where "k < 10" "sizes K c = Some (of_nat k)" "p \<in> set (cells c k)"
      unfolding small_live_def by blast
    moreover from this obtain h where "small_bin K c h k"
      using ok by (auto simp: small_bin_def sizes_def)
    ultimately show False
      using big_cell b by (auto simp: big_bin_def)
  qed
  then have "(p, m) \<in> big_live K" using assms(3) by (simp add: live_blocks_def)
  then show ?thesis using b by (auto simp: big_live_iff)
qed

lemma live_disjoint:
  assumes ok: "heap_ok K" and p: "(p, n) \<in> live_blocks K" and q: "(q, m) \<in> live_blocks K" and "(p, n) \<noteq> (q, m)"
  shows "p \<noteq> q" and "{unat p..<unat p + n} \<inter> {unat q..<unat q + m} = {}"
proof -
  show "p \<noteq> q" using live_size_unique [OF ok, of p n m] p q assms(4) by auto
  show "{unat p..<unat p + n} \<inter> {unat q..<unat q + m} = {}"
  proof (cases "(q, m) \<in> small_live K")
    case True
    then obtain c j where "m = 2 ^ (j + 2)" "j < 10" "sizes K c = Some (of_nat j)" "q \<in> set (cells c j)"
      unfolding small_live_def by blast
    then have "x \<notin> {unat q..<unat q + m}" if "x \<in> {unat p..<unat p + n}" for x
      using block_no_cell [OF ok p _ _ _ \<open>p \<noteq> q\<close>, of c j x] that by simp
    then show ?thesis by blast
  next
    case False
    then obtain c s where "q = c + 48" "m = unat s" "sizes K c = Some s" "\<not> s < 10"
      using q unfolding live_blocks_def big_live_def by blast
    then have "x \<notin> {unat q..<unat q + m}" if "x \<in> {unat p..<unat p + n}" for x
      using block_no_big [OF ok p, of c s x] \<open>p \<noteq> q\<close> that by simp
    then show ?thesis by blast
  qed
qed

section \<open>The owner of a block may write into it\<close>

lemma owner_writes:
  assumes ok: "heap_ok K" and p: "(p, n) \<in> live_blocks K"
    and m: "\<And>a. \<not> (unat p \<le> unat a \<and> unat a < unat p + n) \<Longrightarrow> m a = kh_links K a"
  shows "heap_ok (K\<lparr>kh_links := m\<rparr>)" and "live_blocks (K\<lparr>kh_links := m\<rparr>) = live_blocks K"
proof -
  let ?K = "K\<lparr>kh_links := m\<rparr>"
  have v: "sizes ?K = sizes K" "head_of ?K = head_of K" "next_of ?K = next_of K" "fwd ?K = fwd K" "size_of ?K = size_of K"
    "big_node ?K = big_node K" "big_bin ?K = big_bin K"
    by (auto simp: fun_eq_iff sizes_def head_of_def next_of_def fwd_def size_of_def big_node_def big_bin_def)
  have bin: "bin_ok m c j (head_of K c) \<and> free_cells m (head_of K c) = free_cells (kh_links K) (head_of K c)"
    if c: "sizes K c = Some (of_nat j)" "j < 10" for c j
  proof -
    obtain xs where xs: "free_cells (kh_links K) (head_of K c) = xs" "chain (kh_links K) (head_of K c) xs" "distinct xs"
      "set xs \<subseteq> set (cells c j)"
      using bin_at [OF ok c] by (rule bin_okE)
    have "m q = kh_links K q" if q: "q \<in> set xs" for q
    proof (rule m)
      have qc: "q \<in> set (cells c j)" using q xs(4) by auto
      have "p \<noteq> q" using small_live_cell [OF ok c _ p] qc q xs(1) by auto
      have "(0 :: nat) < 2 ^ (j + 2)" by simp
      then show "\<not> (unat p \<le> unat q \<and> unat q < unat p + n)"
        using block_no_cell [OF ok p c qc \<open>p \<noteq> q\<close>, of "unat q"] by auto
    qed
    then have "chain m (head_of K c) xs"
      using xs(2) chain_cong [of xs m "kh_links K"] by blast
    then show ?thesis
      using xs bin_okI free_cells_eq c(2) by metis
  qed
  have "small_ok K" using ok by (simp add: heap_ok_def)
  then have "small_ok ?K"
    using bin unfolding small_ok_def v by simp
  moreover have "big_ok ?K"
  proof -
    have bg: "big_ok K" using ok by (simp add: heap_ok_def)
    then obtain ns ht where n: "skip_list K ns ht" "set ns = {b. big_bin K b \<and> head_of K b \<noteq> NULL}"
      by (auto simp: big_ok_def)
    have "skip_list ?K ns ht"
      by (rule skip_list_cong [OF n(1)]) (simp_all add: v)
    moreover have "m (c + 48) = kh_links K (c + 48)" if c: "big_bin K c" "head_of K c \<noteq> NULL" for c
    proof (rule m)
      obtain s where s: "sizes K c = Some s" "\<not> s < 10" using c(1) by (auto simp: big_bin_def)
      have "p \<noteq> c + 48"
      proof
        assume pc: "p = c + 48"
        have "(p, n) \<notin> big_live K" using c(2) pc by (auto simp: big_live_iff)
        then obtain b k where b: "k < 10" "sizes K b = Some (of_nat k)" "p \<in> set (cells b k)"
          using p unfolding live_blocks_def small_live_def by blast
        then obtain h where "small_bin K b h k" using ok by (auto simp: small_bin_def sizes_def)
        then show False using big_cell c(1) b(3) pc by blast
      qed
      then show "\<not> (unat p \<le> unat (c + 48) \<and> unat (c + 48) < unat p + n)"
        using block_no_big [OF ok p s, of "unat (c + 48)"] big_facts(3) [OF ok s] by auto
    qed
    ultimately show ?thesis
      using bg n(2) unfolding big_ok_def v by auto
  qed
  ultimately show "heap_ok ?K"
    using ok by (simp add: heap_ok_def v)
  have "small_live ?K = small_live K"
  proof -
    have "q \<notin> set (free_cells m (head_of K b)) \<longleftrightarrow> q \<notin> set (free_cells (kh_links K) (head_of K b))"
      if "k < 10" "sizes K b = Some (of_nat k)" for q b k
      using bin [OF that(2,1)] by simp
    then show ?thesis
      unfolding small_live_def v by (auto 0 4)
  qed
  then show "live_blocks ?K = live_blocks K"
    by (simp add: live_blocks_def big_live_def v)
qed

end
