(* ===== verification/Heap_Client.thy ===== *)
theory Heap_Client
  imports Heap_Laws
begin

text \<open>
  The allocator as an interface.  A client that asks for blocks and gives back blocks it holds is always
  served while the address space lasts, whatever the order of its requests.
\<close>

section \<open>The interface\<close>

text \<open>\<open>top\<close> is the part of the address space in use, \<open>cost\<close> bounds what a request can add to it.\<close>

locale allocator =
  fixes ok :: "'s \<Rightarrow> bool" and live_blocks :: "'s \<Rightarrow> (ptr \<times> nat) set" and top :: "'s \<Rightarrow> nat" and cost :: "u32 \<Rightarrow> nat"
    and alloc :: "u32 \<Rightarrow> 's \<Rightarrow> (ptr \<times> 's) option" and dealloc :: "ptr \<Rightarrow> 's \<Rightarrow> 's option"
  assumes alloc_ok: "ok s \<Longrightarrow> sz \<noteq> 0 \<Longrightarrow> top s + cost sz < 2 ^ 32 \<Longrightarrow> \<exists>p n s'. alloc sz s = Some (p, s') \<and> ok s'
      \<and> unat sz \<le> n \<and> (p, n) \<notin> live_blocks s \<and> live_blocks s' = insert (p, n) (live_blocks s) \<and> top s' \<le> top s + cost sz"
    and dealloc_ok: "ok s \<Longrightarrow> (p, n) \<in> live_blocks s \<Longrightarrow> \<exists>s'. dealloc p s = Some s' \<and> ok s' \<and> live_blocks s' = live_blocks s - {(p, n)} \<and> top s' = top s"
    and disjoint: "ok s \<Longrightarrow> (p, n) \<in> live_blocks s \<Longrightarrow> (q, m) \<in> live_blocks s \<Longrightarrow> (p, n) \<noteq> (q, m) \<Longrightarrow>
      {unat p..<unat p + n} \<inter> {unat q..<unat q + m} = {}"

text \<open>The requests of a client: a block of a size, or the return of the \<open>i\<close>th of the blocks it holds.\<close>

datatype request = Get u32 | Put nat

fun serve :: "(u32 \<Rightarrow> 's \<Rightarrow> (ptr \<times> 's) option) \<Rightarrow> (ptr \<Rightarrow> 's \<Rightarrow> 's option) \<Rightarrow> request list \<Rightarrow> ptr list \<Rightarrow> 's \<Rightarrow>
    (ptr list \<times> 's) option" where
  "serve al fr [] held s = Some (held, s)"
| "serve al fr (Get z # rs) held s = do { (p, s) \<leftarrow> al z s; serve al fr rs (held @ [p]) s }"
| "serve al fr (Put i # rs) held s = (if i < length held
     then do { s \<leftarrow> fr (held ! i) s; serve al fr rs (take i held @ drop (Suc i) held) s }
     else serve al fr rs held s)"

fun demand :: "(u32 \<Rightarrow> nat) \<Rightarrow> request list \<Rightarrow> nat" where
  "demand c [] = 0"
| "demand c (Get z # rs) = c z + demand c rs"
| "demand c (Put i # rs) = demand c rs"

context allocator
begin

lemma serve_ok:
  assumes "ok s" and "Get 0 \<notin> set rs" and "top s + demand cost rs < 2 ^ 32"
    and "map fst B = held" and "distinct B" and "set B \<subseteq> live_blocks s"
  shows "\<exists>held' s' B'. serve alloc dealloc rs held s = Some (held', s') \<and> ok s' \<and> map fst B' = held' \<and> distinct B'
    \<and> set B' \<subseteq> live_blocks s' \<and> live_blocks s' - set B' = live_blocks s - set B"
  using assms
proof (induction rs arbitrary: s held B)
  case Nil
  then show ?case by auto
next
  case (Cons r rs)
  show ?case
  proof (cases r)
    case (Get z)
    then obtain p n s1 where s1: "alloc z s = Some (p, s1)" "ok s1" "(p, n) \<notin> live_blocks s" "live_blocks s1 = insert (p, n) (live_blocks s)"
      "top s1 \<le> top s + cost z"
      using alloc_ok [OF Cons.prems(1), of z] Cons.prems(2,3) by auto
    have "\<exists>held' s' B'. serve alloc dealloc rs (held @ [p]) s1 = Some (held', s') \<and> ok s' \<and> map fst B' = held' \<and> distinct B'
      \<and> set B' \<subseteq> live_blocks s' \<and> live_blocks s' - set B' = live_blocks s1 - set (B @ [(p, n)])"
      by (rule Cons.IH) (use Cons.prems s1 Get in auto)
    moreover have "live_blocks s1 - set (B @ [(p, n)]) = live_blocks s - set B"
      using s1(3,4) Cons.prems(6) by auto
    ultimately show ?thesis
      using Get s1(1) by simp
  next
    case (Put i)
    show ?thesis
    proof (cases "i < length held")
      case False
      then show ?thesis using Cons Put by simp
    next
      case True
      then have i: "i < length B" "held ! i = fst (B ! i)" using Cons.prems(4) by auto
      obtain p n where b: "B ! i = (p, n)" by force
      then have "(p, n) \<in> live_blocks s" using Cons.prems(6) i(1) nth_mem by fastforce
      then obtain s1 where s1: "dealloc p s = Some s1" "ok s1" "live_blocks s1 = live_blocks s - {(p, n)}" "top s1 = top s"
        using dealloc_ok [OF Cons.prems(1)] by blast
      let ?B = "take i B @ drop (Suc i) B"
      have split: "B = take i B @ (p, n) # drop (Suc i) B"
        using id_take_nth_drop [OF i(1)] b by simp
      have d: "distinct (take i B @ (p, n) # drop (Suc i) B)" "set (take i B @ (p, n) # drop (Suc i) B) \<subseteq> live_blocks s"
        using Cons.prems(5,6) split by metis+
      then have B: "distinct ?B" "set ?B \<subseteq> live_blocks s1" "live_blocks s1 - set ?B = live_blocks s - set (take i B @ (p, n) # drop (Suc i) B)"
        using s1(3) by auto
      have "map fst ?B = take i held @ drop (Suc i) held"
        using Cons.prems(4) by (auto simp: take_map drop_map)
      then have "\<exists>held' s' B'. serve alloc dealloc rs (take i held @ drop (Suc i) held) s1 = Some (held', s') \<and> ok s'
        \<and> map fst B' = held' \<and> distinct B' \<and> set B' \<subseteq> live_blocks s' \<and> live_blocks s' - set B' = live_blocks s1 - set ?B"
        using Cons.prems s1 B Put by (intro Cons.IH) auto
      then show ?thesis
        using Put True i(2) b s1(1) B(3) split by simp
    qed
  qed
qed

text \<open>A client that starts with nothing and ends with nothing leaves the allocated blocks as they were.\<close>

lemma serve_balanced:
  assumes "ok s" and "Get 0 \<notin> set rs" and "top s + demand cost rs < 2 ^ 32"
  shows "\<exists>held s' B. serve alloc dealloc rs [] s = Some (held, s') \<and> ok s' \<and> map fst B = held \<and> distinct B
    \<and> live_blocks s' = live_blocks s \<union> set B \<and> live_blocks s \<inter> set B = {}"
proof -
  obtain held s' B where r: "serve alloc dealloc rs [] s = Some (held, s')" "ok s'" "map fst B = held" "distinct B"
    "set B \<subseteq> live_blocks s'" "live_blocks s' - set B = live_blocks s"
    using serve_ok [OF assms, of "[]" "[]"] by auto
  have "live_blocks s' = live_blocks s \<union> set B" "live_blocks s \<inter> set B = {}"
    using r(5,6) by auto
  with r show ?thesis by blast
qed

text \<open>No two blocks that a client holds share a byte, and none with a block of somebody else.\<close>

lemma held_disjoint:
  assumes "ok s" and "B ! i = (p, n)" and "i < length B" and "distinct B" and "set B \<subseteq> live_blocks s" and "(q, m) \<in> live_blocks s - {B ! i}"
  shows "{unat p..<unat p + n} \<inter> {unat q..<unat q + m} = {}"
  using assms nth_mem [of i B] by (intro disjoint) auto

end

interpretation slab: allocator heap_ok live_blocks "\<lambda>K. unat (heap_tail K)" "\<lambda>sz. unat sz + 4144" malloc free
proof unfold_locales
  fix K sz
  assume "heap_ok K" "sz \<noteq> (0 :: u32)" "unat (heap_tail K) + (unat sz + 4144) < 2 ^ 32"
  then show "\<exists>p n K'. malloc sz K = Some (p, K') \<and> heap_ok K' \<and> unat sz \<le> n \<and> (p, n) \<notin> live_blocks K \<and> live_blocks K' = insert (p, n) (live_blocks K)
      \<and> unat (heap_tail K') \<le> unat (heap_tail K) + (unat sz + 4144)"
    by (rule malloc_law)
next
  fix K p n
  assume "heap_ok K" "(p, n) \<in> live_blocks K"
  then show "\<exists>K'. free p K = Some K' \<and> heap_ok K' \<and> live_blocks K' = live_blocks K - {(p, n)} \<and> unat (heap_tail K') = unat (heap_tail K)"
    using free_law by metis
next
  fix K p n q m
  assume "heap_ok K" "(p, n) \<in> live_blocks K" "(q, m) \<in> live_blocks K" "(p, n) \<noteq> (q, m)"
  then show "{unat p..<unat p + n} \<inter> {unat q..<unat q + m} = {}"
    by (rule live_disjoint(2))
qed

section \<open>realloc and valloc\<close>

lemma realloc_law:
  assumes ok: "heap_ok K" and p: "(p, n) \<in> live_blocks K" and sz: "sz \<noteq> 0"
    and room: "unat (heap_tail K) + (unat sz + 4144) < 2 ^ 32"
  shows "if unat sz \<le> n then realloc p sz K = Some (p, 0, K)
    else \<exists>q m K'. realloc p sz K = Some (q, of_nat n, K') \<and> heap_ok K' \<and> unat sz \<le> m \<and> (q, m) \<notin> live_blocks K
      \<and> live_blocks K' = insert (q, m) (live_blocks K - {(p, n)})"
proof -
  note a = live_above [OF ok p]
  have lay: "layout_ok (sizes K) (heap_tail K)" using ok by (simp add: heap_ok_def)
  obtain h where h: "rd_header K (page_of p) = Some h"
    and old: "(if unat (hd_size h) < BIG_BIN then 2 ^ (SMALLEST_BIN_LOG + unat (hd_size h)) else hd_size h) = of_nat n" "unat (of_nat n :: u32) = n"
  proof (cases "(p, n) \<in> small_live K")
    case True
    then obtain b k where b: "n = 2 ^ (k + 2)" "k < 10" "sizes K b = Some (of_nat k)" "p \<in> set (cells b k)"
      unfolding small_live_def by blast
    then obtain h where h: "small_bin K b h k" "kh_headers K b = Some h" "hd_size h = of_nat k"
      using ok by (auto simp: small_bin_def sizes_def)
    have "n \<le> 4096" using cells_in_page [OF lay b(3,2,4)] b(1) by linarith
    then have n: "unat (of_nat n :: u32) = n" by (intro unat_of_nat_small) simp
    have k: "unat (hd_size h) = k" using h(3) of_nat_bucket(1) [OF b(2)] by simp
    have "(2 :: u32) ^ (2 + k) = of_nat n" by (simp add: b(1) power_add)
    then have "(if unat (hd_size h) < BIG_BIN then 2 ^ (SMALLEST_BIN_LOG + unat (hd_size h)) else hd_size h) = of_nat n"
      using b(2) by (simp only: k BIG_BIN_def SMALLEST_BIN_LOG_def if_True)
    moreover have "rd_header K (page_of p) = Some h"
      using cell_asserts(6,7) [OF h(1) b(4)] h(2) by (simp add: rd_header_def)
    ultimately show ?thesis using n that by blast
  next
    case False
    then obtain b s where b: "p = b + 48" "n = unat s" "sizes K b = Some s" "\<not> s < 10"
      using p unfolding live_blocks_def big_live_def by blast
    note f = big_facts [OF ok b(3,4)]
    obtain h where h: "kh_headers K b = Some h" "hd_size h = s" using b(3) by (auto simp: sizes_def)
    show ?thesis
      using that [of h] f(3,8,13) h b(1,2) by (simp add: rd_header_def BIG_BIN_def)
  qed
  have le: "sz \<le> of_nat n \<longleftrightarrow> unat sz \<le> n" by (simp add: word_le_nat_alt old(2))
  show ?thesis
  proof (cases "unat sz \<le> n")
    case True
    then show ?thesis
      using h old(1) le a(4) sz by (simp add: realloc_def klrealloc_def Let_def)
  next
    case False
    obtain q m K1 where K1: "malloc sz K = Some (q, K1)" "heap_ok K1" "unat sz \<le> m" "(q, m) \<notin> live_blocks K" "live_blocks K1 = insert (q, m) (live_blocks K)"
      using malloc_law [OF ok sz room] by blast
    have "(p, n) \<in> live_blocks K1" using p K1(5) by simp
    then obtain K2 where K2: "klfree p K1 = Some K2" "heap_ok K2" "live_blocks K2 = live_blocks K1 - {(p, n)}"
      using klfree_law [OF K1(2)] by blast
    have "q \<noteq> NULL" using live_above(4) [OF K1(2), of q m] K1(5) by simp
    then have "realloc p sz K = Some (q, of_nat n, K2)"
      using False h old(1) le a(4) sz K1(1) K2(1) by (simp add: realloc_def klrealloc_def Let_def malloc_def)
    moreover have "live_blocks K2 = insert (q, m) (live_blocks K - {(p, n)})"
      using K2(3) K1(4,5) p by auto
    ultimately show ?thesis using False K1 K2 by auto
  qed
qed

text \<open>\<^verbatim>\<open>valloc\<close> hands out the second page of a big_bin block; \<^verbatim>\<open>free\<close> finds the block again.\<close>

lemma klfree_big_any:
  assumes ok: "heap_ok K" and b: "sizes K b = Some s" "\<not> s < 10"
  shows "klfree (b + PAGE_SIZE) K = klfree (b + 48) K"
proof -
  note f = big_facts [OF ok b]
  have lim: "unat b + 4096 < 2 ^ 32"
    using f(3,6) unat_bound [of "heap_tail K"] by simp
  have u: "unat (b + 4096) = unat b + 4096"
    using unat_add_small [of b 4096] lim by simp
  then have "b + 4096 \<noteq> 0" by auto
  moreover have "(b + 4096) mod 4096 = 0"
    using aligned_iff [of "b + 4096"] f(7) u by (simp add: aligned_def)
  moreover have "unat (4095 + b) = unat b + 4095"
    using unat_add_small [of b 4095] lim by (simp add: add.commute)
  then have "page_of (4095 + b) = b"
    by (intro page_of_in f(7)) simp_all
  moreover have "b + 4096 - 1 = 4095 + b" by simp
  moreover obtain h where "kh_headers K b = Some h" "hd_size h = s" using b(1) by (auto simp: sizes_def)
  ultimately show ?thesis
    using f(2,8-10,13) by (simp add: klfree_def Let_def rd_header_def NUM_BINS_def)
qed

lemma valloc_law:
  assumes ok: "heap_ok K" and sz: "unat sz + 4048 < 2 ^ 32"
    and room: "unat (heap_tail K) + (unat sz + 8192) < 2 ^ 32"
  shows "\<exists>q p n K'. valloc sz K = Some (q, K') \<and> unat q mod 4096 = 0 \<and> unat q = unat p + 4048 \<and> unat sz + 4048 \<le> n
    \<and> heap_ok K' \<and> (p, n) \<notin> live_blocks K \<and> live_blocks K' = insert (p, n) (live_blocks K)
    \<and> (\<exists>K''. klfree q K' = Some K'' \<and> heap_ok K'' \<and> live_blocks K'' = live_blocks K)"
proof -
  let ?s = "sz + PAGE_SIZE - big_header_size"
  have s: "?s = sz + 4048" by simp
  have u: "unat ?s = unat sz + 4048"
    unfolding s using unat_add_small [of sz 4048] sz by simp
  have s0: "?s \<noteq> 0" using u by (metis add_is_0 unsigned_0 zero_neq_numeral)
  have bin: "klmalloc_bin_size ?s = BIG_BIN"
    by (rule bin_size_bucket(2)) (use u in simp_all)
  obtain b n K' where m: "klmalloc_big ?s K = Some (b + 48, K')" "heap_ok K'" "unat ?s \<le> n" "(b + 48, n) \<notin> live_blocks K"
    "live_blocks K' = insert (b + 48, n) (live_blocks K)"
    using big_alloc [OF ok, of ?s] room u by auto
  have "(b + 48, n) \<in> live_blocks K'" using m(5) by simp
  moreover have "(b + 48, n) \<notin> small_live K'"
  proof
    assume "(b + 48, n) \<in> small_live K'"
    then obtain k where k: "n = 2 ^ (k + 2)" "k < 10" unfolding small_live_def by blast
    then have "n \<le> 2 ^ 11" unfolding k(1) by (intro power_increasing) auto
    then show False using m(3) u by simp
  qed
  ultimately obtain s where s: "sizes K' b = Some s" "\<not> s < 10" "n = unat s"
    by (auto simp: live_blocks_def big_live_iff)
  note f = big_facts [OF m(2) s(1,2)]
  have lim: "unat b + 4096 < 2 ^ 32"
    using f(3,6) unat_bound [of "heap_tail K'"] by simp
  have q: "unat (b + PAGE_SIZE) = unat b + 4096"
    using unat_add_small [of b 4096] lim by simp
  then have al: "unat (b + PAGE_SIZE) mod 4096 = 0" using f(7) by simp
  then have "(b + PAGE_SIZE) mod PAGE_SIZE = 0"
    using aligned_iff [of "b + PAGE_SIZE"] by (simp add: aligned_def)
  then have run: "valloc sz K = Some (b + PAGE_SIZE, K')"
    using m(1) s0 bin by (simp add: valloc_def klvalloc_def klmalloc_def Let_def assert_def add.commute)
  obtain K'' where K'': "klfree (b + 48) K' = Some K''" "heap_ok K''" "live_blocks K'' = live_blocks K' - {(b + 48, n)}"
    using klfree_law [OF m(2), of "b + 48" n] m(5) by auto
  have "klfree (b + PAGE_SIZE) K' = Some K''" "live_blocks K'' = live_blocks K"
    using klfree_big_any [OF m(2) s(1,2)] K''(1,3) m(4,5) by auto
  then show ?thesis
    using run al q f(4) m u K''(2) by (intro exI [of _ "b + PAGE_SIZE"] exI [of _ "b + 48"] exI [of _ n] exI [of _ K']) simp
qed

section \<open>Requests near the end of the address space\<close>

text \<open>The computation of the number of pages wraps around: the block has one page.\<close>

lemma malloc_wraps:
  assumes ok: "heap_ok K" and sz: "0xFFFFFFD0 \<le> sz" and room: "unat (heap_tail K) + 4096 < 2 ^ 32"
  shows "\<exists>K'. malloc sz K = Some (heap_tail K + 48, K') \<and> sizes K' (heap_tail K) = Some 4048"
proof -
  have z: "2 ^ 32 - 48 \<le> unat sz" using sz by (simp add: word_le_nat_alt)
  then have "0 < unat sz" "2048 < unat sz" by auto
  then have bin: "klmalloc_bin_size sz = BIG_BIN" "sz \<noteq> 0"
    using bin_size_bucket(2) [of sz] by auto
  obtain ns ht where n: "skip_list K ns ht" "set ns = {c. big_bin K c \<and> head_of K c \<noteq> NULL}"
    using ok by (auto simp: heap_ok_def big_ok_def)
  have "size_of K c < sz" if c: "c \<in> set ns" for c
  proof -
    obtain s where s: "sizes K c = Some s" "\<not> s < 10" using n(2) c by (auto simp: big_bin_def)
    have "unat s + 48 < 2 ^ 32"
      using big_facts(6) [OF ok s] unat_bound [of "heap_tail K"] by simp
    then have "s < sz" using z by (simp add: word_less_nat_alt)
    moreover have "size_of K c = s" using s(1) by (auto simp: sizes_def size_of_def)
    ultimately show ?thesis by simp
  qed
  then have e: "dropWhile (\<lambda>n. size_of K n < sz) ns = []"
    by (simp add: dropWhile_eq_Nil_conv)
  have "klmalloc_skip_list_findbest sz K = Some NULL"
    using findbest [OF n(1), of sz] unfolding e by simp
  moreover have "(sz + 48) div 4096 = 0"
  proof -
    have "unat (sz + 48) = (unat sz + 48) mod 2 ^ 32" by (simp add: unat_word_ariths)
    also have "\<dots> = unat sz + 48 - 2 ^ 32"
      using z unat_bound [of sz] by (simp add: mod_if)
    also have "\<dots> < 4096" using unat_bound [of sz] by simp
    finally show ?thesis by (simp add: word_arith_nat_div)
  qed
  moreover have "aligned (heap_tail K)"
    using ok by (simp add: heap_ok_def layout_ok_def aligned_iff)
  moreover have "kh_newest K = NULL \<or> (\<exists>h. kh_headers K (kh_newest K) = Some h)"
    using ok by (auto simp: heap_ok_def big_ok_def big_bin_def sizes_def)
  ultimately show ?thesis
    using bin by (auto simp: malloc_def klmalloc_def klmalloc_big_def Let_def sbrk_def assert_def aligned_def [symmetric]
        page_sized_def rd_header_def wr_header_def sizes_def) (simp_all add: aligned_def)
qed

end
