(* ===== verification/Paging.thy ===== *)
theory Paging
  imports Kernel_Heap
begin

text \<open>
  Page tables and the memory manager of \<^verbatim>\<open>src/src/memory/mem.cpp\<close>.  Directories and tables are objects at
  addresses; whether the null page can be read (before paging it can) is a matter of the state, which may
  have a table at address 0.  The code calls the page a mapping is stored under the physical address and the
  frame it is mapped to the virtual one; the names are kept.
\<close>

section \<open>Pages, tables, directories\<close>

definition PAGES_PER_TABLE :: nat where "PAGES_PER_TABLE = 1024"
definition TABLES_PER_DIR :: nat where "TABLES_PER_DIR = 1024"
definition KERNEL_HEAP_INIT :: u32 where "KERNEL_HEAP_INIT = 0x00800000"
definition STACK_SIZE :: u32 where "STACK_SIZE = 40"
definition USER_STACK_BOTTOM :: u32 where "USER_STACK_BOTTOM = 0xAF00000"
definition PAGING_SHM_START :: u32 where "PAGING_SHM_START = 0xB000000"

record page =
  pg_present :: bool
  pg_rw :: bool
  pg_user :: bool
  pg_writethrough :: bool
  pg_cachedisabled :: bool
  pg_accessed :: bool
  pg_dirty :: bool
  pg_unused1 :: bool
  pg_global :: bool
  pg_unused2 :: "3 word"
  phys_addr :: "20 word"

record table_entry =
  te_present :: bool
  te_rw :: bool
  te_user :: bool
  te_writethrough :: bool
  te_cachedisabled :: bool
  te_accessed :: bool
  te_unused1 :: bool
  te_page_size :: bool
  te_available :: "4 word"
  table_address :: "20 word"

text \<open>The bit fields in the order of the structure, from bit 0 on.\<close>

definition page_of_word :: "u32 \<Rightarrow> page" where
  "page_of_word w = \<lparr>pg_present = bit w 0, pg_rw = bit w 1, pg_user = bit w 2, pg_writethrough = bit w 3, pg_cachedisabled = bit w 4,
     pg_accessed = bit w 5, pg_dirty = bit w 6, pg_unused1 = bit w 7, pg_global = bit w 8,
     pg_unused2 = ucast (drop_bit 9 w), phys_addr = ucast (drop_bit 12 w)\<rparr>"

definition flag :: "nat \<Rightarrow> bool \<Rightarrow> u32" where
  "flag n b = push_bit n (of_bool b)"

definition field :: "nat \<Rightarrow> 'a::len word \<Rightarrow> u32" where
  "field n w = push_bit n (ucast w)"

definition word_of_page :: "page \<Rightarrow> u32" where
  "word_of_page p = flag 0 (pg_present p) OR flag 1 (pg_rw p) OR flag 2 (pg_user p) OR flag 3 (pg_writethrough p)
     OR flag 4 (pg_cachedisabled p) OR flag 5 (pg_accessed p) OR flag 6 (pg_dirty p) OR flag 7 (pg_unused1 p) OR flag 8 (pg_global p)
     OR field 9 (pg_unused2 p) OR field 12 (phys_addr p)"

definition entry_of_word :: "u32 \<Rightarrow> table_entry" where
  "entry_of_word w = \<lparr>te_present = bit w 0, te_rw = bit w 1, te_user = bit w 2, te_writethrough = bit w 3, te_cachedisabled = bit w 4,
     te_accessed = bit w 5, te_unused1 = bit w 6, te_page_size = bit w 7,
     te_available = ucast (drop_bit 8 w), table_address = ucast (drop_bit 12 w)\<rparr>"

definition zero_page :: page where "zero_page = page_of_word 0"
definition zero_entry :: table_entry where "zero_entry = entry_of_word 0"

record directory =
  table_entries :: "table_entry list"
  dir_tables :: "ptr list"

text \<open>The state of the memory manager; \<open>mm_heap\<close> has \<^verbatim>\<open>heap_tail\<close> and \<^verbatim>\<open>frame_ptr\<close>.\<close>

record paging =
  mm_dirs :: "ptr \<Rightarrow> directory option"
  mm_tables :: "ptr \<Rightarrow> page list option"
  mm_heap :: kheap
  kernel_directory :: ptr
  curr_dir :: ptr
  page_count :: u32
  table_count :: u32
  heap_head :: u32
  last_known_newpage :: u32
  is_paging_enabled :: bool

definition table_index :: "u32 \<Rightarrow> nat" where
  "table_index a = unat ((a div PAGE_SIZE) div 1024)"

definition page_index :: "u32 \<Rightarrow> nat" where
  "page_index a = unat ((a div PAGE_SIZE) mod 1024)"

text \<open>\<^verbatim>\<open>TABLE_ENTRY(curr_dir, a)\<close> and \<^verbatim>\<open>PAGE(curr_dir, a)\<close>.\<close>

definition rd_dir :: "paging \<Rightarrow> ptr \<Rightarrow> directory option" where
  "rd_dir M d = (if d = NULL then None else mm_dirs M d)"

definition table_entry_at :: "u32 \<Rightarrow> paging \<Rightarrow> table_entry option" where
  "table_entry_at a M = do { d \<leftarrow> rd_dir M (curr_dir M); Some (table_entries d ! table_index a) }"

definition wr_entry :: "u32 \<Rightarrow> (table_entry \<Rightarrow> table_entry) \<Rightarrow> paging \<Rightarrow> paging option" where
  "wr_entry a f M = do {
     d \<leftarrow> rd_dir M (curr_dir M);
     let es = (table_entries d)[table_index a := f (table_entries d ! table_index a)];
     Some (M\<lparr>mm_dirs := (mm_dirs M)(curr_dir M := Some (d\<lparr>table_entries := es\<rparr>))\<rparr>)
   }"

definition page_at :: "u32 \<Rightarrow> paging \<Rightarrow> page option" where
  "page_at a M = do {
     d \<leftarrow> rd_dir M (curr_dir M);
     t \<leftarrow> mm_tables M (dir_tables d ! table_index a);
     Some (t ! page_index a)
   }"

definition wr_page :: "u32 \<Rightarrow> (page \<Rightarrow> page) \<Rightarrow> paging \<Rightarrow> paging option" where
  "wr_page a f M = do {
     d \<leftarrow> rd_dir M (curr_dir M);
     let p = dir_tables d ! table_index a;
     t \<leftarrow> mm_tables M p;
     Some (M\<lparr>mm_tables := (mm_tables M)(p := Some (t[page_index a := f (t ! page_index a)]))\<rparr>)
   }"

definition map_to_physical :: "u32 \<Rightarrow> paging \<Rightarrow> u32 option" where
  "map_to_physical a M = do { p \<leftarrow> page_at a M; Some (push_bit 12 (ucast (phys_addr p))) }"

section \<open>Memory before the heap exists\<close>

definition kheap_starts :: "u32 \<Rightarrow> paging \<Rightarrow> paging" where
  "kheap_starts a M = M\<lparr>mm_heap := (mm_heap M)\<lparr>frame_ptr := a\<rparr>\<rparr>"

text \<open>The branch of \<^verbatim>\<open>kmalloc\<close> without a heap: the address is also the physical one.\<close>

definition early_kmalloc :: "u32 \<Rightarrow> bool \<Rightarrow> paging \<Rightarrow> u32 \<times> paging" where
  "early_kmalloc sz align M = (let
     f = frame_ptr (mm_heap M);
     f = (if align \<and> f AND 0xFFFFF000 \<noteq> 0 then (f AND 0xFFFFF000) + PAGE_SIZE else f)
     in (f, M\<lparr>mm_heap := (mm_heap M)\<lparr>frame_ptr := f + sz\<rparr>\<rparr>))"

text \<open>
  The allocations the page functions make: \<open>kv sz M\<close> is the address, the physical address, and the new
  state.  While \<^verbatim>\<open>mem_lock\<close> is held, a call to the heap waits for ever.
\<close>

type_synonym page_alloc = "u32 \<Rightarrow> paging \<Rightarrow> (ptr \<times> u32 \<times> paging) option"

definition kvmalloc_locked :: page_alloc where
  "kvmalloc_locked sz M = (if heap_tail (mm_heap M) \<noteq> 0 then None
     else (let (a, M) = early_kmalloc sz True M in Some (a, a, M)))"

section \<open>Tables and pages\<close>

definition alloc_table :: "page_alloc \<Rightarrow> bool \<Rightarrow> bool \<Rightarrow> u32 \<Rightarrow> paging \<Rightarrow> paging option" where
  "alloc_table kv is_kernel is_writeable a M = do {
     (t, phys, M) \<leftarrow> kv 4096 M;
     d \<leftarrow> rd_dir M (curr_dir M);
     let M = M\<lparr>mm_dirs := (mm_dirs M)(curr_dir M := Some (d\<lparr>dir_tables := (dir_tables d)[table_index a := t]\<rparr>)),
       mm_tables := (mm_tables M)(t := Some (replicate PAGES_PER_TABLE zero_page))\<rparr>;
     wr_entry a (\<lambda>e. e\<lparr>table_address := ucast (drop_bit 12 phys), te_rw := is_writeable, te_user := \<not> is_kernel,
       te_present := True, te_page_size := False\<rparr>) M
   }"

definition realloc_table :: "page_alloc \<Rightarrow> bool \<Rightarrow> bool \<Rightarrow> u32 \<Rightarrow> paging \<Rightarrow> paging option" where
  "realloc_table kv is_kernel is_writeable a M = do {
     d \<leftarrow> rd_dir M (curr_dir M);
     if dir_tables d ! table_index a = NULL then alloc_table kv is_kernel is_writeable a M
     else wr_entry a (\<lambda>e. e\<lparr>te_rw := is_writeable, te_user := \<not> is_kernel, te_present := True, te_page_size := False\<rparr>) M
   }"

definition dealloc_table :: "u32 \<Rightarrow> paging \<Rightarrow> paging option" where
  "dealloc_table a M = wr_entry a (\<lambda>e. e\<lparr>te_present := False, te_rw := False, te_user := False\<rparr>) M"

text \<open>The four functions \<^verbatim>\<open>alloc_page\<close>: on a page, at an address for a frame, at its own frame, at the next page.\<close>

definition set_page :: "bool \<Rightarrow> bool \<Rightarrow> u32 \<Rightarrow> page \<Rightarrow> page" where
  "set_page is_kernel is_writeable v p = p\<lparr>phys_addr := ucast (drop_bit 12 v), pg_rw := is_writeable, pg_user := \<not> is_kernel, pg_present := True\<rparr>"

definition alloc_page_map :: "page_alloc \<Rightarrow> bool \<Rightarrow> bool \<Rightarrow> u32 \<Rightarrow> u32 \<Rightarrow> paging \<Rightarrow> paging option" where
  "alloc_page_map kv is_kernel is_writeable a v M = do {
     e \<leftarrow> table_entry_at a M;
     M \<leftarrow> (if \<not> te_present e then alloc_table kv is_kernel is_writeable a M else Some M);
     wr_page a (set_page is_kernel is_writeable v) M
   }"

definition alloc_page_at :: "page_alloc \<Rightarrow> bool \<Rightarrow> bool \<Rightarrow> u32 \<Rightarrow> paging \<Rightarrow> paging option" where
  "alloc_page_at kv is_kernel is_writeable a M = alloc_page_map kv is_kernel is_writeable a a M"

text \<open>\<^verbatim>\<open>DIR_PAGE_ITADDRST\<close>: the bound of the loop is computed in 32 bits.\<close>

definition page_limit :: "paging \<Rightarrow> u32" where
  "page_limit M = 1024 * page_count M * PAGE_SIZE"

partial_function (option) find_page_from :: "u32 \<Rightarrow> paging \<Rightarrow> u32 option" where
  "find_page_from a M = (if a < page_limit M then do {
       p \<leftarrow> page_at a M;
       if \<not> pg_present p then Some a else find_page_from (a + PAGE_SIZE) M }
     else Some 0)"

definition find_new_page :: "paging \<Rightarrow> u32 option" where
  "find_new_page M = find_page_from (last_known_newpage M) M"

definition alloc_page_next :: "page_alloc \<Rightarrow> bool \<Rightarrow> bool \<Rightarrow> paging \<Rightarrow> paging option" where
  "alloc_page_next kv is_kernel is_writeable M = do {
     a \<leftarrow> find_new_page M;
     M \<leftarrow> alloc_page_at kv is_kernel is_writeable (a - PAGE_SIZE) (M\<lparr>last_known_newpage := a\<rparr>);
     Some (M\<lparr>last_known_newpage := last_known_newpage M + PAGE_SIZE\<rparr>)
   }"

text \<open>The loops of \<^verbatim>\<open>alloc_pages\<close>, of \<^verbatim>\<open>sbrk\<close> and of the installation.\<close>

partial_function (option) alloc_pages :: "page_alloc \<Rightarrow> bool \<Rightarrow> bool \<Rightarrow> u32 \<Rightarrow> u32 \<Rightarrow> paging \<Rightarrow> paging option" where
  "alloc_pages kv is_kernel is_writeable a e M = (if a \<le> e then do {
       M \<leftarrow> alloc_page_at kv is_kernel is_writeable a M;
       alloc_pages kv is_kernel is_writeable (a + PAGE_SIZE) e M }
     else Some M)"

partial_function (option) alloc_pages_map :: "page_alloc \<Rightarrow> bool \<Rightarrow> bool \<Rightarrow> u32 \<Rightarrow> u32 \<Rightarrow> u32 \<Rightarrow> paging \<Rightarrow> paging option" where
  "alloc_pages_map kv is_kernel is_writeable a e v M = (if a \<le> e then do {
       M \<leftarrow> alloc_page_map kv is_kernel is_writeable a v M;
       alloc_pages_map kv is_kernel is_writeable (a + PAGE_SIZE) e (v + PAGE_SIZE) M }
     else Some M)"

definition alloc_pages_range :: "page_alloc \<Rightarrow> bool \<Rightarrow> bool \<Rightarrow> u32 \<Rightarrow> u32 \<Rightarrow> u32 \<Rightarrow> u32 \<Rightarrow> paging \<Rightarrow> (bool \<times> paging) option" where
  "alloc_pages_range kv is_kernel is_writeable a e v w M = (if e - a \<noteq> w - v then Some (False, M)
     else do { M \<leftarrow> alloc_pages_map kv is_kernel is_writeable a e v M; Some (True, M) })"

definition dealloc_page_entry :: "page \<Rightarrow> page" where
  "dealloc_page_entry p = p\<lparr>pg_present := False, pg_user := False, pg_rw := False\<rparr>"

definition dealloc_page :: "u32 \<Rightarrow> paging \<Rightarrow> paging option" where
  "dealloc_page a M = do {
     M \<leftarrow> wr_page a (\<lambda>p. p\<lparr>pg_present := False\<rparr>) M;
     Some (M\<lparr>last_known_newpage := a * PAGE_SIZE\<rparr>)
   }"

definition map_page :: "u32 \<Rightarrow> u32 \<Rightarrow> paging \<Rightarrow> paging option" where
  "map_page a v M = wr_page a (\<lambda>p. p\<lparr>phys_addr := ucast (drop_bit 12 v)\<rparr>) M"

text \<open>The invalidation of the translation buffer is not state of the model.\<close>

definition map_page_update :: "u32 \<Rightarrow> u32 \<Rightarrow> paging \<Rightarrow> paging option" where
  "map_page_update a v M = map_page a v M"

section \<open>The end of the heap\<close>

partial_function (option) grow_pages :: "u32 \<Rightarrow> u32 \<Rightarrow> paging \<Rightarrow> paging option" where
  "grow_pages i e M = (if i < e then do {
       M \<leftarrow> alloc_page_next kvmalloc_locked True True M;
       grow_pages (i + PAGE_SIZE) e M }
     else Some M)"

definition sbrk_mapped :: "u32 \<Rightarrow> paging \<Rightarrow> (ptr \<times> paging) option" where
  "sbrk_mapped n M = do {
     let t = heap_tail (mm_heap M);
     M \<leftarrow> (if t + n > heap_head M then grow_pages t (t + n) M else Some M);
     let (a, H) = sbrk n (mm_heap M);
     Some (a, M\<lparr>mm_heap := H\<rparr>)
   }"

text \<open>
  A call of \<^verbatim>\<open>malloc\<close> or \<^verbatim>\<open>valloc\<close>: it moves the end of the heap at most once, and the pages of the growth are
  mapped by the same call, which holds \<^verbatim>\<open>mem_lock\<close>.
\<close>

definition heap_call :: "(kheap \<Rightarrow> (ptr \<times> kheap) option) \<Rightarrow> paging \<Rightarrow> (ptr \<times> paging) option" where
  "heap_call f M = do {
     (p, H) \<leftarrow> f (mm_heap M);
     let n = heap_tail H - heap_tail (mm_heap M);
     M \<leftarrow> (if n = 0 then Some M else do { (_, M) \<leftarrow> sbrk_mapped n M; Some M });
     Some (p, M\<lparr>mm_heap := H\<rparr>)
   }"

text \<open>The physical address is looked up only when the caller asks for it.\<close>

definition kmalloc :: "u32 \<Rightarrow> bool \<Rightarrow> bool \<Rightarrow> paging \<Rightarrow> (ptr \<times> u32 \<times> paging) option" where
  "kmalloc sz align want M = (if heap_tail (mm_heap M) \<noteq> 0
     then do {
       (p, M) \<leftarrow> heap_call (if align then valloc sz else malloc sz) M;
       phys \<leftarrow> (if want then map_to_physical p M else Some 0);
       Some (p, phys, M) }
     else (let (a, M) = early_kmalloc sz align M in Some (a, a, M)))"

definition kvmalloc_p :: page_alloc where
  "kvmalloc_p sz M = kmalloc sz True True M"

definition kmalloc_p :: "u32 \<Rightarrow> paging \<Rightarrow> (ptr \<times> u32 \<times> paging) option" where
  "kmalloc_p sz M = kmalloc sz False True M"

definition kvmalloc :: "u32 \<Rightarrow> paging \<Rightarrow> (ptr \<times> paging) option" where
  "kvmalloc sz M = do { (a, _, M) \<leftarrow> kmalloc sz True False M; Some (a, M) }"

definition kmalloc_plain :: "u32 \<Rightarrow> paging \<Rightarrow> (ptr \<times> paging) option" where
  "kmalloc_plain sz M = do { (a, _, M) \<leftarrow> kmalloc sz False False M; Some (a, M) }"

section \<open>Address spaces\<close>

text \<open>
  \<open>fresh t\<close> is what the memory of a new table holds; the code writes six fields of a present page.  The
  frame of the copy is the frame of the source, so \<^verbatim>\<open>copy_page_physical\<close> copies a frame onto itself.
\<close>

definition clone_page :: "page \<Rightarrow> page \<Rightarrow> page" where
  "clone_page src old = (if \<not> pg_present src then zero_page
     else old\<lparr>phys_addr := phys_addr src, pg_present := pg_present src, pg_rw := pg_rw src, pg_user := pg_user src,
       pg_accessed := pg_accessed src, pg_dirty := pg_dirty src\<rparr>)"

definition clone_table :: "(ptr \<Rightarrow> page list) \<Rightarrow> ptr \<Rightarrow> paging \<Rightarrow> (ptr \<times> u32 \<times> paging) option" where
  "clone_table fresh src M = do {
     (t, phys, M) \<leftarrow> kvmalloc_p 4096 M;
     ps \<leftarrow> mm_tables M src;
     Some (t, phys, M\<lparr>mm_tables := (mm_tables M)(t := Some (map2 clone_page ps (fresh t)))\<rparr>)
   }"

definition set_dir :: "ptr \<Rightarrow> nat \<Rightarrow> ptr \<Rightarrow> table_entry \<Rightarrow> paging \<Rightarrow> paging option" where
  "set_dir nd i t e M = do {
     d \<leftarrow> rd_dir M nd;
     Some (M\<lparr>mm_dirs := (mm_dirs M)(nd := Some \<lparr>table_entries = (table_entries d)[i := e], dir_tables = (dir_tables d)[i := t]\<rparr>)\<rparr>)
   }"

text \<open>The slots of two directories have the same address when the directories have.\<close>

fun clone_tables :: "(ptr \<Rightarrow> page list) \<Rightarrow> ptr \<Rightarrow> ptr \<Rightarrow> nat list \<Rightarrow> paging \<Rightarrow> paging option" where
  "clone_tables fresh src nd [] M = Some M"
| "clone_tables fresh src nd (i # is) M = do {
     d \<leftarrow> rd_dir M src;
     let t = dir_tables d ! i;
     M \<leftarrow> (if t = 0 \<or> t = 0xFFFFFFFF then Some M
       else if src = kernel_directory M then set_dir nd i t (table_entries d ! i) M
       else do {
         (t', phys, M) \<leftarrow> clone_table fresh t M;
         set_dir nd i t' ((entry_of_word phys)\<lparr>te_present := True, te_rw := True, te_user := True\<rparr>) M });
     clone_tables fresh src nd is M
   }"

definition clone_directory :: "(ptr \<Rightarrow> page list) \<Rightarrow> ptr \<Rightarrow> paging \<Rightarrow> (ptr \<times> paging) option" where
  "clone_directory fresh src M = do {
     (nd, M) \<leftarrow> kvmalloc 8192 M;
     let M = M\<lparr>mm_dirs := (mm_dirs M)(nd := Some \<lparr>table_entries = replicate TABLES_PER_DIR zero_entry, dir_tables = replicate TABLES_PER_DIR NULL\<rparr>)\<rparr>;
     M \<leftarrow> clone_tables fresh src nd [0..<TABLES_PER_DIR] M;
     Some (nd, M)
   }"

definition release_pages :: "page list \<Rightarrow> page list" where
  "release_pages ps = map (\<lambda>p. if pg_present p then dealloc_page_entry p else p) ps"

definition mm_free :: "ptr \<Rightarrow> paging \<Rightarrow> paging option" where
  "mm_free p M = do { H \<leftarrow> free p (mm_heap M); Some (M\<lparr>mm_heap := H\<rparr>) }"

text \<open>The table of slot \<open>i\<close>: its pages up to the limit are released, then the table; \<^verbatim>\<open>release_directory_for_exec\<close>
  leaves the tables above its limit.\<close>

definition user_table :: "ptr \<Rightarrow> nat \<Rightarrow> paging \<Rightarrow> (ptr \<times> bool) option" where
  "user_table dir i M = do {
     d \<leftarrow> rd_dir M dir;
     let t = dir_tables d ! i;
     if t = 0 \<or> t = 0xFFFFFFFF then Some (t, False)
     else do { k \<leftarrow> rd_dir M (kernel_directory M); Some (t, dir_tables k ! i \<noteq> t) } }"

definition drop_table :: "ptr \<Rightarrow> nat \<Rightarrow> ptr \<Rightarrow> paging \<Rightarrow> paging option" where
  "drop_table dir i t M = do {
     M \<leftarrow> mm_free t M;
     d \<leftarrow> rd_dir M dir;
     Some (M\<lparr>mm_tables := (mm_tables M)(t := None), mm_dirs := (mm_dirs M)(dir := Some (d\<lparr>dir_tables := (dir_tables d)[i := NULL]\<rparr>))\<rparr>)
   }"

definition release_table_pages :: "ptr \<Rightarrow> paging \<Rightarrow> paging option" where
  "release_table_pages t M = do { ps \<leftarrow> mm_tables M t; Some (M\<lparr>mm_tables := (mm_tables M)(t := Some (release_pages ps))\<rparr>) }"

definition slot_address :: "nat \<Rightarrow> u32" where
  "slot_address i = of_nat i * PAGE_SIZE * 1024"

fun release_tables :: "ptr \<Rightarrow> nat list \<Rightarrow> paging \<Rightarrow> paging option" where
  "release_tables dir [] M = Some M"
| "release_tables dir (i # is) M = do {
     (t, user) \<leftarrow> user_table dir i M;
     M \<leftarrow> (if \<not> user then Some M else do {
       M \<leftarrow> (if slot_address i < PAGING_SHM_START then release_table_pages t M else Some M);
       drop_table dir i t M });
     release_tables dir is M }"

definition release_directory :: "ptr \<Rightarrow> paging \<Rightarrow> paging option" where
  "release_directory dir M = do {
     M \<leftarrow> release_tables dir [0..<TABLES_PER_DIR] M;
     M \<leftarrow> mm_free dir M;
     Some (M\<lparr>mm_dirs := (mm_dirs M)(dir := None)\<rparr>)
   }"

fun release_tables_exec :: "ptr \<Rightarrow> nat list \<Rightarrow> paging \<Rightarrow> paging option" where
  "release_tables_exec dir [] M = Some M"
| "release_tables_exec dir (i # is) M = do {
     (t, user) \<leftarrow> user_table dir i M;
     M \<leftarrow> (if user \<and> slot_address i < USER_STACK_BOTTOM then do {
       M \<leftarrow> release_table_pages t M;
       d \<leftarrow> rd_dir M dir;
       let M = M\<lparr>mm_dirs := (mm_dirs M)(dir := Some (d\<lparr>table_entries := (table_entries d)[i := zero_entry]\<rparr>))\<rparr>;
       drop_table dir i t M } else Some M);
     release_tables_exec dir is M }"

definition release_directory_for_exec :: "ptr \<Rightarrow> paging \<Rightarrow> paging option" where
  "release_directory_for_exec dir M = release_tables_exec dir [0..<TABLES_PER_DIR] M"

section \<open>Installation\<close>

definition check_paging :: "paging \<Rightarrow> bool" where
  "check_paging M = is_paging_enabled M"

definition enable_paging :: "paging \<Rightarrow> paging" where
  "enable_paging M = M\<lparr>is_paging_enabled := True\<rparr>"

definition disable_paging :: "paging \<Rightarrow> paging" where
  "disable_paging M = M\<lparr>is_paging_enabled := False\<rparr>"

definition switch_directory :: "ptr \<Rightarrow> paging \<Rightarrow> paging" where
  "switch_directory dir M = enable_paging (M\<lparr>curr_dir := dir\<rparr>)"

definition heap_install :: "paging \<Rightarrow> paging" where
  "heap_install M = M\<lparr>mm_heap := (mm_heap M)\<lparr>heap_tail := (frame_ptr (mm_heap M) + PAGE_SIZE) AND NOT 0xFFF\<rparr>\<rparr>"

partial_function (option) map_kernel :: "u32 \<Rightarrow> paging \<Rightarrow> paging option" where
  "map_kernel i M = (if i \<le> heap_head M then do {
       M \<leftarrow> alloc_page_next kvmalloc_p True True M;
       map_kernel (i + PAGE_SIZE) M }
     else Some M)"

partial_function (option) map_stack :: "u32 \<Rightarrow> u32 \<Rightarrow> paging \<Rightarrow> paging option" where
  "map_stack i e M = (if i > e then do {
       M \<leftarrow> alloc_page_at kvmalloc_p True True i M;
       map_stack (i - PAGE_SIZE) e M }
     else Some M)"

text \<open>\<open>old\<close> is what the memory of the first directory holds; \<open>esp\<close> and \<open>ebp\<close> are the registers.\<close>

definition paging_install :: "table_entry list \<Rightarrow> u32 \<Rightarrow> u32 \<Rightarrow> u32 \<Rightarrow> paging \<Rightarrow> paging option" where
  "paging_install old esp ebp memsize M = do {
     let M = M\<lparr>page_count := memsize div 4, table_count := (memsize div 4) div 1024 + 1\<rparr>;
     (kd, M) \<leftarrow> kvmalloc 8192 M;
     let n = unat (table_count M);
     let M = M\<lparr>kernel_directory := kd, curr_dir := kd, mm_dirs := (mm_dirs M)(kd := Some
       \<lparr>table_entries = replicate (min n TABLES_PER_DIR) zero_entry @ drop n old, dir_tables = replicate TABLES_PER_DIR NULL\<rparr>)\<rparr>;
     M \<leftarrow> map_kernel 0 M;
     M \<leftarrow> map_stack esp (ebp - PAGE_SIZE * STACK_SIZE) M;
     M \<leftarrow> realloc_table kvmalloc_p False True 0xB8000 M;
     M \<leftarrow> alloc_pages kvmalloc_p False True 0xB8000 0xBF000 M;
     Some (heap_install (switch_directory (curr_dir M) M))
   }"

end
