(* ===== verification/Paging_Laws.thy ===== *)
theory Paging_Laws
  imports Paging Heap_Cells
begin

text \<open>
  What the page functions do to an address space: the encoding of an entry, the mapping of one page and of a
  range, the search for the next page, and the growth of the heap.
\<close>

section \<open>The encoding of a page\<close>

lemma bit_flag: "bit (flag n b) m \<longleftrightarrow> m = n \<and> b \<and> n < 32"
  by (auto simp: flag_def bit_simps)

lemma bit_field: "bit (field n (w :: 'a::len word)) m \<longleftrightarrow> n \<le> m \<and> m < 32 \<and> bit w (m - n)"
  by (auto simp: field_def bit_simps)

lemma bit_beyond: "LENGTH('a) \<le> n \<Longrightarrow> \<not> bit (w :: 'a::len word) n"
  using bit_imp_le_length [of w n] by auto

lemma word_of_page_flags:
  "bit (word_of_page p) 0 = pg_present p" "bit (word_of_page p) 1 = pg_rw p" "bit (word_of_page p) 2 = pg_user p"
  "bit (word_of_page p) 3 = pg_writethrough p" "bit (word_of_page p) 4 = pg_cachedisabled p" "bit (word_of_page p) 5 = pg_accessed p"
  "bit (word_of_page p) 6 = pg_dirty p" "bit (word_of_page p) 7 = pg_unused1 p" "bit (word_of_page p) 8 = pg_global p"
  by (simp_all add: word_of_page_def bit_or_iff bit_flag bit_field)

lemma word_of_page_fields:
  "ucast (drop_bit 9 (word_of_page p)) = pg_unused2 p" "ucast (drop_bit 12 (word_of_page p)) = phys_addr p"
proof -
  show "ucast (drop_bit 9 (word_of_page p)) = pg_unused2 p"
    by (rule bit_word_eqI)
      (auto simp: word_of_page_def bit_ucast_iff bit_drop_bit_eq bit_or_iff bit_flag bit_field bit_beyond)
  show "ucast (drop_bit 12 (word_of_page p)) = phys_addr p"
    by (rule bit_word_eqI)
      (auto simp: word_of_page_def bit_ucast_iff bit_drop_bit_eq bit_or_iff bit_flag bit_field bit_beyond)
qed

lemma page_of_word_of_page: "page_of_word (word_of_page p) = p"
  by (simp add: page_of_word_def word_of_page_flags word_of_page_fields [simplified] del: One_nat_def)

lemma word_of_page_of_word: "word_of_page (page_of_word w) = w"
proof (rule bit_word_eqI)
  fix n assume "n < LENGTH(32)"
  then have n: "n < 32" by simp
  consider "n = 0" | "n = 1" | "n = 2" | "n = 3" | "n = 4" | "n = 5" | "n = 6" | "n = 7" | "n = 8" | "9 \<le> n"
    by linarith
  then show "bit (word_of_page (page_of_word w)) n = bit w n"
    by cases (use n in \<open>auto simp: word_of_page_def page_of_word_def bit_ucast_iff bit_drop_bit_eq bit_or_iff bit_flag bit_field\<close>)
qed

section \<open>Mapping one page\<close>

text \<open>A well-formed address space: every present table entry has a table of its own.\<close>

definition space_ok :: "paging \<Rightarrow> bool" where
  "space_ok M \<longleftrightarrow> (\<exists>d. rd_dir M (curr_dir M) = Some d \<and> length (table_entries d) = 1024 \<and> length (dir_tables d) = 1024
     \<and> (\<forall>i<1024. te_present (table_entries d ! i) \<longrightarrow> (\<exists>t. mm_tables M (dir_tables d ! i) = Some t \<and> length t = 1024))
     \<and> (\<forall>i<1024. \<forall>j<1024. te_present (table_entries d ! i) \<longrightarrow> te_present (table_entries d ! j) \<longrightarrow> i \<noteq> j \<longrightarrow>
          dir_tables d ! i \<noteq> dir_tables d ! j))"

definition table_present :: "u32 \<Rightarrow> paging \<Rightarrow> bool" where
  "table_present a M \<longleftrightarrow> (\<exists>e. table_entry_at a M = Some e \<and> te_present e)"

text \<open>An allocation of a table that works: only memory, and not that of a table in use.\<close>

definition table_given :: "page_alloc \<Rightarrow> paging \<Rightarrow> bool" where
  "table_given kv M \<longleftrightarrow> (\<exists>t phys M1 d. kv 4096 M = Some (t, phys, M1) \<and> mm_dirs M1 = mm_dirs M \<and> mm_tables M1 = mm_tables M
     \<and> curr_dir M1 = curr_dir M \<and> rd_dir M (curr_dir M) = Some d
     \<and> (\<forall>i<1024. te_present (table_entries d ! i) \<longrightarrow> dir_tables d ! i \<noteq> t))"

lemma index_bounds: "table_index a < 1024" "page_index a < 1024"
proof -
  have "unat a < 2 ^ 32" using unat_bound [of a] by simp
  then show "table_index a < 1024"
    by (simp add: table_index_def unat_div)
  show "page_index a < 1024"
    by (simp add: page_index_def unat_mod)
qed

lemma page_address: "unat a div 4096 = table_index a * 1024 + page_index a"
  by (simp add: table_index_def page_index_def unat_div unat_mod)

lemma same_page: "table_index a = table_index b \<Longrightarrow> page_index a = page_index b \<Longrightarrow> unat a div 4096 = unat b div 4096"
  by (simp add: page_address)

lemma space_page:
  assumes "space_ok M" and "table_present a M"
  obtains p where "page_at a M = Some p"
  using assms index_bounds [of a] unfolding space_ok_def table_present_def table_entry_at_def page_at_def by auto

text \<open>Writing a page of a present table.\<close>

lemma wr_page_law:
  assumes ok: "space_ok M" and a: "table_present a M" "page_at a M = Some p"
  shows "\<exists>M'. wr_page a f M = Some M' \<and> space_ok M' \<and> page_at a M' = Some (f p) \<and> table_present b M' = table_present b M
    \<and> (table_present b M \<longrightarrow> unat b div 4096 \<noteq> unat a div 4096 \<longrightarrow> page_at b M' = page_at b M)"
proof -
  obtain d where d: "rd_dir M (curr_dir M) = Some d" "length (table_entries d) = 1024" "length (dir_tables d) = 1024"
    "\<And>i. i < 1024 \<Longrightarrow> te_present (table_entries d ! i) \<Longrightarrow> \<exists>t. mm_tables M (dir_tables d ! i) = Some t \<and> length t = 1024"
    "\<And>i j. i < 1024 \<Longrightarrow> j < 1024 \<Longrightarrow> te_present (table_entries d ! i) \<Longrightarrow> te_present (table_entries d ! j) \<Longrightarrow> i \<noteq> j \<Longrightarrow>
       dir_tables d ! i \<noteq> dir_tables d ! j"
    using ok unfolding space_ok_def by blast
  note ib = index_bounds
  have pa: "te_present (table_entries d ! table_index a)"
    using a(1) d(1) by (simp add: table_present_def table_entry_at_def)
  then obtain t where t: "mm_tables M (dir_tables d ! table_index a) = Some t" "length t = 1024"
    using d(4) ib(1) by blast
  define q where "q = dir_tables d ! table_index a"
  define M' where "M' = M\<lparr>mm_tables := (mm_tables M)(q := Some (t[page_index a := f (t ! page_index a)]))\<rparr>"
  have w: "wr_page a f M = Some M'"
    using d(1) t(1) by (simp add: wr_page_def M'_def q_def Let_def)
  have "rd_dir M' c = rd_dir M c" "curr_dir M' = curr_dir M" for c
    by (auto simp: M'_def rd_dir_def)
  then have rd: "rd_dir M' (curr_dir M') = Some d"
    using d(1) by simp
  have "space_ok M'"
    unfolding space_ok_def using rd d t by (intro exI [of _ d]) (auto simp: M'_def q_def)
  moreover have "page_at a M' = Some (f p)"
    using rd a(2) d(1) t ib(2) by (simp add: page_at_def M'_def q_def)
  moreover have "table_present b M' = table_present b M"
    using rd d(1) by (simp add: table_present_def table_entry_at_def)
  moreover have "page_at b M' = page_at b M" if b: "table_present b M" "unat b div 4096 \<noteq> unat a div 4096"
  proof (cases "table_index b = table_index a")
    case True
    then have "page_index b \<noteq> page_index a" using b(2) same_page by blast
    then show ?thesis
      using rd d(1) t True by (simp add: page_at_def M'_def q_def)
  next
    case False
    have "te_present (table_entries d ! table_index b)"
      using b(1) d(1) by (simp add: table_present_def table_entry_at_def)
    then have "dir_tables d ! table_index b \<noteq> q"
      using d(5) [OF ib(1) ib(1) _ pa] False by (auto simp: q_def)
    then show ?thesis
      using rd d(1) by (simp add: page_at_def M'_def)
  qed
  ultimately show ?thesis using w by blast
qed

lemma alloc_table_law:
  assumes ok: "space_ok M" and a: "\<not> table_present a M" and kv: "table_given kv M"
  shows "\<exists>M'. alloc_table kv k w a M = Some M' \<and> space_ok M' \<and> table_present a M' \<and>
    (table_present b M \<longrightarrow> table_present b M' \<and> page_at b M' = page_at b M)"
proof -
  obtain t phys M1 d where kv: "kv 4096 M = Some (t, phys, M1)" "mm_dirs M1 = mm_dirs M" "mm_tables M1 = mm_tables M"
    "curr_dir M1 = curr_dir M" "rd_dir M (curr_dir M) = Some d" and new: "\<And>i. i < 1024 \<Longrightarrow> te_present (table_entries d ! i) \<Longrightarrow> dir_tables d ! i \<noteq> t"
    using kv unfolding table_given_def by blast
  have d: "length (table_entries d) = 1024" "length (dir_tables d) = 1024"
    "\<And>i. i < 1024 \<Longrightarrow> te_present (table_entries d ! i) \<Longrightarrow> \<exists>t. mm_tables M (dir_tables d ! i) = Some t \<and> length t = 1024"
    "\<And>i j. i < 1024 \<Longrightarrow> j < 1024 \<Longrightarrow> te_present (table_entries d ! i) \<Longrightarrow> te_present (table_entries d ! j) \<Longrightarrow> i \<noteq> j \<Longrightarrow>
       dir_tables d ! i \<noteq> dir_tables d ! j"
    using ok kv(5) unfolding space_ok_def by auto
  note ib = index_bounds
  define e where "e = (table_entries d ! table_index a)\<lparr>table_address := ucast (drop_bit 12 phys), te_rw := w, te_user := \<not> k,
     te_present := True, te_page_size := False\<rparr>"
  define d' where "d' = \<lparr>table_entries = (table_entries d)[table_index a := e], dir_tables = (dir_tables d)[table_index a := t]\<rparr>"
  define M' where "M' = M1\<lparr>mm_dirs := (mm_dirs M1)(curr_dir M1 := Some d'), mm_tables := (mm_tables M1)(t := Some (replicate 1024 zero_page))\<rparr>"
  have cd: "curr_dir M \<noteq> NULL" and cdir: "mm_dirs M (curr_dir M) = Some d"
    using kv(5) by (auto simp: rd_dir_def split: if_splits)
  have run: "alloc_table kv k w a M = Some M'"
    using kv cd cdir by (auto simp: alloc_table_def wr_entry_def rd_dir_def Let_def M'_def d'_def e_def PAGES_PER_TABLE_def
        intro!: paging.equality directory.equality)
  have rd: "rd_dir M' (curr_dir M') = Some d'"
    using cd kv(4) by (simp add: rd_dir_def M'_def)
  have na: "\<not> te_present (table_entries d ! table_index a)"
    using a kv(5) by (simp add: table_present_def table_entry_at_def)
  have "space_ok M'"
    unfolding space_ok_def
  proof (intro exI [of _ d'] conjI allI impI)
    fix i assume i: "i < (1024 :: nat)" "te_present (table_entries d' ! i)"
    show "\<exists>t. mm_tables M' (dir_tables d' ! i) = Some t \<and> length t = 1024"
      using i d(1-3) new kv(3) ib(1) [of a] by (cases "i = table_index a") (auto simp: d'_def M'_def)
    fix j assume j: "j < (1024 :: nat)" "te_present (table_entries d' ! j)" "i \<noteq> j"
    show "dir_tables d' ! i \<noteq> dir_tables d' ! j"
      using i j d new ib(1) [of a] by (cases "i = table_index a"; cases "j = table_index a") (auto simp: d'_def)
  qed (use rd d in \<open>simp_all add: d'_def\<close>)
  moreover have "table_present a M'"
    using rd d(1) ib(1) by (simp add: table_present_def table_entry_at_def d'_def e_def)
  moreover have "table_present b M' \<and> page_at b M' = page_at b M" if b: "table_present b M"
  proof -
    have pb: "te_present (table_entries d ! table_index b)"
      using b kv(5) by (simp add: table_present_def table_entry_at_def)
    then have ne: "table_index b \<noteq> table_index a" using na by auto
    then show ?thesis
      using rd kv(3,5) d(1,2) pb new [OF ib(1) pb]
      by (simp add: table_present_def table_entry_at_def page_at_def d'_def) (simp add: M'_def)
  qed
  ultimately show ?thesis using run by blast
qed

lemma frame_of: "push_bit 12 (ucast (ucast (drop_bit 12 v) :: 20 word)) = (v :: u32) AND NOT 0xFFF"
proof -
  have m: "(0xFFF :: u32) = mask 12"
    by (simp add: mask_eq_exp_minus_1)
  show ?thesis
    unfolding m by (rule bit_word_eqI) (auto simp: bit_push_bit_iff bit_ucast_iff bit_drop_bit_eq bit_and_iff bit_not_iff bit_mask_iff)
qed

text \<open>The page at \<open>a\<close> is mapped to the frame of \<open>v\<close>; the other pages of the space stay as they are.\<close>

lemma alloc_page_map_law:
  assumes ok: "space_ok M" and kv: "table_present a M \<or> table_given kv M"
  shows "\<exists>M' p. alloc_page_map kv k w a v M = Some M' \<and> space_ok M' \<and> table_present a M'
    \<and> page_at a M' = Some p \<and> pg_present p \<and> pg_rw p = w \<and> pg_user p = (\<not> k) \<and> map_to_physical a M' = Some (v AND NOT 0xFFF)
    \<and> (table_present b M \<longrightarrow> table_present b M' \<and> (unat b div 4096 \<noteq> unat a div 4096 \<longrightarrow> page_at b M' = page_at b M))"
proof -
  obtain M1 where M1: "do { e \<leftarrow> table_entry_at a M; if \<not> te_present e then alloc_table kv k w a M else Some M } = Some M1"
    "space_ok M1" "table_present a M1" "table_present b M \<longrightarrow> table_present b M1 \<and> page_at b M1 = page_at b M"
  proof (cases "table_present a M")
    case True
    then show ?thesis using that [of M] ok by (auto simp: table_present_def)
  next
    case False
    obtain e where e: "table_entry_at a M = Some e"
      using ok by (auto simp: space_ok_def table_entry_at_def)
    obtain M1 where "alloc_table kv k w a M = Some M1" "space_ok M1" "table_present a M1"
      "table_present b M \<longrightarrow> table_present b M1 \<and> page_at b M1 = page_at b M"
      using alloc_table_law [OF ok False, of kv k w b] kv False by blast
    then show ?thesis using that [of M1] False e by (auto simp: table_present_def)
  qed
  obtain p where p: "page_at a M1 = Some p"
    using space_page [OF M1(2,3)] by blast
  obtain M' where M': "wr_page a (set_page k w v) M1 = Some M'" "space_ok M'" "page_at a M' = Some (set_page k w v p)"
    "table_present b M' = table_present b M1" "table_present b M1 \<longrightarrow> unat b div 4096 \<noteq> unat a div 4096 \<longrightarrow> page_at b M' = page_at b M1"
    using wr_page_law [OF M1(2,3) p, of "set_page k w v" b] by blast
  obtain M'' where "wr_page a (set_page k w v) M1 = Some M''" "table_present a M'' = table_present a M1"
    using wr_page_law [OF M1(2,3) p, of "set_page k w v" a] by blast
  then have "table_present a M'" using M'(1) M1(3) by simp
  moreover have "alloc_page_map kv k w a v M = Some M'"
    using M1(1) M'(1) unfolding alloc_page_map_def by (auto simp: bind_eq_Some_iff)
  ultimately show ?thesis
    using M' M1(4) by (auto simp: set_page_def map_to_physical_def frame_of)
qed

section \<open>Ranges of pages\<close>

lemma indices_same:
  assumes "unat a div 4096 = unat b div 4096"
  shows "table_index a = table_index b" "page_index a = page_index b"
  using assms by (simp_all add: table_index_def page_index_def unat_div unat_mod)

lemma page_at_same: "unat a div 4096 = unat b div 4096 \<Longrightarrow> page_at a M = page_at b M"
  using indices_same [of a b] by (simp add: page_at_def)

lemma table_present_same: "unat a div 4096 = unat b div 4096 \<Longrightarrow> table_present a M = table_present b M"
  using indices_same [of a b] by (simp add: table_present_def table_entry_at_def)

lemma page_base_same:
  assumes "unat (a :: u32) div 4096 = unat b div 4096"
  shows "a AND NOT 0xFFF = b AND NOT 0xFFF"
proof -
  have "unat (drop_bit 12 w) = unat w div 4096" for w :: u32
    by (simp add: drop_bit_eq_div unat_div)
  then have "unat (drop_bit 12 a) = unat (drop_bit 12 b)"
    using assms by (simp only:)
  then have "drop_bit 12 a = drop_bit 12 b" by (simp only: word_unat_eq_iff)
  then show ?thesis by (simp only: frame_of [symmetric])
qed

lemma within_page:
  assumes "(x :: nat) mod 4096 = 0" and "x \<le> y" and "y < x + 4096"
  shows "y div 4096 = x div 4096"
proof (rule div_nat_eqI)
  have x: "4096 * (x div 4096) = x"
    using assms(1) by (metis add_0_right mult_div_mod_eq)
  then show "4096 * (x div 4096) \<le> y" using assms(2) by simp
  show "y < 4096 * Suc (x div 4096)"
    unfolding mult_Suc_right x using assms(3) by simp
qed

lemma next_page:
  assumes "unat a mod 4096 = 0" and "(a :: u32) \<le> e" and "e < 0xFFFFF000"
  shows "unat (a + PAGE_SIZE) = unat a + 4096" "unat (a + PAGE_SIZE) mod 4096 = 0"
proof -
  have "unat a + 4096 < 2 ^ 32"
    using assms(2,3) by (simp add: word_le_nat_alt word_less_nat_alt)
  then show u: "unat (a + PAGE_SIZE) = unat a + 4096"
    by (simp add: unat_word_ariths)
  show "unat (a + PAGE_SIZE) mod 4096 = 0"
    using assms(1) unfolding u by simp
qed

text \<open>
  The pages of a range that does not reach the last page of the address space are mapped to themselves, and
  nothing outside the range changes.
\<close>

lemma alloc_pages_law:
  assumes "e < 0xFFFFF000" and "space_ok M" and "unat a mod 4096 = 0" and "\<And>b. a \<le> b \<Longrightarrow> b \<le> e \<Longrightarrow> table_present b M"
  shows "\<exists>M'. alloc_pages kv k w a e M = Some M' \<and> space_ok M' \<and> (\<forall>b. table_present b M \<longrightarrow> table_present b M')
    \<and> (\<forall>b. table_present b M \<and> (b < a \<or> unat e div 4096 < unat b div 4096) \<longrightarrow> page_at b M' = page_at b M)
    \<and> (\<forall>b. a \<le> b \<and> b \<le> e \<longrightarrow> map_to_physical b M' = Some (b AND NOT 0xFFF))"
  using assms
proof (induction "unat e + 4096 - unat a" arbitrary: a M rule: less_induct)
  case less
  show ?case
  proof (cases "a \<le> e")
    case False
    then show ?thesis
      using less.prems by (subst alloc_pages.simps) (auto intro: order_trans)
  next
    case True
    note np = next_page [OF less.prems(3) True less.prems(1)]
    have pa: "table_present a M" using less.prems(4) True by simp
    obtain M1 where M1: "alloc_page_at kv k w a M = Some M1" "space_ok M1" "map_to_physical a M1 = Some (a AND NOT 0xFFF)"
      using alloc_page_map_law [OF less.prems(2), of a kv k w a a] pa by (auto simp: alloc_page_at_def)
    have keep: "table_present b M1 \<and> (unat b div 4096 \<noteq> unat a div 4096 \<longrightarrow> page_at b M1 = page_at b M)" if "table_present b M" for b
      using alloc_page_map_law [OF less.prems(2), of a kv k w a b] pa that M1(1) by (auto simp: alloc_page_at_def)
    have "\<exists>M'. alloc_pages kv k w (a + PAGE_SIZE) e M1 = Some M' \<and> space_ok M' \<and> (\<forall>b. table_present b M1 \<longrightarrow> table_present b M')
      \<and> (\<forall>b. table_present b M1 \<and> (b < a + PAGE_SIZE \<or> unat e div 4096 < unat b div 4096) \<longrightarrow> page_at b M' = page_at b M1)
      \<and> (\<forall>b. a + PAGE_SIZE \<le> b \<and> b \<le> e \<longrightarrow> map_to_physical b M' = Some (b AND NOT 0xFFF))"
    proof (rule less.hyps [OF _ less.prems(1) M1(2) np(2)])
      show "unat e + 4096 - unat (a + PAGE_SIZE) < unat e + 4096 - unat a"
        using np(1) True by (simp add: word_le_nat_alt)
      show "table_present b M1" if "a + PAGE_SIZE \<le> b" "b \<le> e" for b
        using that np(1) less.prems(4) [of b] keep by (simp add: word_le_nat_alt)
    qed
    then obtain M' where M': "alloc_pages kv k w (a + PAGE_SIZE) e M1 = Some M'" "space_ok M'" "\<And>b. table_present b M1 \<Longrightarrow> table_present b M'"
      "\<And>b. table_present b M1 \<Longrightarrow> b < a + PAGE_SIZE \<or> unat e div 4096 < unat b div 4096 \<Longrightarrow> page_at b M' = page_at b M1"
      "\<And>b. a + PAGE_SIZE \<le> b \<Longrightarrow> b \<le> e \<Longrightarrow> map_to_physical b M' = Some (b AND NOT 0xFFF)"
      by blast
    have run: "alloc_pages kv k w a e M = Some M'"
      using True M1(1) M'(1) by (subst alloc_pages.simps) simp
    have "page_at b M' = page_at b M" if b: "table_present b M" "b < a \<or> unat e div 4096 < unat b div 4096" for b
    proof -
      have "unat b div 4096 \<noteq> unat a div 4096"
        using b(2) less.prems(3) True by (auto simp: word_le_nat_alt word_less_nat_alt dest: div_le_mono [of _ _ 4096])
      moreover have "b < a + PAGE_SIZE \<or> unat e div 4096 < unat b div 4096"
        using b(2) np(1) by (auto simp: word_less_nat_alt)
      ultimately show ?thesis using M'(4) [of b] keep [OF b(1)] by simp
    qed
    moreover have "map_to_physical b M' = Some (b AND NOT 0xFFF)" if b: "a \<le> b" "b \<le> e" for b
    proof (cases "a + PAGE_SIZE \<le> b")
      case True
      then show ?thesis using M'(5) b(2) by blast
    next
      case False
      have tb: "table_present b M" using less.prems(4) b by blast
      have "unat a \<le> unat b" "unat b < unat a + 4096"
        using b(1) False np(1) by (simp_all add: word_le_nat_alt)
      then have same: "unat b div 4096 = unat a div 4096"
        using less.prems(3) by (intro within_page)
      have "page_at b M' = page_at a M1"
        using M'(4) [of b] keep [OF tb] False same page_at_same [OF same] by (simp add: not_le)
      moreover have "b AND NOT 0xFFF = a AND NOT 0xFFF"
        by (rule page_base_same [OF same])
      ultimately show ?thesis using M1(3) by (simp add: map_to_physical_def)
    qed
    ultimately show ?thesis
      using run M'(2,3) keep by blast
  qed
qed

text \<open>A range up to the last page of the address space is never finished: the counter wraps to 0 and stays below the end.\<close>

lemma page_aligned_top:
  assumes "unat (a :: u32) mod 4096 = 0"
  shows "a \<le> 0xFFFFF000" "unat (a + PAGE_SIZE) mod 4096 = 0"
proof -
  have "unat a < 2 ^ 32" using unat_bound [of a] by simp
  moreover have "unat a = 4096 * (unat a div 4096)"
    using assms by (metis add_0_right mult_div_mod_eq)
  ultimately have "unat a div 4096 < 1048576"
    by simp
  then have "unat a \<le> 0xFFFFF000"
    using \<open>unat a = 4096 * (unat a div 4096)\<close> by linarith
  then show "a \<le> 0xFFFFF000" by (simp add: word_le_nat_alt)
  have "unat (a + PAGE_SIZE) mod 4096 = (unat a + 4096) mod 4096"
    by (simp add: unat_word_ariths mod_mod_cancel)
  then show "unat (a + PAGE_SIZE) mod 4096 = 0" using assms by simp
qed

lemma alloc_pages_endless:
  assumes "0xFFFFF000 \<le> e" and "unat a mod 4096 = 0"
  shows "alloc_pages kv k w a e M = None"
proof (rule ccontr)
  assume "alloc_pages kv k w a e M \<noteq> None"
  then obtain M' where run: "alloc_pages kv k w a e M = Some M'" by blast
  let ?P = "\<lambda>(kv :: page_alloc) (k :: bool) (w :: bool) (a :: u32) (e :: u32) (M :: paging) (y :: paging).
    \<not> (0xFFFFF000 \<le> e \<and> unat a mod 4096 = 0)"
  have "?P kv k w a e M M'"
  proof (rule alloc_pages.raw_induct [where P = ?P, OF _ run])
    fix f kv k w a e M y
    assume IH: "\<And>kv k w a e M y. f kv k w a e M = Some y \<Longrightarrow> ?P kv k w a e M y"
      and body: "(if a \<le> e then alloc_page_at kv k w a M \<bind> f kv k w (a + PAGE_SIZE) e else Some M) = Some y"
    show "?P kv k w a e M y"
    proof
      assume ae: "0xFFFFF000 \<le> e \<and> unat a mod 4096 = 0"
      then have "a \<le> e" using page_aligned_top(1) [of a] by (auto intro: order_trans)
      then obtain M1 where "f kv k w (a + PAGE_SIZE) e M1 = Some y"
        using body by (auto simp: bind_eq_Some_conv)
      from IH [OF this] page_aligned_top(2) [of a] ae show False by simp
    qed
  qed
  then show False using assms by blast
qed

section \<open>The search for the next page\<close>

lemma page_limit_table: "unat (page_limit M) = (unat (page_count M) mod 1024) * 0x400000"
proof -
  have "page_limit M = of_nat (unat (page_count M) * 0x400000)"
    by (simp add: page_limit_def)
  then have "unat (page_limit M) = (unat (page_count M) * 0x400000) mod (1024 * 0x400000)"
    by (simp only: unat_of_nat) simp
  then show ?thesis by (simp only: mult_mod_left)
qed

lemma find_from_step:
  assumes "unat a mod 4096 = 0" and "a < page_limit M"
  shows "unat (a + PAGE_SIZE) = unat a + 4096" "a + PAGE_SIZE \<le> page_limit M"
proof -
  define n where "n = (unat (page_count M) mod 1024) * 1024"
  have l: "unat (page_limit M) = 4096 * n" by (simp add: page_limit_table n_def)
  define m where "m = unat a div 4096"
  have a: "unat a = 4096 * m"
    using assms(1) unfolding m_def by (metis add_0_right mult_div_mod_eq)
  have "m < n" using assms(2) by (simp add: word_less_nat_alt l a)
  then have le: "unat a + 4096 \<le> unat (page_limit M)" by (simp add: l a)
  then have "unat a + 4096 < 2 ^ 32"
    using unat_bound [of "page_limit M"] by simp
  then show u: "unat (a + PAGE_SIZE) = unat a + 4096"
    by (simp add: unat_word_ariths)
  show "a + PAGE_SIZE \<le> page_limit M"
    using le by (simp add: word_le_nat_alt u)
qed

text \<open>The search ends; a page it finds is free, and every page below it from the start on is in use.\<close>

definition in_use :: "u32 \<Rightarrow> paging \<Rightarrow> bool" where
  "in_use a M \<longleftrightarrow> (\<exists>p. page_at a M = Some p \<and> pg_present p)"

definition first_free :: "u32 \<Rightarrow> u32 \<Rightarrow> paging \<Rightarrow> bool" where
  "first_free a q M \<longleftrightarrow> a \<le> q \<and> q < page_limit M \<and> \<not> in_use q M \<and> (\<forall>b. a \<le> b \<and> b < q \<and> unat b mod 4096 = 0 \<longrightarrow> in_use b M)"

definition none_free :: "u32 \<Rightarrow> paging \<Rightarrow> bool" where
  "none_free a M \<longleftrightarrow> (\<forall>b. a \<le> b \<and> b < page_limit M \<and> unat b mod 4096 = 0 \<longrightarrow> in_use b M)"

lemma skip_used:
  assumes "unat a mod 4096 = 0" and "a < page_limit M" and "in_use a M"
  shows "first_free (a + PAGE_SIZE) q M \<Longrightarrow> first_free a q M" "none_free (a + PAGE_SIZE) M \<Longrightarrow> none_free a M"
proof -
  note st = find_from_step(1) [OF assms(1,2)]
  have le: "a \<le> b" if "a + PAGE_SIZE \<le> b" for b
    using that st by (simp add: word_le_nat_alt)
  have gap: "in_use b M" if "a \<le> b" "\<not> a + PAGE_SIZE \<le> b" for b
  proof -
    have "unat b div 4096 = unat a div 4096"
      by (rule within_page [OF assms(1)]) (use that st in \<open>simp_all add: word_le_nat_alt\<close>)
    then show ?thesis using assms(3) page_at_same [of b a M] by (simp add: in_use_def)
  qed
  show "first_free a q M" if "first_free (a + PAGE_SIZE) q M"
    unfolding first_free_def
  proof (intro conjI allI impI)
    show "a \<le> q" "q < page_limit M" "\<not> in_use q M"
      using that le unfolding first_free_def by blast+
    show "in_use b M" if "a \<le> b \<and> b < q \<and> unat b mod 4096 = 0" for b
      using that \<open>first_free (a + PAGE_SIZE) q M\<close> gap [of b] unfolding first_free_def by (cases "a + PAGE_SIZE \<le> b") auto
  qed
  show "none_free a M" if "none_free (a + PAGE_SIZE) M"
    unfolding none_free_def
  proof (intro allI impI)
    fix b assume b: "a \<le> b \<and> b < page_limit M \<and> unat b mod 4096 = 0"
    show "in_use b M"
      using that b gap [of b] unfolding none_free_def by (cases "a + PAGE_SIZE \<le> b") auto
  qed
qed

lemma find_page_from_law:
  assumes "unat a mod 4096 = 0" and "\<And>b. a \<le> b \<Longrightarrow> b < page_limit M \<Longrightarrow> page_at b M \<noteq> None"
  shows "\<exists>q. find_page_from a M = Some q \<and> (first_free a q M \<or> q = 0 \<and> none_free a M)"
  using assms
proof (induction "unat (page_limit M) - unat a" arbitrary: a rule: less_induct)
  case less
  show ?case
  proof (cases "a < page_limit M")
    case False
    then have "none_free a M"
      unfolding none_free_def by (meson order_le_less_trans)
    moreover have "find_page_from a M = Some 0"
      using False by (simp add: find_page_from.simps)
    ultimately show ?thesis by blast
  next
    case True
    obtain p where p: "page_at a M = Some p"
      using less.prems(2) [OF order_refl True] by blast
    show ?thesis
    proof (cases "pg_present p")
      case False
      then have "find_page_from a M = Some a"
        using True p by (simp add: find_page_from.simps [of a])
      moreover have "first_free a a M"
        using True False p unfolding first_free_def in_use_def by (auto dest: order_le_less_trans)
      ultimately show ?thesis by blast
    next
      case used: True
      note st = find_from_step [OF less.prems(1) True]
      have step: "find_page_from a M = find_page_from (a + PAGE_SIZE) M"
        using True p used by (simp add: find_page_from.simps [of a])
      have "\<exists>q. find_page_from (a + PAGE_SIZE) M = Some q \<and> (first_free (a + PAGE_SIZE) q M \<or> q = 0 \<and> none_free (a + PAGE_SIZE) M)"
      proof (rule less.hyps)
        show "unat (page_limit M) - unat (a + PAGE_SIZE) < unat (page_limit M) - unat a"
          unfolding st(1) using True [unfolded word_less_nat_alt] by linarith
        show "unat (a + PAGE_SIZE) mod 4096 = 0"
          by (rule page_aligned_top(2) [OF less.prems(1)])
        show "page_at b M \<noteq> None" if "a + PAGE_SIZE \<le> b" "b < page_limit M" for b
          using less.prems(2) [of b] that st(1) by (simp add: word_le_nat_alt)
      qed
      then show ?thesis
        unfolding step using skip_used [OF less.prems(1) True] used p in_use_def by blast
    qed
  qed
qed

lemma page_limit_zero:
  assumes "unat (page_count M) mod 1024 = 0"
  shows "page_limit M = 0" "find_new_page M = Some 0"
proof -
  show z: "page_limit M = 0"
    using page_limit_table [of M] assms by (simp add: unat_eq_0 [symmetric])
  show "find_new_page M = Some 0"
    unfolding find_new_page_def by (subst find_page_from.simps) (simp add: z)
qed

text \<open>
  The function that guesses a page maps the page below the one the search found, and goes on above it.
\<close>

lemma space_frame:
  "space_ok (M\<lparr>last_known_newpage := x\<rparr>) = space_ok M" "table_present a (M\<lparr>last_known_newpage := x\<rparr>) = table_present a M"
  "page_at a (M\<lparr>last_known_newpage := x\<rparr>) = page_at a M" "map_to_physical a (M\<lparr>last_known_newpage := x\<rparr>) = map_to_physical a M"
  by (simp_all add: space_ok_def table_present_def table_entry_at_def page_at_def map_to_physical_def rd_dir_def)

lemma alloc_page_present:
  assumes "table_present a M"
  shows "alloc_page_map kv k w a v M = wr_page a (set_page k w v) M"
  using assms by (auto simp: alloc_page_map_def table_present_def)

lemma wr_page_last: "wr_page a f M = Some M' \<Longrightarrow> last_known_newpage M' = last_known_newpage M"
  by (auto simp: wr_page_def bind_eq_Some_conv Let_def)

lemma alloc_page_next_law:
  assumes "space_ok M" and q: "find_new_page M = Some q" and tb: "table_present (q - PAGE_SIZE) M"
  shows "\<exists>M'. alloc_page_next kv k w M = Some M' \<and> space_ok M' \<and> last_known_newpage M' = q + PAGE_SIZE
    \<and> in_use (q - PAGE_SIZE) M' \<and> map_to_physical (q - PAGE_SIZE) M' = Some ((q - PAGE_SIZE) AND NOT 0xFFF)
    \<and> (\<forall>b. table_present b M \<and> unat b div 4096 \<noteq> unat (q - PAGE_SIZE) div 4096 \<longrightarrow> page_at b M' = page_at b M)"
proof -
  define M0 where "M0 = M\<lparr>last_known_newpage := q\<rparr>"
  have M0: "space_ok M0" "table_present (q - PAGE_SIZE) M0"
    using assms by (simp_all add: M0_def space_frame)
  note law = alloc_page_map_law [OF M0(1) disjI1 [OF M0(2)], of kv k w "q - PAGE_SIZE"]
  obtain M1 p where M1: "alloc_page_map kv k w (q - PAGE_SIZE) (q - PAGE_SIZE) M0 = Some M1" "space_ok M1" "page_at (q - PAGE_SIZE) M1 = Some p"
    "pg_present p" "map_to_physical (q - PAGE_SIZE) M1 = Some ((q - PAGE_SIZE) AND NOT 0xFFF)"
    using law by blast
  have keep: "page_at b M1 = page_at b M" if "table_present b M" "unat b div 4096 \<noteq> unat (q - PAGE_SIZE) div 4096" for b
    using law [of b] M1(1) that by (auto simp: M0_def space_frame)
  have last: "last_known_newpage M1 = q"
    using M1(1) [unfolded alloc_page_present [OF M0(2)], THEN wr_page_last] by (simp add: M0_def)
  show ?thesis
    by (rule exI [of _ "M1\<lparr>last_known_newpage := q + PAGE_SIZE\<rparr>"])
      (use q M1 keep last in \<open>auto simp: alloc_page_next_def alloc_page_at_def M0_def [symmetric] space_frame in_use_def\<close>)
qed

section \<open>The growth of the heap\<close>

lemma alloc_page_waits:
  assumes "\<not> table_present a M" and "kv 4096 M = None"
  shows "alloc_page_map kv k w a v M = None"
  using assms by (cases "table_entry_at a M") (auto simp: alloc_page_map_def table_present_def alloc_table_def)

lemma growth_waits:
  assumes "find_new_page M = Some q" and "\<not> table_present (q - PAGE_SIZE) M" and "heap_tail (mm_heap M) \<noteq> 0"
  shows "alloc_page_next kvmalloc_locked k w M = None"
  using assms alloc_page_waits [of "q - PAGE_SIZE" "M\<lparr>last_known_newpage := q\<rparr>" kvmalloc_locked k w "q - PAGE_SIZE"]
  by (simp add: alloc_page_next_def alloc_page_at_def space_frame kvmalloc_locked_def)

lemma sbrk_waits:
  assumes "find_new_page M = Some q" and "\<not> table_present (q - PAGE_SIZE) M" and "heap_tail (mm_heap M) \<noteq> 0"
    and "heap_tail (mm_heap M) < heap_tail (mm_heap M) + n" and "heap_head M < heap_tail (mm_heap M) + n"
  shows "sbrk_mapped n M = None"
  using assms growth_waits [OF assms(1-3), of True True]
  by (simp add: sbrk_mapped_def grow_pages.simps)

lemma sbrk_inside:
  assumes "heap_tail (mm_heap M) + n \<le> heap_head M"
  shows "\<exists>a. sbrk_mapped n M = Some (a, M\<lparr>mm_heap := snd (sbrk n (mm_heap M))\<rparr>)"
  using assms by (auto simp: sbrk_mapped_def not_less [symmetric] split: prod.splits)

lemma heap_call_inside:
  assumes "f (mm_heap M) = Some (p, K)" and "heap_tail K \<le> heap_head M"
  shows "heap_call f M = Some (p, M\<lparr>mm_heap := K\<rparr>)"
  using assms sbrk_inside [of M "heap_tail K - heap_tail (mm_heap M)"] by (auto simp: heap_call_def)

lemma heap_call_waits:
  assumes "f (mm_heap M) = Some (p, K)" and "heap_tail (mm_heap M) \<noteq> 0" and "heap_tail (mm_heap M) < heap_tail K" and "heap_head M < heap_tail K"
    and "find_new_page M = Some q" and "\<not> table_present (q - PAGE_SIZE) M"
  shows "heap_call f M = None"
  using assms sbrk_waits [of M q "heap_tail K - heap_tail (mm_heap M)"] by (auto simp: heap_call_def)

section \<open>Copies of a table\<close>

text \<open>A present page of the copy has the frame, the rights and the marks of the source; the others are empty.\<close>

lemma clone_page_shares:
  "pg_present (clone_page s p) = pg_present s" "pg_present s \<Longrightarrow> phys_addr (clone_page s p) = phys_addr s"
  "pg_present s \<Longrightarrow> pg_rw (clone_page s p) = pg_rw s" "pg_present s \<Longrightarrow> pg_user (clone_page s p) = pg_user s"
  by (simp_all add: clone_page_def zero_page_def page_of_word_def)

lemma clone_table_shares:
  assumes "clone_table fresh src M = Some (t, phys, M')" and "t \<noteq> src" and "length (fresh t) = PAGES_PER_TABLE"
    and "mm_tables M' src = Some ps" and "length ps = PAGES_PER_TABLE" and "i < PAGES_PER_TABLE"
  shows "\<exists>ts. mm_tables M' t = Some ts \<and> length ts = PAGES_PER_TABLE \<and> pg_present (ts ! i) = pg_present (ps ! i)
    \<and> (pg_present (ps ! i) \<longrightarrow> phys_addr (ts ! i) = phys_addr (ps ! i) \<and> pg_rw (ts ! i) = pg_rw (ps ! i) \<and> pg_user (ts ! i) = pg_user (ps ! i))"
proof -
  obtain M1 ps' where "M' = M1\<lparr>mm_tables := (mm_tables M1)(t := Some (map2 clone_page ps' (fresh t)))\<rparr>" "mm_tables M1 src = Some ps'"
    using assms(1) by (auto simp: clone_table_def bind_eq_Some_conv split: prod.splits)
  then show ?thesis
    using assms(2-) by (auto simp: clone_page_shares)
qed

section \<open>Memory before the heap exists\<close>

text \<open>Allocations follow one another, and an aligned one starts a page.\<close>

lemma page_top: "(f :: u32) AND 0xFFFFF000 = page_of f"
proof -
  have "(0xFFFFF000 :: u32) = NOT 0xFFF"
    by (simp add: word_unat_eq_iff not_eq_complement)
  then show ?thesis by (simp only: page_of_def)
qed

lemma early_kmalloc_law:
  assumes "early_kmalloc sz align M = (a, M')" and f: "f = frame_ptr (mm_heap M)" and b: "unat f + 4096 + unat sz < 2 ^ 32"
  shows "f \<le> a" "unat (frame_ptr (mm_heap M')) = unat a + unat sz" "align \<and> 0x1000 \<le> f \<Longrightarrow> unat a mod 4096 = 0"
proof -
  define g where "g = page_of f + PAGE_SIZE"
  have le: "4096 * (unat f div 4096) \<le> unat f" "unat f < 4096 * (unat f div 4096) + 4096"
    using mult_div_mod_eq [of 4096 "unat f"] mod_less_divisor [of 4096 "unat f"] by linarith+
  then have g: "unat g = 4096 * (unat f div 4096) + 4096"
    using b by (simp add: g_def unat_word_ariths page_of_unat)
  have a: "a = (if align \<and> page_of f \<noteq> 0 then g else f)" "frame_ptr (mm_heap M') = a + sz"
    using assms(1) f by (auto simp: early_kmalloc_def Let_def page_top g_def)
  have "unat a \<le> unat f + 4096"
    using g le by (simp add: a)
  then show "unat (frame_ptr (mm_heap M')) = unat a + unat sz"
    using b by (simp add: a(2) unat_word_ariths)
  show "f \<le> a"
    using g le by (auto simp: a(1) word_le_nat_alt)
  assume "align \<and> 0x1000 \<le> f"
  moreover have "page_of f \<noteq> 0" if "0x1000 \<le> f"
    using that page_of_unat [of f] by (auto simp: word_le_nat_alt div_eq_0_iff)
  ultimately show "unat a mod 4096 = 0"
    using g by (simp add: a(1))
qed

end
