(* ===== verification/C_Memory.thy ===== *)
theory C_Memory
  imports C_String
begin

text \<open>
  The functions of \<^verbatim>\<open>src/src/libc/libc.cpp\<close> on memory: a map from addresses to the bytes that are mapped there.
  They work on aligned words of four bytes where they can; a read or write of an address that is not mapped
  has no result.
\<close>

section \<open>Memory\<close>

type_synonym mem = "ptr \<Rightarrow> u8 option"

definition st8 :: "ptr \<Rightarrow> u8 \<Rightarrow> mem \<Rightarrow> mem option" where
  "st8 a v m = (if m a = None then None else Some (m(a \<mapsto> v)))"

definition word_of_bytes :: "u8 \<Rightarrow> u8 \<Rightarrow> u8 \<Rightarrow> u8 \<Rightarrow> u32" where
  "word_of_bytes a b c d = ucast a OR push_bit 8 (ucast b) OR push_bit 16 (ucast c) OR push_bit 24 (ucast d)"

definition byte_of_word :: "nat \<Rightarrow> u32 \<Rightarrow> u8" where
  "byte_of_word i w = ucast (drop_bit (8 * i) w)"

definition ld32 :: "ptr \<Rightarrow> mem \<Rightarrow> u32 option" where
  "ld32 a m = do { b0 \<leftarrow> m a; b1 \<leftarrow> m (a + 1); b2 \<leftarrow> m (a + 2); b3 \<leftarrow> m (a + 3); Some (word_of_bytes b0 b1 b2 b3) }"

definition st32 :: "ptr \<Rightarrow> u32 \<Rightarrow> mem \<Rightarrow> mem option" where
  "st32 a w m = do {
     m \<leftarrow> st8 a (byte_of_word 0 w) m; m \<leftarrow> st8 (a + 1) (byte_of_word 1 w) m;
     m \<leftarrow> st8 (a + 2) (byte_of_word 2 w) m; st8 (a + 3) (byte_of_word 3 w) m }"

text \<open>\<^verbatim>\<open>ONES\<close>, \<^verbatim>\<open>HIGHS\<close>, \<^verbatim>\<open>HASZERO\<close>, and the test whether an address is aligned.\<close>

definition ONES :: u32 where "ONES = 0xFFFFFFFF div 255"
definition HIGHS :: u32 where "HIGHS = ONES * (255 div 2 + 1)"

definition haszero :: "u32 \<Rightarrow> bool" where
  "haszero x \<longleftrightarrow> (x - ONES) AND NOT x AND HIGHS \<noteq> 0"

definition word_aligned :: "ptr \<Rightarrow> bool" where
  "word_aligned a \<longleftrightarrow> a mod 4 = 0"

section \<open>Blocks of memory\<close>

fun memcpy_loop :: "ptr \<Rightarrow> ptr \<Rightarrow> nat \<Rightarrow> mem \<Rightarrow> mem option" where
  "memcpy_loop d s 0 m = Some m"
| "memcpy_loop d s (Suc n) m = do { b \<leftarrow> m s; m \<leftarrow> st8 d b m; memcpy_loop (d + 1) (s + 1) n m }"

definition memcpy :: "ptr \<Rightarrow> ptr \<Rightarrow> u32 \<Rightarrow> mem \<Rightarrow> (ptr \<times> mem) option" where
  "memcpy dest src n m = do { m \<leftarrow> memcpy_loop dest src (unat n) m; Some (dest, m) }"

fun memsetw_loop :: "ptr \<Rightarrow> u16 \<Rightarrow> nat \<Rightarrow> mem \<Rightarrow> mem option" where
  "memsetw_loop d v 0 m = Some m"
| "memsetw_loop d v (Suc n) m = do { m \<leftarrow> st8 d (ucast v) m; m \<leftarrow> st8 (d + 1) (ucast (drop_bit 8 v)) m; memsetw_loop (d + 2) v n m }"

definition memsetw :: "ptr \<Rightarrow> u16 \<Rightarrow> u32 \<Rightarrow> mem \<Rightarrow> (ptr \<times> mem) option" where
  "memsetw dest val count m = do { m \<leftarrow> memsetw_loop dest val (nat (sint count)) m; Some (dest, m) }"

fun memcmp_loop :: "ptr \<Rightarrow> ptr \<Rightarrow> nat \<Rightarrow> mem \<Rightarrow> int option" where
  "memcmp_loop l r 0 m = Some 0"
| "memcmp_loop l r (Suc n) m = do { a \<leftarrow> m l; b \<leftarrow> m r; if a = b then memcmp_loop (l + 1) (r + 1) n m else Some (uint a - uint b) }"

definition memcmp :: "ptr \<Rightarrow> ptr \<Rightarrow> u32 \<Rightarrow> mem \<Rightarrow> int option" where
  "memcmp l r n m = memcmp_loop l r (unat n) m"

text \<open>The three loops of \<^verbatim>\<open>memchr\<close>: to an aligned address, over words, over the rest.\<close>

fun seek_byte :: "(ptr \<Rightarrow> bool) \<Rightarrow> u8 \<Rightarrow> ptr \<Rightarrow> nat \<Rightarrow> mem \<Rightarrow> (ptr \<times> nat) option" where
  "seek_byte go c s 0 m = Some (s, 0)"
| "seek_byte go c s (Suc n) m = (if go s then do { b \<leftarrow> m s; if b \<noteq> c then seek_byte go c (s + 1) n m else Some (s, Suc n) } else Some (s, Suc n))"

function seek_word :: "u32 \<Rightarrow> ptr \<Rightarrow> nat \<Rightarrow> mem \<Rightarrow> (ptr \<times> nat) option" where
  "seek_word k w n m = (if 4 \<le> n then do {
       x \<leftarrow> ld32 w m;
       if \<not> haszero (x XOR k) then seek_word k (w + 4) (n - 4) m else Some (w, n) }
     else Some (w, n))"
  by pat_completeness auto
termination by (relation "measure (\<lambda>(k, w, n, m). n)") auto

definition memchr :: "ptr \<Rightarrow> u8 \<Rightarrow> u32 \<Rightarrow> mem \<Rightarrow> ptr option" where
  "memchr src c n m = do {
     (s, n) \<leftarrow> seek_byte (\<lambda>s. \<not> word_aligned s) c src (unat n) m;
     (s, n) \<leftarrow> (if n = 0 then Some (s, n) else do {
       b \<leftarrow> m s;
       if b = c then Some (s, n) else do {
         (s, n) \<leftarrow> seek_word (ONES * ucast c) s n m;
         seek_byte (\<lambda>_. True) c s n m } });
     Some (if n = 0 then NULL else s) }"

fun memrchr_loop :: "ptr \<Rightarrow> u8 \<Rightarrow> nat \<Rightarrow> mem \<Rightarrow> ptr option" where
  "memrchr_loop s c 0 m = Some NULL"
| "memrchr_loop s c (Suc n) m = do { b \<leftarrow> m (s + of_nat n); if b = c then Some (s + of_nat n) else memrchr_loop s c n m }"

definition memrchr :: "ptr \<Rightarrow> u8 \<Rightarrow> u32 \<Rightarrow> mem \<Rightarrow> ptr option" where
  "memrchr s c n m = memrchr_loop s c (unat n) m"

text \<open>
  \<^verbatim>\<open>memmove\<close>.  The loops to an aligned address return the number of bytes that are left, or none when the block
  ended before.
\<close>

fun move_up_align :: "ptr \<Rightarrow> ptr \<Rightarrow> nat \<Rightarrow> mem \<Rightarrow> (ptr \<times> ptr \<times> nat option \<times> mem) option" where
  "move_up_align d s n m = (if word_aligned d then Some (d, s, Some n, m)
     else (case n of 0 \<Rightarrow> Some (d, s, None, m)
       | Suc n \<Rightarrow> do { b \<leftarrow> m s; m \<leftarrow> st8 d b m; move_up_align (d + 1) (s + 1) n m }))"

function move_up_words :: "ptr \<Rightarrow> ptr \<Rightarrow> nat \<Rightarrow> mem \<Rightarrow> (ptr \<times> ptr \<times> nat \<times> mem) option" where
  "move_up_words d s n m = (if 4 \<le> n then do { x \<leftarrow> ld32 s m; m \<leftarrow> st32 d x m; move_up_words (d + 4) (s + 4) (n - 4) m }
     else Some (d, s, n, m))"
  by pat_completeness auto
termination by (relation "measure (\<lambda>(d, s, n, m). n)") auto

fun move_down_align :: "ptr \<Rightarrow> ptr \<Rightarrow> nat \<Rightarrow> mem \<Rightarrow> (nat option \<times> mem) option" where
  "move_down_align d s n m = (if word_aligned (d + of_nat n) then Some (Some n, m)
     else (case n of 0 \<Rightarrow> Some (None, m)
       | Suc n \<Rightarrow> do { b \<leftarrow> m (s + of_nat n); m \<leftarrow> st8 (d + of_nat n) b m; move_down_align d s n m }))"

function move_down_words :: "ptr \<Rightarrow> ptr \<Rightarrow> nat \<Rightarrow> mem \<Rightarrow> (nat \<times> mem) option" where
  "move_down_words d s n m = (if 4 \<le> n then do {
       x \<leftarrow> ld32 (s + of_nat (n - 4)) m; m \<leftarrow> st32 (d + of_nat (n - 4)) x m; move_down_words d s (n - 4) m }
     else Some (n, m))"
  by pat_completeness auto
termination by (relation "measure (\<lambda>(d, s, n, m). n)") auto

fun move_down :: "ptr \<Rightarrow> ptr \<Rightarrow> nat \<Rightarrow> mem \<Rightarrow> mem option" where
  "move_down d s 0 m = Some m"
| "move_down d s (Suc n) m = do { b \<leftarrow> m (s + of_nat n); m \<leftarrow> st8 (d + of_nat n) b m; move_down d s n m }"

declare seek_word.simps [simp del] move_up_words.simps [simp del] move_down_words.simps [simp del]
declare move_up_align.simps [simp del] move_down_align.simps [simp del]

definition memmove :: "ptr \<Rightarrow> ptr \<Rightarrow> u32 \<Rightarrow> mem \<Rightarrow> (ptr \<times> mem) option" where
  "memmove d s n m = (if d = s then Some (d, m)
     else if s + n \<le> d \<or> d + n \<le> s then memcpy d s n m
     else if d < s then do {
       (d', s', k, m) \<leftarrow> (if s mod 4 = d mod 4 then do {
           (d', s', k, m) \<leftarrow> move_up_align d s (unat n) m;
           case k of None \<Rightarrow> Some (d', s', 0, m) | Some k \<Rightarrow> move_up_words d' s' k m }
         else Some (d, s, unat n, m));
       m \<leftarrow> memcpy_loop d' s' k m;
       Some (d, m) }
     else do {
       (k, m) \<leftarrow> (if s mod 4 = d mod 4 then do {
           (k, m) \<leftarrow> move_down_align d s (unat n) m;
           case k of None \<Rightarrow> Some (0, m) | Some k \<Rightarrow> move_down_words d s k m }
         else Some (unat n, m));
       m \<leftarrow> move_down d s k m;
       Some (d, m) })"

section \<open>Strings\<close>

text \<open>
  The loops that look for a byte with the property \<open>stop\<close>: to an aligned address, over the words whose test \<open>stopw\<close>
  fails, and over bytes.  The first says whether it found one.
\<close>

partial_function (option) scan_align :: "(u8 \<Rightarrow> bool) \<Rightarrow> ptr \<Rightarrow> mem \<Rightarrow> (ptr \<times> bool) option" where
  "scan_align stop s m = (if word_aligned s then Some (s, False)
     else do { b \<leftarrow> m s; if stop b then Some (s, True) else scan_align stop (s + 1) m })"

partial_function (option) scan_words :: "(u32 \<Rightarrow> bool) \<Rightarrow> ptr \<Rightarrow> mem \<Rightarrow> ptr option" where
  "scan_words stopw w m = do { x \<leftarrow> ld32 w m; if stopw x then Some w else scan_words stopw (w + 4) m }"

partial_function (option) scan_bytes :: "(u8 \<Rightarrow> bool) \<Rightarrow> ptr \<Rightarrow> mem \<Rightarrow> ptr option" where
  "scan_bytes stop s m = do { b \<leftarrow> m s; if stop b then Some s else scan_bytes stop (s + 1) m }"

definition strlen_mem :: "ptr \<Rightarrow> mem \<Rightarrow> u32 option" where
  "strlen_mem s m = do {
     (p, found) \<leftarrow> scan_align (\<lambda>b. b = 0) s m;
     if found then Some (p - s)
     else do { w \<leftarrow> scan_words haszero p m; p \<leftarrow> scan_bytes (\<lambda>b. b = 0) w m; Some (p - s) } }"

definition strchrnul_mem :: "ptr \<Rightarrow> u8 \<Rightarrow> mem \<Rightarrow> ptr option" where
  "strchrnul_mem s c m = (if c = 0 then do { l \<leftarrow> strlen_mem s m; Some (s + l) }
     else do {
       (p, found) \<leftarrow> scan_align (\<lambda>b. b = 0 \<or> b = c) s m;
       if found then Some p
       else do {
         w \<leftarrow> scan_words (\<lambda>x. haszero x \<or> haszero (x XOR (ONES * ucast c))) p m;
         scan_bytes (\<lambda>b. b = 0 \<or> b = c) w m } })"

definition strchr_mem :: "ptr \<Rightarrow> u8 \<Rightarrow> mem \<Rightarrow> ptr option" where
  "strchr_mem s c m = do { r \<leftarrow> strchrnul_mem s c m; b \<leftarrow> m r; Some (if b = c then r else NULL) }"

definition strrchr_mem :: "ptr \<Rightarrow> u8 \<Rightarrow> mem \<Rightarrow> ptr option" where
  "strrchr_mem s c m = do { l \<leftarrow> strlen_mem s m; memrchr s c (l + 1) m }"

definition lfind :: "ptr \<Rightarrow> u8 \<Rightarrow> mem \<Rightarrow> u32 option" where
  "lfind s c m = strchr_mem s c m"

definition rfind :: "ptr \<Rightarrow> u8 \<Rightarrow> mem \<Rightarrow> u32 option" where
  "rfind s c m = strrchr_mem s c m"

text \<open>\<^verbatim>\<open>strdup\<close> with the address \<^verbatim>\<open>malloc\<close> returns.\<close>

definition strdup :: "(u32 \<Rightarrow> ptr) \<Rightarrow> ptr \<Rightarrow> mem \<Rightarrow> (ptr \<times> mem) option" where
  "strdup alloc s m = do { l \<leftarrow> strlen_mem s m; memcpy (alloc (l + 1)) s (l + 1) m }"

text \<open>The loops of \<^verbatim>\<open>stpcpy\<close>; the first says whether it copied the terminator.\<close>

partial_function (option) copy_align :: "ptr \<Rightarrow> ptr \<Rightarrow> mem \<Rightarrow> (ptr \<times> ptr \<times> bool \<times> mem) option" where
  "copy_align d s m = (if word_aligned s then Some (d, s, False, m)
     else do { b \<leftarrow> m s; m \<leftarrow> st8 d b m; if b = 0 then Some (d, s, True, m) else copy_align (d + 1) (s + 1) m })"

partial_function (option) copy_words :: "ptr \<Rightarrow> ptr \<Rightarrow> mem \<Rightarrow> (ptr \<times> ptr \<times> mem) option" where
  "copy_words d s m = do {
     x \<leftarrow> ld32 s m;
     if haszero x then Some (d, s, m) else do { m \<leftarrow> st32 d x m; copy_words (d + 4) (s + 4) m } }"

partial_function (option) copy_bytes :: "ptr \<Rightarrow> ptr \<Rightarrow> mem \<Rightarrow> (ptr \<times> mem) option" where
  "copy_bytes d s m = do { b \<leftarrow> m s; m \<leftarrow> st8 d b m; if b = 0 then Some (d, m) else copy_bytes (d + 1) (s + 1) m }"

definition stpcpy :: "ptr \<Rightarrow> ptr \<Rightarrow> mem \<Rightarrow> (ptr \<times> mem) option" where
  "stpcpy d s m = (if s mod 4 = d mod 4 then do {
       (d, s, ended, m) \<leftarrow> copy_align d s m;
       if ended then Some (d, m) else do { (d, s, m) \<leftarrow> copy_words d s m; copy_bytes d s m } }
     else copy_bytes d s m)"

definition strcpy :: "ptr \<Rightarrow> ptr \<Rightarrow> mem \<Rightarrow> (ptr \<times> mem) option" where
  "strcpy dest src m = do { (_, m) \<leftarrow> stpcpy dest src m; Some (dest, m) }"

text \<open>\<^verbatim>\<open>strncpy\<close> does not write the terminator.\<close>

fun strncpy_loop :: "ptr \<Rightarrow> ptr \<Rightarrow> nat \<Rightarrow> mem \<Rightarrow> mem option" where
  "strncpy_loop d s 0 m = Some m"
| "strncpy_loop d s (Suc n) m = do { b \<leftarrow> m s; if b = 0 then Some m else do { m \<leftarrow> st8 d b m; strncpy_loop (d + 1) (s + 1) n m } }"

definition strncpy :: "ptr \<Rightarrow> ptr \<Rightarrow> u32 \<Rightarrow> mem \<Rightarrow> (ptr \<times> mem) option" where
  "strncpy dest src n m = do { m \<leftarrow> strncpy_loop dest src (unat n) m; Some (dest, m) }"

partial_function (option) strcat_loop :: "ptr \<Rightarrow> ptr \<Rightarrow> mem \<Rightarrow> (ptr \<times> mem) option" where
  "strcat_loop d s m = do { b \<leftarrow> m s; if b = 0 then Some (d, m) else do { m \<leftarrow> st8 d b m; strcat_loop (d + 1) (s + 1) m } }"

definition strcat :: "ptr \<Rightarrow> ptr \<Rightarrow> mem \<Rightarrow> (ptr \<times> mem) option" where
  "strcat dst src m = do {
     e \<leftarrow> scan_bytes (\<lambda>b. b = 0) dst m;
     (e, m) \<leftarrow> strcat_loop e src m;
     m \<leftarrow> st8 e 0 m;
     Some (dst, m) }"

end
