(* ===== verification/C_Scan.thy ===== *)
theory C_Scan
  imports C_Memory
begin

text \<open>
  The searches of \<^verbatim>\<open>libc.cpp\<close> in memory: the word loops find the same byte as byte loops, and read only aligned
  words that hold a byte of the string or block.
\<close>

section \<open>Bytes of a word\<close>

lemma bit_beyond_8: "8 \<le> n \<Longrightarrow> \<not> bit (w :: u8) n"
  using bit_imp_le_length [of w n] by auto

lemma byte_of_word_of_bytes:
  "byte_of_word 0 (word_of_bytes a b c d) = a" "byte_of_word (Suc 0) (word_of_bytes a b c d) = b"
  "byte_of_word 2 (word_of_bytes a b c d) = c" "byte_of_word 3 (word_of_bytes a b c d) = d"
  by (rule bit_word_eqI, auto simp: byte_of_word_def word_of_bytes_def bit_simps bit_beyond_8)+

lemma bytes_eqI:
  assumes "byte_of_word 0 v = byte_of_word 0 w" and "byte_of_word (Suc 0) v = byte_of_word (Suc 0) w"
    and "byte_of_word 2 v = byte_of_word 2 w" and "byte_of_word 3 v = byte_of_word 3 w"
  shows "v = w"
proof (rule bit_word_eqI)
  have get: "bit x (8 * i + n) = bit (byte_of_word i x) n" if "n < 8" for x :: u32 and i n
    using that by (simp add: byte_of_word_def bit_simps)
  fix n assume "n < LENGTH(32)"
  then consider "n < 8" | "8 \<le> n" "n < 16" | "16 \<le> n" "n < 24" | "24 \<le> n" "n < 32"
    by (auto simp: not_less [symmetric])
  then show "bit v n = bit w n"
  proof cases
    case 1 then show ?thesis using get [where n = n and i = 0] assms(1) by simp
  next
    case 2 then show ?thesis using get [where n = "n - 8" and i = "Suc 0"] assms(2) by simp
  next
    case 3 then show ?thesis using get [where n = "n - 16" and i = 2] assms(3) by simp
  next
    case 4 then show ?thesis using get [where n = "n - 24" and i = 3] assms(4) by simp
  qed
qed

lemma byte_of_word_ops:
  "byte_of_word i (v XOR w) = byte_of_word i v XOR byte_of_word i w" "byte_of_word i (v AND w) = byte_of_word i v AND byte_of_word i w"
  "i < 4 \<Longrightarrow> byte_of_word i (NOT w) = NOT (byte_of_word i w)"
  by (rule bit_word_eqI, auto simp: byte_of_word_def bit_simps)+

lemma word_of_bytes_ops:
  "word_of_bytes a b c d XOR word_of_bytes a' b' c' d' = word_of_bytes (a XOR a') (b XOR b') (c XOR c') (d XOR d')"
  "word_of_bytes a b c d AND word_of_bytes a' b' c' d' = word_of_bytes (a AND a') (b AND b') (c AND c') (d AND d')"
  "NOT (word_of_bytes a b c d) = word_of_bytes (NOT a) (NOT b) (NOT c) (NOT d)"
  by (rule bytes_eqI, simp_all add: byte_of_word_ops byte_of_word_of_bytes)+

lemma word_of_bytes_eq: "word_of_bytes a b c d = word_of_bytes a' b' c' d' \<longleftrightarrow> a = a' \<and> b = b' \<and> c = c' \<and> d = d'"
  by (metis byte_of_word_of_bytes)

lemma word_of_bytes_sum: "word_of_bytes a b c d = ucast a + 256 * ucast b + 65536 * ucast c + 16777216 * ucast d"
proof -
  have "word_of_bytes a b c d = ucast a + push_bit 8 (ucast b) + push_bit 16 (ucast c) + push_bit 24 (ucast d)"
    unfolding word_of_bytes_def or.assoc [symmetric]
    by (subst disjunctive_add, auto simp: bit_simps bit_beyond_8)+
  then show ?thesis by (simp add: push_bit_eq_mult)
qed

lemma ucast_minus: "(ucast ((x :: u8) - k) :: u32) = ucast x - ucast k + 256 * of_bool (x < k)"
proof -
  have "uint (x - k) = uint x - uint k + 256 * of_bool (x < k)"
    by (simp add: uint_sub_if' word_less_def)
  then have "(of_int (uint (x - k)) :: u32) = of_int (uint x - uint k + 256 * of_bool (x < k))"
    by simp
  then show ?thesis by simp
qed

lemma word_of_bytes_minus_ones:
  "word_of_bytes a b c d - ONES = word_of_bytes (a - 1) (b - (if a < 1 then 2 else 1))
     (c - (if b < (if a < 1 then 2 else 1) then 2 else 1)) (d - (if c < (if b < (if a < 1 then 2 else 1) then 2 else 1) then 2 else 1))"
proof -
  have ones: "ONES = 1 + 256 * 1 + 65536 * 1 + 16777216 * 1"
    by (simp add: ONES_def)
  have carry: "(ucast (if P then 2 else (1 :: u8)) :: u32) = 1 + of_bool P" for P
    by simp
  define p where "p = (if a < 1 then 2 else (1 :: u8))"
  define q where "q = (if b < p then 2 else (1 :: u8))"
  define r where "r = (if c < q then 2 else (1 :: u8))"
  have u: "(ucast p :: u32) = 1 + of_bool (a < 1)" "(ucast q :: u32) = 1 + of_bool (b < p)" "(ucast r :: u32) = 1 + of_bool (c < q)"
    unfolding p_def q_def r_def by (rule carry)+
  have "word_of_bytes (a - 1) (b - p) (c - q) (d - r) = word_of_bytes a b c d - ONES + 256 * 16777216 * of_bool (d < r)"
    unfolding word_of_bytes_sum ucast_minus u ones by (simp add: algebra_simps)
  then show ?thesis by (simp add: p_def q_def r_def)
qed

text \<open>The test of four bytes at once: the lowest zero byte shows, because no borrow comes into it from below.\<close>

lemma high_bit: "(x :: u8) AND 128 \<noteq> 0 \<longleftrightarrow> 128 \<le> unat x"
proof -
  have "x AND 128 \<noteq> 0 \<longleftrightarrow> bit x 7"
    using bit_iff_and_push_bit_not_eq_0 [of x 7] by (simp add: push_bit_eq_mult)
  also have "\<dots> \<longleftrightarrow> odd (unat x div 128)"
    using bit_unsigned_iff [where 'a = nat, of x 7] by (simp add: bit_iff_odd)
  also have "\<dots> \<longleftrightarrow> 128 \<le> unat x"
  proof -
    have "unat x < 256" using unat_bound [of x] by simp
    then have "unat x div 128 < 2" by simp
    then have "odd (unat x div 128) \<longleftrightarrow> unat x div 128 \<noteq> 0"
      by (auto simp: less_2_cases_iff)
    then show ?thesis by (simp add: div_eq_0_iff not_less)
  qed
  finally show ?thesis .
qed

lemma and_128:
  "x AND y AND (128 :: u8) \<noteq> 0 \<longleftrightarrow> x AND 128 \<noteq> 0 \<and> y AND 128 \<noteq> 0"
  "NOT x AND (128 :: u8) \<noteq> 0 \<longleftrightarrow> \<not> (x AND 128 \<noteq> 0)"
proof -
  have b: "z AND 128 \<noteq> 0 \<longleftrightarrow> bit z 7" for z :: u8
    using bit_iff_and_push_bit_not_eq_0 [of z 7] by (simp add: push_bit_eq_mult)
  show "x AND y AND (128 :: u8) \<noteq> 0 \<longleftrightarrow> x AND 128 \<noteq> 0 \<and> y AND 128 \<noteq> 0" "NOT x AND (128 :: u8) \<noteq> 0 \<longleftrightarrow> \<not> (x AND 128 \<noteq> 0)"
    unfolding b and.assoc [symmetric] by (simp_all add: bit_and_iff bit_not_iff)
qed

lemma high_bit_minus:
  assumes "k \<le> 2"
  shows "(x - k) AND NOT x AND (128 :: u8) \<noteq> 0 \<longleftrightarrow> x < k"
proof -
  have "unat k \<le> 2" using assms by (simp add: word_le_nat_alt)
  then show ?thesis
    unfolding and_128 unfolding high_bit using unat_bound [of x]
    by (auto simp: unat_sub_if' word_less_nat_alt)
qed

lemma zero_bytes: "word_of_bytes 0 0 0 0 = 0"
  by (simp add: word_of_bytes_def)

lemma haszero_bytes: "haszero (word_of_bytes a b c d) \<longleftrightarrow> a = 0 \<or> b = 0 \<or> c = 0 \<or> d = 0"
proof -
  have h: "HIGHS = word_of_bytes 128 128 128 128"
    by (simp add: HIGHS_def ONES_def word_of_bytes_sum)
  define p where "p = (if a < 1 then 2 else (1 :: u8))"
  define q where "q = (if b < p then 2 else (1 :: u8))"
  define r where "r = (if c < q then 2 else (1 :: u8))"
  have "haszero (word_of_bytes a b c d) \<longleftrightarrow> a < 1 \<or> b < p \<or> c < q \<or> d < r"
    unfolding haszero_def word_of_bytes_minus_ones h p_def [symmetric] q_def [symmetric] r_def [symmetric] word_of_bytes_ops
      zero_bytes [symmetric] word_of_bytes_eq de_Morgan_conj and.assoc
    by (subst high_bit_minus, simp add: p_def q_def r_def)+ (simp add: p_def)
  moreover have "x < 1 \<longleftrightarrow> x = 0" for x :: u8 by (simp add: word_less_1)
  ultimately show ?thesis
    by (auto simp: p_def q_def r_def)
qed

lemma haszero_xor:
  "haszero (word_of_bytes a b c d XOR (ONES * ucast k)) \<longleftrightarrow> a = k \<or> b = k \<or> c = k \<or> d = k"
proof -
  have "ONES * ucast k = word_of_bytes k k k k"
    by (simp add: ONES_def word_of_bytes_sum)
  moreover have "x XOR k = 0 \<longleftrightarrow> x = k" for x :: u8
    by (metis bit.xor_left_self xor_self_eq xor.right_neutral)
  ultimately show ?thesis
    by (simp add: word_of_bytes_ops haszero_bytes)
qed

section \<open>Scanning a string\<close>

text \<open>\<open>n\<close> bytes without the property follow \<open>s\<close>, and then one with it; aligned words are mapped as a whole.\<close>

definition reach :: "(u8 \<Rightarrow> bool) \<Rightarrow> ptr \<Rightarrow> nat \<Rightarrow> mem \<Rightarrow> bool" where
  "reach P s n m \<longleftrightarrow> (\<forall>i<n. \<exists>b. m (s + of_nat i) = Some b \<and> \<not> P b) \<and> (\<exists>b. m (s + of_nat n) = Some b \<and> P b)"

definition words_mapped :: "mem \<Rightarrow> bool" where
  "words_mapped m \<longleftrightarrow> (\<forall>a. word_aligned a \<longrightarrow> m a \<noteq> None \<longrightarrow> m (a + 1) \<noteq> None \<and> m (a + 2) \<noteq> None \<and> m (a + 3) \<noteq> None)"

lemma reach_0: "reach P s 0 m \<longleftrightarrow> (\<exists>b. m s = Some b \<and> P b)"
  by (simp add: reach_def)

lemma reach_Suc: "reach P s (Suc n) m \<longleftrightarrow> (\<exists>b. m s = Some b \<and> \<not> P b) \<and> reach P (s + 1) n m"
  by (auto simp: reach_def All_less_Suc2 algebra_simps)

lemma reach_add: "reach P s (k + n) m \<longleftrightarrow> (\<forall>i<k. \<exists>b. m (s + of_nat i) = Some b \<and> \<not> P b) \<and> reach P (s + of_nat k) n m"
  by (induction k arbitrary: s) (auto simp: reach_Suc All_less_Suc2 algebra_simps)

lemma scan_bytes_law: "reach P s n m \<Longrightarrow> scan_bytes P s m = Some (s + of_nat n)"
proof (induction n arbitrary: s)
  case 0
  then show ?case by (subst scan_bytes.simps) (auto simp: reach_0)
next
  case (Suc n)
  then show ?case by (subst scan_bytes.simps) (auto simp: reach_Suc algebra_simps)
qed

lemma scan_align_law:
  "reach P s n m \<Longrightarrow> scan_align P s m = Some (s + of_nat n, True)
    \<or> (\<exists>k\<le>n. scan_align P s m = Some (s + of_nat k, False) \<and> word_aligned (s + of_nat k))"
proof (induction n arbitrary: s)
  case 0
  then show ?case by (subst (1 2) scan_align.simps) (auto simp: reach_0)
next
  case (Suc n)
  then obtain b where b: "m s = Some b" "\<not> P b" "reach P (s + 1) n m"
    by (auto simp: reach_Suc)
  show ?case
  proof (cases "word_aligned s")
    case True
    then show ?thesis by (subst (2) scan_align.simps) (auto intro!: exI [of _ 0])
  next
    case False
    then have "scan_align P s m = scan_align P (s + 1) m"
      using b by (subst scan_align.simps) simp
    moreover have "s + 1 + of_nat k = s + of_nat (Suc k)" for k
      by simp
    ultimately show ?thesis
      using Suc.IH [OF b(3)] by (metis Suc_le_mono)
  qed
qed

lemma aligned_unat: "word_aligned a \<longleftrightarrow> unat a mod 4 = 0"
proof -
  have "unat (a mod 4) = unat a mod 4" by (simp add: unat_mod)
  then show ?thesis by (simp only: word_aligned_def word_unat_eq_iff unsigned_0)
qed

lemma aligned_add_4: "word_aligned (a + 4) \<longleftrightarrow> word_aligned a"
proof -
  have "unat (a + 4) mod 4 = (unat a + 4) mod 4"
    by (simp add: unat_word_ariths mod_mod_cancel)
  then show ?thesis by (simp add: aligned_unat)
qed

lemma ld32_mapped:
  assumes "words_mapped m" and "word_aligned a" and "m a \<noteq> None"
  obtains b0 b1 b2 b3 where "m a = Some b0" "m (a + 1) = Some b1" "m (a + 2) = Some b2" "m (a + 3) = Some b3"
    "ld32 a m = Some (word_of_bytes b0 b1 b2 b3)"
  using assms unfolding words_mapped_def by (auto simp: ld32_def)

text \<open>A scan over aligned words whose test says whether one of the four bytes has the property.\<close>

definition word_test :: "(u8 \<Rightarrow> bool) \<Rightarrow> (u32 \<Rightarrow> bool) \<Rightarrow> bool" where
  "word_test P W \<longleftrightarrow> (\<forall>a b c d. W (word_of_bytes a b c d) \<longleftrightarrow> P a \<or> P b \<or> P c \<or> P d)"

lemma reach_4:
  "reach P s n m \<Longrightarrow> 4 \<le> n \<longleftrightarrow> (\<forall>b. m s = Some b \<longrightarrow> \<not> P b) \<and> (\<forall>b. m (s + 1) = Some b \<longrightarrow> \<not> P b)
     \<and> (\<forall>b. m (s + 2) = Some b \<longrightarrow> \<not> P b) \<and> (\<forall>b. m (s + 3) = Some b \<longrightarrow> \<not> P b)"
  by (cases n; cases "n - 1"; cases "n - 2"; cases "n - 3") (auto simp: reach_Suc reach_0 algebra_simps)

lemma scan_words_law:
  assumes "words_mapped m" and "word_test P W" and "word_aligned s" and "reach P s n m"
  shows "\<exists>k\<le>n. scan_words W s m = Some (s + of_nat k)"
  using assms(3,4)
proof (induction n arbitrary: s rule: less_induct)
  case (less n)
  have "m s \<noteq> None"
    using less.prems(2) by (cases n) (auto simp: reach_0 reach_Suc)
  then obtain b0 b1 b2 b3 where b: "m s = Some b0" "m (s + 1) = Some b1" "m (s + 2) = Some b2" "m (s + 3) = Some b3"
    "ld32 s m = Some (word_of_bytes b0 b1 b2 b3)"
    using ld32_mapped [OF assms(1) less.prems(1)] by metis
  have W: "W (word_of_bytes b0 b1 b2 b3) \<longleftrightarrow> P b0 \<or> P b1 \<or> P b2 \<or> P b3"
    using assms(2) by (simp add: word_test_def)
  show ?case
  proof (cases "4 \<le> n")
    case False
    then have "scan_words W s m = Some s"
      using reach_4 [OF less.prems(2)] b W by (subst scan_words.simps) auto
    then show ?thesis by (intro exI [of _ 0]) simp
  next
    case True
    then have step: "scan_words W s m = scan_words W (s + 4) m"
      using reach_4 [OF less.prems(2)] b W by (subst scan_words.simps) auto
    have "reach P (s + 4) (n - 4) m"
      using less.prems(2) reach_add [of P s 4 "n - 4" m] True by simp
    then obtain k where "k \<le> n - 4" "scan_words W (s + 4) m = Some (s + 4 + of_nat k)"
      using less.IH [of "n - 4" "s + 4"] True less.prems(1) by (auto simp: aligned_add_4)
    then show ?thesis
      unfolding step using True by (intro exI [of _ "k + 4"]) (auto simp: algebra_simps)
  qed
qed

text \<open>The three loops together find the byte.\<close>

lemma scan_law:
  assumes "words_mapped m" and "word_test P W" and "reach P s n m"
  shows "do { (p, found) \<leftarrow> scan_align P s m;
      if found then Some p else do { w \<leftarrow> scan_words W p m; scan_bytes P w m } } = Some (s + of_nat n)"
  using scan_align_law [OF assms(3)]
proof
  assume "\<exists>k\<le>n. scan_align P s m = Some (s + of_nat k, False) \<and> word_aligned (s + of_nat k)"
  then obtain k where k: "k \<le> n" "scan_align P s m = Some (s + of_nat k, False)" "word_aligned (s + of_nat k)"
    by blast
  have r: "reach P (s + of_nat k) (n - k) m"
    using assms(3) reach_add [of P s k "n - k" m] k(1) by simp
  obtain j where j: "j \<le> n - k" "scan_words W (s + of_nat k) m = Some (s + of_nat k + of_nat j)"
    using scan_words_law [OF assms(1,2) k(3) r] by blast
  have "reach P (s + of_nat k + of_nat j) (n - k - j) m"
    using r reach_add [of P "s + of_nat k" j "n - k - j" m] unfolding le_add_diff_inverse [OF j(1)] by blast
  moreover have "s + of_nat k + of_nat j + of_nat (n - k - j) = s + of_nat n"
    using k(1) j(1) by (metis (no_types, lifting) add.assoc add_diff_cancel_left' le_add_diff_inverse of_nat_add)
  ultimately show ?thesis
    using k(2) j(2) scan_bytes_law by simp
qed simp

section \<open>Strings in memory\<close>

fun cstr_at :: "mem \<Rightarrow> ptr \<Rightarrow> cstring \<Rightarrow> bool" where
  "cstr_at m a [] \<longleftrightarrow> m a = Some 0"
| "cstr_at m a (c # s) \<longleftrightarrow> m a = Some c \<and> c \<noteq> 0 \<and> cstr_at m (a + 1) s"

lemma cstr_reach_end: "cstr_at m a s \<Longrightarrow> reach (\<lambda>b. b = 0) a (length s) m"
  by (induction s arbitrary: a) (auto simp: reach_0 reach_Suc)

lemma cstr_reach_byte: "cstr_at m a s \<Longrightarrow> c \<noteq> 0 \<Longrightarrow> reach (\<lambda>b. b = 0 \<or> b = c) a (span_length (\<lambda>x. x \<noteq> c) s) m"
  by (induction s arbitrary: a) (auto simp: reach_0 reach_Suc)

lemma cstr_at_drop: "cstr_at m a s \<Longrightarrow> k \<le> length s \<Longrightarrow> cstr_at m (a + of_nat k) (drop k s)"
proof (induction k arbitrary: a s)
  case (Suc k)
  then obtain c t where "s = c # t" by (cases s) auto
  then show ?case using Suc.IH [of "a + 1" t] Suc.prems by (simp add: add.assoc)
qed simp

lemma cstr_at_first: "cstr_at m a s \<Longrightarrow> m a = Some (at s)"
  by (cases s) (auto simp: at_def)

lemma zero_test: "word_test (\<lambda>b. b = 0) haszero"
  by (simp add: word_test_def haszero_bytes)

lemma byte_test: "word_test (\<lambda>b. b = 0 \<or> b = c) (\<lambda>x. haszero x \<or> haszero (x XOR (ONES * ucast c)))"
  by (auto simp: word_test_def haszero_bytes haszero_xor)

lemma strlen_law:
  assumes "words_mapped m" and "cstr_at m a s"
  shows "strlen_mem a m = Some (of_nat (length s))"
proof -
  have "strlen_mem a m = map_option (\<lambda>p. p - a) (do { (p, found) \<leftarrow> scan_align (\<lambda>b. b = 0) a m;
      if found then Some p else do { w \<leftarrow> scan_words haszero p m; scan_bytes (\<lambda>b. b = 0) w m } })"
    by (cases "scan_align (\<lambda>b. b = 0) a m") (auto simp: strlen_mem_def map_option_bind comp_def map_conv_bind_option)
  then show ?thesis
    by (simp only: scan_law [OF assms(1) zero_test cstr_reach_end [OF assms(2)]]) simp
qed

lemma strchrnul_law:
  assumes "words_mapped m" and "cstr_at m a s"
  shows "strchrnul_mem a c m = Some (a + of_nat (length s - length (strchrnul s c)))"
proof (cases "c = 0")
  case True
  then show ?thesis
    using strlen_law [OF assms] by (simp add: strchrnul_mem_def strchrnul_def)
next
  case False
  have "length s - length (strchrnul s c) = span_length (\<lambda>x. x \<noteq> c) s"
    using False by (simp add: strchrnul_def span_length_eq length_takeWhile_le)
  then show ?thesis
    using scan_law [OF assms(1) byte_test cstr_reach_byte [OF assms(2) False]] False
    by (simp add: strchrnul_mem_def)
qed

lemma strchr_law:
  assumes "words_mapped m" and "cstr_at m a s"
  shows "strchr_mem a c m = Some (case strchr s c of None \<Rightarrow> NULL | Some r \<Rightarrow> a + of_nat (length s - length r))"
proof -
  have "strchrnul s c = drop (length s - length (strchrnul s c)) s" "length s - length (strchrnul s c) \<le> length s"
    by (simp_all add: strchrnul_def span_length_eq length_takeWhile_le)
  then have "m (a + of_nat (length s - length (strchrnul s c))) = Some (at (strchrnul s c))"
    using cstr_at_first [OF cstr_at_drop [OF assms(2)]] by metis
  then show ?thesis
    using strchrnul_law [OF assms] by (auto simp: strchr_mem_def strchr_def Let_def)
qed

section \<open>Searching a block\<close>

definition block_mapped :: "mem \<Rightarrow> ptr \<Rightarrow> nat \<Rightarrow> bool" where
  "block_mapped m a n \<longleftrightarrow> (\<forall>i<n. m (a + of_nat i) \<noteq> None)"

text \<open>The reference: the bytes one after the other.\<close>

fun first_byte :: "ptr \<Rightarrow> u8 \<Rightarrow> nat \<Rightarrow> mem \<Rightarrow> ptr" where
  "first_byte s c 0 m = NULL"
| "first_byte s c (Suc n) m = (if m s = Some c then s else first_byte (s + 1) c n m)"

fun last_byte :: "ptr \<Rightarrow> u8 \<Rightarrow> nat \<Rightarrow> mem \<Rightarrow> ptr" where
  "last_byte s c 0 m = NULL"
| "last_byte s c (Suc n) m = (if m (s + of_nat n) = Some c then s + of_nat n else last_byte s c n m)"

lemma block_mapped_Suc: "block_mapped m s (Suc n) \<longleftrightarrow> m s \<noteq> None \<and> block_mapped m (s + 1) n"
  by (auto simp: block_mapped_def All_less_Suc2 algebra_simps)

text \<open>A loop of the search skips bytes that are not the one.\<close>

definition skips :: "u8 \<Rightarrow> mem \<Rightarrow> ptr \<Rightarrow> nat \<Rightarrow> ptr \<Rightarrow> nat \<Rightarrow> bool" where
  "skips c m s n s' n' \<longleftrightarrow> n' \<le> n \<and> first_byte s c n m = first_byte s' c n' m \<and> block_mapped m s' n'"

lemma seek_byte_law:
  "block_mapped m s n \<Longrightarrow> \<exists>s' n'. seek_byte go c s n m = Some (s', n') \<and> skips c m s n s' n' \<and> (n' \<noteq> 0 \<longrightarrow> go s' \<longrightarrow> m s' = Some c)"
proof (induction n arbitrary: s)
  case (Suc n)
  then obtain b where b: "m s = Some b" "block_mapped m (s + 1) n" by (auto simp: block_mapped_Suc)
  show ?case
  proof (cases "go s \<and> b \<noteq> c")
    case True
    then have "seek_byte go c s (Suc n) m = seek_byte go c (s + 1) n m" "first_byte s c (Suc n) m = first_byte (s + 1) c n m"
      using b(1) by simp_all
    then show ?thesis using Suc.IH [OF b(2)] by (auto simp: skips_def)
  next
    case False
    then have "seek_byte go c s (Suc n) m = Some (s, Suc n)"
      using b(1) by auto
    then show ?thesis using False b(1) Suc.prems by (auto simp: skips_def)
  qed
qed (simp add: skips_def)

lemma seek_word_law:
  "block_mapped m s n \<Longrightarrow> \<exists>s' n'. seek_word (ONES * ucast c) s n m = Some (s', n') \<and> skips c m s n s' n'"
proof (induction n arbitrary: s rule: less_induct)
  case (less n)
  show ?case
  proof (cases "4 \<le> n")
    case False
    then show ?thesis using less.prems by (subst seek_word.simps) (simp add: skips_def)
  next
    case True
    define k where "k = n - 4"
    have n: "n = Suc (Suc (Suc (Suc k)))"
      using True by (simp add: k_def)
    obtain b0 b1 b2 b3 where b: "m s = Some b0" "m (s + 1) = Some b1" "m (s + 2) = Some b2" "m (s + 3) = Some b3"
      and rest: "block_mapped m (s + 4) k"
      using less.prems by (auto simp: n block_mapped_Suc algebra_simps)
    then have ld: "ld32 s m = Some (word_of_bytes b0 b1 b2 b3)" by (simp add: ld32_def)
    show ?thesis
    proof (cases "b0 = c \<or> b1 = c \<or> b2 = c \<or> b3 = c")
      case hit: True
      then show ?thesis
        using True less.prems ld haszero_xor by (subst seek_word.simps) (simp add: skips_def)
    next
      case miss: False
      then have "seek_word (ONES * ucast c) s n m = seek_word (ONES * ucast c) (s + 4) k m"
        using True ld haszero_xor by (subst seek_word.simps) (simp add: n)
      moreover have "first_byte s c n m = first_byte (s + 4) c k m"
        using miss b by (simp add: n algebra_simps)
      ultimately show ?thesis
        using less.IH [of k "s + 4"] rest by (auto simp: skips_def n)
    qed
  qed
qed

lemma memchr_law:
  assumes "block_mapped m s (unat n)"
  shows "memchr s c n m = Some (first_byte s c (unat n) m)"
proof -
  obtain s1 n1 where 1: "seek_byte (\<lambda>s. \<not> word_aligned s) c s (unat n) m = Some (s1, n1)" "skips c m s (unat n) s1 n1"
    using seek_byte_law [OF assms] by metis
  have b1: "block_mapped m s1 n1" and f1: "first_byte s c (unat n) m = first_byte s1 c n1 m"
    using 1(2) by (simp_all add: skips_def)
  show ?thesis
  proof (cases n1)
    case 0
    then show ?thesis using 1 f1 by (simp add: memchr_def)
  next
    case (Suc k)
    then obtain b where b: "m s1 = Some b" using b1 by (auto simp: block_mapped_Suc)
    obtain s2 n2 where 2: "seek_word (ONES * ucast c) s1 n1 m = Some (s2, n2)" "skips c m s1 n1 s2 n2"
      using seek_word_law [OF b1] by metis
    obtain s3 n3 where 3: "seek_byte (\<lambda>_. True) c s2 n2 m = Some (s3, n3)" "skips c m s2 n2 s3 n3" "n3 \<noteq> 0 \<longrightarrow> m s3 = Some c"
      using seek_byte_law [of m s2 n2 "\<lambda>_. True" c] 2(2) by (auto simp: skips_def)
    have "first_byte s c (unat n) m = (if n3 = 0 then NULL else s3)"
      using f1 2(2) 3(2,3) by (cases n3) (auto simp: skips_def)
    then show ?thesis
      using 1(1) 2(1) 3(1) b Suc f1 by (auto simp: memchr_def)
  qed
qed

lemma memrchr_law: "block_mapped m s (unat n) \<Longrightarrow> memrchr s c n m = Some (last_byte s c (unat n) m)"
proof -
  have "block_mapped m s k \<Longrightarrow> memrchr_loop s c k m = Some (last_byte s c k m)" for k
    by (induction k) (auto simp: block_mapped_def)
  then show "block_mapped m s (unat n) \<Longrightarrow> ?thesis" by (simp add: memrchr_def)
qed

end
