(* ===== verification/C_Move.thy ===== *)
theory C_Move
  imports C_Scan
begin

text \<open>
  The copies of \<^verbatim>\<open>libc.cpp\<close>: the block and string functions move exactly the bytes they should, also when the blocks overlap.
\<close>

section \<open>Moving a block\<close>

text \<open>Memory after the first \<open>k\<close> bytes have been copied, and after the bytes from \<open>k\<close> to \<open>n\<close> have.\<close>

definition moved_mem :: "ptr \<Rightarrow> ptr \<Rightarrow> nat \<Rightarrow> nat \<Rightarrow> mem \<Rightarrow> mem" where
  "moved_mem d s k n m = (\<lambda>a. if k \<le> unat (a - d) \<and> unat (a - d) < n then m (s + (a - d)) else m a)"

lemma moved_none: "moved_mem d s k k m = m"
  by (rule ext) (auto simp: moved_mem_def)

lemma word_of_unat: "of_nat (unat (a :: ptr)) = a"
  by simp

lemma offset: "i < 2 ^ 32 \<Longrightarrow> unat ((d :: ptr) + of_nat i - d) = i"
  by (simp add: unat_of_nat_small)

lemma word_at_offset: "n < 2 ^ 32 \<Longrightarrow> a = d + of_nat n \<longleftrightarrow> unat (a - (d :: ptr)) = n"
  using offset [of n d] word_of_unat [of "a - d"] by auto

text \<open>The source of byte \<open>i\<close> has not been overwritten.\<close>

definition intact :: "ptr \<Rightarrow> ptr \<Rightarrow> nat \<Rightarrow> nat \<Rightarrow> nat \<Rightarrow> bool" where
  "intact d s k n i \<longleftrightarrow> \<not> (k \<le> unat (s + of_nat i - d) \<and> unat (s + of_nat i - d) < n)"

lemma moved_at: "intact d s k n i \<Longrightarrow> moved_mem d s k n m (s + of_nat i) = m (s + of_nat i)"
  by (auto simp: moved_mem_def intact_def)

lemma moved_mapped:
  assumes "n \<le> 2 ^ 32" and "block_mapped m s n" and "m a \<noteq> None"
  shows "moved_mem d s k n m a \<noteq> None"
proof -
  have "m (s + (a - d)) \<noteq> None" if "unat (a - d) < n"
    using assms(2) that unfolding block_mapped_def by (metis word_of_unat)
  then show ?thesis using assms(3) by (simp add: moved_mem_def)
qed

text \<open>One byte more, at either end.\<close>

lemma store_next:
  assumes "n < 2 ^ 32" and "k \<le> n" and "m (s + of_nat n) = Some b" and "moved_mem d s k n m (d + of_nat n) \<noteq> None"
  shows "st8 (d + of_nat n) b (moved_mem d s k n m) = Some (moved_mem d s k (Suc n) m)"
proof -
  have "(moved_mem d s k n m)(d + of_nat n \<mapsto> b) = moved_mem d s k (Suc n) m"
  proof
    fix a
    have "a = d + of_nat n \<longleftrightarrow> unat (a - d) = n"
      by (rule word_at_offset [OF assms(1)])
    then show "((moved_mem d s k n m)(d + of_nat n \<mapsto> b)) a = moved_mem d s k (Suc n) m a"
      using assms(2,3) offset [OF assms(1), of d] by (auto simp: moved_mem_def less_Suc_eq)
  qed
  then show ?thesis using assms(4) by (simp add: st8_def)
qed

lemma store_before:
  assumes "n \<le> 2 ^ 32" and "k < n" and "m (s + of_nat k) = Some b" and "moved_mem d s (Suc k) n m (d + of_nat k) \<noteq> None"
  shows "st8 (d + of_nat k) b (moved_mem d s (Suc k) n m) = Some (moved_mem d s k n m)"
proof -
  have k: "k < 2 ^ 32" using assms(1,2) by simp
  have "(moved_mem d s (Suc k) n m)(d + of_nat k \<mapsto> b) = moved_mem d s k n m"
  proof
    fix a
    have "a = d + of_nat k \<longleftrightarrow> unat (a - d) = k"
      by (rule word_at_offset [OF k])
    then show "((moved_mem d s (Suc k) n m)(d + of_nat k \<mapsto> b)) a = moved_mem d s k n m a"
      using assms(2,3) offset [OF k, of d] by (auto simp: moved_mem_def Suc_le_eq)
  qed
  then show ?thesis using assms(4) by (simp add: st8_def)
qed

definition moving :: "ptr \<Rightarrow> ptr \<Rightarrow> nat \<Rightarrow> mem \<Rightarrow> bool" where
  "moving d s n m \<longleftrightarrow> n < 2 ^ 32 \<and> block_mapped m s n \<and> block_mapped m d n"

text \<open>Copying upwards is right when the target of a byte is never above a source that is still needed.\<close>

definition upward :: "ptr \<Rightarrow> ptr \<Rightarrow> nat \<Rightarrow> bool" where
  "upward d s n \<longleftrightarrow> (\<forall>i<n. i \<le> unat (s + of_nat i - d))"

definition downward :: "ptr \<Rightarrow> ptr \<Rightarrow> nat \<Rightarrow> bool" where
  "downward d s n \<longleftrightarrow> (\<forall>i<n. unat (s + of_nat i - d) \<le> i \<or> n \<le> unat (s + of_nat i - d))"

lemma moving_bytes:
  assumes "moving d s n m" and "i < n" and "j \<le> n"
  shows "\<exists>b. m (s + of_nat i) = Some b" "moved_mem d s k j m (d + of_nat i) \<noteq> None"
proof -
  show "\<exists>b. m (s + of_nat i) = Some b"
    using assms(1,2) by (auto simp: moving_def block_mapped_def)
  show "moved_mem d s k j m (d + of_nat i) \<noteq> None"
    by (rule moved_mapped) (use assms in \<open>auto simp: moving_def block_mapped_def\<close>)
qed

lemma up_byte:
  assumes "moving d s n m" and "upward d s n" and "k < n"
  obtains b where "moved_mem d s 0 k m (s + of_nat k) = Some b" "st8 (d + of_nat k) b (moved_mem d s 0 k m) = Some (moved_mem d s 0 (Suc k) m)"
proof -
  obtain b where b: "m (s + of_nat k) = Some b" using moving_bytes(1) [OF assms(1,3) order_refl] by blast
  have "intact d s 0 k k"
    using assms(2,3) by (auto simp: upward_def intact_def not_less)
  then have "moved_mem d s 0 k m (s + of_nat k) = Some b"
    using moved_at b by metis
  moreover have "st8 (d + of_nat k) b (moved_mem d s 0 k m) = Some (moved_mem d s 0 (Suc k) m)"
    by (rule store_next) (use assms b moving_bytes(2) [OF assms(1,3)] in \<open>auto simp: moving_def\<close>)
  ultimately show thesis using that by blast
qed

lemma up_word:
  assumes "moving d s n m" and "upward d s n" and "k + 4 \<le> n"
  obtains x where "ld32 (s + of_nat k) (moved_mem d s 0 k m) = Some x" "st32 (d + of_nat k) x (moved_mem d s 0 k m) = Some (moved_mem d s 0 (k + 4) m)"
proof -
  have src: "\<exists>b. m (s + of_nat (k + i)) = Some b \<and> moved_mem d s 0 k m (s + of_nat (k + i)) = Some b" if "i < 4" for i
  proof -
    have i: "k + i < n" using that assms(3) by simp
    have "intact d s 0 k (k + i)"
      using assms(2) i by (fastforce simp: upward_def intact_def not_less)
    then show ?thesis using moving_bytes(1) [OF assms(1) i order_refl] moved_at by metis
  qed
  obtain b0 b1 b2 b3 where b: "m (s + of_nat k) = Some b0" "m (s + of_nat (Suc k)) = Some b1" "m (s + of_nat (Suc (Suc k))) = Some b2"
      "m (s + of_nat (Suc (Suc (Suc k)))) = Some b3"
    and r: "moved_mem d s 0 k m (s + of_nat k) = Some b0" "moved_mem d s 0 k m (s + of_nat k + 1) = Some b1"
      "moved_mem d s 0 k m (s + of_nat k + 2) = Some b2" "moved_mem d s 0 k m (s + of_nat k + 3) = Some b3"
    using src [of 0] src [of 1] src [of 2] src [of 3] by (auto simp: algebra_simps numeral_eq_Suc)
  have st: "st8 (d + of_nat j) b (moved_mem d s 0 j m) = Some (moved_mem d s 0 (Suc j) m)" if "m (s + of_nat j) = Some b" "j < n" for j b
    by (rule store_next) (use assms that moving_bytes(2) [OF assms(1) that(2)] in \<open>auto simp: moving_def\<close>)
  have "ld32 (s + of_nat k) (moved_mem d s 0 k m) = Some (word_of_bytes b0 b1 b2 b3)"
    using r by (simp add: ld32_def)
  moreover have "st32 (d + of_nat k) (word_of_bytes b0 b1 b2 b3) (moved_mem d s 0 k m) = Some (moved_mem d s 0 (k + 4) m)"
    unfolding st32_def One_nat_def byte_of_word_of_bytes
    using st [OF b(1)] st [OF b(2)] st [OF b(3)] st [OF b(4)] assms(3)
    by (simp add: algebra_simps numeral_eq_Suc)
  ultimately show thesis using that by blast
qed

lemma memcpy_up:
  assumes "moving d s n m" and "upward d s n"
  shows "k \<le> n \<Longrightarrow> memcpy_loop (d + of_nat k) (s + of_nat k) (n - k) (moved_mem d s 0 k m) = Some (moved_mem d s 0 n m)"
proof (induction "n - k" arbitrary: k)
  case 0
  then show ?case by simp
next
  case (Suc j)
  then have k: "k < n" "n - k = Suc (n - Suc k)" by simp_all
  obtain b where "moved_mem d s 0 k m (s + of_nat k) = Some b" "st8 (d + of_nat k) b (moved_mem d s 0 k m) = Some (moved_mem d s 0 (Suc k) m)"
    using up_byte [OF assms k(1)] by blast
  then show ?case
    using Suc.hyps(1) [of "Suc k"] Suc.hyps(2) k by (simp add: add.assoc add.commute [of 1])
qed

lemma move_up_align_law:
  assumes "moving d s n m" and "upward d s n"
  shows "k \<le> n \<Longrightarrow> move_up_align (d + of_nat k) (s + of_nat k) (n - k) (moved_mem d s 0 k m) = Some (d + of_nat n, s + of_nat n, None, moved_mem d s 0 n m)
    \<or> (\<exists>k'\<le>n. move_up_align (d + of_nat k) (s + of_nat k) (n - k) (moved_mem d s 0 k m) =
        Some (d + of_nat k', s + of_nat k', Some (n - k'), moved_mem d s 0 k' m))"
proof (induction "n - k" arbitrary: k)
  case 0
  then show ?case by (subst (1 2) move_up_align.simps) auto
next
  case (Suc j)
  then have k: "k < n" "n - k = Suc (n - Suc k)" by simp_all
  show ?case
  proof (cases "word_aligned (d + of_nat k)")
    case True
    then have "move_up_align (d + of_nat k) (s + of_nat k) (n - k) (moved_mem d s 0 k m) = Some (d + of_nat k, s + of_nat k, Some (n - k), moved_mem d s 0 k m)"
      by (subst move_up_align.simps) simp
    then show ?thesis using k(1) less_imp_le by blast
  next
    case False
    obtain b where "moved_mem d s 0 k m (s + of_nat k) = Some b" "st8 (d + of_nat k) b (moved_mem d s 0 k m) = Some (moved_mem d s 0 (Suc k) m)"
      using up_byte [OF assms k(1)] by blast
    then have "move_up_align (d + of_nat k) (s + of_nat k) (n - k) (moved_mem d s 0 k m) =
        move_up_align (d + of_nat (Suc k)) (s + of_nat (Suc k)) (n - Suc k) (moved_mem d s 0 (Suc k) m)"
      using False k(2) by (subst move_up_align.simps) (simp add: add.assoc add.commute [of 1])
    then show ?thesis
      using Suc.hyps(1) [of "Suc k"] Suc.hyps(2) k by simp
  qed
qed

lemma move_up_words_law:
  assumes "moving d s n m" and "upward d s n"
  shows "k \<le> n \<Longrightarrow> \<exists>k'\<le>n. move_up_words (d + of_nat k) (s + of_nat k) (n - k) (moved_mem d s 0 k m) =
    Some (d + of_nat k', s + of_nat k', n - k', moved_mem d s 0 k' m)"
proof (induction "n - k" arbitrary: k rule: less_induct)
  case less
  show ?case
  proof (cases "4 \<le> n - k")
    case False
    then show ?thesis using less.prems by (subst move_up_words.simps) auto
  next
    case True
    then have k: "k + 4 \<le> n" by simp
    obtain x where "ld32 (s + of_nat k) (moved_mem d s 0 k m) = Some x" "st32 (d + of_nat k) x (moved_mem d s 0 k m) = Some (moved_mem d s 0 (k + 4) m)"
      using up_word [OF assms k] by blast
    then have "move_up_words (d + of_nat k) (s + of_nat k) (n - k) (moved_mem d s 0 k m) =
        move_up_words (d + of_nat (k + 4)) (s + of_nat (k + 4)) (n - (k + 4)) (moved_mem d s 0 (k + 4) m)"
      using True by (subst move_up_words.simps) (simp add: add.assoc)
    then show ?thesis
      using less.hyps [of "k + 4"] k by simp
  qed
qed

lemma down_byte:
  assumes "moving d s n m" and "downward d s n" and "k < n"
  obtains b where "moved_mem d s (Suc k) n m (s + of_nat k) = Some b" "st8 (d + of_nat k) b (moved_mem d s (Suc k) n m) = Some (moved_mem d s k n m)"
proof -
  obtain b where b: "m (s + of_nat k) = Some b" using moving_bytes(1) [OF assms(1,3) order_refl] by blast
  have "intact d s (Suc k) n k"
    using assms(2,3) by (auto simp: downward_def intact_def)
  then have "moved_mem d s (Suc k) n m (s + of_nat k) = Some b"
    using moved_at b by metis
  moreover have "st8 (d + of_nat k) b (moved_mem d s (Suc k) n m) = Some (moved_mem d s k n m)"
    by (rule store_before) (use assms b moving_bytes(2) [OF assms(1,3) order_refl] in \<open>auto simp: moving_def\<close>)
  ultimately show thesis using that by blast
qed

text \<open>The four stores of a word, from its lowest byte on, go through states that are not of the form above.\<close>

lemma st32_four:
  assumes "st8 (a + 3) b3 m = Some m1" and "st8 (a + 2) b2 m1 = Some m2" and "st8 (a + 1) b1 m2 = Some m3" and "st8 a b0 m3 = Some m4"
  shows "st32 a (word_of_bytes b0 b1 b2 b3) m = Some m4"
proof -
  have ne: "a \<noteq> a + 1" "a \<noteq> a + 2" "a \<noteq> a + 3" "a + 1 \<noteq> a + 2" "a + 1 \<noteq> a + 3" "a + 2 \<noteq> a + 3"
    by (simp_all add: eq_commute [of a])
  show ?thesis
    using assms ne unfolding st32_def One_nat_def byte_of_word_of_bytes
    by (auto simp: st8_def fun_upd_twist split: if_splits)
qed

lemma down_word:
  assumes "moving d s n m" and "downward d s n" and "k + 4 \<le> n"
  obtains x where "ld32 (s + of_nat k) (moved_mem d s (k + 4) n m) = Some x" "st32 (d + of_nat k) x (moved_mem d s (k + 4) n m) = Some (moved_mem d s k n m)"
proof -
  have src: "\<exists>b. m (s + of_nat (k + i)) = Some b \<and> moved_mem d s (k + 4) n m (s + of_nat (k + i)) = Some b" if "i < 4" for i
  proof -
    have i: "k + i < n" using that assms(3) by simp
    have "intact d s (k + 4) n (k + i)"
      using assms(2) i that by (fastforce simp: downward_def intact_def not_le)
    then show ?thesis using moving_bytes(1) [OF assms(1) i order_refl] moved_at by metis
  qed
  obtain b0 b1 b2 b3 where b: "m (s + of_nat k) = Some b0" "m (s + of_nat (Suc k)) = Some b1" "m (s + of_nat (Suc (Suc k))) = Some b2"
      "m (s + of_nat (Suc (Suc (Suc k)))) = Some b3"
    and r: "moved_mem d s (k + 4) n m (s + of_nat k) = Some b0" "moved_mem d s (k + 4) n m (s + of_nat k + 1) = Some b1"
      "moved_mem d s (k + 4) n m (s + of_nat k + 2) = Some b2" "moved_mem d s (k + 4) n m (s + of_nat k + 3) = Some b3"
    using src [of 0] src [of 1] src [of 2] src [of 3] by (auto simp: algebra_simps numeral_eq_Suc)
  have st: "st8 (d + of_nat j) b (moved_mem d s (Suc j) n m) = Some (moved_mem d s j n m)" if "m (s + of_nat j) = Some b" "j < n" for j b
    by (rule store_before) (use assms that moving_bytes(2) [OF assms(1) that(2) order_refl] in \<open>auto simp: moving_def\<close>)
  have "ld32 (s + of_nat k) (moved_mem d s (k + 4) n m) = Some (word_of_bytes b0 b1 b2 b3)"
    using r by (simp add: ld32_def)
  moreover have "st32 (d + of_nat k) (word_of_bytes b0 b1 b2 b3) (moved_mem d s (k + 4) n m) = Some (moved_mem d s k n m)"
    by (rule st32_four) (use st [OF b(1)] st [OF b(2)] st [OF b(3)] st [OF b(4)] assms(3) in \<open>simp_all add: algebra_simps numeral_eq_Suc\<close>)
  ultimately show thesis using that by blast
qed

lemma move_down_law:
  assumes "moving d s n m" and "downward d s n"
  shows "k \<le> n \<Longrightarrow> move_down d s k (moved_mem d s k n m) = Some (moved_mem d s 0 n m)"
proof (induction k)
  case (Suc k)
  then obtain b where "moved_mem d s (Suc k) n m (s + of_nat k) = Some b" "st8 (d + of_nat k) b (moved_mem d s (Suc k) n m) = Some (moved_mem d s k n m)"
    using down_byte [OF assms] by (metis Suc_le_lessD)
  then show ?case using Suc by simp
qed simp

lemma move_down_align_law:
  assumes "moving d s n m" and "downward d s n"
  shows "k \<le> n \<Longrightarrow> move_down_align d s k (moved_mem d s k n m) = Some (None, moved_mem d s 0 n m)
    \<or> (\<exists>k'\<le>k. move_down_align d s k (moved_mem d s k n m) = Some (Some k', moved_mem d s k' n m))"
proof (induction k)
  case 0
  then show ?case by (subst (1 2) move_down_align.simps) auto
next
  case (Suc k)
  show ?case
  proof (cases "word_aligned (d + of_nat (Suc k))")
    case True
    then have "move_down_align d s (Suc k) (moved_mem d s (Suc k) n m) = Some (Some (Suc k), moved_mem d s (Suc k) n m)"
      by (subst move_down_align.simps) simp
    then show ?thesis by blast
  next
    case False
    obtain b where "moved_mem d s (Suc k) n m (s + of_nat k) = Some b" "st8 (d + of_nat k) b (moved_mem d s (Suc k) n m) = Some (moved_mem d s k n m)"
      using down_byte [OF assms] Suc.prems by (metis Suc_le_lessD)
    then have "move_down_align d s (Suc k) (moved_mem d s (Suc k) n m) = move_down_align d s k (moved_mem d s k n m)"
      using False by (subst move_down_align.simps) simp
    then show ?thesis using Suc by (auto intro: le_SucI)
  qed
qed

lemma move_down_words_law:
  assumes "moving d s n m" and "downward d s n"
  shows "k \<le> n \<Longrightarrow> \<exists>k'\<le>k. move_down_words d s k (moved_mem d s k n m) = Some (k', moved_mem d s k' n m)"
proof (induction k rule: less_induct)
  case (less k)
  show ?case
  proof (cases "4 \<le> k")
    case False
    then show ?thesis by (subst move_down_words.simps) auto
  next
    case True
    then have k: "k - 4 + 4 = k" by simp
    obtain x where "ld32 (s + of_nat (k - 4)) (moved_mem d s k n m) = Some x" "st32 (d + of_nat (k - 4)) x (moved_mem d s k n m) = Some (moved_mem d s (k - 4) n m)"
      using down_word [OF assms, of "k - 4"] less.prems unfolding k by blast
    then have "move_down_words d s k (moved_mem d s k n m) = move_down_words d s (k - 4) (moved_mem d s (k - 4) n m)"
      using True by (subst move_down_words.simps) simp
    moreover have "\<exists>k'\<le>k - 4. move_down_words d s (k - 4) (moved_mem d s (k - 4) n m) = Some (k', moved_mem d s k' n m)"
      using less.IH [of "k - 4"] less.prems True by simp
    ultimately show ?thesis
      by (metis diff_le_self le_trans)
  qed
qed

lemma source_offset:
  assumes "unat (s :: ptr) + i < 2 ^ 32"
  shows "unat (s + of_nat i - d) = (if unat d \<le> unat s + i then unat s + i - unat d else 2 ^ 32 + unat s + i - unat d)"
proof -
  have "unat (of_nat i :: ptr) = i"
    using assms by (intro unat_of_nat_small) simp
  then have "unat (s + of_nat i) = unat s + i"
    using assms by (simp add: unat_word_ariths)
  then show ?thesis
    using unat_bound [of d] by (auto simp: unat_sub_if' word_le_nat_alt)
qed

lemma upwardI:
  assumes "unat s + n < 2 ^ 32" and "unat d \<le> unat s \<or> unat s + n \<le> unat d"
  shows "upward d s n"
  unfolding upward_def
proof (intro allI impI)
  fix i assume "i < n"
  then have "unat s + i < 2 ^ 32" using assms(1) by simp
  then show "i \<le> unat (s + of_nat i - d)"
    unfolding source_offset [OF \<open>unat s + i < 2 ^ 32\<close>] using assms(2) \<open>i < n\<close> unat_bound [of d] by auto
qed

lemma downwardI:
  assumes "unat s + n < 2 ^ 32" and "unat d + n < 2 ^ 32" and "unat s \<le> unat d"
  shows "downward d s n"
  unfolding downward_def
proof (intro allI impI)
  fix i assume "i < n"
  then have "unat s + i < 2 ^ 32" using assms(1) by simp
  then show "unat (s + of_nat i - d) \<le> i \<or> n \<le> unat (s + of_nat i - d)"
    unfolding source_offset [OF \<open>unat s + i < 2 ^ 32\<close>] using assms(2,3) by auto
qed

lemma memcpy_law:
  assumes "moving d s (unat n) m" and "upward d s (unat n)"
  shows "memcpy d s n m = Some (d, moved_mem d s 0 (unat n) m)"
  using memcpy_up [OF assms, of 0] by (simp add: memcpy_def moved_none)

lemma memmove_law:
  assumes mv: "moving d s (unat n) m" and s: "unat s + unat n < 2 ^ 32" and d: "unat d + unat n < 2 ^ 32"
  shows "memmove d s n m = Some (d, moved_mem d s 0 (unat n) m)"
proof -
  have ends: "unat (s + n) = unat s + unat n" "unat (d + n) = unat d + unat n"
    using s d by (simp_all add: unat_word_ariths)
  consider (same) "d = s" | (apart) "d \<noteq> s" "s + n \<le> d \<or> d + n \<le> s"
    | (up) "d \<noteq> s" "\<not> (s + n \<le> d \<or> d + n \<le> s)" "d < s" | (down) "d \<noteq> s" "\<not> (s + n \<le> d \<or> d + n \<le> s)" "\<not> d < s"
    by blast
  then show ?thesis
  proof cases
    case same
    then have "moved_mem d s 0 (unat n) m = m" by (auto simp: moved_mem_def)
    then show ?thesis using same by (simp add: memmove_def)
  next
    case apart
    have "upward d s (unat n)"
      by (rule upwardI [OF s]) (use apart(2) ends in \<open>auto simp: word_le_nat_alt\<close>)
    then show ?thesis using apart memcpy_law [OF mv] by (simp add: memmove_def)
  next
    case up
    have u: "upward d s (unat n)"
      by (rule upwardI [OF s]) (use up(3) in \<open>auto simp: word_less_nat_alt\<close>)
    note fin = memcpy_up [OF mv u]
    show ?thesis
    proof (cases "s mod 4 = d mod 4")
      case False
      then show ?thesis using up fin [of 0] by (simp add: memmove_def moved_none)
    next
      case True
      from move_up_align_law [OF mv u, of 0]
      consider "move_up_align d s (unat n) m = Some (d + of_nat (unat n), s + of_nat (unat n), None, moved_mem d s 0 (unat n) m)"
        | k where "k \<le> unat n" "move_up_align d s (unat n) m = Some (d + of_nat k, s + of_nat k, Some (unat n - k), moved_mem d s 0 k m)"
        by (auto simp: moved_none)
      then show ?thesis
      proof cases
        case 1
        then show ?thesis using up True by (simp add: memmove_def)
      next
        case 2
        then obtain j where "j \<le> unat n" "move_up_words (d + of_nat k) (s + of_nat k) (unat n - k) (moved_mem d s 0 k m) =
            Some (d + of_nat j, s + of_nat j, unat n - j, moved_mem d s 0 j m)"
          using move_up_words_law [OF mv u 2(1)] by blast
        then show ?thesis using up True 2 fin [of j] by (simp add: memmove_def)
      qed
    qed
  next
    case down
    have w: "downward d s (unat n)"
      by (rule downwardI [OF s d]) (use down(3) in \<open>auto simp: word_less_nat_alt\<close>)
    note fin = move_down_law [OF mv w]
    show ?thesis
    proof (cases "s mod 4 = d mod 4")
      case False
      then show ?thesis using down fin [of "unat n"] by (simp add: memmove_def moved_none)
    next
      case True
      from move_down_align_law [OF mv w, of "unat n"]
      consider "move_down_align d s (unat n) m = Some (None, moved_mem d s 0 (unat n) m)"
        | k where "k \<le> unat n" "move_down_align d s (unat n) m = Some (Some k, moved_mem d s k (unat n) m)"
        by (auto simp: moved_none)
      then show ?thesis
      proof cases
        case 1
        then show ?thesis using down True by (simp add: memmove_def)
      next
        case 2
        then obtain j where "j \<le> k" "move_down_words d s k (moved_mem d s k (unat n) m) = Some (j, moved_mem d s j (unat n) m)"
          using move_down_words_law [OF mv w 2(1)] by blast
        then show ?thesis using down True 2 fin [of j] by (simp add: memmove_def)
      qed
    qed
  qed
qed

section \<open>Copying a string\<close>

lemma cstr_at_nth:
  "cstr_at m a t \<longleftrightarrow> (\<forall>i<length t. m (a + of_nat i) = Some (t ! i) \<and> t ! i \<noteq> 0) \<and> m (a + of_nat (length t)) = Some 0"
  by (induction t arbitrary: a) (auto simp: All_less_Suc2 algebra_simps)

definition string_move :: "ptr \<Rightarrow> ptr \<Rightarrow> cstring \<Rightarrow> mem \<Rightarrow> bool" where
  "string_move d s t m \<longleftrightarrow> words_mapped m \<and> cstr_at m s t \<and> moving d s (Suc (length t)) m \<and> upward d s (Suc (length t))"

lemma string_source: "string_move d s t m \<Longrightarrow> j \<le> length t \<Longrightarrow> m (s + of_nat j) = Some (if j = length t then 0 else t ! j)"
  by (auto simp: string_move_def cstr_at_nth)

lemma string_byte:
  assumes "string_move d s t m" and "k \<le> length t"
  shows "moved_mem d s 0 k m (s + of_nat k) = Some (if k = length t then 0 else t ! k)"
    "st8 (d + of_nat k) (if k = length t then 0 else t ! k) (moved_mem d s 0 k m) = Some (moved_mem d s 0 (Suc k) m)"
    "k < length t \<Longrightarrow> t ! k \<noteq> 0"
proof -
  have mv: "moving d s (Suc (length t)) m" "upward d s (Suc (length t))" "k < Suc (length t)"
    using assms by (auto simp: string_move_def)
  have c: "m (s + of_nat k) = Some (if k = length t then 0 else t ! k)" "k < length t \<Longrightarrow> t ! k \<noteq> 0"
    using assms by (auto simp: string_move_def cstr_at_nth)
  obtain b where b: "moved_mem d s 0 k m (s + of_nat k) = Some b" "st8 (d + of_nat k) b (moved_mem d s 0 k m) = Some (moved_mem d s 0 (Suc k) m)"
    using up_byte [OF mv] by blast
  have "intact d s 0 k k"
    using mv by (auto simp: upward_def intact_def not_less)
  then have "b = (if k = length t then 0 else t ! k)"
    using moved_at [of d s 0 k k m] b(1) c(1) by simp
  then show "moved_mem d s 0 k m (s + of_nat k) = Some (if k = length t then 0 else t ! k)"
    "st8 (d + of_nat k) (if k = length t then 0 else t ! k) (moved_mem d s 0 k m) = Some (moved_mem d s 0 (Suc k) m)"
    "k < length t \<Longrightarrow> t ! k \<noteq> 0"
    using b c(2) by simp_all
qed

lemma copy_bytes_law:
  assumes "string_move d s t m"
  shows "k \<le> length t \<Longrightarrow> copy_bytes (d + of_nat k) (s + of_nat k) (moved_mem d s 0 k m) = Some (d + of_nat (length t), moved_mem d s 0 (Suc (length t)) m)"
proof (induction "length t - k" arbitrary: k)
  case 0
  then have "k = length t" by simp
  then show ?case using string_byte [OF assms, of k] by (subst copy_bytes.simps) simp
next
  case (Suc j)
  then have "k < length t" by simp
  then have "copy_bytes (d + of_nat k) (s + of_nat k) (moved_mem d s 0 k m) = copy_bytes (d + of_nat (Suc k)) (s + of_nat (Suc k)) (moved_mem d s 0 (Suc k) m)"
    using string_byte [OF assms, of k] by (subst copy_bytes.simps) (simp add: add.assoc add.commute [of 1])
  then show ?case using Suc.hyps(1) [of "Suc k"] Suc.hyps(2) \<open>k < length t\<close> by simp
qed

lemma copy_align_law:
  assumes "string_move d s t m"
  shows "k \<le> length t \<Longrightarrow> (\<exists>s'. copy_align (d + of_nat k) (s + of_nat k) (moved_mem d s 0 k m) = Some (d + of_nat (length t), s', True, moved_mem d s 0 (Suc (length t)) m))
    \<or> (\<exists>k'\<le>length t. copy_align (d + of_nat k) (s + of_nat k) (moved_mem d s 0 k m) = Some (d + of_nat k', s + of_nat k', False, moved_mem d s 0 k' m)
        \<and> word_aligned (s + of_nat k'))"
proof (induction "length t - k" arbitrary: k)
  case 0
  then have "k = length t" by simp
  then show ?case using string_byte [OF assms, of k] by (subst (1 2) copy_align.simps) auto
next
  case (Suc j)
  then have k: "k < length t" by simp
  show ?case
  proof (cases "word_aligned (s + of_nat k)")
    case True
    then have "copy_align (d + of_nat k) (s + of_nat k) (moved_mem d s 0 k m) = Some (d + of_nat k, s + of_nat k, False, moved_mem d s 0 k m)"
      by (subst copy_align.simps) simp
    then show ?thesis using True k less_imp_le by blast
  next
    case False
    then have "copy_align (d + of_nat k) (s + of_nat k) (moved_mem d s 0 k m) = copy_align (d + of_nat (Suc k)) (s + of_nat (Suc k)) (moved_mem d s 0 (Suc k) m)"
      using string_byte [OF assms, of k] k by (subst copy_align.simps) (simp add: add.assoc add.commute [of 1])
    then show ?thesis using Suc.hyps(1) [of "Suc k"] Suc.hyps(2) k by simp
  qed
qed

lemma moved_words_mapped:
  assumes "moving d s n m" and "words_mapped m" and "k \<le> n"
  shows "words_mapped (moved_mem d s 0 k m)"
proof -
  have iff: "moved_mem d s 0 k m a \<noteq> None \<longleftrightarrow> m a \<noteq> None" for a
  proof (cases "unat (a - d) < k")
    case True
    then have "unat (a - d) < n" using assms(3) by simp
    then have "m (s + of_nat (unat (a - d))) \<noteq> None" "m (d + of_nat (unat (a - d))) \<noteq> None"
      using assms(1) unfolding moving_def block_mapped_def by blast+
    then show ?thesis using True by (simp add: moved_mem_def)
  next
    case False
    then show ?thesis by (simp add: moved_mem_def)
  qed
  show ?thesis
    using assms(2) unfolding words_mapped_def iff .
qed

lemma copy_words_law:
  assumes "string_move d s t m"
  shows "k \<le> length t \<Longrightarrow> word_aligned (s + of_nat k) \<Longrightarrow>
    \<exists>k'\<le>length t. copy_words (d + of_nat k) (s + of_nat k) (moved_mem d s 0 k m) = Some (d + of_nat k', s + of_nat k', moved_mem d s 0 k' m)"
proof (induction "length t - k" arbitrary: k rule: less_induct)
  case less
  have mv: "moving d s (Suc (length t)) m" "upward d s (Suc (length t))" "words_mapped m"
    using assms by (simp_all add: string_move_def)
  have wm: "words_mapped (moved_mem d s 0 k m)"
    by (rule moved_words_mapped [OF mv(1,3)]) (use less.prems(1) in simp)
  have "moved_mem d s 0 k m (s + of_nat k) \<noteq> None"
    using string_byte(1) [OF assms less.prems(1)] by simp
  then obtain b0 b1 b2 b3 where b: "moved_mem d s 0 k m (s + of_nat k) = Some b0" "moved_mem d s 0 k m (s + of_nat k + 1) = Some b1"
    "moved_mem d s 0 k m (s + of_nat k + 2) = Some b2" "moved_mem d s 0 k m (s + of_nat k + 3) = Some b3"
    "ld32 (s + of_nat k) (moved_mem d s 0 k m) = Some (word_of_bytes b0 b1 b2 b3)"
    using ld32_mapped [OF wm less.prems(2)] by metis
  have src: "moved_mem d s 0 k m (s + of_nat (k + i)) = Some (if k + i = length t then 0 else t ! (k + i))" if "k + i \<le> length t" for i
  proof -
    have "k + i \<le> unat (s + of_nat (k + i) - d)"
      using mv(2) that unfolding upward_def by (meson le_imp_less_Suc)
    then have "intact d s 0 k (k + i)"
      unfolding intact_def by linarith
    then have "moved_mem d s 0 k m (s + of_nat (k + i)) = m (s + of_nat (k + i))"
      by (rule moved_at)
    moreover have "m (s + of_nat (k + i)) = Some (if k + i = length t then 0 else t ! (k + i))"
      by (rule string_source [OF assms that])
    ultimately show ?thesis by (simp only:)
  qed
  show ?case
  proof (cases "haszero (word_of_bytes b0 b1 b2 b3)")
    case True
    then show ?thesis using b(5) less.prems(1) by (subst copy_words.simps) auto
  next
    case False
    have k: "k + 4 \<le> length t"
    proof (rule ccontr)
      assume "\<not> k + 4 \<le> length t"
      then consider "length t = k" | "length t = k + 1" | "length t = k + 2" | "length t = k + 3"
        using less.prems(1) by linarith
      then show False
        using False b(1-4) src [of "length t - k"] by cases (auto simp: haszero_bytes algebra_simps)
    qed
    then have "k + 4 \<le> Suc (length t)" by simp
    then obtain x where "ld32 (s + of_nat k) (moved_mem d s 0 k m) = Some x" "st32 (d + of_nat k) x (moved_mem d s 0 k m) = Some (moved_mem d s 0 (k + 4) m)"
      using up_word [OF mv(1,2)] by blast
    then have "copy_words (d + of_nat k) (s + of_nat k) (moved_mem d s 0 k m) = copy_words (d + of_nat (k + 4)) (s + of_nat (k + 4)) (moved_mem d s 0 (k + 4) m)"
      using False b(5) by (subst copy_words.simps) (simp add: add.assoc)
    moreover have "word_aligned (s + of_nat (k + 4))"
      using less.prems(2) aligned_add_4 [of "s + of_nat k"] by (simp add: add.assoc)
    ultimately show ?thesis
      using less.hyps [of "k + 4"] k by simp
  qed
qed

lemma stpcpy_law:
  assumes "string_move d s t m"
  shows "stpcpy d s m = Some (d + of_nat (length t), moved_mem d s 0 (Suc (length t)) m)"
proof (cases "s mod 4 = d mod 4")
  case False
  then show ?thesis using copy_bytes_law [OF assms, of 0] by (simp add: stpcpy_def moved_none)
next
  case True
  from copy_align_law [OF assms, of 0]
  consider s' where "copy_align d s m = Some (d + of_nat (length t), s', True, moved_mem d s 0 (Suc (length t)) m)"
    | k where "k \<le> length t" "copy_align d s m = Some (d + of_nat k, s + of_nat k, False, moved_mem d s 0 k m)" "word_aligned (s + of_nat k)"
    by (auto simp: moved_none)
  then show ?thesis
  proof cases
    case 1
    then show ?thesis using True by (simp add: stpcpy_def)
  next
    case 2
    obtain j where "j \<le> length t" "copy_words (d + of_nat k) (s + of_nat k) (moved_mem d s 0 k m) = Some (d + of_nat j, s + of_nat j, moved_mem d s 0 j m)"
      using copy_words_law [OF assms 2(1,3)] by blast
    then show ?thesis using True 2(2) copy_bytes_law [OF assms, of j] by (simp add: stpcpy_def)
  qed
qed

text \<open>What is at the target afterwards, and outside of it.\<close>

lemma moved_string:
  assumes "cstr_at m s t" and "length t < 2 ^ 32"
  shows "cstr_at (moved_mem d s 0 (Suc (length t)) m) d t"
proof -
  have "moved_mem d s 0 (Suc (length t)) m (d + of_nat i) = m (s + of_nat i)" if "i \<le> length t" for i
    using that assms(2) by (simp add: moved_mem_def unat_of_nat_small)
  then show ?thesis using assms(1) by (simp add: cstr_at_nth)
qed

lemma moved_outside: "\<not> unat (a - d) < n \<Longrightarrow> moved_mem d s k n m a = m a"
  by (simp add: moved_mem_def)

lemma strcat_loop_law:
  assumes "string_move d s t m"
  shows "k \<le> length t \<Longrightarrow> strcat_loop (d + of_nat k) (s + of_nat k) (moved_mem d s 0 k m) = Some (d + of_nat (length t), moved_mem d s 0 (length t) m)"
proof (induction "length t - k" arbitrary: k)
  case 0
  then have "k = length t" by simp
  then show ?case using string_byte [OF assms, of k] by (subst strcat_loop.simps) simp
next
  case (Suc j)
  then have "k < length t" by simp
  then have "strcat_loop (d + of_nat k) (s + of_nat k) (moved_mem d s 0 k m) = strcat_loop (d + of_nat (Suc k)) (s + of_nat (Suc k)) (moved_mem d s 0 (Suc k) m)"
    using string_byte [OF assms, of k] by (subst strcat_loop.simps) (simp add: add.assoc add.commute [of 1])
  then show ?case using Suc.hyps(1) [of "Suc k"] Suc.hyps(2) \<open>k < length t\<close> by simp
qed

lemma strcat_law:
  assumes "cstr_at m d u" and "string_move (d + of_nat (length u)) s t m"
  shows "strcat d s m = Some (d, moved_mem (d + of_nat (length u)) s 0 (Suc (length t)) m)"
proof -
  have "scan_bytes (\<lambda>b. b = 0) d m = Some (d + of_nat (length u))"
    by (rule scan_bytes_law [OF cstr_reach_end [OF assms(1)]])
  then show ?thesis
    using strcat_loop_law [OF assms(2), of 0] string_byte(2) [OF assms(2), of "length t"]
    by (simp add: strcat_def moved_none)
qed

end
