(* ===== verification/C_Search.thy ===== *)
theory C_Search
  imports C_String Bytes
begin

text \<open>
  Searching a string in a string: \<^verbatim>\<open>strstr\<close> and its variants for short and long needles (\<^verbatim>\<open>libc/libc.cpp\<close>), and
  \<^verbatim>\<open>str_replace\<close>, \<^verbatim>\<open>trim\<close> and \<^verbatim>\<open>split\<close> (\<^verbatim>\<open>libc/string.cpp\<close>).  A pointer into a string is the rest of the string from there.
\<close>

section \<open>Short needles\<close>

text \<open>
  The loops over the windows of the last two, three and four bytes differ in the number \<open>k\<close> of bytes before the pointer
  \<open>h\<close> of the loop, and in the step of the window.  \<open>q\<close> is the pointer \<open>h - k\<close> the code returns.
\<close>

definition byte_at :: "cstring \<Rightarrow> nat \<Rightarrow> u8" where
  "byte_at s i = at (drop i s)"

fun window_loop :: "nat \<Rightarrow> ('w \<Rightarrow> u8 \<Rightarrow> 'w) \<Rightarrow> 'w \<Rightarrow> 'w \<Rightarrow> cstring \<Rightarrow> cstring option" where
  "window_loop k step nw hw [] = None"
| "window_loop k step nw hw (c # q) = (if byte_at (c # q) k \<noteq> 0 \<and> hw \<noteq> nw then window_loop k step nw (step hw (byte_at q k)) q
     else if byte_at (c # q) k \<noteq> 0 then Some (c # q) else None)"

definition word_2b :: "cstring \<Rightarrow> u16" where
  "word_2b s = push_bit 8 (ucast (byte_at s 0)) OR ucast (byte_at s 1)"

definition word_3b :: "cstring \<Rightarrow> u32" where
  "word_3b s = push_bit 24 (ucast (byte_at s 0)) OR push_bit 16 (ucast (byte_at s 1)) OR push_bit 8 (ucast (byte_at s 2))"

definition word_4b :: "cstring \<Rightarrow> u32" where
  "word_4b s = push_bit 24 (ucast (byte_at s 0)) OR push_bit 16 (ucast (byte_at s 1)) OR push_bit 8 (ucast (byte_at s 2)) OR ucast (byte_at s 3)"

definition strstr_2b :: "cstring \<Rightarrow> cstring \<Rightarrow> cstring option" where
  "strstr_2b h n = window_loop 1 (\<lambda>hw c. push_bit 8 hw OR ucast c) (word_2b n) (word_2b h) h"

definition strstr_3b :: "cstring \<Rightarrow> cstring \<Rightarrow> cstring option" where
  "strstr_3b h n = window_loop 2 (\<lambda>hw c. push_bit 8 (hw OR ucast c)) (word_3b n) (word_3b h) h"

definition strstr_4b :: "cstring \<Rightarrow> cstring \<Rightarrow> cstring option" where
  "strstr_4b h n = window_loop 3 (\<lambda>hw c. push_bit 8 hw OR ucast c) (word_4b n) (word_4b h) h"

section \<open>Long needles\<close>

text \<open>
  The two-way search.  Indices are \<^verbatim>\<open>size_t\<close>, so \<open>ip\<close> starts at \<open>- 1\<close>; an access behind the terminator has no result.
  \<open>shift\<close> is not initialised: \<open>junk\<close> is what it holds before.
\<close>

definition rd_str :: "cstring \<Rightarrow> u32 \<Rightarrow> u8 option" where
  "rd_str s i = (if unat i < length s then Some (s ! unat i) else if unat i = length s then Some 0 else None)"

partial_function (option) needle_table :: "cstring \<Rightarrow> cstring \<Rightarrow> u32 \<Rightarrow> u32 list \<Rightarrow> (u8 \<Rightarrow> u32) \<Rightarrow> (u32 \<times> u32 list \<times> (u8 \<Rightarrow> u32)) option" where
  "needle_table h n l byteset shift = do {
     a \<leftarrow> rd_str n l;
     if a = 0 then Some (l, byteset, shift) else do {
       b \<leftarrow> rd_str h l;
       if b = 0 then Some (l, byteset, shift)
       else needle_table h n (l + 1) (bitop_set byteset a) (shift(a := l + 1)) } }"

partial_function (option) max_suffix :: "(u8 \<Rightarrow> u8 \<Rightarrow> bool) \<Rightarrow> cstring \<Rightarrow> u32 \<Rightarrow> u32 \<Rightarrow> u32 \<Rightarrow> u32 \<Rightarrow> u32 \<Rightarrow> (u32 \<times> u32) option" where
  "max_suffix after n l ip jp k p = (if jp + k < l then do {
       a \<leftarrow> rd_str n (ip + k);
       b \<leftarrow> rd_str n (jp + k);
       if a = b then (if k = p then max_suffix after n l ip (jp + p) 1 p else max_suffix after n l ip jp (k + 1) p)
       else if after a b then max_suffix after n l ip (jp + k) 1 (jp + k - ip)
       else max_suffix after n l jp (jp + 1) 1 1 }
     else Some (ip, p))"

partial_function (option) same_bytes :: "cstring \<Rightarrow> u32 \<Rightarrow> u32 \<Rightarrow> u32 \<Rightarrow> bool option" where
  "same_bytes s i j k = (if k = 0 then Some True else do {
     a \<leftarrow> rd_str s i; b \<leftarrow> rd_str s j;
     if a = b then same_bytes s (i + 1) (j + 1) (k - 1) else Some False })"

partial_function (option) find_end :: "cstring \<Rightarrow> u32 \<Rightarrow> u32 \<Rightarrow> u32 option option" where
  "find_end h z k = (if k = 0 then Some None else do { a \<leftarrow> rd_str h z; if a = 0 then Some (Some z) else find_end h (z + 1) (k - 1) })"

partial_function (option) match_right :: "cstring \<Rightarrow> cstring \<Rightarrow> u32 \<Rightarrow> u32 \<Rightarrow> u32 option" where
  "match_right h n hp k = do {
     a \<leftarrow> rd_str n k;
     if a = 0 then Some k else do { b \<leftarrow> rd_str h (hp + k); if a = b then match_right h n hp (k + 1) else Some k } }"

partial_function (option) match_left :: "cstring \<Rightarrow> cstring \<Rightarrow> u32 \<Rightarrow> u32 \<Rightarrow> u32 \<Rightarrow> u32 option" where
  "match_left h n hp mem k = (if k > mem then do {
       a \<leftarrow> rd_str n (k - 1); b \<leftarrow> rd_str h (hp + (k - 1));
       if a = b then match_left h n hp mem (k - 1) else Some k }
     else Some k)"

text \<open>
  The search loop.  \<open>hp\<close> and \<open>z\<close> are the pointers \<^verbatim>\<open>h\<close> and \<^verbatim>\<open>z\<close>, as indices of the haystack; the result is the
  index of the match, none without a match.
\<close>

partial_function (option) twoway_loop ::
  "cstring \<Rightarrow> cstring \<Rightarrow> u32 \<Rightarrow> u32 list \<Rightarrow> (u8 \<Rightarrow> u32) \<Rightarrow> u32 \<Rightarrow> u32 \<Rightarrow> u32 \<Rightarrow> u32 \<Rightarrow> u32 \<Rightarrow> u32 \<Rightarrow> u32 option option" where
  "twoway_loop h n l byteset shift ms p mem0 hp z mem = do {
     (z, ended) \<leftarrow> (if z - hp < l then do {
         let grow = l OR 63;
         z2 \<leftarrow> find_end h z grow;
         Some (case z2 of Some z2 \<Rightarrow> (z2, z2 - hp < l) | None \<Rightarrow> (z + grow, False)) }
       else Some (z, False));
     if ended then Some None else do {
       c \<leftarrow> rd_str h (hp + (l - 1));
       if \<not> bitop_test byteset c then twoway_loop h n l byteset shift ms p mem0 (hp + l) z 0
       else if l - shift c \<noteq> 0
         then (let k = l - shift c; k = (if mem0 \<noteq> 0 \<and> mem \<noteq> 0 \<and> k < p then l - p else k)
           in twoway_loop h n l byteset shift ms p mem0 (hp + k) z 0)
       else do {
         k \<leftarrow> match_right h n hp (max (ms + 1) mem);
         a \<leftarrow> rd_str n k;
         if a \<noteq> 0 then twoway_loop h n l byteset shift ms p mem0 (hp + (k - ms)) z 0
         else do {
           k \<leftarrow> match_left h n hp mem (ms + 1);
           if k \<le> mem then Some (Some hp)
           else twoway_loop h n l byteset shift ms p mem0 (hp + p) z mem0 } } } }"

declare needle_table.simps [code] max_suffix.simps [code] same_bytes.simps [code] find_end.simps [code] match_right.simps [code]
  match_left.simps [code] twoway_loop.simps [code]

definition strstr_twoway :: "(u8 \<Rightarrow> u32) \<Rightarrow> cstring \<Rightarrow> cstring \<Rightarrow> cstring option option" where
  "strstr_twoway junk h n = do {
     (l, byteset, shift) \<leftarrow> needle_table h n 0 (replicate 8 0) junk;
     c \<leftarrow> rd_str n l;
     if c \<noteq> 0 then Some None else do {
       (ms, p0) \<leftarrow> max_suffix (\<lambda>a b. a > b) n l (- 1) 0 1 1;
       (ip, p) \<leftarrow> max_suffix (\<lambda>a b. a < b) n l (- 1) 0 1 1;
       let (ms, p) = (if ip + 1 > ms + 1 then (ip, p) else (ms, p0));
       same \<leftarrow> same_bytes n 0 p (ms + 1);
       let (mem0, p) = (if \<not> same then (0, max ms (l - ms - 1) + 1) else (l - p, p));
       r \<leftarrow> twoway_loop h n l byteset shift ms p mem0 0 0 0;
       Some (case r of None \<Rightarrow> None | Some i \<Rightarrow> Some (drop (unat i) h)) } }"

definition strstr :: "(u8 \<Rightarrow> u32) \<Rightarrow> cstring \<Rightarrow> cstring \<Rightarrow> cstring option option" where
  "strstr junk h n = (if n = [] then Some (Some h)
     else case strchr h (at n) of None \<Rightarrow> Some None
     | Some h \<Rightarrow>
        if byte_at n 1 = 0 then Some (Some h)
        else if byte_at h 1 = 0 then Some None
        else if byte_at n 2 = 0 then Some (strstr_2b h n)
        else if byte_at h 2 = 0 then Some None
        else if byte_at n 3 = 0 then Some (strstr_3b h n)
        else if byte_at h 3 = 0 then Some None
        else if byte_at n 4 = 0 then Some (strstr_4b h n)
        else strstr_twoway junk h n)"

definition startswith :: "(u8 \<Rightarrow> u32) \<Rightarrow> cstring \<Rightarrow> cstring \<Rightarrow> bool option" where
  "startswith junk s accept = do { r \<leftarrow> strstr junk s accept; Some (r = Some s) }"

definition str_contains :: "(u8 \<Rightarrow> u32) \<Rightarrow> cstring \<Rightarrow> cstring \<Rightarrow> bool option" where
  "str_contains junk s needle = do { r \<leftarrow> strstr junk s needle; Some (r \<noteq> None) }"

section \<open>Replacing\<close>

text \<open>The loops of \<^verbatim>\<open>str_replace\<close>: the number of occurrences, and the copy of so many of them.\<close>

partial_function (option) count_occurrences :: "(u8 \<Rightarrow> u32) \<Rightarrow> cstring \<Rightarrow> cstring \<Rightarrow> u32 \<Rightarrow> u32 option" where
  "count_occurrences junk ins rep count = do {
     tmp \<leftarrow> strstr junk ins rep;
     case tmp of None \<Rightarrow> Some count | Some t \<Rightarrow> count_occurrences junk (drop (length rep) t) rep (count + 1) }"

declare count_occurrences.simps [code]

fun replace_loop :: "(u8 \<Rightarrow> u32) \<Rightarrow> nat \<Rightarrow> cstring \<Rightarrow> cstring \<Rightarrow> cstring \<Rightarrow> cstring option" where
  "replace_loop junk 0 orig rep with' = Some orig"
| "replace_loop junk (Suc count) orig rep with' = do {
     ins \<leftarrow> strstr junk orig rep;
     t \<leftarrow> ins;
     out \<leftarrow> replace_loop junk count (drop (length rep) t) rep with';
     Some (take (length orig - length t) orig @ with' @ out) }"

text \<open>The result is a block of the computed size that must hold the string; a null argument is the empty string.\<close>

definition str_replace :: "(u8 \<Rightarrow> u32) \<Rightarrow> cstring option \<Rightarrow> cstring option \<Rightarrow> cstring option \<Rightarrow> (u32 \<times> cstring) option option" where
  "str_replace junk orig rep with' = (case orig of None \<Rightarrow> Some None
   | Some orig \<Rightarrow> (let rep = (case rep of None \<Rightarrow> [] | Some r \<Rightarrow> r); w = (case with' of None \<Rightarrow> [] | Some w \<Rightarrow> w) in do {
       count \<leftarrow> count_occurrences junk orig rep 0;
       let size = of_nat (length orig) + (of_nat (length w) - of_nat (length rep)) * count + 1;
       out \<leftarrow> replace_loop junk (unat count) orig rep w;
       if length out < unat size then Some (Some (size, out)) else None }))"

section \<open>Trimming and splitting\<close>

text \<open>\<^verbatim>\<open>trim\<close> writes into the object \<open>b\<close> the pointer designates.\<close>

definition buf_string :: "u8 list \<Rightarrow> cstring" where
  "buf_string b = takeWhile (\<lambda>c. c \<noteq> 0) b"

partial_function (option) trim_front :: "u8 list \<Rightarrow> nat \<Rightarrow> nat option" where
  "trim_front b i = do { c \<leftarrow> rd8 b i; if isspace (char_int c) then trim_front b (i + 1) else Some i }"

fun trim_back :: "u8 list \<Rightarrow> nat \<Rightarrow> nat \<Rightarrow> nat option" where
  "trim_back b front 0 = None"
| "trim_back b front (Suc e) = do { c \<leftarrow> rd8 b e; if isspace (char_int c) \<and> e \<noteq> front then trim_back b front e else Some e }"

partial_function (option) shift_down :: "nat \<Rightarrow> nat \<Rightarrow> u8 list \<Rightarrow> u8 list option" where
  "shift_down dst src b = do {
     c \<leftarrow> rd8 b src;
     if c = 0 then wr8 dst 0 b else do { b \<leftarrow> wr8 dst c b; shift_down (dst + 1) (src + 1) b } }"

declare trim_front.simps [code] shift_down.simps [code]

definition trim :: "u8 list \<Rightarrow> u8 list option" where
  "trim b = do {
     let len = length (buf_string b);
     c \<leftarrow> rd8 b 0;
     if c = 0 then Some b else do {
       front \<leftarrow> trim_front b 0;
       endp \<leftarrow> (if len \<noteq> front then trim_back b front len else Some len);
       b \<leftarrow> (if len - 1 \<noteq> endp then wr8 (endp + 1) 0 b
         else if front \<noteq> 0 \<and> endp = front then wr8 0 0 b else Some b);
       if front \<noteq> 0 then shift_down 0 front b else Some b } }"

text \<open>\<^verbatim>\<open>split\<close> returns the words, each in a block of its own; the only block that can be too small is the one of a string
  without delimiter, which has the size of a pointer.\<close>

function count_delims :: "u8 \<Rightarrow> cstring \<Rightarrow> nat" where
  "count_delims d [] = 0"
| "count_delims d (c # s) = (if c = d then Suc (count_delims d (dropWhile (\<lambda>x. x = d) s)) else count_delims d s)"
  by pat_completeness auto
termination by (relation "measure (\<lambda>(d, s). length s)") (auto simp: le_imp_less_Suc length_dropWhile_le)

fun split_words :: "nat \<Rightarrow> u8 \<Rightarrow> cstring \<Rightarrow> cstring list" where
  "split_words 0 d s = []"
| "split_words (Suc n) d s = takeWhile (\<lambda>x. x \<noteq> d) s # split_words n d (dropWhile (\<lambda>x. x = d) (dropWhile (\<lambda>x. x \<noteq> d) s))"

definition split_string :: "u8 list \<Rightarrow> u8 \<Rightarrow> cstring list option" where
  "split_string b deli = do {
     b \<leftarrow> trim b;
     let s = buf_string b;
     let n = count_delims deli s;
     if n = 0 then (if length s + 1 \<le> 4 then Some [s] else None)
     else Some (split_words (n + 1) deli s) }"

end
