(* ===== verification/C_Search_Laws.thy ===== *)
theory C_Search_Laws
  imports C_Search
begin

text \<open>
  The searches for short needles find the first occurrence, replacing replaces every occurrence into a block of the
  exact size, and trimming and splitting give the words they should.
\<close>

section \<open>The first occurrence\<close>

fun find_sub :: "cstring \<Rightarrow> cstring \<Rightarrow> cstring option" where
  "find_sub n [] = (if n = [] then Some [] else None)"
| "find_sub n (c # q) = (if take (length n) (c # q) = n then Some (c # q) else find_sub n q)"

lemma find_sub_short: "length s < length n \<Longrightarrow> find_sub n s = None"
  by (induction s) auto

lemma find_sub_suffix: "find_sub n s = Some t \<Longrightarrow> \<exists>p. s = p @ t \<and> take (length n) t = n"
  by (induction s) (auto split: if_splits intro: exI [of _ "_ # _"])

text \<open>The occurrence that is found is the first one.\<close>

lemma find_sub_first:
  "find_sub n s = Some t \<Longrightarrow> k < length s - length t \<Longrightarrow> take (length n) (drop k s) \<noteq> n"
proof (induction s arbitrary: k)
  case (Cons c q)
  then show ?case by (cases k) (auto split: if_splits)
qed simp

lemma find_sub_none: "find_sub n s = None \<Longrightarrow> take (length n) (drop k s) \<noteq> n"
proof (induction s arbitrary: k)
  case Nil
  then show ?case by (auto split: if_splits)
next
  case (Cons c q)
  then have "k = 0 \<or> take (length n) (drop (k - 1) q) \<noteq> n" "take (length n) (c # q) \<noteq> n"
    by (auto split: if_splits)
  then show ?case by (cases k) auto
qed

section \<open>Windows\<close>

lemma byte_at_simps: "byte_at (c # q) 0 = c" "byte_at (c # q) (Suc i) = byte_at q i" "byte_at [] i = 0"
  by (simp_all add: byte_at_def at_def)

lemma byte_at_nonzero: "nul_free s \<Longrightarrow> byte_at s k \<noteq> 0 \<longleftrightarrow> k < length s"
proof (induction s arbitrary: k)
  case (Cons c q)
  then show ?case by (cases k) (auto simp: byte_at_simps nul_free_def)
qed (simp add: byte_at_simps)

lemma window_law:
  assumes n: "length n = Suc k" and step: "\<And>c q. step (win (c # q)) (byte_at q k) = win q"
    and inj: "\<And>s. k < length s \<Longrightarrow> win s = win n \<longleftrightarrow> take (Suc k) s = n"
  shows "nul_free s \<Longrightarrow> window_loop k step (win n) (win s) s = find_sub n s"
proof (induction s)
  case Nil
  then show ?case using n by auto
next
  case (Cons c q)
  have q: "nul_free q" using Cons.prems by (simp add: nul_free_def)
  show ?case
  proof (cases "k < length (c # q)")
    case False
    then have "find_sub n (c # q) = None" using n by (intro find_sub_short) simp
    then show ?thesis using False byte_at_nonzero [OF Cons.prems, of k] by simp
  next
    case True
    then show ?thesis
      using Cons.IH [OF q] byte_at_nonzero [OF Cons.prems, of k] inj [OF True] step [of c q] n by auto
  qed
qed

lemma beyond_8: "8 \<le> i \<Longrightarrow> \<not> bit (w :: u8) i"
  using bit_imp_le_length [of w i] by auto

lemma word_2b_step: "push_bit 8 (word_2b (c # q)) OR ucast (byte_at q (Suc 0)) = word_2b q"
  by (rule bit_word_eqI) (auto simp: word_2b_def byte_at_simps bit_simps beyond_8)

lemma word_3b_step: "push_bit 8 (word_3b (c # q) OR ucast (byte_at q 2)) = word_3b q"
  by (rule bit_word_eqI) (auto simp: word_3b_def byte_at_simps numeral_2_eq_2 bit_simps beyond_8)

lemma word_4b_step: "push_bit 8 (word_4b (c # q)) OR ucast (byte_at q 3) = word_4b q"
  by (rule bit_word_eqI) (auto simp: word_4b_def byte_at_simps numeral_2_eq_2 numeral_3_eq_3 bit_simps beyond_8)

lemma word_2b_bytes: "ucast (drop_bit 8 (word_2b s)) = byte_at s 0" "ucast (word_2b s) = byte_at s 1"
  by (rule bit_word_eqI, auto simp: word_2b_def bit_simps beyond_8)+

lemma word_3b_bytes: "ucast (drop_bit 24 (word_3b s)) = byte_at s 0" "ucast (drop_bit 16 (word_3b s)) = byte_at s 1"
  "ucast (drop_bit 8 (word_3b s)) = byte_at s 2"
  by (rule bit_word_eqI, auto simp: word_3b_def bit_simps beyond_8)+

lemma word_4b_bytes: "ucast (drop_bit 24 (word_4b s)) = byte_at s 0" "ucast (drop_bit 16 (word_4b s)) = byte_at s 1"
  "ucast (drop_bit 8 (word_4b s)) = byte_at s 2" "ucast (word_4b s) = byte_at s 3"
  by (rule bit_word_eqI, auto simp: word_4b_def bit_simps beyond_8)+

lemma bytes_same:
  "k < length s \<Longrightarrow> length n = Suc k \<Longrightarrow> take (Suc k) s = n \<longleftrightarrow> (\<forall>i<Suc k. byte_at s i = byte_at n i)"
proof (induction k arbitrary: s n)
  case 0
  then show ?case by (cases s; cases n) (auto simp: byte_at_simps)
next
  case (Suc k)
  then obtain a t b m where sn: "s = a # t" "n = b # m"
    by (metis length_Suc_conv less_nat_zero_code list.exhaust list.size(3))
  have "take (Suc (Suc k)) s = n \<longleftrightarrow> a = b \<and> take (Suc k) t = m"
    by (simp add: sn)
  also have "\<dots> \<longleftrightarrow> a = b \<and> (\<forall>i<Suc k. byte_at t i = byte_at m i)"
    using Suc.IH [of t m] Suc.prems by (simp add: sn)
  also have "\<dots> \<longleftrightarrow> (\<forall>i<Suc (Suc k). byte_at s i = byte_at n i)"
    unfolding All_less_Suc2 [of "Suc k"] by (simp add: sn byte_at_simps)
  finally show ?case .
qed

lemma word_2b_eq: "word_2b s = word_2b n \<longleftrightarrow> (\<forall>i<Suc 1. byte_at s i = byte_at n i)"
proof
  assume "word_2b s = word_2b n"
  then have "byte_at s 0 = byte_at n 0" "byte_at s 1 = byte_at n 1" by (metis word_2b_bytes)+
  then show "\<forall>i<Suc 1. byte_at s i = byte_at n i" by (auto simp: less_Suc_eq)
qed (simp add: word_2b_def)

lemma word_3b_eq: "word_3b s = word_3b n \<longleftrightarrow> (\<forall>i<Suc 2. byte_at s i = byte_at n i)"
proof
  assume "word_3b s = word_3b n"
  then have "byte_at s 0 = byte_at n 0" "byte_at s 1 = byte_at n 1" "byte_at s 2 = byte_at n 2" by (metis word_3b_bytes)+
  then show "\<forall>i<Suc 2. byte_at s i = byte_at n i" by (auto simp: less_Suc_eq numeral_2_eq_2)
qed (simp add: word_3b_def)

lemma word_4b_eq: "word_4b s = word_4b n \<longleftrightarrow> (\<forall>i<Suc 3. byte_at s i = byte_at n i)"
proof
  assume "word_4b s = word_4b n"
  then have "byte_at s 0 = byte_at n 0" "byte_at s 1 = byte_at n 1" "byte_at s 2 = byte_at n 2" "byte_at s 3 = byte_at n 3"
    by (metis word_4b_bytes)+
  then show "\<forall>i<Suc 3. byte_at s i = byte_at n i" by (auto simp: less_Suc_eq numeral_2_eq_2 numeral_3_eq_3)
qed (simp add: word_4b_def)

lemma short_searches:
  assumes "nul_free h"
  shows "length n = 2 \<Longrightarrow> strstr_2b h n = find_sub n h" "length n = 3 \<Longrightarrow> strstr_3b h n = find_sub n h"
    "length n = 4 \<Longrightarrow> strstr_4b h n = find_sub n h"
proof -
  show "strstr_2b h n = find_sub n h" if "length n = 2"
    unfolding strstr_2b_def by (rule window_law [OF _ _ _ assms]) (use that word_2b_step word_2b_eq bytes_same [of 1] in simp_all)
  show "strstr_3b h n = find_sub n h" if "length n = 3"
    unfolding strstr_3b_def by (rule window_law [OF _ _ _ assms]) (use that word_3b_step word_3b_eq bytes_same [of 2] in simp_all)
  show "strstr_4b h n = find_sub n h" if "length n = 4"
    unfolding strstr_4b_def by (rule window_law [OF _ _ _ assms]) (use that word_4b_step word_4b_eq bytes_same [of 3] in simp_all)
qed

lemma find_sub_skip: "find_sub (c # n) h = find_sub (c # n) (dropWhile (\<lambda>x. x \<noteq> c) h)"
  by (induction h) auto

lemma strchr_drop:
  assumes "c \<noteq> 0"
  shows "strchr h c = (if dropWhile (\<lambda>x. x \<noteq> c) h = [] then None else Some (dropWhile (\<lambda>x. x \<noteq> c) h))"
proof (cases "dropWhile (\<lambda>x. x \<noteq> c) h")
  case Nil
  then show ?thesis using assms by (simp only: strchr_def strchrnul_def drop_span) (simp add: at_def)
next
  case (Cons x r)
  then have "x = c" using hd_dropWhile [of "\<lambda>x. x \<noteq> c" h] by simp
  then show ?thesis using assms Cons by (simp only: strchr_def strchrnul_def drop_span) (simp add: at_def)
qed

text \<open>\<^verbatim>\<open>strstr\<close> with a needle of up to four bytes.\<close>

lemma strstr_law:
  assumes h: "nul_free h" and n: "nul_free n" "length n \<le> 4"
  shows "strstr junk h n = Some (find_sub n h)"
proof (cases n)
  case Nil
  then show ?thesis by (cases h) (simp_all add: strstr_def)
next
  case (Cons c m)
  then have c: "c \<noteq> 0" using n(1) by (simp add: nul_free_def)
  define r where "r = dropWhile (\<lambda>x. x \<noteq> c) h"
  have r: "strchr h c = (if r = [] then None else Some r)" "find_sub n h = find_sub n r" "nul_free r"
    using strchr_drop [OF c, of h] find_sub_skip [of c m h] h set_dropWhileD [of _ "\<lambda>x. x \<noteq> c" h]
    by (auto simp: r_def Cons Let_def nul_free_def)
  have zero: "byte_at n k = 0 \<longleftrightarrow> length n \<le> k" "byte_at r k = 0 \<longleftrightarrow> length r \<le> k" for k
    using byte_at_nonzero [OF n(1), of k] byte_at_nonzero [OF r(3), of k] by auto
  have top: "n \<noteq> []" "at n = c" by (simp_all add: Cons at_def)
  have short: "length r < length n \<Longrightarrow> find_sub n r = None" by (rule find_sub_short)
  have one: "length n = 1 \<Longrightarrow> r \<noteq> [] \<Longrightarrow> find_sub n r = Some r"
    using hd_dropWhile [of "\<lambda>x. x \<noteq> c" h] by (cases r) (auto simp: Cons r_def)
  consider "length n = 1" | "length n = 2" | "length n = 3" | "length n = 4"
  proof -
    have "1 \<le> length n" using Cons by simp
    then show thesis using that n(2) by linarith
  qed
  then show ?thesis
    unfolding strstr_def top(2) r(1,2) using top(1) r(3) short one short_searches [OF r(3), of n]
    by cases (auto simp: zero)
qed

section \<open>Replacing\<close>

lemma find_sub_parts:
  assumes "find_sub n s = Some t" and "n \<noteq> []"
  obtains p where "s = p @ t" "length n \<le> length t" "nul_free s \<Longrightarrow> nul_free (drop (length n) t)" "length (drop (length n) t) < length s"
proof -
  obtain p where p: "s = p @ t" "take (length n) t = n" using find_sub_suffix [OF assms(1)] by blast
  then have le: "length n \<le> length t" by (metis length_take min_def nat_le_linear)
  moreover have "0 < length n" using assms(2) by simp
  ultimately have "length t - length n < length t" by linarith
  then have "length (drop (length n) t) < length s" using p(1) by simp
  then show thesis using that [of p] p le by (auto simp: nul_free_def dest: in_set_dropD)
qed

text \<open>The specification: the occurrences that do not overlap, from the left on, replaced and counted.\<close>

function replace_all :: "cstring \<Rightarrow> cstring \<Rightarrow> cstring \<Rightarrow> cstring" where
  "replace_all n w s = (if n = [] then s else case find_sub n s of None \<Rightarrow> s
     | Some t \<Rightarrow> take (length s - length t) s @ w @ replace_all n w (drop (length n) t))"
  by pat_completeness auto
termination
proof (relation "measure (\<lambda>(n, w, s). length s)", goal_cases)
  case (2 n w s t)
  then have "length (drop (length n) t) < length s" using find_sub_parts by metis
  then show ?case by simp
qed simp

function occurrences :: "cstring \<Rightarrow> cstring \<Rightarrow> nat" where
  "occurrences n s = (if n = [] then 0 else case find_sub n s of None \<Rightarrow> 0 | Some t \<Rightarrow> Suc (occurrences n (drop (length n) t)))"
  by pat_completeness auto
termination
proof (relation "measure (\<lambda>(n, s). length s)", goal_cases)
  case (2 n s t)
  then have "length (drop (length n) t) < length s" using find_sub_parts by metis
  then show ?case by simp
qed simp

declare replace_all.simps [simp del] occurrences.simps [simp del]

lemma replace_length: "int (length (replace_all n w s)) = int (length s) + (int (length w) - int (length n)) * int (occurrences n s)"
proof (induction n s rule: occurrences.induct)
  case (1 n s)
  show ?case
  proof (cases "n = [] \<or> find_sub n s = None")
    case True
    then show ?thesis by (auto simp: replace_all.simps [of n w s] occurrences.simps [of n s])
  next
    case False
    then obtain t where t: "find_sub n s = Some t" and n: "n \<noteq> []" by auto
    then obtain p where p: "s = p @ t" "length n \<le> length t" using find_sub_parts by metis
    have "replace_all n w s = p @ w @ replace_all n w (drop (length n) t)"
      using n t by (subst replace_all.simps) (simp add: p(1))
    moreover have "occurrences n s = Suc (occurrences n (drop (length n) t))"
      using n t by (subst occurrences.simps) simp
    ultimately show ?thesis
      using "1.IH" [OF n t] p by (simp add: algebra_simps of_nat_diff)
  qed
qed

lemma occurrences_le: "occurrences n s \<le> length s"
proof (induction n s rule: occurrences.induct)
  case (1 n s)
  show ?case
  proof (cases "n = [] \<or> find_sub n s = None")
    case False
    then obtain t where t: "find_sub n s = Some t" and n: "n \<noteq> []" by auto
    then have "length (drop (length n) t) < length s" using find_sub_parts by metis
    then show ?thesis using "1.IH" [OF n t] n t by (simp add: occurrences.simps [of n s])
  qed (auto simp: occurrences.simps [of n s])
qed

lemma count_law:
  assumes "nul_free n" and "n \<noteq> []" and "length n \<le> 4"
  shows "nul_free s \<Longrightarrow> count_occurrences junk s n k = Some (k + of_nat (occurrences n s))"
proof (induction "length s" arbitrary: s k rule: less_induct)
  case less
  show ?case
  proof (cases "find_sub n s")
    case None
    then show ?thesis
      using strstr_law [OF less.prems assms(1,3)] assms(2) by (subst count_occurrences.simps) (simp add: occurrences.simps [of n s])
  next
    case (Some t)
    then have "length (drop (length n) t) < length s" "nul_free (drop (length n) t)"
      using find_sub_parts [OF Some assms(2)] less.prems by metis+
    then show ?thesis
      using strstr_law [OF less.prems assms(1,3)] assms(2) Some less.hyps [of "drop (length n) t" "k + 1"]
      by (subst count_occurrences.simps) (simp add: occurrences.simps [of n s] add.assoc)
  qed
qed

lemma replace_loop_law:
  assumes "nul_free n" and "n \<noteq> []" and "length n \<le> 4"
  shows "nul_free s \<Longrightarrow> replace_loop junk (occurrences n s) s n w = Some (replace_all n w s)"
proof (induction "length s" arbitrary: s rule: less_induct)
  case less
  show ?case
  proof (cases "find_sub n s")
    case None
    then show ?thesis using assms(2) by (simp add: occurrences.simps [of n s] replace_all.simps [of n w s])
  next
    case (Some t)
    then have "length (drop (length n) t) < length s" "nul_free (drop (length n) t)"
      using find_sub_parts [OF Some assms(2)] less.prems by metis+
    then show ?thesis
      using strstr_law [OF less.prems assms(1,3)] assms(2) Some less.hyps [of "drop (length n) t"]
      by (simp add: occurrences.simps [of n s] replace_all.simps [of n w s])
  qed
qed

text \<open>The block has exactly the size of the result.\<close>

lemma str_replace_law:
  assumes s: "nul_free s" "length s < 2 ^ 32" and n: "nul_free n" "n \<noteq> []" "length n \<le> 4"
    and room: "length (replace_all n w s) + 1 < 2 ^ 32"
  shows "str_replace junk (Some s) (Some n) (Some w) = Some (Some (of_nat (length (replace_all n w s) + 1), replace_all n w s))"
proof -
  define k where "k = occurrences n s"
  have "k < 2 ^ 32" using occurrences_le [of n s] s(2) by (simp add: k_def)
  then have u: "unat (of_nat k :: u32) = k" by (intro unat_of_nat_small) simp
  have "(of_nat (length s) + (of_nat (length w) - of_nat (length n)) * of_nat k + 1 :: u32) =
      of_int (int (length s) + (int (length w) - int (length n)) * int k + 1)"
    by simp
  also have "\<dots> = of_nat (length (replace_all n w s) + 1)"
    unfolding k_def replace_length [symmetric] by simp
  finally have size: "(of_nat (length s) + (of_nat (length w) - of_nat (length n)) * of_nat k + 1 :: u32) =
      of_nat (length (replace_all n w s) + 1)" .
  have fits: "length (replace_all n w s) < unat (of_nat (length (replace_all n w s) + 1) :: u32)"
    using unat_of_nat_small [where 'a = 32, of "length (replace_all n w s) + 1"] room by simp
  have runs: "count_occurrences junk s n 0 = Some (of_nat k)" "replace_loop junk k s n w = Some (replace_all n w s)"
    using count_law [OF n s(1), of junk 0] replace_loop_law [OF n s(1), of junk w] by (simp_all add: k_def)
  show ?thesis
    by (simp only: str_replace_def option.case Let_def runs u size Option.bind.bind_lunit fits if_True)
qed

text \<open>An empty string to replace is found for ever.\<close>

lemma count_endless: "count_occurrences junk s [] k = None"
proof (rule ccontr)
  assume "count_occurrences junk s [] k \<noteq> None"
  then obtain y where run: "count_occurrences junk s [] k = Some y" by blast
  let ?P = "\<lambda>(junk :: u8 \<Rightarrow> u32) (s :: cstring) (rep :: cstring) (k :: u32) (y :: u32). rep \<noteq> []"
  have "?P junk s [] k y"
  proof (rule count_occurrences.raw_induct [where P = ?P, OF _ run])
    fix f :: "(u8 \<Rightarrow> u32) \<Rightarrow> cstring \<Rightarrow> cstring \<Rightarrow> u32 \<Rightarrow> u32 option" and junk s rep k y
    assume IH: "\<And>junk s rep k y. f junk s rep k = Some y \<Longrightarrow> ?P junk s rep k y"
      and body: "strstr junk s rep \<bind> case_option (Some k) (\<lambda>t. f junk (drop (length rep) t) rep (k + 1)) = Some y"
    show "?P junk s rep k y"
    proof
      assume "rep = []"
      then have "f junk s rep (k + 1) = Some y" using body by (simp add: strstr_def)
      from IH [OF this] \<open>rep = []\<close> show False by simp
    qed
  qed
  then show False by simp
qed

section \<open>Trimming\<close>

abbreviation space :: "u8 \<Rightarrow> bool" where
  "space c \<equiv> isspace (char_int c)"

text \<open>The specification: no spaces at either end.\<close>

definition stripped :: "cstring \<Rightarrow> cstring" where
  "stripped s = rev (dropWhile space (rev (dropWhile space s)))"

lemma not_space_0: "\<not> space 0"
  by (simp add: isspace_def)

lemma space_nonzero: "space c \<Longrightarrow> c \<noteq> 0"
  using not_space_0 by auto

lemma trim_front_law:
  "i \<le> length f \<Longrightarrow> \<forall>c\<in>set f. space c \<Longrightarrow> \<not> space c \<Longrightarrow> trim_front (f @ c # t) i = Some (length f)"
proof (induction "length f - i" arbitrary: i)
  case 0
  then have "(f @ c # t) ! i = c" "i = length f" by (simp_all add: nth_append)
  then show ?case using 0 by (subst trim_front.simps) (simp add: rd8_def)
next
  case (Suc k)
  then have "i < length f" by simp
  then show ?case using Suc by (subst trim_front.simps) (simp add: rd8_def nth_append)
qed

lemma trim_back_law:
  "k \<le> length g \<Longrightarrow> \<forall>c\<in>set g. space c \<Longrightarrow> \<not> space c \<Longrightarrow> front \<le> length p \<Longrightarrow>
     trim_back (p @ c # g @ r) front (Suc (length p) + k) = Some (length p)"
proof (induction k)
  case 0
  then show ?case by (simp add: rd8_def)
next
  case (Suc k)
  have "rd8 (p @ c # g @ r) (Suc (length p) + k) = Some (g ! k)"
    using Suc.prems(1) by (simp add: rd8_def nth_append)
  moreover have "space (g ! k)" using Suc.prems(1,2) by simp
  ultimately show ?case using Suc by simp
qed

text \<open>The copy to the front.\<close>

lemma shift_down_law:
  "d < s \<Longrightarrow> s + n < length b \<Longrightarrow> \<forall>i<n. b ! (s + i) \<noteq> 0 \<Longrightarrow> b ! (s + n) = 0 \<Longrightarrow>
   \<exists>b'. shift_down d s b = Some b' \<and> length b' = length b \<and> (\<forall>j<d. b' ! j = b ! j) \<and> (\<forall>i\<le>n. b' ! (d + i) = b ! (s + i))"
proof (induction n arbitrary: d s b)
  case 0
  then show ?case by (subst shift_down.simps) (auto simp: rd8_def wr8_def)
next
  case (Suc n)
  define b1 where "b1 = b[d := b ! s]"
  have "b ! s \<noteq> 0" using Suc.prems(3) by force
  then have step: "shift_down d s b = shift_down (d + 1) (s + 1) b1"
    using Suc.prems(1,2) by (subst shift_down.simps) (simp add: rd8_def wr8_def b1_def)
  have "\<forall>i<n. b1 ! (s + 1 + i) \<noteq> 0" "b1 ! (s + 1 + n) = 0"
    using Suc.prems by (auto simp: b1_def)
  then obtain b' where b': "shift_down (d + 1) (s + 1) b1 = Some b'" "length b' = length b1" "\<forall>j<d + 1. b' ! j = b1 ! j"
    "\<forall>i\<le>n. b' ! (d + 1 + i) = b1 ! (s + 1 + i)"
    using Suc.IH [of "d + 1" "s + 1" b1] Suc.prems(1,2) by (auto simp: b1_def)
  have "b' ! (d + i) = b ! (s + i)" if "i \<le> Suc n" for i
  proof (cases i)
    case 0
    then show ?thesis using b'(3) Suc.prems(1,2) by (simp add: b1_def)
  next
    case (Suc j)
    then show ?thesis using b'(4) [rule_format, of j] that Suc.prems(1) \<open>d < s\<close> by (simp add: b1_def)
  qed
  then show ?case
    unfolding step using b' by (auto simp: b1_def)
qed

lemma buf_string_prefix: "nul_free s \<Longrightarrow> buf_string (s @ 0 # r) = s"
  by (induction s) (auto simp: buf_string_def nul_free_def)

lemma buf_string_nth:
  "length s < length b \<Longrightarrow> nul_free s \<Longrightarrow> \<forall>i<length s. b ! i = s ! i \<Longrightarrow> b ! length s = 0 \<Longrightarrow> buf_string b = s"
proof -
  assume a: "length s < length b" "nul_free s" "\<forall>i<length s. b ! i = s ! i" "b ! length s = 0"
  have "take (length s) b = s" using a(1,3) by (intro nth_equalityI) auto
  then have "b = s @ 0 # drop (Suc (length s)) b"
    using a(1,4) by (metis append_take_drop_id Cons_nth_drop_Suc)
  then show ?thesis using buf_string_prefix [OF a(2)] by metis
qed

text \<open>A string with something between the spaces.\<close>

lemma trim_parts:
  assumes f: "\<forall>c\<in>set f. space c" and g: "\<forall>c\<in>set g. space c" and core: "core \<noteq> []" "\<not> space (hd core)" "\<not> space (last core)" "nul_free core"
  shows "\<exists>b. trim (f @ core @ g @ 0 # r) = Some b \<and> length b = length (f @ core @ g @ 0 # r) \<and> buf_string b = core"
proof -
  let ?b = "f @ core @ g @ 0 # r"
  obtain x xs where hd: "core = x # xs" "\<not> space x" using core(1,2) by (cases core) auto
  obtain ys y where last: "core = ys @ [y]" "\<not> space y" using core(1,3) by (cases core rule: rev_cases) auto
  have nf: "nul_free (f @ core @ g)"
    using f g core(4) space_nonzero by (auto simp: nul_free_def)
  have len: "length (buf_string ?b) = length f + length core + length g"
    using buf_string_prefix [OF nf, of r] by simp
  have front: "trim_front ?b 0 = Some (length f)"
    using trim_front_law [of 0 f x "xs @ g @ 0 # r"] f hd by simp
  have "trim_back ((f @ ys) @ y # g @ 0 # r) (length f) (Suc (length (f @ ys)) + length g) = Some (length (f @ ys))"
    by (rule trim_back_law) (use g last(2) in simp_all)
  then have hind: "trim_back ?b (length f) (length f + length core + length g) = Some (length f + length ys)"
    by (simp add: last(1) add.assoc)
  have c0: "?b ! 0 \<noteq> 0" using nf core(1) by (cases f) (auto simp: nul_free_def hd(1))
  define B where "B = ?b"
  define b1 where "b1 = (if g \<noteq> [] then ?b[length f + length core := 0] else if f \<noteq> [] \<and> ys = [] then ?b[0 := 0] else ?b)"
  have n: "length core = Suc (length ys)" by (simp add: last(1))
  have sz: "length f + length core + length g < length B" by (simp add: B_def)
  have run: "trim ?b = (if f \<noteq> [] then shift_down 0 (length f) b1 else Some b1)"
    using c0 front hind len sz n unfolding trim_def b1_def B_def [symmetric]
    by (auto simp: Let_def rd8_def wr8_def simp del: trim_back.simps)
  have at: "length b1 = length ?b" "\<forall>i<length core. b1 ! (length f + i) = core ! i" "b1 ! (length f + length core) = 0"
    using core(1) by (auto simp: b1_def nth_append nth_list_update)
  show ?thesis
  proof (cases "f = []")
    case True
    then show ?thesis using run at buf_string_nth [of core b1] core(4) by auto
  next
    case False
    have "\<forall>i<length core. b1 ! (length f + i) \<noteq> 0"
      using at(2) core(4) by (auto simp: nul_free_def) (metis nth_mem)
    then obtain b where "shift_down 0 (length f) b1 = Some b" "length b = length b1" "\<forall>i\<le>length core. b ! i = b1 ! (length f + i)"
      using shift_down_law [of 0 "length f" "length core" b1] False at by auto
    then show ?thesis
      using run False at buf_string_nth [of core b] core(4) by auto
  qed
qed

text \<open>A string of spaces only: a zero is written two bytes behind the last of them, behind the terminator.\<close>

lemma trim_blank:
  assumes "s \<noteq> []" and "\<forall>c\<in>set s. space c"
  shows "trim (s @ [0]) = None" "\<exists>b. trim (s @ 0 # x # r) = Some b \<and> buf_string b = []"
proof -
  have nf: "nul_free s" using assms(2) space_nonzero by (auto simp: nul_free_def)
  have len: "length (buf_string (s @ 0 # r)) = length s" for r
    using buf_string_prefix [OF nf] by simp
  have front: "trim_front (s @ 0 # r) 0 = Some (length s)" for r
    by (rule trim_front_law) (use assms(2) not_space_0 in simp_all)
  obtain c t where ct: "s = c # t" "c \<noteq> 0" using assms(1) nf by (cases s) (auto simp: nul_free_def)
  have c0: "rd8 (s @ 0 # r) 0 = Some c" for r by (simp add: rd8_def ct(1))
  show "trim (s @ [0]) = None"
    unfolding trim_def Let_def len c0 front by (simp add: ct wr8_def)
  define b1 where "b1 = (s @ 0 # x # r)[Suc (length s) := 0]"
  have w: "wr8 (Suc (length s)) 0 (s @ 0 # x # r) = Some b1" by (simp add: wr8_def b1_def)
  have "b1 ! length s = 0" "length s < length b1" by (simp_all add: b1_def nth_append)
  then have sh: "shift_down 0 (length s) b1 = Some (b1[0 := 0])"
    by (subst shift_down.simps) (auto simp: rd8_def wr8_def)
  have "trim (s @ 0 # x # r) = Some (b1[0 := 0])"
    unfolding trim_def Let_def len c0 front using w sh by (simp add: ct(2) assms(1)) (simp add: ct(1))
  moreover have "buf_string (b1[0 := 0]) = []"
    by (simp add: b1_def ct(1) buf_string_def)
  ultimately show "\<exists>b. trim (s @ 0 # x # r) = Some b \<and> buf_string b = []" by blast
qed

section \<open>Splitting\<close>

text \<open>
  The specification: the runs between the delimiters, and an empty word at an end where there is a delimiter.
\<close>

definition delim_fields :: "u8 \<Rightarrow> cstring \<Rightarrow> cstring list" where
  "delim_fields d s = (if s = [] \<or> hd s = d then [[]] else []) @ word_runs (\<lambda>c. c = d) s @ (if s \<noteq> [] \<and> last s = d then [[]] else [])"

lemma word_runs_drop: "word_runs P (dropWhile P s) = word_runs P s"
  by (simp only: word_runs.simps [of P s] word_runs.simps [of P "dropWhile P s"] dropWhile_idem)

lemma word_runs_run:
  assumes "w \<noteq> []" and "\<forall>c\<in>set w. \<not> P c" and "t = [] \<or> P (hd t)"
  shows "word_runs P (w @ t) = w # word_runs P t"
proof -
  obtain c v where w: "w = c # v" using assms(1) by (cases w) auto
  have "takeWhile (\<lambda>x. \<not> P x) (v @ t) = v" "dropWhile (\<lambda>x. \<not> P x) (v @ t) = t"
    using assms(2,3) by (cases t; simp add: w)+
  then show ?thesis using assms(2) by (simp add: w word_runs.simps [of P "c # _"])
qed

lemma count_delims_free: "d \<notin> set w \<Longrightarrow> count_delims d (w @ t) = count_delims d t"
  by (induction w) auto

lemma split_words_law: "split_words (Suc (count_delims d s)) d s = delim_fields d s"
proof (induction "length s" arbitrary: s rule: less_induct)
  case less
  define w where "w = takeWhile (\<lambda>x. x \<noteq> d) s"
  define t where "t = dropWhile (\<lambda>x. x \<noteq> d) s"
  have s: "s = w @ t" by (simp add: w_def t_def)
  have w: "\<forall>c\<in>set w. c \<noteq> d" by (auto simp: w_def dest: set_takeWhileD)
  have cnt: "count_delims d s = count_delims d t"
    unfolding s using w by (intro count_delims_free) auto
  show ?case
  proof (cases t)
    case Nil
    then have "s = w" using s by simp
    moreover have "word_runs (\<lambda>c. c = d) s = (if s = [] then [] else [s])"
      using word_runs_run [of s "\<lambda>c. c = d" "[]"] w \<open>s = w\<close> by (auto simp: word_runs.simps [of _ "[]"])
    ultimately show ?thesis
      using cnt Nil w by (auto simp: delim_fields_def w_def [symmetric])
  next
    case (Cons e u)
    then have e: "e = d" using hd_dropWhile [of "\<lambda>x. x \<noteq> d" s] by (simp add: t_def)
    define v where "v = dropWhile (\<lambda>x. x = d) u"
    have v: "dropWhile (\<lambda>x. x = d) t = v" "v = [] \<or> hd v \<noteq> d"
      using hd_dropWhile [of "\<lambda>x. x = d" u] by (auto simp: Cons e v_def)
    have c2: "count_delims d s = Suc (count_delims d v)" by (simp add: cnt Cons e v_def)
    have "length v < length s" using length_dropWhile_le [of "\<lambda>x. x = d" u] by (simp add: s Cons v_def)
    then have IH: "split_words (Suc (count_delims d v)) d v = delim_fields d v" by (rule less)
    have "split_words (Suc (count_delims d s)) d s = w # delim_fields d v"
      using IH v(1) by (simp only: c2 split_words.simps(2) [of "Suc _"] w_def [symmetric] t_def [symmetric])
    moreover have "word_runs (\<lambda>c. c = d) s = (if w = [] then [] else [w]) @ word_runs (\<lambda>c. c = d) v"
      using word_runs_run [of w "\<lambda>c. c = d" t] w word_runs_drop [of "\<lambda>c. c = d" t] v(1) by (auto simp: s Cons e)
    moreover have "last s = (if v = [] then d else last v)"
    proof (cases "v = []")
      case True
      then have "\<forall>c\<in>set t. c = d" using v(1) by (simp add: dropWhile_eq_Nil_conv)
      then show ?thesis using True Cons by (simp add: s)
    next
      case False
      then show ?thesis using v(1) Cons by (metis append_is_Nil_conv last_append list.distinct(1) s takeWhile_dropWhile_id)
    qed
    moreover have "s \<noteq> []" "hd s = d \<longleftrightarrow> w = []" using Cons e w by (cases w; auto simp: s)+
    moreover have "v = [] \<Longrightarrow> word_runs (\<lambda>c. c = d) v = []" by (simp add: word_runs.simps [of _ "[]"])
    ultimately show ?thesis
      using v(2) by (auto simp: delim_fields_def)
  qed
qed

lemma count_delims_0: "count_delims d s = 0 \<longleftrightarrow> d \<notin> set s"
  by (induction s) auto

text \<open>A trimmed string with a delimiter is split into its fields; one without is copied into four bytes.\<close>

lemma split_string_law:
  assumes "\<forall>c\<in>set f. space c" and "\<forall>c\<in>set g. space c" and "core \<noteq> []" "\<not> space (hd core)" "\<not> space (last core)" "nul_free core"
  shows "split_string (f @ core @ g @ 0 # r) d = (if d \<in> set core then Some (delim_fields d core) else if length core < 4 then Some [core] else None)"
proof -
  obtain b where b: "trim (f @ core @ g @ 0 # r) = Some b" "buf_string b = core"
    using trim_parts [OF assms] by blast
  show ?thesis
    using split_words_law [of d core] count_delims_0 [of d core] by (auto simp: split_string_def b Let_def)
qed

end
