(* ===== verification/Format.thy ===== *)
theory Format
  imports C_String
begin

text \<open>
  Formatted output of \<^verbatim>\<open>src/src/libc/kprintf.cpp\<close>, and \<^verbatim>\<open>atoi\<close> of \<^verbatim>\<open>libc.cpp\<close>.  What is written to the buffer is a
  list of bytes, in the order of the addresses.
\<close>

section \<open>Numbers\<close>

text \<open>
  The loops of \<^verbatim>\<open>print_dec\<close> and \<^verbatim>\<open>print_hex\<close> that count the digits differ in the base; the bound is computed in 32 bits.
\<close>

partial_function (option) digit_width :: "u32 \<Rightarrow> u32 \<Rightarrow> u32 \<Rightarrow> u32 \<Rightarrow> u32 option" where
  "digit_width base value i n_width =
     (if value > i \<and> i < 0xFFFFFFFF then digit_width base value (i * base + (base - 1)) (n_width + 1) else Some n_width)"

function zeros :: "u32 \<Rightarrow> u32 \<Rightarrow> cstring" where
  "zeros n width = (if n < width then 48 # zeros (n + 1) width else [])"
  by pat_completeness auto
termination
proof (relation "measure (\<lambda>(n, width). unat width - unat n)")
  fix n width :: u32 assume "n < width"
  then show "((n + 1, width), (n, width)) \<in> measure (\<lambda>(n, width). unat width - unat n)"
    using unat_Suc_below [of n width] by (simp add: word_less_nat_alt)
qed simp

declare zeros.simps [simp del]

fun dec_digits :: "nat \<Rightarrow> u32 \<Rightarrow> cstring" where
  "dec_digits 0 value = []"
| "dec_digits (Suc i) value = dec_digits i (value div 10) @ [ucast (value mod 10) + 48]"

definition print_dec :: "u32 \<Rightarrow> u32 \<Rightarrow> cstring option" where
  "print_dec value width = do {
     n_width \<leftarrow> digit_width 10 value 9 1;
     Some (zeros n_width width @ dec_digits (unat n_width) value) }"

text \<open>The counter of the padding is an \<^verbatim>\<open>int\<close>.\<close>

definition hex_zeros :: "u32 \<Rightarrow> u32 \<Rightarrow> cstring" where
  "hex_zeros n_width i = replicate (nat (sint i - sint n_width)) 48"

definition hex_char :: "u32 \<Rightarrow> u8" where
  "hex_char d = map (\<lambda>c. of_nat (of_char c)) ''0123456789abcdef'' ! unat d"

fun hex_digits :: "nat \<Rightarrow> u32 \<Rightarrow> cstring" where
  "hex_digits 0 value = []"
| "hex_digits (Suc i) value = hex_char (drop_bit (i * 4) value AND 0xF) # hex_digits i value"

definition print_hex :: "u32 \<Rightarrow> u32 \<Rightarrow> cstring option" where
  "print_hex value width = (let i = (if width = 0 then 8 else width) in do {
     n_width \<leftarrow> digit_width 16 value 0x0F 1;
     Some (hex_zeros n_width i @ hex_digits (unat n_width) value) })"

section \<open>Formats\<close>

text \<open>An argument is a word or a pointer to a string; the null pointer is no string.\<close>

datatype arg = Word_Arg u32 | String_Arg "cstring option"

definition bytes_of :: "string \<Rightarrow> cstring" where
  "bytes_of s = map (\<lambda>c. of_nat (of_char c)) s"

fun parse_width :: "u32 \<Rightarrow> cstring \<Rightarrow> u32 \<times> cstring" where
  "parse_width w [] = (w, [])"
| "parse_width w (c # f) = (if 48 \<le>s c \<and> c \<le>s 57 then parse_width (w * 10 + (char_int c - 48)) f else (w, c # f))"

lemma parse_width_length: "length (snd (parse_width w f)) \<le> length f"
  by (induction w f rule: parse_width.induct) (auto intro: le_SucI)

lemma parse_width_rest: "(w, d # g) = parse_width v f \<Longrightarrow> length g < Suc (length f)"
  using parse_width_length [of v f] by (metis length_Cons less_Suc_eq_le Suc_le_lessD le_SucI less_imp_le_nat snd_conv)

text \<open>A format that ends after \<^verbatim>\<open>%\<close> is read beyond its end.\<close>

function format_loop :: "cstring \<Rightarrow> arg list \<Rightarrow> cstring option" where
  "format_loop [] args = Some []"
| "format_loop (c # f) args = (if c \<noteq> 37 then do { out \<leftarrow> format_loop f args; Some (c # out) }
     else (case parse_width 0 f of
       (w, []) \<Rightarrow> None
     | (w, d # f) \<Rightarrow>
         if d = 115 then (case args of
             String_Arg s # args \<Rightarrow> do { out \<leftarrow> format_loop f args; Some ((case s of None \<Rightarrow> bytes_of ''(null)'' | Some t \<Rightarrow> t) @ out) }
           | _ \<Rightarrow> None)
         else if d = 99 then (case args of Word_Arg v # args \<Rightarrow> do { out \<leftarrow> format_loop f args; Some (ucast v # out) } | _ \<Rightarrow> None)
         else if d = 120 then (case args of
             Word_Arg v # args \<Rightarrow> do { ds \<leftarrow> print_hex v w; out \<leftarrow> format_loop f args; Some (ds @ out) } | _ \<Rightarrow> None)
         else if d = 100 then (case args of
             Word_Arg v # args \<Rightarrow> do { ds \<leftarrow> print_dec v w; out \<leftarrow> format_loop f args; Some (ds @ out) } | _ \<Rightarrow> None)
         else do { out \<leftarrow> format_loop f args; Some ((if d = 37 then 37 else d) # out) }))"
  by pat_completeness auto
termination
  by (relation "measure (\<lambda>(f, args). length f)") (auto dest: parse_width_rest)

declare format_loop.simps [simp del]

text \<open>\<open>room\<close> is the number of bytes of the buffer; the terminator is not counted in the result.\<close>

definition vasprintf :: "nat \<Rightarrow> cstring \<Rightarrow> arg list \<Rightarrow> (cstring \<times> nat) option" where
  "vasprintf room fmt args = do {
     out \<leftarrow> format_loop fmt args;
     if length out < room then Some (out, length out) else None }"

definition sprintf :: "nat \<Rightarrow> cstring \<Rightarrow> arg list \<Rightarrow> (cstring \<times> nat) option" where
  "sprintf room fmt args = vasprintf room fmt args"

section \<open>Reading a number\<close>

text \<open>The value is counted downwards; an \<^verbatim>\<open>int\<close> that overflows has no value.\<close>

definition int_of_c :: "int \<Rightarrow> int option" where
  "int_of_c n = (if - (2 ^ 31) \<le> n \<and> n < 2 ^ 31 then Some n else None)"

fun skip_space :: "cstring \<Rightarrow> cstring" where
  "skip_space [] = []"
| "skip_space (c # s) = (if isspace (char_int c) then skip_space s else c # s)"

fun atoi_loop :: "int \<Rightarrow> cstring \<Rightarrow> int option" where
  "atoi_loop n [] = Some n"
| "atoi_loop n (c # s) = (if isdigit (char_int c)
     then do { t \<leftarrow> int_of_c (10 * n); n \<leftarrow> int_of_c (t - (sint c - 48)); atoi_loop n s } else Some n)"

definition atoi :: "cstring \<Rightarrow> int option" where
  "atoi s = (let s = skip_space s;
     neg = (at s = 45);
     s = (if at s = 45 \<or> at s = 43 then tl s else s)
     in do { n \<leftarrow> atoi_loop 0 s; if neg then Some n else int_of_c (- n) })"

end
