(* ===== verification/Format_Laws.thy ===== *)
theory Format_Laws
  imports Format
begin

text \<open>
  What is printed for a number: its digits, with zeros to the width; and \<^verbatim>\<open>atoi\<close> as the inverse of printing.
\<close>

section \<open>The number of digits\<close>

text \<open>The bound of the loop is \<open>base ^ k - 1\<close> in 32 bits, which is the largest word for \<open>10 ^ 32\<close> and \<open>16 ^ 8\<close>, so the loop ends.\<close>

definition top_of :: "u32 \<Rightarrow> nat \<Rightarrow> u32" where
  "top_of base k = base ^ k - 1"

lemma top_of_Suc: "top_of base k * base + (base - 1) = top_of base (Suc k)"
  by (simp add: top_of_def algebra_simps)

lemma top_of_last: "top_of 10 32 = 0xFFFFFFFF" "top_of 16 8 = 0xFFFFFFFF"
  by (simp_all add: top_of_def)

lemma largest_word: "(v :: u32) \<le> 0xFFFFFFFF"
  using unat_bound [of v] by (simp add: word_le_nat_alt)

lemma top_of_nat: "1 \<le> b \<Longrightarrow> top_of (of_nat b) k = of_nat (b ^ k - 1)"
  by (simp add: top_of_def of_nat_diff)

lemma top_of_le: "1 \<le> b \<Longrightarrow> unat (top_of (of_nat b) k) \<le> b ^ k - 1"
  by (simp only: top_of_nat unat_of_nat) simp

lemma top_of_unat: "1 \<le> b \<Longrightarrow> b ^ k \<le> 2 ^ 32 \<Longrightarrow> unat (top_of (of_nat b) k) = b ^ k - 1"
  using unat_of_nat_small [where 'a = 32, of "b ^ k - 1"] by (simp only: top_of_nat) (simp add: less_le_trans)

lemma digit_width_law:
  assumes "top_of b N = 0xFFFFFFFF"
  shows "k \<le> N \<Longrightarrow> \<exists>j. k \<le> j \<and> j \<le> N \<and> digit_width b v (top_of b k) (of_nat k) = Some (of_nat j)
    \<and> v \<le> top_of b j \<and> (\<forall>i. k \<le> i \<and> i < j \<longrightarrow> top_of b i < v)"
proof (induction "N - k" arbitrary: k)
  case 0
  then have k: "k = N" by simp
  then have "digit_width b v (top_of b k) (of_nat k) = Some (of_nat k)"
    by (subst digit_width.simps) (simp add: assms)
  moreover have "v \<le> top_of b N"
    by (simp add: assms largest_word)
  ultimately show ?case using k by (intro exI [of _ N]) auto
next
  case (Suc n)
  then have k: "k < N" and n: "n = N - Suc k" by simp_all
  show ?case
  proof (cases "v > top_of b k \<and> top_of b k < 0xFFFFFFFF")
    case True
    then have "digit_width b v (top_of b k) (of_nat k) = digit_width b v (top_of b (Suc k)) (of_nat (Suc k))"
      by (subst digit_width.simps) (simp add: top_of_Suc [symmetric] add.commute)
    moreover obtain j where j: "Suc k \<le> j" "j \<le> N" "digit_width b v (top_of b (Suc k)) (of_nat (Suc k)) = Some (of_nat j)"
      "v \<le> top_of b j" "\<forall>i. Suc k \<le> i \<and> i < j \<longrightarrow> top_of b i < v"
      using Suc.hyps(1) [OF n] k by auto
    moreover have "\<forall>i. k \<le> i \<and> i < j \<longrightarrow> top_of b i < v"
      using j(5) True by (metis Suc_leI le_neq_implies_less)
    ultimately show ?thesis
      by (intro exI [of _ j]) simp
  next
    case False
    then have "digit_width b v (top_of b k) (of_nat k) = Some (of_nat k)"
      by (subst digit_width.simps) auto
    moreover have "v \<le> top_of b k"
      using False largest_word [of v] by (auto simp: not_less intro: order_trans)
    ultimately show ?thesis using k by (intro exI [of _ k]) auto
  qed
qed

text \<open>So many digits are enough, and one less is not, as long as the bounds fit 32 bits.\<close>

lemma width_enough:
  assumes "1 < b" and "v \<le> top_of (of_nat b) j"
  shows "unat v < b ^ j"
proof -
  have "unat v \<le> b ^ j - 1"
    using assms top_of_le [of b j] by (simp add: word_le_nat_alt)
  moreover have "b ^ j - 1 < b ^ j" using assms(1) by simp
  ultimately show ?thesis by (rule le_less_trans)
qed

lemma width_minimal:
  assumes "1 < b" and "top_of (of_nat b) i < v" and "b ^ i \<le> 2 ^ 32"
  shows "b ^ i \<le> unat v"
proof -
  have "b ^ i - 1 < unat v"
    using assms top_of_unat [of b i] by (simp add: word_less_nat_alt)
  then show ?thesis by linarith
qed

section \<open>Digits\<close>

definition is_digit :: "u8 \<Rightarrow> bool" where
  "is_digit c \<longleftrightarrow> 48 \<le> c \<and> c \<le> 57"

definition dec_value :: "nat \<Rightarrow> cstring \<Rightarrow> nat" where
  "dec_value = foldl (\<lambda>n c. 10 * n + (unat c - 48))"

lemma dec_value_append: "dec_value a (s @ t) = dec_value (dec_value a s) t"
  by (simp add: dec_value_def)

lemma dec_value_zeros: "dec_value 0 (replicate n 48) = 0"
  by (induction n) (simp_all add: dec_value_def)

lemma digit_byte: "is_digit (ucast ((v :: u32) mod 10) + 48)" "unat (ucast ((v :: u32) mod 10) + 48 :: u8) = unat v mod 10 + 48"
proof -
  have "unat (v mod 10) = unat v mod 10" by (simp add: unat_mod)
  then have "unat (ucast (v mod 10) :: u8) = unat v mod 10"
    by (simp add: unsigned_ucast_eq take_bit_eq_mod)
  then show u: "unat (ucast ((v :: u32) mod 10) + 48 :: u8) = unat v mod 10 + 48"
    by (simp add: unat_word_ariths)
  have "unat v mod 10 < 10" by simp
  then show "is_digit (ucast ((v :: u32) mod 10) + 48)"
    unfolding is_digit_def word_le_nat_alt u by simp
qed

lemma dec_digits_law:
  "length (dec_digits n v) = n \<and> (\<forall>c\<in>set (dec_digits n v). is_digit c) \<and> dec_value 0 (dec_digits n v) = unat v mod 10 ^ n"
proof (induction n arbitrary: v)
  case (Suc n)
  have "unat v mod 10 ^ Suc n = 10 * (unat v div 10 mod 10 ^ n) + unat v mod 10"
    by (simp add: mod_mult2_eq)
  moreover have "dec_value a [ucast (v mod 10) + 48] = 10 * a + unat v mod 10" for a
    by (simp add: dec_value_def digit_byte)
  ultimately show ?case
    using Suc.IH [of "v div 10"] digit_byte(1) [of v] by (auto simp: dec_value_append unat_div)
qed (simp add: dec_value_def)

lemma zeros_law: "zeros n w = replicate (unat w - unat n) 48"
proof (induction n w rule: zeros.induct)
  case (1 n w)
  show ?case
  proof (cases "n < w")
    case True
    then have "unat w - unat n = Suc (unat w - unat (n + 1))"
      using unat_Suc_below [OF True] by (simp add: word_less_nat_alt)
    then show ?thesis using 1 True by (subst zeros.simps) simp
  next
    case False
    then show ?thesis by (subst zeros.simps) (simp add: word_le_nat_alt not_less)
  qed
qed

text \<open>All digits are there; leading zeros beyond the width appear only above 1410065407.\<close>

lemma print_dec_law:
  "\<exists>n ds. print_dec v w = Some (replicate (unat w - n) 48 @ ds) \<and> length ds = n \<and> 1 \<le> n \<and> n \<le> 32 \<and> (\<forall>c\<in>set ds. is_digit c)
    \<and> dec_value 0 ds = unat v \<and> (v \<le> 1410065407 \<longrightarrow> n = 1 \<or> 10 ^ (n - 1) \<le> unat v)"
proof -
  obtain j where j: "1 \<le> j" "j \<le> 32" "digit_width 10 v (top_of 10 1) (of_nat 1) = Some (of_nat j)" "v \<le> top_of 10 j"
    "\<forall>i. 1 \<le> i \<and> i < j \<longrightarrow> top_of 10 i < v"
    using digit_width_law [OF top_of_last(1), of 1 v] by auto
  have t1: "top_of 10 1 = 9" by (simp add: top_of_def)
  have u: "unat (of_nat j :: u32) = j"
    by (rule unat_of_nat_small) (use j(2) in simp)
  have small: "unat v < 10 ^ j"
    using width_enough [of 10 v j] j(4) by simp
  have min: "j = 1 \<or> 10 ^ (j - 1) \<le> unat v" if v: "v \<le> 1410065407"
  proof -
    have "top_of 10 10 = 1410065407" by (simp add: top_of_def)
    then have "j \<le> 10" using j(5) v by (metis not_le one_le_numeral)
    then have "(10 :: nat) ^ (j - 1) \<le> 10 ^ 9" by (intro power_increasing) simp_all
    then show ?thesis
      using j(1) j(5) [rule_format, of "j - 1"] width_minimal [of 10 "j - 1" v] by (cases "j = 1") auto
  qed
  show ?thesis
    using j u small min dec_digits_law [of j v] t1
    by (intro exI [of _ j] exI [of _ "dec_digits j v"]) (simp add: print_dec_def zeros_law)
qed

section \<open>Hexadecimal numbers\<close>

definition hex_value :: "cstring \<Rightarrow> nat" where
  "hex_value = foldl (\<lambda>n c. 16 * n + (if c \<le> 57 then unat c - 48 else unat c - 87)) 0"

lemma hex_char_value:
  assumes "d < 16"
  shows "(if hex_char d \<le> 57 then unat (hex_char d) - 48 else unat (hex_char d) - 87) = unat d"
proof -
  have "unat d < 16" using assms by (simp add: word_less_nat_alt)
  then have "unat d \<in> {0, 1, 2, 3, 4, 5, 6, 7, 8, 9, 10, 11, 12, 13, 14, 15}"
    by (simp add: less_Suc_eq numeral_eq_Suc) 
  then show ?thesis by (auto simp: hex_char_def)
qed

lemma nibble: "(drop_bit (i * 4) v AND 0xF :: u32) < 16" "unat (drop_bit (i * 4) v AND 0xF :: u32) = unat v div 16 ^ i mod 16"
proof -
  have "(0xF :: u32) = mask 4" by (simp add: mask_eq_exp_minus_1)
  then have "drop_bit (i * 4) v AND 0xF = take_bit 4 (drop_bit (i * 4) v)"
    by (simp add: take_bit_eq_mask)
  then show u: "unat (drop_bit (i * 4) v AND 0xF :: u32) = unat v div 16 ^ i mod 16"
    by (simp only: unsigned_take_bit_eq unat_drop_bit_eq) (simp add: take_bit_eq_mod drop_bit_eq_div power_mult mult.commute [of i])
  show "(drop_bit (i * 4) v AND 0xF :: u32) < 16"
    unfolding word_less_nat_alt u by simp
qed

lemma hex_digits_law: "length (hex_digits n v) = n \<and> hex_value (pre @ hex_digits n v) = hex_value pre * 16 ^ n + unat v mod 16 ^ n"
proof (induction n arbitrary: pre)
  case (Suc n)
  have "hex_value (pre @ [hex_char (drop_bit (n * 4) v AND 0xF)]) = 16 * hex_value pre + unat v div 16 ^ n mod 16"
    using hex_char_value [OF nibble(1)] nibble(2) [of n v] by (simp add: hex_value_def)
  moreover have "unat v mod 16 ^ Suc n = (unat v div 16 ^ n mod 16) * 16 ^ n + unat v mod 16 ^ n"
    using mod_mult2_eq [of "unat v" "16 ^ n" 16] by (simp add: mult.commute)
  ultimately show ?case
    using Suc.IH [of "pre @ [hex_char (drop_bit (n * 4) v AND 0xF)]"] by (simp add: algebra_simps)
qed simp

text \<open>Without a width eight digits are printed.\<close>

lemma print_hex_law:
  assumes "width \<le> 0x7FFFFFFF"
  shows "\<exists>n ds. print_hex v width = Some (replicate ((if width = 0 then 8 else unat width) - n) 48 @ ds) \<and> length ds = n \<and> 1 \<le> n \<and> n \<le> 8
    \<and> hex_value ds = unat v \<and> (n = 1 \<or> 16 ^ (n - 1) \<le> unat v)"
proof -
  obtain j where j: "1 \<le> j" "j \<le> 8" "digit_width 16 v (top_of 16 1) (of_nat 1) = Some (of_nat j)" "v \<le> top_of 16 j"
    "\<forall>i. 1 \<le> i \<and> i < j \<longrightarrow> top_of 16 i < v"
    using digit_width_law [OF top_of_last(2), of 1 v] by auto
  have t1: "top_of 16 1 = 15" by (simp add: top_of_def)
  have u: "unat (of_nat j :: u32) = j"
    by (rule unat_of_nat_small) (use j(2) in simp)
  have small: "unat v < 16 ^ j"
    using width_enough [of 16 v j] j(4) by simp
  have "(16 :: nat) ^ (j - 1) \<le> 16 ^ 8" using j(2) by (intro power_increasing) simp_all
  then have min: "j = 1 \<or> 16 ^ (j - 1) \<le> unat v"
    using j(1) j(5) [rule_format, of "j - 1"] width_minimal [of 16 "j - 1" v] by (cases "j = 1") auto
  have pos: "sint w = int (unat w)" if "w \<le> 0x7FFFFFFF" for w :: u32
  proof -
    have "uint w \<le> 0x7FFFFFFF" "0 \<le> uint w" using that by (simp_all add: word_le_def)
    then have "signed_take_bit 31 (uint w) = uint w"
      by (intro signed_take_bit_int_eq_self; simp; linarith)
    then have "sint w = uint w" by (simp only: sint_uint) simp
    then show ?thesis by simp
  qed
  have "of_nat j \<le> (0x7FFFFFFF :: u32)"
    using j(2) by (simp add: word_le_nat_alt u)
  then have pad: "nat (sint x - sint (of_nat j :: u32)) = unat x - j" if "x \<le> 0x7FFFFFFF" for x :: u32
    by (simp only: pos [OF that] pos u nat_minus_as_int)
  have "nat (sint (if width = 0 then 8 else width) - sint (of_nat j :: u32)) = (if width = 0 then 8 else unat width) - j"
    using pad [OF assms] pad [of 8] by auto
  then show ?thesis
    using j u small min hex_digits_law [of j v "[]"] t1
    by (intro exI [of _ j] exI [of _ "hex_digits j v"]) (simp add: print_hex_def hex_zeros_def hex_value_def Let_def)
qed

section \<open>Reading what was printed\<close>

lemma digit_cases:
  assumes "is_digit c"
  obtains "c = 48" | "c = 49" | "c = 50" | "c = 51" | "c = 52" | "c = 53" | "c = 54" | "c = 55" | "c = 56" | "c = 57"
proof -
  have "48 \<le> unat c" "unat c \<le> 57" using assms by (simp_all add: is_digit_def word_le_nat_alt)
  then have "unat c \<in> {48, 49, 50, 51, 52, 53, 54, 55, 56, 57}"
    using atLeastAtMost_upt [of 48 57] by (auto simp: upt_rec set_eq_iff)
  then show thesis using that by (auto simp: word_unat_eq_iff)
qed

lemma digit_read: "is_digit c \<Longrightarrow> isdigit (char_int c)" "is_digit c \<Longrightarrow> sint c - 48 = int (unat c - 48)" "is_digit c \<Longrightarrow> \<not> isspace (char_int c)"
  "is_digit c \<Longrightarrow> c \<noteq> 45" "is_digit c \<Longrightarrow> c \<noteq> 43"
  by (erule digit_cases; simp add: isdigit_def isspace_def)+

lemma dec_value_mono: "a \<le> dec_value a ds"
proof (induction ds arbitrary: a)
  case (Cons c ds)
  have "a \<le> 10 * a + (unat c - 48)" by simp
  also have "\<dots> \<le> dec_value a (c # ds)"
    using Cons.IH [of "10 * a + (unat c - 48)"] by (simp add: dec_value_def)
  finally show ?case .
qed (simp add: dec_value_def)

lemma atoi_digits:
  assumes "\<forall>c\<in>set ds. is_digit c" and "dec_value a ds \<le> 2 ^ 31" and "rest = [] \<or> \<not> isdigit (char_int (hd rest))"
  shows "atoi_loop (- int a) (ds @ rest) = Some (- int (dec_value a ds))"
  using assms(1,2)
proof (induction ds arbitrary: a)
  case Nil
  then show ?case using assms(3) by (cases rest) (simp_all add: dec_value_def)
next
  case (Cons c ds)
  have dc: "is_digit c" using Cons.prems by simp
  have v: "dec_value a (c # ds) = dec_value (10 * a + (unat c - 48)) ds" by (simp add: dec_value_def)
  have le: "10 * a + (unat c - 48) \<le> 2 ^ 31"
    using Cons.prems(2) dec_value_mono [of "10 * a + (unat c - 48)" ds] unfolding v by linarith
  have "int_of_c (10 * - int a) = Some (- int (10 * a))" "int_of_c (- int (10 * a) - int (unat c - 48)) = Some (- int (10 * a + (unat c - 48)))"
    using le by (auto simp: int_of_c_def)
  then show ?case
    using Cons.IH [of "10 * a + (unat c - 48)"] Cons.prems digit_read [OF dc] unfolding v by simp
qed

text \<open>A number with a sign, after spaces and before anything that is not a digit.\<close>

lemma skip_spaces: "\<forall>c\<in>set sp. isspace (char_int c) \<Longrightarrow> skip_space (sp @ s) = skip_space s"
  by (induction sp) auto

lemma atoi_law:
  assumes "\<forall>c\<in>set sp. isspace (char_int c)" and "ds \<noteq> []" and "\<forall>c\<in>set ds. is_digit c"
    and "rest = [] \<or> \<not> isdigit (char_int (hd rest))"
  shows "dec_value 0 ds < 2 ^ 31 \<Longrightarrow> atoi (sp @ ds @ rest) = Some (int (dec_value 0 ds))"
    "dec_value 0 ds \<le> 2 ^ 31 \<Longrightarrow> atoi (sp @ 45 # ds @ rest) = Some (- int (dec_value 0 ds))"
proof -
  obtain c t where ds: "ds = c # t" "is_digit c" using assms(2,3) by (cases ds) auto
  have sk: "skip_space (ds @ rest) = ds @ rest" "skip_space (45 # ds @ rest) = 45 # ds @ rest"
    using digit_read [OF ds(2)] by (simp_all add: ds(1) isspace_def)
  have at: "at (ds @ rest) = c" "at (45 # ds @ rest) = 45" by (simp_all add: ds(1) at_def)
  note rd = atoi_digits [OF assms(3) _ assms(4), of 0]
  show "dec_value 0 ds < 2 ^ 31 \<Longrightarrow> atoi (sp @ ds @ rest) = Some (int (dec_value 0 ds))"
    using rd digit_read [OF ds(2)] by (simp add: atoi_def skip_spaces [OF assms(1)] sk at Let_def int_of_c_def)
  show "dec_value 0 ds \<le> 2 ^ 31 \<Longrightarrow> atoi (sp @ 45 # ds @ rest) = Some (- int (dec_value 0 ds))"
    using rd by (simp add: atoi_def skip_spaces [OF assms(1)] sk at Let_def isspace_def)
qed

end
