(* ===== verification/Ata.thy ===== *)
theory Ata
  imports Bytes
begin

text \<open>
  The disk driver \<^verbatim>\<open>src/src/modules/ata.cpp\<close>: the commands that move one sector through the ports of the controller, and the
  read and write handlers of the device node, which cut a request into sectors.  The controller is not code of the
  repository: the port instructions of \<^verbatim>\<open>io.h\<close> are a parameter.  A buffer is the object the pointer designates; a copy that
  runs over its end, and a wait for a device that stays busy, have no result.
\<close>

section \<open>The controller\<close>

record 'd ports =
  port_out :: "u16 \<Rightarrow> u8 \<Rightarrow> 'd \<Rightarrow> 'd"
  port_in :: "u16 \<Rightarrow> 'd \<Rightarrow> u8 \<times> 'd"
  port_outs :: "u16 \<Rightarrow> u8 list \<Rightarrow> 'd \<Rightarrow> 'd"
  port_ins :: "u16 \<Rightarrow> nat \<Rightarrow> 'd \<Rightarrow> u8 list \<times> 'd"

record ata_dev =
  io_base :: u32
  dev_control :: u32
  dev_slave :: u32
  sectors_28 :: u32
  sectors_48 :: "64 word"

definition out_reg :: "'d ports \<Rightarrow> ata_dev \<Rightarrow> u32 \<Rightarrow> u8 \<Rightarrow> 'd \<Rightarrow> 'd" where
  "out_reg P dev r v d = port_out P (ucast (io_base dev + r)) v d"

definition in_reg :: "'d ports \<Rightarrow> ata_dev \<Rightarrow> u32 \<Rightarrow> 'd \<Rightarrow> u8 \<times> 'd" where
  "in_reg P dev r d = port_in P (ucast (io_base dev + r)) d"

definition ata_io_wait :: "'d ports \<Rightarrow> ata_dev \<Rightarrow> 'd \<Rightarrow> 'd" where
  "ata_io_wait P dev d = ((\<lambda>d. snd (in_reg P dev 0x0C d)) ^^ 4) d"

text \<open>The two loops of \<^verbatim>\<open>ata_status_wait\<close>: with a bound and without.\<close>

fun status_wait_bounded :: "'d ports \<Rightarrow> ata_dev \<Rightarrow> nat \<Rightarrow> 'd \<Rightarrow> u8 \<times> 'd" where
  "status_wait_bounded P dev n d = (let (s, d) = in_reg P dev 0x07 d in
     if s AND 0x80 \<noteq> 0 then (case n of 0 \<Rightarrow> (s, d) | Suc n \<Rightarrow> status_wait_bounded P dev n d) else (s, d))"

partial_function (option) status_wait :: "'d ports \<Rightarrow> ata_dev \<Rightarrow> 'd \<Rightarrow> (u8 \<times> 'd) option" where
  "status_wait P dev d = (let (s, d) = in_reg P dev 0x07 d in if s AND 0x80 \<noteq> 0 then status_wait P dev d else Some (s, d))"

declare status_wait_bounded.simps [simp del]

definition ata_status_wait :: "'d ports \<Rightarrow> ata_dev \<Rightarrow> int \<Rightarrow> 'd \<Rightarrow> (u8 \<times> 'd) option" where
  "ata_status_wait P dev timeout d =
     (if timeout > 0 then Some (status_wait_bounded P dev (nat timeout) d) else status_wait P dev d)"

definition ata_wait :: "'d ports \<Rightarrow> ata_dev \<Rightarrow> bool \<Rightarrow> 'd \<Rightarrow> (bool \<times> 'd) option" where
  "ata_wait P dev advanced d = do {
     (status, d) \<leftarrow> ata_status_wait P dev (- 1) (ata_io_wait P dev d);
     if advanced then (let (status, d) = in_reg P dev 0x07 d in
       Some (status AND 0x01 \<noteq> 0 \<or> status AND 0x20 \<noteq> 0 \<or> status AND 0x08 = 0, d))
     else Some (False, d) }"

definition ata_soft_reset :: "'d ports \<Rightarrow> ata_dev \<Rightarrow> 'd \<Rightarrow> 'd" where
  "ata_soft_reset P dev d =
     port_out P (ucast (dev_control dev)) 0x00 (ata_io_wait P dev (port_out P (ucast (dev_control dev)) 0x04 d))"

section \<open>Sectors\<close>

text \<open>The registers that select one sector and the command for it; \<open>settle\<close> is the wait that only the write has.\<close>

definition ata_select :: "'d ports \<Rightarrow> ata_dev \<Rightarrow> u32 \<Rightarrow> 'd \<Rightarrow> 'd" where
  "ata_select P dev lba d =
     out_reg P dev 0x06 (ucast (0xE0 OR push_bit 4 (dev_slave dev) OR drop_bit 24 (lba AND 0x0F000000))) d"

definition ata_command :: "'d ports \<Rightarrow> ata_dev \<Rightarrow> u32 \<Rightarrow> u8 \<Rightarrow> 'd \<Rightarrow> 'd" where
  "ata_command P dev lba cmd d = (let
     d = out_reg P dev 0x01 0x00 d;
     d = out_reg P dev 0x02 1 d;
     d = out_reg P dev 0x03 (ucast (lba AND 0x000000FF)) d;
     d = out_reg P dev 0x04 (ucast (drop_bit 8 (lba AND 0x0000FF00))) d;
     d = out_reg P dev 0x05 (ucast (drop_bit 16 (lba AND 0x00FF0000))) d
     in out_reg P dev 0x07 cmd d)"

text \<open>\<open>tries\<close> counts the attempts that are left; after five errors the buffer stays as it was.\<close>

fun read_attempts :: "'d ports \<Rightarrow> ata_dev \<Rightarrow> u32 \<Rightarrow> nat \<Rightarrow> u8 list \<Rightarrow> nat \<Rightarrow> 'd \<Rightarrow> (u8 list \<times> 'd) option" where
  "read_attempts P dev lba 0 buff o' d = Some (buff, d)"
| "read_attempts P dev lba (Suc tries) buff o' d = do {
     (_, d) \<leftarrow> ata_wait P dev False (out_reg P dev 0x0C 0x02 d);
     let d = ata_command P dev lba 0x20 (ata_select P dev lba d);
     (err, d) \<leftarrow> ata_wait P dev True d;
     if err then read_attempts P dev lba tries buff o' d else do {
       let (bs, d) = port_ins P (ucast (io_base dev)) 256 d;
       buff \<leftarrow> copy_in o' bs buff;
       (_, d) \<leftarrow> ata_wait P dev False d;
       Some (buff, d) } }"

definition ata_device_read_sector :: "'d ports \<Rightarrow> ata_dev \<Rightarrow> u32 \<Rightarrow> u8 list \<Rightarrow> nat \<Rightarrow> 'd \<Rightarrow> (u8 list \<times> 'd) option" where
  "ata_device_read_sector P dev lba buff o' d = read_attempts P dev lba 5 buff o' d"

definition ata_device_write_sector :: "'d ports \<Rightarrow> ata_dev \<Rightarrow> u32 \<Rightarrow> u8 list \<Rightarrow> nat \<Rightarrow> 'd \<Rightarrow> 'd option" where
  "ata_device_write_sector P dev lba buff o' d = do {
     (_, d) \<leftarrow> ata_wait P dev False (out_reg P dev 0x0C 0x02 d);
     (_, d) \<leftarrow> ata_wait P dev False (ata_select P dev lba d);
     (_, d) \<leftarrow> ata_wait P dev False (ata_command P dev lba 0x30 d);
     bs \<leftarrow> copy_out o' 512 buff;
     let d = out_reg P dev 0x07 0xE7 (port_outs P (ucast (io_base dev)) bs d);
     (_, d) \<leftarrow> ata_wait P dev False d;
     Some d }"

text \<open>Only the first four bytes are compared.\<close>

definition buffer_compare :: "u8 list \<Rightarrow> nat \<Rightarrow> u8 list \<Rightarrow> bool option" where
  "buffer_compare buff o' other = do { x \<leftarrow> rd32 buff o'; y \<leftarrow> rd32 other 0; Some (x \<noteq> y) }"

partial_function (option) ata_device_write_retry ::
    "'d ports \<Rightarrow> ata_dev \<Rightarrow> u32 \<Rightarrow> u8 list \<Rightarrow> u8 list \<Rightarrow> nat \<Rightarrow> 'd \<Rightarrow> 'd option" where
  "ata_device_write_retry P dev lba read_buff buff o' d = do {
     d \<leftarrow> ata_device_write_sector P dev lba buff o' d;
     (read_buff, d) \<leftarrow> ata_device_read_sector P dev lba read_buff 0 d;
     differ \<leftarrow> buffer_compare buff o' read_buff;
     if differ then ata_device_write_retry P dev lba read_buff buff o' d else Some d }"

section \<open>Requests\<close>

definition ata_max_offset :: "ata_dev \<Rightarrow> 64 word" where
  "ata_max_offset dev = (if sectors_48 dev = 0 then ucast (sectors_28 dev) else sectors_48 dev) * 512"

text \<open>The size after a request behind the end of the disk has been cut; the last sector is computed before that.\<close>

definition ata_clip :: "ata_dev \<Rightarrow> u32 \<Rightarrow> u32 \<Rightarrow> u32" where
  "ata_clip dev offset sz = (if ucast (offset + sz) > ata_max_offset dev then ucast (ata_max_offset dev - ucast offset) else sz)"

partial_function (option) read_sectors :: "'d ports \<Rightarrow> ata_dev \<Rightarrow> u32 \<Rightarrow> u32 \<Rightarrow> u32 \<Rightarrow> u8 list \<Rightarrow> 'd \<Rightarrow> (u8 list \<times> 'd) option" where
  "read_sectors P dev start_block end_block x_offset buffer d = (if start_block \<le> end_block then do {
       (buffer, d) \<leftarrow> ata_device_read_sector P dev start_block buffer (unat x_offset) d;
       read_sectors P dev (start_block + 1) end_block (x_offset + 512) buffer d }
     else Some (buffer, d))"

text \<open>The sector the request begins in and the one it ends in; \<open>tmp\<close> is the uninitialised sector the handler allocates.\<close>

definition read_first :: "'d ports \<Rightarrow> u8 list \<Rightarrow> ata_dev \<Rightarrow> u32 \<Rightarrow> u8 list \<Rightarrow> 'd \<Rightarrow> (u32 \<times> u32 \<times> u8 list \<times> 'd) option" where
  "read_first P tmp dev offset buffer d = (if offset mod 512 \<noteq> 0 then do {
       let prefix_size = 512 - offset mod 512;
       (t, d) \<leftarrow> ata_device_read_sector P dev (offset div 512) tmp 0 d;
       bs \<leftarrow> copy_out (unat (offset mod 512)) (unat prefix_size) t;
       buffer \<leftarrow> copy_in 0 bs buffer;
       Some (offset div 512 + 1, prefix_size, buffer, d) }
     else Some (offset div 512, 0, buffer, d))"

definition read_last :: "'d ports \<Rightarrow> u8 list \<Rightarrow> ata_dev \<Rightarrow> u32 \<Rightarrow> u32 \<Rightarrow> u32 \<Rightarrow> u32 \<Rightarrow> u8 list \<Rightarrow> 'd \<Rightarrow> (u32 \<times> u8 list \<times> 'd) option" where
  "read_last P tmp dev offset sz start_block end_block buffer d =
     (if (offset + sz) mod 512 \<noteq> 0 \<and> start_block < end_block then do {
       let postfix_size = (offset + sz) mod 512;
       (t, d) \<leftarrow> ata_device_read_sector P dev end_block tmp 0 d;
       bs \<leftarrow> copy_out 0 (unat postfix_size) t;
       buffer \<leftarrow> copy_in (unat (sz - postfix_size)) bs buffer;
       Some (end_block - 1, buffer, d) }
     else Some (end_block, buffer, d))"

definition read_ata :: "'d ports \<Rightarrow> u8 list \<Rightarrow> ata_dev \<Rightarrow> u32 \<Rightarrow> u32 \<Rightarrow> u8 list \<Rightarrow> 'd \<Rightarrow> (u32 \<times> u8 list \<times> 'd) option" where
  "read_ata P tmp dev offset sz buffer d = (let end_block = (offset + sz - 1) div 512 in
     if ucast offset > ata_max_offset dev then Some (0, buffer, d)
     else let sz = ata_clip dev offset sz in do {
       (start_block, x_offset, buffer, d) \<leftarrow> read_first P tmp dev offset buffer d;
       (end_block, buffer, d) \<leftarrow> read_last P tmp dev offset sz start_block end_block buffer d;
       (buffer, d) \<leftarrow> read_sectors P dev start_block end_block x_offset buffer d;
       Some (sz, buffer, d) })"

partial_function (option) write_sectors ::
    "'d ports \<Rightarrow> u8 list \<Rightarrow> ata_dev \<Rightarrow> u32 \<Rightarrow> u32 \<Rightarrow> u32 \<Rightarrow> u8 list \<Rightarrow> 'd \<Rightarrow> 'd option" where
  "write_sectors P tmp dev start_block end_block x_offset buffer d = (if start_block \<le> end_block then do {
       d \<leftarrow> ata_device_write_retry P dev start_block tmp buffer (unat x_offset) d;
       write_sectors P tmp dev (start_block + 1) end_block (x_offset + 512) buffer d }
     else Some d)"

definition write_first :: "'d ports \<Rightarrow> u8 list \<Rightarrow> ata_dev \<Rightarrow> u32 \<Rightarrow> u8 list \<Rightarrow> 'd \<Rightarrow> (u32 \<times> u32 \<times> 'd) option" where
  "write_first P tmp dev offset buffer d = (if offset mod 512 \<noteq> 0 then do {
       let prefix_size = 512 - offset mod 512;
       (t, d) \<leftarrow> ata_device_read_sector P dev (offset div 512) tmp 0 d;
       bs \<leftarrow> copy_out 0 (unat prefix_size) buffer;
       t \<leftarrow> copy_in (unat (offset mod 512)) bs t;
       d \<leftarrow> ata_device_write_retry P dev (offset div 512) tmp t 0 d;
       Some (offset div 512 + 1, prefix_size, d) }
     else Some (offset div 512, 0, d))"

definition write_last :: "'d ports \<Rightarrow> u8 list \<Rightarrow> ata_dev \<Rightarrow> u32 \<Rightarrow> u32 \<Rightarrow> u32 \<Rightarrow> u32 \<Rightarrow> u8 list \<Rightarrow> 'd \<Rightarrow> (u32 \<times> 'd) option" where
  "write_last P tmp dev offset sz start_block end_block buffer d =
     (if (offset + sz) mod 512 \<noteq> 0 \<and> start_block < end_block then do {
       let postfix_size = (offset + sz) mod 512;
       (t, d) \<leftarrow> ata_device_read_sector P dev end_block tmp 0 d;
       bs \<leftarrow> copy_out (unat (sz - postfix_size)) (unat postfix_size) buffer;
       t \<leftarrow> copy_in 0 bs t;
       d \<leftarrow> ata_device_write_retry P dev end_block tmp t 0 d;
       Some (end_block - 1, d) }
     else Some (end_block, d))"

definition write_ata :: "'d ports \<Rightarrow> u8 list \<Rightarrow> ata_dev \<Rightarrow> u32 \<Rightarrow> u32 \<Rightarrow> u8 list \<Rightarrow> 'd \<Rightarrow> (u32 \<times> 'd) option" where
  "write_ata P tmp dev offset sz buffer d = (let end_block = (offset + sz - 1) div 512 in
     if ucast offset > ata_max_offset dev then Some (0, d)
     else let sz = ata_clip dev offset sz in do {
       (start_block, x_offset, d) \<leftarrow> write_first P tmp dev offset buffer d;
       (end_block, d) \<leftarrow> write_last P tmp dev offset sz start_block end_block buffer d;
       d \<leftarrow> write_sectors P tmp dev start_block end_block x_offset buffer d;
       Some (sz, d) })"

end
