(* ===== verification/Ata_Device.thy ===== *)
theory Ata_Device
  imports Ata
begin

text \<open>
  What the driver relies on of the controller, and the commands of the driver on a controller that keeps to it.  The state
  of a controller has a \<open>view\<close>: the registers of the command block, what the last command asked for, and the sectors of the
  two drives.  It may be busy for any finite number of status reads.
\<close>

section \<open>The contract of the controller\<close>

datatype ide_phase = Idle | Sending | Receiving

record ide =
  ide_regs :: "nat \<Rightarrow> u8"
  ide_phase :: ide_phase
  ide_sectors :: "bool \<Rightarrow> u32 \<Rightarrow> u8 list"

definition ide_lba :: "ide \<Rightarrow> u32" where
  "ide_lba I = ucast (ide_regs I 3) OR push_bit 8 (ucast (ide_regs I 4)) OR push_bit 16 (ucast (ide_regs I 5))
     OR push_bit 24 (ucast (ide_regs I 6 AND 0x0F))"

definition ide_drive :: "ide \<Rightarrow> bool" where
  "ide_drive I = bit (ide_regs I 6) 4"

definition ide_out :: "nat \<Rightarrow> u8 \<Rightarrow> ide \<Rightarrow> ide" where
  "ide_out r v I = (if 2 \<le> r \<and> r \<le> 6 then I\<lparr>ide_regs := (ide_regs I)(r := v)\<rparr>
     else if r = 7 then I\<lparr>ide_phase := (if v = 0x20 \<and> ide_regs I 2 = 1 then Sending
       else if v = 0x30 \<and> ide_regs I 2 = 1 then Receiving else Idle)\<rparr>
     else I)"

definition ide_sector :: "ide \<Rightarrow> u8 list" where
  "ide_sector I = ide_sectors I (ide_drive I) (ide_lba I)"

definition ide_receive :: "u8 list \<Rightarrow> ide \<Rightarrow> ide" where
  "ide_receive bs I = I\<lparr>ide_phase := Idle, ide_sectors := (\<lambda>s l. if s = ide_drive I \<and> l = ide_lba I then bs else ide_sectors I s l)\<rparr>"

text \<open>
  While \<open>delay d\<close> is not 0 the controller says busy, and every read of the status takes it down.  When the controller is not busy it reports no error, and data
  when a read has been asked for.
\<close>

definition ide_contract :: "'d ports \<Rightarrow> u16 \<Rightarrow> ('d \<Rightarrow> ide) \<Rightarrow> ('d \<Rightarrow> nat) \<Rightarrow> bool" where
  "ide_contract P base view delay \<longleftrightarrow>
     (\<forall>d r v. r \<le> 12 \<longrightarrow> view (port_out P (base + of_nat r) v d) = ide_out r v (view d))
   \<and> (\<forall>d r. r \<le> 12 \<longrightarrow> view (snd (port_in P (base + of_nat r) d)) = view d)
   \<and> (\<forall>d. delay (snd (port_in P (base + 12) d)) \<le> delay d)
   \<and> (\<forall>d. if delay d = 0
        then (fst (port_in P (base + 7) d) AND 0x80 = 0 \<and> fst (port_in P (base + 7) d) AND 0x20 = 0 \<and> fst (port_in P (base + 7) d) AND 0x01 = 0)
          \<and> delay (snd (port_in P (base + 7) d)) = 0
          \<and> (ide_phase (view d) = Sending \<longrightarrow> fst (port_in P (base + 7) d) AND 0x08 \<noteq> 0)
        else fst (port_in P (base + 7) d) AND 0x80 \<noteq> 0 \<and> delay (snd (port_in P (base + 7) d)) < delay d)
   \<and> (\<forall>d. ide_phase (view d) = Sending \<longrightarrow> fst (port_ins P base 256 d) = ide_sector (view d)
        \<and> view (snd (port_ins P base 256 d)) = (view d)\<lparr>ide_phase := Idle\<rparr>)
   \<and> (\<forall>d bs. ide_phase (view d) = Receiving \<longrightarrow> length bs = 512 \<longrightarrow> view (port_outs P base bs d) = ide_receive bs (view d))
   \<and> (\<forall>d s l. length (ide_sectors (view d) s l) = 512)"

section \<open>The commands\<close>

text \<open>The sectors of the drive the driver talks to.\<close>

definition drive_of :: "ata_dev \<Rightarrow> bool" where
  "drive_of dev = (dev_slave dev = 1)"

definition ata_dev_ok :: "ata_dev \<Rightarrow> bool" where
  "ata_dev_ok dev \<longleftrightarrow> (dev_slave dev = 0 \<or> dev_slave dev = 1)"

lemma contract:
  assumes "ide_contract P base view delay"
  shows contract_out: "r \<le> 12 \<Longrightarrow> view (port_out P (base + of_nat r) v d) = ide_out r v (view d)"
    and contract_in: "r \<le> 12 \<Longrightarrow> view (snd (port_in P (base + of_nat r) d)) = view d"
    and contract_alt: "delay (snd (port_in P (base + 12) d)) \<le> delay d"
    and contract_ready: "delay d = 0 \<Longrightarrow> fst (port_in P (base + 7) d) AND 0x80 = 0"
      "delay d = 0 \<Longrightarrow> fst (port_in P (base + 7) d) AND 0x20 = 0"
      "delay d = 0 \<Longrightarrow> fst (port_in P (base + 7) d) AND 0x01 = 0"
      "delay d = 0 \<Longrightarrow> delay (snd (port_in P (base + 7) d)) = 0"
      "delay d = 0 \<Longrightarrow> ide_phase (view d) = Sending \<Longrightarrow> fst (port_in P (base + 7) d) AND 0x08 \<noteq> 0"
    and contract_busy: "delay d \<noteq> 0 \<Longrightarrow> fst (port_in P (base + 7) d) AND 0x80 \<noteq> 0"
      "delay d \<noteq> 0 \<Longrightarrow> delay (snd (port_in P (base + 7) d)) < delay d"
    and contract_ins: "ide_phase (view d) = Sending \<Longrightarrow> fst (port_ins P base 256 d) = ide_sector (view d)"
      "ide_phase (view d) = Sending \<Longrightarrow> view (snd (port_ins P base 256 d)) = (view d)\<lparr>ide_phase := Idle\<rparr>"
    and contract_outs: "ide_phase (view d) = Receiving \<Longrightarrow> length bs = 512 \<Longrightarrow> view (port_outs P base bs d) = ide_receive bs (view d)"
    and contract_length: "length (ide_sectors (view d) s l) = 512"
  using assms unfolding ide_contract_def by (blast | (simp; fail))+

lemma reg_address: "ucast (b + of_nat r :: u32) = (ucast b + of_nat r :: u16)"
  by (simp add: word_unat_eq_iff unat_word_ariths unsigned_ucast_eq take_bit_eq_mod mod_simps unat_of_nat mod_mod_cancel)

lemma out_view:
  assumes "ide_contract P (ucast (io_base dev)) view delay" and "r \<le> 12"
  shows "view (out_reg P dev (of_nat r) v d) = ide_out r v (view d)"
  using contract_out [OF assms] by (simp add: out_reg_def reg_address)

lemma in_view:
  assumes "ide_contract P (ucast (io_base dev)) view delay" and "r \<le> 12"
  shows "view (snd (in_reg P dev (of_nat r) d)) = view d"
  using contract_in [OF assms] by (simp add: in_reg_def reg_address)

lemma in_reg_7: "in_reg P dev 7 = port_in P (ucast (io_base dev) + 7)"
  using reg_address [of "io_base dev" 7] by (simp add: in_reg_def fun_eq_iff)

lemma in_reg_12: "in_reg P dev 12 = port_in P (ucast (io_base dev) + 12)"
  using reg_address [of "io_base dev" 12] by (simp add: in_reg_def fun_eq_iff)

lemma io_wait_view:
  assumes "ide_contract P (ucast (io_base dev)) view delay"
  shows "view (ata_io_wait P dev d) = view d"
proof -
  have "view (((\<lambda>d. snd (in_reg P dev 0x0C d)) ^^ n) d) = view d" for n
    using in_view [OF assms, of 12] by (induction n) simp_all
  then show ?thesis by (simp add: ata_io_wait_def)
qed

lemma status_wait_law:
  assumes "ide_contract P (ucast (io_base dev)) view delay"
  shows "\<exists>s d'. status_wait P dev d = Some (s, d') \<and> view d' = view d \<and> delay d' = 0"
proof (induction "delay d" arbitrary: d rule: less_induct)
  case less
  obtain s d1 where r: "port_in P (ucast (io_base dev) + 7) d = (s, d1)" by (cases "port_in P (ucast (io_base dev) + 7) d")
  have v: "view d1 = view d" using in_view [OF assms, of 7 d] r by (simp add: in_reg_7)
  show ?case
  proof (cases "delay d = 0")
    case True
    have "s AND 0x80 = 0" "delay d1 = 0" using contract_ready(1,4) [OF assms True] unfolding r by simp_all
    then show ?thesis using v r by (subst status_wait.simps) (simp add: in_reg_7)
  next
    case False
    have "s AND 0x80 \<noteq> 0" "delay d1 < delay d" using contract_busy [OF assms False] unfolding r by simp_all
    with less [OF this(2)] v r show ?thesis by (subst status_wait.simps) (simp add: in_reg_7)
  qed
qed

lemma ata_wait_law:
  assumes "ide_contract P (ucast (io_base dev)) view delay"
  shows "\<exists>d'. ata_wait P dev False d = Some (False, d') \<and> view d' = view d"
    and "ide_phase (view d) = Sending \<Longrightarrow> \<exists>d'. ata_wait P dev True d = Some (False, d') \<and> view d' = view d"
proof -
  obtain s d1 where w: "status_wait P dev (ata_io_wait P dev d) = Some (s, d1)" "view d1 = view d" "delay d1 = 0"
    using status_wait_law [OF assms, of "ata_io_wait P dev d"] io_wait_view [OF assms] by auto
  then show "\<exists>d'. ata_wait P dev False d = Some (False, d') \<and> view d' = view d"
    by (simp add: ata_wait_def ata_status_wait_def)
  assume "ide_phase (view d) = Sending"
  then have p: "ide_phase (view d1) = Sending" using w by simp
  obtain t d2 where r: "port_in P (ucast (io_base dev) + 7) d1 = (t, d2)" by (cases "port_in P (ucast (io_base dev) + 7) d1")
  have "view d2 = view d" using in_view [OF assms, of 7 d1] r w by (simp add: in_reg_7)
  then show "\<exists>d'. ata_wait P dev True d = Some (False, d') \<and> view d' = view d"
    using w contract_ready(2,3) [OF assms w(3)] contract_ready(5) [OF assms w(3) p] r
    by (simp add: ata_wait_def ata_status_wait_def in_reg_7)
qed

section \<open>The registers\<close>

text \<open>Once the registers are set, the controller means the sector the driver means.\<close>

definition aimed :: "ata_dev \<Rightarrow> u32 \<Rightarrow> ide \<Rightarrow> bool" where
  "aimed dev lba I \<longleftrightarrow> ide_lba I = lba \<and> ide_drive I = drive_of dev"

lemma lba_bytes:
  fixes lba s :: u32
  assumes "unat lba < 2 ^ 28" and "s = 0 \<or> s = 1"
  shows "(ucast (ucast (lba AND 0xFF) :: u8) :: u32) OR push_bit 8 (ucast (ucast (drop_bit 8 (lba AND 0xFF00)) :: u8))
    OR push_bit 16 (ucast (ucast (drop_bit 16 (lba AND 0xFF0000)) :: u8))
    OR push_bit 24 (ucast ((ucast (0xE0 OR push_bit 4 s OR drop_bit 24 (lba AND 0x0F000000)) :: u8) AND 0x0F)) = lba" (is "?l = lba")
proof (rule bit_word_eqI)
  fix n assume n: "n < LENGTH(32)"
  have hi: "\<not> bit lba n" if "28 \<le> n"
  proof -
    have "unat lba < 2 ^ n" using assms(1) power_increasing [OF that, of "2 :: nat"] by linarith
    then have "\<not> bit (unat lba) n" by (simp add: bit_iff_odd)
    then show ?thesis using n by (simp add: bit_unsigned_iff)
  qed
  have m: "(0xFF :: u32) = mask 8" "(0xFF00 :: u32) = push_bit 8 (mask 8)" "(0xFF0000 :: u32) = push_bit 16 (mask 8)"
    "(0x0F000000 :: u32) = push_bit 24 (mask 4)" "(0x0F :: u8) = mask 4" "(0xE0 :: u32) = push_bit 5 (mask 3)"
    by (simp_all add: mask_eq_exp_minus_1)
  consider "n < 8" | "8 \<le> n" "n < 16" | "16 \<le> n" "n < 24" | "24 \<le> n" "n < 28" | "28 \<le> n" by linarith
  then show "bit ?l n = bit lba n"
    using n hi assms(2) unfolding m by cases (auto simp: bit_simps)
qed

lemma drive_bit: "s = 0 \<or> s = 1 \<Longrightarrow> bit (ucast (0xE0 OR push_bit 4 (s :: u32) OR drop_bit 24 (lba AND 0x0F000000)) :: u8) 4 \<longleftrightarrow> s = 1"
  by (auto simp: bit_simps)

lemma select_view:
  assumes "ide_contract P (ucast (io_base dev)) view delay"
  shows "view (ata_select P dev lba d) =
    ide_out 6 (ucast (0xE0 OR push_bit 4 (dev_slave dev) OR drop_bit 24 (lba AND 0x0F000000))) (view d)"
  using out_view [OF assms, of 6] by (simp add: ata_select_def)

lemma command_view:
  assumes "ide_contract P (ucast (io_base dev)) view delay"
  shows "view (ata_command P dev lba cmd d) = ide_out 7 cmd (ide_out 5 (ucast (drop_bit 16 (lba AND 0xFF0000)))
    (ide_out 4 (ucast (drop_bit 8 (lba AND 0xFF00))) (ide_out 3 (ucast (lba AND 0xFF)) (ide_out 2 1 (view d)))))"
  using out_view [OF assms, of 1] out_view [OF assms, of 2] out_view [OF assms, of 3] out_view [OF assms, of 4]
    out_view [OF assms, of 5] out_view [OF assms, of 7]
  by (simp add: ata_command_def Let_def ide_out_def [of "Suc 0"])

lemma control_view:
  assumes "ide_contract P (ucast (io_base dev)) view delay"
  shows "view (out_reg P dev 12 v d) = view d"
  using out_view [OF assms, of 12 v d] by (simp add: ide_out_def)

lemma commanded:
  assumes "ide_contract P (ucast (io_base dev)) view delay" and "unat lba < 2 ^ 28" and "ata_dev_ok dev"
    and "view d1 = view (ata_select P dev lba d)"
  shows "aimed dev lba (view (ata_command P dev lba cmd d1))"
    and "ide_sectors (view (ata_command P dev lba cmd d1)) = ide_sectors (view d)"
    and "ide_phase (view (ata_command P dev lba cmd d1)) = (if cmd = 0x20 then Sending else if cmd = 0x30 then Receiving else Idle)"
proof -
  have s: "dev_slave dev = 0 \<or> dev_slave dev = 1" using assms(3) by (simp add: ata_dev_ok_def)
  show "aimed dev lba (view (ata_command P dev lba cmd d1))"
    unfolding command_view [OF assms(1)] assms(4) select_view [OF assms(1)]
    using lba_bytes [OF assms(2) s] drive_bit [OF s, of lba]
    by (simp add: aimed_def ide_lba_def ide_drive_def drive_of_def ide_out_def)
qed (simp_all add: command_view [OF assms(1)] assms(4) select_view [OF assms(1)] ide_out_def)

section \<open>One sector\<close>

abbreviation sector :: "('d \<Rightarrow> ide) \<Rightarrow> ata_dev \<Rightarrow> 'd \<Rightarrow> u32 \<Rightarrow> u8 list" where
  "sector view dev d l \<equiv> ide_sectors (view d) (drive_of dev) l"

lemma read_sector_law:
  assumes "ide_contract P (ucast (io_base dev)) view delay" and "unat lba < 2 ^ 28" and "ata_dev_ok dev"
  shows "\<exists>d'. ide_sectors (view d') = ide_sectors (view d) \<and>
    ata_device_read_sector P dev lba buff o' d = (case copy_in o' (sector view dev d lba) buff of None \<Rightarrow> None | Some b \<Rightarrow> Some (b, d'))"
proof -
  note c = assms(1)
  obtain d1 where d1: "ata_wait P dev False (out_reg P dev 12 2 d) = Some (False, d1)" "view d1 = view d"
    using ata_wait_law(1) [OF c] control_view [OF c] by metis
  let ?d2 = "ata_command P dev lba 0x20 (ata_select P dev lba d1)"
  note k = commanded [OF assms refl, where d = d1 and cmd = "0x20"]
  obtain d3 where d3: "ata_wait P dev True ?d2 = Some (False, d3)" "view d3 = view ?d2"
    using ata_wait_law(2) [OF c, of ?d2] k(3) by auto
  obtain bs d4 where i: "port_ins P (ucast (io_base dev)) 256 d3 = (bs, d4)" by fastforce
  have "ide_phase (view d3) = Sending" using d3 k(3) by simp
  then have bs: "bs = sector view dev d lba" and v4: "ide_sectors (view d4) = ide_sectors (view d)"
    using contract_ins [OF c, of d3] i k(1,2) d1 d3 by (simp_all add: ide_sector_def aimed_def)
  obtain d5 where d5: "ata_wait P dev False d4 = Some (False, d5)" "view d5 = view d4"
    using ata_wait_law(1) [OF c] by metis
  show ?thesis
    using d1 d3 i d5 v4 bs
    by (intro exI [of _ d5]) (simp add: ata_device_read_sector_def numeral_eq_Suc Let_def split: option.split)
qed

lemma write_sector_law:
  assumes "ide_contract P (ucast (io_base dev)) view delay" and "unat lba < 2 ^ 28" and "ata_dev_ok dev"
  shows "o' + 512 \<le> length buff \<Longrightarrow> \<exists>d'. ata_device_write_sector P dev lba buff o' d = Some d' \<and>
      ide_sectors (view d') = (\<lambda>s l. if s = drive_of dev \<and> l = lba then take 512 (drop o' buff) else ide_sectors (view d) s l)"
    and "length buff < o' + 512 \<Longrightarrow> ata_device_write_sector P dev lba buff o' d = None"
proof -
  note c = assms(1)
  obtain d1 where d1: "ata_wait P dev False (out_reg P dev 12 2 d) = Some (False, d1)" "view d1 = view d"
    using ata_wait_law(1) [OF c] control_view [OF c] by metis
  obtain d2 where d2: "ata_wait P dev False (ata_select P dev lba d1) = Some (False, d2)" "view d2 = view (ata_select P dev lba d1)"
    using ata_wait_law(1) [OF c] by metis
  let ?d2 = "ata_command P dev lba 0x30 d2"
  note k = commanded [OF assms d2(2), where cmd = "0x30"]
  obtain d3 where d3: "ata_wait P dev False ?d2 = Some (False, d3)" "view d3 = view ?d2"
    using ata_wait_law(1) [OF c] by metis
  show "ata_device_write_sector P dev lba buff o' d = None" if "length buff < o' + 512"
    using that d1 d2 d3 by (simp add: ata_device_write_sector_def copy_out_def Let_def)
  assume fits: "o' + 512 \<le> length buff"
  let ?bs = "take 512 (drop o' buff)"
  let ?d4 = "port_outs P (ucast (io_base dev)) ?bs d3"
  have v4: "view ?d4 = ide_receive ?bs (view d3)"
    using contract_outs [OF c, of d3 ?bs] k(3) d3 fits by simp
  obtain d5 where d5: "ata_wait P dev False (out_reg P dev 7 0xE7 ?d4) = Some (False, d5)" "view d5 = view (out_reg P dev 7 0xE7 ?d4)"
    using ata_wait_law(1) [OF c] by metis
  have "ide_sectors (view d5) = (\<lambda>s l. if s = drive_of dev \<and> l = lba then ?bs else ide_sectors (view d) s l)"
    using d5 v4 out_view [OF c, of 7] k(1,2) d1 d2 d3 by (simp add: ide_out_def ide_receive_def aimed_def fun_eq_iff)
  then show "\<exists>d'. ata_device_write_sector P dev lba buff o' d = Some d' \<and>
      ide_sectors (view d') = (\<lambda>s l. if s = drive_of dev \<and> l = lba then ?bs else ide_sectors (view d) s l)"
    using fits d1 d2 d3 d5 by (intro exI [of _ d5]) (simp add: ata_device_write_sector_def copy_out_def Let_def)
qed

lemma write_retry_law:
  assumes "ide_contract P (ucast (io_base dev)) view delay" and "unat lba < 2 ^ 28" and "ata_dev_ok dev" and "length junk = 512"
  shows "o' + 512 \<le> length buff \<Longrightarrow> \<exists>d'. ata_device_write_retry P dev lba junk buff o' d = Some d' \<and>
      ide_sectors (view d') = (\<lambda>s l. if s = drive_of dev \<and> l = lba then take 512 (drop o' buff) else ide_sectors (view d) s l)"
    and "length buff < o' + 512 \<Longrightarrow> ata_device_write_retry P dev lba junk buff o' d = None"
proof -
  show "ata_device_write_retry P dev lba junk buff o' d = None" if "length buff < o' + 512"
    using write_sector_law(2) [OF assms(1-3) that] by (subst ata_device_write_retry.simps) simp
  assume fits: "o' + 512 \<le> length buff"
  let ?bs = "take 512 (drop o' buff)"
  obtain d1 where d1: "ata_device_write_sector P dev lba buff o' d = Some d1"
    "ide_sectors (view d1) = (\<lambda>s l. if s = drive_of dev \<and> l = lba then ?bs else ide_sectors (view d) s l)"
    using write_sector_law(1) [OF assms(1-3) fits] by blast
  obtain d2 where d2: "ide_sectors (view d2) = ide_sectors (view d1)" "ata_device_read_sector P dev lba junk 0 d1 = Some (?bs, d2)"
    using read_sector_law [OF assms(1-3), where d = d1 and o' = 0 and buff = junk] d1(2) fits assms(4) by (auto simp: copy_in_def)
  have "get32 ?bs 0 = get32 buff o'" using fits by (simp add: get32_def)
  then have "buffer_compare buff o' ?bs = Some False" using fits by (simp add: buffer_compare_def rd32_def)
  then show "\<exists>d'. ata_device_write_retry P dev lba junk buff o' d = Some d' \<and>
      ide_sectors (view d') = (\<lambda>s l. if s = drive_of dev \<and> l = lba then ?bs else ide_sectors (view d) s l)"
    using d1 d2 by (intro exI [of _ d2]) (subst ata_device_write_retry.simps, simp)
qed

end
