(* ===== verification/Ata_Laws.thy ===== *)
theory Ata_Laws
  imports Ata_Device
begin

text \<open>
  The read and write handlers of the disk on a controller that keeps to its contract: which requests move exactly the bytes
  they ask for, and which leave the caller's buffer.
\<close>

section \<open>Bytes of the disk\<close>

definition disk_byte :: "(u32 \<Rightarrow> u8 list) \<Rightarrow> nat \<Rightarrow> u8" where
  "disk_byte D a = D (of_nat (a div 512)) ! (a mod 512)"

definition disk_bytes :: "(u32 \<Rightarrow> u8 list) \<Rightarrow> nat \<Rightarrow> nat \<Rightarrow> u8 list" where
  "disk_bytes D a n = map (\<lambda>i. disk_byte D (a + i)) [0..<n]"

definition patched :: "(u32 \<Rightarrow> u8 list) \<Rightarrow> nat \<Rightarrow> u8 list \<Rightarrow> u32 \<Rightarrow> u8 list" where
  "patched D a bs l = map (\<lambda>j. if a \<le> 512 * unat l + j \<and> 512 * unat l + j < a + length bs
     then bs ! (512 * unat l + j - a) else D l ! j) [0..<512]"

text \<open>A request keeps to the buffer when it ends with a sector, or in a sector behind the first one that it covers from the start.\<close>

definition keeps_to_buffer :: "nat \<Rightarrow> nat \<Rightarrow> bool" where
  "keeps_to_buffer a n \<longleftrightarrow> (a + n) mod 512 = 0 \<or> (a + 511) div 512 < (a + n - 1) div 512"

lemma length_disk_bytes [simp]: "length (disk_bytes D a n) = n"
  by (simp add: disk_bytes_def)

lemma nth_disk_bytes: "i < n \<Longrightarrow> disk_bytes D a n ! i = disk_byte D (a + i)"
  by (simp add: disk_bytes_def)

lemma sector_byte:
  assumes "512 * unat l = a + x" and "j < 512"
  shows "disk_byte D (a + (x + j)) = D l ! j"
proof -
  have "(a + (x + j)) div 512 = unat l" "(a + (x + j)) mod 512 = j"
    unfolding add.assoc [symmetric] assms(1) [symmetric] using assms(2) by simp_all
  then show ?thesis by (simp add: disk_byte_def)
qed

section \<open>Reading\<close>

definition filled :: "u8 list \<Rightarrow> nat \<Rightarrow> nat \<Rightarrow> u8 list \<Rightarrow> bool" where
  "filled w lo hi b \<longleftrightarrow> length b = length w \<and> (\<forall>i<length w. i < lo \<or> hi \<le> i \<longrightarrow> b ! i = w ! i)"

lemma filled_all: "filled w x x b \<Longrightarrow> b = w"
  by (auto simp: filled_def intro!: nth_equalityI) 

lemma filled_copy_low:
  assumes "filled w lo hi b" and "lo + length s \<le> length w" and "\<And>j. j < length s \<Longrightarrow> s ! j = w ! (lo + j)"
  shows "\<exists>b'. copy_in lo s b = Some b' \<and> filled w (lo + length s) hi b'"
  using assms by (auto simp: filled_def copy_in_def nth_append not_less)

lemma filled_copy_high:
  assumes "filled w lo (length w) b" and "length s \<le> length w" and "\<And>j. j < length s \<Longrightarrow> s ! j = w ! (length w - length s + j)"
  shows "\<exists>b'. copy_in (length w - length s) s b = Some b' \<and> filled w lo (length w - length s) b'"
  using assms by (auto simp: filled_def copy_in_def nth_append not_less)

text \<open>The loop over whole sectors, with \<open>k\<close> sectors from byte \<open>x\<close> of the buffer on.\<close>

lemma read_sectors_law:
  assumes "ide_contract P (ucast (io_base dev)) view delay" and "ata_dev_ok dev" and "unat e < 2 ^ 28"
    and "unat s + k = unat e + 1" and "512 * unat s = a + unat x" and "unat x + 512 * k \<le> length w" and "length w < 2 ^ 32"
    and "filled w (unat x) (unat x + 512 * k) b" and "w = disk_bytes (sector view dev d) a (length w)"
  shows "\<exists>d'. read_sectors P dev s e x b d = Some (w, d') \<and> ide_sectors (view d') = ide_sectors (view d)"
  using assms(3-)
proof (induction k arbitrary: s x b d)
  case 0
  then have "\<not> s \<le> e" "b = w" using filled_all by (simp_all add: word_le_nat_alt)
  then show ?case by (subst read_sectors.simps) simp
next
  case (Suc k)
  then have le: "s \<le> e" and lba: "unat s < 2 ^ 28" by (simp_all add: word_le_nat_alt)
  let ?S = "sector view dev d s"
  have S: "length ?S = 512" using contract_length [OF assms(1)] .
  have same: "?S ! j = w ! (unat x + j)" if "j < 512" for j
  proof -
    have "unat x + j < length w" using that Suc.prems(4) by simp
    then have "w ! (unat x + j) = disk_byte (sector view dev d) (a + (unat x + j))"
      using nth_disk_bytes Suc.prems(7) by metis
    then show ?thesis using sector_byte [OF Suc.prems(3) that] by simp
  qed
  obtain b' where b': "copy_in (unat x) ?S b = Some b'" "filled w (unat x + 512) (unat x + 512 * Suc k) b'"
    using filled_copy_low [OF Suc.prems(6), of ?S] S same Suc.prems(4) by auto
  obtain d1 where d1: "ide_sectors (view d1) = ide_sectors (view d)" "ata_device_read_sector P dev s b (unat x) d = Some (b', d1)"
    using read_sector_law [OF assms(1) lba assms(2), where d = d and o' = "unat x" and buff = b] b' by auto
  have s1: "unat (s + 1) = unat s + 1" using Suc.prems(1,2) by (simp add: unat_word_ariths)
  have "\<exists>d'. read_sectors P dev (s + 1) e (x + 512) b' d1 = Some (w, d') \<and> ide_sectors (view d') = ide_sectors (view d1)"
  proof (cases k)
    case 0
    then have "\<not> s + 1 \<le> e" "b' = w" using s1 Suc.prems(2) b'(2) filled_all [of w "unat x + 512" b'] by (simp_all add: word_le_nat_alt)
    then show ?thesis by (subst read_sectors.simps) simp
  next
    case (Suc k')
    then have x1: "unat (x + 512) = unat x + 512" using Suc.prems(4,5) by (simp add: unat_word_ariths)
    show ?thesis
      by (rule Suc.IH) (use Suc.prems s1 x1 b'(2) d1(1) in \<open>simp_all add: algebra_simps\<close>)
  qed
  then show ?case using le d1 by (subst read_sectors.simps) auto
qed

lemma read_sectors_overflow:
  assumes "ide_contract P (ucast (io_base dev)) view delay" and "ata_dev_ok dev" and "unat s < 2 ^ 28" and "s \<le> e"
    and "length b < unat x + 512"
  shows "read_sectors P dev s e x b d = None"
proof -
  have "copy_in (unat x) (sector view dev d s) b = None"
    using contract_length [OF assms(1)] assms(5) by (simp add: copy_in_def)
  then show ?thesis
    using read_sector_law [OF assms(1,3,2), where d = d and o' = "unat x" and buff = b] assms(4)
    by (subst read_sectors.simps) auto
qed

text \<open>The arithmetic of a request that lies on the disk, in 32 bits and in numbers.\<close>

lemma request_words:
  assumes "0 < unat sz" and "unat off + unat sz < 2 ^ 32" and "unat off + unat sz \<le> unat (ata_max_offset dev)"
  shows "\<not> ucast off > ata_max_offset dev" and "ata_clip dev off sz = sz"
    and "unat (off div 512) = unat off div 512" and "unat (off mod 512) = unat off mod 512"
    and "unat ((off + sz - 1) div 512) = (unat off + unat sz - 1) div 512"
    and "unat ((off + sz) mod 512) = (unat off + unat sz) mod 512"
    and "off mod 512 \<noteq> 0 \<Longrightarrow> unat (512 - off mod 512) = 512 - unat off mod 512"
    and "off mod 512 \<noteq> 0 \<longleftrightarrow> unat off mod 512 \<noteq> 0" and "(off + sz) mod 512 \<noteq> 0 \<longleftrightarrow> (unat off + unat sz) mod 512 \<noteq> 0"
proof -
  have a: "unat (off + sz) = unat off + unat sz" using assms(2) by (simp add: unat_word_ariths)
  show "\<not> ucast off > ata_max_offset dev"
    using assms(3) by (simp add: word_less_nat_alt unsigned_ucast_eq take_bit_nat_eq_self unat_bound [THEN less_trans])
  show "ata_clip dev off sz = sz"
    using le_trans [OF take_bit_nat_less_eq_self assms(3), of 64] a
    by (simp add: ata_clip_def word_less_nat_alt unsigned_ucast_eq)
  show "unat (off div 512) = unat off div 512" "unat (off mod 512) = unat off mod 512"
    by (simp_all add: unat_div unat_mod)
  have "off + sz \<noteq> 0" using a assms(1) by (metis add_gr_0 not_gr_zero unsigned_0)
  then have "unat (off + sz - 1) = unat off + unat sz - 1" using a by (simp add: unat_minus_one)
  then show "unat ((off + sz - 1) div 512) = (unat off + unat sz - 1) div 512" by (simp add: unat_div)
  show m: "unat ((off + sz) mod 512) = (unat off + unat sz) mod 512" using a by (simp add: unat_mod)
  have m1: "unat (off mod 512) = unat off mod 512" by (simp add: unat_mod)
  then have "off mod 512 \<le> 512" by (simp add: word_le_nat_alt less_imp_le)
  then show "unat (512 - off mod 512) = 512 - unat off mod 512" using m1 by (simp add: unat_sub)
  show "off mod 512 \<noteq> 0 \<longleftrightarrow> unat off mod 512 \<noteq> 0" using m1 by (metis unsigned_0 unsigned_eq_0_iff)
  show "(off + sz) mod 512 \<noteq> 0 \<longleftrightarrow> (unat off + unat sz) mod 512 \<noteq> 0" using m by (metis unsigned_0 unsigned_eq_0_iff)
qed

lemma copy_in_fresh: "length bs = length t \<Longrightarrow> copy_in 0 bs t = Some bs"
  by (simp add: copy_in_def)

lemma round_up:
  shows "(a :: nat) mod 512 = 0 \<Longrightarrow> (a + 511) div 512 = a div 512" and "a mod 512 \<noteq> 0 \<Longrightarrow> (a + 511) div 512 = Suc (a div 512)"
proof -
  have "(a + 511) div 512 = a div 512 + (a mod 512 + 511) div 512" using div_add1_eq [of a 511 512] by simp
  moreover have "(a mod 512 + 511) div 512 = 1" if "a mod 512 \<noteq> 0"
    using that mod_less_divisor [of 512 a] by (intro div_nat_eqI) auto
  ultimately show "a mod 512 = 0 \<Longrightarrow> (a + 511) div 512 = a div 512" "a mod 512 \<noteq> 0 \<Longrightarrow> (a + 511) div 512 = Suc (a div 512)"
    by simp_all
qed

lemma sector_start: "512 * (a div 512) + a mod 512 = (a :: nat)"
  by simp

lemma next_sector: "512 * Suc (a div 512) = a + (512 - a mod 512)" for a :: nat
proof -
  define q r where "q = a div 512" and "r = a mod 512"
  then have "a = 512 * q + r" "r < 512" by simp_all
  then show ?thesis unfolding q_def [symmetric] r_def [symmetric] by (simp add: less_imp_le)
qed

lemma same_sector: "(a :: nat) mod 512 + j < 512 \<Longrightarrow> (a + j) div 512 = a div 512 \<and> (a + j) mod 512 = a mod 512 + j"
  using div_add1_eq [of a j 512] mod_add_left_eq [of a 512 j] by simp

lemma read_first_law:
  assumes "ide_contract P (ucast (io_base dev)) view delay" and "ata_dev_ok dev" and "length tmp = 512"
    and "w = disk_bytes (sector view dev d) (unat off) (length w)" and "length b = length w"
  shows "unat off mod 512 = 0 \<or> 512 - unat off mod 512 \<le> length w \<Longrightarrow>
      \<exists>s x b' d'. read_first P tmp dev off b d = Some (s, x, b', d') \<and> unat s = (unat off + 511) div 512
        \<and> 512 * unat s = unat off + unat x \<and> unat x \<le> length w \<and> filled w (unat x) (length w) b'
        \<and> ide_sectors (view d') = ide_sectors (view d)"
    and "unat off mod 512 \<noteq> 0 \<Longrightarrow> length w < 512 - unat off mod 512 \<Longrightarrow> read_first P tmp dev off b d = None"
proof -
  let ?r = "unat off mod 512" and ?s = "off div 512"
  let ?S = "sector view dev d ?s"
  have u: "unat ?s = unat off div 512" "unat (off mod 512) = ?r" by (simp_all add: unat_div unat_mod)
  have S: "length ?S = 512" using contract_length [OF assms(1)] .
  have lba: "unat ?s < 2 ^ 28" using u(1) unat_bound [of off] by simp
  have r: "?r < 512" by simp
  have p: "unat (512 - off mod 512) = 512 - ?r" using u(2) by (simp add: unat_sub word_le_nat_alt less_imp_le)
  obtain d1 where d1: "ide_sectors (view d1) = ide_sectors (view d)" "ata_device_read_sector P dev ?s tmp 0 d = Some (?S, d1)"
    using read_sector_law [OF assms(1) lba assms(2), where d = d and o' = 0 and buff = tmp] S assms(3) copy_in_fresh [of ?S tmp] by auto
  have co: "copy_out ?r (512 - ?r) ?S = Some (drop ?r ?S)" using S r by (simp add: copy_out_def)
  have z: "off mod 512 = 0 \<longleftrightarrow> ?r = 0" using u(2) by (metis unsigned_0 unsigned_eq_0_iff)
  show "read_first P tmp dev off b d = None" if "?r \<noteq> 0" "length w < 512 - ?r"
    using that z d1 co u(2) p S assms(5) by (simp add: read_first_def Let_def copy_in_def)
  assume fits: "?r = 0 \<or> 512 - ?r \<le> length w"
  show "\<exists>s x b' d'. read_first P tmp dev off b d = Some (s, x, b', d') \<and> unat s = (unat off + 511) div 512
        \<and> 512 * unat s = unat off + unat x \<and> unat x \<le> length w \<and> filled w (unat x) (length w) b'
        \<and> ide_sectors (view d') = ide_sectors (view d)"
  proof (cases "?r = 0")
    case True
    then have "unat ?s = (unat off + 511) div 512" "512 * unat ?s = unat off" using u(1) round_up(1) [OF True] sector_start [of "unat off"] by simp_all
    then show ?thesis using True z assms(5) by (simp add: read_first_def filled_def)
  next
    case False
    have same: "drop ?r ?S ! j = w ! (0 + j)" if "j < length (drop ?r ?S)" for j
    proof -
      have "j < length w" using that fits False S by simp
      then have "w ! j = disk_byte (sector view dev d) (unat off + j)" using nth_disk_bytes assms(4) by metis
      moreover have "(unat off + j) div 512 = unat ?s" "(unat off + j) mod 512 = ?r + j"
        using that S u(1) same_sector [of "unat off" j] by simp_all
      ultimately show ?thesis using that S by (simp add: disk_byte_def)
    qed
    have "filled w 0 (length w) b" using assms(5) by (simp add: filled_def)
    then obtain b' where b': "copy_in 0 (drop ?r ?S) b = Some b'" "filled w (512 - ?r) (length w) b'"
      using filled_copy_low [of w 0 "length w" b "drop ?r ?S"] same fits False S by auto
    have s1: "unat (?s + 1) = unat ?s + 1" using lba by (simp add: unat_word_ariths)
    have "unat ?s + 1 = (unat off + 511) div 512" using u(1) round_up(2) [OF False] by simp
    moreover have "512 * (unat ?s + 1) = unat off + (512 - ?r)"
      using next_sector [of "unat off"] u(1) by simp
    ultimately have "unat ?s + 1 = (unat off + 511) div 512 \<and> 512 * (unat ?s + 1) = unat off + (512 - ?r)" by simp
    then show ?thesis using False z d1 co b' fits s1 p u(2)
      by (simp add: read_first_def Let_def)
  qed
qed

text \<open>The last sector, and how many whole sectors are left between the two.\<close>

lemma sectors_between:
  assumes "512 * s = (a :: nat) + x" and "x \<le> n" and "0 < n"
  shows "(a + n) mod 512 = 0 \<Longrightarrow> \<exists>k. s + k = Suc ((a + n - 1) div 512) \<and> x + 512 * k = n"
    and "(a + n) mod 512 \<noteq> 0 \<Longrightarrow> s < (a + n - 1) div 512 \<Longrightarrow> 512 * ((a + n - 1) div 512) = a + (n - (a + n) mod 512)
      \<and> (a + n) mod 512 \<le> n \<and> (\<exists>k. s + k = (a + n - 1) div 512 \<and> x + 512 * k = n - (a + n) mod 512)"
proof -
  define q r where "q = (a + n) div 512" and "r = (a + n) mod 512"
  then have an: "a + n = 512 * q + r" and r: "r < 512" by simp_all
  have sq: "s \<le> q" using assms(1,2) an r by linarith
  {
    assume "(a + n) mod 512 = 0"
    then have r0: "r = 0" by (simp add: r_def)
    then have "0 < q" using an assms(3) by (cases q) simp_all
    then have "(a + n - 1) div 512 = q - 1" using an r0 by (intro div_nat_eqI) (simp_all add: algebra_simps)
    then have "s + (q - s) = Suc ((a + n - 1) div 512) \<and> x + 512 * (q - s) = n" using sq \<open>0 < q\<close> an r0 assms(1) by (simp add: diff_mult_distrib2)
    then show "\<exists>k. s + k = Suc ((a + n - 1) div 512) \<and> x + 512 * k = n" by blast
  next
    assume "(a + n) mod 512 \<noteq> 0" and lt: "s < (a + n - 1) div 512"
    then have r0: "0 < r" by (simp add: r_def)
    then have e: "(a + n - 1) div 512 = q" using an r by (intro div_nat_eqI) (simp_all add: algebra_simps)
    have rn: "r \<le> n" using an lt assms(1) r unfolding e by simp
    have "512 * q = a + (n - r)" using an rn by simp
    moreover have "s + (q - s) = q \<and> x + 512 * (q - s) = n - r" using sq rn an assms(1) by (simp add: diff_mult_distrib2)
    ultimately show "512 * ((a + n - 1) div 512) = a + (n - (a + n) mod 512)
      \<and> (a + n) mod 512 \<le> n \<and> (\<exists>k. s + k = (a + n - 1) div 512 \<and> x + 512 * k = n - (a + n) mod 512)"
      using rn unfolding e r_def [symmetric] by blast
  }
qed

lemma read_last_law:
  assumes "ide_contract P (ucast (io_base dev)) view delay" and "ata_dev_ok dev" and "length tmp = 512"
    and "w = disk_bytes (sector view dev d) (unat off) (unat sz)" and "filled w (unat x) (unat sz) b"
    and "0 < unat sz" and "unat off + unat sz < 2 ^ 32" and "512 * unat s = unat off + unat x" and "unat x \<le> unat sz"
    and "unat e = (unat off + unat sz - 1) div 512" and "(unat off + unat sz) mod 512 = 0 \<or> unat s < unat e"
  shows "\<exists>e' b' d' k. read_last P tmp dev off sz s e b d = Some (e', b', d') \<and> unat e' < 2 ^ 28 \<and> unat s + k = unat e' + 1
    \<and> unat x + 512 * k \<le> unat sz \<and> filled w (unat x) (unat x + 512 * k) b' \<and> ide_sectors (view d') = ide_sectors (view d)"
proof -
  let ?n = "unat sz" and ?q = "(unat off + unat sz) mod 512"
  have u: "unat ((off + sz) mod 512) = ?q" using assms(7) by (simp add: unat_mod unat_word_ariths)
  then have z: "(off + sz) mod 512 = 0 \<longleftrightarrow> ?q = 0" by (metis unsigned_0 unsigned_eq_0_iff)
  have lba: "unat e < 2 ^ 28" using assms(7,10) by simp
  show ?thesis
  proof (cases "?q = 0")
    case True
    obtain k where "unat s + k = Suc (unat e)" "unat x + 512 * k = ?n"
      using sectors_between(1) [OF assms(8,9,6) True] assms(10) by auto
    then show ?thesis using True z lba assms(5)
      by (intro exI [of _ e] exI [of _ b] exI [of _ d] exI [of _ k]) (simp add: read_last_def)
  next
    case False
    then have lt: "unat s < unat e" using assms(11) by simp
    let ?S = "sector view dev d e"
    have S: "length ?S = 512" using contract_length [OF assms(1)] .
    have B: "512 * unat e = unat off + (?n - ?q)" "?q \<le> ?n" "\<exists>k. unat s + k = unat e \<and> unat x + 512 * k = ?n - ?q"
      using sectors_between(2) [OF assms(8,9,6) False] lt assms(10) by auto
    then obtain k where k: "unat s + k = unat e" "unat x + 512 * k = ?n - ?q" by blast
    obtain d1 where d1: "ide_sectors (view d1) = ide_sectors (view d)" "ata_device_read_sector P dev e tmp 0 d = Some (?S, d1)"
      using read_sector_law [OF assms(1) lba assms(2), where d = d and o' = 0 and buff = tmp] S assms(3) copy_in_fresh [of ?S tmp] by auto
    have q: "?q < 512" by simp
    have lq: "length (take ?q ?S) = ?q" using q S by simp
    have same: "take ?q ?S ! j = w ! (length w - length (take ?q ?S) + j)" if "j < length (take ?q ?S)" for j
    proof -
      have j: "j < ?q" using that lq by simp
      have "w ! (?n - ?q + j) = disk_byte (sector view dev d) (unat off + (?n - ?q + j))"
        using j B(2) unfolding assms(4) by (intro nth_disk_bytes) simp
      then show ?thesis using sector_byte [OF B(1), of j "sector view dev d"] j by (simp add: assms(4) lq del: length_take)
    qed
    have "filled w (unat x) (length w) b" "length w = ?n" using assms(4,5) by simp_all
    then obtain b' where b': "copy_in (?n - ?q) (take ?q ?S) b = Some b'" "filled w (unat x) (?n - ?q) b'"
      using filled_copy_high [of w "unat x" b "take ?q ?S"] same lq B(2) by (auto simp del: length_take)
    have p: "unat (sz - (off + sz) mod 512) = ?n - ?q" using u B(2) by (simp add: unat_sub word_le_nat_alt)
    have e1: "unat (e - 1) + 1 = unat e" using lt unat_minus_one [of e] by (cases "e = 0") simp_all
    have "read_last P tmp dev off sz s e b d = Some (e - 1, b', d1)"
      using False z lt d1 b' p u S q by (simp add: read_last_def Let_def word_less_nat_alt copy_out_def)
    then show ?thesis using k e1 b' d1 lba
      by (intro exI [of _ "e - 1"] exI [of _ b'] exI [of _ d1] exI [of _ k]) simp
  qed
qed

lemma keeps_prefix:
  assumes "0 < n" and "a mod 512 \<noteq> 0" and "n < 512 - a mod 512"
  shows "\<not> keeps_to_buffer a n"
proof -
  have "(a + n) mod 512 = a mod 512 + n" "(a + n - 1) div 512 = a div 512"
    using same_sector [of a n] same_sector [of a "n - 1"] assms by simp_all
  then show ?thesis using assms(1) round_up(2) [OF assms(2)] by (simp add: keeps_to_buffer_def)
qed

lemma one_sector_left:
  assumes "512 * s = (a :: nat) + x" and "x \<le> n" and "0 < n" and "(a + n) mod 512 \<noteq> 0" and "(a + n - 1) div 512 \<le> s"
  shows "(a + n - 1) div 512 = s" and "n < x + 512"
proof -
  have xn: "x \<noteq> n" using assms(1,4) by (metis mod_mult_self1_is_0)
  then have "512 * s \<le> a + n - 1" using assms(1,2) by simp
  then have "s \<le> (a + n - 1) div 512" by (simp add: less_eq_div_iff_mult_less_eq)
  then show e: "(a + n - 1) div 512 = s" using assms(5) by simp
  have "a + n - 1 < 512 * Suc s" unfolding e [symmetric] using dividend_less_div_times [of 512 "a + n - 1"] by simp
  then have "n \<le> x + 512" using assms(1,3) by simp
  moreover have "n \<noteq> x + 512"
  proof
    assume "n = x + 512"
    then have "a + n = 512 * Suc s" using assms(1) by simp
    then show False using assms(4) by simp
  qed
  ultimately show "n < x + 512" by simp
qed

lemma read_ata_law:
  assumes "ide_contract P (ucast (io_base dev)) view delay" and "ata_dev_ok dev" and "length tmp = 512"
    and "0 < unat sz" and "unat off + unat sz < 2 ^ 32" and "unat off + unat sz \<le> unat (ata_max_offset dev)" and "length b = unat sz"
  shows "keeps_to_buffer (unat off) (unat sz) \<Longrightarrow>
      \<exists>d'. read_ata P tmp dev off sz b d = Some (sz, disk_bytes (sector view dev d) (unat off) (unat sz), d')
        \<and> ide_sectors (view d') = ide_sectors (view d)"
    and "\<not> keeps_to_buffer (unat off) (unat sz) \<Longrightarrow> read_ata P tmp dev off sz b d = None"
proof -
  note c = assms(1) and ok = assms(2) and q = request_words [OF assms(4-6)]
  let ?a = "unat off" and ?n = "unat sz" and ?e = "(off + sz - 1) div 512"
  define w where "w = disk_bytes (sector view dev d) ?a ?n"
  have lw: "length w = ?n" by (simp add: w_def)
  have w: "w = disk_bytes (sector view dev d) ?a (length w)" by (simp add: w_def)
  have n32: "length w < 2 ^ 32" using assms(5) lw by simp
  note first = read_first_law [OF c ok assms(3) w, of b, unfolded lw, OF assms(7)]
  {
    assume "keeps_to_buffer ?a ?n"
    then have keeps: "(?a + ?n) mod 512 = 0 \<or> (?a + 511) div 512 < unat ?e" by (simp add: keeps_to_buffer_def q(5))
    have "?a mod 512 = 0 \<or> 512 - ?a mod 512 \<le> ?n" using keeps_prefix [OF assms(4)] \<open>keeps_to_buffer ?a ?n\<close> by (metis not_le)
    then obtain s x b1 d1 where 1: "read_first P tmp dev off b d = Some (s, x, b1, d1)" "unat s = (?a + 511) div 512"
        "512 * unat s = ?a + unat x" "unat x \<le> ?n" "filled w (unat x) ?n b1" "ide_sectors (view d1) = ide_sectors (view d)"
      using first(1) by fastforce
    have w1: "w = disk_bytes (sector view dev d1) ?a ?n" using w_def 1(6) by simp
    have k1: "(?a + ?n) mod 512 = 0 \<or> unat s < unat ?e" using keeps 1(2) by simp
    obtain e2 b2 d2 k where 2: "read_last P tmp dev off sz s ?e b1 d1 = Some (e2, b2, d2)" "unat e2 < 2 ^ 28" "unat s + k = unat e2 + 1"
        "unat x + 512 * k \<le> ?n" "filled w (unat x) (unat x + 512 * k) b2" "ide_sectors (view d2) = ide_sectors (view d1)"
      using read_last_law [OF c ok assms(3) w1 1(5) assms(4,5) 1(3,4) q(5) k1] by fastforce
    have w2: "w = disk_bytes (sector view dev d2) ?a (length w)" using w 2(6) 1(6) by simp
    obtain d3 where 3: "read_sectors P dev s e2 x b2 d2 = Some (w, d3)" "ide_sectors (view d3) = ide_sectors (view d2)"
      using read_sectors_law [OF c ok 2(2,3) 1(3) 2(4) [folded lw] n32 2(5) w2] by blast
    show "\<exists>d'. read_ata P tmp dev off sz b d = Some (sz, disk_bytes (sector view dev d) ?a ?n, d')
        \<and> ide_sectors (view d') = ide_sectors (view d)"
      using 1 2 3 q(1,2) w_def by (intro exI [of _ d3]) (simp add: read_ata_def Let_def)
  next
    assume "\<not> keeps_to_buffer ?a ?n"
    then have out: "(?a + ?n) mod 512 \<noteq> 0" "unat ?e \<le> (?a + 511) div 512" by (simp_all add: keeps_to_buffer_def q(5))
    show "read_ata P tmp dev off sz b d = None"
    proof (cases "?a mod 512 = 0 \<or> 512 - ?a mod 512 \<le> ?n")
      case False
      then show ?thesis using first(2) q(1,2) by (simp add: read_ata_def Let_def)
    next
      case True
      then obtain s x b1 d1 where 1: "read_first P tmp dev off b d = Some (s, x, b1, d1)" "unat s = (?a + 511) div 512"
          "512 * unat s = ?a + unat x" "unat x \<le> ?n" "filled w (unat x) ?n b1" "ide_sectors (view d1) = ide_sectors (view d)"
        using first(1) by fastforce
      have one: "unat ?e = unat s" "?n < unat x + 512"
        using one_sector_left [OF 1(3,4) assms(4) out(1)] out(2) q(5) 1(2) by simp_all
      have "read_last P tmp dev off sz s ?e b1 d1 = Some (?e, b1, d1)"
        using one(1) by (simp add: read_last_def word_less_nat_alt)
      moreover have "read_sectors P dev s ?e x b1 d1 = None"
      proof (rule read_sectors_overflow [OF c ok])
        show "unat s < 2 ^ 28" using one(1) q(5) assms(5) by simp
        show "s \<le> ?e" using one(1) by (simp add: word_le_nat_alt)
        show "length b1 < unat x + 512" using 1(5) one(2) lw by (simp add: filled_def)
      qed
      ultimately show ?thesis using 1(1) q(1,2) by (simp add: read_ata_def Let_def)
    qed
  }
qed

section \<open>Writing\<close>

text \<open>The sectors of the set \<open>S\<close> hold what the request puts there, the others and the other drive what they held before.\<close>

definition progress :: "('d \<Rightarrow> ide) \<Rightarrow> ata_dev \<Rightarrow> (bool \<Rightarrow> u32 \<Rightarrow> u8 list) \<Rightarrow> nat \<Rightarrow> u8 list \<Rightarrow> nat set \<Rightarrow> 'd \<Rightarrow> bool" where
  "progress view dev D a bs S d \<longleftrightarrow>
     (\<forall>l. sector view dev d l = (if unat l \<in> S then patched (D (drive_of dev)) a bs l else D (drive_of dev) l))
     \<and> ide_sectors (view d) (\<not> drive_of dev) = D (\<not> drive_of dev)"

lemma length_patched [simp]: "length (patched D a bs l) = 512"
  by (simp add: patched_def)

lemma nth_patched: "j < 512 \<Longrightarrow> patched D a bs l ! j =
    (if a \<le> 512 * unat l + j \<and> 512 * unat l + j < a + length bs then bs ! (512 * unat l + j - a) else D l ! j)"
  by (simp add: patched_def)

lemma patched_same:
  assumes "length (D l) = 512" and "unat l < a div 512 \<or> (a + length bs + 511) div 512 \<le> unat l"
  shows "patched D a bs l = D l"
proof (rule nth_equalityI)
  fix j assume "j < length (patched D a bs l)"
  then have j: "j < 512" by simp
  have "512 * unat l + j < a \<or> a + length bs \<le> 512 * unat l + j"
  proof (cases "unat l < a div 512")
    case True
    then have "512 * Suc (unat l) \<le> 512 * (a div 512)" by simp
    then have "512 * Suc (unat l) \<le> a" using sector_start [of a] by linarith
    then show ?thesis using j by simp
  next
    case False
    then have "(a + length bs + 511) div 512 \<le> unat l" using assms(2) by simp
    then have "a + length bs + 511 < 512 * Suc (unat l)"
      using dividend_less_div_times [of 512 "a + length bs + 511"] mult_le_mono2 [of "Suc ((a + length bs + 511) div 512)" "Suc (unat l)" 512] by simp
    then show ?thesis by simp
  qed
  then show "patched D a bs l ! j = D l ! j" using j by (auto simp: nth_patched)
qed (simp add: assms(1))

lemma progress_all:
  assumes "progress view dev D a bs S d" and "{a div 512..<(a + length bs + 511) div 512} \<subseteq> S" and "\<And>l. length (D (drive_of dev) l) = 512"
  shows "sector view dev d = patched (D (drive_of dev)) a bs"
proof
  fix l
  show "sector view dev d l = patched (D (drive_of dev)) a bs l"
  proof (cases "unat l \<in> S")
    case False
    then have "unat l < a div 512 \<or> (a + length bs + 511) div 512 \<le> unat l" using assms(2) by (metis atLeastLessThan_iff in_mono not_less)
    then show ?thesis using patched_same [OF assms(3)] assms(1) False by (simp add: progress_def)
  qed (use assms(1) in \<open>simp add: progress_def\<close>)
qed

lemma progress_write:
  assumes "ide_contract P (ucast (io_base dev)) view delay" and "ata_dev_ok dev" and "length tmp = 512"
    and "progress view dev D a bs S d" and "unat l < 2 ^ 28" and "o' + 512 \<le> length buff"
    and "take 512 (drop o' buff) = patched (D (drive_of dev)) a bs l"
  shows "\<exists>d'. ata_device_write_retry P dev l tmp buff o' d = Some d' \<and> progress view dev D a bs (insert (unat l) S) d'"
proof -
  obtain d' where d': "ata_device_write_retry P dev l tmp buff o' d = Some d'"
    "ide_sectors (view d') = (\<lambda>s l'. if s = drive_of dev \<and> l' = l then take 512 (drop o' buff) else ide_sectors (view d) s l')"
    using write_retry_law(1) [OF assms(1,5,2,3,6)] by blast
  have "progress view dev D a bs (insert (unat l) S) d'"
    using assms(4,7) d'(2) by (auto simp: progress_def fun_eq_iff dest: word_unat_eq_iff [THEN iffD2])
  then show ?thesis using d'(1) by blast
qed

lemma whole_sector:
  assumes "512 * unat l = a + x" and "x + 512 \<le> length bs"
  shows "take 512 (drop x bs) = patched D a bs l"
  by (rule nth_equalityI) (use assms in \<open>auto simp: nth_patched\<close>)

lemma first_sector:
  assumes "512 * unat l + r = a" and "r < 512" and "512 - r \<le> length bs" and "length (D l) = 512"
  shows "take r (D l) @ take (512 - r) bs = patched D a bs l"
proof (rule nth_equalityI)
  fix j assume "j < length (take r (D l) @ take (512 - r) bs)"
  then have j: "j < 512" using assms(2,3,4) by simp
  show "(take r (D l) @ take (512 - r) bs) ! j = patched D a bs l ! j"
    using j assms by (auto simp: nth_patched nth_append not_less)
qed (use assms in simp)

lemma last_sector:
  assumes "512 * unat l = a + (length bs - q)" and "q \<le> length bs" and "q < 512" and "length (D l) = 512"
  shows "take q (drop (length bs - q) bs) @ drop q (D l) = patched D a bs l"
proof (rule nth_equalityI)
  fix j assume "j < length (take q (drop (length bs - q) bs) @ drop q (D l))"
  then have j: "j < 512" using assms(2,3,4) by simp
  show "(take q (drop (length bs - q) bs) @ drop q (D l)) ! j = patched D a bs l ! j"
    using j assms by (auto simp: nth_patched nth_append not_less)
qed (use assms in simp)

lemma write_sectors_law:
  assumes "ide_contract P (ucast (io_base dev)) view delay" and "ata_dev_ok dev" and "length tmp = 512" and "unat e < 2 ^ 28"
    and "unat s + k = unat e + 1" and "512 * unat s = a + unat x" and "unat x + 512 * k \<le> length bs" and "length bs < 2 ^ 32"
    and "progress view dev D a bs S d"
  shows "\<exists>d'. write_sectors P tmp dev s e x bs d = Some d' \<and> progress view dev D a bs (S \<union> {unat s..<unat s + k}) d'"
  using assms(4-)
proof (induction k arbitrary: s x S d)
  case 0
  then have "\<not> s \<le> e" by (simp add: word_le_nat_alt)
  then show ?case using 0 by (subst write_sectors.simps) simp
next
  case (Suc k)
  then have le: "s \<le> e" and lba: "unat s < 2 ^ 28" by (simp_all add: word_le_nat_alt)
  have fits: "unat x + 512 \<le> length bs" using Suc.prems(4) by simp
  obtain d1 where d1: "ata_device_write_retry P dev s tmp bs (unat x) d = Some d1" "progress view dev D a bs (insert (unat s) S) d1"
    using progress_write [OF assms(1-3) Suc.prems(6) lba fits whole_sector [OF Suc.prems(3) fits]] by blast
  have s1: "unat (s + 1) = unat s + 1" using Suc.prems(1,2) by (simp add: unat_word_ariths)
  have un: "insert (unat s) S \<union> {unat s + 1..<unat s + 1 + k} = S \<union> {unat s..<unat s + Suc k}" by auto
  have "\<exists>d'. write_sectors P tmp dev (s + 1) e (x + 512) bs d1 = Some d' \<and> progress view dev D a bs (S \<union> {unat s..<unat s + Suc k}) d'"
  proof (cases k)
    case 0
    then have "\<not> s + 1 \<le> e" using s1 Suc.prems(2) by (simp add: word_le_nat_alt)
    then show ?thesis using d1(2) un 0 by (subst write_sectors.simps) simp
  next
    case (Suc k')
    then have x1: "unat (x + 512) = unat x + 512" using Suc.prems(4,5) by (simp add: unat_word_ariths)
    show ?thesis unfolding un [symmetric] unfolding s1 [symmetric]
      by (rule Suc.IH) (use Suc.prems s1 x1 d1(2) in \<open>simp_all add: algebra_simps\<close>)
  qed
  then show ?case using le d1(1) by (subst write_sectors.simps) auto
qed

lemma write_first_law:
  assumes "ide_contract P (ucast (io_base dev)) view delay" and "ata_dev_ok dev" and "length tmp = 512"
    and "progress view dev D (unat off) bs {} d"
  shows "unat off mod 512 = 0 \<or> 512 - unat off mod 512 \<le> length bs \<Longrightarrow>
      \<exists>s x d'. write_first P tmp dev off bs d = Some (s, x, d') \<and> unat s = (unat off + 511) div 512
        \<and> 512 * unat s = unat off + unat x \<and> unat x \<le> length bs \<and> progress view dev D (unat off) bs {unat off div 512..<unat s} d'"
    and "unat off mod 512 \<noteq> 0 \<Longrightarrow> length bs < 512 - unat off mod 512 \<Longrightarrow> write_first P tmp dev off bs d = None"
proof -
  let ?r = "unat off mod 512" and ?s = "off div 512"
  let ?S = "sector view dev d ?s"
  have u: "unat ?s = unat off div 512" "unat (off mod 512) = ?r" by (simp_all add: unat_div unat_mod)
  have S: "length ?S = 512" using contract_length [OF assms(1)] .
  have lba: "unat ?s < 2 ^ 28" using u(1) unat_bound [of off] by simp
  have r: "?r < 512" by simp
  have p: "unat (512 - off mod 512) = 512 - ?r" using u(2) by (simp add: unat_sub word_le_nat_alt less_imp_le)
  obtain d1 where d1: "ide_sectors (view d1) = ide_sectors (view d)" "ata_device_read_sector P dev ?s tmp 0 d = Some (?S, d1)"
    using read_sector_law [OF assms(1) lba assms(2), where d = d and o' = 0 and buff = tmp] S assms(3) copy_in_fresh [of ?S tmp] by auto
  have z: "off mod 512 = 0 \<longleftrightarrow> ?r = 0" using u(2) by (metis unsigned_0 unsigned_eq_0_iff)
  show "write_first P tmp dev off bs d = None" if "?r \<noteq> 0" "length bs < 512 - ?r"
    using that z d1 p by (simp add: write_first_def Let_def copy_out_def)
  assume fits: "?r = 0 \<or> 512 - ?r \<le> length bs"
  show "\<exists>s x d'. write_first P tmp dev off bs d = Some (s, x, d') \<and> unat s = (unat off + 511) div 512
        \<and> 512 * unat s = unat off + unat x \<and> unat x \<le> length bs \<and> progress view dev D (unat off) bs {unat off div 512..<unat s} d'"
  proof (cases "?r = 0")
    case True
    then have "unat ?s = (unat off + 511) div 512" "512 * unat ?s = unat off" using u(1) round_up(1) [OF True] sector_start [of "unat off"] by simp_all
    then show ?thesis using True z assms(4) u(1) by (simp add: write_first_def)
  next
    case False
    let ?t = "take ?r ?S @ take (512 - ?r) bs"
    have p1: "progress view dev D (unat off) bs {} d1" using assms(4) d1(1) by (simp add: progress_def)
    have lt: "length ?t = 512" using S fits False r by simp
    have "?S = D (drive_of dev) ?s" using assms(4) by (simp add: progress_def)
    then have t: "take 512 (drop 0 ?t) = patched (D (drive_of dev)) (unat off) bs ?s"
      using first_sector [of ?s ?r "unat off" bs "D (drive_of dev)"] sector_start [of "unat off"] u(1) r fits False S by simp
    obtain d2 where d2: "ata_device_write_retry P dev ?s tmp ?t 0 d1 = Some d2" "progress view dev D (unat off) bs (insert (unat ?s) {}) d2"
      using progress_write [OF assms(1-3) p1 lba _ t] lt by auto
    have s1: "unat (?s + 1) = unat ?s + 1" using lba by (simp add: unat_word_ariths)
    have "unat ?s + 1 = (unat off + 511) div 512" "512 * (unat ?s + 1) = unat off + (512 - ?r)"
      using u(1) round_up(2) [OF False] next_sector [of "unat off"] by simp_all
    moreover have "insert (unat ?s) {} = {unat off div 512..<unat off div 512 + 1}" using u(1) by auto
    moreover have "copy_in ?r (take (512 - ?r) bs) ?S = Some ?t" using S fits False r by (simp add: copy_in_def)
    ultimately show ?thesis using False z d1 d2 fits s1 p u
      by (simp add: write_first_def Let_def copy_out_def)
  qed
qed

lemma write_last_law:
  assumes "ide_contract P (ucast (io_base dev)) view delay" and "ata_dev_ok dev" and "length tmp = 512" and "length bs = unat sz"
    and "progress view dev D (unat off) bs S d" and "S \<subseteq> {..<unat s}"
    and "0 < unat sz" and "unat off + unat sz < 2 ^ 32" and "512 * unat s = unat off + unat x" and "unat x \<le> unat sz"
    and "unat e = (unat off + unat sz - 1) div 512" and "(unat off + unat sz) mod 512 = 0 \<or> unat s < unat e"
  shows "\<exists>e' d' k. write_last P tmp dev off sz s e bs d = Some (e', d') \<and> unat e' < 2 ^ 28 \<and> unat s + k = unat e' + 1
    \<and> unat x + 512 * k \<le> unat sz \<and> progress view dev D (unat off) bs (S \<union> {unat s + k..<Suc (unat e)}) d'"
proof -
  let ?n = "unat sz" and ?q = "(unat off + unat sz) mod 512"
  have u: "unat ((off + sz) mod 512) = ?q" using assms(8) by (simp add: unat_mod unat_word_ariths)
  then have z: "(off + sz) mod 512 = 0 \<longleftrightarrow> ?q = 0" by (metis unsigned_0 unsigned_eq_0_iff)
  have lba: "unat e < 2 ^ 28" using assms(8,11) by simp
  show ?thesis
  proof (cases "?q = 0")
    case True
    obtain k where "unat s + k = Suc (unat e)" "unat x + 512 * k = ?n"
      using sectors_between(1) [OF assms(9,10,7) True] assms(11) by auto
    then show ?thesis using True z lba assms(5)
      by (intro exI [of _ e] exI [of _ d] exI [of _ k]) (simp add: write_last_def)
  next
    case False
    then have lt: "unat s < unat e" using assms(12) by simp
    let ?S = "sector view dev d e"
    have S: "length ?S = 512" using contract_length [OF assms(1)] .
    have B: "512 * unat e = unat off + (?n - ?q)" "?q \<le> ?n" "\<exists>k. unat s + k = unat e \<and> unat x + 512 * k = ?n - ?q"
      using sectors_between(2) [OF assms(9,10,7) False] lt assms(11) by auto
    then obtain k where k: "unat s + k = unat e" "unat x + 512 * k = ?n - ?q" by blast
    obtain d1 where d1: "ide_sectors (view d1) = ide_sectors (view d)" "ata_device_read_sector P dev e tmp 0 d = Some (?S, d1)"
      using read_sector_law [OF assms(1) lba assms(2), where d = d and o' = 0 and buff = tmp] S assms(3) copy_in_fresh [of ?S tmp] by auto
    have q: "?q < 512" by simp
    let ?b = "take ?q (drop (?n - ?q) bs)"
    have lb: "length ?b = ?q" using assms(4) B(2) by simp
    let ?t = "?b @ drop ?q ?S"
    have ltt: "length ?t = 512" using lb S q by simp
    have "unat e \<notin> S" using lt assms(6) by auto
    then have "?S = D (drive_of dev) e" using assms(5) by (simp add: progress_def)
    then have t: "take 512 (drop 0 ?t) = patched (D (drive_of dev)) (unat off) bs e"
      using last_sector [of e "unat off" bs ?q "D (drive_of dev)"] B(1,2) q S assms(4) ltt by (simp del: length_take)
    have p1: "progress view dev D (unat off) bs S d1" using assms(5) d1(1) by (simp add: progress_def)
    obtain d2 where d2: "ata_device_write_retry P dev e tmp ?t 0 d1 = Some d2" "progress view dev D (unat off) bs (insert (unat e) S) d2"
      using progress_write [OF assms(1-3) p1 lba _ t] ltt by auto
    have p: "unat (sz - (off + sz) mod 512) = ?n - ?q" using u B(2) by (simp add: unat_sub word_le_nat_alt)
    have e1: "unat (e - 1) + 1 = unat e" using lt unat_minus_one [of e] by (cases "e = 0") simp_all
    have "copy_out (?n - ?q) ?q bs = Some ?b" "copy_in 0 ?b ?S = Some ?t"
      using assms(4) B(2) lb S q by (simp_all add: copy_out_def copy_in_def del: length_take)
    then have "write_last P tmp dev off sz s e bs d = Some (e - 1, d2)"
      using False z lt d1 d2 p u by (simp add: write_last_def Let_def word_less_nat_alt)
    moreover have "insert (unat e) S = S \<union> {unat s + k..<Suc (unat e)}" using k by auto
    ultimately show ?thesis using k e1 d2 lba
      by (intro exI [of _ "e - 1"] exI [of _ d2] exI [of _ k]) simp
  qed
qed

lemma write_ata_law:
  assumes "ide_contract P (ucast (io_base dev)) view delay" and "ata_dev_ok dev" and "length tmp = 512"
    and "0 < unat sz" and "unat off + unat sz < 2 ^ 32" and "unat off + unat sz \<le> unat (ata_max_offset dev)" and "length bs = unat sz"
  shows "keeps_to_buffer (unat off) (unat sz) \<Longrightarrow>
      \<exists>d'. write_ata P tmp dev off sz bs d = Some (sz, d') \<and> sector view dev d' = patched (sector view dev d) (unat off) bs
        \<and> ide_sectors (view d') (\<not> drive_of dev) = ide_sectors (view d) (\<not> drive_of dev)"
    and "\<not> keeps_to_buffer (unat off) (unat sz) \<Longrightarrow> write_ata P tmp dev off sz bs d = None"
proof -
  note c = assms(1) and ok = assms(2) and q = request_words [OF assms(4-6)]
  let ?a = "unat off" and ?n = "unat sz" and ?e = "(off + sz - 1) div 512"
  let ?D = "ide_sectors (view d)"
  have p0: "progress view dev ?D ?a bs {} d" by (simp add: progress_def)
  have n32: "length bs < 2 ^ 32" using assms(5,7) by simp
  note first = write_first_law [OF c ok assms(3) p0, unfolded assms(7)]
  have fits: "\<exists>s x d1. write_first P tmp dev off bs d = Some (s, x, d1) \<and> unat s = (?a + 511) div 512
      \<and> 512 * unat s = ?a + unat x \<and> unat x \<le> ?n \<and> progress view dev ?D ?a bs {?a div 512..<unat s} d1"
    if "?a mod 512 = 0 \<or> 512 - ?a mod 512 \<le> ?n"
    using first(1) [OF that] .
  {
    assume k: "keeps_to_buffer ?a ?n"
    then have keeps: "(?a + ?n) mod 512 = 0 \<or> (?a + 511) div 512 < unat ?e" by (simp add: keeps_to_buffer_def q(5))
    have "?a mod 512 = 0 \<or> 512 - ?a mod 512 \<le> ?n" using keeps_prefix [OF assms(4)] k by (metis not_le)
    then obtain s x d1 where 1: "write_first P tmp dev off bs d = Some (s, x, d1)" "unat s = (?a + 511) div 512"
        "512 * unat s = ?a + unat x" "unat x \<le> ?n" "progress view dev ?D ?a bs {?a div 512..<unat s} d1"
      using fits by fastforce
    have k1: "(?a + ?n) mod 512 = 0 \<or> unat s < unat ?e" using keeps 1(2) by simp
    have S1: "{?a div 512..<unat s} \<subseteq> {..<unat s}" by auto
    obtain e2 d2 k where 2: "write_last P tmp dev off sz s ?e bs d1 = Some (e2, d2)" "unat e2 < 2 ^ 28" "unat s + k = unat e2 + 1"
        "unat x + 512 * k \<le> ?n" "progress view dev ?D ?a bs ({?a div 512..<unat s} \<union> {unat s + k..<Suc (unat ?e)}) d2"
      using write_last_law [OF c ok assms(3,7) 1(5) S1 assms(4,5) 1(3,4) q(5) k1] by blast
    obtain d3 where 3: "write_sectors P tmp dev s e2 x bs d2 = Some d3"
        "progress view dev ?D ?a bs ({?a div 512..<unat s} \<union> {unat s + k..<Suc (unat ?e)} \<union> {unat s..<unat s + k}) d3"
      using write_sectors_law [OF c ok assms(3) 2(2,3) 1(3) 2(4) [folded assms(7)] n32 2(5)] by blast
    have "(?a + ?n + 511) div 512 = Suc (unat ?e)"
      using div_add_self2 [of 512 "?a + ?n - 1"] assms(4) by (simp add: q(5))
    then have "{?a div 512..<(?a + length bs + 511) div 512} \<subseteq> {?a div 512..<unat s} \<union> {unat s + k..<Suc (unat ?e)} \<union> {unat s..<unat s + k}"
      using assms(7) by auto
    then have "sector view dev d3 = patched (?D (drive_of dev)) ?a bs"
      using progress_all [OF 3(2)] contract_length [OF c] by blast
    then show "\<exists>d'. write_ata P tmp dev off sz bs d = Some (sz, d') \<and> sector view dev d' = patched (sector view dev d) ?a bs
        \<and> ide_sectors (view d') (\<not> drive_of dev) = ide_sectors (view d) (\<not> drive_of dev)"
      using 1 2 3 q(1,2) by (intro exI [of _ d3]) (simp add: write_ata_def Let_def progress_def)
  next
    assume "\<not> keeps_to_buffer ?a ?n"
    then have out: "(?a + ?n) mod 512 \<noteq> 0" "unat ?e \<le> (?a + 511) div 512" by (simp_all add: keeps_to_buffer_def q(5))
    show "write_ata P tmp dev off sz bs d = None"
    proof (cases "?a mod 512 = 0 \<or> 512 - ?a mod 512 \<le> ?n")
      case False
      then show ?thesis using first(2) q(1,2) by (simp add: write_ata_def Let_def)
    next
      case True
      then obtain s x d1 where 1: "write_first P tmp dev off bs d = Some (s, x, d1)" "unat s = (?a + 511) div 512"
          "512 * unat s = ?a + unat x" "unat x \<le> ?n"
        using fits by fastforce
      have one: "unat ?e = unat s" "?n < unat x + 512"
        using one_sector_left [OF 1(3,4) assms(4) out(1)] out(2) q(5) 1(2) by simp_all
      have lba: "unat s < 2 ^ 28" using one(1) q(5) assms(5) by simp
      have "write_sectors P tmp dev s ?e x bs d1 = None"
        using write_retry_law(2) [OF c lba ok assms(3), of bs "unat x" d1] one assms(7)
        by (subst write_sectors.simps) (simp add: word_le_nat_alt)
      then show ?thesis using 1(1) one(1) q(1,2) by (simp add: write_ata_def Let_def write_last_def word_less_nat_alt)
    qed
  }
qed

text \<open>A read of what was written, and of anything else.\<close>

lemma disk_bytes_patched:
  assumes "b + n < 2 ^ 32"
  shows "disk_bytes (patched D a bs) b n = map (\<lambda>i. if a \<le> b + i \<and> b + i < a + length bs then bs ! (b + i - a) else disk_byte D (b + i)) [0..<n]"
proof -
  have "disk_byte (patched D a bs) p = (if a \<le> p \<and> p < a + length bs then bs ! (p - a) else disk_byte D p)" if "p < 2 ^ 32" for p
  proof -
    have "unat (of_nat (p div 512) :: u32) = p div 512" using that by (intro unat_of_nat_small) simp
    then show ?thesis by (simp add: disk_byte_def nth_patched)
  qed
  then show ?thesis using assms by (simp add: disk_bytes_def)
qed

end
