(* ===== verification/Interrupts.thy ===== *)
theory Interrupts
  imports Prelude
begin

text \<open>
  Interrupts, \<^verbatim>\<open>src/src/arch/x86\<close>: the nesting of disabled sections, the chains of handlers of the interrupt lines and the
  acknowledgements to the two controllers (\<^verbatim>\<open>irq/irq.cpp\<close>), and the descriptors of segments and gates (\<^verbatim>\<open>gdt/gdt.cpp\<close>,
  \<^verbatim>\<open>idt/idt.cpp\<close>).  The state is the interrupt flag of the processor, the variables of \<^verbatim>\<open>irq.cpp\<close> and the commands sent to the
  controllers, the last one last.  A handler is an address; what a call of it does is a parameter.
\<close>

section \<open>Disabled sections\<close>

record irq_state =
  interrupt_flag :: bool
  sync_depth :: u32
  irq_routines :: "ptr list"
  irq_commands :: "u16 list"

definition int_disable :: "irq_state \<Rightarrow> irq_state" where
  "int_disable K = (if interrupt_flag K then K\<lparr>interrupt_flag := False, sync_depth := 1\<rparr>
     else K\<lparr>sync_depth := sync_depth K + 1\<rparr>)"

definition int_enable :: "irq_state \<Rightarrow> irq_state" where
  "int_enable K = K\<lparr>sync_depth := 0, interrupt_flag := True\<rparr>"

definition int_resume :: "irq_state \<Rightarrow> irq_state" where
  "int_resume K = (if sync_depth K = 0 \<or> sync_depth K = 1 then K\<lparr>interrupt_flag := True\<rparr>
     else K\<lparr>sync_depth := sync_depth K - 1\<rparr>)"

section \<open>Handlers\<close>

text \<open>The table has four rows of sixteen lines; an index is computed in 32 bits.\<close>

definition routine_at :: "nat \<Rightarrow> u32 \<Rightarrow> nat" where
  "routine_at i irq_num = unat (of_nat i * 16 + irq_num)"

fun install_from :: "nat list \<Rightarrow> u32 \<Rightarrow> ptr \<Rightarrow> irq_state \<Rightarrow> irq_state option" where
  "install_from [] irq_num h K = Some K"
| "install_from (i # is) irq_num h K = (let a = routine_at i irq_num in
     if length (irq_routines K) \<le> a then None
     else if irq_routines K ! a \<noteq> 0 then install_from is irq_num h K
     else Some (K\<lparr>irq_routines := (irq_routines K)[a := h]\<rparr>))"

definition irq_install_handler :: "u32 \<Rightarrow> ptr \<Rightarrow> irq_state \<Rightarrow> irq_state option" where
  "irq_install_handler irq_num h K = do {
     K \<leftarrow> install_from [0, 1, 2, 3] irq_num h (K\<lparr>interrupt_flag := False\<rparr>);
     Some (K\<lparr>interrupt_flag := True\<rparr>) }"

fun uninstall_from :: "nat list \<Rightarrow> u32 \<Rightarrow> irq_state \<Rightarrow> irq_state option" where
  "uninstall_from [] irq_num K = Some K"
| "uninstall_from (i # is) irq_num K = (let a = routine_at i irq_num in
     if length (irq_routines K) \<le> a then None
     else uninstall_from is irq_num (K\<lparr>irq_routines := (irq_routines K)[a := 0]\<rparr>))"

definition irq_uninstall_handler :: "u32 \<Rightarrow> irq_state \<Rightarrow> irq_state option" where
  "irq_uninstall_handler irq_num K = do {
     K \<leftarrow> uninstall_from [0, 1, 2, 3] irq_num (K\<lparr>interrupt_flag := False\<rparr>);
     Some (K\<lparr>interrupt_flag := True\<rparr>) }"

definition irq_ack :: "u32 \<Rightarrow> irq_state \<Rightarrow> irq_state" where
  "irq_ack irq_num K = K\<lparr>irq_commands := irq_commands K @ (if irq_num \<ge> 8 then [0xA0] else []) @ [0x20]\<rparr>"

text \<open>The loop of \<^verbatim>\<open>irq_handler\<close> over a line; its result says whether a handler took the interrupt.\<close>

fun run_chain :: "(ptr \<Rightarrow> irq_state \<Rightarrow> bool \<times> irq_state) \<Rightarrow> nat list \<Rightarrow> u32 \<Rightarrow> irq_state \<Rightarrow> (bool \<times> irq_state) option" where
  "run_chain call [] irq_num K = Some (False, K)"
| "run_chain call (i # is) irq_num K = (let a = routine_at i irq_num in
     if length (irq_routines K) \<le> a then None
     else let h = irq_routines K ! a in
       if h = 0 then run_chain call is irq_num K
       else (let (taken, K) = call h K in if taken then Some (True, K) else run_chain call is irq_num K))"

definition irq_is_valid :: "u32 \<Rightarrow> bool" where
  "irq_is_valid int_no \<longleftrightarrow> int_no \<ge> 32 \<and> int_no \<le> 47"

definition irq_handler :: "(ptr \<Rightarrow> irq_state \<Rightarrow> bool \<times> irq_state) \<Rightarrow> u32 \<Rightarrow> irq_state \<Rightarrow> irq_state option" where
  "irq_handler call int_no K = do {
     let K = int_disable K;
     K \<leftarrow> (if irq_is_valid int_no then do {
         (taken, K) \<leftarrow> run_chain call [0, 1, 2, 3] (int_no - 32) K;
         Some (if taken then K else irq_ack (int_no - 32) K) }
       else Some K);
     Some (int_resume (irq_ack (int_no - 32) K)) }"

section \<open>Descriptors\<close>

record gdt_entry =
  gdt_limit_low :: u16
  gdt_base_low :: u16
  gdt_base_middle :: u8
  gdt_access :: u8
  gdt_granularity :: u8
  gdt_base_high :: u8

definition gdt_set_gate :: "u8 \<Rightarrow> 64 word \<Rightarrow> 64 word \<Rightarrow> u8 \<Rightarrow> u8 \<Rightarrow> gdt_entry list \<Rightarrow> gdt_entry list option" where
  "gdt_set_gate num base limit access gran T = (if length T \<le> unat num then None else Some (T[unat num := \<lparr>
     gdt_limit_low = ucast (limit AND 0xFFFF), gdt_base_low = ucast (base AND 0xFFFF),
     gdt_base_middle = ucast (drop_bit 16 base AND 0xFF), gdt_access = access,
     gdt_granularity = ucast (drop_bit 16 limit AND 0x0F) OR (gran AND 0xF0),
     gdt_base_high = ucast (drop_bit 24 base AND 0xFF)\<rparr>]))"

record idt_entry =
  idt_base_low :: u16
  idt_sel :: u16
  idt_zero :: u8
  idt_flags :: u8
  idt_base_high :: u16

definition idt_set_gate :: "u8 \<Rightarrow> u32 \<Rightarrow> u16 \<Rightarrow> u8 \<Rightarrow> idt_entry list \<Rightarrow> idt_entry list option" where
  "idt_set_gate num isr_addr sel flags T = (if length T \<le> unat num then None else Some (T[unat num := \<lparr>
     idt_base_low = ucast (isr_addr AND 0xFFFF), idt_sel = sel, idt_zero = 0, idt_flags = flags OR 0x60,
     idt_base_high = ucast (drop_bit 16 isr_addr AND 0xFFFF)\<rparr>]))"

section \<open>Sections nest\<close>

datatype section_op = Disable | Resume

fun section_run :: "section_op list \<Rightarrow> irq_state \<Rightarrow> irq_state" where
  "section_run [] K = K"
| "section_run (Disable # ops) K = section_run ops (int_disable K)"
| "section_run (Resume # ops) K = section_run ops (int_resume K)"

text \<open>How many sections are open after the operations, when every one that is closed has been opened.\<close>

fun open_sections :: "nat \<Rightarrow> section_op list \<Rightarrow> nat option" where
  "open_sections n [] = Some n"
| "open_sections n (Disable # ops) = open_sections (Suc n) ops"
| "open_sections 0 (Resume # ops) = None"
| "open_sections (Suc n) (Resume # ops) = open_sections n ops"

text \<open>\<open>s\<close> sections were open before; with none and the flag set the count is not used.\<close>

definition nested :: "nat \<Rightarrow> nat \<Rightarrow> irq_state \<Rightarrow> bool" where
  "nested s n K \<longleftrightarrow> (if s = 0 \<and> n = 0 then interrupt_flag K else \<not> interrupt_flag K \<and> sync_depth K = of_nat (s + n))"

lemma nested_step:
  assumes "s + n < 2 ^ 32 - 1"
  shows "nested s n K \<Longrightarrow> nested s (Suc n) (int_disable K)" and "nested s (Suc n) K \<Longrightarrow> nested s n (int_resume K)"
proof -
  show "nested s n K \<Longrightarrow> nested s (Suc n) (int_disable K)"
    using assms by (auto simp: nested_def int_disable_def split: if_splits)
  have z: "(of_nat (s + Suc n) :: u32) \<noteq> 0" using assms of_nat_eq_0_iff_small [of "s + Suc n", where 'a = 32] by simp
  have "(of_nat (s + Suc n) :: u32) = 1 \<longleftrightarrow> s + n = 0"
    using assms of_nat_eq_0_iff_small [of "s + n", where 'a = 32] by simp
  with z show "nested s (Suc n) K \<Longrightarrow> nested s n (int_resume K)"
    by (auto simp: nested_def int_resume_def split: if_splits)
qed

lemma nested_run:
  "nested s n K \<Longrightarrow> open_sections n ops = Some m \<Longrightarrow> s + n + length ops < 2 ^ 32 - 1 \<Longrightarrow> nested s m (section_run ops K)"
proof (induction n ops arbitrary: K rule: open_sections.induct)
  case (2 n ops)
  then show ?case using nested_step(1) [of s n K] by simp
next
  case (4 n ops)
  then show ?case using nested_step(2) [of s n K] by simp
qed simp_all

lemma open_sections_bound: "open_sections k ops = Some m \<Longrightarrow> m \<le> k + length ops"
  by (induction k ops rule: open_sections.induct) auto

section \<open>Chains\<close>

text \<open>The handlers of a line, the first installed first.\<close>

definition line_handlers :: "irq_state \<Rightarrow> u32 \<Rightarrow> ptr list \<Rightarrow> bool" where
  "line_handlers K k hs \<longleftrightarrow> length (irq_routines K) = 64 \<and> length hs \<le> 4 \<and> 0 \<notin> set hs \<and>
     (\<forall>i<4. irq_routines K ! (i * 16 + unat k) = (if i < length hs then hs ! i else 0))"

lemma routine_at_line: "i < 4 \<Longrightarrow> unat k < 16 \<Longrightarrow> routine_at i k = i * 16 + unat k"
  by (simp add: routine_at_def unat_word_ariths unat_of_nat_small)

lemma slot_line:
  fixes k k' :: u32
  assumes "i * 16 + unat k = j * 16 + unat k'" and "unat k < 16" and "unat k' < 16"
  shows "k = k'"
proof -
  have "(i * 16 + unat k) mod 16 = (j * 16 + unat k') mod 16" using assms(1) by simp
  then show ?thesis using assms(2,3) by (simp add: word_unat_eq_iff)
qed

lemma line_handlers_other:
  assumes "line_handlers K k' hs" and "unat k < 16" and "unat k' < 16" and "k \<noteq> k'"
  shows "line_handlers (K\<lparr>irq_routines := (irq_routines K)[i * 16 + unat k := h]\<rparr>) k' hs"
proof -
  have "i * 16 + unat k \<noteq> j * 16 + unat k'" for j using slot_line [OF _ assms(2,3)] assms(4) by blast
  then show ?thesis using assms(1) by (simp add: line_handlers_def)
qed

lemma install_first_free:
  assumes "line_handlers K k hs" and "unat k < 16"
  shows "install_from [0, 1, 2, 3] k h K = Some (if length hs < 4 then K\<lparr>irq_routines := (irq_routines K)[length hs * 16 + unat k := h]\<rparr> else K)"
proof -
  have slot: "irq_routines K ! (i * 16 + unat k) = (if i < length hs then hs ! i else 0)" "length (irq_routines K) = 64" if "i < 4" for i
    using assms(1) that by (simp_all add: line_handlers_def)
  have nz: "hs ! i \<noteq> 0" if "i < length hs" for i using assms(1) that unfolding line_handlers_def by (metis nth_mem)
  have at: "routine_at 0 k = unat k" "routine_at (Suc 0) k = 16 + unat k" "routine_at 2 k = 32 + unat k" "routine_at 3 k = 48 + unat k"
    using assms(2) routine_at_line [of 1 k] by (simp_all add: routine_at_line)
  have s: "irq_routines K ! unat k = (if 0 < length hs then hs ! 0 else 0)" "irq_routines K ! (16 + unat k) = (if 1 < length hs then hs ! 1 else 0)"
    "irq_routines K ! (32 + unat k) = (if 2 < length hs then hs ! 2 else 0)" "irq_routines K ! (48 + unat k) = (if 3 < length hs then hs ! 3 else 0)"
    using slot(1) [of 0] slot(1) [of 1] slot(1) [of 2] slot(1) [of 3] by simp_all
  have len: "length hs \<le> 4" "length (irq_routines K) = 64" using assms(1) by (simp_all add: line_handlers_def)
  then consider "length hs = 0" | "length hs = 1" | "length hs = 2" | "length hs = 3" | "length hs = 4" by linarith
  then show ?thesis
    by cases (use assms(2) len nz in \<open>simp_all add: Let_def at s\<close>)
qed

lemma install_law:
  assumes "line_handlers K k hs" and "unat k < 16" and "h \<noteq> 0"
  shows "\<exists>K'. irq_install_handler k h K = Some K' \<and> line_handlers K' k (take 4 (hs @ [h])) \<and> interrupt_flag K'
    \<and> (\<forall>k' hs'. unat k' < 16 \<longrightarrow> k' \<noteq> k \<longrightarrow> line_handlers K k' hs' \<longrightarrow> line_handlers K' k' hs')"
proof -
  let ?K = "K\<lparr>interrupt_flag := False\<rparr>"
  have l: "line_handlers ?K k hs" using assms(1) by (simp add: line_handlers_def)
  let ?L = "if length hs < 4 then ?K\<lparr>irq_routines := (irq_routines ?K)[length hs * 16 + unat k := h]\<rparr> else ?K"
  have "irq_install_handler k h K = Some (?L\<lparr>interrupt_flag := True\<rparr>)"
    using install_first_free [OF l assms(2), of h] by (simp add: irq_install_handler_def)
  moreover have "line_handlers (?L\<lparr>interrupt_flag := True\<rparr>) k (take 4 (hs @ [h]))"
    using assms by (auto simp: line_handlers_def nth_list_update nth_append less_Suc_eq)
  moreover have "line_handlers (?L\<lparr>interrupt_flag := True\<rparr>) k' hs'" if "unat k' < 16" "k' \<noteq> k" "line_handlers K k' hs'" for k' hs'
    using line_handlers_other [OF that(3) assms(2) that(1), of "length hs" h] that(2,3) by (auto simp: line_handlers_def)
  ultimately show ?thesis by (intro exI conjI) (assumption | simp)+
qed

text \<open>The handlers of a line are asked in their order, until one takes the interrupt.\<close>

fun ask :: "(ptr \<Rightarrow> irq_state \<Rightarrow> bool \<times> irq_state) \<Rightarrow> ptr list \<Rightarrow> irq_state \<Rightarrow> bool \<times> irq_state" where
  "ask call [] K = (False, K)"
| "ask call (h # hs) K = (let (taken, K) = call h K in if taken then (True, K) else ask call hs K)"

lemma run_chain_law:
  assumes "line_handlers K k hs" and "unat k < 16" and "\<And>h K. irq_routines (snd (call h K)) = irq_routines K"
  shows "run_chain call [0, 1, 2, 3] k K = Some (ask call hs K)"
proof -
  have "run_chain call (map (\<lambda>i. i) [j..<4]) k K' = Some (ask call (drop j hs) K')" if "j \<le> 4" "line_handlers K' k hs" for j K'
    using that
  proof (induction "4 - j" arbitrary: j K')
    case 0
    then show ?case by (simp add: line_handlers_def)
  next
    case (Suc n)
    then have j: "j < 4" by simp
    have u: "[j..<4] = j # [Suc j..<4]" using j by (simp add: upt_conv_Cons)
    have slot: "irq_routines K' ! (j * 16 + unat k) = (if j < length hs then hs ! j else 0)" "length (irq_routines K') = 64" "0 \<notin> set hs"
      using Suc.prems(2) j by (simp_all add: line_handlers_def)
    have in_range: "\<not> length (irq_routines K') \<le> routine_at j k" using assms(2) j slot(2) by (simp add: routine_at_line)
    show ?case
    proof (cases "j < length hs")
      case False
      have "run_chain call (map (\<lambda>i. i) [Suc j..<4]) k K' = Some (ask call (drop (Suc j) hs) K')"
        by (rule Suc.hyps(1)) (use Suc.hyps(2) Suc.prems j in simp_all)
      then show ?thesis using False u slot in_range by (simp add: Let_def routine_at_line [OF j assms(2)])
    next
      case True
      obtain t K2 where c: "call (hs ! j) K' = (t, K2)" by (cases "call (hs ! j) K'")
      have "line_handlers K2 k hs" using Suc.prems(2) assms(3) [of "hs ! j" K'] c by (simp add: line_handlers_def)
      then have "run_chain call (map (\<lambda>i. i) [Suc j..<4]) k K2 = Some (ask call (drop (Suc j) hs) K2)"
        by (intro Suc.hyps(1)) (use Suc.hyps(2) j in simp_all)
      moreover have "drop j hs = hs ! j # drop (Suc j) hs" using True by (simp add: Cons_nth_drop_Suc)
      moreover have "hs ! j \<noteq> 0" using True slot(3) by (metis nth_mem)
      ultimately show ?thesis using True u slot in_range c by (simp add: Let_def routine_at_line [OF j assms(2)])
    qed
  qed
  from this [of 0 K] assms(1) show ?thesis by (simp add: numeral_eq_Suc upt_rec)
qed

end
