(* ===== verification/Clock.thy ===== *)
theory Clock
  imports Ata Hashmap
begin

text \<open>
  The clocks: the date in \<^verbatim>\<open>src/src/time.h\<close>, the CMOS clock \<^verbatim>\<open>src/src/modules/clock/cmos.cpp\<close> behind its two ports, and the
  timer \<^verbatim>\<open>src/src/modules/clock/pit.cpp\<close> with the services it calls.  The callbacks are hash maps from names to addresses;
  the result of a handler is the list of the addresses it calls.
\<close>

section \<open>Dates\<close>

function years_loop :: "int \<Rightarrow> u32 \<Rightarrow> u32" where
  "years_loop years days = (if years > 1969
     then years_loop (years - 1) (let days = days + 365 in
       if years mod 4 = 0 then if years mod 100 = 0 then if years mod 400 = 0 then days + 1 else days else days + 1 else days)
     else days)"
  by pat_completeness auto
termination by (relation "measure (\<lambda>(y, d). nat (y - 1969))") auto

declare years_loop.simps [simp del]

definition time_secs_of_years :: "int \<Rightarrow> u32" where
  "time_secs_of_years years = years_loop (years + 2000) 0 * 86400"

text \<open>The cases of the \<^verbatim>\<open>switch\<close> fall through to the ones below them.\<close>

definition time_secs_of_month :: "int \<Rightarrow> int \<Rightarrow> u32" where
  "time_secs_of_month months year = (let year = year + 2000; from = (\<lambda>k n. if k \<le> months \<and> months \<le> 11 then n else (0 :: u32)) in
     (from 11 30 + from 10 31 + from 9 30 + from 8 31 + from 7 31 + from 6 30 + from 5 31 + from 4 30 + from 3 31
      + from 2 (28 + (if year mod 4 = 0 \<and> (year mod 100 \<noteq> 0 \<or> year mod 400 = 0) then 1 else 0)) + from 1 31) * 86400)"

section \<open>The CMOS clock\<close>

text \<open>The loop of \<^verbatim>\<open>cmos_cmd\<close> over \<open>n\<close> registers from \<open>i\<close> on; without data it reads.\<close>

fun cmos_loop :: "'d ports \<Rightarrow> nat \<Rightarrow> nat \<Rightarrow> u8 list \<Rightarrow> bool \<Rightarrow> u8 list \<Rightarrow> 'd \<Rightarrow> (u8 list \<times> 'd) option" where
  "cmos_loop P 0 i data reading mem d = Some (mem, d)"
| "cmos_loop P (Suc n) i data reading mem d = (let d = port_out P 0x70 (0x80 OR of_nat i) d in
     if reading then (let (v, d) = port_in P 0x71 d in do { mem \<leftarrow> wr8 i v mem; cmos_loop P n (Suc i) data reading mem d })
     else (case data of [] \<Rightarrow> None
       | b # bs \<Rightarrow> (let d = port_out P 0x71 b d in
           if bs = [] then Some (mem, d) else cmos_loop P n (Suc i) bs reading mem d)))"

text \<open>The addresses are bytes, so that the test for \<open>- 1\<close> never holds.\<close>

definition cmos_cmd :: "'d ports \<Rightarrow> u8 \<Rightarrow> u8 \<Rightarrow> u8 list \<Rightarrow> u8 list \<Rightarrow> 'd \<Rightarrow> (u8 list \<times> 'd) option" where
  "cmos_cmd P start_addr end_addr data mem d = cmos_loop P (unat end_addr - unat start_addr) (unat start_addr) data (data = []) mem d"

definition cmos_read :: "'d ports \<Rightarrow> u8 \<Rightarrow> u8 list \<Rightarrow> 'd \<Rightarrow> (u8 \<times> u8 list \<times> 'd) option" where
  "cmos_read P r mem d = do { (mem, d) \<leftarrow> cmos_cmd P r (r + 1) [] mem d; v \<leftarrow> rd8 mem (unat r); Some (v, mem, d) }"

definition cmos_write :: "'d ports \<Rightarrow> u8 \<Rightarrow> u8 \<Rightarrow> u8 list \<Rightarrow> 'd \<Rightarrow> (u8 list \<times> 'd) option" where
  "cmos_write P r v mem d = cmos_cmd P r (r + 1) [v] mem d"

definition bcd_to_bin :: "u8 \<Rightarrow> u32" where
  "bcd_to_bin v = ucast v div 16 * 10 + (ucast v AND 0xF)"

record rtc_date =
  t_sec :: u8
  t_min :: u8
  t_hour :: u8
  t_weekday :: u8
  t_monthday :: u8
  t_month :: u8
  t_year :: u16

definition rtc_get_time :: "'d ports \<Rightarrow> u8 list \<Rightarrow> 'd \<Rightarrow> (rtc_date \<times> u8 list \<times> 'd) option" where
  "rtc_get_time P mem d = do {
     (mem, d) \<leftarrow> cmos_cmd P 0 9 [] mem d;
     s \<leftarrow> rd8 mem 0; m \<leftarrow> rd8 mem 2; h \<leftarrow> rd8 mem 4; w \<leftarrow> rd8 mem 6; md \<leftarrow> rd8 mem 7; mo \<leftarrow> rd8 mem 8; y \<leftarrow> rd8 mem 9;
     Some (\<lparr>t_sec = ucast (bcd_to_bin s), t_min = ucast (bcd_to_bin m), t_hour = ucast (bcd_to_bin h), t_weekday = ucast (bcd_to_bin w),
       t_monthday = ucast (bcd_to_bin md), t_month = ucast (bcd_to_bin mo), t_year = ucast (bcd_to_bin y)\<rparr>, mem, d) }"

definition rtc_get_time_secs :: "'d ports \<Rightarrow> u8 list \<Rightarrow> 'd \<Rightarrow> (u32 \<times> u8 list \<times> 'd) option" where
  "rtc_get_time_secs P mem d = do {
     (mem, d) \<leftarrow> cmos_cmd P 0 9 [] mem d;
     s \<leftarrow> rd8 mem 0; m \<leftarrow> rd8 mem 2; h \<leftarrow> rd8 mem 4; md \<leftarrow> rd8 mem 7; mo \<leftarrow> rd8 mem 8; y \<leftarrow> rd8 mem 9;
     Some (time_secs_of_years (sint (bcd_to_bin y) - 1) + time_secs_of_month (sint (bcd_to_bin mo) - 1) (sint (bcd_to_bin y))
       + (bcd_to_bin md - 1) * 86400 + bcd_to_bin h * 3600 + bcd_to_bin m * 60 + bcd_to_bin s, mem, d) }"

text \<open>Callbacks of the clock; the handler takes the entry at position \<open>i\<close> of slot \<open>i\<close>.\<close>

record rtc =
  rtc_cbacks :: "(cstring, ptr) hashmap"
  rtc_cback_count :: int

definition rtc_install_cback :: "cstring \<Rightarrow> ptr option \<Rightarrow> rtc \<Rightarrow> rtc option" where
  "rtc_install_cback name a R = do {
     present \<leftarrow> hashmap_has (rtc_cbacks R) name;
     if present then Some R else do {
       (_, m) \<leftarrow> hashmap_set (rtc_cbacks R) name a;
       Some (R\<lparr>rtc_cback_count := rtc_cback_count R + 1, rtc_cbacks := m\<rparr>) } }"

definition rtc_uninstall_cback :: "cstring \<Rightarrow> rtc \<Rightarrow> rtc option" where
  "rtc_uninstall_cback name R = (if rtc_cback_count R = 0 then Some R else do {
     (_, m) \<leftarrow> hashmap_remove (rtc_cbacks R) name;
     Some (R\<lparr>rtc_cback_count := rtc_cback_count R - 1, rtc_cbacks := m\<rparr>) })"

fun rtc_calls :: "(cstring, ptr) hashmap \<Rightarrow> nat \<Rightarrow> nat \<Rightarrow> ptr list option" where
  "rtc_calls m i 0 = Some []"
| "rtc_calls m i (Suc n) = do { a \<leftarrow> hashmap_get_i m (int i); f \<leftarrow> a; fs \<leftarrow> rtc_calls m (Suc i) n; Some (f # fs) }"

definition rtc_handler :: "'d ports \<Rightarrow> rtc \<Rightarrow> u8 list \<Rightarrow> 'd \<Rightarrow> (ptr list \<times> u8 list \<times> 'd) option" where
  "rtc_handler P R mem d = do {
     fs \<leftarrow> rtc_calls (rtc_cbacks R) 0 (nat (rtc_cback_count R));
     (_, mem, d) \<leftarrow> cmos_read P 0x0C mem d;
     Some (fs, mem, d) }"

definition rtc_enable_irq :: "'d ports \<Rightarrow> u8 list \<Rightarrow> 'd \<Rightarrow> (u8 list \<times> 'd) option" where
  "rtc_enable_irq P mem d = do { (v, mem, d) \<leftarrow> cmos_read P 0x0B mem d; cmos_write P 0x0B (v AND 0xF0 OR 0x40) mem d }"

definition rtc_set_frequency :: "'d ports \<Rightarrow> u8 \<Rightarrow> u8 list \<Rightarrow> 'd \<Rightarrow> (u8 list \<times> 'd) option" where
  "rtc_set_frequency P rate mem d = (let rate = (if rate <s 0 then 0 else rate); rate = (if 15 <s rate then 15 else rate) in do {
     (v, mem, d) \<leftarrow> cmos_read P 0x0A mem d;
     (mem, d) \<leftarrow> cmos_write P 0x0A (v AND 0xF0 OR (0xF - rate) AND 0xF) mem d;
     rtc_enable_irq P mem d })"

section \<open>The timer\<close>

text \<open>A command to one of the three counters: its value is written, or read, low byte first.\<close>

definition pit_cmd :: "'d ports \<Rightarrow> u8 \<Rightarrow> u8 \<Rightarrow> u8 \<Rightarrow> u8 \<Rightarrow> u32 \<Rightarrow> bool \<Rightarrow> 'd \<Rightarrow> u32 \<times> 'd" where
  "pit_cmd P channel access_mode operation_mode data_mode send_data reading d =
     (let port = 0x43 - (3 - ((if reading then operation_mode else channel) AND 0x3)) in
      if port = 0x43 \<and> \<not> reading then (- 1, d)
      else let d = port_out P 0x43 (data_mode AND 0x1 OR push_bit 6 (channel AND 0x3) OR push_bit 1 (operation_mode AND 0x7)
             OR push_bit 4 (access_mode AND 0x3)) d in
        if reading then (let (lo, d) = port_in P (ucast port) d; (hi, d) = port_in P (ucast port) d in
          (ucast lo OR push_bit 8 (ucast hi), d))
        else (- 1, port_out P (ucast port) (ucast (drop_bit 8 (send_data AND 0xFF00)))
          (port_out P (ucast port) (ucast (send_data AND 0xFF)) d)))"

record pit =
  pit_servicing :: bool
  pit_cbacks :: "(cstring, ptr) hashmap"
  pit_cback_count :: u16
  current_hz :: u32
  pit_ticks :: u32
  pit_subticks :: u32
  services_names :: "cstring option list"
  next_available_service :: u16

definition pit_sethz :: "'d ports \<Rightarrow> u32 \<Rightarrow> pit \<times> 'd \<Rightarrow> pit \<times> 'd" where
  "pit_sethz P hz Kd = (case Kd of (K, d) \<Rightarrow> if 1 \<le>s hz \<and> hz <s 1193180
     then (K\<lparr>current_hz := hz\<rparr>, snd (pit_cmd P 0 3 3 0 (1193180 div hz) False d)) else (K, d))"

text \<open>The state that \<^verbatim>\<open>pit_init\<close> sets up.\<close>

definition pit_init :: "'d ports \<Rightarrow> 'd \<Rightarrow> pit \<times> 'd" where
  "pit_init P d = pit_sethz P 1000 (\<lparr>pit_servicing = True, pit_cbacks = hashmap_create 16, pit_cback_count = 0, current_hz = 0,
     pit_ticks = 0, pit_subticks = 0, services_names = replicate 16 None, next_available_service = 0\<rparr>, d)"

definition pit_count :: "pit \<Rightarrow> pit" where
  "pit_count K = (let K = K\<lparr>pit_subticks := pit_subticks K + 1\<rparr> in
     if pit_subticks K = current_hz K then K\<lparr>pit_ticks := pit_ticks K + 1, pit_subticks := 0\<rparr> else K)"

fun service_calls :: "(cstring, ptr) hashmap \<Rightarrow> cstring option list \<Rightarrow> ptr list option" where
  "service_calls m [] = Some []"
| "service_calls m (n # ns) = do {
     name \<leftarrow> n;
     a \<leftarrow> hashmap_get m name;
     fs \<leftarrow> service_calls m ns;
     Some (case a of None \<Rightarrow> fs | Some f \<Rightarrow> if f = 0 then fs else f # fs) }"

definition pit_handler :: "pit \<Rightarrow> (ptr list \<times> pit) option" where
  "pit_handler K = (let K = pit_count K in
     if \<not> pit_servicing K then Some ([], K)
     else if length (services_names K) < unat (pit_cback_count K) then None
     else do { fs \<leftarrow> service_calls (pit_cbacks K) (take (unat (pit_cback_count K)) (services_names K)); Some (fs, K) })"

definition first_unused :: "'a option list \<Rightarrow> nat option" where
  "first_unused ns = (let i = length (takeWhile (\<lambda>n. n \<noteq> None) ns) in if i < length ns then Some i else None)"

definition pit_install_cback :: "cstring \<Rightarrow> ptr option \<Rightarrow> pit \<Rightarrow> pit option" where
  "pit_install_cback name a K = do {
     present \<leftarrow> hashmap_has (pit_cbacks K) name;
     if present \<or> pit_cback_count K \<ge> 16 then Some K else do {
       (_, m) \<leftarrow> hashmap_set (pit_cbacks K) name a;
       if length (services_names K) \<le> unat (next_available_service K) then None else do {
         let ns = (services_names K)[unat (next_available_service K) := Some name];
         Some (K\<lparr>pit_cbacks := m, services_names := ns,
           next_available_service := (case first_unused ns of None \<Rightarrow> next_available_service K | Some i \<Rightarrow> of_nat i),
           pit_cback_count := pit_cback_count K + 1\<rparr>) } } }"

text \<open>The search for the name compares with every slot before it, an unused one included.\<close>

fun find_service :: "cstring \<Rightarrow> cstring option list \<Rightarrow> nat \<Rightarrow> nat option option" where
  "find_service name [] i = Some None"
| "find_service name (n # ns) i = do { s \<leftarrow> n; if strcmp s name = 0 then Some (Some i) else find_service name ns (Suc i) }"

definition pit_uninstall_cback :: "cstring \<Rightarrow> pit \<Rightarrow> pit option" where
  "pit_uninstall_cback name K = (if pit_cback_count K = 0 then Some K
     else if length (services_names K) < unat (pit_cback_count K) then None else do {
       found \<leftarrow> find_service name (take (unat (pit_cback_count K)) (services_names K)) 0;
       let K = (case found of None \<Rightarrow> K | Some i \<Rightarrow> K\<lparr>services_names := (services_names K)[i := None],
         next_available_service := of_nat i, pit_cback_count := pit_cback_count K - 1\<rparr>);
       (_, m) \<leftarrow> hashmap_remove (pit_cbacks K) name;
       Some (K\<lparr>pit_cbacks := m\<rparr>) })"

definition relative_time :: "u32 \<Rightarrow> u32 \<Rightarrow> pit \<Rightarrow> u32 \<times> u32" where
  "relative_time seconds subseconds K = (if subseconds + pit_subticks K > current_hz K
     then (pit_ticks K + seconds + 1, subseconds + pit_subticks K - current_hz K)
     else (pit_ticks K + seconds, pit_subticks K + subseconds))"

end
