(* ===== verification/Clock_Laws.thy ===== *)
theory Clock_Laws
  imports Clock
begin

text \<open>
  The seconds of a date against the calendar, the count of the timer, and the services of a tick.
\<close>

section \<open>The calendar\<close>

definition leap :: "nat \<Rightarrow> bool" where
  "leap y \<longleftrightarrow> y mod 4 = 0 \<and> (y mod 100 \<noteq> 0 \<or> y mod 400 = 0)"

definition year_days :: "nat \<Rightarrow> nat" where
  "year_days y = (if leap y then 366 else 365)"

definition month_days :: "nat \<Rightarrow> nat \<Rightarrow> nat" where
  "month_days y m = (if m = 2 then (if leap y then 29 else 28) else if m \<in> {4, 6, 9, 11} then 30 else 31)"

text \<open>The days from the first of January 1970 to a date.\<close>

definition days_to :: "nat \<Rightarrow> nat \<Rightarrow> nat \<Rightarrow> nat" where
  "days_to y m d = (\<Sum>i\<in>{1970..<y}. year_days i) + (\<Sum>j\<leftarrow>[1..<m]. month_days y j) + (d - 1)"

lemma years_loop_law:
  "1969 \<le> y \<Longrightarrow> years_loop (int y) d = d + of_nat (\<Sum>i\<in>{1970..<Suc y}. year_days i)"
proof (induction "y - 1969" arbitrary: y d)
  case 0
  then show ?case by (subst years_loop.simps) simp
next
  case (Suc n)
  then obtain z where z: "y = Suc z" "1969 \<le> z" by (cases y) simp_all
  have "(\<Sum>i\<in>{1970..<Suc (Suc z)}. year_days i) = (\<Sum>i\<in>{1970..<Suc z}. year_days i) + year_days (Suc z)"
    using z(2) by (simp add: sum.atLeastLessThan_Suc)
  moreover have "int y mod 4 = 0 \<longleftrightarrow> y mod 4 = 0" "int y mod 100 = 0 \<longleftrightarrow> y mod 100 = 0" "int y mod 400 = 0 \<longleftrightarrow> y mod 400 = 0"
    by presburger+
  moreover have "int y - 1 = int z" "n = z - 1969" using z Suc.hyps(2) by simp_all
  ultimately show ?case
    using Suc.hyps(1) [of z] z Suc.hyps(2)
    by (subst years_loop.simps) (simp add: Let_def year_days_def leap_def algebra_simps)
qed

lemma secs_of_years_law:
  "time_secs_of_years (int y - 1) = of_nat (86400 * (\<Sum>i\<in>{1970..<2000 + y}. year_days i))"
proof -
  have "int y - 1 + 2000 = int (1999 + y)" by simp
  then show ?thesis
    using years_loop_law [of "1999 + y" 0] by (simp add: time_secs_of_years_def mult.commute)
qed

lemma secs_of_month_law:
  assumes "m \<le> 11"
  shows "time_secs_of_month (int m) (int y) = of_nat (86400 * (\<Sum>j\<leftarrow>[1..<Suc m]. month_days (2000 + y) j))"
proof -
  have leap: "(int y + 2000) mod 4 = 0 \<and> ((int y + 2000) mod 100 \<noteq> 0 \<or> (int y + 2000) mod 400 = 0) \<longleftrightarrow> leap (2000 + y)"
    unfolding leap_def by presburger
  have e: "{1..<Suc n} = (if n = 0 then {} else insert n {1..<n})" for n by auto
  consider "m = 0" | "m = 1" | "m = 2" | "m = 3" | "m = 4" | "m = 5" | "m = 6" | "m = 7" | "m = 8" | "m = 9" | "m = 10" | "m = 11"
    using assms by (fastforce simp: numeral_eq_Suc le_Suc_eq)
  then show ?thesis
    unfolding time_secs_of_month_def Let_def leap
    by cases (simp_all add: month_days_def upt_rec)
qed

section \<open>Reading the clock\<close>

text \<open>The clock does not advance while it is read: register \<open>i\<close> holds \<open>reg i\<close>.\<close>

definition cmos_holds :: "'d ports \<Rightarrow> (nat \<Rightarrow> u8) \<Rightarrow> bool" where
  "cmos_holds P reg \<longleftrightarrow> (\<forall>d i. i < 128 \<longrightarrow> fst (port_in P 0x71 (port_out P 0x70 (0x80 OR of_nat i) d)) = reg i)"

lemma cmos_loop_law:
  assumes "cmos_holds P reg" and "i + n \<le> 128" and "length mem = 128"
  shows "\<exists>d'. cmos_loop P n i [] True mem d = Some (map (\<lambda>j. if i \<le> j \<and> j < i + n then reg j else mem ! j) [0..<128], d')"
  using assms(2,3)
proof (induction n arbitrary: i mem d)
  case 0
  then show ?case by (auto intro!: nth_equalityI)
next
  case (Suc n)
  obtain v d1 where r: "port_in P 0x71 (port_out P 0x70 (0x80 OR of_nat i) d) = (v, d1)" by fastforce
  have i: "i < 128" using Suc.prems by simp
  then have "fst (port_in P 0x71 (port_out P 0x70 (0x80 OR of_nat i) d)) = reg i" using assms(1) by (simp add: cmos_holds_def)
  then have v: "v = reg i" using r by simp
  obtain d' where "cmos_loop P n (Suc i) [] True (mem[i := v]) d1 =
      Some (map (\<lambda>j. if Suc i \<le> j \<and> j < Suc i + n then reg j else mem[i := v] ! j) [0..<128], d')"
    using Suc.IH [of "Suc i" "mem[i := v]" d1] Suc.prems by auto
  moreover have "map (\<lambda>j. if Suc i \<le> j \<and> j < Suc i + n then reg j else mem[i := v] ! j) [0..<128]
      = map (\<lambda>j. if i \<le> j \<and> j < i + Suc n then reg j else mem ! j) [0..<128]"
    using v Suc.prems by (intro map_cong) (auto simp: nth_list_update)
  moreover have "wr8 i v mem = Some (mem[i := v])" using Suc.prems by (simp add: wr8_def)
  ultimately show ?case using r by (simp add: Let_def del: map_eq_conv)
qed

lemma bcd_bound: "unat (bcd_to_bin v) \<le> 165" and bcd_sint: "sint (bcd_to_bin v) = int (unat (bcd_to_bin v))"
proof -
  have "unat v < 256" using unat_bound [of v] by simp
  moreover have "(ucast v AND 0xF :: u32) \<le> 15" by (rule word_and_le1)
  then have "unat (ucast v AND 0xF :: u32) \<le> 15" by (simp add: word_le_nat_alt)
  moreover have "unat (ucast v div 16 :: u32) = unat v div 16"
    using unat_bound [of v] by (simp add: unat_div unsigned_ucast_eq take_bit_nat_eq_self)
  ultimately have "unat (ucast v div 16 :: u32) \<le> 15" "unat (ucast v AND 0xF :: u32) \<le> 15" by simp_all
  then show b: "unat (bcd_to_bin v) \<le> 165"
    by (simp add: bcd_to_bin_def unat_word_ariths)
  then have "unat (bcd_to_bin v) < 2 ^ 31" by simp
  then have "uint (bcd_to_bin v) < 2 ^ 31" by (simp add: uint_nat del: of_nat_unat)
  moreover have "- (2 ^ 31) \<le> uint (bcd_to_bin v)" by (rule order_trans [OF _ uint_ge_0]) simp
  ultimately have "signed_take_bit 31 (uint (bcd_to_bin v)) = uint (bcd_to_bin v)" by (intro signed_take_bit_int_eq_self)
  then show "sint (bcd_to_bin v) = int (unat (bcd_to_bin v))" by (simp add: sint_uint)
qed

text \<open>The seconds of the date on the clock; the year is that of the memory before, register 9 is not read.\<close>

definition date_secs :: "nat \<Rightarrow> nat \<Rightarrow> nat \<Rightarrow> nat \<Rightarrow> nat \<Rightarrow> nat \<Rightarrow> nat" where
  "date_secs y mo d h m s = 86400 * days_to y mo d + 3600 * h + 60 * m + s"

lemma rtc_secs_law:
  assumes "cmos_holds P reg" and "length mem = 128"
    and "1 \<le> unat (bcd_to_bin (reg 8))" and "unat (bcd_to_bin (reg 8)) \<le> 12" and "1 \<le> unat (bcd_to_bin (reg 7))"
  shows "\<exists>mem' d'. rtc_get_time_secs P mem d = Some (of_nat (date_secs (2000 + unat (bcd_to_bin (mem ! 9))) (unat (bcd_to_bin (reg 8)))
      (unat (bcd_to_bin (reg 7))) (unat (bcd_to_bin (reg 4))) (unat (bcd_to_bin (reg 2))) (unat (bcd_to_bin (reg 0)))), mem', d')
    \<and> length mem' = 128 \<and> mem' ! 9 = mem ! 9"
proof -
  let ?m = "map (\<lambda>j. if 0 \<le> j \<and> j < 0 + 9 then reg j else mem ! j) [0..<128]"
  obtain d' where c: "cmos_loop P 9 0 [] True mem d = Some (?m, d')"
    using cmos_loop_law [OF assms(1) _ assms(2), of 0 9 d] by auto
  then have cmd: "cmos_cmd P 0 9 [] mem d = Some (?m, d')" by (simp add: cmos_cmd_def)
  have rd: "rd8 ?m 0 = Some (reg 0)" "rd8 ?m 2 = Some (reg 2)" "rd8 ?m 4 = Some (reg 4)" "rd8 ?m 7 = Some (reg 7)"
    "rd8 ?m 8 = Some (reg 8)" "rd8 ?m 9 = Some (mem ! 9)"
    by (simp_all add: rd8_def numeral_2_eq_2)
  let ?y = "bcd_to_bin (mem ! 9)" and ?mo = "bcd_to_bin (reg 8)" and ?md = "bcd_to_bin (reg 7)"
  have y: "time_secs_of_years (sint ?y - 1) = of_nat (86400 * (\<Sum>i\<in>{1970..<2000 + unat ?y}. year_days i))"
    using secs_of_years_law [of "unat ?y"] by (simp add: bcd_sint)
  have mo: "sint ?mo - 1 = int (unat ?mo - 1)" using assms(3) by (simp add: bcd_sint of_nat_diff)
  have ms: "time_secs_of_month (sint ?mo - 1) (sint ?y) = of_nat (86400 * (\<Sum>j\<leftarrow>[1..<unat ?mo]. month_days (2000 + unat ?y) j))"
    using secs_of_month_law [of "unat ?mo - 1" "unat ?y"] assms(3,4) unfolding mo by (simp add: bcd_sint)
  have md: "?md - 1 = of_nat (unat ?md - 1)" using assms(5) by (simp add: of_nat_diff)
  have total: "of_nat (86400 * A) + of_nat (86400 * B) + of_nat k * 86400 + h * 3600 + m * 60 + s =
      (of_nat (86400 * (A + B + k) + 3600 * unat h + 60 * unat m + unat s) :: u32)" for A B k h m s
    by (simp add: algebra_simps)
  have "time_secs_of_years (sint ?y - 1) + time_secs_of_month (sint ?mo - 1) (sint ?y) + (?md - 1) * 86400
      + bcd_to_bin (reg 4) * 3600 + bcd_to_bin (reg 2) * 60 + bcd_to_bin (reg 0)
    = of_nat (date_secs (2000 + unat ?y) (unat ?mo) (unat ?md) (unat (bcd_to_bin (reg 4))) (unat (bcd_to_bin (reg 2))) (unat (bcd_to_bin (reg 0))))"
    unfolding y ms md date_secs_def days_to_def by (rule total)
  then show ?thesis using cmd rd unfolding rtc_get_time_secs_def
    by (intro exI [of _ ?m] exI [of _ d']) (simp del: of_nat_add of_nat_mult)
qed

section \<open>The timer\<close>

definition timer_total :: "pit \<Rightarrow> nat" where
  "timer_total K = unat (pit_ticks K) * unat (current_hz K) + unat (pit_subticks K)"

definition timer_ok :: "pit \<Rightarrow> bool" where
  "timer_ok K \<longleftrightarrow> pit_subticks K < current_hz K"

lemma pit_count_law:
  assumes "timer_ok K" and "pit_ticks K + 1 \<noteq> 0"
  shows "timer_ok (pit_count K)" and "timer_total (pit_count K) = Suc (timer_total K)" and "current_hz (pit_count K) = current_hz K"
proof -
  have s: "unat (pit_subticks K + 1) = Suc (unat (pit_subticks K))"
    using assms(1) by (simp add: timer_ok_def unat_Suc_below)
  have t: "unat (pit_ticks K + 1) = Suc (unat (pit_ticks K))"
    using assms(2) unatSuc [of "pit_ticks K"] by (simp add: add.commute)
  have lt: "unat (pit_subticks K) < unat (current_hz K)" using assms(1) by (simp add: timer_ok_def word_less_nat_alt)
  show "current_hz (pit_count K) = current_hz K" by (simp add: pit_count_def Let_def)
  show "timer_ok (pit_count K)"
  proof (cases "pit_subticks K + 1 = current_hz K")
    case True
    then show ?thesis using lt by (simp add: timer_ok_def pit_count_def Let_def word_less_nat_alt)
  next
    case False
    then have "Suc (unat (pit_subticks K)) \<noteq> unat (current_hz K)" using s by (metis word_unat_eq_iff)
    then show ?thesis using False lt s by (simp add: timer_ok_def pit_count_def Let_def word_less_nat_alt)
  qed
  show "timer_total (pit_count K) = Suc (timer_total K)"
  proof (cases "pit_subticks K + 1 = current_hz K")
    case True
    then have "Suc (unat (pit_subticks K)) = unat (current_hz K)" using s by simp
    then show ?thesis using True t by (simp add: timer_total_def pit_count_def Let_def)
  next
    case False
    then show ?thesis using s by (simp add: timer_total_def pit_count_def Let_def)
  qed
qed

lemma timer_steps:
  "timer_ok K \<Longrightarrow> timer_total K + n < (2 ^ 32 - 1) * unat (current_hz K) \<Longrightarrow>
     timer_ok ((pit_count ^^ n) K) \<and> timer_total ((pit_count ^^ n) K) = timer_total K + n \<and> current_hz ((pit_count ^^ n) K) = current_hz K"
proof (induction n)
  case (Suc n)
  then have IH: "timer_ok ((pit_count ^^ n) K)" "timer_total ((pit_count ^^ n) K) = timer_total K + n" "current_hz ((pit_count ^^ n) K) = current_hz K"
    by simp_all
  let ?K = "(pit_count ^^ n) K"
  have "timer_total ?K = unat (pit_ticks ?K) * unat (current_hz K) + unat (pit_subticks ?K)" by (simp add: timer_total_def IH(3))
  then have "unat (pit_ticks ?K) * unat (current_hz K) < (2 ^ 32 - 1) * unat (current_hz K)" using IH(2) Suc.prems(2) by linarith
  then have "unat (pit_ticks ?K) < 2 ^ 32 - 1" by simp
  then have "unat (pit_ticks ?K + 1) = Suc (unat (pit_ticks ?K))" by (simp add: unat_word_ariths)
  then have "pit_ticks ?K + 1 \<noteq> 0" by (metis nat.distinct(1) unsigned_0)
  then show ?case using pit_count_law [OF IH(1)] IH(2,3) by simp
qed simp

lemma relative_time_law:
  assumes "timer_ok K" and "unat (pit_ticks K) + unat s + 1 < 2 ^ 32" and "unat (current_hz K) + unat ss < 2 ^ 32" and "relative_time s ss K = (t, u)"
  shows "unat t * unat (current_hz K) + unat u = timer_total K + unat s * unat (current_hz K) + unat ss"
    and "unat ss < unat (current_hz K) \<Longrightarrow> u \<le> current_hz K"
    and "u = current_hz K \<Longrightarrow> timer_ok K' \<Longrightarrow> current_hz K' = current_hz K \<Longrightarrow> \<not> (t \<le> pit_ticks K' \<and> u \<le> pit_subticks K')"
proof -
  let ?hz = "unat (current_hz K)" and ?b = "unat (pit_subticks K)"
  have lt: "?b < ?hz" using assms(1) by (simp add: timer_ok_def word_less_nat_alt)
  have sum: "unat (ss + pit_subticks K) = unat ss + ?b" "unat (pit_subticks K + ss) = unat ss + ?b"
    using assms(3) lt by (simp_all add: unat_word_ariths)
  have t: "unat (pit_ticks K + s) = unat (pit_ticks K) + unat s" "unat (pit_ticks K + s + 1) = unat (pit_ticks K) + unat s + 1"
    using assms(2) by (simp_all add: unat_word_ariths)
  have over: "unat (ss + pit_subticks K - current_hz K) = unat ss + ?b - ?hz" if "current_hz K < ss + pit_subticks K"
    using that sum by (simp add: unat_sub less_imp_le)
  show "unat t * ?hz + unat u = timer_total K + unat s * ?hz + unat ss"
  proof (cases "current_hz K < ss + pit_subticks K")
    case True
    then have "?hz < unat ss + ?b" using sum by (simp add: word_less_nat_alt)
    then show ?thesis using True assms(4) t over by (auto simp: relative_time_def timer_total_def algebra_simps)
  next
    case False
    then show ?thesis using assms(4) t sum by (auto simp: relative_time_def timer_total_def algebra_simps)
  qed
  show "u \<le> current_hz K" if "unat ss < ?hz"
    using that assms(4) lt sum over
    by (cases "current_hz K < ss + pit_subticks K") (auto simp: relative_time_def word_le_nat_alt word_less_nat_alt)
  show "\<not> (t \<le> pit_ticks K' \<and> u \<le> pit_subticks K')" if "u = current_hz K" "timer_ok K'" "current_hz K' = current_hz K"
    using that unfolding timer_ok_def by (metis leD)
qed

section \<open>Services\<close>

text \<open>The services in the order of their installation, each with an address.\<close>

definition services :: "pit \<Rightarrow> (cstring \<times> ptr) list \<Rightarrow> bool" where
  "services K ns \<longleftrightarrow> hm_ok {k. nul_free k} (pit_cbacks K) \<and> length ns \<le> 16
     \<and> services_names K = map (Some \<circ> fst) ns @ replicate (16 - length ns) None
     \<and> unat (pit_cback_count K) = length ns \<and> (length ns < 16 \<longrightarrow> unat (next_available_service K) = length ns)
     \<and> (\<forall>(n, a)\<in>set ns. nul_free n \<and> a \<noteq> 0) \<and> distinct (map fst ns)
     \<and> hm_abs (pit_cbacks K) = map_option Some \<circ> map_of ns"

lemma services_start: "services (fst (pit_init P d)) []" and timer_start: "timer_ok (fst (pit_init P d))"
  using create_ok(1,2) [of 16] by (simp_all add: services_def timer_ok_def pit_init_def pit_sethz_def fun_eq_iff word_sle_eq word_sless_alt)

lemma services_get:
  assumes "services K ns" and "(n, a) \<in> set ns"
  shows "hashmap_get (pit_cbacks K) n = Some (Some a)"
proof -
  have "nul_free n" using assms by (auto simp: services_def)
  moreover have "map_of ns n = Some a" using assms by (simp add: services_def)
  ultimately show ?thesis using assms(1) hm_get_law [of "{k. nul_free k}" "pit_cbacks K" n] by (simp add: services_def)
qed

lemma service_calls_law:
  "services K ns \<Longrightarrow> set ms \<subseteq> set ns \<Longrightarrow> service_calls (pit_cbacks K) (map (Some \<circ> fst) ms) = Some (map snd ms)"
proof (induction ms)
  case (Cons m ms)
  obtain n a where m: "m = (n, a)" by (cases m)
  then have "hashmap_get (pit_cbacks K) n = Some (Some a)" "a \<noteq> 0"
    using services_get [OF Cons.prems(1)] Cons.prems by (auto simp: services_def)
  then show ?case using Cons m by simp
qed simp

lemma pit_handler_law:
  assumes "services K ns"
  shows "pit_handler K = Some (if pit_servicing K then map snd ns else [], pit_count K)"
proof -
  have same: "pit_cbacks (pit_count K) = pit_cbacks K" "services_names (pit_count K) = services_names K"
    "pit_cback_count (pit_count K) = pit_cback_count K" "pit_servicing (pit_count K) = pit_servicing K"
    by (simp_all add: pit_count_def Let_def)
  have "service_calls (pit_cbacks K) (map (Some \<circ> fst) ns) = Some (map snd ns)"
    using service_calls_law [OF assms] by simp
  then show ?thesis using assms by (simp add: pit_handler_def same Let_def services_def)
qed

lemma takeWhile_somes: "takeWhile (\<lambda>n. n \<noteq> None) (map (Some \<circ> f) xs @ replicate n None) = map (Some \<circ> f) xs"
  by (induction xs) (cases n, simp_all)

lemma first_unused_map: "first_unused (map (Some \<circ> f) xs @ replicate n None) = (if n = 0 then None else Some (length xs))"
  unfolding first_unused_def takeWhile_somes by simp

lemma pit_install_law:
  assumes "services K ns" and "nul_free name" and "a \<noteq> 0"
  shows "if name \<in> fst ` set ns \<or> length ns = 16 then pit_install_cback name (Some a) K = Some K
    else \<exists>K'. pit_install_cback name (Some a) K = Some K' \<and> services K' (ns @ [(name, a)]) \<and> pit_servicing K' = pit_servicing K"
proof -
  let ?m = "pit_cbacks K"
  have ok: "hm_ok {k. nul_free k} ?m" using assms(1) by (simp add: services_def)
  have dom: "dom (hm_abs ?m) = fst ` set ns" using assms(1) by (force simp: services_def dom_map_of_conv_image_fst)
  have has: "hashmap_has ?m name = Some (name \<in> fst ` set ns)"
    using hm_has_law [OF ok, of name] assms(2) dom by simp
  have full: "pit_cback_count K \<ge> 16 \<longleftrightarrow> length ns = 16"
    using assms(1) by (auto simp: services_def word_le_nat_alt)
  show ?thesis
  proof (cases "name \<in> fst ` set ns \<or> length ns = 16")
    case True
    then show ?thesis using has full by (auto simp: pit_install_cback_def)
  next
    case False
    then have short: "length ns < 16" using assms(1) by (auto simp: services_def)
    then obtain k where k: "16 - length ns = Suc k" by (metis Suc_diff_Suc)
    obtain m' where m': "hashmap_set ?m name (Some a) = Some (null_join (hm_abs ?m name), m')" "hm_ok {k. nul_free k} m'"
        "hm_abs m' = (hm_abs ?m)(name \<mapsto> Some a)"
      using hm_put_law [OF ok, of name "Some a"] assms(2) by blast
    define ns' where "ns' = ns @ [(name, a)]"
    have ns': "length ns' = Suc (length ns)" by (simp add: ns'_def)
    let ?ns = "map (Some \<circ> fst) ns' @ replicate (16 - length ns') None"
    have upd: "(services_names K)[unat (next_available_service K) := Some name] = ?ns"
      using assms(1) short k by (auto simp: services_def list_update_append ns'_def)
    have "length (services_names K) = 16" "unat (next_available_service K) < 16" using assms(1) short by (auto simp: services_def)
    then have run: "pit_install_cback name (Some a) K = Some (K\<lparr>pit_cbacks := m', services_names := ?ns,
        next_available_service := (case first_unused ?ns of None \<Rightarrow> next_available_service K | Some i \<Rightarrow> of_nat i),
        pit_cback_count := pit_cback_count K + 1\<rparr>)" (is "_ = Some ?K")
      using has full False m'(1) upd by (simp add: pit_install_cback_def Let_def)
    have "unat (pit_cback_count K + 1) = length ns'" using assms(1) short by (simp add: services_def unat_word_ariths ns')
    moreover have "map_of ns name = None" using False by (simp add: map_of_eq_None_iff)
    then have "hm_abs m' = map_option Some \<circ> map_of ns'"
      using assms(1) m'(3) False by (auto simp: services_def fun_eq_iff map_add_def ns'_def split: option.splits)
    moreover have "distinct (map fst ns')" using assms(1) False by (auto simp: services_def ns'_def)
    moreover have "\<forall>(n, a)\<in>set ns'. nul_free n \<and> a \<noteq> 0" using assms by (auto simp: services_def ns'_def)
    ultimately have "services ?K ns'"
      using short m'(2) ns' unfolding services_def by (simp add: first_unused_map unat_of_nat_small del: of_nat_Suc)
    then show ?thesis using run False by (auto simp: ns'_def)
  qed
qed

lemma find_service_law:
  "nul_free name \<Longrightarrow> \<forall>n\<in>set xs. nul_free n \<and> n \<noteq> name \<Longrightarrow>
     find_service name (map Some xs @ Some name # rest) i = Some (Some (i + length xs))"
  by (induction xs arbitrary: i) (simp_all add: strcmp_eq_0)

text \<open>Removing a service: the last one is gone; any other leaves a hole that the next tick looks up.\<close>

lemma take_before: "take (length l) (x # l @ r) = take (length l) (x # l)"
  using take_append [of "length l" "x # l" r] by simp

lemma pit_uninstall_law:
  assumes "services K (xs @ (name, a) # ys)"
  shows "\<exists>K'. pit_uninstall_cback name K = Some K' \<and> pit_servicing K' = pit_servicing K
    \<and> (if ys = [] then services K' xs else pit_servicing K \<longrightarrow> pit_handler K' = None)"
proof -
  let ?m = "pit_cbacks K" and ?ns = "xs @ (name, a) # ys"
  have S: "hm_ok {k. nul_free k} ?m" "length ?ns \<le> 16" "services_names K = map (Some \<circ> fst) ?ns @ replicate (16 - length ?ns) None"
    "unat (pit_cback_count K) = length ?ns" "\<forall>(n, a)\<in>set ?ns. nul_free n \<and> a \<noteq> 0" "distinct (map fst ?ns)"
    "hm_abs ?m = map_option Some \<circ> map_of ?ns"
    using assms unfolding services_def by blast+
  have name: "nul_free name" using S(5) by auto
  have "map (Some \<circ> fst) ?ns = map Some (map fst xs) @ Some name # map (Some \<circ> fst) ys" by simp
  then have take: "take (unat (pit_cback_count K)) (services_names K) = map Some (map fst xs) @ Some name # map (Some \<circ> fst) ys"
    using S(3,4) by simp
  have others: "\<forall>n\<in>set (map fst xs). nul_free n \<and> n \<noteq> name" using S(5,6) by force
  have found: "find_service name (take (unat (pit_cback_count K)) (services_names K)) 0 = Some (Some (length xs))"
    unfolding take using find_service_law [OF name others, of "map (Some \<circ> fst) ys" 0] by simp
  have "hm_abs ?m name \<noteq> None" using S(7) by (simp add: map_of_eq_None_iff) 
  then obtain m' where m': "hashmap_remove ?m name = Some (null_join (hm_abs ?m name), m')" "hm_ok {k. nul_free k} m'"
      "hm_abs m' = (hm_abs ?m)(name := None)"
    using hashmap_remove_law [OF S(1), of name] name by auto
  have nonzero: "pit_cback_count K \<noteq> 0" using S(4) by (intro notI) simp
  have cnt: "pit_cback_count K \<noteq> 0" "unat (pit_cback_count K - 1) = length xs + length ys"
    using S(4) unat_minus_one [OF nonzero] nonzero by simp_all
  let ?K = "K\<lparr>services_names := (services_names K)[length xs := None], next_available_service := of_nat (length xs),
      pit_cback_count := pit_cback_count K - 1, pit_cbacks := m'\<rparr>"
  have run: "pit_uninstall_cback name K = Some ?K"
    using found m'(1) cnt S(2,3,4) by (simp add: pit_uninstall_cback_def Let_def)
  show ?thesis
  proof (cases "ys = []")
    case True
    have "hm_abs m' = map_option Some \<circ> map_of xs"
      using m'(3) S(6,7) True by (auto simp: fun_eq_iff map_add_def map_of_eq_None_iff split: option.splits)
    then have "services ?K xs"
      using True S m'(2) cnt by (auto simp: services_def list_update_append unat_of_nat_small Suc_diff_Suc simp flip: replicate_Suc)
    then show ?thesis using run True by auto
  next
    case False
    have "service_calls m' (map (Some \<circ> fst) zs @ None # rest) = None" for zs :: "(cstring \<times> ptr) list" and rest
      by (induction zs) (auto simp: bind_eq_None_conv)
    moreover have "take (length xs + length ys) (services_names ?K) = map (Some \<circ> fst) xs @ None # take (length ys - 1) (map (Some \<circ> fst) ys)"
      using S(3) False by (cases ys) (simp_all add: list_update_append take_before take_before [of "map f l" for f l, simplified])
    ultimately have "pit_servicing K \<longrightarrow> pit_handler ?K = None"
      using cnt(2) S(2,3) by (simp add: pit_handler_def pit_count_def Let_def)
    then show ?thesis using run False by auto
  qed
qed

end
