(* ===== verification/Spec2Isabelle.thy ===== *)
theory Spec2Isabelle
  imports Linked_List Args Vfs Pipe Ext2_Lookup Ext2_Alloc Task_Life Spin Heap_Client Paging_Laws C_Move C_Search_Laws Format_Laws
    Ata_Laws Interrupts Clock_Laws
begin

text \<open>
  Verification of the kernel under \<^verbatim>\<open>src/src\<close>: a 32-bit x86 kernel in C++ with cooperative data
  structures, a virtual file system, pipes, an ext2 driver and a preemptive scheduler.

  \<^bold>\<open>Parts and how they interact.\<close>  Linked lists and trees are intrusive structures shared by the whole kernel;
  the hash map and the string functions serve the module list and the kernel arguments; path names are
  resolved by the virtual file system against a tree of mount points; pipes are files over a ring of
  bytes; the ext2 driver implements the handlers of a file node over blocks of a disk; tasks wait in
  lists, are woken by the pipes, and are selected by the scheduler on every timer tick.

  \<^bold>\<open>Theories.\<close>
  \<^item> \<^verbatim>\<open>Prelude\<close>: the words of the machine (addresses and \<^verbatim>\<open>size_t\<close> are 32-bit words), options as the results of
    steps that may have no defined effect, generic facts.
  \<^item> \<^verbatim>\<open>Linked_List\<close> (\<^verbatim>\<open>libc/data_struct/list.cpp\<close>): an object heap of nodes and headers, one definition per
    function; \<^verbatim>\<open>dll h l ns\<close> says that the header \<open>l\<close> represents the sequence \<open>ns\<close>, and a lemma per function
    says what happens to the sequence and that other lists are left alone (\<^verbatim>\<open>only_touches\<close>).
  \<^item> \<^verbatim>\<open>Tree\<close> (\<^verbatim>\<open>libc/data_struct/tree.cpp\<close>): \<^verbatim>\<open>tree_ok\<close> is the invariant, kept by insertion and removal.
  \<^item> \<^verbatim>\<open>C_String\<close>, \<^verbatim>\<open>Path\<close> (\<^verbatim>\<open>libc/libc.cpp\<close>, \<^verbatim>\<open>vfs.cpp\<close>): string searches, \<^verbatim>\<open>tokenize\<close> as the runs of
    non-delimiters, canonical paths as sequences of elements.
  \<^item> \<^verbatim>\<open>C_Memory\<close>, \<^verbatim>\<open>C_Scan\<close>, \<^verbatim>\<open>C_Move\<close> (\<^verbatim>\<open>libc/libc.cpp\<close>): the functions that read and write by words of four bytes, on a
    memory of bytes; the word loops refine the searches on values, and the copies are one function \<^verbatim>\<open>moved_mem\<close>.
  \<^item> \<^verbatim>\<open>C_Search\<close>, \<^verbatim>\<open>C_Search_Laws\<close> (\<^verbatim>\<open>libc/libc.cpp\<close>, \<^verbatim>\<open>libc/string.cpp\<close>): \<^verbatim>\<open>strstr\<close> with its window searches,
    replacing, trimming and splitting.  The two-way search for needles of five bytes or more is modelled; no claim covers it.
  \<^item> \<^verbatim>\<open>Format\<close>, \<^verbatim>\<open>Format_Laws\<close> (\<^verbatim>\<open>libc/kprintf.cpp\<close>, \<^verbatim>\<open>atoi\<close> of \<^verbatim>\<open>libc/libc.cpp\<close>): formatted numbers and the format loop.
  \<^item> \<^verbatim>\<open>Dict\<close>, \<^verbatim>\<open>Hashmap\<close>, \<^verbatim>\<open>Args\<close> (\<^verbatim>\<open>libc/data_struct/hashmap.cpp\<close>, \<^verbatim>\<open>args.cpp\<close>): the interface of a finite map as a
    locale, the hash map as its implementation, the command line as its client.
  \<^item> \<^verbatim>\<open>Byte_Fifo\<close>, \<^verbatim>\<open>Ring_Buffer\<close>, \<^verbatim>\<open>Pipe\<close> (\<^verbatim>\<open>libc/data_struct/ringbuffer.cpp\<close>, \<^verbatim>\<open>modules/fs/pipe.cpp\<close>,
    \<^verbatim>\<open>unixpipe.cpp\<close>): the ring of bytes as a locale with two implementations; reads and writes as loops that go to
    sleep, and the interleavings of a reader and a writer as a step relation.
  \<^item> \<^verbatim>\<open>Vfs\<close> (\<^verbatim>\<open>vfs.cpp\<close>): mount points, reference counts, \<^verbatim>\<open>kopen\<close> with symbolic links.
  \<^item> \<^verbatim>\<open>Bytes\<close>, \<^verbatim>\<open>Ext2_Block\<close>, \<^verbatim>\<open>Ext2_Inode\<close>, \<^verbatim>\<open>Ext2_File\<close>, \<^verbatim>\<open>Ext2_Dir\<close> (\<^verbatim>\<open>modules/fs/ext2.cpp\<close>): the file from the cache of
    blocks to the handlers and the mount.  The block layer is the locale of a store of blocks, interpreted on
    the code with and without its cache; \<^verbatim>\<open>store fs b\<close> is the newest copy of a block.  \<^verbatim>\<open>Ext2_Data\<close> shows what reads
    and writes do to the contents of a file, \<^verbatim>\<open>Ext2_Lookup\<close> what the scan of a directory finds and removes,
    \<^verbatim>\<open>Ext2_Alloc\<close> what the block allocator does to the bitmap and the counters.
  \<^item> \<^verbatim>\<open>Ata\<close>, \<^verbatim>\<open>Ata_Device\<close>, \<^verbatim>\<open>Ata_Laws\<close> (\<^verbatim>\<open>modules/ata.cpp\<close>): the disk driver over the ports of the controller.
    The controller is a parameter; \<^verbatim>\<open>ide_contract\<close> is what the driver relies on: the registers select a sector, the data port moves
    it, and the busy flag goes away.  The lemmas show which bytes a request moves, and that the disk is the block device
    the block layer of ext2 works on.
  \<^item> \<^verbatim>\<open>Interrupts\<close> (\<^verbatim>\<open>arch/x86/irq/irq.cpp\<close>, \<^verbatim>\<open>gdt/gdt.cpp\<close>, \<^verbatim>\<open>idt/idt.cpp\<close>): disabled sections, the handlers of an interrupt line
    and the commands to the interrupt controllers; descriptors.
  \<^item> \<^verbatim>\<open>Clock\<close>, \<^verbatim>\<open>Clock_Laws\<close> (\<^verbatim>\<open>time.h\<close>, \<^verbatim>\<open>modules/clock/cmos.cpp\<close>, \<^verbatim>\<open>modules/clock/pit.cpp\<close>): dates against the calendar, the clock
    behind its two ports (\<^verbatim>\<open>cmos_holds\<close> says what it shows), the timer and the services it calls (\<^verbatim>\<open>services\<close> is their invariant).
  \<^item> \<^verbatim>\<open>Task\<close>, \<^verbatim>\<open>Process\<close>, \<^verbatim>\<open>Scheduler\<close>, \<^verbatim>\<open>Signal\<close> (\<^verbatim>\<open>task.h\<close>, \<^verbatim>\<open>task/process.cpp\<close>, \<^verbatim>\<open>task/task.cpp\<close>, \<^verbatim>\<open>task/signal.cpp\<close>):
    the tasks, whose list nodes live in the heap of \<^verbatim>\<open>Linked_List\<close>, their queues, descriptors, tree and signals, and the
    switch.  \<^verbatim>\<open>Task_Queues\<close>, \<^verbatim>\<open>Task_Switch\<close> and \<^verbatim>\<open>Task_Life\<close> hold the lemmas: waking a queue, the rotation of the
    ready queue, a tick inside \<^verbatim>\<open>sleep_on\<close>, ended tasks, descriptor tables.
  \<^item> \<^verbatim>\<open>Kernel_Heap\<close> (\<^verbatim>\<open>memory/alloc.cpp\<close>): the allocator, bins of small cells and a skip list of free big bins.
    \<^verbatim>\<open>Heap_Skip\<close>, \<^verbatim>\<open>Heap_Skip_Update\<close> show that the skip list is a sorted list; \<^verbatim>\<open>Heap_Cells\<close> has the invariant
    \<^verbatim>\<open>heap_ok\<close> and the set \<^verbatim>\<open>live_blocks\<close> of allocated blocks; \<^verbatim>\<open>Heap_Small\<close>, \<^verbatim>\<open>Heap_Big\<close>, \<^verbatim>\<open>Heap_Laws\<close> show what every operation
    does to them; \<^verbatim>\<open>Heap_Client\<close> states the contract as a locale, interprets it on the allocator, and serves clients.
  \<^item> \<^verbatim>\<open>Paging\<close>, \<^verbatim>\<open>Paging_Laws\<close> (\<^verbatim>\<open>memory/mem.cpp\<close>): page tables as objects at addresses, over the end of the heap that the
    allocator moves; \<^verbatim>\<open>space_ok\<close> is a well-formed address space, and the lemmas show what is mapped, when the loops end,
    and where the growth of the heap waits for its own lock.
  \<^item> \<^verbatim>\<open>Spin\<close> (\<^verbatim>\<open>task/spin.cpp\<close>): the spin lock under any interleaving.

  \<^bold>\<open>Conventions.\<close>  A definition has the name of the function it models.  An address the allocator returns
  is an argument.  A read or write through a dangling or null pointer, a failed \<^verbatim>\<open>ASSERT\<close>, a division by
  zero and a loop that never ends all have the value \<^term>\<open>None\<close>; loops whose end is not evident are
  \<^theory_text>\<open>partial_function\<close>, and the lemmas show that they return.  Integers keep their width where the code can
  overflow.

  \<^bold>\<open>Bounds.\<close>  The cache of blocks has a 32-bit clock that the code never resets; \<^verbatim>\<open>budget fs\<close> is the number of
  accesses left before it wraps, and the laws of the block layer ask for as many as they use.  Without a
  cache, the configuration the file is compiled in, the budget is \<open>2 ^ 32\<close> and is not used up.  The laws about
  the contents of files cover the direct blocks, those about the block map also the indirect ones.  \<open>fuel\<close> in
  \<^verbatim>\<open>entries\<close> is the size of the directory plus one, and every entry takes at least one byte.

  \<^bold>\<open>Properties.\<close>  The numbered claims below are grouped by part: ext2, the disk, lists, memory and strings, numbers, pipes, maps, trees
  and paths, the virtual file system, tasks, the kernel heap, pages, interrupts, clocks.  Where the code does not do what it means to do, the claim
  states what it does: a sleeper that is lost, a task freed in the ready queue, a read behind the end.

  \<^bold>\<open>Not modelled.\<close>  The ELF loader is left out.  Drivers (keyboard,
  mouse, sound, PCI, terminal, serial line), interrupt entries and the start of the
  kernel are port input and output and assembly.  System calls are wrappers.  The regular expressions
  (SLRE), the cross compiler under \<^verbatim>\<open>toolchain\<close> and the tables of PCI vendors and fonts are third-party code or
  data.  Locks and the interrupt flag are modelled where their use matters: in \<^verbatim>\<open>Spin\<close>, in the interleavings of
  the ring buffer, and in the tick inside \<^verbatim>\<open>sleep_on\<close>.
\<close>


section \<open>A small disk\<close>

text \<open>Blocks of 1024 bytes: the super block is block 1, the inode table block 2, the bitmaps 3 and 4,
  the descriptors block 5.  Inode 1 is a file of 100 bytes with the blocks 6 and 7.\<close>

definition sample_inode :: "u8 list" where
  "sample_inode = put32 44 7 (put32 40 6 (put32 28 4 (put32 4 100 (replicate 128 0))))"

definition sample_disk :: "u32 \<Rightarrow> u8 list" where
  "sample_disk off = (if off = 2048 then sample_inode @ replicate 896 0
     else if off = 3072 then [0xFF] @ replicate 1023 0 else replicate 1024 0)"

definition sample_fs :: ext2_fs where
  "sample_fs = \<lparr>fs_superblock = put32 32 64 (replicate 1024 0),
     fs_block_groups = put16 12 56 (put32 8 2 (put32 4 4 (put32 0 3 (replicate 1024 0)))),
     fs_disk = sample_disk, fs_block_size = 1024, fs_pointer_per_block = 256, fs_inodes_per_group = 8,
     fs_block_group_count = 1, fs_cache = None, fs_cache_time = 0, fs_using_cache = False,
     fs_bgd_block_span = 1, fs_bgd_offset = 5, fs_inode_size = 128\<rparr>"

lemma length_sample_inode [simp]: "length sample_inode = 128"
  by (simp add: sample_inode_def)

lemma sample_fields [simp]:
  "fs_block_size sample_fs = 1024" "fs_inodes_per_group sample_fs = 8" "fs_block_group_count sample_fs = 1"
  "fs_inode_size sample_fs = 128" "fs_pointer_per_block sample_fs = 256" "fs_cache sample_fs = None"
  "fs_using_cache sample_fs = False" "fs_disk sample_fs = sample_disk"
  by (simp_all add: sample_fs_def)

lemma sample_fs_ok: "fs_ok sample_fs" "budget sample_fs = 2 ^ 32"
  by (simp_all add: fs_ok_def sample_disk_def budget_def)


lemma sample_home: "inode_home sample_fs 1 = Some (2, 0)"
proof -
  have "group_table sample_fs 0 = Some 2"
    by (simp add: group_table_def rd32_def sample_fs_def get32_put16_other)
  then show ?thesis
    by (simp add: inode_home_def table_block_def table_offset_def inode_index_def good_block_def on_disk_def)
qed


lemma sample_gets: "get32 sample_inode 4 = 100" "get32 sample_inode 28 = 4"
  "file_block sample_inode 0 = 6" "file_block sample_inode (Suc 0) = 7"
  by (simp_all add: sample_inode_def file_block_def map_slot_def get32_put32_other)


text \<open>The same disk behind a cache with two entries.\<close>

definition unused_entry :: cache_entry where
  "unused_entry = \<lparr>ce_block_no = 0, ce_last_use = 0, ce_dirty = False, ce_block = []\<rparr>"

definition cached_fs :: ext2_fs where
  "cached_fs = sample_fs\<lparr>fs_cache := Some [unused_entry, unused_entry], fs_using_cache := True\<rparr>"

lemma cached_fs_ok: "fs_ok cached_fs" "budget cached_fs = 2 ^ 32 - 1"
  by (simp_all add: fs_ok_def cached_fs_def sample_disk_def budget_def cache_ok_def cache_unique_def
    entry_ok_def unused_entry_def sample_fs_def less_Suc_eq)

lemma cached_fs_blocks: "good_block cached_fs b \<longleftrightarrow> b \<noteq> 0 \<and> unat b * 1024 < 2 ^ 32" "bsize cached_fs = 1024"
  by (simp_all add: good_block_def on_disk_def cached_fs_def)

section \<open>The ext2 file system\<close>

text \<open>C2: The block layer is a store of blocks, with the cache and without it.  What is written to a
  block is what a later read of it returns, every other block reads as before, and the well-formedness
  of the cache is kept.\<close>

theorem block_layer_is_store:
  assumes "fs_ok fs" and "good_block fs b" and "good_block fs b'" and "length buff = bsize fs" and "1 < budget fs"
  shows "\<exists>fs1 fs2. write_block b buff fs = Some (E_SUCCESS, fs1) \<and>
     read_block b' junk fs1 = Some (E_SUCCESS, if b' = b then buff else store fs b', fs2) \<and>
     fs_ok fs2 \<and> (\<forall>c. good_block fs c \<longrightarrow> store fs2 c = (if c = b then buff else store fs c))"
proof -
  obtain fs1 where w: "write_block b buff fs = Some (E_SUCCESS, fs1)"
    "disk.evolves 1 (\<lambda>c. c(b := buff)) fs fs1"
    using disk.write_evolves [OF assms(1,2,4)] assms(5) by auto
  then have e: "fs_ok fs1" "good_block fs1 = good_block fs" "0 < budget fs1"
    "\<And>c. good_block fs c \<Longrightarrow> store fs1 c = (if c = b then buff else store fs c)"
    using assms(5) meta_fields(8) [of fs1 fs] by (auto simp: disk.evolves_def)
  obtain fs2 where "read_block b' junk fs1 = Some (E_SUCCESS, store fs1 b', fs2)" "disk.evolves 1 (\<lambda>c. c) fs1 fs2"
    using disk.read_evolves [OF e(1) _ e(3)] assms(3) e(2) by metis
  with w(1) e assms(3) show ?thesis by (auto simp: disk.evolves_def)
qed

theorem block_layer_is_store_witness:
  "\<exists>fs1 fs2. write_block 6 (replicate 1024 9) cached_fs = Some (E_SUCCESS, fs1) \<and>
     read_block 6 [] fs1 = Some (E_SUCCESS, replicate 1024 9, fs2)"
  using block_layer_is_store [OF cached_fs_ok(1), of 6 6 "replicate 1024 9" "[]"]
  by (auto simp: cached_fs_blocks cached_fs_ok)

text \<open>C3: Flushing the cache writes everything: afterwards the disk itself holds the newest copy of
  every block, and no block has changed.\<close>

theorem sync_writes_everything:
  assumes "fs_ok fs" and "fs_using_cache fs \<or> fs_cache fs = None"
  shows "fs_ok (ext2_sync fs) \<and>
     (\<forall>b. good_block fs b \<longrightarrow> store (ext2_sync fs) b = store fs b \<and>
        fs_disk (ext2_sync fs) (b * fs_block_size fs) = store fs b)"
  by (rule ext2_sync_ok [OF assms])

theorem sync_writes_everything_witness:
  "\<exists>fs1. write_block 6 (replicate 1024 9) cached_fs = Some (E_SUCCESS, fs1) \<and>
     fs_disk (ext2_sync fs1) 6144 = replicate 1024 9"
proof -
  have g: "good_block cached_fs 6" by (simp add: cached_fs_blocks)
  obtain fs1 where w: "write_block 6 (replicate 1024 9) cached_fs = Some (E_SUCCESS, fs1)"
    "fs_ok fs1" "meta fs1 = meta cached_fs" "store fs1 6 = replicate 1024 9"
    using disk.write_evolves [OF cached_fs_ok(1) g, of "replicate 1024 9"] g
    by (auto simp: cached_fs_blocks cached_fs_ok disk.evolves_def)
  have u: "fs_using_cache fs1" "fs_block_size fs1 = 1024"
    using arg_cong [OF w(3), of fs_using_cache] meta_fields(2) [OF w(3)] by (simp_all add: meta_def cached_fs_def)
  have "good_block fs1 6" using g meta_fields(8) [OF w(3)] by simp
  with sync_writes_everything [OF w(2)] u w(1,4) show ?thesis by auto
qed

text \<open>C23: An inode that is written is read back, and every inode elsewhere stays as it was.\<close>

theorem inode_roundtrip:
  assumes "fs_ok fs" and "inode_home fs n = Some (b, o')" and "2 < budget fs"
    and "length i = unat (fs_inode_size fs)"
  shows "\<exists>fs1 fs2. write_inode i n fs = Some (E_SUCCESS, fs1) \<and> read_inode n fs1 = Some (i, fs2) \<and>
     (\<forall>m h. inode_home fs m = Some h \<longrightarrow> fst h \<noteq> b \<or> snd h + length i \<le> o' \<or> o' + length i \<le> snd h \<longrightarrow>
        inode_at fs1 h = inode_at fs h)"
  by (rule write_read_inode [OF assms])

theorem inode_roundtrip_witness:
  "\<exists>fs1 fs2. write_inode (replicate 128 3) 1 sample_fs = Some (E_SUCCESS, fs1) \<and>
     read_inode 1 fs1 = Some (replicate 128 3, fs2)"
proof -
  have "2 < budget sample_fs" "length (replicate 128 3 :: u8 list) = unat (fs_inode_size sample_fs)"
    by (simp_all add: sample_fs_ok)
  from inode_roundtrip [OF sample_fs_ok(1) sample_home this] show ?thesis by blast
qed

text \<open>Where an inode is looked for.  Number \<open>n\<close> belongs at place \<open>(n - 1) mod ipg\<close> of the table of
  group \<open>(n - 1) div ipg\<close>, and the code looks there, except that the last inode of every group is looked for
  in the next group, at an offset below its table.\<close>

theorem inode_placement:
  assumes "fs_inodes_per_group fs \<noteq> 0" and "unat (fs_inode_size fs) dvd bsize fs" and "0 < bsize fs"
    and "unat (fs_inodes_per_group fs) * unat (fs_inode_size fs) < 2 ^ 32" and "n \<noteq> 0"
  shows "let p = (unat n - 1) mod unat (fs_inodes_per_group fs); g = (unat n - 1) div unat (fs_inodes_per_group fs) in
     if n mod fs_inodes_per_group fs = 0
     then unat (n div fs_inodes_per_group fs) = g + 1 \<and> table_block fs n = (- fs_inode_size fs) div fs_block_size fs
     else unat (n div fs_inodes_per_group fs) = g \<and>
       unat (table_block fs n) = p * unat (fs_inode_size fs) div bsize fs \<and>
       unat (table_offset fs n) = p * unat (fs_inode_size fs) mod bsize fs"
proof (cases "n mod fs_inodes_per_group fs = 0")
  case True
  let ?g = "unat (fs_inodes_per_group fs)"
  have g: "0 < ?g" using assms(1) by (simp add: unat_gt_0)
  have "unat n mod ?g = 0" using True by (metis unat_0 unat_mod_distrib)
  then obtain q where q: "unat n = q * ?g" by (metis add.right_neutral div_mult_mod_eq)
  have "0 < q" using q assms(5) by (cases q) (auto simp: unat_eq_zero)
  then obtain r where r: "q = Suc r" by (cases q) auto
  have "(unat n - 1) div ?g = r"
  proof -
    have "unat n - 1 = (?g - 1) + r * ?g" using q r g by simp
    then show ?thesis using g by (simp only: div_mult_self1 [OF less_imp_neq [OF g, symmetric]]) simp
  qed
  moreover have "unat (n div fs_inodes_per_group fs) = Suc r" using q r g by (simp add: unat_div_distrib)
  ultimately show ?thesis using True last_inode_misplaced [OF assms(1) True] by (simp add: Let_def)
next
  case False
  with inode_place_ok [OF assms(1) False assms(2-4)] show ?thesis by (simp add: Let_def)
qed

theorem inode_placement_witness:
  "table_block sample_fs 8 = 4194303 \<and> unat (table_block sample_fs 1) = 0 \<and> unat (table_offset sample_fs 2) = 128"
  using inode_placement [of sample_fs 8] inode_placement [of sample_fs 1] inode_placement [of sample_fs 2] by simp

text \<open>C24: The block map.  An entry behind the single or the double indirect pointer, once set, is
  the number that is found for its index, and only the block of pointers that holds it changes.\<close>

theorem block_map_roundtrip:
  assumes "fs_ok fs" and "map_home inode iblock fs = Some (b, k)" and "good_block fs b"
    and "k < fs_pointer_per_block fs" and "4 < budget fs"
  shows "\<exists>fs1 fs2. set_block_number inode no iblock rblock fs = Some (E_SUCCESS, inode, fs1) \<and>
     get_block_number inode iblock fs1 = Some (rblock, fs2) \<and>
     (\<forall>c. good_block fs c \<longrightarrow> c \<noteq> b \<longrightarrow> store fs1 c = store fs c)"
proof -
  obtain fs1 fs2 where "set_block_number inode no iblock rblock fs = Some (E_SUCCESS, inode, fs1)"
    "disk.evolves 3 (\<lambda>c. c(b := put32 (4 * unat k) rblock (c b))) fs fs1"
    "get_block_number inode iblock fs1 = Some (rblock, fs2)" using set_get_block_number [OF assms] by blast
  then show ?thesis by (auto simp: disk.evolves_def)
qed

theorem block_map_roundtrip_witness:
  "\<exists>fs1 fs2. set_block_number (put32 88 9 sample_inode) 1 13 77 sample_fs = Some (E_SUCCESS, put32 88 9 sample_inode, fs1) \<and>
     get_block_number (put32 88 9 sample_inode) 13 fs1 = Some (77, fs2)"
proof -
  have "map_home (put32 88 9 sample_inode) 13 sample_fs = Some (9, 1)"
    by (simp add: map_home_def map_slot_def)
  moreover have "good_block sample_fs 9" by (simp add: good_block_def on_disk_def)
  ultimately show ?thesis
    using block_map_roundtrip [OF sample_fs_ok(1), of "put32 88 9 sample_inode" 13 9 1 1 77]
    by (auto simp: sample_fs_ok)
qed



text \<open>C40: A full disk.  When no group has a free block, a write past the blocks of a file never
  returns: the failure of the allocation is ignored and the inode is as short as before.\<close>

theorem full_disk_write_diverges:
  assumes "find_group fs 0 (unat (fs_block_group_count fs)) = Some None"
    and "refresh_inode inode no fs = Some (inode, fs)" and "inode_blocks inode fs = Some n" and "n \<le> block"
  shows "inode_write_block inode no block buff fs = None"
  using grow_full_diverges [OF assms] by (simp add: inode_write_block_def)

theorem full_disk_write_diverges_witness:
  "inode_write_block sample_inode 1 2 (replicate 1024 0)
     (sample_fs\<lparr>fs_block_groups := put16 12 0 (fs_block_groups sample_fs)\<rparr>) = None"
proof -
  let ?f = "sample_fs\<lparr>fs_block_groups := put16 12 0 (fs_block_groups sample_fs)\<rparr>"
  have 1: "find_group ?f 0 (unat (fs_block_group_count ?f)) = Some None"
    by (simp add: rd16_def sample_fs_def)
  have "group_table ?f 0 = Some 2" by (simp add: group_table_def rd32_def sample_fs_def get32_put16_other)
  then have 2: "refresh_inode sample_inode 1 ?f = Some (sample_inode, ?f)"
    by (simp add: refresh_inode_def table_block_def table_offset_def inode_index_def fetch_def read_block_def
      sample_disk_def copy_out_def)
  have 3: "inode_blocks sample_inode ?f = Some 2" by (simp add: inode_blocks_def rd32_def sample_gets)
  show ?thesis by (rule full_disk_write_diverges [OF 1 2 3]) simp
qed

section \<open>A small directory\<close>

text \<open>On the same disk, inode 2 is a directory of one block with an entry for itself and one, named
  by the letter a, for inode 1.\<close>

definition sample_dir :: "u8 list" where
  "sample_dir = put32 40 8 (put32 28 2 (put32 4 1024 (replicate 128 0)))"

definition sample_dir_block :: "u8 list" where
  "sample_dir_block = [2,0,0,0, 12,0, 1,0, 46,0,0,0, 1,0,0,0, 0xF4,3, 1,0, 97] @ replicate 1003 0"

definition dir_fs :: ext2_fs where
  "dir_fs = sample_fs\<lparr>fs_disk := sample_disk(2048 := sample_inode @ sample_dir @ replicate 768 0, 8192 := sample_dir_block)\<rparr>"

lemma length_sample_dir [simp]: "length sample_dir = 128" "length sample_dir_block = 1024"
  by (simp_all add: sample_dir_def sample_dir_block_def)

lemma dir_fields [simp]:
  "fs_block_size dir_fs = 1024" "fs_inodes_per_group dir_fs = 8" "fs_block_group_count dir_fs = 1"
  "fs_inode_size dir_fs = 128" "fs_cache dir_fs = None" "fs_using_cache dir_fs = False"
  by (simp_all add: dir_fs_def)

lemma dir_fs_ok: "fs_ok dir_fs" "budget dir_fs = 2 ^ 32"
  by (simp_all add: fs_ok_def dir_fs_def sample_disk_def budget_def)

lemma dir_store: "store dir_fs 2 = sample_inode @ sample_dir @ replicate 768 0" "store dir_fs 8 = sample_dir_block"
  by (simp_all add: store_def cached_def dir_fs_def)

lemma dir_home: "inode_home dir_fs 2 = Some (2, 128)" "inode_home dir_fs 1 = Some (2, 0)"
proof -
  have "group_table dir_fs 0 = Some 2"
    by (simp add: group_table_def rd32_def dir_fs_def sample_fs_def get32_put16_other)
  then show "inode_home dir_fs 2 = Some (2, 128)" "inode_home dir_fs 1 = Some (2, 0)"
    by (simp_all add: inode_home_def table_block_def table_offset_def inode_index_def good_block_def on_disk_def)
qed

lemma dir_at: "inode_at dir_fs (2, 128) = sample_dir" "inode_at dir_fs (2, 0) = sample_inode"
  by (simp_all add: inode_at_def dir_store)

lemma dir_gets: "get32 sample_dir 4 = 1024" "get32 sample_dir 28 = 2" "file_block sample_dir 0 = 8"
  by (simp_all add: sample_dir_def file_block_def map_slot_def get32_put32_other)

lemma dir_direct: "direct_file dir_fs sample_dir 1"
  by (simp add: direct_file_def dir_gets good_block_def on_disk_def)

lemma dir_listing: "dir_entries dir_fs sample_dir = Some [(0, 2, [46]), (12, 1, [97])]"
proof -
  have e: "entry_fits sample_dir_block 0" "entry_size sample_dir_block 0 = 12" "get32 sample_dir_block 0 = 2"
    "entry_name sample_dir_block 0 = [46]"
    "entry_fits sample_dir_block 12" "entry_size sample_dir_block 12 = 1012" "get32 sample_dir_block 12 = 1"
    "entry_name sample_dir_block 12 = [97]"
    by (simp_all add: entry_fits_def entry_size_def entry_name_def sample_dir_block_def get16_def get32_def)
  have "entries (Suc (Suc (Suc k))) (\<lambda>j. store dir_fs (file_block sample_dir j)) 1024 1024 0 = Some [(0, 2, [46]), (12, 1, [97])]" for k
    by (simp add: Let_def dir_gets dir_store e)
  from this [of 1022] show ?thesis by (simp add: dir_entries_def dir_gets)
qed

lemmas dir_premises = dir_fs_ok(1) dir_home(1) dir_at(1) [symmetric] dir_direct

text \<open>C25: Looking a name up in a directory.  When the records of the directory tile its blocks, the
  scan is a search in the list of the used entries: a name that is not among them is not found, and the
  node that is returned for a name carries the inode number of the first entry with the name and the
  size recorded in that inode.\<close>

theorem directory_lookup:
  assumes "fs_ok fs" and "inode_home fs n = Some h" and "inode = inode_at fs h" and "direct_file fs inode k"
    and "0 < k" and "unat (get32 inode 4) \<le> k * bsize fs" and "dir_entries fs inode = Some es"
    and "unat (get32 inode 4) + 9 \<le> budget fs"
  shows "case find (matches name) es of
       None \<Rightarrow> \<exists>fs'. ext2_finddir n name fs = Some (None, fs')
     | Some (p, ino, nm) \<Rightarrow> \<forall>h'. length name < 128 \<longrightarrow> inode_home fs ino = Some h' \<longrightarrow>
         (\<exists>f fs'. ext2_finddir n name fs = Some (Some f, fs') \<and> fn_inode f = ino \<and> fn_name f = name \<and>
            fn_size f = get32 (inode_at fs h') 4)"
  using ext2_finddir_law [OF assms] by (auto split: option.split)

theorem directory_lookup_witness:
  "(\<exists>fs'. ext2_finddir 2 [98] dir_fs = Some (None, fs')) \<and>
   (\<exists>f fs'. ext2_finddir 2 [97] dir_fs = Some (Some f, fs') \<and> fn_inode f = 1 \<and> fn_size f = 100)"
proof -
  note look = directory_lookup [OF dir_premises _ _ dir_listing]
  show ?thesis
    using look [of "[98]"] look [of "[97]"] by (auto simp: dir_gets dir_fs_ok dir_home dir_at matches_def sample_gets)
qed





section \<open>The disk\<close>

text \<open>A controller that is never busy, with the sectors cut or filled to 512 bytes.\<close>

definition sector_view :: "ide \<Rightarrow> ide" where
  "sector_view I = I\<lparr>ide_sectors := (\<lambda>s l. take 512 (ide_sectors I s l @ replicate 512 0))\<rparr>"

definition ready_ports :: "ide ports" where
  "ready_ports = \<lparr>port_out = (\<lambda>a v I. ide_out (unat (a - 0x1F0)) v I),
     port_in = (\<lambda>a I. (if a = 0x1F7 \<and> ide_phase I = Sending then 0x48 else 0x40, I)),
     port_outs = (\<lambda>a bs I. ide_receive bs I),
     port_ins = (\<lambda>a n I. (ide_sector (sector_view I), I\<lparr>ide_phase := Idle\<rparr>))\<rparr>"

definition first_drive :: ata_dev where
  "first_drive = \<lparr>io_base = 0x1F0, dev_control = 0x3F6, dev_slave = 0, sectors_28 = 0x10000, sectors_48 = 0\<rparr>"

definition zero_disk :: ide where
  "zero_disk = \<lparr>ide_regs = (\<lambda>_. 0), ide_phase = Idle, ide_sectors = (\<lambda>_ _. [])\<rparr>"

lemma ready_contract: "ide_contract ready_ports (ucast (io_base first_drive)) sector_view (\<lambda>_. 0)"
proof -
  have "unat ((0x1F0 + of_nat r :: u16) - 0x1F0) = r" if "r \<le> 12" for r
    using that by (simp add: unat_of_nat_small)
  then have "ide_contract ready_ports 0x1F0 sector_view (\<lambda>_. 0)"
    unfolding ide_contract_def
    by (auto simp: ready_ports_def sector_view_def ide_out_def ide_receive_def ide_sector_def ide_drive_def ide_lba_def fun_eq_iff)
  then show ?thesis by (simp add: first_drive_def)
qed

text \<open>C4: the handlers of the disk move exactly the bytes of the request, to the place and in the order of the disk, and nothing
  else, when the request ends with a sector or in a sector it covers from the start; every other request runs over the end of the
  caller's buffer, into which or from which a whole sector is copied.\<close>

theorem disk_moves_bytes:
  assumes "ide_contract P (ucast (io_base dev)) view delay" and "ata_dev_ok dev" and "length tmp = 512"
    and "0 < unat n" and "unat a + unat n < 2 ^ 32" and "unat a + unat n \<le> unat (ata_max_offset dev)" and "length bs = unat n"
    and "0 < unat k" and "unat b + unat k < 2 ^ 32" and "unat b + unat k \<le> unat (ata_max_offset dev)" and "length buf = unat k"
  shows "if keeps_to_buffer (unat a) (unat n)
    then \<exists>d'. write_ata P tmp dev a n bs d = Some (n, d')
      \<and> ide_sectors (view d') (\<not> drive_of dev) = ide_sectors (view d) (\<not> drive_of dev)
      \<and> (if keeps_to_buffer (unat b) (unat k)
         then \<exists>d''. read_ata P tmp dev b k buf d' = Some (k, map (\<lambda>i. if unat a \<le> i \<and> i < unat a + unat n then bs ! (i - unat a)
             else disk_byte (ide_sectors (view d) (drive_of dev)) i) [unat b..<unat b + unat k], d'')
         else read_ata P tmp dev b k buf d' = None)
    else write_ata P tmp dev a n bs d = None"
proof (cases "keeps_to_buffer (unat a) (unat n)")
  case False
  then show ?thesis using write_ata_law(2) [OF assms(1-7)] by simp
next
  case True
  then obtain d' where d': "write_ata P tmp dev a n bs d = Some (n, d')"
      "ide_sectors (view d') (drive_of dev) = patched (ide_sectors (view d) (drive_of dev)) (unat a) bs"
      "ide_sectors (view d') (\<not> drive_of dev) = ide_sectors (view d) (\<not> drive_of dev)"
    using write_ata_law(1) [OF assms(1-7)] by blast
  have "map f [unat b..<unat b + unat k] = map (\<lambda>i. f (unat b + i)) [0..<unat k]" for f :: "nat \<Rightarrow> u8"
    by (rule nth_equalityI) simp_all
  then show ?thesis
    using True d' read_ata_law [OF assms(1-3,8-11), of d'] disk_bytes_patched [OF assms(9)] assms(7) by auto
qed

theorem disk_moves_bytes_witness:
  "(\<exists>d'. write_ata ready_ports (replicate 512 0) first_drive 0x100 0x300 (replicate 768 7) zero_disk = Some (0x300, d'))
    \<and> write_ata ready_ports (replicate 512 0) first_drive 0 100 (replicate 100 7) zero_disk = None"
proof -
  have dev: "ata_dev_ok first_drive" "unat (ata_max_offset first_drive) = 33554432"
    by (simp_all add: ata_dev_ok_def first_drive_def ata_max_offset_def)
  have "keeps_to_buffer (unat (0x100 :: u32)) (unat (0x300 :: u32))" "\<not> keeps_to_buffer (unat (0 :: u32)) (unat (100 :: u32))"
    by (simp_all add: keeps_to_buffer_def)
  then show ?thesis
    using disk_moves_bytes [OF ready_contract dev(1), of "replicate 512 0" "0x300" "0x100" "replicate 768 7" "0x300" "0x100" "replicate 768 0" zero_disk]
      disk_moves_bytes [OF ready_contract dev(1), of "replicate 512 0" 100 0 "replicate 100 7" 100 0 "replicate 100 0" zero_disk]
      dev(2) by auto
qed

definition holds_blocks :: "ata_dev \<Rightarrow> (u32 \<Rightarrow> u8 list) \<Rightarrow> ext2_fs \<Rightarrow> bool" where
  "holds_blocks dev D fs \<longleftrightarrow> (\<forall>b. (b + 1) * bsize fs \<le> unat (ata_max_offset dev) \<longrightarrow> (b + 1) * bsize fs < 2 ^ 32 \<longrightarrow>
     fs_disk fs (of_nat (b * bsize fs)) = disk_bytes D (b * bsize fs) (bsize fs))"

lemma holds_blocks_write:
  assumes "0 < bsize fs" and "(b + 1) * bsize fs < 2 ^ 32" and "length buff = bsize fs" and "holds_blocks dev D fs"
  shows "holds_blocks dev (patched D (b * bsize fs) buff) (dev_write (of_nat (b * bsize fs)) buff fs)"
  unfolding holds_blocks_def
proof (intro allI impI)
  let ?w = "bsize fs" and ?off = "of_nat (b * bsize fs) :: u32"
  have eq: "bsize (dev_write ?off buff fs) = ?w" by (simp add: dev_write_def)
  have off: "unat ?off = b * ?w" using assms(2) by (intro unat_of_nat_small) (simp add: add_lessD1)
  fix b' assume b': "(b' + 1) * bsize (dev_write ?off buff fs) \<le> unat (ata_max_offset dev)"
    "(b' + 1) * bsize (dev_write ?off buff fs) < 2 ^ 32"
  have "b' * ?w + ?w = (b' + 1) * ?w" by simp
  then have b32: "b' * ?w + ?w < 2 ^ 32" using b'(2) unfolding eq by (simp only:)
  have bw: "unat (of_nat (b' * ?w) :: u32) = b' * ?w" using b32 by (intro unat_of_nat_small) simp
  have "fs_disk (dev_write ?off buff fs) (of_nat (b' * ?w)) = disk_bytes (patched D (b * ?w) buff) (b' * ?w) ?w"
  proof (cases "b' = b")
    case True
    then show ?thesis unfolding disk_bytes_patched [OF b32]
      using assms(3) by (auto simp: dev_write_def intro!: nth_equalityI)
  next
    case False
    then have ne: "of_nat (b' * ?w) \<noteq> ?off" using off bw assms(1) by (metis mult_cancel2 not_gr_zero)
    have "Suc b' * ?w \<le> b * ?w \<or> Suc b * ?w \<le> b' * ?w"
      using False by (metis mult_le_mono1 not_less_eq_eq le_antisym Suc_leI not_le)
    then have "\<not> (b * ?w \<le> b' * ?w + i \<and> b' * ?w + i < b * ?w + ?w)" if "i < ?w" for i using that by auto
    then have "disk_bytes (patched D (b * ?w) buff) (b' * ?w) ?w = disk_bytes D (b' * ?w) ?w"
      unfolding disk_bytes_patched [OF b32] unfolding disk_bytes_def using assms(3) by (intro map_cong) auto
    then show ?thesis using ne assms(4) b' unfolding holds_blocks_def eq by (simp add: dev_write_def)
  qed
  then show "fs_disk (dev_write ?off buff fs) (of_nat (b' * bsize (dev_write ?off buff fs)))
      = disk_bytes (patched D (b * ?w) buff) (b' * bsize (dev_write ?off buff fs)) (bsize (dev_write ?off buff fs))"
    unfolding eq .
qed

text \<open>C5: for blocks of whole sectors the disk is the block device the ext2 driver works on: a transfer of a block changes exactly
  that block in the view of the file system, and a read returns what the view holds.\<close>

theorem disk_serves_blocks:
  assumes "ide_contract P (ucast (io_base dev)) view delay" and "ata_dev_ok dev" and "length tmp = 512"
    and "0 < bsize fs" and "bsize fs mod 512 = 0"
    and "(b + 1) * bsize fs < 2 ^ 32" and "(b + 1) * bsize fs \<le> unat (ata_max_offset dev)"
    and "length buff = bsize fs" and "holds_blocks dev (ide_sectors (view d) (drive_of dev)) fs"
  shows "(\<exists>d'. write_ata P tmp dev (of_nat (b * bsize fs)) (fs_block_size fs) buff d = Some (fs_block_size fs, d')
      \<and> holds_blocks dev (ide_sectors (view d') (drive_of dev)) (dev_write (of_nat (b * bsize fs)) buff fs))
    \<and> (\<exists>d'. read_ata P tmp dev (of_nat (b * bsize fs)) (fs_block_size fs) buff d =
        Some (fs_block_size fs, fs_disk fs (of_nat (b * bsize fs)), d')
      \<and> holds_blocks dev (ide_sectors (view d') (drive_of dev)) fs)"
proof -
  let ?w = "bsize fs" and ?D = "ide_sectors (view d) (drive_of dev)"
  let ?off = "of_nat (b * ?w) :: u32"
  have small: "b' * ?w < 2 ^ 32" if "(b' + 1) * ?w < 2 ^ 32" for b' using that by (simp add: add_lessD1)
  have off: "unat ?off = b * ?w" using small [OF assms(6)] by (intro unat_of_nat_small) simp
  have sum: "unat ?off + ?w = (b + 1) * ?w" using off by simp
  have keeps: "keeps_to_buffer (unat ?off) ?w"
    unfolding keeps_to_buffer_def sum by (rule disjI1) (use assms(5) in \<open>simp only: mod_eq_0_iff_dvd dvd_mult\<close>)
  note range = assms(1-4) assms(6,7) [folded sum] assms(8)
  obtain d1 where d1: "write_ata P tmp dev ?off (fs_block_size fs) buff d = Some (fs_block_size fs, d1)"
      "ide_sectors (view d1) (drive_of dev) = patched ?D (b * ?w) buff"
    using write_ata_law(1) [OF range keeps] off by auto
  have "holds_blocks dev (patched ?D (b * ?w) buff) (dev_write ?off buff fs)"
    using holds_blocks_write [OF assms(4,6,8,9)] .
  moreover have "fs_disk fs ?off = disk_bytes ?D (b * ?w) ?w"
    using assms(6,7,9) by (simp add: holds_blocks_def)
  moreover obtain d2 where "read_ata P tmp dev ?off (fs_block_size fs) buff d = Some (fs_block_size fs, disk_bytes ?D (b * ?w) ?w, d2)"
      "ide_sectors (view d2) = ide_sectors (view d)"
    using read_ata_law(1) [OF range keeps, of d] off by auto
  ultimately show ?thesis using d1 assms(9) by auto
qed

theorem disk_serves_blocks_witness:
  "\<exists>d'. write_ata ready_ports (replicate 512 0) first_drive 0x800 0x400 (replicate 1024 7) zero_disk = Some (0x400, d')
    \<and> holds_blocks first_drive (ide_sectors (sector_view d') False) (dev_write 0x800 (replicate 1024 7) (sample_fs\<lparr>fs_disk := \<lambda>_. replicate 1024 0\<rparr>))"
proof -
  let ?fs = "sample_fs\<lparr>fs_disk := \<lambda>_. replicate 1024 0\<rparr>"
  have dev: "ata_dev_ok first_drive" "unat (ata_max_offset first_drive) = 33554432" "drive_of first_drive = False"
    by (simp_all add: ata_dev_ok_def first_drive_def ata_max_offset_def drive_of_def)
  have "disk_bytes (ide_sectors (sector_view zero_disk) False) a n = replicate n 0" for a n
    by (rule nth_equalityI) (simp_all add: nth_disk_bytes disk_byte_def sector_view_def zero_disk_def)
  then have "holds_blocks first_drive (ide_sectors (sector_view zero_disk) (drive_of first_drive)) ?fs"
    by (simp add: holds_blocks_def dev(3))
  then show ?thesis
    using disk_serves_blocks [OF ready_contract dev(1), of "replicate 512 0" ?fs 2 "replicate 1024 7" zero_disk] dev(2,3) by simp
qed
section \<open>Linked lists\<close>

text \<open>Two lists, at 1 with the nodes 16 and 32, and at 2 with the node 48.\<close>

definition two_lists :: heap where
  "two_lists = \<lparr>
     nodes = (\<lambda>_. None)(
       16 := Some \<lparr>node_next = 32, node_prev = 0, node_value = 5, node_owner = 1\<rparr>,
       32 := Some \<lparr>node_next = 0, node_prev = 16, node_value = 6, node_owner = 1\<rparr>,
       48 := Some \<lparr>node_next = 0, node_prev = 0, node_value = 7, node_owner = 2\<rparr>),
     lists = (\<lambda>_. None)(
       1 := Some \<lparr>list_head = 16, list_tail = 32, list_length = 2\<rparr>,
       2 := Some \<lparr>list_head = 48, list_tail = 48, list_length = 1\<rparr>)\<rparr>"

lemma two_lists_dll: "dll two_lists 1 [16, 32]" "dll two_lists 2 [48]"
  by (simp_all add: two_lists_def dll_def)

text \<open>A list used as a queue is first-in first-out.  Inserting an item at the end of a
  well-formed list with a fresh node and then dequeuing returns the oldest node, leaves the
  others and the new one in order, and keeps every other list of the heap as it was.\<close>

theorem list_queue_fifo:
  assumes "dll h l ns" and "nodes h n = None" and "n \<noteq> NULL" and "dll h k ms" and "k \<noteq> l"
  shows "\<exists>h1 h2. list_insert n l item h = Some (n, h1) \<and>
     list_dequeue l h1 = Some (hd (ns @ [n]), h2) \<and> dll h2 l (tl (ns @ [n])) \<and>
     value_of h2 n = item \<and> (\<forall>m. m \<noteq> n \<longrightarrow> value_of h2 m = value_of h m) \<and> dll h2 k ms"
proof -
  have n: "n \<notin> set ns" "n \<notin> set ms"
    using assms(1,2,4) by (fastforce dest: dll_node)+
  obtain h1 where h1: "list_insert n l item h = Some (n, h1)" "dll h1 l (ns @ [n])"
    "map_option node_value (nodes h1 n) = Some item"
    "only_touches l (insert n (set ns)) (new_node n item h) h1"
    using list_insert_dll [OF assms(1-3)] by blast
  obtain h2 where h2: "list_dequeue l h1 = Some (hd (ns @ [n]), h2)" "dll h2 l (tl (ns @ [n]))"
    "only_touches l (set (ns @ [n])) h1 h2"
    using list_dequeue_dll [OF h1(2)] by auto
  have k0: "dll (new_node n item h) k ms"
    using assms(4) n(2) by (simp add: dll_def new_node_def)
  have disj: "set ms \<inter> insert n (set ns) = {}"
    using dll_disjoint [OF assms(1,4)] assms(5) n(2) by auto
  have "dll h2 k ms"
    using dll_frame [OF h2(3) dll_frame [OF h1(4) k0 assms(5) disj] assms(5)] disj by simp
  moreover have val: "value_of h2 m = value_of (new_node n item h) m" for m
    using only_touches_value [OF h1(4)] only_touches_value [OF h2(3)] by simp
  ultimately show ?thesis
    using h1(1) h2(1,2) by (auto simp: val) (auto simp: value_of_def new_node_def)
qed

theorem list_queue_fifo_witness:
  "\<exists>h1 h2. list_insert 64 1 9 two_lists = Some (64, h1) \<and> list_dequeue 1 h1 = Some (16, h2) \<and>
     dll h2 1 [32, 64] \<and> value_of h2 64 = 9 \<and> dll h2 2 [48]"
proof -
  have "nodes two_lists 64 = None" by (simp add: two_lists_def)
  from list_queue_fifo [OF two_lists_dll(1) this _ two_lists_dll(2), of 9] show ?thesis by auto
qed

text \<open>Deleting a node.  From a list that contains the node exactly that node is
  removed, it is left without an owner, and another list of the heap stays as it was; a node
  of another list is refused by the assertion.\<close>

theorem list_delete_exact:
  assumes "dll h l ns" and "n \<in> set ns" and "dll h k ms" and "k \<noteq> l"
  shows "(\<exists>h'. list_delete l n h = Some h' \<and> dll h' l (remove1 n ns) \<and> dll h' k ms \<and>
       map_option node_owner (nodes h' n) = Some NULL) \<and> list_delete k n h = None"
proof -
  obtain h' where h': "list_delete l n h = Some h'" "dll h' l (remove1 n ns)"
    "only_touches l (set ns) h h'" "map_option node_owner (nodes h' n) = Some NULL"
    using list_delete_remove1 [OF assms(1,2)] by blast
  have "set ms \<inter> set ns = {}"
    using dll_disjoint [OF assms(1,3)] assms(4) by auto
  then have "dll h' k ms"
    by (rule dll_frame [OF h'(3) assms(3,4)])
  moreover have "n \<noteq> NULL"
    using dll_not_NULL [OF assms(1)] assms(2) by auto
  then obtain nd where "rd_node h n = Some nd" "node_owner nd = l"
    using dll_node [OF assms(1,2)] by (auto simp: rd_node_def)
  ultimately show ?thesis
    using h' assms(4) list_delete_panics [of h n nd k] by auto
qed

theorem list_delete_exact_witness:
  "\<exists>h'. list_delete 1 16 two_lists = Some h' \<and> dll h' 1 [32] \<and> dll h' 2 [48]"
  using list_delete_exact [OF two_lists_dll(1) _ two_lists_dll(2), of 16] by auto

text \<open>Merging two lists concatenates them: the target owns the nodes of both, in
  order, and the header of the source is gone.\<close>

theorem list_merge_concatenates:
  assumes "dll h t ts" and "dll h s ss" and "t \<noteq> s"
  shows "\<exists>h'. list_merge t s h = Some h' \<and> dll h' t (ts @ ss) \<and> lists h' s = None \<and>
     list_size t h' = Some (int (length ts + length ss))"
  using list_merge_dll [OF assms] by (auto simp: list_size_dll)

theorem list_merge_concatenates_witness:
  "\<exists>h'. list_merge 1 2 two_lists = Some h' \<and> dll h' 1 [16, 32, 48] \<and> list_size 1 h' = Some 3"
  using list_merge_concatenates [OF two_lists_dll] by auto

text \<open>Removing by index, on every index.  Below the length the node at that index is
  removed; beyond it nothing happens; but the index equal to the length passes the guard and
  the call dereferences \<^verbatim>\<open>NULL\<close>.\<close>

theorem list_remove_by_index:
  assumes "dll h l ns"
  shows "(unat i < length ns \<longrightarrow> (\<exists>h'. list_remove l i h = Some h' \<and>
       dll h' l (take (unat i) ns @ drop (Suc (unat i)) ns))) \<and>
     (unat i = length ns \<longrightarrow> list_remove l i h = None) \<and>
     (length ns < unat i \<longrightarrow> list_remove l i h = Some h)"
  using list_remove_dll [OF assms] list_remove_at_length [OF assms] list_remove_beyond [OF assms]
  by blast

theorem list_remove_by_index_witness:
  "(\<exists>h'. list_remove 1 1 two_lists = Some h' \<and> dll h' 1 [16]) \<and>
   list_remove 1 2 two_lists = None \<and> list_remove 1 3 two_lists = Some two_lists"
  using list_remove_by_index [OF two_lists_dll(1), of 1] list_remove_by_index [OF two_lists_dll(1), of 2]
    list_remove_by_index [OF two_lists_dll(1), of 3] by auto

section \<open>Ring buffers and pipes\<close>

text \<open>Bytes pass through a ring buffer unchanged and in order.  A write that fits is
  accepted whole without sleeping, and a read after it returns the oldest bytes, leaving the
  rest.\<close>

theorem ring_buffer_roundtrip:
  assumes "rb_inv rb" and "length (rb_contents rb) + length bs \<le> rb_cap rb" and "bs \<noteq> []" and "0 < sz"
  shows "\<exists>rb1 rb2. ring_buffer_write bs env (rb, w) = Some (Some (length bs), env, rb1, w) \<and>
     ring_buffer_read sz env' (rb1, w) =
       Some (Some (take (unat sz) (rb_contents rb @ bs)), env', rb2, w) \<and>
     rb_inv rb2 \<and> rb_contents rb2 = drop (unat sz) (rb_contents rb @ bs)"
proof -
  from ring_buffer_write_fits [OF assms(1,2), of env w] obtain rb1 where
    rb1: "ring_buffer_write bs env (rb, w) = Some (Some (length bs), env, rb1, w)"
    "rb_inv rb1" "rb_contents rb1 = rb_contents rb @ bs" by (elim exE conjE)
  from rb1(3) assms(3) have "rb_contents rb1 \<noteq> []" by simp
  from ring_buffer_read_ready [OF rb1(2) this assms(4), of env' w] obtain rb2 where
    "ring_buffer_read sz env' (rb1, w) = Some (Some (take (unat sz) (rb_contents rb1)), env', rb2, w)"
    "rb_inv rb2" "rb_contents rb2 = drop (unat sz) (rb_contents rb1)" by (elim exE conjE)
  with rb1 show ?thesis by (simp only:) blast
qed

theorem ring_buffer_roundtrip_witness:
  "\<exists>rb1 rb2. ring_buffer_write [1, 2] [] (ring_buffer_create [0, 0, 0, 0] 4, ()) =
       Some (Some 2, [], rb1, ()) \<and>
     ring_buffer_read 1 [] (rb1, ()) = Some (Some [1], [], rb2, ()) \<and> rb_contents rb2 = [2]"
proof -
  have "rb_inv (ring_buffer_create [0, 0, 0, 0] 4)" "rb_contents (ring_buffer_create [0, 0, 0, 0] 4) = []"
    "rb_cap (ring_buffer_create [0, 0, 0, 0] 4) = 3"
    using rb_inv_create [of "[0, 0, 0, 0]" 4] by simp_all
  then show ?thesis
    using ring_buffer_roundtrip [of "ring_buffer_create [0, 0, 0, 0] 4" "[1, 2]" 1 "[]" "()" "[]"] by auto
qed

text \<open>C38: However the passes of a reader and a writer interleave, from a fresh buffer every
  byte the reader has got was sent, in the same order, and what is missing is exactly what the
  buffer holds, which stays below its size.\<close>

theorem ring_buffer_interleaving:
  assumes "length mem = unat sz" and "0 < sz" and "rb_step\<^sup>*\<^sup>* (rb_start mem sz bs) s"
  shows "rs_sent s = rs_got s @ rb_contents (rs_ring s) \<and> length (rb_contents (rs_ring s)) < unat sz"
proof -
  have "rb_fifo (unat sz - 1) s"
    using rb_steps_fifo [OF assms(3) rb_start_fifo [OF assms(1,2)]] .
  then have "rb_inv (rs_ring s)" "rb_cap (rs_ring s) = unat sz - 1"
    "rs_sent s = rs_got s @ rb_contents (rs_ring s)"
    by (simp_all add: rb_fifo_def)
  moreover from this rb_contents_cap [of "rs_ring s"] have
    "length (rb_contents (rs_ring s)) \<le> unat sz - 1" by simp
  moreover have "0 < unat sz" using assms(2) by (simp add: word_less_nat_alt)
  ultimately show ?thesis by linarith
qed

theorem ring_buffer_interleaving_witness:
  "rs_sent (rb_start [0, 0] 2 [1, 2]) = [] \<and>
   length (rb_contents (rs_ring (rb_start [0, 0] 2 [1, 2]))) < 2"
  using ring_buffer_interleaving [of "[0, 0]" 2 "[1, 2]" "rb_start [0, 0] 2 [1, 2]"]
  by (simp add: rb_start_def)

text \<open>C39: A wakeup can be lost.  From a fresh buffer of two bytes a run leads to a state in
  which the buffer holds a byte while the reader and the writer both sleep, and no step is
  possible any more.\<close>

theorem ring_buffer_lost_wakeup:
  "\<exists>t. rb_step\<^sup>*\<^sup>* (rb_start [0, 0] 2 [1, 2]) t \<and> rb_contents (rs_ring t) = [1] \<and>
     (\<nexists>u. rb_step t u)"
  using lost_wakeup both_asleep_stuck by metis

section \<open>Memory and strings\<close>

text \<open>A memory that holds the given bytes from address 0x100 on, and zeros elsewhere.\<close>

definition text_mem :: "u8 list \<Rightarrow> mem" where
  "text_mem s a = Some (byte_at s (unat (a - 0x100)))"

lemma text_mem_mapped: "words_mapped (text_mem s)" "block_mapped (text_mem s) a n"
  by (simp_all add: words_mapped_def block_mapped_def text_mem_def)

lemma text_mem_string: "cstr_at (text_mem [104, 101, 108, 108, 111, 0, 120]) 0x100 [104, 101, 108, 108, 111]"
  by (simp add: text_mem_def byte_at_def at_def)

text \<open>C15: \<^verbatim>\<open>memmove\<close> moves a block also when source and target overlap: the target holds afterwards what the source held
  before, and no other byte changes; the copies by words and by bytes, upwards and downwards, agree.\<close>

theorem memmove_moves:
  assumes "block_mapped m s (unat n)" and "block_mapped m d (unat n)" and "unat s + unat n < 2 ^ 32" and "unat d + unat n < 2 ^ 32"
  shows "\<exists>m'. memmove d s n m = Some (d, m') \<and> (\<forall>i<unat n. m' (d + of_nat i) = m (s + of_nat i))
    \<and> (\<forall>a. \<not> unat (a - d) < unat n \<longrightarrow> m' a = m a)"
proof -
  have "moving d s (unat n) m"
    using assms(1,2) unat_bound [of n] by (simp add: moving_def)
  moreover have "moved_mem d s 0 (unat n) m (d + of_nat i) = m (s + of_nat i)" if "i < unat n" for i
    using that unat_bound [of n] by (simp add: moved_mem_def unat_of_nat_small)
  ultimately show ?thesis
    using memmove_law [OF _ assms(3,4)] moved_outside by blast
qed

theorem memmove_moves_witness:
  "\<exists>m'. memmove 0x102 0x100 5 (text_mem [104, 101, 108, 108, 111]) = Some (0x102, m') \<and> m' 0x106 = Some 111 \<and> m' 0x101 = Some 101"
proof -
  obtain m' where m': "memmove 0x102 0x100 5 (text_mem [104, 101, 108, 108, 111]) = Some (0x102, m')"
    "\<forall>i<unat (5 :: u32). m' (0x102 + of_nat i) = text_mem [104, 101, 108, 108, 111] (0x100 + of_nat i)"
    "\<forall>a. \<not> unat (a - 0x102) < unat (5 :: u32) \<longrightarrow> m' a = text_mem [104, 101, 108, 108, 111] a"
    using memmove_moves [of "text_mem [104, 101, 108, 108, 111]" "0x100" 5 "0x102"] text_mem_mapped(2) by auto
  have "m' 0x106 = text_mem [104, 101, 108, 108, 111] 0x104"
    using m'(2) [rule_format, of 4] by simp
  moreover have "m' 0x101 = text_mem [104, 101, 108, 108, 111] 0x101"
    using m'(3) [rule_format, of "0x101"] by (simp add: unsigned_minus_1_eq_mask mask_eq_exp_minus_1)
  ultimately show ?thesis
    using m'(1) by (intro exI [of _ m']) (simp add: text_mem_def byte_at_def at_def)
qed

text \<open>C16: the searches that read memory by words of four bytes give what the string functions on values give, and the
  block searches find the first and the last byte; no byte outside the aligned words of the string is read.\<close>

theorem word_searches_refine:
  assumes "words_mapped m" and "cstr_at m a s" and "block_mapped m b (unat n)"
  shows "strlen_mem a m = Some (of_nat (length s))
    \<and> strchrnul_mem a c m = Some (a + of_nat (length s - length (strchrnul s c)))
    \<and> strchr_mem a c m = Some (case strchr s c of None \<Rightarrow> NULL | Some r \<Rightarrow> a + of_nat (length s - length r))
    \<and> memchr b c n m = Some (first_byte b c (unat n) m) \<and> memrchr b c n m = Some (last_byte b c (unat n) m)"
  using strlen_law [OF assms(1,2)] strchrnul_law [OF assms(1,2)] strchr_law [OF assms(1,2)] memchr_law [OF assms(3)] memrchr_law [OF assms(3)]
  by simp

theorem word_searches_refine_witness:
  "strlen_mem 0x100 (text_mem [104, 101, 108, 108, 111, 0, 120]) = Some 5
    \<and> strchr_mem 0x100 108 (text_mem [104, 101, 108, 108, 111, 0, 120]) = Some 0x102
    \<and> memrchr 0x100 108 5 (text_mem [104, 101, 108, 108, 111, 0, 120]) = Some 0x103"
proof -
  note w = word_searches_refine [OF text_mem_mapped(1) text_mem_string text_mem_mapped(2), of 108 "0x100" 5]
  have five: "unat (5 :: u32) = Suc (Suc (Suc (Suc (Suc 0))))" by simp
  have "last_byte 0x100 108 (unat (5 :: u32)) (text_mem [104, 101, 108, 108, 111, 0, 120]) = 0x103"
    unfolding five by (simp add: text_mem_def byte_at_def at_def)
  then show ?thesis
    using w by (simp add: strchr_def strchrnul_def drop_span at_def Let_def)
qed

text \<open>\<^verbatim>\<open>strcpy\<close> and \<^verbatim>\<open>strcat\<close> put the string to the target or to the end of the string there, with its terminator, and
  change nothing else.\<close>

theorem string_copies:
  assumes "string_move (d + of_nat (length u)) s t m" and "cstr_at m d u" and "length u + length t < 2 ^ 32"
  shows "\<exists>m'. strcat d s m = Some (d, m') \<and> cstr_at m' (d + of_nat (length u)) t
      \<and> (\<forall>a. \<not> unat (a - (d + of_nat (length u))) < Suc (length t) \<longrightarrow> m' a = m a)
      \<and> strcpy (d + of_nat (length u)) s m = Some (d + of_nat (length u), m')"
proof -
  let ?e = "d + of_nat (length u)"
  have t: "cstr_at m s t" using assms(1) by (simp add: string_move_def)
  show ?thesis
    using strcat_law [OF assms(2,1)] stpcpy_law [OF assms(1)] moved_string [OF t, of ?e] moved_outside [where d = ?e] assms(3)
    by (intro exI [of _ "moved_mem ?e s 0 (Suc (length t)) m"]) (simp add: strcpy_def)
qed

theorem string_copies_witness:
  "\<exists>m'. strcat 0x200 0x100 (text_mem [104, 105]) = Some (0x200, m') \<and> cstr_at m' 0x200 [104, 105]"
proof -
  have c: "cstr_at (text_mem [104, 105]) 0x100 [104, 105]" "cstr_at (text_mem [104, 105]) 0x200 []"
    by (simp_all add: text_mem_def byte_at_def at_def)
  have "upward 0x200 0x100 (Suc (length [104, 105 :: u8]))"
    by (rule upwardI) simp_all
  then have "string_move (0x200 + of_nat (length ([] :: cstring))) 0x100 [104, 105] (text_mem [104, 105])"
    using text_mem_mapped c(1) by (simp add: string_move_def moving_def)
  then show ?thesis using string_copies [OF _ c(2)] by fastforce
qed

text \<open>C17: \<^verbatim>\<open>strstr\<close> with a needle of up to four bytes finds the first occurrence, and says so when there is none.\<close>

theorem strstr_finds_first:
  assumes "nul_free h" and "nul_free n" and "length n \<le> 4"
  shows "\<exists>r. strstr junk h n = Some r \<and> (case r of
      Some t \<Rightarrow> (\<exists>p. h = p @ t \<and> take (length n) t = n \<and> (\<forall>k<length p. take (length n) (drop k h) \<noteq> n))
    | None \<Rightarrow> \<forall>k. take (length n) (drop k h) \<noteq> n)"
proof (cases "find_sub n h")
  case None
  then show ?thesis using strstr_law [OF assms] find_sub_none by fastforce
next
  case (Some t)
  then obtain p where p: "h = p @ t" "take (length n) t = n" using find_sub_suffix by blast
  then have "take (length n) (drop k h) \<noteq> n" if "k < length p" for k
    using find_sub_first [OF Some, of k] that by simp
  then show ?thesis using strstr_law [OF assms] Some p by auto
qed

theorem strstr_finds_first_witness:
  "\<exists>r. strstr (\<lambda>_. 0) [97, 98, 97, 98, 99] [97, 98, 99] = Some r \<and> r \<noteq> None"
proof -
  let ?h = "[97, 98, 97, 98, 99] :: cstring" and ?n = "[97, 98, 99] :: cstring"
  have h: "nul_free ?h" "nul_free ?n" "length ?n \<le> 4" by (simp_all add: nul_free_def)
  have found: "take (length ?n) (drop 2 ?h) = ?n" by simp
  obtain r where r: "strstr (\<lambda>_. 0) ?h ?n = Some r"
      "r = None \<longrightarrow> (\<forall>k. take (length ?n) (drop k ?h) \<noteq> ?n)"
    using strstr_finds_first [OF h, of "\<lambda>_. 0"] by (elim exE conjE) (rule that, assumption, rule impI, hypsubst, simp only: option.case simp_thms)
  then have "r \<noteq> None" using found by blast
  then show ?thesis using r(1) by blast
qed



text \<open>C19: \<^verbatim>\<open>split\<close> trims its buffer and returns the fields between runs of the delimiter; a string of four bytes or more
  without a delimiter is copied into a block of four bytes, and a string of spaces is terminated behind its end.\<close>

theorem split_gives_fields:
  assumes "\<forall>c\<in>set f. space c" and "\<forall>c\<in>set g. space c" and "nul_free core"
    and "core = [] \<or> \<not> space (hd core) \<and> \<not> space (last core)" and "core = [] \<longrightarrow> g = [] \<and> f \<noteq> []"
  shows "split_string (f @ core @ g @ 0 # r) d = (if core = [] then (if r = [] then None else Some [[]])
    else if d \<in> set core then Some (delim_fields d core) else if length core < 4 then Some [core] else None)"
proof (cases "core = []")
  case True
  then have f: "g = []" "f \<noteq> []" using assms(5) by simp_all
  show ?thesis
  proof (cases r)
    case Nil
    then show ?thesis using trim_blank(1) [OF f(2) assms(1)] True f(1) by (simp add: split_string_def)
  next
    case (Cons a list)
    then obtain b where "trim (f @ 0 # a # list) = Some b" "buf_string b = []"
      using trim_blank(2) [OF f(2) assms(1)] by blast
    then show ?thesis using Cons True f(1) by (simp add: split_string_def Let_def)
  qed
next
  case False
  then show ?thesis using split_string_law [OF assms(1,2) False _ _ assms(3)] assms(4) by simp
qed

theorem split_gives_fields_witness:
  "split_string [32, 97, 44, 44, 98, 0] 44 = Some [[97], [98]] \<and> split_string [97, 98, 99, 100, 0] 44 = None \<and> split_string [32, 0] 44 = None"
proof -
  have sp: "space 32" "\<not> space 97" "\<not> space 98" "\<not> space 100" by (simp_all add: isspace_def)
  have "delim_fields 44 [97, 44, 44, 98] = [[97], [98]]"
    by (simp add: delim_fields_def word_runs.simps)
  then show ?thesis
    using split_gives_fields [of "[32]" "[]" "[97, 44, 44, 98]" "[]" 44] split_gives_fields [of "[]" "[]" "[97, 98, 99, 100]" "[]" 44]
      split_gives_fields [of "[32]" "[]" "[]" "[]" 44] sp by (simp add: nul_free_def)
qed

section \<open>Formatted numbers\<close>

text \<open>C20: a decimal number is printed with all its digits and zeros to the width, and \<^verbatim>\<open>atoi\<close> reads it back, also after
  spaces and a sign; above 1410065407 the bound of the digit counter wraps and more leading zeros appear.\<close>

theorem printed_number_is_read:
  assumes "\<forall>c\<in>set sp. space c"
  shows "\<exists>n ds. print_dec v w = Some ds \<and> 1 \<le> n \<and> n \<le> 32 \<and> length ds = max n (unat w) \<and> (\<forall>c\<in>set ds. is_digit c)
    \<and> (v \<le> 1410065407 \<longrightarrow> n = 1 \<or> 10 ^ (n - 1) \<le> unat v)
    \<and> (v < 0x80000000 \<longrightarrow> atoi (sp @ ds) = Some (int (unat v))) \<and> (v \<le> 0x80000000 \<longrightarrow> atoi (sp @ 45 # ds) = Some (- int (unat v)))"
proof -
  obtain n ds where d: "print_dec v w = Some (replicate (unat w - n) 48 @ ds)" "length ds = n" "1 \<le> n" "n \<le> 32" "\<forall>c\<in>set ds. is_digit c"
    "dec_value 0 ds = unat v" "v \<le> 1410065407 \<longrightarrow> n = 1 \<or> 10 ^ (n - 1) \<le> unat v"
    using print_dec_law by metis
  let ?out = "replicate (unat w - n) 48 @ ds"
  have out: "?out \<noteq> []" "\<forall>c\<in>set ?out. is_digit c" "dec_value 0 ?out = unat v"
    using d by (auto simp: is_digit_def dec_value_append dec_value_zeros)
  note rd = atoi_law [OF assms out(1,2), of "[]", simplified append_Nil2]
  have "length ?out = max n (unat w)" using d(2) by (simp add: max_def)
  then show ?thesis
    using d(1,3,4,7) out rd by (intro exI [of _ n] exI [of _ ?out]) (simp add: word_less_nat_alt word_le_nat_alt)
qed

theorem printed_number_is_read_witness: "\<exists>ds. print_dec 1234 6 = Some ds \<and> length ds = 6 \<and> atoi (32 # ds) = Some 1234"
proof -
  obtain n ds where d: "print_dec 1234 6 = Some ds" "length ds = max n (unat (6 :: u32))" "n = 1 \<or> 10 ^ (n - 1) \<le> unat (1234 :: u32)"
    "atoi ([32] @ ds) = Some (int (unat (1234 :: u32)))"
    using printed_number_is_read [of "[32]" 1234 6] by (auto simp: isspace_def)
  have "n \<le> 6"
  proof (rule ccontr)
    assume "\<not> n \<le> 6"
    then have "(10 :: nat) ^ 6 \<le> 10 ^ (n - 1)" by (intro power_increasing) simp_all
    then show False using d(3) \<open>\<not> n \<le> 6\<close> by auto
  qed
  then show ?thesis using d by auto
qed

text \<open>A line through a Unix pipe.  What is written up to and including a newline is what a
  read with a large enough buffer returns, and the rest stays in the pipe.\<close>

theorem unixpipe_line_roundtrip:
  assumes "length mem = 512" and "10 \<notin> set line" and "length line + 1 + length tail \<le> 511"
    and "length line < unat sz"
  shows "\<exists>s s'. write_unixpipe (line @ 10 # tail) env (make_unix_pipe mem) =
       Some (Finished (length line + 1 + length tail), s) \<and>
     read_unixpipe sz env' s = Some (Finished (line @ [10]), s') \<and> rb_contents (fst s') = tail"
  by (rule unixpipe_roundtrip [OF assms])

theorem unixpipe_line_roundtrip_witness:
  "\<exists>s s'. write_unixpipe [104, 105, 10, 120] [] (make_unix_pipe (replicate 512 0)) = Some (Finished 4, s) \<and>
     read_unixpipe 80 [] s = Some (Finished [104, 105, 10], s') \<and> rb_contents (fst s') = [120]"
proof -
  have "length [104, 105 :: u8] + 1 + length [120 :: u8] = 4" by simp
  with unixpipe_line_roundtrip [of "replicate 512 0" "[104, 105]" "[120]" 80 "[]" "[]"] show ?thesis by auto
qed

text \<open>A pipe keeps what fits.  A write that fits is accepted whole; a longer one stores the
  bytes that fit, in order, and sleeps.\<close>

theorem pipe_write_fills:
  assumes "pipe_inv p" and "\<not> p_dead p" and "length (pipe_contents p) \<le> pipe_cap p"
  shows "\<exists>p'. write_pipe bs [] p = Some (if length (pipe_contents p) + length bs \<le> pipe_cap p
         then Returned (length bs) else Sleeping, p') \<and> pipe_inv p' \<and>
     pipe_contents p' = pipe_contents p @ take (pipe_cap p - length (pipe_contents p)) bs"
proof (cases "length (pipe_contents p) + length bs \<le> pipe_cap p")
  case True
  with write_pipe_fits [OF assms(1,2) True, of "[]"] show ?thesis by auto
next
  case False
  then have "pipe_cap p < length (pipe_contents p) + length bs" by simp
  with write_pipe_sleeps [OF assms(1,2) this assms(3)] False show ?thesis by auto
qed

theorem pipe_write_fills_witness:
  "\<exists>p'. write_pipe [1, 2, 3] [] (make_pipe [0, 0, 0] 3) = Some (Sleeping, p') \<and> pipe_contents p' = [1, 2]"
proof -
  have m: "pipe_inv (make_pipe [0, 0, 0] 3)" "pipe_contents (make_pipe [0, 0, 0] 3) = []"
    "pipe_cap (make_pipe [0, 0, 0] 3) = 2"
    using make_pipe_inv [of "[0, 0, 0]" 3] by simp_all
  have "\<not> p_dead (make_pipe [0, 0, 0] 3)" by (simp add: make_pipe_def)
  from pipe_write_fills [OF m(1) this, of "[1, 2, 3]"] m(2,3) show ?thesis by auto
qed

section \<open>Strings\<close>

text \<open>\<^verbatim>\<open>tokenize\<close> cuts a string into the maximal runs of bytes that are no delimiters.\<close>

theorem tokenize_is_word_runs:
  assumes "nul_free d"
  shows "tokenize s d = word_runs (\<lambda>x. x \<in> set d) s"
  by (rule tokenize_word_runs [OF assms])

theorem tokenize_is_word_runs_witness: "tokenize [32, 97, 98, 32, 32, 99] [32] = [[97, 98], [99]]"
  using tokenize_is_word_runs [of "[32]" "[32, 97, 98, 32, 32, 99]"]
  by (simp add: nul_free_def word_runs.simps [of _ "_ # _"] word_runs.simps [of _ "[]"])

text \<open>The searches through bit sets agree with their definitions: the length of the prefix of
  bytes in, or outside, a set, and the rest from the first byte in the set.\<close>

theorem set_searches:
  assumes "nul_free c"
  shows "strspn s c = length (takeWhile (\<lambda>x. x \<in> set c) s) \<and>
     strcspn s c = length (takeWhile (\<lambda>x. x \<notin> set c) s) \<and>
     strpbrk s c = (let r = dropWhile (\<lambda>x. x \<notin> set c) s in if r = [] then None else Some r)"
  using strspn_eq [OF assms] strcspn_eq [OF assms] strpbrk_eq [OF assms] by blast

theorem set_searches_witness: "strspn [97, 98, 99] [98, 97] = 2 \<and> strcspn [97, 98, 99] [99] = 2"
  using set_searches [of "[98, 97]" "[97, 98, 99]"] set_searches [of "[99]" "[97, 98, 99]"]
  by (simp add: nul_free_def)

section \<open>Hash maps and arguments\<close>

text \<open>C21: A hash map is a finite map.  From a new map, of either kind of key, any sequence of
  insertions succeeds, and afterwards a lookup of a key finds its last value, and membership holds of
  exactly the keys that were inserted.\<close>

theorem hashmap_is_map:
  fixes kvs :: "(cstring \<times> 'v option) list"
  assumes "0 < sz" and "sz < 0x40000000" and "\<forall>kv \<in> set kvs. nul_free (fst kv)" and "nul_free k"
  shows "\<exists>m. run_puts hashmap_set kvs (hashmap_create sz) = Some m \<and>
     hashmap_get m k = Some (null_join (map_of (rev kvs) k)) \<and>
     hashmap_has m k = Some (k \<in> fst ` set kvs)"
proof -
  have ok: "hm_ok {k. nul_free k} (hashmap_create sz :: (cstring, 'v) hashmap)"
    "hm_abs (hashmap_create sz :: (cstring, 'v) hashmap) = (\<lambda>_. None)"
    using create_ok [OF assms(1,2)] by simp_all
  have keys: "fst ` set kvs \<subseteq> {k. nul_free k}" using assms(3) by auto
  obtain m where m: "run_puts hashmap_set kvs (hashmap_create sz) = Some m" "hm_ok {k. nul_free k} m"
    "hm_abs m = map_of (rev kvs)"
    using hm.run_puts_correct [OF ok(1) keys] ok(2) by auto
  with hm.get_law [OF m(2), of k] hm.has_law [OF m(2), of k] assms(4) show ?thesis
    by (auto simp: dom_map_of_conv_image_fst)
qed

theorem hashmap_is_map_witness:
  "\<exists>m. run_puts hashmap_set [([97], Some 1), ([98], Some 2), ([97], Some 3)] (hashmap_create 10) = Some m \<and>
     hashmap_get m [97] = Some (Some (3::nat)) \<and> hashmap_has m [99] = Some False"
proof -
  let ?kvs = "[([97], Some 1), ([98], Some 2), ([97], Some 3)] :: (cstring \<times> nat option) list"
  have n: "\<forall>kv \<in> set ?kvs. nul_free (fst kv)" "nul_free [97]" "nul_free [99]" by (simp_all add: nul_free_def)
  from hashmap_is_map [OF _ _ n(1,2), of 10] hashmap_is_map [OF _ _ n(1,3), of 10] show ?thesis
    by auto
qed

text \<open>Removal, on every key.  A key is removed and its value returned, and a key that is not
  there is left alone, except that a key which is not there and whose bucket holds exactly one entry
  makes the call dereference \<^verbatim>\<open>NULL\<close>.\<close>

theorem hashmap_removal:
  assumes "hm_ok D m" and "k \<in> D"
  shows "if length (hm_entries m ! hm_slot m k) = 1 \<and> k \<notin> dom (hm_abs m) then hashmap_remove m k = None
     else \<exists>m'. hashmap_remove m k = Some (null_join (hm_abs m k), m') \<and> hm_ok D m' \<and>
       hm_abs m' = (hm_abs m)(k := None)"
  using hashmap_remove_law [OF assms] hashmap_remove_single [OF assms] by auto

theorem hashmap_removal_witness:
  "(\<exists>m m'. hashmap_set (hashmap_create_int 1) 5 (Some 7) = Some (None, m) \<and>
     hashmap_remove m 6 = None \<and> hashmap_remove m 5 = Some (Some (7::nat), m') \<and> hm_abs m' = (\<lambda>_. None))"
proof -
  have ok: "hm_ok UNIV (hashmap_create_int 1 :: (u32, nat) hashmap)"
    "hm_abs (hashmap_create_int 1 :: (u32, nat) hashmap) = (\<lambda>_. None)"
    using create_ok(3,4) [of 1] by simp_all
  obtain m where m: "hashmap_set (hashmap_create_int 1) 5 (Some (7::nat)) = Some (None, m)" "hm_ok UNIV m"
    "hm_abs m = [5 \<mapsto> Some 7]"
    using hm.put_law [OF ok(1), of 5 "Some 7"] ok(2) by auto
  have "length (hm_entries m ! hm_slot m 6) = 1"
    using m(1) by (auto simp: hashmap_set_def hashmap_create_int_def hm_slot_def hm_bucket_def
      hashmap_int_hash_def split: if_splits)
  then have "hashmap_remove m 6 = None" using hashmap_removal [OF m(2), of 6] m(3) by simp
  moreover obtain m' where "hashmap_remove m 5 = Some (Some 7, m')" "hm_abs m' = (\<lambda>_. None)"
    using hashmap_removal [OF m(2), of 5] m(3) by auto
  ultimately show ?thesis using m(1) by blast
qed

text \<open>The kernel arguments.  After a command line is parsed, an argument is present when it is
  the name of one of its words (or was there before), and its value is what follows the first equals
  sign of the last such word.\<close>

theorem args_lookup:
  assumes "args_ok st" and "nul_free line" and "length (words line) < 1024" and "nul_free k"
  shows "\<exists>st'. args_parse st (Some line) = Some st' \<and>
     args_present st' k = Some (k \<in> dom (args_abs st) \<or> k \<in> fst ` set (map split_arg (words line))) \<and>
     (k \<in> fst ` set (map split_arg (words line)) \<longrightarrow>
        args_value st' k = Some (the (map_of (rev (map split_arg (words line))) k)))"
proof -
  let ?kv = "map split_arg (words line)"
  obtain st' where st': "args_parse st (Some line) = Some st'" "args_ok st'" "args_abs st' = args_abs st ++ map_of (rev ?kv)"
    using args_parse_abs [OF assms(1-3)] by blast
  have d: "dom (map_of (rev ?kv)) = fst ` set ?kv" by (simp add: dom_map_of_conv_image_fst)
  have "k \<in> fst ` set ?kv \<Longrightarrow> \<exists>v. map_of (rev ?kv) k = Some v" using d by blast
  then show ?thesis
    using st' args_present_abs [OF st'(2) assms(4)] args_value_abs [OF st'(2) assms(4)] d
    by (auto simp: map_add_def split: option.splits)
qed

theorem args_lookup_witness:
  "\<exists>st'. args_parse None (Some [97, 61, 98, 32, 99]) = Some st' \<and>
     args_present st' [99] = Some True \<and> args_value st' [97] = Some (Some [98])"
proof -
  let ?l = "[97, 61, 98, 32, 99] :: cstring"
  have n: "nul_free ?l" "nul_free [97]" "nul_free [99]" by (simp_all add: nul_free_def)
  have w: "words ?l = [[97, 61, 98], [99]]"
    by (simp add: words_def word_runs.simps [of _ "_ # _"] word_runs.simps [of _ "[]"])
  have "args_ok None" by (simp add: args_ok_def)
  from args_lookup [OF this n(1) _ n(2)] args_lookup [OF this n(1) _ n(3)] w show ?thesis
    by (auto simp: split_arg_eq)
qed

section \<open>Trees and path names\<close>

text \<open>Inserting a child keeps the tree well-formed and changes nothing but the list of children
  of the parent, where the new node is the last one.\<close>

theorem tree_insertion:
  assumes "tree_ok T N" and "p \<in> N" and "n \<notin> N" and "n \<noteq> NULL"
  shows "\<exists>T'. tree_node_insert_child n p v T = Some (n, T') \<and> tree_ok T' (insert n N) \<and>
     kids T' p = kids T p @ [n] \<and> parent_of T' n = p \<and> kids T' n = [] \<and>
     (\<forall>m. m \<noteq> p \<longrightarrow> m \<noteq> n \<longrightarrow> tree_heap T' m = tree_heap T m)"
  by (rule tree_insert_ok [OF assms])

text \<open>A tree with the root 16, for the witnesses.\<close>

definition one_node :: "nat tree" where
  "one_node = tree_set_root 16 7 (tree_create (\<lambda>_. None))"

lemma one_node_ok: "tree_ok one_node {16}" "tree_root one_node = 16" "kids one_node 16 = []"
  unfolding one_node_def using tree_set_root_ok [of 16 7 "tree_create (\<lambda>_. None)"]
  by (simp_all add: tree_set_root_def tree_node_create_def kids_def)

theorem tree_insertion_witness:
  "\<exists>T'. tree_node_insert_child 32 16 8 one_node = Some (32, T') \<and> tree_ok T' {32, 16} \<and> kids T' 16 = [32]"
  using tree_insertion [OF one_node_ok(1), of 16 32 8] one_node_ok(3) by auto

text \<open>Removal of a node, on every node.  Below the root the children of the node are adopted by
  its parent, after the other children, and the tree stays well-formed; the root is not removed by
  \<^verbatim>\<open>tree_remove\<close>, and \<^verbatim>\<open>tree_node_remove\<close> of the root frees it and then dereferences its
  parent \<^verbatim>\<open>NULL\<close>.\<close>

theorem tree_removal:
  assumes "tree_ok T N" and "n \<in> N"
  shows "if n = tree_root T then tree_remove n T = Some T \<and> tree_node_remove n T = None
     else \<exists>T'. tree_remove n T = Some T' \<and> tree_ok T' (N - {n}) \<and> tree_heap T' n = None \<and>
       kids T' (parent_of T n) = remove1 n (kids T (parent_of T n)) @ kids T n"
  using tree_remove_ok [OF assms] tree_node_remove_root [OF assms(1)] tree_remove_root [OF assms(1)] by auto

theorem tree_removal_witness:
  "\<exists>T T'. tree_node_insert_child 32 16 8 one_node = Some (32, T) \<and> tree_node_remove 16 T = None \<and>
     tree_remove 32 T = Some T' \<and> tree_ok T' {16}"
proof -
  obtain T where T: "tree_node_insert_child 32 16 8 one_node = Some (32, T)" "tree_ok T {32, 16}"
    "parent_of T 32 = 16" using tree_insert_ok [OF one_node_ok(1), of 16 32 8] by auto
  have "tree_root T = 16"
    using T(1) one_node_ok(2) by (auto simp: tree_node_insert_child_def tree_node_insert_child_node_def
      tree_node_create_def wr_tnode_def bind_eq_Some_iff)
  with tree_removal [OF T(2), of 32] tree_removal [OF T(2), of 16] T(1) show ?thesis
    by (auto simp: insert_Diff_if)
qed

text \<open>C28: Whatever a user types, the canonical path is absolute and has no empty element, no dot and
  no dot-dot, and it is the walk through the elements in which a dot-dot goes up, at the root to
  the root.\<close>

theorem canonicalize_is_canonical:
  assumes "canonical_path cwd" and "nul_free input"
  shows "canonical_path (canonicalize_path cwd input) \<and>
     canonicalize_path cwd input =
       abs_path (walk_path (if input \<noteq> [] \<and> at input \<noteq> 47 then elements cwd else []) (elements input))"
  using canonicalize_canonical [OF assms] canonicalize_walk [OF assms(2)] by blast

theorem canonicalize_is_canonical_witness: "canonical_path (canonicalize_path [47] [46, 46, 47, 97])"
proof -
  have "canonical_path [47]" by (auto simp: canonical_path_def abs_path_def intro!: exI [of _ "[]"])
  moreover have "nul_free [46, 46, 47, 97]" by (simp add: nul_free_def)
  ultimately show ?thesis using canonicalize_is_canonical by blast
qed

text \<open>Paths compose: to resolve \<open>b\<close> in the directory that \<open>a\<close> names is to resolve the two joined
  by a slash.\<close>

theorem canonicalize_composes:
  assumes "canonical_path cwd" and "nul_free a" and "nul_free b" and "a \<noteq> []" and "b \<noteq> []" and "at b \<noteq> 47"
  shows "canonicalize_path (canonicalize_path cwd a) b = canonicalize_path cwd (a @ 47 # b)"
  by (rule canonicalize_compose [OF assms])

theorem canonicalize_composes_witness:
  "canonicalize_path (canonicalize_path [47] [97]) [46, 46] = canonicalize_path [47] [97, 47, 46, 46]"
proof -
  have "canonical_path [47]" by (auto simp: canonical_path_def abs_path_def intro!: exI [of _ "[]"])
  moreover have "nul_free [97]" "nul_free [46, 46]" by (simp_all add: nul_free_def)
  ultimately show ?thesis using canonicalize_composes [of "[47]" "[97]" "[46, 46]"] by (simp add: at_def)
qed

text \<open>\<^verbatim>\<open>get_parent\<close> takes a canonical path apart: the last element, and a path that names the
  parent.\<close>

theorem get_parent_splits:
  assumes "\<forall>e \<in> set (ts @ [t]). canonical_element e"
  shows "last_element (abs_path (ts @ [t])) = Some t \<and>
    canonicalize_path cwd (parent_path (abs_path (ts @ [t]))) = abs_path ts"
  using get_parent_strings [OF assms] by blast

theorem get_parent_splits_witness:
  "last_element (abs_path [[97], [98]]) = Some [98] \<and>
   canonicalize_path [47] (parent_path (abs_path [[97], [98]])) = abs_path [[97]]"
  using get_parent_splits [of "[[97]]" "[98]"] by (simp add: canonical_element_def plain_element_def nul_free_def)

section \<open>The virtual file system\<close>

text \<open>A file system in which the root is the node 1 and another file is the node 2.\<close>

definition plain_vnode :: vnode where
  "plain_vnode = Vnode FS_DIR 0 NULL False None (Some (\<lambda>_. None)) None"

definition fresh_vfs :: vfs where
  "fresh_vfs = vfs_install 16 (\<lambda>_. None)
     \<lparr>fs_tree = None, fs_root = NULL, fs_files = [1 \<mapsto> plain_vnode, 2 \<mapsto> plain_vnode]\<rparr>"




text \<open>A path is served by the deepest mount point on it, with the elements after it left over.\<close>

theorem deepest_mount_point:
  assumes "fs_tree s = Some T" and "tree_ok T N" and "mounted T (tree_root T) [] = fs_root s"
    and "\<And>cs. mounted T (tree_root T) cs \<noteq> NULL \<Longrightarrow> fs_files s (mounted T (tree_root T) cs) \<noteq> None"
    and "fs_root s \<noteq> NULL"
  shows "\<exists>i v. i \<le> length cs \<and> get_mount_point s cs = Some (Some v, drop i cs, i) \<and>
     fs_files s (mounted T (tree_root T) (take i cs)) = Some v \<and>
     mounted T (tree_root T) (take i cs) \<noteq> NULL \<and>
     (\<forall>j. i < j \<longrightarrow> j \<le> length cs \<longrightarrow> mounted T (tree_root T) (take j cs) = NULL)"
  by (rule get_mount_point_deepest [OF assms])

text \<open>The file system after its root is mounted.\<close>

definition rooted_vfs :: vfs where
  "rooted_vfs = \<lparr>fs_tree = Some (tree_set_root 16 \<lparr>ve_name = [91, 114, 111, 111, 116, 93], ve_file = 1\<rparr> (tree_create (\<lambda>_. None))),
     fs_root = 1, fs_files = [1 \<mapsto> plain_vnode]\<rparr>"

lemma rooted_mounted:
  "mounted (tree_set_root 16 \<lparr>ve_name = nm, ve_file = 1\<rparr> (tree_create (\<lambda>_. None))) 16 cs = (if cs = [] then 1 else NULL)"
  by (cases cs) (simp_all add: mounted_def tree_set_root_def tree_node_create_def tree_create_def
      file_of_def child_named_def kids_def)

theorem deepest_mount_point_witness:
  "get_mount_point rooted_vfs [[97]] = Some (Some plain_vnode, [[97]], 0)"
proof -
  let ?T = "tree_set_root 16 \<lparr>ve_name = [91, 114, 111, 111, 116, 93], ve_file = 1\<rparr> (tree_create (\<lambda>_. None))"
  have T: "fs_tree rooted_vfs = Some ?T" "tree_ok ?T {16}" "tree_root ?T = 16"
    using tree_set_root_ok [of 16] by (simp_all add: rooted_vfs_def tree_set_root_def)
  have "mounted ?T (tree_root ?T) [] = fs_root rooted_vfs" "fs_root rooted_vfs \<noteq> NULL"
    "\<And>cs. mounted ?T (tree_root ?T) cs \<noteq> NULL \<Longrightarrow> fs_files rooted_vfs (mounted ?T (tree_root ?T) cs) \<noteq> None"
    by (simp_all add: T(3) rooted_mounted rooted_vfs_def split: if_splits)
  from deepest_mount_point [OF T(1,2) this(1,3,2), of "[[97]]"] show ?thesis
    unfolding T(3) rooted_mounted by (auto simp: rooted_vfs_def split: if_splits)
qed

text \<open>Opening a file without links on its way walks from the mount point through the
  directories of the driver, and the node found is opened with the flags; a missing name is \<^verbatim>\<open>NULL\<close>.\<close>

theorem open_walks_directories:
  assumes "\<forall>t \<in> set ts. canonical_element t" and "ts \<noteq> []"
    and "get_mount_point s ts = Some (Some v, drop i ts, i)" and "no_links v (drop i ts)"
  shows "kopen s cwd (abs_path ts) flags = Some (opened flags (dir_walk v (drop i ts)))"
  by (rule kopen_walk [OF assms])

theorem open_walks_directories_witness: "kopen rooted_vfs [47] (abs_path [[97]]) 0 = Some Null"
proof -
  have "get_mount_point rooted_vfs [[97]] = Some (Some plain_vnode, drop 0 [[97]], 0)"
    by (simp add: get_mount_point_def rooted_vfs_def tree_set_root_def tree_node_create_def tree_create_def
      rd_tnode_def)
  moreover have "\<forall>t \<in> set [[97]]. canonical_element t"
    by (simp add: canonical_element_def plain_element_def nul_free_def)
  ultimately show ?thesis
    using open_walks_directories [of "[[97]]" rooted_vfs plain_vnode 0]
    by (simp add: plain_vnode_def fs_finddir_def fs_is_dir_def FS_DIR_def opened_def)
qed

text \<open>The life of a node.  After \<open>n + 1\<close> opens the first \<open>n\<close> closes leave it alive, and the
  next one runs its \<^verbatim>\<open>close\<close> callback and frees it.\<close>

theorem node_lifetime:
  assumes "F p = Some v" and "p \<noteq> NULL" and "vn_refcount v = 0" and "Suc n < 2 ^ 31"
  shows "\<exists>F1 F2. fopens (Suc n) p flags F = Some F1 \<and> fcloses n p F1 = Some (replicate n False, F2) \<and>
     map_option vn_refcount (F2 p) = Some 1 \<and> fclose p F2 = Some (0, vn_close v, F2(p := None))"
  using fopen_fclose_lifetime [of F p v n flags] assms by blast

theorem node_lifetime_witness:
  "\<exists>F1 F2. fopens (Suc 2) 1 0 (fs_files fresh_vfs) = Some F1 \<and> fcloses 2 1 F1 = Some (replicate 2 False, F2) \<and>
     fclose 1 F2 = Some (0, False, F2(1 := None))"
proof -
  have v: "fs_files fresh_vfs 1 = Some plain_vnode" "vn_refcount plain_vnode = 0" "vn_close plain_vnode = False"
    by (simp_all add: fresh_vfs_def vfs_install_def plain_vnode_def)
  have "(1 :: ptr) \<noteq> NULL" "Suc 2 < 2 ^ 31" by simp_all
  with node_lifetime [of "fs_files fresh_vfs" 1 plain_vnode 2 0] v(1,2) show ?thesis unfolding v(3) by meson
qed

text \<open>A node that was never opened, such as a directory on the way to the file that \<^verbatim>\<open>kopen\<close>
  closes, is not freed by \<^verbatim>\<open>fclose\<close>: its count becomes -1 and every later close is refused.\<close>

theorem unopened_node_leaks:
  assumes "F p = Some v" and "p \<noteq> NULL" and "vn_refcount v = 0"
  shows "\<exists>F'. fclose p F = Some (0, False, F') \<and> F' p = Some (set_refcount (- 1) v) \<and>
     fclose p F' = Some (- 1, False, F')"
  using fclose_unopened [of F p v] assms by blast

theorem unopened_node_leaks_witness:
  "\<exists>F'. fclose 1 (fs_files fresh_vfs) = Some (0, False, F') \<and> fclose 1 F' = Some (- 1, False, F')"
proof -
  have "fs_files fresh_vfs 1 = Some plain_vnode" "vn_refcount plain_vnode = 0"
    by (simp_all add: fresh_vfs_def vfs_install_def plain_vnode_def)
  with unopened_node_leaks [of "fs_files fresh_vfs" 1 plain_vnode] show ?thesis by auto
qed

text \<open>A symbolic link to itself.  At the depth limit the nested search gives the error pointer
  for too many links, and at every smaller depth that pointer is used as a node.\<close>

theorem self_link_faults:
  assumes "canonical_element l" and "get_mount_point s [l] = Some (Some v, [l], 0)"
    and "fs_finddir v l = Some w" and "vn_flags w AND FS_SYMLINK \<noteq> 0"
    and "vn_readlink w = Some rl" and "rl 4096 = (len, buf)" and "0 \<le> len" and "nat len < length buf"
    and "buf ! nat len = 0" and "c_string buf = 47 # l" and "d \<le> 8" and "flags AND O_NOFOLLOW = 0"
  shows "kopen_recur s (47 # l) flags d rel = (if d = 8 then Some (Error 2) else None)"
  by (rule kopen_recur_self_link [OF assms])

definition link_node :: vnode where
  "link_node = Vnode FS_SYMLINK 0 NULL False None None (Some (\<lambda>_. (2, [47, 97, 0])))"

definition link_vfs :: vfs where
  "link_vfs = rooted_vfs\<lparr>fs_files := [1 \<mapsto> Vnode FS_DIR 0 NULL False None (Some (\<lambda>_. Some link_node)) None]\<rparr>"

theorem self_link_faults_witness: "kopen_recur link_vfs [47, 97] 0 0 [47] = None"
proof -
  let ?v = "Vnode FS_DIR 0 NULL False None (Some (\<lambda>_. Some link_node)) None"
  have 1: "get_mount_point link_vfs [[97]] = Some (Some ?v, [[97]], 0)"
    by (simp add: get_mount_point_def link_vfs_def rooted_vfs_def tree_set_root_def tree_node_create_def tree_create_def
      rd_tnode_def)
  have 2: "canonical_element [97]" "fs_finddir ?v [97] = Some link_node" "vn_flags link_node AND FS_SYMLINK \<noteq> 0"
    "vn_readlink link_node = Some (\<lambda>_. (2, [47, 97, 0]))" "c_string [47, 97, 0] = [47, 97]"
    by (simp_all add: canonical_element_def plain_element_def nul_free_def fs_finddir_def fs_is_dir_def
      FS_DIR_def FS_SYMLINK_def link_node_def c_string_def)
  from self_link_faults [OF 2(1) 1 2(2-4) _ _ _ _ 2(5), where d = 0 and flags = 0 and rel = "[47]"]
  show ?thesis by simp
qed

text \<open>A directory made by \<^verbatim>\<open>map_vfs_directory\<close> below the root lists nothing: its device is the
  \<^verbatim>\<open>NULL\<close> that \<^verbatim>\<open>vfs_mount\<close> returns.\<close>

theorem mapped_directory_is_empty:
  assumes "map_vfs_directory c f ms s = Some s'" and "strcmp c [47] \<noteq> 0"
  shows "\<exists>v. fs_files s' f = Some v \<and> vn_device v = NULL \<and> readdir_mapper s' v i = Some None"
  by (rule map_vfs_directory_empty [OF assms])

theorem mapped_directory_is_empty_witness:
  "\<exists>s' v. map_vfs_directory [47, 97] 64 [32] rooted_vfs = Some s' \<and> fs_files s' 64 = Some v \<and>
     readdir_mapper s' v 0 = Some None"
proof -
  have "chop [97] = [[97]]" by (simp add: chop.simps)
  then have "map_vfs_directory [47, 97] 64 [32] rooted_vfs \<noteq> None"
    by (simp add: map_vfs_directory_def vfs_mount_def rooted_vfs_def at_def vfs_lock_def tree_set_root_def tree_node_create_def
      tree_create_def rd_tnode_def wr_tnode_def set_file_def tree_node_insert_child_def tree_node_insert_child_node_def)
  then obtain s' where "map_vfs_directory [47, 97] 64 [32] rooted_vfs = Some s'" by auto
  with mapped_directory_is_empty [OF this, of 0] show ?thesis by (auto simp: at_def)
qed

section \<open>Tasks\<close>

text \<open>Two tasks: 200 is the first one and the root of the tree, 100 its child.  Task 100 runs and task 200
  is in the ready queue 10; the sleep queue is 11, the task list 12, a wait queue 13, and 14 and 15 are the
  signal queues.\<close>

definition sample_node :: "ptr \<Rightarrow> ptr \<Rightarrow> node" where
  "sample_node v l = zero_node\<lparr>node_value := v, node_owner := l\<rparr>"

definition sample_heap :: heap where
  "sample_heap = \<lparr>nodes = [101 \<mapsto> sample_node 100 0, 102 \<mapsto> sample_node 100 0,
       201 \<mapsto> sample_node 200 10, 202 \<mapsto> sample_node 200 0,
       301 \<mapsto> (sample_node 100 12)\<lparr>node_prev := 302\<rparr>, 302 \<mapsto> (sample_node 200 12)\<lparr>node_next := 301\<rparr>],
     lists = [10 \<mapsto> \<lparr>list_head = 201, list_tail = 201, list_length = 1\<rparr>, 11 \<mapsto> \<lparr>list_head = 0, list_tail = 0, list_length = 0\<rparr>,
       12 \<mapsto> \<lparr>list_head = 302, list_tail = 301, list_length = 2\<rparr>, 13 \<mapsto> \<lparr>list_head = 0, list_tail = 0, list_length = 0\<rparr>,
       14 \<mapsto> \<lparr>list_head = 0, list_tail = 0, list_length = 0\<rparr>, 15 \<mapsto> \<lparr>list_head = 0, list_tail = 0, list_length = 0\<rparr>]\<rparr>"

definition sample_fresh :: "ptr \<Rightarrow> ptr \<Rightarrow> fresh" where
  "sample_fresh sched sleep = \<lparr>fr_task = 0, fr_sched = sched, fr_sleep = sleep, fr_fds = 0, fr_entries = [],
     fr_wait = 13, fr_shm = 0, fr_signals = 0, fr_tree = 0, fr_node = 0, fr_regs = 0, fr_stack = 0\<rparr>"

definition sample_task :: "int \<Rightarrow> ptr \<Rightarrow> ptr \<Rightarrow> ptr \<Rightarrow> ptr \<Rightarrow> task" where
  "sample_task pid sched sleep entry sigs = (zero_task (sample_fresh sched sleep))\<lparr>tk_pid := pid, tk_tree_entry := entry,
     tk_ttl_pwm_mode := True, tk_ttl_fscale := 2000, tk_started := True, tk_signal_queue := sigs\<rparr>"

definition sample_tasks :: tasking where
  "sample_tasks = \<lparr>ts_heap = sample_heap,
     ts_tree = \<lparr>tree_nodes = 2, tree_root = 401, tree_heap =
       [401 \<mapsto> \<lparr>tn_value = 200, tn_children = [402], tn_parent = 0\<rparr>, 402 \<mapsto> \<lparr>tn_value = 100, tn_children = [], tn_parent = 401\<rparr>]\<rparr>,
     ts_tasks = [100 \<mapsto> (sample_task 2 101 102 402 14)\<lparr>tk_finished := True, tk_status := 7\<rparr>, 200 \<mapsto> sample_task 1 201 202 401 15],
     ts_fdts = Map.empty, ts_sleepers = Map.empty, ts_signals = Map.empty, ts_files = Map.empty, ts_mem = (\<lambda>_. 0),
     current_task = 100, main_task = 200, task_list = 12, task_queue = 10, sleep_queue = 11, rets_from_sig = 0,
     next_pid = 3, is_tasking = True, is_tasking_initialized = True\<rparr>"

lemma sample_lists:
  "dll sample_heap 10 [201]" "dll sample_heap 12 [302, 301]" "dll sample_heap 13 []"
  by (simp_all add: dll_def sample_heap_def sample_node_def zero_node_def)

lemma sample_tasks_read:
  "rd_task sample_tasks 100 = Some ((sample_task 2 101 102 402 14)\<lparr>tk_finished := True, tk_status := 7\<rparr>)"
  "rd_task sample_tasks 200 = Some (sample_task 1 201 202 401 15)"
  "ts_heap sample_tasks = sample_heap" "task_queue sample_tasks = 10" "task_list sample_tasks = 12"
  "current_task sample_tasks = 100" "is_tasking sample_tasks" "sleep_queue sample_tasks = 11"
  by (simp_all add: sample_tasks_def rd_task_def)

lemma sample_of:
  "sched_of sample_tasks 100 = 101" "sleep_of sample_tasks 100 = 102" "sched_of sample_tasks 200 = 201" "sleep_of sample_tasks 200 = 202"
  by (simp_all add: sched_of_def sleep_of_def sample_tasks_read sample_task_def zero_task_def sample_fresh_def)

lemma sample_live: "live sample_tasks 100" "live sample_tasks 200"
  by (simp_all add: live_def sample_of sample_tasks_read sample_heap_def value_of_def sample_node_def)

lemma sample_ready: "ready_queue sample_tasks [200]"
  using sample_live sample_lists by (simp add: ready_queue_def sample_of sample_tasks_read)

lemma sample_unlinked: "unlinked sample_tasks (sched_of sample_tasks 100)" "unlinked sample_tasks (sleep_of sample_tasks 100)"
  by (simp_all add: unlinked_def sample_of sample_tasks_read sample_heap_def sample_node_def)

lemma sample_admitted: "first_admitted sample_tasks ([200] @ [100]) [] 200 [100]"
  by (simp add: first_admitted_def denied_def sample_tasks_read task_ttl_canlive_def signals_there_def sample_task_def
    zero_task_def rd_list_def sample_heap_def)

lemmas sample_state = sample_tasks_read(7) sample_live(1) sample_tasks_read(6) sample_unlinked(2,1)

text \<open>C29: The scheduler.  A switch puts the running task behind the ready queue, unless it goes to sleep, and
  selects the first task of the queue that the throttle admits; the tasks behind it keep their places, and no
  other list changes.  The tasks the throttle refused are in no list afterwards: they are not put back.\<close>

theorem scheduling_order:
  assumes "is_tasking K" and "live K c" and "current_task K = c" and "s \<noteq> 0 \<Longrightarrow> unlinked K (sleep_of K c)"
    and "unlinked K (sched_of K c)" and "ready_queue K ts"
    and "first_admitted K (if s \<noteq> 0 then ts @ [c] else ts) us t vs"
  shows "\<exists>K'. switch_task regs s K = Some K' \<and> current_task K' = t \<and> ready_queue K' vs \<and>
     (\<forall>u \<in> set us. unlinked K' (sched_of K' u)) \<and>
     (\<forall>l ns. dll (ts_heap K) l ns \<longrightarrow> l \<noteq> task_queue K \<longrightarrow> sched_of K c \<notin> set ns \<longrightarrow> dll (ts_heap K') l ns)"
  using switch_rotates [OF assms] by blast

theorem scheduling_order_witness:
  "\<exists>K'. switch_task (0, 0, 0) 1 sample_tasks = Some K' \<and> current_task K' = 200 \<and> ready_queue K' [100]"
  using scheduling_order [OF sample_state(1-4) sample_state(5) sample_ready, of 1 "[]" 200 "[100]" "(0, 0, 0)"] sample_admitted by auto

text \<open>Waking a queue.  Every sleeper of the queue that has not ended goes to the end of the ready queue,
  the last one that went to sleep first; the wait queue is empty afterwards, the number of the sleepers is
  returned, and the interrupting variant marks the tasks it makes ready, the other one changes none.\<close>

theorem wakeup_wakes_queue:
  assumes "dll (ts_heap K) q (map (sleep_of K) ts)" and "dll (ts_heap K) (task_queue K) rs" and "q \<noteq> task_queue K"
    and "\<forall>t \<in> set ts. live K t" and "distinct (rs @ map (sched_of K) ts)"
    and "set (map (sched_of K) ts) \<inter> set (map (sleep_of K) ts) = {}"
  shows "(\<exists>h. wakeup_queue q K = Some (int (length ts), K\<lparr>ts_heap := h\<rparr>) \<and>
       dll h q [] \<and> dll h (task_queue K) (rs @ map (sched_of K) (filter (unfinished K) (rev ts)))) \<and>
     (\<exists>h. wakeup_queue_interrupted q K = Some (int (length ts), mark_interrupted True (set ts) (K\<lparr>ts_heap := h\<rparr>)) \<and>
       dll h q [] \<and> dll h (task_queue K) (rs @ map (sched_of K) (filter (unfinished K) (rev ts))))"
proof -
  have "mark_interrupted False (set ts) K' = K'" for K' by (simp add: mark_interrupted_def)
  with wakeup_loop_law [OF assms, of False 0] wakeup_loop_law [OF assms, of True 0] show ?thesis
    by (simp add: wakeup_queue_def wakeup_queue_interrupted_def)
qed

theorem wakeup_wakes_queue_witness:
  "\<exists>h. wakeup_queue 13 (sample_tasks\<lparr>ts_heap := sample_heap\<lparr>nodes := (nodes sample_heap)(202 \<mapsto> sample_node 200 13, 201 \<mapsto> sample_node 200 0),
       lists := (lists sample_heap)(10 \<mapsto> \<lparr>list_head = 0, list_tail = 0, list_length = 0\<rparr>,
         13 \<mapsto> \<lparr>list_head = 202, list_tail = 202, list_length = 1\<rparr>)\<rparr>\<rparr>) = Some (1, sample_tasks\<lparr>ts_heap := h\<rparr>) \<and> dll h 10 [201]"
proof -
  let ?h = "sample_heap\<lparr>nodes := (nodes sample_heap)(202 \<mapsto> sample_node 200 13, 201 \<mapsto> sample_node 200 0),
       lists := (lists sample_heap)(10 \<mapsto> \<lparr>list_head = 0, list_tail = 0, list_length = 0\<rparr>,
         13 \<mapsto> \<lparr>list_head = 202, list_tail = 202, list_length = 1\<rparr>)\<rparr>"
  have "dll ?h 13 [202]" "dll ?h 10 []"
    by (simp_all add: dll_def sample_node_def zero_node_def)
  moreover have "live (sample_tasks\<lparr>ts_heap := ?h\<rparr>) 200"
    by (simp add: live_def sample_of sample_tasks_read value_of_def sample_node_def)
  moreover have "unfinished sample_tasks 200"
    by (simp add: unfinished_def sample_tasks_read sample_task_def zero_task_def)
  ultimately show ?thesis
    using wakeup_wakes_queue [of "sample_tasks\<lparr>ts_heap := ?h\<rparr>" 13 "[200]" "[]"] by (auto simp: sample_of sample_tasks_read)
qed

text \<open>C30: A timer tick inside \<^verbatim>\<open>sleep_on\<close>.  Between the entry into the wait queue and the switch of
  \<^verbatim>\<open>sleep_on\<close> the tick takes the task out of the wait queue again and puts it into the ready queue.  When the
  task runs next it executes the switch that is left, after which it is in neither queue: no wake-up of the
  wait queue can reach it.\<close>

theorem interrupted_sleep_is_lost:
  assumes "is_tasking K" and "live K c" and "current_task K = c" and "unlinked K (sleep_of K c)" and "unlinked K (sched_of K c)"
    and "sched_of K c \<noteq> sleep_of K c" and "dll (ts_heap K) q ws" and "q \<noteq> task_queue K" and "q \<noteq> sleep_queue K"
    and "ready_queue K ts" and "first_admitted K (ts @ [c]) us t vs"
  shows "\<exists>K1 K2. sleep_on_enter q K = Some (False, K1) \<and> dll (ts_heap K1) q (ws @ [sleep_of K c]) \<and>
     switch_task regs TASKST_READY K1 = Some K2 \<and> current_task K2 = t \<and> dll (ts_heap K2) q ws \<and>
     ready_queue K2 vs \<and> unlinked K2 (sleep_of K2 c) \<and>
     (\<forall>K3 ts3 us3 t3 vs3. is_tasking K3 \<longrightarrow> live K3 c \<longrightarrow> current_task K3 = c \<longrightarrow> unlinked K3 (sleep_of K3 c) \<longrightarrow>
        unlinked K3 (sched_of K3 c) \<longrightarrow> ready_queue K3 ts3 \<longrightarrow> first_admitted K3 ts3 us3 t3 vs3 \<longrightarrow>
        (\<exists>K4. switch_task regs 0 K3 = Some K4 \<and> current_task K4 = t3 \<and> ready_queue K4 vs3 \<and>
           unlinked K4 (sched_of K4 c) \<and> unlinked K4 (sleep_of K4 c)))"
proof -
  have "\<exists>K4. switch_task regs 0 K3 = Some K4 \<and> current_task K4 = t3 \<and> ready_queue K4 vs3 \<and>
      unlinked K4 (sched_of K4 c) \<and> unlinked K4 (sleep_of K4 c)"
    if 3: "is_tasking K3" "live K3 c" "current_task K3 = c" "unlinked K3 (sleep_of K3 c)" "unlinked K3 (sched_of K3 c)"
      "ready_queue K3 ts3" "first_admitted K3 ts3 us3 t3 vs3" for K3 ts3 us3 t3 vs3
  proof -
    have q: "dll (ts_heap K3) (task_queue K3) (map (sched_of K3) ts3)" using 3(6) by (simp add: ready_queue_def)
    obtain K4 where "switch_task regs 0 K3 = Some K4" "current_task K4 = t3" "ready_queue K4 vs3"
      "\<forall>n. n \<notin> set (map (sched_of K3) ts3) \<longrightarrow> nodes (ts_heap K4) n = nodes (ts_heap K3) n"
      "sched_of K4 c = sched_of K3 c" "sleep_of K4 c = sleep_of K3 c"
      using switch_rotates [OF 3(1-3) _ 3(5,6), of 0 us3 t3 vs3 regs] 3(7) by auto
    with unlinked_not_in [OF 3(4) q] unlinked_not_in [OF 3(5) q] 3(4,5) show ?thesis by (auto simp: unlinked_def)
  qed
  with sleep_tick [OF assms, of regs] show ?thesis by blast
qed

theorem interrupted_sleep_is_lost_witness:
  "\<exists>K1 K2. sleep_on_enter 13 sample_tasks = Some (False, K1) \<and> switch_task (0, 0, 0) 1 K1 = Some K2 \<and> dll (ts_heap K2) 13 [] \<and>
     current_task K2 = 200 \<and> ready_queue K2 [100]"
proof -
  have "sched_of sample_tasks 100 \<noteq> sleep_of sample_tasks 100" "dll (ts_heap sample_tasks) 13 []"
    "(13 :: ptr) \<noteq> task_queue sample_tasks" "(13 :: ptr) \<noteq> sleep_queue sample_tasks"
    using sample_lists by (simp_all add: sample_of sample_tasks_read)
  from interrupted_sleep_is_lost [OF sample_state this sample_ready sample_admitted, of "(0, 0, 0)"] show ?thesis by blast
qed

text \<open>C31: A task that has ended.  It is switched like any other: the tick overwrites the status it ended with
  and leaves it in the ready queue, and when its parent reaps it there its nodes are freed, after which the
  ready queue is no longer a list.\<close>

theorem zombie_breaks_ready_queue:
  assumes "is_tasking K" and "live K c" and "current_task K = c" and "unlinked K (sleep_of K c)" and "unlinked K (sched_of K c)"
    and "ready_queue K ts" and "first_admitted K (ts @ [c]) us t vs" and "c \<in> set vs"
    and "map_option tk_tree_entry (rd_task K c) = Some e" and "e \<noteq> NULL" and "tree_root (ts_tree K) \<noteq> e"
    and "tree_remove_reparent_root e (ts_tree K) \<noteq> None"
    and "dll (ts_heap K) (task_list K) ls" and "c \<in> value_of (ts_heap K) ` set ls" and "task_list K \<noteq> task_queue K"
    and "map_option tk_finished (rd_task K c) = Some True"
  shows "\<exists>K1 K2. switch_task regs TASKST_READY K = Some K1 \<and> ready_queue K1 vs \<and>
     map_option tk_status (rd_task K1 c) = Some TASKST_READY \<and> map_option tk_finished (rd_task K1 c) = Some True \<and>
     task_reap c K1 = Some K2 \<and> (\<forall>ms. \<not> dll (ts_heap K2) (task_queue K2) ms)"
  using zombie_queued [OF assms(1-15), of regs] assms(16) by simp

theorem zombie_breaks_ready_queue_witness:
  "\<exists>K1 K2. switch_task (0, 0, 0) 1 sample_tasks = Some K1 \<and> map_option tk_status (rd_task K1 100) = Some 1 \<and>
     task_reap 100 K1 = Some K2 \<and> (\<forall>ms. \<not> dll (ts_heap K2) (task_queue K2) ms)"
proof -
  have t: "ts_tree sample_tasks = \<lparr>tree_nodes = 2, tree_root = 401, tree_heap =
       [401 \<mapsto> \<lparr>tn_value = 200, tn_children = [402], tn_parent = 0\<rparr>, 402 \<mapsto> \<lparr>tn_value = 100, tn_children = [], tn_parent = 401\<rparr>]\<rparr>"
    by (simp add: sample_tasks_def)
  have "map_option tk_tree_entry (rd_task sample_tasks 100) = Some 402" "(402 :: ptr) \<noteq> NULL"
    "tree_root (ts_tree sample_tasks) \<noteq> 402" "tree_remove_reparent_root 402 (ts_tree sample_tasks) \<noteq> None"
    "dll (ts_heap sample_tasks) (task_list sample_tasks) [302, 301]" "100 \<in> value_of (ts_heap sample_tasks) ` set [302, 301]"
    "task_list sample_tasks \<noteq> task_queue sample_tasks" "map_option tk_finished (rd_task sample_tasks 100) = Some True"
    using sample_lists by (simp_all add: t sample_tasks_read sample_task_def tree_remove_reparent_root_def remove_reparent_def rd_tnode_def
      children_delete_def wr_tnode_def value_of_def sample_heap_def sample_node_def)
  from zombie_breaks_ready_queue [OF sample_state sample_ready sample_admitted _ this, of "(0, 0, 0)"] show ?thesis by auto
qed

text \<open>File descriptors.  A file gets the lowest descriptor that is free, every other descriptor keeps its
  file, and a full table is doubled.\<close>

theorem descriptor_allocation:
  assumes "rd_fds K t = Some fd" and "fd_ok fd" and "node \<noteq> NULL" and "unat (fd_capacity fd) < 2 ^ 31"
    and "unat (fd_capacity fd) \<le> length junk"
  shows "\<exists>n K' fd'. task_append_fd t node junk K = Some (of_nat n, K') \<and> rd_fds K' t = Some fd' \<and> fd_ok fd' \<and>
     fd_map fd n = None \<and> (\<forall>j < n. fd_map fd j \<noteq> None) \<and> fd_map fd' = (fd_map fd)(n \<mapsto> node) \<and> fd_refs fd' = fd_refs fd"
proof -
  obtain tk where tk: "rd_task K t = Some tk" "tk_fds tk \<noteq> NULL" "ts_fdts K (tk_fds tk) = Some fd"
    using assms(1) by (auto simp: rd_fds_def bind_eq_Some_iff split: if_splits)
  have "wr_fds t fd' K = Some (K\<lparr>ts_fdts := (ts_fdts K)(tk_fds tk := Some fd')\<rparr>)"
    "rd_fds (K\<lparr>ts_fdts := (ts_fdts K)(tk_fds tk := Some fd')\<rparr>) t = Some fd'" for fd'
    using tk by (simp_all add: wr_fds_def rd_fds_def rd_task_def split: if_splits)
  with append_fd_law [OF assms(2-5)] assms(1) show ?thesis by (fastforce simp: task_append_fd_def)
qed

theorem descriptor_allocation_witness:
  "\<exists>n K' fd'. task_append_fd 200 9 [7, 7, 7, 7] (sample_tasks\<lparr>ts_tasks := [200 \<mapsto> (sample_task 1 201 202 401 15)\<lparr>tk_fds := 500\<rparr>],
       ts_fdts := [500 \<mapsto> \<lparr>fd_entries = [5, 6, 7, 8], fd_length = 4, fd_capacity = 4, fd_refs = 1\<rparr>]\<rparr>) = Some (of_nat n, K') \<and>
     rd_fds K' 200 = Some fd' \<and> fd_map fd' n = Some 9 \<and> fd_map fd' 2 \<noteq> None"
proof -
  let ?fd = "\<lparr>fd_entries = [5, 6, 7, 8], fd_length = 4, fd_capacity = 4, fd_refs = 1\<rparr>"
  let ?K = "sample_tasks\<lparr>ts_tasks := [200 \<mapsto> (sample_task 1 201 202 401 15)\<lparr>tk_fds := 500\<rparr>], ts_fdts := [500 \<mapsto> ?fd]\<rparr>"
  have "rd_fds ?K 200 = Some ?fd" "fd_ok ?fd" "(9 :: ptr) \<noteq> NULL" "unat (fd_capacity ?fd) < 2 ^ 31"
    "unat (fd_capacity ?fd) \<le> length [7, 7, 7, 7 :: ptr]"
    by (simp_all add: fd_ok_def rd_fds_def rd_task_def)
  from descriptor_allocation [OF this] obtain n K' fd' where *: "task_append_fd 200 9 [7, 7, 7, 7] ?K = Some (of_nat n, K')"
    "rd_fds K' 200 = Some fd'" "fd_map fd' = (fd_map ?fd)(n \<mapsto> 9)" by blast
  moreover have "fd_map ?fd 2 \<noteq> None" by (simp add: fd_map_def)
  ultimately have "fd_map fd' n = Some 9 \<and> fd_map fd' 2 \<noteq> None" by simp
  with * show ?thesis by blast
qed

text \<open>C37: The spin lock.  Under every interleaving at most one task is inside the lock, the lock word says whether
  one is, the waiters are counted exactly, and a task on its way to a free lock has it after at most four steps of
  its own.\<close>

theorem spin_mutual_exclusion:
  assumes "spin_reach (l, pc)"
  shows "(\<forall>p q. owns (pc p) \<longrightarrow> owns (pc q) \<longrightarrow> p = q) \<and> (lock_word l \<noteq> 0 \<longleftrightarrow> (\<exists>p. owns (pc p))) \<and>
     lock_waiters l = of_nat (card {p. counted (pc p)}) \<and>
     (\<forall>p. (\<forall>q. \<not> owns (pc q)) \<longrightarrow> wants (pc p) \<longrightarrow> (\<exists>k \<le> 4. snd (spin_run (l, pc) (replicate k p)) p = Holding))"
  using spin_reach_inv [OF assms] spin_acquires [of pc _ l] by (fastforce simp: spin_inv_def)

theorem spin_mutual_exclusion_witness:
  "let (l, pc) = spin_run spin_start [1, 1, 2, 2, 2] in pc 1 = Holding \<and> pc 2 = Waiting \<and> lock_waiters l = of_nat (card {p. counted (pc p)})"
proof -
  obtain l pc where r: "spin_run spin_start [1, 1, 2, 2, 2] = (l, pc)" by (cases "spin_run spin_start [1, 1, 2, 2, 2]")
  then have "spin_reach (l, pc)" using spin_reach_run [OF spin_reach.start] by metis
  from spin_mutual_exclusion [OF this] have "lock_waiters l = of_nat (card {p. counted (pc p)})" by blast
  moreover have "pc 1 = Holding" "pc 2 = Waiting"
    using r by (auto simp: spin_start_def spin_ops Let_def)
  ultimately show ?thesis unfolding r by simp
qed

section \<open>The kernel heap\<close>

text \<open>A heap with one bin, for requests of up to 2048 bytes, whose only cell is allocated, and an empty heap.\<close>

definition empty_slab :: kheap where
  "empty_slab = \<lparr>kh_headers = Map.empty, kh_links = (\<lambda>_. 0), kh_bins = replicate 10 0, kh_forward = replicate 7 0, kh_level = 0,
     kh_newest = 0, kh_rand = (123456789, 362436069, 521288629, 88675123), heap_tail = 0x101000, frame_ptr = 0x100000\<rparr>"

definition sample_slab :: kheap where
  "sample_slab = empty_slab\<lparr>heap_tail := 0x102000, kh_headers := [0x101000 \<mapsto> \<lparr>hd_next = 0, hd_head = 0, hd_size = 9,
     hd_prev = 0, hd_forward = []\<rparr>]\<rparr>"

lemma no_big_bins:
  assumes "\<And>b s. sizes K b = Some s \<Longrightarrow> s < 10" and "kh_forward K = replicate 7 0" and "kh_level K = 0" and "kh_newest K = 0"
  shows "big_ok K"
proof -
  have "\<not> big_bin K b" for b
    using assms(1) by (auto simp: big_bin_def)
  moreover have "skip_list K [] (\<lambda>_. 0)"
    using assms(2,3) by (auto simp: skip_list_def link_ring_def fwd_def)
  ultimately show ?thesis
    using assms(4) by (auto simp: big_ok_def intro!: exI [of _ "[]"] exI [of _ "\<lambda>_. 0"])
qed

lemma empty_slab_sizes: "sizes empty_slab b = None"
  by (simp add: sizes_def empty_slab_def)

lemma empty_slab_ok: "heap_ok empty_slab"
proof -
  have "small_ok empty_slab"
    by (auto simp: small_ok_def empty_slab_sizes, simp_all add: empty_slab_def exI [of _ "[]"])
  moreover have "big_ok empty_slab"
    by (rule no_big_bins) (simp_all add: empty_slab_sizes, simp_all add: empty_slab_def)
  ultimately show ?thesis
    by (simp add: heap_ok_def layout_ok_def above_def empty_slab_sizes, simp add: empty_slab_def)
qed

lemma sample_slab_views:
  "sizes sample_slab b = (if b = 0x101000 then Some 9 else None)" "head_of sample_slab b = 0" "heap_tail sample_slab = 0x102000"
  "frame_ptr sample_slab = 0x100000" "kh_bins sample_slab = replicate 10 0" "kh_links sample_slab = (\<lambda>_. 0)"
  by (simp_all add: sizes_def head_of_def sample_slab_def empty_slab_def)

lemma sample_slab_ok: "heap_ok sample_slab"
proof -
  have "bin_ok (\<lambda>_. 0) b k 0" if "k < 10" for b k
    by (rule bin_okI [of _ _ "[]"]) (use that in simp_all)
  then have "small_ok sample_slab"
    by (auto simp: small_ok_def sample_slab_views intro!: exI [of _ "[]"])
  moreover have "big_ok sample_slab"
    by (rule no_big_bins) (simp_all add: sample_slab_views split: if_splits, simp_all add: sample_slab_def empty_slab_def)
  ultimately show ?thesis
    by (simp add: heap_ok_def layout_ok_def above_def sample_slab_views extent_def)
qed

lemma sample_slab_live: "(0x101010, 2048) \<in> live_blocks sample_slab"
proof -
  have "cells 0x101000 9 = [0x101010]"
    by (simp add: cells_def available_def SMALLEST_BIN_LOG_def cell_def)
  then have 1: "0x101010 \<in> set (cells 0x101000 9)"
    by (simp only: list.set insert_iff simp_thms)
  have "free_cells (\<lambda>_. 0) 0 = []"
    by (rule stack_chain) simp_all
  then have 2: "0x101010 \<notin> set (free_cells (kh_links sample_slab) (head_of sample_slab 0x101000))"
    by (simp only: sample_slab_views list.set empty_iff not_False_eq_True)
  have nine: "(9 :: nat) < 10" by simp
  have 3: "sizes sample_slab 0x101000 = Some (of_nat 9)"
    by (simp add: sample_slab_views)
  have "(0x101010, 2 ^ (9 + 2)) \<in> small_live sample_slab"
    unfolding small_live_def using 1 2 3 nine by blast
  then show ?thesis by (simp add: live_blocks_def)
qed



text \<open>C7: \<^verbatim>\<open>free\<close> of an allocated block takes exactly this block out of the allocated ones, keeps the invariant, so
  that the memory can be handed out again, and does not move the end of the heap.\<close>

theorem free_takes_block_out:
  assumes "heap_ok K" and "(p, n) \<in> live_blocks K"
  shows "\<exists>K'. free p K = Some K' \<and> heap_ok K' \<and> live_blocks K' = live_blocks K - {(p, n)} \<and> heap_tail K' = heap_tail K"
  using assms by (rule free_law)

theorem free_takes_block_out_witness:
  "\<exists>K'. free 0x101010 sample_slab = Some K' \<and> heap_ok K' \<and> live_blocks K' = live_blocks sample_slab - {(0x101010, 2048)}
    \<and> heap_tail K' = heap_tail sample_slab"
  by (rule free_takes_block_out [OF sample_slab_ok sample_slab_live])





text \<open>C10: the skip list is a sorted list of the free big bins: the search gives the smallest one that is large
  enough, and none when there is none; the removal and the insertion take out and put in one bin.\<close>

theorem skip_list_sorted_set:
  assumes "skip_list K ns ht"
  shows "(\<exists>b. klmalloc_skip_list_findbest sz K = Some b \<and> (if b = NULL then \<forall>c\<in>set ns. size_of K c < sz
      else b \<in> set ns \<and> sz \<le> size_of K b \<and> (\<forall>c\<in>set ns. sz \<le> size_of K c \<longrightarrow> size_of K b \<le> size_of K c)))
    \<and> (\<forall>v. assert_value v K = Some () \<and> big_node K v \<and> v \<notin> set ns \<longrightarrow>
      (\<exists>K' ps qs ht'. klmalloc_skip_list_insert v K = Some K' \<and> ns = ps @ qs \<and> skip_list K' (ps @ v # qs) ht'))
    \<and> (\<forall>v ps qs. assert_value v K = Some () \<and> ns = ps @ v # qs \<and> (\<forall>n\<in>set ps. size_of K n < size_of K v) \<longrightarrow>
      (\<exists>K'. klmalloc_skip_list_delete v K = Some K' \<and> skip_list K' (ps @ qs) ht))"
proof (intro conjI)
  show "\<exists>b. klmalloc_skip_list_findbest sz K = Some b \<and> (if b = NULL then \<forall>c\<in>set ns. size_of K c < sz
      else b \<in> set ns \<and> sz \<le> size_of K b \<and> (\<forall>c\<in>set ns. sz \<le> size_of K c \<longrightarrow> size_of K b \<le> size_of K c))"
    by (rule findbest_smallest [OF assms])
qed (use skip_list_insert [OF assms] skip_list_delete [of K _ _ _ ht] assms in blast)+

definition sample_skip :: kheap where
  "sample_skip = empty_slab\<lparr>kh_headers := [0x101000 \<mapsto> \<lparr>hd_next = 0, hd_head = 0x101030, hd_size = 4048, hd_prev = 0, hd_forward = replicate 7 0\<rparr>,
     0x102000 \<mapsto> \<lparr>hd_next = 0, hd_head = 0x102030, hd_size = 8144, hd_prev = 0, hd_forward = replicate 7 0\<rparr>],
     kh_forward := 0x101000 # replicate 6 0\<rparr>"

lemma sample_skip_list: "skip_list sample_skip [0x101000] (\<lambda>_. 0)"
  unfolding skip_list_def
proof (intro conjI allI impI)
  fix i :: nat assume "i \<le> 6"
  show "link_ring (fwd sample_skip i) (filter (\<lambda>n. i \<le> 0) [0x101000])"
    using \<open>i \<le> 6\<close> by (cases i) (simp_all add: link_ring_def fwd_def sample_skip_def)
qed (simp_all add: sample_skip_def empty_slab_def big_node_def aligned_def page_sized_def NUM_BINS_def)

theorem skip_list_sorted_set_witness:
  "(\<exists>b. klmalloc_skip_list_findbest 4000 sample_skip = Some b \<and> (if b = NULL then \<forall>c\<in>set [0x101000]. size_of sample_skip c < 4000
      else b \<in> set [0x101000] \<and> 4000 \<le> size_of sample_skip b
        \<and> (\<forall>c\<in>set [0x101000]. 4000 \<le> size_of sample_skip c \<longrightarrow> size_of sample_skip b \<le> size_of sample_skip c)))
   \<and> (\<exists>K' ps qs ht'. klmalloc_skip_list_insert 0x102000 sample_skip = Some K' \<and> [0x101000] = ps @ qs \<and> skip_list K' (ps @ 0x102000 # qs) ht')
   \<and> (\<exists>K'. klmalloc_skip_list_delete 0x101000 sample_skip = Some K' \<and> skip_list K' ([] @ []) (\<lambda>_. 0))"
proof (intro conjI)
  have v: "assert_value 0x102000 sample_skip = Some ()" "big_node sample_skip 0x102000" "assert_value 0x101000 sample_skip = Some ()"
    by (simp_all add: assert_value_def rd_header_def sample_skip_def assert_def NUM_BINS_def big_node_def aligned_def page_sized_def)
  note t = skip_list_sorted_set [OF sample_skip_list]
  show "\<exists>b. klmalloc_skip_list_findbest 4000 sample_skip = Some b \<and> (if b = NULL then \<forall>c\<in>set [0x101000]. size_of sample_skip c < 4000
      else b \<in> set [0x101000] \<and> 4000 \<le> size_of sample_skip b
        \<and> (\<forall>c\<in>set [0x101000]. 4000 \<le> size_of sample_skip c \<longrightarrow> size_of sample_skip b \<le> size_of sample_skip c))"
    by (rule t [THEN conjunct1])
  show "\<exists>K' ps qs ht'. klmalloc_skip_list_insert 0x102000 sample_skip = Some K' \<and> [0x101000] = ps @ qs \<and> skip_list K' (ps @ 0x102000 # qs) ht'"
    by (rule t [THEN conjunct2, THEN conjunct1, rule_format]) (use v in simp)
  show "\<exists>K'. klmalloc_skip_list_delete 0x101000 sample_skip = Some K' \<and> skip_list K' ([] @ []) (\<lambda>_. 0)"
    by (rule t [THEN conjunct2, THEN conjunct2, rule_format]) (use v in simp)
qed



text \<open>C12: the size class of a request of up to 2048 bytes is the smallest one whose cells are large enough; larger
  requests go to the big bins.\<close>

theorem size_class_is_best_fit:
  assumes "0 < unat sz"
  shows "(unat sz \<le> 2048 \<longrightarrow> klmalloc_bin_size sz < 10 \<and> unat sz \<le> 2 ^ (klmalloc_bin_size sz + 2)
      \<and> (\<forall>j < klmalloc_bin_size sz. 2 ^ (j + 2) < unat sz))
    \<and> (2048 < unat sz \<longrightarrow> klmalloc_bin_size sz = BIG_BIN)"
  using bin_size_bucket [OF assms] by blast+

theorem size_class_is_best_fit_witness:
  "unat (100 :: u32) \<le> 2 ^ (klmalloc_bin_size 100 + 2) \<and> klmalloc_bin_size 2049 = BIG_BIN"
  using size_class_is_best_fit [of 100] size_class_is_best_fit [of 2049] by simp

text \<open>for the largest 48 requests the number of pages wraps around: \<^verbatim>\<open>malloc\<close> succeeds with a block of one
  page, 4048 bytes instead of nearly 4 GB.\<close>

theorem malloc_size_wraps:
  assumes "heap_ok K" and "0xFFFFFFD0 \<le> sz" and "unat (heap_tail K) + 4096 < 2 ^ 32"
  shows "\<exists>K'. malloc sz K = Some (heap_tail K + 48, K') \<and> sizes K' (heap_tail K) = Some 4048"
  using assms by (rule malloc_wraps)

theorem malloc_size_wraps_witness:
  "\<exists>K'. malloc 0xFFFFFFFF empty_slab = Some (heap_tail empty_slab + 48, K') \<and> sizes K' (heap_tail empty_slab) = Some 4048"
  by (rule malloc_size_wraps [OF empty_slab_ok]) (simp_all add: empty_slab_def)

section \<open>Pages\<close>

text \<open>An address space with tables for the first and the third four megabytes; the null page can be read.\<close>

definition sample_space :: paging where
  "sample_space = \<lparr>mm_dirs = [0x1000 \<mapsto> \<lparr>table_entries = (replicate 1024 zero_entry)[0 := zero_entry\<lparr>te_present := True\<rparr>, 2 := zero_entry\<lparr>te_present := True\<rparr>],
       dir_tables = (replicate 1024 0)[0 := 0x3000, 2 := 0x4000]\<rparr>],
     mm_tables = [0 \<mapsto> replicate 1024 zero_page, 0x3000 \<mapsto> replicate 1024 zero_page, 0x4000 \<mapsto> replicate 1024 zero_page],
     mm_heap = empty_slab, kernel_directory = 0x1000, curr_dir = 0x1000, page_count = 0x7FE0, table_count = 32,
     heap_head = KERNEL_HEAP_INIT, last_known_newpage = 0xC01000, is_paging_enabled = True\<rparr>"

lemma zero_bits: "\<not> te_present zero_entry" "\<not> pg_present zero_page"
  by (simp_all add: zero_entry_def entry_of_word_def zero_page_def page_of_word_def)

lemma sample_space_dir: "rd_dir sample_space (curr_dir sample_space) = Some
    \<lparr>table_entries = (replicate 1024 zero_entry)[0 := zero_entry\<lparr>te_present := True\<rparr>, 2 := zero_entry\<lparr>te_present := True\<rparr>],
     dir_tables = (replicate 1024 0)[0 := 0x3000, 2 := 0x4000]\<rparr>"
  by (simp add: sample_space_def rd_dir_def)

lemma sample_space_entry: "i < 1024 \<Longrightarrow>
    te_present ((replicate 1024 zero_entry)[0 := zero_entry\<lparr>te_present := True\<rparr>, 2 := zero_entry\<lparr>te_present := True\<rparr>] ! i) \<longleftrightarrow> i = 0 \<or> i = 2"
  by (auto simp: nth_list_update zero_bits)

lemma sample_space_table: "i < 1024 \<Longrightarrow>
    ((replicate 1024 0)[0 := 0x3000, 2 := 0x4000] :: ptr list) ! i = (if i = 0 then 0x3000 else if i = 2 then 0x4000 else 0)"
  by (auto simp: nth_list_update)

lemma sample_space_ok: "space_ok sample_space"
  unfolding space_ok_def using sample_space_dir
  by (intro exI [of _ "\<lparr>table_entries = (replicate 1024 zero_entry)[0 := zero_entry\<lparr>te_present := True\<rparr>, 2 := zero_entry\<lparr>te_present := True\<rparr>],
      dir_tables = (replicate 1024 0)[0 := 0x3000, 2 := 0x4000]\<rparr>"])
    (auto simp: sample_space_entry sample_space_table, simp_all add: sample_space_def)

lemma sample_space_present: "table_present a sample_space \<longleftrightarrow> table_index a = 0 \<or> table_index a = 2"
  by (simp add: table_present_def table_entry_at_def sample_space_dir sample_space_entry index_bounds)

lemma sample_space_page: "page_at a sample_space = Some zero_page"
  using index_bounds [of a] by (simp add: page_at_def sample_space_dir sample_space_table) (simp add: sample_space_def)

text \<open>The word the processor reads and the fields the code writes are the same page entry, in both directions.\<close>

theorem page_entry_roundtrip: "page_of_word (word_of_page p) = p \<and> word_of_page (page_of_word w) = w"
  by (simp add: page_of_word_of_page word_of_page_of_word)




text \<open>The loop over a range of pages ends with every page of the range mapped to itself and no other page
  changed, if the range ends below the last page of the address space; otherwise the counter wraps to 0 and the loop never ends.\<close>

theorem page_range_mapped:
  assumes "unat a mod 4096 = 0" and "space_ok M" and "\<And>b. a \<le> b \<Longrightarrow> b \<le> e \<Longrightarrow> table_present b M"
  shows "if e < 0xFFFFF000
    then \<exists>M'. alloc_pages kv k w a e M = Some M' \<and> space_ok M' \<and> (\<forall>b. table_present b M \<longrightarrow> table_present b M')
      \<and> (\<forall>b. table_present b M \<and> (b < a \<or> unat e div 4096 < unat b div 4096) \<longrightarrow> page_at b M' = page_at b M)
      \<and> (\<forall>b. a \<le> b \<and> b \<le> e \<longrightarrow> map_to_physical b M' = Some (b AND NOT 0xFFF))
    else alloc_pages kv k w a e M = None"
proof (cases "e < 0xFFFFF000")
  case True
  then show ?thesis using alloc_pages_law [OF True assms(2,1,3), of kv k w] by simp
next
  case False
  then show ?thesis using alloc_pages_endless [of e a kv k w M] assms(1) by simp
qed

theorem page_range_mapped_witness:
  "\<exists>M'. alloc_pages kvmalloc_locked False True 0xB8000 0xBF000 sample_space = Some M' \<and> map_to_physical 0xB9004 M' = Some 0xB9000
    \<and> page_at 0xC0000 M' = page_at 0xC0000 sample_space"
proof -
  have "table_index b = 0" if "0xB8000 \<le> b" "b \<le> 0xBF000" for b :: u32
    using that by (simp add: table_index_def unat_div word_le_nat_alt)
  then have t: "table_present b sample_space" if "0xB8000 \<le> b" "b \<le> 0xBF000" for b
    using that by (simp add: sample_space_present)
  have t': "table_present 0xC0000 sample_space"
    by (simp add: sample_space_present table_index_def)
  obtain M' where M': "alloc_pages kvmalloc_locked False True 0xB8000 0xBF000 sample_space = Some M'"
    "\<forall>b. table_present b sample_space \<and> (b < 0xB8000 \<or> unat (0xBF000 :: u32) div 4096 < unat b div 4096) \<longrightarrow> page_at b M' = page_at b sample_space"
    "\<forall>b. 0xB8000 \<le> b \<and> b \<le> 0xBF000 \<longrightarrow> map_to_physical b M' = Some (b AND NOT 0xFFF)"
    using page_range_mapped [of "0xB8000" sample_space "0xBF000" kvmalloc_locked False True, OF _ sample_space_ok t] by auto
  then show ?thesis
    using M'(3) [rule_format, of "0xB9004"] M'(2) [rule_format, of "0xC0000"] t' by simp
qed

text \<open>the search for a page ends, with the first free page from \<^verbatim>\<open>last_known_newpage\<close> on, or with 0 when none is
  free below the bound.  The bound is computed in 32 bits: with a multiple of 1024 pages it is 0, and no page is ever found.\<close>

theorem next_page_first_free:
  assumes "unat (last_known_newpage M) mod 4096 = 0"
    and "\<And>b. last_known_newpage M \<le> b \<Longrightarrow> b < page_limit M \<Longrightarrow> page_at b M \<noteq> None"
  shows "(\<exists>q. find_new_page M = Some q \<and> (first_free (last_known_newpage M) q M \<or> q = 0 \<and> none_free (last_known_newpage M) M))
    \<and> unat (page_limit M) = (unat (page_count M) mod 1024) * 0x400000
    \<and> (unat (page_count M) mod 1024 = 0 \<longrightarrow> find_new_page M = Some 0)"
  using find_page_from_law [OF assms] page_limit_table [of M] page_limit_zero(2) [of M] by (simp add: find_new_page_def)

theorem next_page_first_free_witness:
  "(\<exists>q. find_new_page sample_space = Some q \<and> (first_free 0xC01000 q sample_space \<or> q = 0 \<and> none_free 0xC01000 sample_space))
    \<and> find_new_page (sample_space\<lparr>page_count := 0x8000\<rparr>) = Some 0"
proof -
  define N where "N = sample_space\<lparr>page_count := 0x8000\<rparr>"
  have "page_at b N = page_at b sample_space" for b
    by (simp add: N_def page_at_def rd_dir_def)
  then have "page_at b N \<noteq> None" for b
    by (simp add: sample_space_page)
  moreover have "last_known_newpage sample_space = 0xC01000" "last_known_newpage N = 0xC01000" "page_count N = 0x8000"
    by (simp_all add: N_def sample_space_def)
  ultimately show ?thesis
    using next_page_first_free [of sample_space] next_page_first_free [of N] sample_space_page by (simp add: N_def)
qed

text \<open>C13: \<^verbatim>\<open>malloc\<close> with paging: a request inside the mapped part of the heap changes no page; a request that moves the
  end of the heap beyond it waits for ever for the lock it holds itself, as soon as the next page needs a new table.\<close>

theorem heap_growth_deadlocks:
  assumes "malloc sz (mm_heap M) = Some (p, K)" and "heap_tail (mm_heap M) \<noteq> 0" and "heap_tail (mm_heap M) < heap_tail K"
    and "find_new_page M = Some q" and "\<not> table_present (q - PAGE_SIZE) M"
  shows "kmalloc_plain sz M = (if heap_tail K \<le> heap_head M then Some (p, M\<lparr>mm_heap := K\<rparr>) else None)"
  using assms heap_call_inside [of "malloc sz" M p K] heap_call_waits [of "malloc sz" M p K q]
  by (simp add: kmalloc_plain_def kmalloc_def not_le)

lemma sample_space_next: "find_new_page sample_space = Some 0xC01000"
proof -
  have "last_known_newpage sample_space = 0xC01000" "page_limit sample_space = 0xF8000000"
    by (simp_all add: sample_space_def page_limit_def)
  then show ?thesis
    by (simp add: find_new_page_def find_page_from.simps sample_space_page zero_bits)
qed

theorem heap_growth_deadlocks_witness: "kmalloc_plain 0x800000 sample_space = None"
proof -
  have h: "mm_heap sample_space = empty_slab" "heap_tail empty_slab = 0x101000" "heap_head sample_space = 0x800000"
    by (simp_all add: sample_space_def empty_slab_def KERNEL_HEAP_INIT_def)
  obtain p n K where K: "malloc 0x800000 empty_slab = Some (p, K)" "heap_ok K" "0x800000 \<le> n" "(p, n) \<in> live_blocks K"
    using slab.alloc_ok [OF empty_slab_ok, of "0x800000"] h(2) by auto
  have "0 < unat p" "unat p + n \<le> unat (heap_tail K)"
    using live_above(1,2) [OF K(2,4)] by (auto simp: word_less_nat_alt)
  then have "0x800000 < unat (heap_tail K)" using K(3) by simp
  then have "0x800000 < heap_tail K" by (simp add: word_less_nat_alt)
  moreover from this have "0x101000 < heap_tail K"
    by (rule order_less_trans [rotated]) simp
  moreover have "\<not> table_present (0xC01000 - PAGE_SIZE) sample_space"
    by (simp add: sample_space_present table_index_def)
  ultimately show ?thesis
    using heap_growth_deadlocks [of "0x800000" sample_space p K "0xC01000"] K(1) sample_space_next h
    by (auto simp: not_le [symmetric])
qed

text \<open>\<^verbatim>\<open>clone_table\<close> gives the copy the frames of the source: after a copy of an address space both use the same
  memory for every present page, with the same rights.\<close>

theorem clone_shares_frames:
  assumes "clone_table fresh src M = Some (t, phys, M')" and "t \<noteq> src" and "length (fresh t) = PAGES_PER_TABLE"
    and "mm_tables M' src = Some ps" and "length ps = PAGES_PER_TABLE" and "i < PAGES_PER_TABLE"
  shows "\<exists>ts. mm_tables M' t = Some ts \<and> length ts = PAGES_PER_TABLE \<and> pg_present (ts ! i) = pg_present (ps ! i)
    \<and> (pg_present (ps ! i) \<longrightarrow> phys_addr (ts ! i) = phys_addr (ps ! i) \<and> pg_rw (ts ! i) = pg_rw (ps ! i) \<and> pg_user (ts ! i) = pg_user (ps ! i))"
  using assms by (rule clone_table_shares)

definition early_space :: paging where
  "early_space = sample_space\<lparr>mm_heap := empty_slab\<lparr>heap_tail := 0\<rparr>,
     mm_tables := (mm_tables sample_space)(0x3000 := Some (replicate 1024 (zero_page\<lparr>pg_present := True, phys_addr := 77\<rparr>)))\<rparr>"

theorem clone_shares_frames_witness:
  "\<exists>t phys M' ts. clone_table (\<lambda>_. replicate 1024 zero_page) 0x3000 early_space = Some (t, phys, M') \<and> mm_tables M' t = Some ts
    \<and> pg_present (ts ! 5) \<and> phys_addr (ts ! 5) = 77"
proof -
  have "kvmalloc_p 4096 early_space = Some (0x101000, 0x101000, snd (early_kmalloc 4096 True early_space))"
    by (simp add: kvmalloc_p_def kmalloc_def early_kmalloc_def early_space_def empty_slab_def Let_def)
  moreover have "mm_tables (snd (early_kmalloc 4096 True early_space)) 0x3000 = Some (replicate 1024 (zero_page\<lparr>pg_present := True, phys_addr := 77\<rparr>))"
    by (simp add: early_kmalloc_def early_space_def Let_def)
  ultimately obtain M' where M': "clone_table (\<lambda>_. replicate 1024 zero_page) 0x3000 early_space = Some (0x101000, 0x101000, M')"
    "mm_tables M' 0x3000 = Some (replicate 1024 (zero_page\<lparr>pg_present := True, phys_addr := 77\<rparr>))"
    by (simp add: clone_table_def)
  show ?thesis
    using clone_shares_frames [OF M'(1) _ _ M'(2), where i = 5] M'(1) by (auto simp: PAGES_PER_TABLE_def)
qed

section \<open>Interrupts\<close>

text \<open>C32: disabled sections nest: with interrupts on at the start, they are on again exactly when as many sections have been closed as
  opened, and the count is the depth; inside a section of another caller they stay off.  Only when they are off and the count is
  0, as in the first interrupt of all, the end of the outermost section turns them on.\<close>

theorem disabled_sections_nest:
  assumes "open_sections 0 ops = Some n" and "unat (sync_depth K) + length ops < 2 ^ 32 - 2"
  shows "(interrupt_flag K \<longrightarrow> interrupt_flag (section_run ops K) = (n = 0)
      \<and> (n > 0 \<longrightarrow> sync_depth (section_run ops K) = of_nat n))
    \<and> (\<not> interrupt_flag K \<and> sync_depth K \<noteq> 0 \<longrightarrow> \<not> interrupt_flag (section_run ops K)
      \<and> sync_depth (section_run ops K) = sync_depth K + of_nat n)
    \<and> (\<not> interrupt_flag K \<and> sync_depth K = 0 \<longrightarrow> interrupt_flag (section_run (Disable # ops @ [Resume]) K) = (n = 0))"
proof -
  have app: "section_run (ops @ ops') K = section_run ops' (section_run ops K)" for ops' K
    by (induction ops K rule: section_run.induct) simp_all
  have shift: "open_sections k ops = Some m \<Longrightarrow> open_sections (Suc k) ops = Some (Suc m)" for k m ops
    by (induction k ops rule: open_sections.induct) simp_all
  show ?thesis
  proof (intro conjI impI; (elim conjE)?)
    assume "interrupt_flag K"
    then have "nested 0 n (section_run ops K)" using nested_run [of 0 0 K, OF _ assms(1)] assms(2) by (simp add: nested_def)
    then show "interrupt_flag (section_run ops K) = (n = 0)" "n > 0 \<Longrightarrow> sync_depth (section_run ops K) = of_nat n"
      by (auto simp: nested_def split: if_splits)
  next
    assume K: "\<not> interrupt_flag K" "sync_depth K \<noteq> 0"
    then have "0 < unat (sync_depth K)" by (simp add: unat_gt_0)
    then have "nested (unat (sync_depth K)) n (section_run ops K)"
      using nested_run [of "unat (sync_depth K)" 0 K, OF _ assms(1)] assms(2) K by (simp add: nested_def)
    then show "\<not> interrupt_flag (section_run ops K)" "sync_depth (section_run ops K) = sync_depth K + of_nat n"
      using K by (auto simp: nested_def unat_eq_0 split: if_splits)
  next
    assume K: "\<not> interrupt_flag K" "sync_depth K = 0"
    then have "nested 0 (Suc 0) (int_disable K)" by (simp add: nested_def int_disable_def)
    then have r: "nested 0 (Suc n) (section_run ops (int_disable K))"
      using nested_run [of 0 "Suc 0" "int_disable K", OF _ shift [OF assms(1)]] assms(2) by simp
    have "n \<le> length ops" using open_sections_bound [OF assms(1)] by simp
    then have "nested 0 n (int_resume (section_run ops (int_disable K)))"
      using nested_step(2) [of 0 n] r assms(2) by simp
    then show "interrupt_flag (section_run (Disable # ops @ [Resume]) K) = (n = 0)"
      by (simp add: app nested_def split: if_splits)
  qed
qed

definition no_handlers :: irq_state where
  "no_handlers = \<lparr>interrupt_flag = True, sync_depth = 0, irq_routines = replicate 64 0, irq_commands = []\<rparr>"

theorem disabled_sections_nest_witness:
  "\<not> interrupt_flag (section_run [Disable, Disable, Resume] no_handlers) \<and> sync_depth (section_run [Disable, Disable, Resume] no_handlers) = 1"
proof -
  have "open_sections 0 [Disable, Disable, Resume] = Some 1" by simp
  from disabled_sections_nest [OF this, of no_handlers] show ?thesis by (simp add: no_handlers_def)
qed

text \<open>C33: an interrupt line has at most four handlers, asked in the order of their installation until one takes the interrupt; a
  fifth is dropped without notice, and the other lines are not touched.  When none takes it the controller is told twice that the
  interrupt has ended.\<close>

theorem interrupt_chain:
  assumes "line_handlers K k hs" and "unat k < 16" and "h \<noteq> 0" and "\<And>h K. irq_routines (snd (call h K)) = irq_routines K"
  shows "\<exists>K'. irq_install_handler k h K = Some K' \<and> line_handlers K' k (take 4 (hs @ [h]))
    \<and> (\<forall>k' hs'. unat k' < 16 \<longrightarrow> k' \<noteq> k \<longrightarrow> line_handlers K k' hs' \<longrightarrow> line_handlers K' k' hs')
    \<and> irq_handler call (32 + k) K' = (let (taken, L) = ask call (take 4 (hs @ [h])) (int_disable K') in
        Some (int_resume (irq_ack k (if taken then L else irq_ack k L))))"
proof -
  obtain K' where K': "irq_install_handler k h K = Some K'" "line_handlers K' k (take 4 (hs @ [h]))"
    "\<forall>k' hs'. unat k' < 16 \<longrightarrow> k' \<noteq> k \<longrightarrow> line_handlers K k' hs' \<longrightarrow> line_handlers K' k' hs'"
    using install_law [OF assms(1-3)] by blast
  have "line_handlers (int_disable K') k (take 4 (hs @ [h]))"
    using K'(2) by (simp add: line_handlers_def int_disable_def)
  then have r: "run_chain call [0, 1, 2, 3] k (int_disable K') = Some (ask call (take 4 (hs @ [h])) (int_disable K'))"
    by (rule run_chain_law [OF _ assms(2,4)])
  obtain taken L where a: "ask call (take 4 (hs @ [h])) (int_disable K') = (taken, L)" by fastforce
  have minus: "32 + k - 32 = k" by simp
  have valid: "irq_is_valid (32 + k)"
    using assms(2) by (simp add: irq_is_valid_def word_le_nat_alt unat_word_ariths)
  have "irq_handler call (32 + k) K' = Some (int_resume (irq_ack k (if taken then L else irq_ack k L)))"
    using valid by (simp only: irq_handler_def Let_def minus r a if_True bind.bind_lunit split)
  then show ?thesis using K' a by simp
qed

theorem interrupt_chain_witness:
  "\<exists>K'. irq_install_handler 14 7 no_handlers = Some K'
    \<and> irq_handler (\<lambda>h K. (True, K\<lparr>irq_commands := []\<rparr>)) 46 K' = Some (int_resume (irq_ack 14 ((int_disable K')\<lparr>irq_commands := []\<rparr>)))"
proof -
  have "line_handlers no_handlers 14 []" by (simp add: line_handlers_def no_handlers_def)
  from interrupt_chain [OF this, of 7 "\<lambda>h K. (True, K\<lparr>irq_commands := []\<rparr>)"] show ?thesis by auto
qed

section \<open>Clocks\<close>

text \<open>C36: the clock answers with the seconds from 1970 to its date in the calendar, with the month, the day and the time that it shows;
  the year is the one that was in the memory before, since the register of the year is not read.\<close>

theorem clock_seconds:
  assumes "cmos_holds P reg" and "length mem = 128"
    and "unat (bcd_to_bin (reg 8)) \<in> {1..12}" and "1 \<le> unat (bcd_to_bin (reg 7))"
  shows "\<exists>mem' d'. rtc_get_time_secs P mem d = Some (of_nat (86400 * ((\<Sum>y\<in>{1970..<2000 + unat (bcd_to_bin (mem ! 9))}. year_days y)
        + (\<Sum>m\<leftarrow>[1..<unat (bcd_to_bin (reg 8))]. month_days (2000 + unat (bcd_to_bin (mem ! 9))) m) + (unat (bcd_to_bin (reg 7)) - 1))
      + 3600 * unat (bcd_to_bin (reg 4)) + 60 * unat (bcd_to_bin (reg 2)) + unat (bcd_to_bin (reg 0))), mem', d')
    \<and> length mem' = 128 \<and> mem' ! 9 = mem ! 9"
  using rtc_secs_law [OF assms(1,2) _ _ assms(4), of d] assms(3) by (simp only: date_secs_def days_to_def atLeastAtMost_iff)

text \<open>A clock that shows the first of March 2016, 12:30:59; its second port selects a register.\<close>

definition march_regs :: "nat \<Rightarrow> u8" where
  "march_regs i = (if i = 0 then 0x59 else if i = 2 then 0x30 else if i = 4 then 0x12 else if i = 7 then 1
     else if i = 8 then 3 else if i = 9 then 0x16 else 0)"

definition march_clock :: "u8 ports" where
  "march_clock = \<lparr>port_out = \<lambda>p v d. if p = 0x70 then v AND 0x7F else d, port_in = \<lambda>p d. (march_regs (unat d), d),
     port_outs = \<lambda>p bs d. d, port_ins = \<lambda>p n d. ([], d)\<rparr>"

lemma march_selects: "i < 128 \<Longrightarrow> (0x80 OR of_nat i) AND 0x7F = (of_nat i :: u8)"
proof -
  assume "i < 128"
  then have "take_bit 7 (of_nat i :: u8) = of_nat i"
    by (intro word_unat_eq_iff [THEN iffD2]) (simp add: unsigned_take_bit_eq take_bit_nat_eq_self unat_of_nat_small)
  moreover have "(0x7F :: u8) = mask 7" by (simp add: mask_eq_decr_exp)
  moreover have "(0x80 :: u8) AND 0x7F = 0" by simp
  ultimately show ?thesis by (simp add: word_ao_dist take_bit_eq_mask)
qed

lemma march_holds: "cmos_holds march_clock march_regs"
  by (simp add: cmos_holds_def march_clock_def march_selects unat_of_nat_small)

text \<open>1\,456\,835\,459 is the first of March 2016, 12:30:59, but a memory that is empty at the start gives the year 2000.\<close>

theorem clock_seconds_witness:
  "\<exists>mem' d'. rtc_get_time_secs march_clock (replicate 128 0) 0 = Some (951913859, mem', d')"
proof -
  have "bcd_to_bin (march_regs 8) = 3" "bcd_to_bin (march_regs 7) = 1" "bcd_to_bin (march_regs 4) = 12"
    "bcd_to_bin (march_regs 2) = 30" "bcd_to_bin (march_regs 0) = 59" "bcd_to_bin 0 = 0"
    by (simp_all add: march_regs_def bcd_to_bin_def)
  moreover have "(\<Sum>y\<leftarrow>[1970..<2000]. year_days y) = 10957" by (simp add: upt_rec year_days_def leap_def)
  then have "(\<Sum>y\<in>{1970..<2000}. year_days y) = 10957" by (simp only: interv_sum_list_conv_sum_set_nat set_upt)
  moreover have "(\<Sum>m\<leftarrow>[1..<3]. month_days 2000 m) = 60" by (simp add: upt_rec month_days_def leap_def)
  ultimately show ?thesis
    using clock_seconds [OF march_holds, of "replicate 128 0" 0] by auto
qed

text \<open>C35: the timer counts its ticks: after \<open>n\<close> of them the seconds and fractions have grown by \<open>n\<close>, and the fraction stays below
  the frequency; the moment that \<^verbatim>\<open>relative_time\<close> gives is as far away as asked for.  When that moment falls on a full second,
  however, its fraction is the frequency itself, and a process that compares both numbers with the timer waits for ever.\<close>

theorem timer_counts:
  assumes "timer_ok K" and "timer_total K + n < (2 ^ 32 - 1) * unat (current_hz K)"
    and "unat (pit_ticks K) + unat s + 1 < 2 ^ 32" and "unat (current_hz K) + unat f < 2 ^ 32" and "relative_time s f K = (t, u)"
  shows "timer_ok ((pit_count ^^ n) K) \<and> timer_total ((pit_count ^^ n) K) = timer_total K + n
    \<and> unat t * unat (current_hz K) + unat u = timer_total K + unat s * unat (current_hz K) + unat f
    \<and> (f < current_hz K \<longrightarrow> u \<le> current_hz K)
    \<and> (u = current_hz K \<longrightarrow> \<not> (t \<le> pit_ticks ((pit_count ^^ n) K) \<and> u \<le> pit_subticks ((pit_count ^^ n) K)))"
proof -
  note steps = timer_steps [OF assms(1,2)]
  note rel = relative_time_law [OF assms(1,3,4,5)]
  show ?thesis using steps rel(1,2) rel(3) [of "(pit_count ^^ n) K"] by (simp add: word_less_nat_alt)
qed

definition late_timer :: pit where
  "late_timer = \<lparr>pit_servicing = True, pit_cbacks = hashmap_create 16, pit_cback_count = 0, current_hz = 1000, pit_ticks = 5,
     pit_subticks = 990, services_names = replicate 16 None, next_available_service = 0\<rparr>"

theorem timer_counts_witness:
  "timer_total ((pit_count ^^ 2000) late_timer) = 7990
    \<and> relative_time 0 10 late_timer = (5, 1000)
    \<and> \<not> (5 \<le> pit_ticks ((pit_count ^^ 2000) late_timer) \<and> 1000 \<le> pit_subticks ((pit_count ^^ 2000) late_timer))"
proof -
  have r: "relative_time 0 10 late_timer = (5, 1000)" by (simp add: relative_time_def late_timer_def)
  have k: "timer_ok late_timer" "timer_total late_timer = 5990" "unat (current_hz late_timer) = 1000" "unat (pit_ticks late_timer) = 5"
    "current_hz late_timer = 1000"
    by (simp_all add: timer_ok_def timer_total_def late_timer_def)
  show ?thesis using timer_counts [OF k(1) _ _ _ r, of 2000] k(2-5) r by simp
qed

text \<open>C34: the timer calls its services on every tick, in the order of their installation.  A name is installed once, the
  seventeenth service is refused, the last service is removed cleanly; removing any other leaves an empty name, and the next tick
  compares with it.\<close>

theorem services_in_order:
  assumes "services K ns"
  shows "pit_handler K = Some (if pit_servicing K then map snd ns else [], pit_count K)
    \<and> (nul_free name \<and> a \<noteq> 0 \<longrightarrow> (if name \<in> fst ` set ns \<or> length ns = 16 then pit_install_cback name (Some a) K = Some K
      else \<exists>K'. pit_install_cback name (Some a) K = Some K' \<and> services K' (ns @ [(name, a)]) \<and> pit_servicing K' = pit_servicing K))
    \<and> (\<forall>xs name a ys. ns = xs @ (name, a) # ys \<longrightarrow> (\<exists>K'. pit_uninstall_cback name K = Some K' \<and> pit_servicing K' = pit_servicing K
      \<and> (if ys = [] then services K' xs else pit_servicing K \<longrightarrow> pit_handler K' = None)))"
proof (intro conjI allI impI)
  show "pit_handler K = Some (if pit_servicing K then map snd ns else [], pit_count K)" by (rule pit_handler_law [OF assms])
  show "if name \<in> fst ` set ns \<or> length ns = 16 then pit_install_cback name (Some a) K = Some K
      else \<exists>K'. pit_install_cback name (Some a) K = Some K' \<and> services K' (ns @ [(name, a)]) \<and> pit_servicing K' = pit_servicing K"
    if "nul_free name \<and> a \<noteq> 0" using that pit_install_law [OF assms] by blast
  show "\<exists>K'. pit_uninstall_cback name K = Some K' \<and> pit_servicing K' = pit_servicing K
      \<and> (if ys = [] then services K' xs else pit_servicing K \<longrightarrow> pit_handler K' = None)" if "ns = xs @ (name, a) # ys" for xs name a ys
    using that assms by (blast intro: pit_uninstall_law)
qed

theorem services_in_order_witness:
  "pit_handler (fst (pit_init march_clock 0)) = Some ([], pit_count (fst (pit_init march_clock 0)))
    \<and> (\<exists>K. pit_install_cback [98, 101, 112] (Some 4096) (fst (pit_init march_clock 0)) = Some K \<and> services K [([98, 101, 112], 4096)])"
  using services_in_order [OF services_start [of march_clock 0], of "[98, 101, 112]" 4096] by (auto simp: nul_free_def pit_init_def pit_sethz_def)

end
